(* ===== verification/Prelude.thy ===== *)
theory Prelude
  imports Main "HOL-Library.Word" "HOL-Library.Monad_Syntax"
begin

text \<open>
  Shared vocabulary of the development: the machine integers of the target (a 32-bit ARM with
  8-bit bytes and an unsigned plain \<open>char\<close>), C's conversions between \<open>int\<close> and \<open>unsigned\<close>,
  the copy of a run of bytes between two objects, and the lemma collections the component
  theories fill.

  \<^item> a C \<open>int\<close> or \<open>long\<close> is an \<open>int\<close> read through \<open>wrap_s32\<close> where it may leave the 32-bit range;
  \<^item> a C \<open>unsigned\<close> is an \<open>int\<close> read through \<open>wrap_u32\<close>, or a \<open>nat\<close> where it only counts;
  \<^item> an operation that C leaves undefined (an access outside an object, a division by zero) or that
    does not return is \<open>None\<close>.
\<close>

type_synonym u8 = "8 word"
type_synonym u16 = "16 word"
type_synonym u32 = "32 word"

section \<open>Collections\<close>

named_theorems ring_simps \<open>arithmetic of ring-buffer offsets\<close>
named_theorems cint_simps \<open>C integer conversions on values already in range\<close>

section \<open>C integer conversions\<close>

definition wrap_u32 :: "int \<Rightarrow> int" where
  "wrap_u32 x = x mod 2 ^ 32"

definition wrap_s32 :: "int \<Rightarrow> int" where
  "wrap_s32 x = (x + 2 ^ 31) mod 2 ^ 32 - 2 ^ 31"

lemma wrap_u32_id [cint_simps]: "0 \<le> x \<Longrightarrow> x < 2 ^ 32 \<Longrightarrow> wrap_u32 x = x"
  by (simp add: wrap_u32_def)

lemma wrap_s32_id [cint_simps]: "- (2 ^ 31) \<le> x \<Longrightarrow> x < 2 ^ 31 \<Longrightarrow> wrap_s32 x = x"
  by (simp add: wrap_s32_def)

lemma wrap_u32_range: "0 \<le> wrap_u32 x \<and> wrap_u32 x < 2 ^ 32"
  by (simp add: wrap_u32_def)

lemma wrap_s32_range: "- (2 ^ 31) \<le> wrap_s32 x \<and> wrap_s32 x < 2 ^ 31"
proof -
  have "0 \<le> (x + 2 ^ 31) mod 2 ^ 32" and "(x + 2 ^ 31) mod 2 ^ 32 < (2 ^ 32 :: int)"
    by (simp_all del: power_numeral)
  then show ?thesis by (simp add: wrap_s32_def)
qed

lemma wrap_s32_large: "2 ^ 31 \<le> x \<Longrightarrow> x < 2 ^ 32 \<Longrightarrow> wrap_s32 x = x - 2 ^ 32"
proof -
  assume a: "2 ^ 31 \<le> x" "x < 2 ^ 32"
  then have "(x + 2 ^ 31) mod 2 ^ 32 = (x + 2 ^ 31 - 2 ^ 32) mod 2 ^ 32"
    by (simp del: power_numeral)
  also have "\<dots> = x + 2 ^ 31 - 2 ^ 32"
    using a by (intro mod_pos_pos_trivial) auto
  finally show ?thesis by (simp add: wrap_s32_def)
qed

section \<open>Objects as byte lists\<close>

text \<open>
  \<open>copy_bytes dst d src s n\<close> is \<open>memcpy (dst + d, src + s, n)\<close> between two distinct objects.
  A negative count (a huge \<open>size_t\<close>) or a range that leaves an object has no result.
\<close>

definition copy_bytes :: "'a list \<Rightarrow> int \<Rightarrow> 'a list \<Rightarrow> int \<Rightarrow> int \<Rightarrow> 'a list option" where
  "copy_bytes dst d src s n =
     (if 0 \<le> n \<and> 0 \<le> d \<and> 0 \<le> s \<and> d + n \<le> int (length dst) \<and> s + n \<le> int (length src)
      then Some (take (nat d) dst @ take (nat n) (drop (nat s) src) @ drop (nat d + nat n) dst)
      else None)"

lemma length_copy_bytes: "copy_bytes dst d src s n = Some dst' \<Longrightarrow> length dst' = length dst"
  by (auto simp: copy_bytes_def nat_le_iff split: if_splits)

lemma copy_bytes_Some:
  "0 \<le> n \<Longrightarrow> 0 \<le> d \<Longrightarrow> 0 \<le> s \<Longrightarrow> d + n \<le> int (length dst) \<Longrightarrow> s + n \<le> int (length src) \<Longrightarrow>
   copy_bytes dst d src s n =
     Some (take (nat d) dst @ take (nat n) (drop (nat s) src) @ drop (nat d + nat n) dst)"
  by (simp add: copy_bytes_def)

lemma splice_nth:
  assumes "d + n \<le> length dst" and "s + n \<le> length src"
  shows "(take d dst @ take n (drop s src) @ drop (d + n) dst) ! i =
         (if d \<le> i \<and> i < d + n then src ! (s + (i - d)) else dst ! i)"
proof -
  consider "i < d" | "d \<le> i" "i < d + n" | "d + n \<le> i" by linarith
  then show ?thesis
  proof cases
    case 1 then show ?thesis using assms by (simp add: nth_append)
  next
    case 2
    then have "i - d < n" by linarith
    with 2 show ?thesis using assms by (simp add: nth_append)
  next
    case 3
    then have "\<not> i - d < n" "d + n + (i - d - n) = i" by linarith+
    with 3 show ?thesis using assms by (simp add: nth_append)
  qed
qed

lemma copy_bytes_nth:
  assumes c: "copy_bytes dst d src s n = Some dst'" and i: "0 \<le> i"
  shows "dst' ! nat i = (if d \<le> i \<and> i < d + n then src ! nat (s + (i - d)) else dst ! nat i)"
proof -
  have r: "0 \<le> n" "0 \<le> d" "0 \<le> s" "d + n \<le> int (length dst)" "s + n \<le> int (length src)"
    and dst': "dst' = take (nat d) dst @ take (nat n) (drop (nat s) src) @ drop (nat d + nat n) dst"
    using c by (simp_all add: copy_bytes_def split: if_splits)
  have "nat d + nat n \<le> length dst" and "nat s + nat n \<le> length src" using r by linarith+
  from splice_nth [OF this, of "nat i"] show ?thesis
    using r i by (simp add: dst' nat_le_eq_zle nat_less_iff nat_add_distrib nat_diff_distrib)
qed

section \<open>Lists\<close>

lemma take_add_drop: "take m xs @ take n (drop m xs) = take (m + n) xs"
  by (simp add: take_add)

lemma length_filter_Cons: "length (filter P (x # xs)) = (if P x then 1 else 0) + length (filter P xs)"
  by simp

end
