(* ===== verification/Storm.thy ===== *)
theory Storm
  imports Prelude
begin

text \<open>
  The runtime of the payload: \<open>src/test/libstorm.cc\<close> with the templates of \<open>libstorm.h\<close>. Timers, UDP
  sockets and I2C operations are objects whose address the kernel holds as the argument of a callback;
  each owns itself through the shared pointer \<open>self\<close> for as long as the kernel may use that address.
  Interrupts and timers do not call user code but put it on the task queue.

  The kernel is not part of the repository. What it answers to a system call is an argument of the
  operation, and the calls it made and got are the field \<open>events\<close> of the state, newest first. User
  callbacks are values of the type \<open>'c\<close>.
\<close>

section \<open>Shared pointers\<close>

text \<open>
  An object behind \<open>std::shared_ptr\<close>: it lives while it owns itself (\<open>self\<close>) or the user holds one of
  \<open>use_count\<close> pointers to it. A table maps addresses to the objects that live there.
\<close>

record 'a shared =
  body :: 'a
  self_ref :: bool
  use_count :: nat

type_synonym 'a objs = "nat \<Rightarrow> 'a shared option"

definition obj_free :: "nat \<Rightarrow> 'a objs \<Rightarrow> 'a objs" where
  "obj_free p objs =
     (case objs p of None \<Rightarrow> objs
      | Some x \<Rightarrow> if \<not> self_ref x \<and> use_count x = 0 then objs(p := None) else objs)"

definition obj_new :: "nat \<Rightarrow> 'a \<Rightarrow> 'a objs \<Rightarrow> 'a objs" where
  "obj_new p b objs = objs(p \<mapsto> \<lparr>body = b, self_ref = True, use_count = 1\<rparr>)"

text \<open>\<open>self.reset()\<close>\<close>

definition self_reset :: "nat \<Rightarrow> 'a objs \<Rightarrow> 'a objs" where
  "self_reset p objs =
     (case objs p of None \<Rightarrow> objs | Some x \<Rightarrow> obj_free p (objs(p \<mapsto> x\<lparr>self_ref := False\<rparr>)))"

text \<open>User code copies a pointer it holds, or lets one go.\<close>

definition ptr_copy :: "nat \<Rightarrow> 'a objs \<Rightarrow> 'a objs" where
  "ptr_copy p objs =
     (case objs p of None \<Rightarrow> objs | Some x \<Rightarrow> objs(p \<mapsto> x\<lparr>use_count := use_count x + 1\<rparr>))"

definition ptr_drop :: "nat \<Rightarrow> 'a objs \<Rightarrow> 'a objs" where
  "ptr_drop p objs =
     (case objs p of None \<Rightarrow> objs | Some x \<Rightarrow> obj_free p (objs(p \<mapsto> x\<lparr>use_count := use_count x - 1\<rparr>)))"

section \<open>State\<close>

record pin =
  pin_idx :: u16
  pin_spec :: u16

definition board_pins :: "pin list" where
  "board_pins =
     [\<lparr>pin_idx = 0, pin_spec = 0x0109\<rparr>, \<lparr>pin_idx = 1, pin_spec = 0x010A\<rparr>, \<lparr>pin_idx = 2, pin_spec = 0x0010\<rparr>,
      \<lparr>pin_idx = 3, pin_spec = 0x000C\<rparr>, \<lparr>pin_idx = 4, pin_spec = 0x0209\<rparr>, \<lparr>pin_idx = 5, pin_spec = 0x000A\<rparr>,
      \<lparr>pin_idx = 6, pin_spec = 0x000B\<rparr>, \<lparr>pin_idx = 7, pin_spec = 0x0013\<rparr>, \<lparr>pin_idx = 8, pin_spec = 0x000D\<rparr>,
      \<lparr>pin_idx = 9, pin_spec = 0x010B\<rparr>, \<lparr>pin_idx = 10, pin_spec = 0x010C\<rparr>, \<lparr>pin_idx = 11, pin_spec = 0x010F\<rparr>,
      \<lparr>pin_idx = 12, pin_spec = 0x010E\<rparr>, \<lparr>pin_idx = 13, pin_spec = 0x010D\<rparr>, \<lparr>pin_idx = 14, pin_spec = 0x0105\<rparr>,
      \<lparr>pin_idx = 15, pin_spec = 0x0104\<rparr>, \<lparr>pin_idx = 16, pin_spec = 0x0103\<rparr>, \<lparr>pin_idx = 17, pin_spec = 0x0102\<rparr>,
      \<lparr>pin_idx = 18, pin_spec = 0x0007\<rparr>, \<lparr>pin_idx = 19, pin_spec = 0x0005\<rparr>, \<lparr>pin_idx = 20, pin_spec = 0x020A\<rparr>]"

definition GP0 :: pin where "GP0 = \<lparr>pin_idx = 20, pin_spec = 0x020A\<rparr>"

record 'c timer_obj =
  timer_id :: u16
  is_periodic :: bool
  timer_cb :: 'c

record 'c sock_obj =
  sock_id :: u32
  sock_cb :: 'c

text \<open>\<open>I2CWOperation\<close> and \<open>I2CROperation\<close>; the payload is gone once it was moved into the callback.\<close>

record 'c i2c_obj =
  i2c_payload :: "u8 list option"
  i2c_cb :: 'c

record udp_recv =
  recv_buffer :: "u8 list"
  recv_buflen :: u32
  recv_src_address :: "u8 list"
  recv_port :: u32
  recv_lqi :: u8
  recv_rssi :: u8

record packet =
  pkt_payload :: "u8 list"
  pkt_strsrc :: "u8 list"
  pkt_src :: "u8 list"
  pkt_port :: u16
  pkt_lqi :: u8
  pkt_rssi :: u8

text \<open>Arguments of system calls: numbers, code, addresses of objects, and buffers by their contents.\<close>

datatype code_ptr = tmr_entry | irq_entry | udp_entry | i2c_wentry | i2c_rentry

datatype svc_arg = Num u32 | Code code_ptr | Obj nat | Buf "u8 list"

datatype callback = TmrCb nat | IrqCb u32 | UdpCb nat udp_recv "u8 list" | I2cCb nat int

datatype 'c event =
    Svc u32 "svc_arg list" u32
  | Called callback
  | Queued 'c
  | Fired 'c
  | Packet 'c packet
  | I2cDone 'c int "u8 list option"

record 'c storm =
  dyn_tq :: "'c list"
  irq_ptrs :: "'c option list"
  timers :: "'c timer_obj objs"
  socks :: "'c sock_obj objs"
  i2c_ops :: "'c i2c_obj objs"
  events :: "'c event list"

definition storm_start :: "'c storm" where
  "storm_start = \<lparr>dyn_tq = [], irq_ptrs = replicate 20 None, timers = Map.empty, socks = Map.empty,
     i2c_ops = Map.empty, events = []\<rparr>"

section \<open>Operations\<close>

definition syscall_ex :: "u32 \<Rightarrow> svc_arg list \<Rightarrow> u32 \<Rightarrow> 'c storm \<Rightarrow> 'c storm" where
  "syscall_ex num args ret st = st\<lparr>events := Svc num args ret # events st\<rparr>"

subsection \<open>The task queue\<close>

definition tq_add :: "'c \<Rightarrow> 'c storm \<Rightarrow> 'c storm" where
  "tq_add target st = st\<lparr>dyn_tq := dyn_tq st @ [target], events := Queued target # events st\<rparr>"

text \<open>What the fired task does is the argument \<open>run\<close>.\<close>

definition run_one :: "('c \<Rightarrow> 'c storm \<Rightarrow> 'c storm option) \<Rightarrow> 'c storm \<Rightarrow> (bool \<times> 'c storm) option" where
  "run_one run st =
     (case dyn_tq st of [] \<Rightarrow> Some (False, st)
      | target # _ \<Rightarrow>
          map_option (\<lambda>st'. (True, st'\<lparr>dyn_tq := tl (dyn_tq st')\<rparr>))
            (run target (st\<lparr>events := Fired target # events st\<rparr>)))"

subsection \<open>Pins\<close>

definition set_mode :: "pin \<Rightarrow> u8 \<Rightarrow> u32 \<Rightarrow> 'c storm \<Rightarrow> 'c storm \<times> u32" where
  "set_mode pin dir ret st = (syscall_ex 0x101 [Num (ucast dir), Num (ucast (pin_spec pin))] ret st, ret)"

definition gpio_set :: "pin \<Rightarrow> u8 \<Rightarrow> u32 \<Rightarrow> 'c storm \<Rightarrow> 'c storm \<times> u32" where
  "gpio_set pin val ret st = (syscall_ex 0x102 [Num (ucast val), Num (ucast (pin_spec pin))] ret st, ret)"

definition irq_slot :: "'c storm \<Rightarrow> nat \<Rightarrow> 'c option option" where
  "irq_slot st i = (if i < length (irq_ptrs st) then Some (irq_ptrs st ! i) else None)"

definition disable_irq :: "pin \<Rightarrow> u32 \<Rightarrow> 'c storm \<Rightarrow> 'c storm option" where
  "disable_irq pin ret st =
     (case irq_slot st (unat (pin_idx pin)) of None \<Rightarrow> None
      | Some None \<Rightarrow> Some st
      | Some (Some _) \<Rightarrow>
          Some ((syscall_ex 0x108 [Num (ucast (pin_spec pin))] ret st)
                  \<lparr>irq_ptrs := (irq_ptrs st)[unat (pin_idx pin) := None]\<rparr>))"

definition enable_irq :: "pin \<Rightarrow> u8 \<Rightarrow> 'c \<Rightarrow> u32 \<Rightarrow> u32 \<Rightarrow> 'c storm \<Rightarrow> 'c storm option" where
  "enable_irq pin edge cb ret1 ret2 st =
     (case disable_irq pin ret1 st of None \<Rightarrow> None
      | Some st1 \<Rightarrow>
          Some (syscall_ex 0x106 [Num (ucast (pin_spec pin)), Num (ucast edge), Code irq_entry, Num (ucast (pin_idx pin))] ret2
                  (st1\<lparr>irq_ptrs := (irq_ptrs st1)[unat (pin_idx pin) := Some cb]\<rparr>)))"

definition irq_callback :: "u32 \<Rightarrow> 'c storm \<Rightarrow> 'c storm option" where
  "irq_callback idx st =
     (if idx \<le> 20 then
        (case irq_slot st (unat idx) of None \<Rightarrow> None
         | Some None \<Rightarrow> Some st
         | Some (Some cb) \<Rightarrow> Some (tq_add cb st))
      else Some st)"

subsection \<open>Timers\<close>

text \<open>
  The constructor, and \<open>Timer::once\<close> and \<open>Timer::periodic\<close>: \<open>p\<close> is the address \<open>new\<close> gives, \<open>ret\<close> the
  kernel's number of the timer, of which the object keeps 16 bits.
\<close>

definition timer_new :: "bool \<Rightarrow> u32 \<Rightarrow> 'c \<Rightarrow> nat \<Rightarrow> u32 \<Rightarrow> 'c storm \<Rightarrow> 'c storm" where
  "timer_new periodic ticks cb p ret st =
     (let st1 = syscall_ex 0x201 [Num ticks, Num (if periodic then 1 else 0), Code tmr_entry, Obj p] ret st
      in st1\<lparr>timers := obj_new p \<lparr>timer_id = ucast ret, is_periodic = periodic, timer_cb = cb\<rparr> (timers st1)\<rparr>)"

definition timer_once :: "u32 \<Rightarrow> 'c \<Rightarrow> nat \<Rightarrow> u32 \<Rightarrow> 'c storm \<Rightarrow> 'c storm" where
  "timer_once = timer_new False"

definition timer_periodic :: "u32 \<Rightarrow> 'c \<Rightarrow> nat \<Rightarrow> u32 \<Rightarrow> 'c storm \<Rightarrow> 'c storm" where
  "timer_periodic = timer_new True"

definition timer_cancel :: "nat \<Rightarrow> u32 \<Rightarrow> 'c storm \<Rightarrow> 'c storm option" where
  "timer_cancel p ret st =
     (case timers st p of None \<Rightarrow> None
      | Some x \<Rightarrow>
          if self_ref x then
            Some ((syscall_ex 0x205 [Num (ucast (timer_id (body x)))] ret st)\<lparr>timers := self_reset p (timers st)\<rparr>)
          else Some st)"

definition timer_fire :: "nat \<Rightarrow> 'c storm \<Rightarrow> 'c storm option" where
  "timer_fire p st =
     (case timers st p of None \<Rightarrow> None
      | Some x \<Rightarrow>
          let st1 = tq_add (timer_cb (body x)) st
          in Some (if is_periodic (body x) then st1 else st1\<lparr>timers := self_reset p (timers st1)\<rparr>))"

definition tmr_callback :: "nat \<Rightarrow> 'c storm \<Rightarrow> 'c storm option" where
  "tmr_callback p st = timer_fire p st"

subsection \<open>UDP sockets\<close>

definition minus_one :: u32 where "minus_one = 0xFFFFFFFF"

text \<open>
  \<open>UDPSocket::open\<close> with the constructor: three system calls with the answers \<open>r1\<close>, \<open>r2\<close>, \<open>r3\<close>. If one of
  them fails, the object is destroyed and the result is null.
\<close>

definition udp_open :: "u16 \<Rightarrow> 'c \<Rightarrow> nat \<Rightarrow> u32 \<Rightarrow> u32 \<Rightarrow> u32 \<Rightarrow> 'c storm \<Rightarrow> 'c storm \<times> nat option" where
  "udp_open port cb p r1 r2 r3 st =
     (let st1 = syscall_ex 0x301 [] r1 st
      in if r1 = minus_one then (st1, None)
         else let st2 = syscall_ex 0x302 [Num r1, Num (ucast port)] r2 st1
      in if r2 = minus_one then (st2, None)
         else let st3 = syscall_ex 0x305 [Num r1, Code udp_entry, Obj p] r3 st2
      in if r3 = minus_one then (st3, None)
         else (st3\<lparr>socks := obj_new p \<lparr>sock_id = r1, sock_cb = cb\<rparr> (socks st3)\<rparr>, Some p))"

definition udp_close :: "nat \<Rightarrow> u32 \<Rightarrow> 'c storm \<Rightarrow> 'c storm option" where
  "udp_close p ret st =
     (case socks st p of None \<Rightarrow> None
      | Some x \<Rightarrow>
          if self_ref x then
            Some ((syscall_ex 0x303 [Num (sock_id (body x))] ret st)\<lparr>socks := self_reset p (socks st)\<rparr>)
          else Some st)"

definition udp_sendto :: "nat \<Rightarrow> u8 list \<Rightarrow> u16 \<Rightarrow> u8 list \<Rightarrow> u32 \<Rightarrow> 'c storm \<Rightarrow> ('c storm \<times> bool) option" where
  "udp_sendto p addr port payload ret st =
     (case socks st p of None \<Rightarrow> None
      | Some x \<Rightarrow>
          Some (syscall_ex 0x304 [Num (sock_id (body x)), Buf payload, Num (of_nat (length payload)), Buf addr,
                                  Num (ucast port)] ret st, ret = 0))"

text \<open>\<open>_handle\<close>: the packet the user's callback gets. A buffer shorter than \<open>buflen\<close> is an overread.\<close>

definition udp_handle :: "nat \<Rightarrow> udp_recv \<Rightarrow> u8 list \<Rightarrow> 'c storm \<Rightarrow> 'c storm option" where
  "udp_handle p recv addrstr st =
     (case socks st p of None \<Rightarrow> None
      | Some x \<Rightarrow>
          if length (recv_buffer recv) < unat (recv_buflen recv) \<or> length (recv_src_address recv) < 16 \<or> 0 \<notin> set addrstr
          then None
          else Some (st\<lparr>events := Packet (sock_cb (body x))
                  \<lparr>pkt_payload = take (unat (recv_buflen recv)) (recv_buffer recv),
                   pkt_strsrc = takeWhile (\<lambda>c. c \<noteq> 0) addrstr, pkt_src = take 16 (recv_src_address recv),
                   pkt_port = ucast (recv_port recv), pkt_lqi = recv_lqi recv, pkt_rssi = recv_rssi recv\<rparr>
                # events st\<rparr>))"

definition udp_callback :: "nat \<Rightarrow> udp_recv \<Rightarrow> u8 list \<Rightarrow> 'c storm \<Rightarrow> 'c storm option" where
  "udp_callback p recv addrstr st = udp_handle p recv addrstr st"

subsection \<open>I2C\<close>

definition i2c_start :: "u32 \<Rightarrow> code_ptr \<Rightarrow> u16 \<Rightarrow> u32 \<Rightarrow> u8 list \<Rightarrow> u16 \<Rightarrow> 'c \<Rightarrow> nat \<Rightarrow> u32 \<Rightarrow> 'c storm \<Rightarrow> 'c storm" where
  "i2c_start num entry address flags payload len cb p ret st =
     syscall_ex num [Num (ucast address), Num flags, Buf payload, Num (ucast len), Code entry, Obj p] ret
       (st\<lparr>i2c_ops := obj_new p \<lparr>i2c_payload = Some payload, i2c_cb = cb\<rparr> (i2c_ops st)\<rparr>)"

definition i2c_write :: "u16 \<Rightarrow> u32 \<Rightarrow> u8 list \<Rightarrow> u16 \<Rightarrow> 'c \<Rightarrow> nat \<Rightarrow> u32 \<Rightarrow> 'c storm \<Rightarrow> 'c storm" where
  "i2c_write = i2c_start 0x502 i2c_wentry"

definition i2c_read :: "u16 \<Rightarrow> u32 \<Rightarrow> u8 list \<Rightarrow> u16 \<Rightarrow> 'c \<Rightarrow> nat \<Rightarrow> u32 \<Rightarrow> 'c storm \<Rightarrow> 'c storm" where
  "i2c_read = i2c_start 0x501 i2c_rentry"

text \<open>
  \<open>invoke\<close> in its two halves: the call of the user's callback, to which the payload moves, and the
  \<open>self.reset()\<close> when that returned.
\<close>

definition i2c_invoke :: "nat \<Rightarrow> int \<Rightarrow> 'c storm \<Rightarrow> 'c storm option" where
  "i2c_invoke p status st =
     (case i2c_ops st p of None \<Rightarrow> None
      | Some x \<Rightarrow>
          Some (st\<lparr>i2c_ops := (i2c_ops st)(p \<mapsto> x\<lparr>body := (body x)\<lparr>i2c_payload := None\<rparr>\<rparr>),
                   events := I2cDone (i2c_cb (body x)) status (i2c_payload (body x)) # events st\<rparr>))"

definition i2c_return :: "nat \<Rightarrow> 'c storm \<Rightarrow> 'c storm option" where
  "i2c_return p st =
     (case i2c_ops st p of None \<Rightarrow> None | Some _ \<Rightarrow> Some (st\<lparr>i2c_ops := self_reset p (i2c_ops st)\<rparr>))"

text \<open>Addresses of devices on the two buses, and the flags; \<open>|\<close> on flags is an addition.\<close>

definition i2c_internal :: "u8 \<Rightarrow> u16" where "i2c_internal address = 0x200 + ucast address"
definition i2c_external :: "u8 \<Rightarrow> u16" where "i2c_external address = 0x100 + ucast address"

definition flag_or :: "u32 \<Rightarrow> u32 \<Rightarrow> u32" where "flag_or a b = a + b"

subsection \<open>The system\<close>

text \<open>\<open>sys::now\<close> with the code of a shift, and \<open>sys::reset\<close>.\<close>

definition sys_now :: "u16 \<Rightarrow> u32 \<Rightarrow> 'c storm \<Rightarrow> 'c storm \<times> u32" where
  "sys_now code ret st = (syscall_ex (ucast code) [] ret st, ret)"

definition sys_reset :: "u32 \<Rightarrow> 'c storm \<Rightarrow> 'c storm" where "sys_reset ret st = syscall_ex 0x404 [] ret st"

section \<open>The payload between the kernel and the user\<close>

text \<open>
  What the kernel has registered, from the calls it got and made: its timers with their number, whether
  they are periodic, and the address to call back.
\<close>

fun kernel_timers :: "'c event list \<Rightarrow> ((u32 \<times> bool) \<times> nat) list" where
  "kernel_timers [] = []"
| "kernel_timers (Svc num args ret # es) =
     (if num = 0x201 then
        (case args of [Num ticks, Num per, Code tmr_entry, Obj p] \<Rightarrow> ((ret, per \<noteq> 0), p) # kernel_timers es
         | _ \<Rightarrow> kernel_timers es)
      else if num = 0x205 then
        (case args of [Num i] \<Rightarrow> filter (\<lambda>((j, _), _). j \<noteq> i) (kernel_timers es) | _ \<Rightarrow> kernel_timers es)
      else kernel_timers es)"
| "kernel_timers (Called (TmrCb p) # es) = filter (\<lambda>((_, per), q). q \<noteq> p \<or> per) (kernel_timers es)"
| "kernel_timers (e # es) = kernel_timers es"

text \<open>The sockets with a receiver, the I2C operations that are not finished, the pins with an interrupt.\<close>

fun kernel_socks :: "'c event list \<Rightarrow> (u32 \<times> nat) list" where
  "kernel_socks [] = []"
| "kernel_socks (Svc num args ret # es) =
     (if num = 0x305 \<and> ret \<noteq> minus_one then
        (case args of [Num i, Code udp_entry, Obj p] \<Rightarrow> (i, p) # kernel_socks es | _ \<Rightarrow> kernel_socks es)
      else if num = 0x303 then
        (case args of [Num i] \<Rightarrow> filter (\<lambda>(j, _). j \<noteq> i) (kernel_socks es) | _ \<Rightarrow> kernel_socks es)
      else kernel_socks es)"
| "kernel_socks (e # es) = kernel_socks es"

fun kernel_i2c :: "'c event list \<Rightarrow> nat list" where
  "kernel_i2c [] = []"
| "kernel_i2c (Svc num args ret # es) =
     (if num = 0x501 \<or> num = 0x502 then
        (case args of [_, _, _, _, _, Obj p] \<Rightarrow> p # kernel_i2c es | _ \<Rightarrow> kernel_i2c es)
      else kernel_i2c es)"
| "kernel_i2c (Called (I2cCb p status) # es) = removeAll p (kernel_i2c es)"
| "kernel_i2c (e # es) = kernel_i2c es"

fun kernel_irqs :: "'c event list \<Rightarrow> (u32 \<times> u32) list" where
  "kernel_irqs [] = []"
| "kernel_irqs (Svc num args ret # es) =
     (if num = 0x106 then
        (case args of [Num spec, Num edge, Code irq_entry, Num idx] \<Rightarrow> (spec, idx) # kernel_irqs es
         | _ \<Rightarrow> kernel_irqs es)
      else if num = 0x108 then
        (case args of [Num spec] \<Rightarrow> filter (\<lambda>(j, _). j \<noteq> spec) (kernel_irqs es) | _ \<Rightarrow> kernel_irqs es)
      else kernel_irqs es)"
| "kernel_irqs (e # es) = kernel_irqs es"

text \<open>The kernel calls back what is registered, and what it hands over is complete.\<close>

fun kernel_may :: "'c event list \<Rightarrow> callback \<Rightarrow> bool" where
  "kernel_may es (TmrCb p) = (p \<in> snd ` set (kernel_timers es))"
| "kernel_may es (IrqCb idx) = (idx \<in> snd ` set (kernel_irqs es))"
| "kernel_may es (UdpCb p recv addrstr) =
     (p \<in> snd ` set (kernel_socks es) \<and> unat (recv_buflen recv) \<le> length (recv_buffer recv) \<and>
      16 \<le> length (recv_src_address recv) \<and> 0 \<in> set addrstr)"
| "kernel_may es (I2cCb p status) = (p \<in> set (kernel_i2c es))"

definition deliver :: "callback \<Rightarrow> 'c storm \<Rightarrow> 'c storm option" where
  "deliver cb st =
     (let st1 = st\<lparr>events := Called cb # events st\<rparr>
      in case cb of TmrCb p \<Rightarrow> tmr_callback p st1 | IrqCb idx \<Rightarrow> irq_callback idx st1
         | UdpCb p recv addrstr \<Rightarrow> udp_callback p recv addrstr st1 | I2cCb p status \<Rightarrow> i2c_invoke p status st1)"

text \<open>What user code does, with the pointers it holds and the pins of the board.\<close>

datatype 'c user_op =
    NewTimer bool u32 'c | CancelTimer nat | CopyTimer nat | DropTimer nat
  | OpenSock u16 'c | CloseSock nat | SendTo nat "u8 list" u16 "u8 list" | CopySock nat | DropSock nat
  | StartI2c bool u16 u32 "u8 list" u16 'c | CopyI2c nat | DropI2c nat
  | EnableIrq pin u8 'c | DisableIrq pin | SetMode pin u8 | SetPin pin u8 | AddTask 'c | Now u16 | Reset

definition user_run :: "'c user_op \<Rightarrow> nat \<Rightarrow> u32 \<times> u32 \<times> u32 \<Rightarrow> 'c storm \<Rightarrow> 'c storm option" where
  "user_run op p = (\<lambda>(r1, r2, r3) st.
     case op of
       NewTimer periodic ticks cb \<Rightarrow> Some ((if periodic then timer_periodic else timer_once) ticks cb p r1 st)
     | CancelTimer q \<Rightarrow> timer_cancel q r1 st
     | CopyTimer q \<Rightarrow> Some (st\<lparr>timers := ptr_copy q (timers st)\<rparr>)
     | DropTimer q \<Rightarrow> Some (st\<lparr>timers := ptr_drop q (timers st)\<rparr>)
     | OpenSock port cb \<Rightarrow> Some (fst (udp_open port cb p r1 r2 r3 st))
     | CloseSock q \<Rightarrow> udp_close q r1 st
     | SendTo q addr port payload \<Rightarrow> map_option fst (udp_sendto q addr port payload r1 st)
     | CopySock q \<Rightarrow> Some (st\<lparr>socks := ptr_copy q (socks st)\<rparr>)
     | DropSock q \<Rightarrow> Some (st\<lparr>socks := ptr_drop q (socks st)\<rparr>)
     | StartI2c w address flags payload len cb \<Rightarrow>
         Some ((if w then i2c_write else i2c_read) address flags payload len cb p r1 st)
     | CopyI2c q \<Rightarrow> Some (st\<lparr>i2c_ops := ptr_copy q (i2c_ops st)\<rparr>)
     | DropI2c q \<Rightarrow> Some (st\<lparr>i2c_ops := ptr_drop q (i2c_ops st)\<rparr>)
     | EnableIrq pin edge cb \<Rightarrow> enable_irq pin edge cb r1 r2 st
     | DisableIrq pin \<Rightarrow> disable_irq pin r1 st
     | SetMode pin dir \<Rightarrow> Some (fst (set_mode pin dir r1 st))
     | SetPin pin val \<Rightarrow> Some (fst (gpio_set pin val r1 st))
     | AddTask cb \<Rightarrow> Some (tq_add cb st)
     | Now code \<Rightarrow> Some (fst (sys_now code r1 st))
     | Reset \<Rightarrow> Some (sys_reset r1 st))"

definition held :: "'a objs \<Rightarrow> nat \<Rightarrow> bool" where
  "held objs p = (case objs p of None \<Rightarrow> False | Some x \<Rightarrow> 0 < use_count x)"

definition user_may :: "'c user_op \<Rightarrow> 'c storm \<Rightarrow> bool" where
  "user_may op st =
     (case op of
       CancelTimer q \<Rightarrow> held (timers st) q | CopyTimer q \<Rightarrow> held (timers st) q | DropTimer q \<Rightarrow> held (timers st) q
     | CloseSock q \<Rightarrow> held (socks st) q | SendTo q addr port payload \<Rightarrow> held (socks st) q
     | CopySock q \<Rightarrow> held (socks st) q | DropSock q \<Rightarrow> held (socks st) q
     | CopyI2c q \<Rightarrow> held (i2c_ops st) q | DropI2c q \<Rightarrow> held (i2c_ops st) q
     | EnableIrq pin edge cb \<Rightarrow> pin \<in> set board_pins | DisableIrq pin \<Rightarrow> pin \<in> set board_pins
     | Now code \<Rightarrow> code \<in> {0x202, 0x203, 0x204}
     | _ \<Rightarrow> True)"

text \<open>
  What the allocator and the kernel answer: \<open>new\<close> gives memory that is not in use, the kernel a number
  that no other timer or socket has. \<open>narrow\<close> says whether its timer numbers fit in 16 bits.
\<close>

definition answers_ok :: "bool \<Rightarrow> 'c user_op \<Rightarrow> nat \<Rightarrow> u32 \<times> u32 \<times> u32 \<Rightarrow> 'c storm \<Rightarrow> bool" where
  "answers_ok narrow op p r st =
     (case op of
       NewTimer periodic ticks cb \<Rightarrow>
         timers st p = None \<and> fst r \<notin> (fst \<circ> fst) ` set (kernel_timers (events st)) \<and> (narrow \<longrightarrow> fst r < 2 ^ 16)
     | OpenSock port cb \<Rightarrow> socks st p = None \<and> fst r \<notin> fst ` set (kernel_socks (events st))
     | StartI2c w address flags payload len cb \<Rightarrow> i2c_ops st p = None
     | _ \<Rightarrow> True)"

text \<open>
  Where control is: in \<open>main\<close> before it calls the scheduler, in the scheduler, in a task, in
  \<open>k_wait_callback\<close>, or in a user callback called from there (with the I2C operation to finish).
\<close>

datatype control = Main | Scheduler | Task | Waiting | Handling "nat option"

fun user_runs :: "control \<Rightarrow> bool" where
  "user_runs Main = True" | "user_runs Task = True" | "user_runs (Handling _) = True" | "user_runs _ = False"

fun called_control :: "callback \<Rightarrow> control" where
  "called_control (UdpCb p recv addrstr) = Handling None"
| "called_control (I2cCb p status) = Handling (Some p)"
| "called_control _ = Waiting"

inductive storm_step :: "bool \<Rightarrow> control \<times> 'c storm \<Rightarrow> control \<times> 'c storm \<Rightarrow> bool" for narrow :: bool where
  user: "user_runs c \<Longrightarrow> user_may op st \<Longrightarrow> answers_ok narrow op p r st \<Longrightarrow> user_run op p r st = Some st' \<Longrightarrow>
    storm_step narrow (c, st) (c, st')"
| scheduler: "storm_step narrow (Main, st) (Scheduler, st)"
| fire: "dyn_tq st = t # ts \<Longrightarrow>
    storm_step narrow (Scheduler, st) (Task, st\<lparr>events := Fired t # events st\<rparr>)"
| pop: "storm_step narrow (Task, st) (Scheduler, st\<lparr>dyn_tq := tl (dyn_tq st)\<rparr>)"
| wait: "dyn_tq st = [] \<Longrightarrow> storm_step narrow (Scheduler, st) (Waiting, st)"
| call: "kernel_may (events st) cb \<Longrightarrow> deliver cb st = Some st' \<Longrightarrow>
    storm_step narrow (Waiting, st) (called_control cb, st')"
| fill: "p \<in> set (kernel_i2c (events st)) \<Longrightarrow> i2c_ops st p = Some x \<Longrightarrow>
    i2c_payload (body x) = Some buf \<Longrightarrow> length data = length buf \<Longrightarrow>
    storm_step narrow (c, st)
      (c, st\<lparr>i2c_ops := (i2c_ops st)(p \<mapsto> x\<lparr>body := (body x)\<lparr>i2c_payload := Some data\<rparr>\<rparr>)\<rparr>)"
| udp_returns: "storm_step narrow (Handling None, st) (Waiting, st)"
| i2c_returns: "i2c_return p st = Some st' \<Longrightarrow> storm_step narrow (Handling (Some p), st) (Waiting, st')"
| wake: "storm_step narrow (Waiting, st) (Scheduler, st)"

inductive storm_reach :: "bool \<Rightarrow> control \<times> 'c storm \<Rightarrow> bool" for narrow :: bool where
  start: "storm_reach narrow (Main, storm_start)"
| step: "storm_reach narrow s \<Longrightarrow> storm_step narrow s s' \<Longrightarrow> storm_reach narrow s'"

inductive_cases storm_stepE [consumes 1, case_names user scheduler fire pop wait call fill udp_returns i2c_returns wake]:
  "storm_step narrow (c, st) (c', st')"

section \<open>Ownership\<close>

text \<open>
  The objects of a table against the addresses the kernel has: an object owns itself exactly while the
  kernel may use its address, and no object lives that nobody needs.
\<close>

definition owned :: "'a objs \<Rightarrow> nat set \<Rightarrow> bool" where
  "owned objs R \<longleftrightarrow> (\<forall>p. p \<in> R \<longleftrightarrow> (\<exists>x. objs p = Some x \<and> self_ref x)) \<and>
     (\<forall>p x. objs p = Some x \<longrightarrow> self_ref x \<or> 0 < use_count x)"

named_theorems table_defs \<open>the operations on a table of shared objects\<close>

lemmas [table_defs] = obj_free_def obj_new_def self_reset_def ptr_copy_def ptr_drop_def

lemma owned_empty: "owned Map.empty {}" by (simp add: owned_def)

lemma owned_new: "owned objs R \<Longrightarrow> objs p = None \<Longrightarrow> owned (obj_new p b objs) (insert p R)"
  by (auto simp: owned_def table_defs)

lemma owned_reset: "owned objs R \<Longrightarrow> owned (self_reset p objs) (R - {p})"
  by (auto simp: owned_def table_defs split: option.splits if_splits)

lemma owned_copy: "owned objs R \<Longrightarrow> owned (ptr_copy p objs) R"
  by (auto simp: owned_def table_defs split: option.splits if_splits)

lemma owned_drop: "owned objs R \<Longrightarrow> owned (ptr_drop p objs) R"
  by (auto simp: owned_def table_defs split: option.splits if_splits)

lemma owned_body: "owned objs R \<Longrightarrow> objs p = Some x \<Longrightarrow> owned (objs(p \<mapsto> x\<lparr>body := b\<rparr>)) R"
  by (auto simp: owned_def)

lemmas owned_rules = owned_empty owned_new owned_reset owned_copy owned_drop owned_body

lemma owned_self: "owned objs R \<Longrightarrow> objs p = Some x \<Longrightarrow> self_ref x \<longleftrightarrow> p \<in> R"
  by (auto simp: owned_def)

lemma owned_live: "owned objs R \<Longrightarrow> p \<in> R \<Longrightarrow> \<exists>x. objs p = Some x \<and> self_ref x"
  by (auto simp: owned_def)

lemma owned_alive: "owned objs R \<Longrightarrow> objs p \<noteq> None \<longleftrightarrow> p \<in> R \<or> held objs p"
  by (cases "objs p") (auto simp: owned_def held_def)

text \<open>
  Objects the kernel knows by a number: \<open>ks\<close> lists what it has, the number (the part \<open>name\<close> of the key)
  and the address. Numbers are unique, and an object has the key the kernel has for it.
\<close>

definition registered :: "('k \<Rightarrow> u32) \<Rightarrow> ('a \<Rightarrow> 'k) \<Rightarrow> 'a objs \<Rightarrow> ('k \<times> nat) list \<Rightarrow> bool" where
  "registered name key objs ks \<longleftrightarrow> owned objs (snd ` set ks) \<and> distinct (map (name \<circ> fst) ks) \<and>
     (\<forall>(k, p) \<in> set ks. \<exists>x. objs p = Some x \<and> key (body x) = k)"

lemma registered_key: "registered name key objs ks \<Longrightarrow> (k, p) \<in> set ks \<Longrightarrow> \<exists>x. objs p = Some x \<and> self_ref x \<and> key (body x) = k"
  using owned_live [of objs "snd ` set ks" p] by (force simp: registered_def)

lemma registeredI:
  assumes "owned objs (snd ` set ks)" and "distinct (map (name \<circ> fst) ks)"
    and "\<And>k p. (k, p) \<in> set ks \<Longrightarrow> \<exists>x. objs p = Some x \<and> key (body x) = k"
  shows "registered name key objs ks"
  using assms by (auto simp: registered_def)

lemma registered_empty: "registered name key Map.empty []"
  by (simp add: registered_def owned_empty)

lemma registered_owned:
  "registered name key objs ks \<Longrightarrow> owned objs (snd ` set ks)"
  "registered name key objs ks \<Longrightarrow> distinct (map (name \<circ> fst) ks)"
  by (simp_all add: registered_def)

lemma registered_new:
  assumes reg: "registered name key objs ks" and p: "objs p = None" and new: "name (key b) \<notin> (name \<circ> fst) ` set ks"
  shows "registered name key (obj_new p b objs) ((key b, p) # ks)"
proof (rule registeredI)
  show "owned (obj_new p b objs) (snd ` set ((key b, p) # ks))"
    using owned_new [OF registered_owned(1) [OF reg] p] by simp
  show "distinct (map (name \<circ> fst) ((key b, p) # ks))" using registered_owned(2) [OF reg] new by simp
  show "\<exists>x. obj_new p b objs q = Some x \<and> key (body x) = k" if "(k, q) \<in> set ((key b, p) # ks)" for k q
  proof (cases "(k, q) = (key b, p)")
    case True then show ?thesis by (simp add: obj_new_def)
  next
    case False
    then have "(k, q) \<in> set ks" using that by auto
    then obtain x where "objs q = Some x" "key (body x) = k" using registered_key [OF reg] by blast
    then show ?thesis using p by (auto simp: obj_new_def)
  qed
qed

lemma registered_same: "registered name key objs ks \<Longrightarrow> (k, p) \<in> set ks \<Longrightarrow> objs p = Some x \<Longrightarrow> k = key (body x)"
  by (auto simp: registered_def)

lemma registered_entry:
  assumes "registered name key objs ks" and "objs p = Some x" and "self_ref x"
  shows "(key (body x), p) \<in> set ks"
proof -
  have "owned objs (snd ` set ks)" using assms(1) by (simp add: registered_def)
  then have "p \<in> snd ` set ks" using owned_self assms(2,3) by blast
  then obtain k where "(k, p) \<in> set ks" by auto
  with assms show ?thesis using registered_same by fastforce
qed

text \<open>An object that is no longer registered lets go of itself.\<close>

lemma registered_reset:
  assumes reg: "registered name key objs ks" and ks': "ks' = filter (\<lambda>(k, q). q \<noteq> p) ks"
  shows "registered name key (self_reset p objs) ks'"
proof -
  have "snd ` set ks' = snd ` set ks - {p}" by (auto simp: ks' image_iff)
  then have "owned (self_reset p objs) (snd ` set ks')" using owned_reset [OF registered_owned(1) [OF reg]] by simp
  moreover have "distinct (map (name \<circ> fst) ks')" using reg by (simp add: registered_def ks' distinct_map_filter)
  moreover have "\<exists>x. self_reset p objs q = Some x \<and> key (body x) = k" if "(k, q) \<in> set ks'" for k q
  proof -
    have "q \<noteq> p" and "(k, q) \<in> set ks" using that by (auto simp: ks')
    then show ?thesis using registered_key [OF reg] by (auto simp: self_reset_def obj_free_def split: option.splits)
  qed
  ultimately show ?thesis by (rule registeredI)
qed

text \<open>A number belongs to one address.\<close>

lemma registered_name:
  assumes reg: "registered name key objs ks" and x: "objs p = Some x" "self_ref x"
  shows "filter (\<lambda>(k, q). name k \<noteq> name (key (body x))) ks = filter (\<lambda>(k, q). q \<noteq> p) ks"
proof (rule filter_cong [OF refl], clarify)
  fix k q assume e: "(k, q) \<in> set ks"
  have "q = p" if n: "name k = name (key (body x))"
  proof -
    have "inj_on (name \<circ> fst) (set ks)" using reg by (simp add: registered_def distinct_map)
    from inj_onD [OF this _ e registered_entry [OF reg x]] n show ?thesis by simp
  qed
  moreover have "name k = name (key (body x))" if "q = p" using registered_same [OF reg] e that x(1) by blast
  ultimately show "(name k \<noteq> name (key (body x))) = (q \<noteq> p)" by blast
qed

lemma registered_copy:
  assumes reg: "registered name key objs ks" shows "registered name key (ptr_copy p objs) ks"
proof (rule registeredI)
  show "owned (ptr_copy p objs) (snd ` set ks)" "distinct (map (name \<circ> fst) ks)"
    using reg owned_copy by (auto simp: registered_def)
  show "\<exists>x. ptr_copy p objs q = Some x \<and> key (body x) = k" if "(k, q) \<in> set ks" for k q
    using registered_key [OF reg that] by (auto simp: ptr_copy_def split: option.splits)
qed

lemma registered_drop:
  assumes reg: "registered name key objs ks" shows "registered name key (ptr_drop p objs) ks"
proof (rule registeredI)
  show "owned (ptr_drop p objs) (snd ` set ks)" "distinct (map (name \<circ> fst) ks)"
    using reg owned_drop by (auto simp: registered_def)
  show "\<exists>x. ptr_drop p objs q = Some x \<and> key (body x) = k" if "(k, q) \<in> set ks" for k q
    using registered_key [OF reg that] by (auto simp: ptr_drop_def obj_free_def split: option.splits)
qed

section \<open>The invariant\<close>

definition timers_inv :: "'c storm \<Rightarrow> bool" where
  "timers_inv st \<longleftrightarrow>
     registered fst (\<lambda>b. (ucast (timer_id b), is_periodic b)) (timers st) (kernel_timers (events st))"

definition socks_inv :: "'c storm \<Rightarrow> bool" where
  "socks_inv st \<longleftrightarrow> registered id sock_id (socks st) (kernel_socks (events st))"

text \<open>An I2C operation that is being finished owns itself though the kernel is done with it.\<close>

fun finishing :: "control \<Rightarrow> nat set" where
  "finishing (Handling (Some p)) = {p}"
| "finishing _ = {}"

definition i2c_inv :: "control \<Rightarrow> 'c storm \<Rightarrow> bool" where
  "i2c_inv c st \<longleftrightarrow> owned (i2c_ops st) (set (kernel_i2c (events st)) \<union> finishing c) \<and>
     finishing c \<inter> set (kernel_i2c (events st)) = {} \<and>
     (\<forall>p \<in> set (kernel_i2c (events st)). \<exists>x buf. i2c_ops st p = Some x \<and> i2c_payload (body x) = Some buf)"

text \<open>A pin has an interrupt in the kernel exactly if it has a callback here.\<close>

definition irq_key :: "pin \<Rightarrow> u32 \<times> u32" where
  "irq_key a = (ucast (pin_spec a), ucast (pin_idx a))"

definition irq_pins :: "'c option list \<Rightarrow> pin set" where
  "irq_pins ptrs = {a \<in> set board_pins. unat (pin_idx a) < length ptrs \<and> ptrs ! unat (pin_idx a) \<noteq> None}"

definition irqs_inv :: "'c storm \<Rightarrow> bool" where
  "irqs_inv st \<longleftrightarrow> length (irq_ptrs st) = 20 \<and> set (kernel_irqs (events st)) = irq_key ` irq_pins (irq_ptrs st)"

text \<open>The tasks queued are those that ran, in this order, and those that wait.\<close>

fun tasks_queued :: "'c event list \<Rightarrow> 'c list" where
  "tasks_queued [] = []"
| "tasks_queued (e # es) = tasks_queued es @ (case e of Queued c \<Rightarrow> [c] | _ \<Rightarrow> [])"

fun tasks_fired :: "'c event list \<Rightarrow> 'c list" where
  "tasks_fired [] = []"
| "tasks_fired (e # es) = tasks_fired es @ (case e of Fired c \<Rightarrow> [c] | _ \<Rightarrow> [])"

definition fifo_inv :: "control \<Rightarrow> 'c storm \<Rightarrow> bool" where
  "fifo_inv c st \<longleftrightarrow> (c = Task \<longrightarrow> dyn_tq st \<noteq> []) \<and>
     tasks_queued (events st) = tasks_fired (events st) @ (if c = Task then tl (dyn_tq st) else dyn_tq st)"

definition storm_inv :: "control \<Rightarrow> 'c storm \<Rightarrow> bool" where
  "storm_inv c st \<longleftrightarrow> timers_inv st \<and> socks_inv st \<and> i2c_inv c st \<and> irqs_inv st \<and> fifo_inv c st"

lemma storm_inv_start: "storm_inv Main storm_start"
  by (simp add: storm_inv_def timers_inv_def socks_inv_def i2c_inv_def irqs_inv_def fifo_inv_def storm_start_def
      registered_empty owned_empty irq_pins_def board_pins_def)

subsection \<open>Timers\<close>

lemma ucast_narrow: "r < 2 ^ 16 \<Longrightarrow> ucast (ucast r :: u16) = (r :: u32)"
  by (simp add: word_less_nat_alt word_unat_eq_iff unsigned_ucast_eq unsigned_take_bit_eq take_bit_eq_mod unat_mod)

lemma timers_inv_new:
  assumes inv: "timers_inv st" and p: "timers st p = None" and r: "r \<notin> (fst \<circ> fst) ` set (kernel_timers (events st))" "r < 2 ^ 16"
  shows "timers_inv (timer_new periodic ticks cb p r st)"
proof -
  have k: "(ucast (ucast r :: u16) :: u32) = r" using r(2) by (rule ucast_narrow)
  show ?thesis
    using registered_new [OF inv [unfolded timers_inv_def] p, of "\<lparr>timer_id = ucast r, is_periodic = periodic, timer_cb = cb\<rparr>"] r(1)
    by (cases periodic) (simp_all add: timers_inv_def timer_new_def syscall_ex_def k)
qed

lemma timers_inv_cancel:
  assumes inv: "timers_inv st" and run: "timer_cancel p r st = Some st'"
  shows "timers_inv st'"
proof -
  obtain x where x: "timers st p = Some x" using run by (auto simp: timer_cancel_def split: option.splits)
  show ?thesis
  proof (cases "self_ref x")
    case True
    note reg = inv [unfolded timers_inv_def]
    have "filter (\<lambda>((j, _), _). j \<noteq> ucast (timer_id (body x))) (kernel_timers (events st)) =
        filter (\<lambda>(k, q). q \<noteq> p) (kernel_timers (events st))"
      using registered_name [OF reg x True] by (simp add: case_prod_unfold)
    then show ?thesis
      using registered_reset [OF reg refl, of p] run x True by (auto simp: timers_inv_def timer_cancel_def syscall_ex_def)
  next
    case False
    then show ?thesis using inv run x by (simp add: timer_cancel_def)
  qed
qed

text \<open>The kernel calls the timer at \<open>p\<close>: the timer lives, and a timer that is not periodic ends.\<close>

lemma timers_inv_call:
  assumes inv: "timers_inv st" and may: "p \<in> snd ` set (kernel_timers (events st))"
  shows "\<exists>st'. deliver (TmrCb p) st = Some st' \<and> timers_inv st'"
proof -
  note reg = inv [unfolded timers_inv_def]
  obtain k where kp: "(k, p) \<in> set (kernel_timers (events st))" using may by auto
  from registered_key [OF reg this] obtain x where x: "timers st p = Some x" "self_ref x" by blast
  have per: "snd k = is_periodic (body x)" if "(k, p) \<in> set (kernel_timers (events st))" for k
    using registered_same [OF reg that x(1)] by simp
  let ?ks = "filter (\<lambda>((_, per), q). q \<noteq> p \<or> per) (kernel_timers (events st))"
  have ks: "?ks = (if is_periodic (body x) then kernel_timers (events st)
      else filter (\<lambda>(k, q). q \<noteq> p) (kernel_timers (events st)))"
    using per by (auto simp: filter_id_conv split: prod.splits intro!: filter_cong) (metis snd_conv)+
  show ?thesis
    using reg registered_reset [OF reg refl, of p] x ks
    by (simp add: deliver_def tmr_callback_def timer_fire_def tq_add_def timers_inv_def Let_def)
qed

subsection \<open>Sockets\<close>

lemma socks_inv_open:
  assumes inv: "socks_inv st" and p: "socks st p = None" and r: "r1 \<notin> fst ` set (kernel_socks (events st))"
  shows "socks_inv (fst (udp_open port cb p r1 r2 r3 st))"
  using registered_new [OF inv [unfolded socks_inv_def] p, of "\<lparr>sock_id = r1, sock_cb = cb\<rparr>"] inv r
  by (simp add: socks_inv_def udp_open_def syscall_ex_def Let_def)

lemma socks_inv_close:
  assumes inv: "socks_inv st" and run: "udp_close p r st = Some st'"
  shows "socks_inv st'"
proof -
  obtain x where x: "socks st p = Some x" using run by (auto simp: udp_close_def split: option.splits)
  show ?thesis
  proof (cases "self_ref x")
    case True
    note reg = inv [unfolded socks_inv_def]
    have "filter (\<lambda>(j, _). j \<noteq> sock_id (body x)) (kernel_socks (events st)) =
        filter (\<lambda>(k, q). q \<noteq> p) (kernel_socks (events st))"
      using registered_name [OF reg x True] by simp
    then show ?thesis
      using registered_reset [OF reg refl, of p] run x True by (auto simp: socks_inv_def udp_close_def syscall_ex_def)
  next
    case False
    then show ?thesis using inv run x by (simp add: udp_close_def)
  qed
qed

lemma socks_inv_call:
  assumes inv: "socks_inv st" and may: "kernel_may (events st) (UdpCb p recv addrstr)"
  shows "\<exists>st'. deliver (UdpCb p recv addrstr) st = Some st' \<and> socks_inv st'"
proof -
  obtain x where "socks st p = Some x"
    using registered_key [OF inv [unfolded socks_inv_def]] may by fastforce
  then show ?thesis using may inv by (auto simp: deliver_def udp_callback_def udp_handle_def socks_inv_def)
qed

subsection \<open>I2C operations\<close>

lemma i2c_inv_start:
  assumes inv: "i2c_inv c st" and p: "i2c_ops st p = None" and num: "num = 0x501 \<or> num = 0x502"
  shows "i2c_inv c (i2c_start num entry address flags payload len cb p r st)"
proof -
  let ?R = "set (kernel_i2c (events st))"
  have o: "owned (i2c_ops st) (?R \<union> finishing c)" using inv by (simp add: i2c_inv_def)
  then have "p \<notin> ?R \<union> finishing c" using p owned_live by fastforce
  then show ?thesis
    using inv owned_new [OF o p] num by (auto simp: i2c_inv_def i2c_start_def syscall_ex_def obj_new_def)
qed

lemma i2c_inv_fill:
  assumes inv: "i2c_inv c st" and "i2c_ops st p = Some x"
  shows "i2c_inv c (st\<lparr>i2c_ops := (i2c_ops st)(p \<mapsto> x\<lparr>body := (body x)\<lparr>i2c_payload := Some data\<rparr>\<rparr>)\<rparr>)"
  using assms owned_body [of "i2c_ops st" _ p x] by (auto simp: i2c_inv_def)

lemma i2c_inv_call:
  assumes inv: "i2c_inv Waiting st" and may: "p \<in> set (kernel_i2c (events st))"
  shows "\<exists>st'. deliver (I2cCb p status) st = Some st' \<and> i2c_inv (Handling (Some p)) st'"
proof -
  let ?R = "set (kernel_i2c (events st))"
  obtain x where x: "i2c_ops st p = Some x" using inv may by (auto simp: i2c_inv_def)
  have o: "owned (i2c_ops st) ?R" using inv by (simp add: i2c_inv_def)
  have "insert p (?R - {p}) = ?R" using may by auto
  then show ?thesis
    using inv owned_body [OF o x] x by (auto simp: deliver_def i2c_invoke_def i2c_inv_def)
qed

lemma i2c_inv_return:
  assumes inv: "i2c_inv (Handling (Some p)) st"
  shows "\<exists>st'. i2c_return p st = Some st' \<and> i2c_inv Waiting st'"
proof -
  let ?R = "set (kernel_i2c (events st))"
  have o: "owned (i2c_ops st) (insert p ?R)" and p: "p \<notin> ?R" using inv by (auto simp: i2c_inv_def)
  obtain x where x: "i2c_ops st p = Some x" using owned_live [OF o] by blast
  have "owned (self_reset p (i2c_ops st)) ?R" using owned_reset [OF o, of p] p by simp
  then show ?thesis
    using inv x p by (auto simp: i2c_return_def i2c_inv_def self_reset_def obj_free_def split: option.splits)
qed

subsection \<open>Interrupts\<close>

text \<open>The pins of the board differ in the index and in the number the kernel uses.\<close>

lemma board_pins_inj:
  assumes "a \<in> set board_pins" and "b \<in> set board_pins"
  shows "pin_idx a = pin_idx b \<longleftrightarrow> a = b" and "pin_spec a = pin_spec b \<longleftrightarrow> a = b"
proof -
  have "distinct (map pin_idx board_pins)" "distinct (map pin_spec board_pins)" by code_simp+
  then show "pin_idx a = pin_idx b \<longleftrightarrow> a = b" "pin_spec a = pin_spec b \<longleftrightarrow> a = b"
    using assms by (auto simp: distinct_map inj_on_def)
qed

lemma board_pins_idx: "a \<in> set board_pins \<Longrightarrow> a \<noteq> GP0 \<Longrightarrow> unat (pin_idx a) < 20"
  by (auto simp: board_pins_def GP0_def)

lemma unat_ucast_u16: "unat (ucast (a :: u16) :: u32) = unat a"
proof -
  have "unat a < 2 ^ LENGTH(16)" by (rule unsigned_less)
  then show ?thesis by (simp add: unsigned_ucast_eq unsigned_take_bit_eq take_bit_eq_mod)
qed

lemma ucast_u16_eq: "(ucast a :: u32) = ucast b \<longleftrightarrow> a = (b :: u16)"
  by (simp add: word_unat_eq_iff unat_ucast_u16)

lemma irq_pins_clear:
  assumes pin: "pin \<in> set board_pins"
  shows "irq_pins (ptrs[unat (pin_idx pin) := None]) = irq_pins ptrs - {pin}"
proof (rule set_eqI)
  fix x
  have "unat (pin_idx x) \<noteq> unat (pin_idx pin)" if "x \<in> set board_pins" "x \<noteq> pin"
    using board_pins_inj(1) [OF that(1) pin] that(2) by (simp add: word_unat_eq_iff)
  then show "x \<in> irq_pins (ptrs[unat (pin_idx pin) := None]) \<longleftrightarrow> x \<in> irq_pins ptrs - {pin}"
    by (cases "x = pin") (auto simp: irq_pins_def)
qed

lemma irq_pins_put:
  assumes pin: "pin \<in> set board_pins" and len: "unat (pin_idx pin) < length ptrs"
  shows "irq_pins (ptrs[unat (pin_idx pin) := Some cb]) = insert pin (irq_pins ptrs)"
proof (rule set_eqI)
  fix x
  have "unat (pin_idx x) \<noteq> unat (pin_idx pin)" if "x \<in> set board_pins" "x \<noteq> pin"
    using board_pins_inj(1) [OF that(1) pin] that(2) by (simp add: word_unat_eq_iff)
  then show "x \<in> irq_pins (ptrs[unat (pin_idx pin) := Some cb]) \<longleftrightarrow> x \<in> insert pin (irq_pins ptrs)"
    using assms by (cases "x = pin") (auto simp: irq_pins_def)
qed

lemma irq_key_clear:
  assumes pin: "pin \<in> set board_pins"
  shows "irq_key ` (irq_pins ptrs - {pin}) = irq_key ` irq_pins ptrs - {x. fst x = ucast (pin_spec pin)}"
proof -
  have "fst (irq_key x) = ucast (pin_spec pin) \<longleftrightarrow> x = pin" if "x \<in> irq_pins ptrs" for x
    using board_pins_inj(2) [OF _ pin, of x] that by (simp add: irq_key_def irq_pins_def ucast_u16_eq)
  then show ?thesis by auto
qed

lemma irqs_inv_disable:
  assumes inv: "irqs_inv st" and pin: "pin \<in> set board_pins" "pin \<noteq> GP0"
  shows "\<exists>st'. disable_irq pin r st = Some st' \<and> irqs_inv st'"
proof -
  have len: "length (irq_ptrs st) = 20" using inv by (simp add: irqs_inv_def)
  note i = board_pins_idx [OF pin]
  show ?thesis
  proof (cases "irq_ptrs st ! unat (pin_idx pin)")
    case None
    then show ?thesis using inv i len by (simp add: disable_irq_def irq_slot_def)
  next
    case (Some cb)
    have "set (kernel_irqs (events st)) - {x. fst x = ucast (pin_spec pin)} =
        irq_key ` irq_pins ((irq_ptrs st)[unat (pin_idx pin) := None])"
      using inv by (simp add: irqs_inv_def irq_key_clear [OF pin(1)] irq_pins_clear [OF pin(1)])
    moreover have "{x \<in> set (kernel_irqs (events st)). case x of (j, _) \<Rightarrow> j \<noteq> ucast (pin_spec pin)} =
        set (kernel_irqs (events st)) - {x. fst x = ucast (pin_spec pin)}" by auto
    ultimately show ?thesis using Some i len by (simp add: disable_irq_def irq_slot_def irqs_inv_def syscall_ex_def)
  qed
qed

lemma irqs_inv_enable:
  assumes inv: "irqs_inv st" and pin: "pin \<in> set board_pins" "pin \<noteq> GP0"
  shows "\<exists>st'. enable_irq pin edge cb r1 r2 st = Some st' \<and> irqs_inv st'"
proof -
  obtain st1 where st1: "disable_irq pin r1 st = Some st1" "irqs_inv st1" using irqs_inv_disable [OF assms] by blast
  then have "unat (pin_idx pin) < length (irq_ptrs st1)" using board_pins_idx [OF pin] by (simp add: irqs_inv_def)
  then show ?thesis
    using st1 by (simp add: enable_irq_def irqs_inv_def syscall_ex_def irq_pins_put [OF pin(1)] irq_key_def)
qed

lemma irqs_inv_call:
  assumes inv: "irqs_inv st" and may: "kernel_may (events st) (IrqCb idx)"
  shows "\<exists>st' cb. deliver (IrqCb idx) st = Some st' \<and> irqs_inv st' \<and> irq_slot st (unat idx) = Some (Some cb) \<and> dyn_tq st' = dyn_tq st @ [cb]"
proof -
  obtain a where a: "idx = ucast (pin_idx a)" "a \<in> irq_pins (irq_ptrs st)"
    using may inv by (auto simp: irqs_inv_def irq_key_def)
  then obtain cb where cb: "unat (pin_idx a) < 20" "irq_ptrs st ! unat (pin_idx a) = Some cb"
    using inv by (auto simp: irq_pins_def irqs_inv_def)
  have "unat idx = unat (pin_idx a)" by (simp add: a unat_ucast_u16)
  moreover from this cb(1) have "idx \<le> 20" by (simp add: word_le_nat_alt)
  ultimately show ?thesis using cb inv
    by (auto simp: deliver_def irq_callback_def irq_slot_def irqs_inv_def tq_add_def)
qed

section \<open>Every reachable state\<close>

text \<open>Each part of the invariant through one operation of the user, then through a call of the kernel.\<close>

lemmas user_ops = user_run_def udp_open_def udp_close_def udp_sendto_def i2c_write_def i2c_read_def i2c_start_def
  enable_irq_def disable_irq_def set_mode_def gpio_set_def sys_now_def sys_reset_def tq_add_def syscall_ex_def Let_def timer_once_def
  timer_periodic_def timer_new_def timer_cancel_def

lemma timers_inv_user:
  assumes inv: "timers_inv st" and ans: "answers_ok True op p r st" and run: "user_run op p r st = Some st'"
  shows "timers_inv st'"
proof (cases op)
  case (NewTimer periodic ticks cb)
  then show ?thesis using timers_inv_new [OF inv, of p "fst r"] ans run
    by (cases r) (auto simp: user_run_def answers_ok_def timer_once_def timer_periodic_def image_def)
next
  case (CancelTimer q)
  then show ?thesis using timers_inv_cancel [OF inv, of q "fst r"] run by (cases r) (simp add: user_run_def)
next
  case (CopyTimer q)
  then show ?thesis using registered_copy [OF inv [unfolded timers_inv_def]] run
    by (cases r) (auto simp: user_run_def timers_inv_def)
next
  case (DropTimer q)
  then show ?thesis using registered_drop [OF inv [unfolded timers_inv_def]] run
    by (cases r) (auto simp: user_run_def timers_inv_def)
qed (use inv run in \<open>cases r; auto simp: timers_inv_def user_ops split: option.splits if_splits\<close>)+

lemma socks_inv_user:
  assumes inv: "socks_inv st" and ans: "answers_ok narrow op p r st" and run: "user_run op p r st = Some st'"
  shows "socks_inv st'"
proof (cases op)
  case (OpenSock port cb)
  then show ?thesis using socks_inv_open [OF inv, of p "fst r"] ans run
    by (cases r) (auto simp: user_run_def answers_ok_def image_def)
next
  case (CloseSock q)
  then show ?thesis using socks_inv_close [OF inv, of q "fst r"] run by (cases r) (simp add: user_run_def)
next
  case (CopySock q)
  then show ?thesis using registered_copy [OF inv [unfolded socks_inv_def]] run
    by (cases r) (auto simp: user_run_def socks_inv_def)
next
  case (DropSock q)
  then show ?thesis using registered_drop [OF inv [unfolded socks_inv_def]] run
    by (cases r) (auto simp: user_run_def socks_inv_def)
qed (use inv run in \<open>cases r; auto simp: socks_inv_def user_ops split: option.splits if_splits\<close>)+

lemma i2c_inv_objs:
  assumes "i2c_inv c st" and "owned objs (set (kernel_i2c (events st)) \<union> finishing c)"
    and "\<And>p x. i2c_ops st p = Some x \<Longrightarrow> self_ref x \<Longrightarrow> map_option body (objs p) = Some (body x)"
  shows "i2c_inv c (st\<lparr>i2c_ops := objs\<rparr>)"
proof -
  have "\<exists>x buf. objs p = Some x \<and> i2c_payload (body x) = Some buf" if p: "p \<in> set (kernel_i2c (events st))" for p
  proof -
    obtain x buf where x: "i2c_ops st p = Some x" "i2c_payload (body x) = Some buf" using assms(1) p by (auto simp: i2c_inv_def)
    moreover have "self_ref x" using assms(1) owned_self x(1) p by (fastforce simp: i2c_inv_def)
    ultimately show ?thesis using assms(3) by fastforce
  qed
  then show ?thesis using assms(1,2) by (simp add: i2c_inv_def)
qed

lemma i2c_inv_user:
  assumes inv: "i2c_inv c st" and ans: "answers_ok narrow op p r st" and run: "user_run op p r st = Some st'"
  shows "i2c_inv c st'"
proof (cases op)
  case (StartI2c w address flags payload len cb)
  then show ?thesis using i2c_inv_start [OF inv, of p] ans run
    by (cases r) (auto simp: user_run_def answers_ok_def i2c_write_def i2c_read_def split: if_splits)
next
  case (CopyI2c q)
  have "i2c_inv c (st\<lparr>i2c_ops := ptr_copy q (i2c_ops st)\<rparr>)"
    by (rule i2c_inv_objs [OF inv owned_copy]) (use inv in \<open>auto simp: i2c_inv_def ptr_copy_def split: option.splits\<close>)
  then show ?thesis using CopyI2c run by (cases r) (simp add: user_run_def)
next
  case (DropI2c q)
  have "i2c_inv c (st\<lparr>i2c_ops := ptr_drop q (i2c_ops st)\<rparr>)"
    by (rule i2c_inv_objs [OF inv owned_drop])
      (use inv in \<open>auto simp: i2c_inv_def ptr_drop_def obj_free_def split: option.splits\<close>)
  then show ?thesis using DropI2c run by (cases r) (simp add: user_run_def)
qed (use inv run in \<open>cases r; auto simp: i2c_inv_def user_ops split: option.splits if_splits\<close>)+

lemma irqs_inv_user:
  assumes inv: "irqs_inv st" and may: "user_may op st" and run: "user_run op p r st = Some st'"
  shows "irqs_inv st'"
proof (cases op)
  case (EnableIrq pin edge cb)
  have "pin \<noteq> GP0" using run inv EnableIrq
    by (cases r) (auto simp: user_ops irqs_inv_def irq_slot_def GP0_def)
  then show ?thesis using irqs_inv_enable [OF inv, of pin edge cb "fst r" "fst (snd r)"] may run EnableIrq
    by (cases r) (auto simp: user_run_def user_may_def)
next
  case (DisableIrq pin)
  have "pin \<noteq> GP0" using run inv DisableIrq
    by (cases r) (auto simp: user_ops irqs_inv_def irq_slot_def GP0_def)
  then show ?thesis using irqs_inv_disable [OF inv, of pin "fst r"] may run DisableIrq
    by (cases r) (auto simp: user_run_def user_may_def)
qed (use inv run in \<open>cases r; auto simp: irqs_inv_def user_ops split: option.splits if_splits\<close>)+

lemma fifo_inv_user:
  assumes inv: "fifo_inv c st" and run: "user_run op p r st = Some st'"
  shows "fifo_inv c st'"
  by (cases op; cases r) (use inv run in \<open>auto simp: fifo_inv_def user_ops split: option.splits if_splits\<close>)

lemma storm_inv_user:
  "storm_inv c st \<Longrightarrow> user_may op st \<Longrightarrow> answers_ok True op p r st \<Longrightarrow> user_run op p r st = Some st' \<Longrightarrow> storm_inv c st'"
  by (auto simp: storm_inv_def intro: timers_inv_user socks_inv_user i2c_inv_user irqs_inv_user fifo_inv_user)

lemmas call_ops = deliver_def tmr_callback_def timer_fire_def irq_callback_def udp_callback_def udp_handle_def
  i2c_invoke_def tq_add_def Let_def

lemma storm_inv_call:
  assumes inv: "storm_inv Waiting st" and may: "kernel_may (events st) cb"
  shows "\<exists>st'. deliver cb st = Some st' \<and> storm_inv (called_control cb) st'"
proof (cases cb)
  case (TmrCb p)
  obtain st' where st': "deliver cb st = Some st'" "timers_inv st'"
    using timers_inv_call [of st p] inv may TmrCb by (auto simp: storm_inv_def)
  then have "socks_inv st' \<and> i2c_inv Waiting st' \<and> irqs_inv st' \<and> fifo_inv Waiting st'"
    using inv TmrCb by (auto simp: storm_inv_def socks_inv_def i2c_inv_def irqs_inv_def fifo_inv_def call_ops split: option.splits if_splits)
  then show ?thesis using st' TmrCb by (simp add: storm_inv_def)
next
  case (IrqCb idx)
  obtain st' where st': "deliver cb st = Some st'" "irqs_inv st'"
    using irqs_inv_call [of st idx] inv may IrqCb by (auto simp: storm_inv_def)
  then have "socks_inv st' \<and> i2c_inv Waiting st' \<and> timers_inv st' \<and> fifo_inv Waiting st'"
    using inv IrqCb by (auto simp: storm_inv_def socks_inv_def i2c_inv_def timers_inv_def fifo_inv_def call_ops split: option.splits if_splits)
  then show ?thesis using st' IrqCb by (simp add: storm_inv_def)
next
  case (UdpCb p recv addrstr)
  obtain st' where st': "deliver cb st = Some st'" "socks_inv st'"
    using socks_inv_call [of st p recv addrstr] inv may UdpCb by (auto simp: storm_inv_def)
  then have "timers_inv st' \<and> i2c_inv (Handling None) st' \<and> irqs_inv st' \<and> fifo_inv (Handling None) st'"
    using inv UdpCb by (auto simp: storm_inv_def timers_inv_def i2c_inv_def irqs_inv_def fifo_inv_def call_ops split: option.splits if_splits)
  then show ?thesis using st' UdpCb by (simp add: storm_inv_def)
next
  case (I2cCb p status)
  obtain st' where st': "deliver cb st = Some st'" "i2c_inv (Handling (Some p)) st'"
    using i2c_inv_call [of st p status] inv may I2cCb by (auto simp: storm_inv_def)
  then have "timers_inv st' \<and> socks_inv st' \<and> irqs_inv st' \<and> fifo_inv (Handling (Some p)) st'"
    using inv I2cCb by (auto simp: storm_inv_def timers_inv_def socks_inv_def irqs_inv_def fifo_inv_def call_ops split: option.splits if_splits)
  then show ?thesis using st' I2cCb by (simp add: storm_inv_def)
qed

lemma storm_inv_return:
  assumes inv: "storm_inv (Handling (Some p)) st"
  shows "\<exists>st'. i2c_return p st = Some st' \<and> storm_inv Waiting st'"
proof -
  obtain st' where st': "i2c_return p st = Some st'" "i2c_inv Waiting st'"
    using i2c_inv_return [of p st] inv by (auto simp: storm_inv_def)
  then have "timers_inv st' \<and> socks_inv st' \<and> irqs_inv st' \<and> fifo_inv Waiting st'"
    using inv by (auto simp: storm_inv_def timers_inv_def socks_inv_def irqs_inv_def fifo_inv_def i2c_return_def split: option.splits)
  then show ?thesis using st' by (simp add: storm_inv_def)
qed

lemmas part_defs = timers_inv_def socks_inv_def i2c_inv_def irqs_inv_def fifo_inv_def

lemma storm_inv_step:
  assumes "storm_step True (c, st) (c', st')" and inv: "storm_inv c st"
  shows "storm_inv c' st'"
  using assms(1)
proof (cases rule: storm_stepE)
  case (user op p r)
  then show ?thesis using storm_inv_user inv by blast
next
  case (fire t ts)
  then show ?thesis using inv by (auto simp: storm_inv_def part_defs)
next
  case pop
  then show ?thesis using inv by (auto simp: storm_inv_def part_defs)
next
  case (call cb)
  then show ?thesis using storm_inv_call [of st cb] inv by auto
next
  case (fill p x buf data)
  then show ?thesis using inv i2c_inv_fill [of c st p x data] by (auto simp: storm_inv_def timers_inv_def socks_inv_def irqs_inv_def fifo_inv_def)
next
  case (i2c_returns p)
  then show ?thesis using storm_inv_return [of p st] inv by auto
qed (use inv in \<open>auto simp: storm_inv_def part_defs\<close>)

lemma storm_inv_reach: "storm_reach True s \<Longrightarrow> storm_inv (fst s) (snd s)"
proof (induction rule: storm_reach.induct)
  case start
  show ?case using storm_inv_start by simp
next
  case (step s s')
  then show ?case using storm_inv_step [of "fst s" "snd s" "fst s'" "snd s'"] by simp
qed

section \<open>What the payload can rely on\<close>

text \<open>A periodic timer of a second with the callback 7 at the address 1000, waiting for the kernel.\<close>

definition demo_timer :: "nat storm" where "demo_timer = timer_periodic 375000 7 1000 1 storm_start"

lemma demo_timer_reach: "storm_reach True (Waiting, demo_timer)"
proof -
  have "storm_step True (Main, storm_start) (Main, demo_timer)"
    by (rule storm_step.user [where op = "NewTimer True 375000 7" and p = 1000 and r = "(1, 0, 0)"])
      (simp_all add: user_may_def answers_ok_def user_run_def demo_timer_def storm_start_def)
  with storm_reach.start have "storm_reach True (Main, demo_timer)" by (rule storm_reach.step)
  then have s: "storm_reach True (Scheduler, demo_timer)" by (rule storm_reach.step) (rule storm_step.scheduler)
  show ?thesis
    by (rule storm_reach.step [OF s storm_step.wait])
      (simp add: demo_timer_def timer_periodic_def timer_new_def storm_start_def syscall_ex_def)
qed

lemma demo_timer_kernel: "kernel_timers (events demo_timer) = [((1, True), 1000)]"
  by (simp add: demo_timer_def timer_periodic_def timer_new_def storm_start_def syscall_ex_def)

text \<open>C1: Memory safety of the payload. In every state that is reachable while the kernel's timer numbers fit in
  16 bits, whatever callback the kernel may make finds its object alive, the operation a callback has to finish is
  alive, and an operation of user code with pointers it holds goes wrong exactly if it sets or removes an
  interrupt on the pin \<open>GP0\<close>.\<close>

theorem storm_callbacks_safe:
  assumes "storm_reach True (c, st)"
  shows "(c = Waiting \<and> kernel_may (events st) cb \<longrightarrow> (\<exists>st'. deliver cb st = Some st')) \<and>
    (c = Handling (Some q) \<longrightarrow> (\<exists>st'. i2c_return q st = Some st')) \<and>
    (user_may op st \<longrightarrow> (user_run op p r st = None \<longleftrightarrow> (\<exists>edge f. op = EnableIrq GP0 edge f) \<or> op = DisableIrq GP0))"
proof -
  have inv: "storm_inv c st" using storm_inv_reach [OF assms] by simp
  then have len: "length (irq_ptrs st) = 20" by (simp add: storm_inv_def irqs_inv_def)
  have gp0: "user_run (EnableIrq GP0 edge f) p r st = None" "user_run (DisableIrq GP0) p r st = None" for edge f
    by (cases r; simp add: user_run_def enable_irq_def disable_irq_def irq_slot_def GP0_def len)+
  have "\<exists>st'. user_run op p r st = Some st'"
    if "user_may op st" "\<forall>edge f. op \<noteq> EnableIrq GP0 edge f" "op \<noteq> DisableIrq GP0"
  proof (cases op)
    case (EnableIrq pin edge f)
    then show ?thesis using that irqs_inv_enable [of st pin edge f "fst r" "fst (snd r)"] inv
      by (cases r) (auto simp: user_run_def user_may_def storm_inv_def)
  next
    case (DisableIrq pin)
    then show ?thesis using that irqs_inv_disable [of st pin "fst r"] inv
      by (cases r) (auto simp: user_run_def user_may_def storm_inv_def)
  qed (use that in \<open>cases r; auto simp: user_run_def user_may_def held_def timer_cancel_def udp_close_def udp_sendto_def
      split: option.splits\<close>)+
  then have "user_run op p r st = None \<longleftrightarrow> (\<exists>edge f. op = EnableIrq GP0 edge f) \<or> op = DisableIrq GP0" if "user_may op st"
    using that gp0 by (metis option.distinct(1))
  moreover have "\<exists>st'. deliver cb st = Some st'" if "c = Waiting \<and> kernel_may (events st) cb"
    using storm_inv_call [of st cb] inv that by auto
  moreover have "\<exists>st'. i2c_return q st = Some st'" if "c = Handling (Some q)"
    using storm_inv_return [of q st] inv that by auto
  ultimately show ?thesis by simp
qed

theorem storm_callbacks_safe_witness: "\<exists>st'. deliver (TmrCb 1000) demo_timer = Some st'"
  using storm_callbacks_safe [OF demo_timer_reach, of "TmrCb 1000"] by (simp add: demo_timer_kernel)

text \<open>C2: Lifetimes. In every reachable state a timer or socket lives exactly as long as the kernel may
  call it or user code holds a pointer to it, so nothing dangles and nothing leaks; and the kernel has
  it under the number the object keeps, so that \<open>cancel\<close> and \<open>close\<close> reach it.\<close>

theorem storm_lifetime:
  assumes "storm_reach True (c, st)"
  shows "(timers st p \<noteq> None \<longleftrightarrow> p \<in> snd ` set (kernel_timers (events st)) \<or> held (timers st) p) \<and>
    (socks st p \<noteq> None \<longleftrightarrow> p \<in> snd ` set (kernel_socks (events st)) \<or> held (socks st) p) \<and>
    (((i, per), p) \<in> set (kernel_timers (events st)) \<longrightarrow>
      (\<exists>x. timers st p = Some x \<and> self_ref x \<and> ucast (timer_id (body x)) = i \<and> is_periodic (body x) = per)) \<and>
    ((i, p) \<in> set (kernel_socks (events st)) \<longrightarrow>
      (\<exists>x. socks st p = Some x \<and> self_ref x \<and> sock_id (body x) = i))"
proof -
  have inv: "timers_inv st" "socks_inv st" using storm_inv_reach [OF assms] by (auto simp: storm_inv_def)
  note t = inv(1) [unfolded timers_inv_def] and s = inv(2) [unfolded socks_inv_def]
  show ?thesis
    using owned_alive [OF registered_owned(1) [OF t]] owned_alive [OF registered_owned(1) [OF s]]
      registered_key [OF t, of "(i, per)" p] registered_key [OF s, of i p] by simp
qed

theorem storm_lifetime_witness: "timers demo_timer 1000 \<noteq> None"
  using storm_lifetime [OF demo_timer_reach, of 1000] by (simp add: demo_timer_kernel)

text \<open>C3: The task queue is first in, first out, and runs each task once. In every reachable state the
  tasks queued so far are those that ran, in this order, followed by those that wait; when the
  scheduler goes to wait for the kernel, all of them ran.\<close>

theorem storm_tasks_fifo:
  assumes "storm_reach True (c, st)"
  shows "(\<exists>ts. tasks_queued (events st) = tasks_fired (events st) @ ts) \<and>
    (c = Scheduler \<and> storm_step True (Scheduler, st) (Waiting, st') \<longrightarrow> tasks_fired (events st') = tasks_queued (events st'))"
proof -
  have inv: "fifo_inv c st" using storm_inv_reach [OF assms] by (simp add: storm_inv_def)
  have "tasks_fired (events st') = tasks_queued (events st')"
    if "c = Scheduler" "storm_step True (Scheduler, st) (Waiting, st')"
    using that(2) inv that(1) by (auto simp: fifo_inv_def elim: storm_stepE)
  then show ?thesis using inv by (auto simp: fifo_inv_def)
qed

theorem storm_tasks_fifo_witness:
  "\<exists>ts. tasks_queued (events demo_timer) = tasks_fired (events demo_timer) @ ts"
  using storm_tasks_fifo [OF demo_timer_reach] by blast

text \<open>After \<open>cancel\<close> the kernel does not call the timer again, but a callback that is already in
  the task queue stays there and will run: the queue is not purged.\<close>

theorem timer_cancel_keeps_queue:
  assumes "storm_reach True (c, st)" and "timer_cancel p r st = Some st'"
  shows "\<not> kernel_may (events st') (TmrCb p) \<and> dyn_tq st' = dyn_tq st"
proof -
  have inv: "timers_inv st" using storm_inv_reach [OF assms(1)] by (simp add: storm_inv_def)
  have inv': "owned (timers st') (snd ` set (kernel_timers (events st')))"
    using timers_inv_cancel [OF inv assms(2)] registered_owned(1) by (auto simp: timers_inv_def)
  have "\<not> (\<exists>x. timers st' p = Some x \<and> self_ref x)"
    using assms(2) by (auto simp: timer_cancel_def self_reset_def obj_free_def split: option.splits if_splits)
  then have "p \<notin> snd ` set (kernel_timers (events st'))" using owned_live [OF inv'] by blast
  then show ?thesis using assms(2) by (auto simp: timer_cancel_def syscall_ex_def split: option.splits if_splits)
qed

theorem timer_cancel_keeps_queue_witness:
  "\<exists>st'. timer_cancel 1000 0 demo_timer = Some st' \<and> \<not> kernel_may (events st') (TmrCb 1000)"
proof -
  have "\<exists>st'. timer_cancel 1000 0 demo_timer = Some st'"
    by (simp add: timer_cancel_def demo_timer_def timer_periodic_def timer_new_def obj_new_def Let_def)
  then show ?thesis using timer_cancel_keeps_queue [OF demo_timer_reach] by blast
qed

lemma number_kept: "ucast (ucast (i :: u32) :: 16 word) = take_bit 16 i"
  by (rule bit_word_eqI) (auto simp: bit_ucast_iff bit_take_bit_iff)

lemma number_narrow: "(2 :: u32) ^ 16 \<le> i \<Longrightarrow> take_bit 16 i \<noteq> i"
  using word_le_nat_alt [of "2 ^ 16" i] by (auto simp: take_bit_eq_mod word_unat_eq_iff unat_mod)

text \<open>C4: The object keeps the low 16 bits of the number of its timer. For every number \<open>i\<close> beyond 16 bits there is a
  reachable state in which the kernel runs a timer under \<open>i\<close> and one under the low bits of \<open>i\<close>, and \<open>cancel\<close> on the
  first stops the second and leaves the first running. When user code then drops its pointer to the timer it has
  cancelled, the kernel may still call it, though the object is gone.\<close>

theorem timer_id_truncated:
  assumes "2 ^ 16 \<le> (i :: u32)"
  shows "\<exists>(st :: nat storm) st1 st2. storm_reach False (Main, st) \<and>
    kernel_timers (events st) = [((i, True), 2000), ((take_bit 16 i, True), 1000)] \<and>
    timer_cancel 2000 0 st = Some st1 \<and> kernel_timers (events st1) = [((i, True), 2000)] \<and>
    st2 = st1\<lparr>timers := ptr_drop 2000 (timers st1)\<rparr> \<and> storm_reach False (Waiting, st2) \<and>
    kernel_may (events st2) (TmrCb 2000) \<and> deliver (TmrCb 2000) st2 = None"
proof -
  let ?j = "take_bit 16 i"
  have ij: "?j \<noteq> i" by (rule number_narrow [OF assms])
  define s0 :: "nat storm" where "s0 = timer_periodic 375000 7 1000 ?j storm_start"
  define s1 where "s1 = timer_periodic 375000 7 2000 i s0"
  define s2 where "s2 = the (timer_cancel 2000 0 s1)"
  define s3 where "s3 = s2\<lparr>timers := ptr_drop 2000 (timers s2)\<rparr>"
  have s0: "timers s0 2000 = None" "events s0 = [Svc 0x201 [Num 375000, Num 1, Code tmr_entry, Obj 1000] ?j]" "dyn_tq s0 = []"
    by (simp_all add: s0_def timer_periodic_def timer_new_def obj_new_def storm_start_def syscall_ex_def)
  have s1: "timers s1 2000 = Some \<lparr>body = \<lparr>timer_id = ucast i, is_periodic = True, timer_cb = 7\<rparr>, self_ref = True, use_count = 1\<rparr>"
    "events s1 = Svc 0x201 [Num 375000, Num 1, Code tmr_entry, Obj 2000] i # events s0" "dyn_tq s1 = []"
    by (simp_all add: s1_def timer_periodic_def timer_new_def obj_new_def s0 syscall_ex_def)
  have s2: "timer_cancel 2000 0 s1 = Some s2" "timers s2 2000 = Some \<lparr>body = \<lparr>timer_id = ucast i, is_periodic = True, timer_cb = 7\<rparr>, self_ref = False, use_count = 1\<rparr>"
    "events s2 = Svc 0x205 [Num ?j] 0 # events s1" "dyn_tq s2 = []"
    by (simp_all add: s2_def timer_cancel_def s1 self_reset_def obj_free_def syscall_ex_def number_kept)
  have s3: "timers s3 2000 = None" "events s3 = events s2" "dyn_tq s3 = []"
    by (simp_all add: s3_def s2 ptr_drop_def obj_free_def)
  have k: "kernel_timers (events s1) = [((i, True), 2000), ((?j, True), 1000)]" "kernel_timers (events s2) = [((i, True), 2000)]"
    using ij by (auto simp: s0 s1 s2)
  have "storm_reach False (Main, s0)"
    by (rule storm_reach.step [OF storm_reach.start storm_step.user [where op = "NewTimer True 375000 7" and p = 1000 and r = "(?j, 0, 0)"]])
      (simp_all add: user_may_def answers_ok_def user_run_def s0_def storm_start_def)
  from storm_reach.step [OF this storm_step.user [where op = "NewTimer True 375000 7" and p = 2000 and r = "(i, 0, 0)"]]
  have r1: "storm_reach False (Main, s1)" using ij by (simp add: user_may_def answers_ok_def user_run_def s1_def s0)
  from storm_reach.step [OF this storm_step.user [where op = "CancelTimer 2000" and r = "(0, 0, 0)"]]
  have "storm_reach False (Main, s2)" by (simp add: user_may_def answers_ok_def user_run_def s1 s2 held_def)
  from storm_reach.step [OF this storm_step.user [where op = "DropTimer 2000" and r = "(0, 0, 0)"]]
  have "storm_reach False (Main, s3)" by (simp add: user_may_def answers_ok_def user_run_def s2 s3_def held_def)
  from storm_reach.step [OF this storm_step.scheduler] have "storm_reach False (Scheduler, s3)" .
  from storm_reach.step [OF this storm_step.wait] have "storm_reach False (Waiting, s3)" by (simp add: s3)
  moreover have "kernel_may (events s3) (TmrCb 2000)" "deliver (TmrCb 2000) s3 = None"
    using k(2) by (simp_all add: s3 deliver_def tmr_callback_def timer_fire_def)
  ultimately show ?thesis using r1 k s2(1) s3_def by blast
qed

theorem timer_id_truncated_witness:
  "\<exists>(st :: nat storm) st1. kernel_timers (events st) = [((0x10005, True), 2000), ((5, True), 1000)] \<and>
    timer_cancel 2000 0 st = Some st1 \<and> kernel_timers (events st1) = [((0x10005, True), 2000)]"
proof -
  have "take_bit 16 (0x10005 :: u32) = 5" "(2 :: u32) ^ 16 \<le> 0x10005" by simp_all
  then show ?thesis using timer_id_truncated [of "0x10005"] by metis
qed

text \<open>C5: The interrupt table has a place for every pin but the last: on \<open>GP0\<close> the calls leave the array,
  as \<open>irq_callback\<close> does for the index 20, which its test lets through.\<close>

theorem irq_table_bounds:
  assumes "storm_reach True (c, st)" and "pin \<in> set board_pins"
  shows "(enable_irq pin edge cb r1 r2 st = None \<longleftrightarrow> pin = GP0) \<and> (disable_irq pin r1 st = None \<longleftrightarrow> pin = GP0) \<and>
    (irq_callback idx st = None \<longleftrightarrow> idx = 20)"
proof -
  have inv: "irqs_inv st" using storm_inv_reach [OF assms(1)] by (simp add: storm_inv_def)
  then have len: "length (irq_ptrs st) = 20" by (simp add: irqs_inv_def)
  have gp0: "disable_irq GP0 r1 st = None" "enable_irq GP0 edge cb r1 r2 st = None"
    by (simp_all add: enable_irq_def disable_irq_def irq_slot_def GP0_def len)
  have "idx = 20 \<longleftrightarrow> idx \<le> 20 \<and> \<not> unat idx < 20"
    by (auto simp: word_le_nat_alt word_unat_eq_iff)
  then have "irq_callback idx st = None \<longleftrightarrow> idx = 20"
    by (auto simp: irq_callback_def irq_slot_def len split: option.splits)
  moreover have "enable_irq pin edge cb r1 r2 st \<noteq> None \<and> disable_irq pin r1 st \<noteq> None" if "pin \<noteq> GP0"
    using irqs_inv_enable [OF inv assms(2) that, of edge cb r1 r2] irqs_inv_disable [OF inv assms(2) that, of r1] by auto
  ultimately show ?thesis using gp0 by (cases "pin = GP0") simp_all
qed

theorem irq_table_bounds_witness: "enable_irq GP0 1 7 0 0 demo_timer = None"
  using irq_table_bounds [OF demo_timer_reach, of GP0 1 7 0 0 0] by (simp add: board_pins_def GP0_def)

text \<open>\<open>run_one\<close> is a step into the task, what the task does, and the step out of it.\<close>

lemma run_one_steps:
  assumes q: "dyn_tq st = t # ts" and run: "run t (st\<lparr>events := Fired t # events st\<rparr>) = Some st1"
    and steps: "(storm_step narrow)\<^sup>*\<^sup>* (Task, st\<lparr>events := Fired t # events st\<rparr>) (Task, st1)"
  shows "run_one run st = Some (True, st1\<lparr>dyn_tq := tl (dyn_tq st1)\<rparr>)"
    and "(storm_step narrow)\<^sup>*\<^sup>* (Scheduler, st) (Scheduler, st1\<lparr>dyn_tq := tl (dyn_tq st1)\<rparr>)"
proof -
  show "run_one run st = Some (True, st1\<lparr>dyn_tq := tl (dyn_tq st1)\<rparr>)" using q run by (simp add: run_one_def)
  show "(storm_step narrow)\<^sup>*\<^sup>* (Scheduler, st) (Scheduler, st1\<lparr>dyn_tq := tl (dyn_tq st1)\<rparr>)"
    using storm_step.fire [of st t ts narrow, OF q] steps storm_step.pop [of narrow st1]
    by (meson converse_rtranclp_into_rtranclp rtranclp.rtrancl_into_rtrancl)
qed

end
