(* ===== verification/CMem.thy ===== *)
theory CMem
  imports Prelude
begin

text \<open>
  The memory of the C library models: bytes at addresses. An address and a \<open>size_t\<close> are natural
  numbers; the models do not wrap addresses, so an object lies below the end of the address space. A
  \<open>long\<close> has four bytes, the lowest first (the target is a little-endian 32-bit ARM).

  The memory is total: a load outside of every object has a value no theorem says anything about.
\<close>

unbundle bit_operations_syntax

type_synonym mem = "nat \<Rightarrow> u8"

section \<open>Words\<close>

definition byte_of :: "u32 \<Rightarrow> nat \<Rightarrow> u8" where
  "byte_of w i = ucast (drop_bit (8 * i) w)"

definition load32 :: "mem \<Rightarrow> nat \<Rightarrow> u32" where
  "load32 m a = ucast (m a) OR push_bit 8 (ucast (m (a + 1))) OR push_bit 16 (ucast (m (a + 2))) OR
                push_bit 24 (ucast (m (a + 3)))"

definition store32 :: "mem \<Rightarrow> nat \<Rightarrow> u32 \<Rightarrow> mem" where
  "store32 m a w = m(a := byte_of w 0, a + 1 := byte_of w 1, a + 2 := byte_of w 2, a + 3 := byte_of w 3)"

lemma bit_load32: "bit (load32 m a) n \<longleftrightarrow>
    n < 8 \<and> bit (m a) n \<or> 8 \<le> n \<and> n < 16 \<and> bit (m (a + 1)) (n - 8) \<or>
    16 \<le> n \<and> n < 24 \<and> bit (m (a + 2)) (n - 16) \<or> 24 \<le> n \<and> n < 32 \<and> bit (m (a + 3)) (n - 24)"
  by (auto simp: load32_def bit_or_iff bit_push_bit_iff bit_ucast_iff dest: bit_imp_le_length)

lemma less_4_cases: "(i :: nat) < 4 \<longleftrightarrow> i = 0 \<or> i = 1 \<or> i = 2 \<or> i = 3"
  by auto

lemma byte_of_load32 [simp]: "i < 4 \<Longrightarrow> byte_of (load32 m a) i = m (a + i)"
  by (rule bit_word_eqI) (auto simp: byte_of_def bit_ucast_iff bit_drop_bit_eq bit_load32 less_4_cases)

lemma byte_of_eqI: "(\<And>i. i < 4 \<Longrightarrow> byte_of v i = byte_of w i) \<Longrightarrow> v = w"
proof (rule bit_word_eqI)
  fix n assume eq: "\<And>i. i < 4 \<Longrightarrow> byte_of v i = byte_of w i" and "n < LENGTH(32)"
  then have "bit (byte_of v (n div 8)) (n mod 8) = bit (byte_of w (n div 8)) (n mod 8)" by simp
  then show "bit v n = bit w n" by (simp add: byte_of_def bit_ucast_iff bit_drop_bit_eq)
qed

lemma load32_eq_iff: "load32 m a = load32 m' b \<longleftrightarrow> (\<forall>i<4. m (a + i) = m' (b + i))"
proof
  assume e: "load32 m a = load32 m' b"
  show "\<forall>i<4. m (a + i) = m' (b + i)"
    using byte_of_load32 [of _ m a] byte_of_load32 [of _ m' b] unfolding e by metis
qed (auto intro: byte_of_eqI)

lemma load32_cong: "(\<And>i. i < 4 \<Longrightarrow> m' (a + i) = m (a + i)) \<Longrightarrow> load32 m' a = load32 m a"
  by (simp add: load32_eq_iff)

lemma store32_load32:
  "store32 m d (load32 m' s) = (\<lambda>a. if d \<le> a \<and> a < d + 4 then m' (s + (a - d)) else m a)"
  by (rule ext) (auto simp: store32_def)

lemma byte_of_xor: "byte_of (v XOR w) i = byte_of v i XOR byte_of w i"
  by (rule bit_word_eqI) (auto simp: byte_of_def bit_ucast_iff bit_drop_bit_eq bit_xor_iff)

section \<open>The zero byte test\<close>

text \<open>The macro \<open>DETECTNULL\<close> of the word-at-a-time functions, for a 32-bit \<open>long\<close>.\<close>

definition DETECTNULL :: "u32 \<Rightarrow> u32" where
  "DETECTNULL X = (X - 0x01010101) AND NOT X AND 0x80808080"

lemma bit_low_byte:
  fixes r Z :: int
  assumes "0 \<le> r" and "r < 256"
  shows "bit (r + 256 * Z) n \<longleftrightarrow> (if n < 8 then bit r n else bit Z (n - 8))"
proof -
  have "take_bit 8 (r + 256 * Z) = r" using assms by (simp add: take_bit_eq_mod)
  moreover have "drop_bit 8 (r + 256 * Z) = Z" using assms by (simp add: drop_bit_eq_div)
  ultimately show ?thesis
    using bit_take_bit_iff [of 8 "r + 256 * Z" n] bit_drop_bit_eq [of 8 "r + 256 * Z"]
    by (cases "n < 8") (auto dest: fun_cong [of _ _ "n - 8"])
qed

lemma bit7_iff:
  fixes x :: int
  assumes "0 \<le> x" and "x < 256"
  shows "bit x 7 \<longleftrightarrow> 128 \<le> x"
proof (cases "128 \<le> x")
  case True
  have "x div 128 = 1" using assms True by (intro int_div_pos_eq [of _ _ _ "x - 128"]) simp_all
  then have "odd (x div 2 ^ 7)" by simp
  then show ?thesis using True unfolding bit_iff_odd by blast
next
  case False
  have "x div 128 = 0" using assms False by (intro div_pos_pos_trivial) simp_all
  then have "\<not> odd (x div 2 ^ 7)" by simp
  then show ?thesis using False unfolding bit_iff_odd by blast
qed

text \<open>Bit \<open>n\<close> is set in the difference \<open>y\<close> and not in \<open>x\<close>: what the test looks for at the byte tops.\<close>

definition raised :: "int \<Rightarrow> int \<Rightarrow> nat \<Rightarrow> bool" where
  "raised y x n \<longleftrightarrow> bit y n \<and> \<not> bit x n"

lemma raised_zero: "raised (0 - 1 + 256 * W) (0 + 256 * Z) 7"
proof -
  have "bit (255 + 256 * (W - 1)) 7" using bit_low_byte [of 255 "W - 1" 7] bit7_iff [of 255] by simp
  moreover have "\<not> bit (0 + 256 * Z) 7" using bit_low_byte [of 0 Z 7] by simp
  moreover have "0 - 1 + 256 * W = 255 + 256 * (W - 1)" by simp
  ultimately show ?thesis unfolding raised_def by presburger
qed

lemma raised_nonzero:
  assumes "1 \<le> r" and "r < 256"
  shows "\<not> raised (r - 1 + 256 * W) (r + 256 * Z) 7"
    and "raised (r - 1 + 256 * W) (r + 256 * Z) (n + 8) \<longleftrightarrow> raised W Z n"
  using assms bit_low_byte [of "r - 1" W] bit_low_byte [of r Z] bit7_iff [of r] bit7_iff [of "r - 1"]
  by (simp_all add: raised_def)

text \<open>Below the lowest zero byte no borrow happens, so the bytes can be taken off one at a time.\<close>

lemma raised_bytes:
  assumes "y = r - 1 + 256 * W" and "x = r + 256 * Z" and "0 \<le> r" and "r < 256"
    and "\<And>n. n \<in> set ns \<Longrightarrow> 8 \<le> n"
  shows "(\<exists>n \<in> set (7 # ns). raised y x n) \<longleftrightarrow> r = 0 \<or> (\<exists>n \<in> set ns. raised W Z (n - 8))"
proof (cases "r = 0")
  case True
  then show ?thesis using raised_zero [of W Z] assms(1,2) by auto
next
  case False
  then have r: "1 \<le> r" using assms(3) by simp
  have "raised y x n \<longleftrightarrow> raised W Z (n - 8)" if "n \<in> set ns" for n
    using raised_nonzero(2) [OF r assms(4), of W Z "n - 8"] assms(5) [OF that] by (simp add: assms(1,2))
  then show ?thesis using raised_nonzero(1) [OF r assms(4), of W Z] False by (simp add: assms(1,2))
qed

lemma detect_bytes:
  fixes b0 b1 b2 b3 :: int
  assumes b: "0 \<le> b0" "b0 < 256" "0 \<le> b1" "b1 < 256" "0 \<le> b2" "b2 < 256" "0 \<le> b3" "b3 < 256"
    and X: "X = b0 + 256 * (b1 + 256 * (b2 + 256 * b3))"
  shows "(\<exists>n \<in> set [7, 15, 23, 31]. raised (X - 0x01010101) X n) \<longleftrightarrow> b0 = 0 \<or> b1 = 0 \<or> b2 = 0 \<or> b3 = 0"
proof -
  define Z1 where "Z1 = b1 + 256 * (b2 + 256 * b3)"
  define Z2 where "Z2 = b2 + 256 * b3"
  define Z3 where "Z3 = b3 + 256 * 0"
  define W3 where "W3 = b3 - 1 + 256 * 0"
  define W2 where "W2 = b2 - 1 + 256 * W3"
  define W1 where "W1 = b1 - 1 + 256 * W2"
  have Y: "X - 0x01010101 = b0 - 1 + 256 * W1" by (simp add: X W1_def W2_def W3_def)
  have e: "X = b0 + 256 * Z1" "Z1 = b1 + 256 * Z2" "Z2 = b2 + 256 * Z3"
    by (simp_all add: X Z1_def Z2_def Z3_def)
  have "(\<exists>n \<in> set [7, 15, 23, 31]. raised (X - 0x01010101) X n) \<longleftrightarrow>
      b0 = 0 \<or> (\<exists>n \<in> set [15, 23, 31]. raised W1 Z1 (n - 8))"
    by (rule raised_bytes [OF Y e(1)]) (use b in auto)
  also have "(\<exists>n \<in> set [15, 23, 31]. raised W1 Z1 (n - 8)) \<longleftrightarrow> (\<exists>n \<in> set [7, 15, 23]. raised W1 Z1 n)"
    by simp
  also have "\<dots> \<longleftrightarrow> b1 = 0 \<or> (\<exists>n \<in> set [15, 23]. raised W2 Z2 (n - 8))"
    by (rule raised_bytes [OF W1_def e(2)]) (use b in auto)
  also have "(\<exists>n \<in> set [15, 23]. raised W2 Z2 (n - 8)) \<longleftrightarrow> (\<exists>n \<in> set [7, 15]. raised W2 Z2 n)"
    by simp
  also have "\<dots> \<longleftrightarrow> b2 = 0 \<or> (\<exists>n \<in> set [15]. raised W3 Z3 (n - 8))"
    by (rule raised_bytes [OF W2_def e(3)]) (use b in auto)
  also have "(\<exists>n \<in> set [15]. raised W3 Z3 (n - 8)) \<longleftrightarrow> (\<exists>n \<in> set [7]. raised W3 Z3 n)"
    by simp
  also have "\<dots> \<longleftrightarrow> b3 = 0 \<or> (\<exists>n \<in> set []. raised 0 0 (n - 8))"
    by (rule raised_bytes [OF W3_def Z3_def]) (use b in auto)
  finally show ?thesis by simp
qed

lemma uint_bytes:
  "uint w = uint (byte_of w 0) + 256 * (uint (byte_of w 1) + 256 * (uint (byte_of w 2) + 256 * uint (byte_of w 3)))"
proof -
  have t: "uint (byte_of w i) = take_bit 8 (drop_bit (8 * i) (uint w))" for i
    by (rule bit_eqI) (auto simp: byte_of_def bit_uint_iff bit_ucast_iff bit_take_bit_iff bit_drop_bit_eq
        dest: bit_imp_le_length)
  have u: "uint (byte_of w i) = uint w div 2 ^ (8 * i) mod 256" for i
    unfolding t by (simp add: take_bit_eq_mod drop_bit_eq_div)
  have w: "uint w < 4294967296" "0 \<le> uint w" using uint_lt2p [of w] by simp_all
  have d: "uint w div 2 ^ (8 * 2) = uint w div 256 div 256" "uint w div 2 ^ (8 * 3) = uint w div 256 div 256 div 256"
    by (simp_all add: zdiv_zmult2_eq [symmetric])
  have "uint w div 256 div 256 div 256 < 256" "0 \<le> uint w div 256 div 256 div 256"
    using w by (simp_all add: zdiv_zmult2_eq [symmetric] pos_imp_zdiv_nonneg_iff)
  then have top: "uint w div 256 div 256 div 256 mod 256 = uint w div 256 div 256 div 256"
    by (rule mod_pos_pos_trivial [OF _ _, rotated])
  have s: "x = x mod 256 + 256 * (x div 256)" for x :: int by simp
  show ?thesis
    unfolding u d top using s [of "uint w"] s [of "uint w div 256"] s [of "uint w div 256 div 256"] by simp
qed

lemma DETECTNULL_iff: "DETECTNULL w \<noteq> 0 \<longleftrightarrow> (\<exists>i<4. byte_of w i = 0)"
proof -
  have mask: "bit (0x80808080 :: u32) n \<longleftrightarrow> n \<in> {7, 15, 23, 31}" if "n < 32" for n
  proof -
    have "(0x80808080 :: u32) = 2 ^ 7 OR 2 ^ 15 OR 2 ^ 23 OR 2 ^ 31" by simp
    then show ?thesis by (simp only: bit_or_iff bit_exp_iff possible_bit_word) auto
  qed
  have b: "bit (w - 0x01010101) n \<longleftrightarrow> bit (uint w - 0x01010101) n" if "n < 32" for n
  proof -
    have "w - 0x01010101 = word_of_int (uint w - 0x01010101)" by simp
    then show ?thesis using that by (simp only: bit_word_of_int_iff) simp
  qed
  have "DETECTNULL w \<noteq> 0 \<longleftrightarrow> (\<exists>n < 32. bit (DETECTNULL w) n)"
    using bit_word_eqI [of "DETECTNULL w" 0] by (auto simp: bit_eq_iff)
  also have "\<dots> \<longleftrightarrow> (\<exists>n \<in> set [7, 15, 23, 31]. raised (uint w - 0x01010101) (uint w) n)"
  proof -
    have "bit (DETECTNULL w) n \<longleftrightarrow> n \<in> {7, 15, 23, 31} \<and> raised (uint w - 0x01010101) (uint w) n" if n: "n < 32" for n
      unfolding DETECTNULL_def bit_and_iff bit_not_iff raised_def bit_uint_iff mask [OF n] b [OF n]
      using n by auto
    then have "(\<exists>n < 32. bit (DETECTNULL w) n) \<longleftrightarrow>
        (\<exists>n < 32. n \<in> {7, 15, 23, 31} \<and> raised (uint w - 0x01010101) (uint w) n)" by blast
    moreover have "\<forall>n \<in> {7, 15, 23, 31 :: nat}. n < 32" by simp
    moreover have "set [7, 15, 23, 31] = {7, 15, 23, 31 :: nat}" by simp
    ultimately show ?thesis by metis
  qed
  also have "\<dots> \<longleftrightarrow> uint (byte_of w 0) = 0 \<or> uint (byte_of w 1) = 0 \<or> uint (byte_of w 2) = 0 \<or> uint (byte_of w 3) = 0"
    by (rule detect_bytes [OF _ _ _ _ _ _ _ _ uint_bytes])
       (simp_all add: uint_lt2p [of "byte_of w _", simplified])
  also have "\<dots> \<longleftrightarrow> (\<exists>i<4. byte_of w i = 0)"
    by (auto simp: less_4_cases uint_0_iff)
  finally show ?thesis .
qed

section \<open>Word tests\<close>

text \<open>A block with all bytes equal to \<open>d\<close>, built by shifting, and the macro \<open>DETECTCHAR\<close>.\<close>

definition fill_word :: "u8 \<Rightarrow> u32" where
  "fill_word d = (let b = push_bit 8 (ucast d) OR ucast d in push_bit 16 b OR b)"

definition DETECTCHAR :: "u32 \<Rightarrow> u32 \<Rightarrow> u32" where
  "DETECTCHAR X MASK = DETECTNULL (X XOR MASK)"

lemma byte_of_fill_word [simp]: "i < 4 \<Longrightarrow> byte_of (fill_word d) i = d"
  by (rule bit_word_eqI)
     (auto simp: byte_of_def fill_word_def Let_def bit_ucast_iff bit_drop_bit_eq bit_or_iff bit_push_bit_iff less_4_cases
       dest: bit_imp_le_length)

lemma DETECTCHAR_iff: "DETECTCHAR w (fill_word d) \<noteq> 0 \<longleftrightarrow> (\<exists>i<4. byte_of w i = d)"
proof -
  have x: "v XOR d = 0 \<longleftrightarrow> v = d" for v d :: u8
    by (metis xor.assoc xor.right_neutral xor_self_eq)
  show ?thesis by (simp add: DETECTCHAR_def DETECTNULL_iff byte_of_xor x cong: conj_cong)
qed

text \<open>
  The word-at-a-time functions rely on one contract: the test of a word tells whether one of its
  bytes is a byte looked for.
\<close>

locale word_test =
  fixes hit :: "u8 \<Rightarrow> bool" and wtest :: "u32 \<Rightarrow> bool"
  assumes wtest_iff: "wtest w \<longleftrightarrow> (\<exists>i<4. hit (byte_of w i))"
begin

lemma wtest_load: "wtest (load32 m a) \<longleftrightarrow> (\<exists>i<4. hit (m (a + i)))"
  by (auto simp: wtest_iff)

end

interpretation null_test: word_test "\<lambda>b. b = 0" "\<lambda>w. DETECTNULL w \<noteq> 0"
  by unfold_locales (rule DETECTNULL_iff)

interpretation char_test: word_test "\<lambda>b. b = d" "\<lambda>w. DETECTCHAR w (fill_word d) \<noteq> 0" for d
  by unfold_locales (rule DETECTCHAR_iff)

interpretation null_or_char_test:
  word_test "\<lambda>b. b = 0 \<or> b = d" "\<lambda>w. DETECTNULL w \<noteq> 0 \<or> DETECTCHAR w (fill_word d) \<noteq> 0" for d
  by unfold_locales (auto simp: DETECTNULL_iff DETECTCHAR_iff)

section \<open>Scanning loops\<close>

text \<open>
  The loops the functions have in common: \<open>while (!T(*p)) p++\<close> over words and over bytes, which need
  not end, and the alignment loop \<open>while (UNALIGNED (s)) { if (T(*s)) \<dots> s++; }\<close>, whose result says
  whether it left at a hit.
\<close>

partial_function (option) skip_words :: "(u32 \<Rightarrow> bool) \<Rightarrow> mem \<Rightarrow> nat \<Rightarrow> nat option" where
  "skip_words t m a = (if t (load32 m a) then Some a else skip_words t m (a + 4))"

partial_function (option) skip_bytes :: "(u8 \<Rightarrow> bool) \<Rightarrow> mem \<Rightarrow> nat \<Rightarrow> nat option" where
  "skip_bytes t m a = (if t (m a) then Some a else skip_bytes t m (a + 1))"

function skip_align :: "(u8 \<Rightarrow> bool) \<Rightarrow> mem \<Rightarrow> nat \<Rightarrow> bool \<times> nat" where
  "skip_align t m a =
     (if a mod 4 = 0 then (False, a) else if t (m a) then (True, a) else skip_align t m (a + 1))"
  by pat_completeness auto
termination
proof (relation "measure (\<lambda>(_, _, a). 3 * a mod 4)")
  fix t :: "u8 \<Rightarrow> bool" and m :: mem and a :: nat
  assume "a mod 4 \<noteq> 0"
  then have "3 * (a + 1) mod 4 < 3 * a mod 4" by presburger
  then show "((t, m, a + 1), t, m, a) \<in> measure (\<lambda>(_, _, a). 3 * a mod 4)" by simp
qed simp

declare skip_align.simps [simp del] skip_words.simps [code] skip_bytes.simps [code]

text \<open>The first hit of a byte test at or after \<open>a\<close> is at \<open>a + k\<close>.\<close>

definition first_hit :: "(u8 \<Rightarrow> bool) \<Rightarrow> mem \<Rightarrow> nat \<Rightarrow> nat \<Rightarrow> bool" where
  "first_hit t m a k \<longleftrightarrow> (\<forall>i<k. \<not> t (m (a + i))) \<and> t (m (a + k))"

lemma first_hit_0 [simp]: "first_hit t m a 0 \<longleftrightarrow> t (m a)"
  by (simp add: first_hit_def)

lemma first_hit_Suc: "first_hit t m a (Suc k) \<longleftrightarrow> \<not> t (m a) \<and> first_hit t m (a + 1) k"
proof -
  have "(\<forall>i<Suc k. \<not> t (m (a + i))) \<longleftrightarrow> \<not> t (m a) \<and> (\<forall>i<k. \<not> t (m (a + 1 + i)))"
    by (auto simp: less_Suc_eq_0_disj)
  then show ?thesis by (simp add: first_hit_def)
qed

lemma first_hit_shift: "first_hit t m a k \<Longrightarrow> j \<le> k \<Longrightarrow> first_hit t m (a + j) (k - j)"
  unfolding first_hit_def by (auto simp: add.assoc)

lemma first_hit_fun: "first_hit t m a k \<Longrightarrow> first_hit t m a k' \<Longrightarrow> k = k'"
  unfolding first_hit_def by (meson linorder_neqE_nat)

lemma skip_bytes_first: "first_hit t m a k \<Longrightarrow> skip_bytes t m a = Some (a + k)"
  by (induction k arbitrary: a) (simp_all add: skip_bytes.simps first_hit_Suc)

lemma skip_align_first:
  assumes "first_hit t m a k"
  shows "\<exists>b j. skip_align t m a = (b, a + j) \<and> j \<le> k \<and> (b \<longrightarrow> j = k) \<and> (\<not> b \<longrightarrow> (a + j) mod 4 = 0)"
  using assms
proof (induction k arbitrary: a)
  case 0
  then show ?case by (subst skip_align.simps) (auto simp: first_hit_def)
next
  case (Suc k)
  show ?case
  proof (cases "a mod 4 = 0")
    case True
    then show ?thesis by (subst skip_align.simps) auto
  next
    case False
    have h: "\<not> t (m a)" "first_hit t m (a + 1) k" using Suc.prems by (simp_all add: first_hit_Suc)
    obtain b j where "skip_align t m (a + 1) = (b, a + 1 + j)" "j \<le> k" "b \<longrightarrow> j = k" "\<not> b \<longrightarrow> (a + 1 + j) mod 4 = 0"
      using Suc.IH [OF h(2)] by metis
    then show ?thesis using False h(1)
      by (subst skip_align.simps) (auto intro!: exI [of _ "Suc j"])
  qed
qed

context word_test begin

lemma skip_words_first:
  "first_hit hit m a k \<Longrightarrow> skip_words wtest m a = Some (a + 4 * (k div 4))"
proof (induction k arbitrary: a rule: less_induct)
  case (less k)
  show ?case
  proof (cases "k < 4")
    case True
    then have "wtest (load32 m a)" using less.prems unfolding wtest_load first_hit_def by blast
    then show ?thesis using True by (simp add: skip_words.simps)
  next
    case False
    then have n: "\<not> wtest (load32 m a)" using less.prems unfolding wtest_load first_hit_def by auto
    have "skip_words wtest m (a + 4) = Some (a + 4 + 4 * ((k - 4) div 4))"
      by (rule less.IH) (use False less.prems first_hit_shift [of hit m a k 4] in auto)
    then show ?thesis using n False by (subst skip_words.simps) (simp add: le_div_geq)
  qed
qed

text \<open>Aligned words, then the bytes of the last one: the byte scan from anywhere up to the first hit.\<close>

lemma skip_words_then_bytes:
  assumes "first_hit hit m a k"
  shows "\<exists>b. skip_words wtest m a = Some b \<and> skip_bytes hit m b = Some (a + k) \<and> a \<le> b \<and> b \<le> a + k \<and>
             first_hit hit m b (a + k - b)"
proof -
  have "first_hit hit m (a + 4 * (k div 4)) (k - 4 * (k div 4))" by (rule first_hit_shift [OF assms]) simp
  then show ?thesis using skip_words_first [OF assms] skip_bytes_first [of hit m "a + 4 * (k div 4)"] by simp
qed

end

section \<open>Regions and strings\<close>

text \<open>The memory after the region of \<open>n\<close> bytes at \<open>d\<close> has got the contents of the region at \<open>s\<close>.\<close>

definition region_copy :: "mem \<Rightarrow> nat \<Rightarrow> nat \<Rightarrow> nat \<Rightarrow> mem" where
  "region_copy m d s n = (\<lambda>a. if d \<le> a \<and> a < d + n then m (s + (a - d)) else m a)"

definition region_fill :: "mem \<Rightarrow> nat \<Rightarrow> nat \<Rightarrow> u8 \<Rightarrow> mem" where
  "region_fill m d n c = (\<lambda>a. if d \<le> a \<and> a < d + n then c else m a)"

definition region_put :: "mem \<Rightarrow> nat \<Rightarrow> u8 list \<Rightarrow> mem" where
  "region_put m d bs = (\<lambda>a. if d \<le> a \<and> a < d + length bs then bs ! (a - d) else m a)"

text \<open>A forward copy does not read a byte it has already overwritten.\<close>

definition forward_ok :: "nat \<Rightarrow> nat \<Rightarrow> nat \<Rightarrow> bool" where
  "forward_ok d s n \<longleftrightarrow> d \<le> s \<or> s + n \<le> d"

lemma region_copy_0 [simp]: "region_copy m d s 0 = m"
  by (rule ext) (auto simp: region_copy_def)

lemma region_copy_add:
  "forward_ok d s (k + n) \<Longrightarrow> region_copy (region_copy m d s k) (d + k) (s + k) n = region_copy m d s (k + n)"
  by (rule ext) (auto simp: region_copy_def forward_ok_def)

lemma forward_ok_mono: "forward_ok d s n \<Longrightarrow> k \<le> n \<Longrightarrow> forward_ok d s k"
  by (auto simp: forward_ok_def)

lemma forward_ok_step: "forward_ok d s (k + n) \<Longrightarrow> forward_ok (d + k) (s + k) n"
  by (auto simp: forward_ok_def)

lemma region_copy_byte: "m(d := m s) = region_copy m d s 1"
  by (rule ext) (auto simp: region_copy_def)

lemma region_copy_word: "store32 m d (load32 m s) = region_copy m d s 4"
  by (rule ext) (auto simp: region_copy_def store32_load32)

lemma region_fill_add: "region_fill (region_fill m d k c) (d + k) n c = region_fill m d (k + n) c"
  by (rule ext) (auto simp: region_fill_def)

lemma region_fill_0 [simp]: "region_fill m d 0 c = m"
  by (rule ext) (auto simp: region_fill_def)

lemma region_fill_byte: "m(d := c) = region_fill m d 1 c"
  by (rule ext) (auto simp: region_fill_def)

lemma region_fill_word: "store32 m d (fill_word c) = region_fill m d 4 c"
  by (rule ext) (auto simp: region_fill_def store32_def)

text \<open>The string \<open>s\<close> at \<open>p\<close>, with its terminator.\<close>

definition cstr :: "mem \<Rightarrow> nat \<Rightarrow> u8 list \<Rightarrow> bool" where
  "cstr m p s \<longleftrightarrow> (\<forall>i<length s. m (p + i) = s ! i) \<and> m (p + length s) = 0 \<and> 0 \<notin> set s"

lemma cstr_Nil [simp]: "cstr m p [] \<longleftrightarrow> m p = 0"
  by (simp add: cstr_def)

lemma cstr_Cons: "cstr m p (c # s) \<longleftrightarrow> m p = c \<and> c \<noteq> 0 \<and> cstr m (p + 1) s"
proof -
  have "(\<forall>i<length (c # s). m (p + i) = (c # s) ! i) \<longleftrightarrow> m p = c \<and> (\<forall>i<length s. m (p + 1 + i) = s ! i)"
    by (auto simp: less_Suc_eq_0_disj)
  then show ?thesis by (auto simp: cstr_def)
qed

lemma cstr_append: "cstr m p (s @ r) \<longleftrightarrow> (\<forall>i<length s. m (p + i) = s ! i) \<and> 0 \<notin> set s \<and> cstr m (p + length s) r"
proof (induction s arbitrary: p)
  case Nil then show ?case by simp
next
  case (Cons c s)
  then show ?case by (auto simp: cstr_Cons less_Suc_eq_0_disj)
qed

lemma cstr_first_hit: "cstr m p s \<Longrightarrow> first_hit (\<lambda>b. b = 0) m p (length s)"
  by (auto simp: cstr_def first_hit_def in_set_conv_nth)

lemma first_hit_cstr: "first_hit (\<lambda>b. b = 0) m p k \<Longrightarrow> cstr m p (map (\<lambda>i. m (p + i)) [0..<k])"
  by (auto simp: cstr_def first_hit_def)

lemma cstr_fun: "cstr m p s \<Longrightarrow> cstr m p s' \<Longrightarrow> s = s'"
proof (rule nth_equalityI)
  assume "cstr m p s" "cstr m p s'"
  then show "length s = length s'" using first_hit_fun cstr_first_hit by blast
  fix i assume "i < length s" with \<open>length s = length s'\<close> show "s ! i = s' ! i"
    using \<open>cstr m p s\<close> \<open>cstr m p s'\<close> unfolding cstr_def by metis
qed

lemma cstr_cong: "(\<And>i. i \<le> length s \<Longrightarrow> m' (p + i) = m (p + i)) \<Longrightarrow> cstr m' p s \<longleftrightarrow> cstr m p s"
  by (auto simp: cstr_def)

lemma cstr_region_put: "0 \<notin> set s \<Longrightarrow> cstr (region_put m p (s @ [0])) p s"
  by (auto simp: cstr_def region_put_def nth_append)

text \<open>A memory with the given bytes at an address, for the instances.\<close>

definition mem_at :: "nat \<Rightarrow> u8 list \<Rightarrow> mem" where
  "mem_at p bs = region_put (\<lambda>_. 0) p bs"

end
