(* ===== verification/Startup.thy ===== *)
theory Startup
  imports CMem
begin

text \<open>
  The start of the payload: \<open>_start2\<close> of \<open>src/test/interface.c\<close>, which prepares memory, runs the functions that
  \<open>__libc_init_array\<close> (\<open>misc/init.c\<close> of the C library) finds in two arrays, prints a line and calls \<open>main\<close>. The
  initialised data lies in flash behind the code; its place in RAM, that of the zeroed data and the arrays are
  given by symbols of the linker script \<open>src/test/kernelpayload.ld\<close>. What the called functions do to memory is a
  parameter; the state has the memory and the list of the calls made.
\<close>

record segments =
  etext :: nat
  srelocate :: nat
  erelocate :: nat
  szero :: nat
  ezero :: nat
  preinit_array_start :: nat
  preinit_array_end :: nat
  init_array_start :: nat
  init_array_end :: nat

text \<open>\<open>for (; pDest < &_erelocate;) *pDest++ = *pSrc++;\<close>\<close>

function relocate_loop :: "mem \<Rightarrow> nat \<Rightarrow> nat \<Rightarrow> nat \<Rightarrow> mem" where
  "relocate_loop m pSrc pDest stop =
     (if pDest < stop then relocate_loop (store32 m pDest (load32 m pSrc)) (pSrc + 4) (pDest + 4) stop else m)"
  by pat_completeness auto
termination by (relation "measure (\<lambda>(m, pSrc, pDest, stop). stop - pDest)") auto

text \<open>\<open>for (pDest = &_szero; pDest < &_ezero;) *pDest++ = 0;\<close>\<close>

function zero_loop :: "mem \<Rightarrow> nat \<Rightarrow> nat \<Rightarrow> mem" where
  "zero_loop m pDest stop = (if pDest < stop then zero_loop (store32 m pDest 0) (pDest + 4) stop else m)"
  by pat_completeness auto
termination by (relation "measure (\<lambda>(m, pDest, stop). stop - pDest)") auto

declare relocate_loop.simps [simp del] zero_loop.simps [simp del]

text \<open>A called function: one at an address, \<open>_init\<close>, the \<open>printf\<close> of the boot message and \<open>main\<close>.\<close>

datatype callee = Function nat | Init | Boot_message | Main

definition call :: "(callee \<Rightarrow> mem \<Rightarrow> mem) \<Rightarrow> callee \<Rightarrow> mem \<times> callee list \<Rightarrow> mem \<times> callee list" where
  "call run f = (\<lambda>(m, calls). (run f m, calls @ [f]))"

text \<open>\<open>for (i = 0; i < count; i++) array[i] ();\<close> where each pointer is loaded when its turn comes\<close>

function init_loop :: "(callee \<Rightarrow> mem \<Rightarrow> mem) \<Rightarrow> nat \<Rightarrow> nat \<Rightarrow> nat \<Rightarrow> mem \<times> callee list \<Rightarrow> mem \<times> callee list" where
  "init_loop run array i count st =
     (if i < count then init_loop run array (i + 1) count (call run (Function (unat (load32 (fst st) (array + 4 * i)))) st) else st)"
  by pat_completeness auto
termination by (relation "measure (\<lambda>(run, array, i, count, st). count - i)") auto

declare init_loop.simps [simp del]

definition libc_init_array :: "(callee \<Rightarrow> mem \<Rightarrow> mem) \<Rightarrow> segments \<Rightarrow> mem \<times> callee list \<Rightarrow> mem \<times> callee list" where
  "libc_init_array run seg st =
     (let count = (preinit_array_end seg - preinit_array_start seg) div 4;
          st1 = call run Init (init_loop run (preinit_array_start seg) 0 count st);
          count1 = (init_array_end seg - init_array_start seg) div 4
      in init_loop run (init_array_start seg) 0 count1 st1)"

text \<open>The memory in which \<open>_start2\<close> calls \<open>__libc_init_array\<close>, and the whole of \<open>_start2\<close>.\<close>

definition start2_memory :: "segments \<Rightarrow> mem \<Rightarrow> mem" where
  "start2_memory seg m =
     (let m1 = if etext seg \<noteq> srelocate seg then relocate_loop m (etext seg) (srelocate seg) (erelocate seg) else m
      in zero_loop m1 (szero seg) (ezero seg))"

definition start2 :: "(callee \<Rightarrow> mem \<Rightarrow> mem) \<Rightarrow> segments \<Rightarrow> mem \<Rightarrow> mem \<times> callee list" where
  "start2 run seg m = call run Main (call run Boot_message (libc_init_array run seg (start2_memory seg m, [])))"

lemma relocate_loop_region:
  assumes "forward_ok d s (4 * n)" shows "relocate_loop m s d (d + 4 * n) = region_copy m d s (4 * n)"
  using assms
proof (induction n arbitrary: m s d)
  case 0
  then show ?case by (simp add: relocate_loop.simps)
next
  case (Suc n)
  have f: "forward_ok (d + 4) (s + 4) (4 * n)" using forward_ok_step [of d s 4 "4 * n"] Suc.prems by simp
  have "relocate_loop m s d (d + 4 * Suc n) = relocate_loop (region_copy m d s 4) (s + 4) (d + 4) (d + 4 + 4 * n)"
    by (subst relocate_loop.simps) (simp add: region_copy_word add.assoc)
  also have "\<dots> = region_copy (region_copy m d s 4) (d + 4) (s + 4) (4 * n)" by (rule Suc.IH [OF f])
  also have "\<dots> = region_copy m d s (4 * Suc n)" using Suc.prems region_copy_add [of d s 4 "4 * n" m] by simp
  finally show ?case .
qed

lemma zero_loop_region: "zero_loop m d (d + 4 * n) = region_fill m d (4 * n) 0"
proof (induction n arbitrary: m d)
  case 0
  then show ?case by (simp add: zero_loop.simps)
next
  case (Suc n)
  have z: "fill_word 0 = 0" by code_simp
  have "zero_loop m d (d + 4 * Suc n) = zero_loop (region_fill m d 4 0) (d + 4) (d + 4 + 4 * n)"
    by (subst zero_loop.simps) (simp add: region_fill_word [symmetric] z add.assoc)
  also have "\<dots> = region_fill m d (4 * Suc n) 0" by (simp add: Suc.IH region_fill_add)
  finally show ?case .
qed

lemma start2_memory_bytes:
  assumes "erelocate seg = srelocate seg + 4 * n" and "ezero seg = szero seg + 4 * k"
    and "srelocate seg + 4 * n \<le> szero seg" and "etext seg + 4 * n \<le> srelocate seg \<or> etext seg = srelocate seg"
  shows "start2_memory seg m a =
     (if srelocate seg \<le> a \<and> a < erelocate seg then m (etext seg + (a - srelocate seg))
      else if szero seg \<le> a \<and> a < ezero seg then 0 else m a)"
proof -
  have f: "forward_ok (srelocate seg) (etext seg) (4 * n)" if "etext seg \<noteq> srelocate seg"
    using assms(4) that by (auto simp: forward_ok_def)
  show ?thesis
  proof (cases "etext seg = srelocate seg")
    case True
    then show ?thesis using assms(1-3) by (simp add: start2_memory_def zero_loop_region region_fill_def)
  next
    case False
    then show ?thesis using assms(1-3) f
      by (simp add: start2_memory_def zero_loop_region relocate_loop_region region_fill_def region_copy_def)
  qed
qed

text \<open>The functions of an array, as they stand in memory, and memory after calls in a row.\<close>

definition array_functions :: "mem \<Rightarrow> nat \<Rightarrow> nat \<Rightarrow> callee list" where
  "array_functions m array count = map (\<lambda>i. Function (unat (load32 m (array + 4 * i)))) [0..<count]"

definition run_all :: "(callee \<Rightarrow> mem \<Rightarrow> mem) \<Rightarrow> callee list \<Rightarrow> mem \<Rightarrow> mem" where
  "run_all run fs m = fold run fs m"

lemma run_all_keeps:
  assumes "\<forall>f m. \<forall>a \<in> R. run f m a = m a" "a \<in> R"
  shows "run_all run fs m a = m a"
  using assms by (induction fs arbitrary: m) (simp_all add: run_all_def)

lemma init_loop_calls:
  assumes "\<forall>f m. \<forall>a \<in> R. run f m a = m a" "{array..<array + 4 * count} \<subseteq> R"
  shows "init_loop run array 0 count (m, cs) = (run_all run (array_functions m array count) m, cs @ array_functions m array count)"
proof -
  have "init_loop run array i count (m, cs) =
      (run_all run (map (\<lambda>i. Function (unat (load32 m (array + 4 * i)))) [i..<count]) m,
       cs @ map (\<lambda>i. Function (unat (load32 m (array + 4 * i)))) [i..<count])" if "i \<le> count" for i
    using that
  proof (induction "count - i" arbitrary: i m cs)
    case 0
    then show ?case by (simp add: init_loop.simps run_all_def)
  next
    case (Suc n)
    define f where "f = Function (unat (load32 m (array + 4 * i)))"
    have "load32 (run f m) (array + 4 * j) = load32 m (array + 4 * j)" if "j \<in> set [Suc i..<count]" for j
    proof (rule load32_cong)
      fix b assume "b < (4 :: nat)"
      then have "array + 4 * j + b \<in> R" using assms(2) that by (auto intro!: subsetD [OF assms(2)])
      then show "run f m (array + 4 * j + b) = m (array + 4 * j + b)" using assms(1) by blast
    qed
    then have keep: "map (\<lambda>i. Function (unat (load32 (run f m) (array + 4 * i)))) [Suc i..<count] =
        map (\<lambda>i. Function (unat (load32 m (array + 4 * i)))) [Suc i..<count]" by simp
    have "i < count" using Suc.hyps(2) by simp
    then have u: "[i..<count] = i # [Suc i..<count]" by (rule upt_conv_Cons)
    have "init_loop run array i count (m, cs) = init_loop run array (Suc i) count (run f m, cs @ [f])"
      using \<open>i < count\<close> by (subst init_loop.simps) (simp add: call_def f_def)
    then show ?case using Suc.hyps(1) [of "Suc i" "run f m" "cs @ [f]"] Suc.hyps(2) \<open>i < count\<close> keep u
      by (simp add: run_all_def f_def [symmetric])
  qed
  from this [of 0] show ?thesis by (simp add: array_functions_def)
qed

text \<open>C6: \<open>_start2\<close> makes a memory in which the initialised data in RAM is its image in flash, the zeroed data is
  zero and no other byte has changed, where the linker aligns the segments to words. In this memory it calls
  the functions of the two arrays in their order, \<open>_init\<close> between them, then prints its message and then calls
  \<open>main\<close>, each once, provided that no function writes to the arrays.\<close>

theorem startup_correct:
  assumes "erelocate seg = srelocate seg + 4 * n" and "ezero seg = szero seg + 4 * k"
    and "srelocate seg + 4 * n \<le> szero seg" and "etext seg + 4 * n \<le> srelocate seg \<or> etext seg = srelocate seg"
    and "preinit_array_end seg = preinit_array_start seg + 4 * i" and "init_array_end seg = init_array_start seg + 4 * j"
    and "\<forall>f m. \<forall>a \<in> {preinit_array_start seg..<preinit_array_end seg} \<union> {init_array_start seg..<init_array_end seg}. run f m a = m a"
  shows "\<exists>m1 fs. (\<forall>a. m1 a =
       (if srelocate seg \<le> a \<and> a < erelocate seg then m (etext seg + (a - srelocate seg))
        else if szero seg \<le> a \<and> a < ezero seg then 0 else m a)) \<and>
     fs = array_functions m1 (preinit_array_start seg) i @ [Init] @ array_functions m1 (init_array_start seg) j @ [Boot_message, Main] \<and>
     start2 run seg m = (run_all run fs m1, fs)"
proof -
  define m1 fp where "m1 = start2_memory seg m" and "fp = array_functions m1 (preinit_array_start seg) i"
  let ?R = "{preinit_array_start seg..<preinit_array_end seg} \<union> {init_array_start seg..<init_array_end seg}"
  define m2 where "m2 = run Init (run_all run fp m1)"
  have pre: "init_loop run (preinit_array_start seg) 0 i (m1, []) = (run_all run fp m1, fp)"
    using init_loop_calls [OF assms(7), of "preinit_array_start seg" i m1 "[]"] assms(5) by (simp add: fp_def)
  have ini: "init_loop run (init_array_start seg) 0 j (m2, cs) =
      (run_all run (array_functions m2 (init_array_start seg) j) m2, cs @ array_functions m2 (init_array_start seg) j)" for cs
    by (rule init_loop_calls [OF assms(7)]) (use assms(6) in auto)
  have "m2 a = m1 a" if "a \<in> ?R" for a
    using run_all_keeps [OF assms(7) that, of fp m1] assms(7) that unfolding m2_def by simp
  then have "load32 m2 (init_array_start seg + 4 * l) = load32 m1 (init_array_start seg + 4 * l)" if "l < j" for l
    by (intro load32_cong) (use that assms(6) in auto)
  then have same: "array_functions m2 (init_array_start seg) j = array_functions m1 (init_array_start seg) j"
    by (simp add: array_functions_def)
  have "start2 run seg m = (run Main (run Boot_message (run_all run (array_functions m1 (init_array_start seg) j) m2)),
      fp @ [Init] @ array_functions m1 (init_array_start seg) j @ [Boot_message, Main])"
    using pre ini same assms(5,6) by (simp add: start2_def libc_init_array_def call_def m1_def [symmetric] m2_def [symmetric])
  then show ?thesis using start2_memory_bytes [OF assms(1-4), of m] unfolding m1_def [symmetric]
    by (intro exI [of _ m1] exI [of _ "fp @ [Init] @ array_functions m1 (init_array_start seg) j @ [Boot_message, Main]"])
      (simp add: fp_def m2_def run_all_def)
qed

theorem startup_correct_witness:
  "fst (start2 (\<lambda>f m. if f = Main then m(2005 := 7) else m)
      \<lparr>etext = 1000, srelocate = 2000, erelocate = 2008, szero = 2008, ezero = 2020,
       preinit_array_start = 500, preinit_array_end = 500, init_array_start = 500, init_array_end = 504\<rparr> (\<lambda>a. of_nat a)) 2003 = 1003"
  (is "fst (start2 ?run ?seg ?m) 2003 = 1003")
proof -
  have "\<exists>m1 fs. (\<forall>a. m1 a = (if srelocate ?seg \<le> a \<and> a < erelocate ?seg then ?m (etext ?seg + (a - srelocate ?seg))
        else if szero ?seg \<le> a \<and> a < ezero ?seg then 0 else ?m a)) \<and>
     fs = array_functions m1 (preinit_array_start ?seg) 0 @ [Init] @ array_functions m1 (init_array_start ?seg) 1 @ [Boot_message, Main] \<and>
     start2 ?run ?seg ?m = (run_all ?run fs m1, fs)"
    by (rule startup_correct [where n = 2 and k = 3 and i = 0 and j = 1]) simp_all
  then show ?thesis by (auto simp: run_all_def array_functions_def)
qed

end
