(* ===== verification/RttRing.thy ===== *)
theory RttRing
  imports Prelude
begin

text \<open>
  The ring buffers of SEGGER RTT (\<open>rtt/SEGGER_RTT.c\<close>): the control block, \<open>SEGGER_RTT_Read\<close> and
  \<open>SEGGER_RTT_Write\<close>.

  The debug probe is not code of the repository. It appears as \<open>host_moves\<close>: before every load
  of a volatile \<open>RdOff\<close> by the target the host may have read some pending bytes, and the list holds
  how many, one entry per load, in the order of the loads. \<open>host_rx\<close> is a ghost: the bytes the host
  has taken out of each up-buffer. A loop that needs more loads than the list has entries has not
  returned yet, which is \<open>None\<close>. The byte object behind \<open>pBuffer\<close> is a list, and the empty list
  is the object of a null pointer.
\<close>

section \<open>Control block\<close>

record ring_buffer =
  sName :: "string option"
  pBuffer :: "u8 list"
  SizeOfBuffer :: int
  WrOff :: int
  RdOff :: int
  Flags :: int

record rtt_cb =
  acID :: string
  MaxNumUpBuffers :: int
  MaxNumDownBuffers :: int
  aUp :: "ring_buffer list"
  aDown :: "ring_buffer list"
  ActiveTerminal :: u8
  host_moves :: "nat list"
  host_rx :: "nat \<Rightarrow> u8 list"

definition BUFFER_SIZE_UP :: int where "BUFFER_SIZE_UP = 1024"
definition BUFFER_SIZE_DOWN :: int where "BUFFER_SIZE_DOWN = 16"
definition SEGGER_RTT_MAX_NUM_UP_BUFFERS :: int where "SEGGER_RTT_MAX_NUM_UP_BUFFERS = 2"
definition SEGGER_RTT_MAX_NUM_DOWN_BUFFERS :: int where "SEGGER_RTT_MAX_NUM_DOWN_BUFFERS = 1"
definition SEGGER_RTT_IN_RAM :: bool where "SEGGER_RTT_IN_RAM = False"

definition MODE_NO_BLOCK_SKIP :: int where "MODE_NO_BLOCK_SKIP = 0"
definition MODE_NO_BLOCK_TRIM :: int where "MODE_NO_BLOCK_TRIM = 1"
definition MODE_BLOCK_IF_FIFO_FULL :: int where "MODE_BLOCK_IF_FIFO_FULL = 2"

text \<open>\<open>Flags & SEGGER_RTT_MODE_MASK\<close>: the low two bits of the 32-bit \<open>Flags\<close>.\<close>

definition rb_mode :: "ring_buffer \<Rightarrow> int" where
  "rb_mode r = Flags r mod 4"

definition zero_ring :: ring_buffer where
  "zero_ring = \<lparr>sName = None, pBuffer = [], SizeOfBuffer = 0, WrOff = 0, RdOff = 0, Flags = 0\<rparr>"

definition SEGGER_RTT0 :: "nat list \<Rightarrow> rtt_cb" where
  "SEGGER_RTT0 hs = \<lparr>acID = (if SEGGER_RTT_IN_RAM then ''SEGGER RTTI'' else ''SEGGER RTT''),
     MaxNumUpBuffers = SEGGER_RTT_MAX_NUM_UP_BUFFERS,
     MaxNumDownBuffers = SEGGER_RTT_MAX_NUM_DOWN_BUFFERS,
     aUp = [\<lparr>sName = Some ''Terminal'', pBuffer = replicate (nat BUFFER_SIZE_UP) 0,
             SizeOfBuffer = BUFFER_SIZE_UP, WrOff = 0, RdOff = 0, Flags = MODE_NO_BLOCK_SKIP\<rparr>,
            zero_ring],
     aDown = [\<lparr>sName = Some ''Terminal'', pBuffer = replicate (nat BUFFER_SIZE_DOWN) 0,
               SizeOfBuffer = BUFFER_SIZE_DOWN, WrOff = 0, RdOff = 0, Flags = MODE_NO_BLOCK_SKIP\<rparr>],
     ActiveTerminal = 0, host_moves = hs, host_rx = (\<lambda>_. [])\<rparr>"

text \<open>\<open>_Init\<close> clears the \<open>I\<close> of \<open>SEGGER RTTI\<close> in RAM builds and does nothing otherwise.\<close>

definition Init :: "rtt_cb \<Rightarrow> rtt_cb" where
  "Init cb = (if SEGGER_RTT_IN_RAM \<and> 10 < length (acID cb) \<and> acID cb ! 10 = CHR ''I''
              then cb\<lparr>acID := (acID cb)[10 := CHR 0x00]\<rparr> else cb)"

lemma Init_id [simp]: "Init cb = cb"
  by (simp add: Init_def SEGGER_RTT_IN_RAM_def)

section \<open>The content of a ring\<close>

definition ring_used :: "ring_buffer \<Rightarrow> nat" where
  "ring_used r = nat ((WrOff r - RdOff r) mod SizeOfBuffer r)"

definition ring_content :: "ring_buffer \<Rightarrow> u8 list" where
  "ring_content r =
     map (\<lambda>i. pBuffer r ! nat ((RdOff r + int i) mod SizeOfBuffer r)) [0..<ring_used r]"

definition ring_ok :: "ring_buffer \<Rightarrow> bool" where
  "ring_ok r \<longleftrightarrow> 2 \<le> SizeOfBuffer r \<and> SizeOfBuffer r < 2 ^ 31 \<and> length (pBuffer r) = nat (SizeOfBuffer r) \<and>
     0 \<le> WrOff r \<and> WrOff r < SizeOfBuffer r \<and> 0 \<le> RdOff r \<and> RdOff r < SizeOfBuffer r"

section \<open>The host's side of an up-buffer\<close>

definition host_take :: "nat \<Rightarrow> ring_buffer \<Rightarrow> u8 list \<times> ring_buffer" where
  "host_take k r = (let n = min k (ring_used r) in
     (take n (ring_content r), r\<lparr>RdOff := (RdOff r + int n) mod SizeOfBuffer r\<rparr>))"

text \<open>
  A load of the volatile \<open>RdOff\<close> of up-buffer \<open>b\<close>: the host's next move happens first.
\<close>

definition load_RdOff :: "rtt_cb \<Rightarrow> nat \<Rightarrow> (int \<times> rtt_cb) option" where
  "load_RdOff cb b =
     (if b < length (aUp cb) then
        (case host_moves cb of [] \<Rightarrow> None
         | k # ks \<Rightarrow> let (rx, r) = host_take k (aUp cb ! b) in
             Some (RdOff r, cb\<lparr>aUp := (aUp cb)[b := r], host_moves := ks,
                               host_rx := (host_rx cb)(b := host_rx cb b @ rx)\<rparr>))
      else None)"

section \<open>SEGGER_RTT_Write\<close>

text \<open>The bytes that can be put into the ring, from a loaded \<open>RdOff\<close>: lines 310--313 and 339--342.\<close>

definition rb_space :: "int \<Rightarrow> ring_buffer \<Rightarrow> int" where
  "rb_space rd r = (let n = rd - WrOff r - 1 in if n < 0 then n + SizeOfBuffer r else n)"

text \<open>
  The body of the copy loop after the load, lines 339--352: \<open>src\<close> is the caller's object, \<open>off\<close> how
  far \<open>pBuffer\<close> has advanced in it, \<open>NumBytes\<close> what is left. The result is the number of bytes
  copied and the ring.
\<close>

definition rb_copy_chunk :: "int \<Rightarrow> ring_buffer \<Rightarrow> u8 list \<Rightarrow> int \<Rightarrow> int \<Rightarrow> (int \<times> ring_buffer) option" where
  "rb_copy_chunk rd r src off NumBytes =
     (let n1 = min (rb_space rd r) (SizeOfBuffer r - WrOff r);
          n = min n1 (wrap_s32 NumBytes);
          wr = WrOff r + n
      in case copy_bytes (pBuffer r) (WrOff r) src off n of None \<Rightarrow> None
         | Some buf \<Rightarrow> Some (n, r\<lparr>pBuffer := buf, WrOff := (if wr = SizeOfBuffer r then 0 else wr)\<rparr>))"

text \<open>
  The copy loop \<open>do \<dots> while (NumBytes)\<close>, lines 337--353. Each turn loads \<open>RdOff\<close> once, so the
  recursion is on the host's moves.
\<close>

function rtt_copy_loop :: "rtt_cb \<Rightarrow> nat \<Rightarrow> u8 list \<Rightarrow> int \<Rightarrow> int \<Rightarrow> int \<Rightarrow> (rtt_cb \<times> int) option" where
  "rtt_copy_loop cb b src off NumBytes written =
     (case load_RdOff cb b of None \<Rightarrow> None
      | Some (rd, cb1) \<Rightarrow>
         (case rb_copy_chunk rd (aUp cb1 ! b) src off NumBytes of None \<Rightarrow> None
          | Some (n, r) \<Rightarrow>
             (let cb2 = cb1\<lparr>aUp := (aUp cb1)[b := r]\<rparr> in
              if NumBytes - n = 0 then Some (cb2, written + n)
              else rtt_copy_loop cb2 b src (off + n) (NumBytes - n) (written + n))))"
  by pat_completeness auto
termination
  by (relation "measure (\<lambda>(cb, _). length (host_moves cb))")
     (auto simp: load_RdOff_def Let_def split: if_splits list.splits prod.splits)

declare rtt_copy_loop.simps [simp del]

definition SEGGER_RTT_Write :: "rtt_cb \<Rightarrow> nat \<Rightarrow> u8 list \<Rightarrow> int \<Rightarrow> (rtt_cb \<times> int) option" where
  "SEGGER_RTT_Write cb0 b src NumBytes0 =
     (let cb = Init cb0 in
      if \<not> b < length (aUp cb) then None
      else if rb_mode (aUp cb ! b) \<noteq> MODE_BLOCK_IF_FIFO_FULL then
        (case load_RdOff cb b of None \<Rightarrow> None
         | Some (rd, cb1) \<Rightarrow>
            (let r = aUp cb1 ! b; space = rb_space rd r in
             if wrap_s32 NumBytes0 > space then
               (if rb_mode r = MODE_NO_BLOCK_SKIP then Some (cb1, 0)
                else if space = 0 then Some (cb1, 0)
                else rtt_copy_loop cb1 b src 0 (wrap_u32 space) 0)
             else if NumBytes0 = 0 then Some (cb1, 0)
             else rtt_copy_loop cb1 b src 0 NumBytes0 0))
      else if NumBytes0 = 0 then Some (cb, 0)
      else rtt_copy_loop cb b src 0 NumBytes0 0)"

section \<open>SEGGER_RTT_Read\<close>

text \<open>
  \<open>RdOff\<close> and \<open>WrOff\<close> are loaded once, so the host cannot interfere within the call. The result is
  the caller's buffer, the control block and the number of bytes read.
\<close>

definition rb_read :: "ring_buffer \<Rightarrow> u8 list \<Rightarrow> int \<Rightarrow> (u8 list \<times> ring_buffer \<times> int) option" where
  "rb_read r dst BufferSize =
     (let rd0 = RdOff r; wr = WrOff r in
      case (if rd0 > wr then
              (let n = min (SizeOfBuffer r - rd0) (wrap_s32 BufferSize) in
               case copy_bytes dst 0 (pBuffer r) rd0 n of None \<Rightarrow> None
               | Some dst1 \<Rightarrow>
                   Some (dst1, n, wrap_u32 (BufferSize - n),
                         (if rd0 + n = SizeOfBuffer r then 0 else rd0 + n)))
            else Some (dst, 0, BufferSize, rd0)) of None \<Rightarrow> None
      | Some (dst1, read1, left, rd1) \<Rightarrow>
         (let m = min (wr - rd1) (wrap_s32 left) in
          case (if m > 0 then copy_bytes dst1 read1 (pBuffer r) rd1 m else Some dst1) of None \<Rightarrow> None
          | Some dst2 \<Rightarrow>
             (let total = (if m > 0 then read1 + m else read1);
                  rd2 = (if m > 0 then rd1 + m else rd1)
              in Some (dst2, (if total \<noteq> 0 then r\<lparr>RdOff := rd2\<rparr> else r), total))))"

definition SEGGER_RTT_Read :: "rtt_cb \<Rightarrow> nat \<Rightarrow> u8 list \<Rightarrow> int \<Rightarrow> (u8 list \<times> rtt_cb \<times> int) option" where
  "SEGGER_RTT_Read cb0 b dst BufferSize =
     (let cb = Init cb0 in
      if \<not> b < length (aDown cb) then None
      else case rb_read (aDown cb ! b) dst BufferSize of None \<Rightarrow> None
        | Some (dst', r, n) \<Rightarrow> Some (dst', cb\<lparr>aDown := (aDown cb)[b := r]\<rparr>, n))"

section \<open>Arithmetic of offsets\<close>

lemma ring_used_less: "ring_ok r \<Longrightarrow> int (ring_used r) < SizeOfBuffer r"
  by (simp add: ring_used_def ring_ok_def)

lemma int_ring_used: "ring_ok r \<Longrightarrow> int (ring_used r) = (WrOff r - RdOff r) mod SizeOfBuffer r"
  by (simp add: ring_used_def ring_ok_def)

lemma length_ring_content [simp]: "length (ring_content r) = ring_used r"
  by (simp add: ring_content_def)

lemma ring_content_nth:
  "i < ring_used r \<Longrightarrow>
   ring_content r ! i = pBuffer r ! nat ((RdOff r + int i) mod SizeOfBuffer r)"
  by (simp add: ring_content_def)

lemma ring_wr_eq: "ring_ok r \<Longrightarrow> (RdOff r + int (ring_used r)) mod SizeOfBuffer r = WrOff r"
  by (simp add: int_ring_used mod_add_right_eq ring_ok_def)

lemma rb_space_eq:
  assumes "ring_ok r"
  shows "rb_space (RdOff r) r = SizeOfBuffer r - 1 - int (ring_used r)"
proof (cases "WrOff r < RdOff r")
  case True
  have "(WrOff r - RdOff r) mod SizeOfBuffer r = (WrOff r - RdOff r + SizeOfBuffer r) mod SizeOfBuffer r"
    by simp
  also have "\<dots> = WrOff r - RdOff r + SizeOfBuffer r"
    using True assms by (intro mod_pos_pos_trivial) (auto simp: ring_ok_def)
  finally show ?thesis
    using True by (simp add: rb_space_def int_ring_used assms)
next
  case False
  then have "(WrOff r - RdOff r) mod SizeOfBuffer r = WrOff r - RdOff r"
    using assms by (intro mod_pos_pos_trivial) (auto simp: ring_ok_def)
  then show ?thesis
    using False by (simp add: rb_space_def int_ring_used assms)
qed

lemma offset_inj [ring_simps]:
  fixes a x y s :: int
  assumes eq: "(a + x) mod s = (a + y) mod s" and "0 \<le> x" "x < s" "0 \<le> y" "y < s"
  shows "x = y"
proof -
  have "(a + x - a) mod s = (a + y - a) mod s" using eq by (rule mod_diff_cong) (rule refl)
  then have "x mod s = y mod s" by simp
  then show ?thesis using assms(2-5) by (simp add: mod_pos_pos_trivial)
qed

section \<open>Host moves keep the byte order\<close>

lemma host_take_ring:
  assumes ok: "ring_ok r" and ht: "host_take k r = (bs, r')"
  shows "ring_ok r'" and "bs @ ring_content r' = ring_content r"
    and "ring_used r' = ring_used r - min k (ring_used r)" and "Flags r' = Flags r"
    and "SizeOfBuffer r' = SizeOfBuffer r" and "WrOff r' = WrOff r"
proof -
  define n where "n = min k (ring_used r)"
  have r': "r' = r\<lparr>RdOff := (RdOff r + int n) mod SizeOfBuffer r\<rparr>" and bs: "bs = take n (ring_content r)"
    using ht by (auto simp: host_take_def Let_def n_def)
  have n: "n \<le> ring_used r" by (simp add: n_def)
  show ok': "ring_ok r'" using ok by (auto simp: r' ring_ok_def)
  have "(WrOff r - (RdOff r + int n) mod SizeOfBuffer r) mod SizeOfBuffer r
      = ((WrOff r - RdOff r) mod SizeOfBuffer r - int n) mod SizeOfBuffer r"
    by (simp add: mod_diff_left_eq mod_diff_right_eq algebra_simps)
  also have "\<dots> = int (ring_used r) - int n"
    using n ring_used_less [OF ok] by (subst int_ring_used [OF ok, symmetric]) (auto intro!: mod_pos_pos_trivial)
  finally have "int (ring_used r') = int (ring_used r) - int n"
    unfolding int_ring_used [OF ok'] by (simp add: r')
  then show used: "ring_used r' = ring_used r - min k (ring_used r)"
    by (simp add: n_def)
  show "bs @ ring_content r' = ring_content r"
  proof (rule nth_equalityI)
    show "length (bs @ ring_content r') = length (ring_content r)"
      using n by (simp add: bs used n_def [symmetric])
  next
    fix i assume "i < length (bs @ ring_content r')"
    then have i: "i < ring_used r" using n by (simp add: bs used n_def [symmetric])
    show "(bs @ ring_content r') ! i = ring_content r ! i"
    proof (cases "i < n")
      case True then show ?thesis using n by (simp add: nth_append bs)
    next
      case False
      then have "RdOff r + int n + int (i - n) = RdOff r + int i" by simp
      then have "((RdOff r + int n) mod SizeOfBuffer r + int (i - n)) mod SizeOfBuffer r
          = (RdOff r + int i) mod SizeOfBuffer r"
        by (metis mod_add_left_eq)
      moreover have "i - n < ring_used r'" using False i by (simp add: used n_def [symmetric])
      ultimately have "ring_content r' ! (i - n) = ring_content r ! i"
        unfolding ring_content_nth [OF i] using ring_content_nth [of "i - n" r'] by (simp add: r')
      then show ?thesis
        using False n by (simp add: nth_append bs)
    qed
  qed
qed (use ht in \<open>auto simp: host_take_def Let_def\<close>)

section \<open>One chunk of the copy loop appends to the content\<close>

lemma rb_copy_chunk_ring:
  assumes ok: "ring_ok r" and nb: "0 \<le> N" "N < 2 ^ 31" and off: "0 \<le> off" "off + N \<le> int (length src)"
  shows "\<exists>n r'. rb_copy_chunk (RdOff r) r src off N = Some (int n, r') \<and> ring_ok r' \<and>
      int n = min (min (SizeOfBuffer r - 1 - int (ring_used r)) (SizeOfBuffer r - WrOff r)) N \<and>
      ring_content r' = ring_content r @ take n (drop (nat off) src) \<and>
      Flags r' = Flags r \<and> SizeOfBuffer r' = SizeOfBuffer r \<and> RdOff r' = RdOff r \<and>
      WrOff r' = (if WrOff r + int n = SizeOfBuffer r then 0 else WrOff r + int n)"
proof -
  define S where "S = SizeOfBuffer r"
  define m where "m = min (min (S - 1 - int (ring_used r)) (S - WrOff r)) N"
  define n where "n = nat m"
  have okS: "2 \<le> S" "length (pBuffer r) = nat S" "0 \<le> WrOff r" "WrOff r < S" "0 \<le> RdOff r" "RdOff r < S"
    using ok by (auto simp: ring_ok_def S_def)
  have u: "int (ring_used r) < S" using ring_used_less [OF ok] by (simp add: S_def)
  have m0: "0 \<le> m" using u okS nb by (simp add: m_def)
  then have nm: "int n = m" by (simp add: n_def)
  have bounds: "m \<le> N" "WrOff r + m \<le> S" "int (ring_used r) + m \<le> S - 1" by (auto simp: m_def)
  define buf where "buf = take (nat (WrOff r)) (pBuffer r) @ take (nat m) (drop (nat off) src) @
                          drop (nat (WrOff r) + nat m) (pBuffer r)"
  have cp: "copy_bytes (pBuffer r) (WrOff r) src off m = Some buf"
    unfolding buf_def using m0 okS bounds off by (intro copy_bytes_Some) auto
  define wr where "wr = (if WrOff r + m = S then 0 else WrOff r + m)"
  define r' where "r' = r\<lparr>pBuffer := buf, WrOff := wr\<rparr>"
  have call: "rb_copy_chunk (RdOff r) r src off N = Some (m, r')"
    using nb cp by (simp add: rb_copy_chunk_def rb_space_eq [OF ok] S_def [symmetric] m_def [symmetric]
        wrap_s32_id Let_def r'_def wr_def)
  have lbuf: "length buf = nat S" using length_copy_bytes [OF cp] okS by simp
  have ok': "ring_ok r'"
    using ok okS bounds m0 lbuf by (auto simp: ring_ok_def r'_def wr_def S_def)
  have wr_mod: "wr = (WrOff r + m) mod S"
    using bounds m0 okS by (auto simp: wr_def)
  have "int (ring_used r') = ((WrOff r - RdOff r) mod S + m) mod S"
    unfolding int_ring_used [OF ok'] by (simp add: r'_def wr_mod S_def [symmetric] mod_simps algebra_simps)
  also have "\<dots> = int (ring_used r) + m"
    unfolding S_def int_ring_used [OF ok, symmetric] using bounds m0 by (intro mod_pos_pos_trivial) (auto simp: S_def)
  finally have used': "ring_used r' = ring_used r + n"
    using nm by simp
  have content: "ring_content r' = ring_content r @ take n (drop (nat off) src)"
  proof (rule nth_equalityI)
    show "length (ring_content r') = length (ring_content r @ take n (drop (nat off) src))"
      using off bounds m0 by (simp add: used' n_def)
  next
    fix i assume "i < length (ring_content r')"
    then have i: "i < ring_used r + n" by (simp add: used')
    define idx where "idx = (RdOff r + int i) mod S"
    have idx: "0 \<le> idx" "idx < S" using okS by (simp_all add: idx_def)
    have lhs: "ring_content r' ! i = buf ! nat idx"
      using i ring_content_nth [of i r'] unfolding used' by (simp add: r'_def idx_def S_def)
    show "ring_content r' ! i = (ring_content r @ take n (drop (nat off) src)) ! i"
    proof (cases "i < ring_used r")
      case True
      have "\<not> (WrOff r \<le> idx \<and> idx < WrOff r + m)"
      proof
        assume h: "WrOff r \<le> idx \<and> idx < WrOff r + m"
        define j where "j = idx - WrOff r"
        have j: "0 \<le> j" "j < m" and "idx = WrOff r + j" using h by (auto simp: j_def)
        then have "(RdOff r + int i) mod S = ((RdOff r + int (ring_used r)) mod S + j) mod S"
          using idx by (simp add: ring_wr_eq [OF ok, folded S_def] idx_def)
        then have eq: "(RdOff r + int i) mod S = (RdOff r + (int (ring_used r) + j)) mod S"
          by (simp add: mod_add_left_eq add.assoc)
        have "int i < S" "0 \<le> int (ring_used r) + j" "int (ring_used r) + j < S"
          using True j bounds(3) u by linarith+
        then have "int i = int (ring_used r) + j"
          using offset_inj [OF eq] by simp
        then show False using True j by simp
      qed
      then have "buf ! nat idx = pBuffer r ! nat idx"
        by (simp only: copy_bytes_nth [OF cp idx(1)] if_False)
      then show ?thesis
        unfolding lhs using True ring_content_nth [OF True] by (simp add: nth_append idx_def S_def)
    next
      case False
      define j where "j = i - ring_used r"
      have j: "j < n" "i = ring_used r + j" using False i by (auto simp: j_def)
      have "idx = ((RdOff r + int (ring_used r)) mod S + int j) mod S"
        by (simp add: idx_def j mod_add_left_eq add.assoc)
      also have "\<dots> = WrOff r + int j"
        using ring_wr_eq [OF ok] j nm bounds okS by (simp add: S_def [symmetric])
      finally have "buf ! nat idx = src ! (nat off + j)"
        using copy_bytes_nth [OF cp idx(1)] j nm off by (simp add: nat_add_distrib)
      then show ?thesis
        using False lhs j nm off bounds by (simp add: nth_append)
    qed
  qed
  show ?thesis
    using call ok' content nm
    by (intro exI [of _ n] exI [of _ r']) (simp add: r'_def m_def S_def wr_def)
qed

section \<open>The control block around a write\<close>

definition cb_ok :: "nat \<Rightarrow> rtt_cb \<Rightarrow> bool" where
  "cb_ok b cb \<longleftrightarrow> b < length (aUp cb) \<and> ring_ok (aUp cb ! b)"

text \<open>Everything the target ever put into up-buffer \<open>b\<close>: what the host has, then what is pending.\<close>

definition up_sent :: "nat \<Rightarrow> rtt_cb \<Rightarrow> u8 list" where
  "up_sent b cb = host_rx cb b @ ring_content (aUp cb ! b)"

text \<open>What a write to channel \<open>b\<close> leaves alone.\<close>

definition up_frame :: "nat \<Rightarrow> rtt_cb \<Rightarrow> rtt_cb \<Rightarrow> bool" where
  "up_frame b cb cb' \<longleftrightarrow> acID cb' = acID cb \<and> MaxNumUpBuffers cb' = MaxNumUpBuffers cb \<and>
     MaxNumDownBuffers cb' = MaxNumDownBuffers cb \<and> aDown cb' = aDown cb \<and>
     ActiveTerminal cb' = ActiveTerminal cb \<and> length (aUp cb') = length (aUp cb) \<and>
     (\<forall>c. c \<noteq> b \<longrightarrow> aUp cb' ! c = aUp cb ! c \<and> host_rx cb' c = host_rx cb c) \<and>
     Flags (aUp cb' ! b) = Flags (aUp cb ! b) \<and> SizeOfBuffer (aUp cb' ! b) = SizeOfBuffer (aUp cb ! b)"

lemma up_frame_refl [simp]: "up_frame b cb cb"
  by (simp add: up_frame_def)

lemma up_frame_trans: "up_frame b x y \<Longrightarrow> up_frame b y z \<Longrightarrow> up_frame b x z"
  by (simp add: up_frame_def)

lemma load_RdOff_ok:
  assumes ok: "cb_ok b cb" and ld: "load_RdOff cb b = Some (rd, cb1)"
  shows "cb_ok b cb1" and "rd = RdOff (aUp cb1 ! b)" and "up_sent b cb1 = up_sent b cb"
    and "up_frame b cb cb1" and "\<exists>k. host_moves cb = k # host_moves cb1 \<and>
      ring_used (aUp cb1 ! b) = ring_used (aUp cb ! b) - min k (ring_used (aUp cb ! b))"
    and "WrOff (aUp cb1 ! b) = WrOff (aUp cb ! b)"
proof -
  have b: "b < length (aUp cb)" "ring_ok (aUp cb ! b)" using ok by (simp_all add: cb_ok_def)
  obtain k rx r where m: "host_moves cb = k # host_moves cb1"
    and ht: "host_take k (aUp cb ! b) = (rx, r)" and rd: "rd = RdOff r"
    and cb1: "cb1 = cb\<lparr>aUp := (aUp cb)[b := r], host_moves := host_moves cb1,
                       host_rx := (host_rx cb)(b := host_rx cb b @ rx)\<rparr>"
    using ld b by (auto simp: load_RdOff_def split: list.splits prod.splits)
  have up: "aUp cb1 ! b = r" "host_rx cb1 b = host_rx cb b @ rx" "length (aUp cb1) = length (aUp cb)"
    using b by (subst cb1, simp)+
  note hr = host_take_ring [OF b(2) ht]
  show "cb_ok b cb1" using up b hr by (simp add: cb_ok_def)
  show "rd = RdOff (aUp cb1 ! b)" using up rd by simp
  show "up_sent b cb1 = up_sent b cb" using up hr by (simp add: up_sent_def)
  show "up_frame b cb cb1" using b hr by (subst cb1, simp add: up_frame_def)
  show "\<exists>k. host_moves cb = k # host_moves cb1 \<and>
      ring_used (aUp cb1 ! b) = ring_used (aUp cb ! b) - min k (ring_used (aUp cb ! b))"
    using m up hr by simp
  show "WrOff (aUp cb1 ! b) = WrOff (aUp cb ! b)" using up hr by simp
qed

lemma load_RdOff_Some:
  assumes "cb_ok b cb" and "host_moves cb \<noteq> []"
  obtains rd cb1 where "load_RdOff cb b = Some (rd, cb1)"
  using assms by (cases "host_moves cb") (auto simp: load_RdOff_def cb_ok_def prod.case_eq_if)

text \<open>One turn of the copy loop, seen from outside.\<close>

lemma rtt_copy_turn:
  assumes ok: "cb_ok b cb" and ld: "load_RdOff cb b = Some (rd, cb1)"
    and nb: "0 \<le> N" "N < 2 ^ 31" "0 \<le> off" "off + N \<le> int (length src)"
  obtains n r where "rb_copy_chunk rd (aUp cb1 ! b) src off N = Some (int n, r)"
    and "int n = min (min (SizeOfBuffer (aUp cb1 ! b) - 1 - int (ring_used (aUp cb1 ! b)))
                          (SizeOfBuffer (aUp cb1 ! b) - WrOff (aUp cb1 ! b))) N"
    and "ring_used r = ring_used (aUp cb1 ! b) + n"
    and "cb_ok b (cb1\<lparr>aUp := (aUp cb1)[b := r]\<rparr>)"
    and "up_frame b cb (cb1\<lparr>aUp := (aUp cb1)[b := r]\<rparr>)"
    and "up_sent b (cb1\<lparr>aUp := (aUp cb1)[b := r]\<rparr>) = up_sent b cb @ take n (drop (nat off) src)"
    and "host_moves (cb1\<lparr>aUp := (aUp cb1)[b := r]\<rparr>) = tl (host_moves cb)"
    and "SizeOfBuffer r = SizeOfBuffer (aUp cb1 ! b)"
    and "WrOff r = (if WrOff (aUp cb1 ! b) + int n = SizeOfBuffer (aUp cb1 ! b) then 0
                    else WrOff (aUp cb1 ! b) + int n)"
proof -
  note l = load_RdOff_ok [OF ok ld]
  have b: "b < length (aUp cb1)" "ring_ok (aUp cb1 ! b)" using l by (simp_all add: cb_ok_def)
  obtain n r where r: "rb_copy_chunk rd (aUp cb1 ! b) src off N = Some (int n, r)" "ring_ok r"
    "int n = min (min (SizeOfBuffer (aUp cb1 ! b) - 1 - int (ring_used (aUp cb1 ! b)))
                      (SizeOfBuffer (aUp cb1 ! b) - WrOff (aUp cb1 ! b))) N"
    "ring_content r = ring_content (aUp cb1 ! b) @ take n (drop (nat off) src)"
    "Flags r = Flags (aUp cb1 ! b)" "SizeOfBuffer r = SizeOfBuffer (aUp cb1 ! b)"
    "WrOff r = (if WrOff (aUp cb1 ! b) + int n = SizeOfBuffer (aUp cb1 ! b) then 0
                else WrOff (aUp cb1 ! b) + int n)"
    using rb_copy_chunk_ring [OF b(2) nb] l(2) by auto
  have "n \<le> length (drop (nat off) src)" using r(3) nb by simp
  then have used: "ring_used r = ring_used (aUp cb1 ! b) + n"
    using arg_cong [OF r(4), of length] by simp
  show thesis
  proof (rule that [OF r(1) r(3) used])
    show "up_frame b cb (cb1\<lparr>aUp := (aUp cb1)[b := r]\<rparr>)"
      using l(4) b r by (simp add: up_frame_def)
    show "up_sent b (cb1\<lparr>aUp := (aUp cb1)[b := r]\<rparr>) = up_sent b cb @ take n (drop (nat off) src)"
      using l(3) [symmetric] b r by (simp add: up_sent_def)
    show "host_moves (cb1\<lparr>aUp := (aUp cb1)[b := r]\<rparr>) = tl (host_moves cb)"
      using l(5) by auto
  qed (use b r in \<open>simp_all add: cb_ok_def\<close>)
qed

section \<open>The copy loop\<close>

lemma rtt_copy_loop_stream:
  assumes "rtt_copy_loop cb b src off N w = Some (cb', w')"
    and "cb_ok b cb" and "0 \<le> N" and "N < 2 ^ 31" and "0 \<le> off" and "off + N \<le> int (length src)"
  shows "cb_ok b cb' \<and> up_frame b cb cb' \<and> w' = w + N \<and>
         up_sent b cb' = up_sent b cb @ take (nat N) (drop (nat off) src)"
  using assms
proof (induction cb b src off N w rule: rtt_copy_loop.induct)
  case (1 cb b src off N w)
  from "1.prems"(1) obtain rd cb1 where ld: "load_RdOff cb b = Some (rd, cb1)"
    by (subst (asm) rtt_copy_loop.simps) (auto split: option.splits prod.splits)
  obtain n r where t: "rb_copy_chunk rd (aUp cb1 ! b) src off N = Some (int n, r)"
    "int n = min (min (SizeOfBuffer (aUp cb1 ! b) - 1 - int (ring_used (aUp cb1 ! b)))
                      (SizeOfBuffer (aUp cb1 ! b) - WrOff (aUp cb1 ! b))) N"
    "cb_ok b (cb1\<lparr>aUp := (aUp cb1)[b := r]\<rparr>)"
    "up_frame b cb (cb1\<lparr>aUp := (aUp cb1)[b := r]\<rparr>)"
    "up_sent b (cb1\<lparr>aUp := (aUp cb1)[b := r]\<rparr>) = up_sent b cb @ take n (drop (nat off) src)"
    by (rule rtt_copy_turn [OF "1.prems"(2) ld "1.prems"(3-6)])
  have n: "int n \<le> N" using t(2) by simp
  show ?case
  proof (cases "N - int n = 0")
    case True
    then have "Some (cb', w') = Some (cb1\<lparr>aUp := (aUp cb1)[b := r]\<rparr>, w + int n)"
      using "1.prems"(1) ld t(1) by (subst (asm) rtt_copy_loop.simps) (simp add: Let_def)
    then show ?thesis using t True by auto
  next
    case False
    then have rec: "rtt_copy_loop (cb1\<lparr>aUp := (aUp cb1)[b := r]\<rparr>) b src (off + int n) (N - int n) (w + int n)
        = Some (cb', w')"
      using "1.prems"(1) ld t(1) by (subst (asm) rtt_copy_loop.simps) (simp add: Let_def)
    have ih: "cb_ok b cb' \<and> up_frame b (cb1\<lparr>aUp := (aUp cb1)[b := r]\<rparr>) cb' \<and> w' = w + int n + (N - int n) \<and>
       up_sent b cb' = up_sent b (cb1\<lparr>aUp := (aUp cb1)[b := r]\<rparr>) @
         take (nat (N - int n)) (drop (nat (off + int n)) src)"
      using "1.IH" [OF ld refl t(1) refl refl False rec t(3)] "1.prems" n by auto
    have "take n (drop (nat off) src) @ take (nat (N - int n)) (drop (nat (off + int n)) src)
        = take (nat N) (drop (nat off) src)"
      using take_add_drop [of n "drop (nat off) src" "nat (N - int n)"] n "1.prems"
      by (simp add: nat_add_distrib nat_diff_distrib add.commute)
    with ih t show ?thesis by (auto intro: up_frame_trans)
  qed
qed

text \<open>
  Enough turns in which the host takes a byte let the loop finish. No turn uses up more of them than
  it stores bytes.
\<close>

definition live_moves :: "rtt_cb \<Rightarrow> nat" where
  "live_moves cb = length (filter (\<lambda>k. 1 \<le> k) (host_moves cb))"

lemma rtt_copy_loop_live:
  assumes "cb_ok b cb" and "1 \<le> N" and "N < 2 ^ 31" and "0 \<le> off" and "off + N \<le> int (length src)"
    and "N \<le> int (live_moves cb)"
  shows "\<exists>cb' w'. rtt_copy_loop cb b src off N w = Some (cb', w') \<and> live_moves cb \<le> live_moves cb' + nat N"
  using assms
proof (induction cb b src off N w rule: rtt_copy_loop.induct)
  case (1 cb b src off N w)
  have "host_moves cb \<noteq> []" using "1.prems" by (auto simp: live_moves_def)
  then obtain rd cb1 where ld: "load_RdOff cb b = Some (rd, cb1)"
    using load_RdOff_Some [OF "1.prems"(1)] by blast
  have N0: "0 \<le> N" using "1.prems"(2) by simp
  note l = load_RdOff_ok [OF "1.prems"(1) ld]
  obtain n r where t: "rb_copy_chunk rd (aUp cb1 ! b) src off N = Some (int n, r)"
    "int n = min (min (SizeOfBuffer (aUp cb1 ! b) - 1 - int (ring_used (aUp cb1 ! b)))
                      (SizeOfBuffer (aUp cb1 ! b) - WrOff (aUp cb1 ! b))) N"
    "cb_ok b (cb1\<lparr>aUp := (aUp cb1)[b := r]\<rparr>)"
    "host_moves (cb1\<lparr>aUp := (aUp cb1)[b := r]\<rparr>) = tl (host_moves cb)"
    by (rule rtt_copy_turn [OF "1.prems"(1) ld N0 "1.prems"(3-5)])
  obtain k where k: "host_moves cb = k # host_moves cb1"
    "ring_used (aUp cb1 ! b) = ring_used (aUp cb ! b) - min k (ring_used (aUp cb ! b))"
    using l(5) by blast
  have okr: "ring_ok (aUp cb ! b)" "ring_ok (aUp cb1 ! b)" using "1.prems"(1) l(1) by (simp_all add: cb_ok_def)
  have sz: "SizeOfBuffer (aUp cb1 ! b) = SizeOfBuffer (aUp cb ! b)" using l(4) by (simp add: up_frame_def)
  have n: "0 \<le> int n" "int n \<le> N" "k \<ge> 1 \<Longrightarrow> 1 \<le> int n"
    using t(2) k(2) sz ring_used_less [OF okr(1)] okr "1.prems"(2) by (auto simp: ring_ok_def)
  let ?cb2 = "cb1\<lparr>aUp := (aUp cb1)[b := r]\<rparr>"
  have lv: "live_moves cb \<le> live_moves ?cb2 + n"
    using n k(1) t(4) by (cases "1 \<le> k") (auto simp: live_moves_def)
  show ?case
  proof (cases "N - int n = 0")
    case True
    then show ?thesis using ld t(1) lv by (subst rtt_copy_loop.simps) (auto simp: Let_def)
  next
    case False
    have "N - int n \<le> int (live_moves ?cb2)" using "1.prems"(6) lv by linarith
    then obtain cb' w' where "rtt_copy_loop ?cb2 b src (off + int n) (N - int n) (w + int n) = Some (cb', w')"
      "live_moves ?cb2 \<le> live_moves cb' + nat (N - int n)"
      using "1.IH" [OF ld refl t(1) refl refl False t(3)] False n "1.prems" by auto
    then show ?thesis using ld t(1) False lv n by (subst rtt_copy_loop.simps) (auto simp: Let_def)
  qed
qed

text \<open>A host that never reads keeps the loop waiting for good once the ring is too full.\<close>

lemma rtt_copy_loop_blocked:
  assumes "cb_ok b cb" and "N < 2 ^ 31" and "0 \<le> off" and "off + N \<le> int (length src)"
    and "\<forall>k \<in> set (host_moves cb). k = 0"
    and "SizeOfBuffer (aUp cb ! b) - 1 - int (ring_used (aUp cb ! b)) < N"
  shows "rtt_copy_loop cb b src off N w = None"
  using assms
proof (induction cb b src off N w rule: rtt_copy_loop.induct)
  case (1 cb b src off N w)
  have okr: "ring_ok (aUp cb ! b)" using "1.prems"(1) by (simp add: cb_ok_def)
  have N0: "0 \<le> N" using "1.prems"(6) ring_used_less [OF okr] by simp
  show ?case
  proof (cases "load_RdOff cb b")
    case None then show ?thesis by (subst rtt_copy_loop.simps) simp
  next
    case (Some p)
    then obtain rd cb1 where ld: "load_RdOff cb b = Some (rd, cb1)" by (cases p) auto
    note l = load_RdOff_ok [OF "1.prems"(1) ld]
    obtain n r where t: "rb_copy_chunk rd (aUp cb1 ! b) src off N = Some (int n, r)"
      "int n = min (min (SizeOfBuffer (aUp cb1 ! b) - 1 - int (ring_used (aUp cb1 ! b)))
                        (SizeOfBuffer (aUp cb1 ! b) - WrOff (aUp cb1 ! b))) N"
      "ring_used r = ring_used (aUp cb1 ! b) + n"
      "cb_ok b (cb1\<lparr>aUp := (aUp cb1)[b := r]\<rparr>)"
      "host_moves (cb1\<lparr>aUp := (aUp cb1)[b := r]\<rparr>) = tl (host_moves cb)"
      "SizeOfBuffer r = SizeOfBuffer (aUp cb1 ! b)"
      by (rule rtt_copy_turn [OF "1.prems"(1) ld N0 "1.prems"(2-4)])
    have same: "ring_used (aUp cb1 ! b) = ring_used (aUp cb ! b)"
      using l(5) "1.prems"(5) by auto
    have sz: "SizeOfBuffer (aUp cb1 ! b) = SizeOfBuffer (aUp cb ! b)" using l(4) by (simp add: up_frame_def)
    have b: "b < length (aUp cb1)" using l(1) by (simp add: cb_ok_def)
    have less: "N - int n \<noteq> 0" using t(2) "1.prems"(6) same sz by auto
    have "\<forall>k \<in> set (tl (host_moves cb)). k = 0" using "1.prems"(5) by (cases "host_moves cb") auto
    then have "rtt_copy_loop (cb1\<lparr>aUp := (aUp cb1)[b := r]\<rparr>) b src (off + int n) (N - int n) (w + int n) = None"
      using "1.IH" [OF ld refl t(1) refl refl less t(4)] "1.prems" t b same sz by auto
    then show ?thesis using ld t(1) less by (subst rtt_copy_loop.simps) (simp add: Let_def)
  qed
qed

text \<open>Data that fits needs two turns at most: up to the end of the object, and from its start.\<close>

lemma rtt_copy_loop_two_turns:
  assumes "cb_ok b cb" and "0 \<le> N" and "N < 2 ^ 31" and "0 \<le> off" and "off + N \<le> int (length src)"
    and "N \<le> SizeOfBuffer (aUp cb ! b) - 1 - int (ring_used (aUp cb ! b))"
    and "2 \<le> length (host_moves cb) \<or>
         host_moves cb \<noteq> [] \<and> N \<le> SizeOfBuffer (aUp cb ! b) - WrOff (aUp cb ! b)"
  shows "\<exists>res. rtt_copy_loop cb b src off N w = Some res"
  using assms
proof (induction cb b src off N w rule: rtt_copy_loop.induct)
  case (1 cb b src off N w)
  have "host_moves cb \<noteq> []" using "1.prems"(7) by auto
  then obtain rd cb1 where ld: "load_RdOff cb b = Some (rd, cb1)"
    using load_RdOff_Some [OF "1.prems"(1)] by blast
  note l = load_RdOff_ok [OF "1.prems"(1) ld]
  obtain n r where t: "rb_copy_chunk rd (aUp cb1 ! b) src off N = Some (int n, r)"
    "int n = min (min (SizeOfBuffer (aUp cb1 ! b) - 1 - int (ring_used (aUp cb1 ! b)))
                      (SizeOfBuffer (aUp cb1 ! b) - WrOff (aUp cb1 ! b))) N"
    "ring_used r = ring_used (aUp cb1 ! b) + n"
    "cb_ok b (cb1\<lparr>aUp := (aUp cb1)[b := r]\<rparr>)"
    "host_moves (cb1\<lparr>aUp := (aUp cb1)[b := r]\<rparr>) = tl (host_moves cb)"
    "SizeOfBuffer r = SizeOfBuffer (aUp cb1 ! b)"
    "WrOff r = (if WrOff (aUp cb1 ! b) + int n = SizeOfBuffer (aUp cb1 ! b) then 0
                else WrOff (aUp cb1 ! b) + int n)"
    by (rule rtt_copy_turn [OF "1.prems"(1) ld "1.prems"(2-5)])
  have sz: "SizeOfBuffer (aUp cb1 ! b) = SizeOfBuffer (aUp cb ! b)" using l(4) by (simp add: up_frame_def)
  have le: "ring_used (aUp cb1 ! b) \<le> ring_used (aUp cb ! b)" using l(5) by auto
  have b: "b < length (aUp cb1)" using l(1) by (simp add: cb_ok_def)
  have nval: "int n = min (SizeOfBuffer (aUp cb ! b) - WrOff (aUp cb ! b)) N"
    using t(2) "1.prems"(6) le sz l(6) by auto
  show ?case
  proof (cases "N - int n = 0")
    case True
    then show ?thesis using ld t(1) by (subst rtt_copy_loop.simps) (simp add: Let_def)
  next
    case False
    then have wrap: "int n = SizeOfBuffer (aUp cb ! b) - WrOff (aUp cb ! b)" "\<not> N \<le> SizeOfBuffer (aUp cb ! b) - WrOff (aUp cb ! b)"
      using nval by auto
    then have two: "tl (host_moves cb) \<noteq> []" using "1.prems"(7) by (cases "host_moves cb") auto
    have "\<exists>res. rtt_copy_loop (cb1\<lparr>aUp := (aUp cb1)[b := r]\<rparr>) b src (off + int n) (N - int n) (w + int n) = Some res"
      using "1.IH" [OF ld refl t(1) refl refl False t(4)] "1.prems" t b le sz l(6) nval wrap two by auto
    then show ?thesis using ld t(1) False by (subst rtt_copy_loop.simps) (simp add: Let_def)
  qed
qed

section \<open>SEGGER_RTT_Write as a whole\<close>

lemma rtt_write_stream:
  assumes w: "SEGGER_RTT_Write cb b src N = Some (cb', n)"
    and ok: "cb_ok b cb" and N: "0 \<le> N" "N < 2 ^ 31" "N \<le> int (length src)"
  shows "cb_ok b cb' \<and> up_frame b cb cb' \<and> 0 \<le> n \<and> n \<le> N \<and>
         up_sent b cb' = up_sent b cb @ take (nat n) src"
proof -
  have b: "b < length (aUp cb)" using ok by (simp add: cb_ok_def)
  have loop: "cb_ok b cb' \<and> up_frame b cb cb' \<and> 0 \<le> n \<and> n \<le> N \<and>
         up_sent b cb' = up_sent b cb @ take (nat n) src"
    if "rtt_copy_loop c b src 0 M 0 = Some (cb', n)" "0 \<le> M" "M \<le> N" "cb_ok b c" "up_frame b cb c"
       "up_sent b c = up_sent b cb" for c M
    using rtt_copy_loop_stream [OF that(1) that(4) that(2)] that N by (auto intro: up_frame_trans)
  show ?thesis
  proof (cases "rb_mode (aUp cb ! b) = MODE_BLOCK_IF_FIFO_FULL")
    case True
    then show ?thesis using w b ok N loop [of cb N] by (auto simp: SEGGER_RTT_Write_def split: if_splits)
  next
    case False
    with w b obtain rd cb1 where ld: "load_RdOff cb b = Some (rd, cb1)"
      by (auto simp: SEGGER_RTT_Write_def split: option.splits)
    note l = load_RdOff_ok [OF ok ld]
    have okr: "ring_ok (aUp cb1 ! b)" using l(1) by (simp add: cb_ok_def)
    have sp: "rb_space rd (aUp cb1 ! b) = SizeOfBuffer (aUp cb1 ! b) - 1 - int (ring_used (aUp cb1 ! b))"
      using rb_space_eq [OF okr] l(2) by simp
    have "0 \<le> rb_space rd (aUp cb1 ! b)" "rb_space rd (aUp cb1 ! b) < 2 ^ 31"
      using sp ring_used_less [OF okr] okr by (auto simp: ring_ok_def)
    then show ?thesis
      using w b False ld l N loop [of cb1 N] loop [of cb1 "rb_space rd (aUp cb1 ! b)"]
      by (auto simp: SEGGER_RTT_Write_def Let_def wrap_s32_id wrap_u32_id split: if_splits)
  qed
qed

lemma rtt_write_nonblocking:
  assumes ok: "cb_ok b cb" and N: "0 \<le> N" "N < 2 ^ 31" "N \<le> int (length src)"
    and mode: "rb_mode (aUp cb ! b) \<noteq> MODE_BLOCK_IF_FIFO_FULL"
    and hm: "host_moves cb = k # ks" "2 \<le> length ks"
  defines "space \<equiv> SizeOfBuffer (aUp cb ! b) - 1 -
                     int (ring_used (aUp cb ! b) - min k (ring_used (aUp cb ! b)))"
  shows "\<exists>cb'. SEGGER_RTT_Write cb b src N = Some (cb',
           if N \<le> space then N else if rb_mode (aUp cb ! b) = MODE_NO_BLOCK_SKIP then 0 else space)"
proof -
  have b: "b < length (aUp cb)" using ok by (simp add: cb_ok_def)
  obtain rd cb1 where ld: "load_RdOff cb b = Some (rd, cb1)"
    using load_RdOff_Some [OF ok] hm by auto
  note l = load_RdOff_ok [OF ok ld]
  have okr: "ring_ok (aUp cb1 ! b)" using l(1) by (simp add: cb_ok_def)
  have same: "SizeOfBuffer (aUp cb1 ! b) = SizeOfBuffer (aUp cb ! b)"
    "rb_mode (aUp cb1 ! b) = rb_mode (aUp cb ! b)" "host_moves cb1 = ks"
    using l(4,5) hm by (auto simp: up_frame_def rb_mode_def)
  have sp: "rb_space rd (aUp cb1 ! b) = space"
    using rb_space_eq [OF okr] l(2,5) hm same by (auto simp: space_def)
  have space: "0 \<le> space" "space < 2 ^ 31"
    using sp rb_space_eq [OF okr] l(2) ring_used_less [OF okr] okr by (auto simp: ring_ok_def)
  have run: "\<exists>cb'. rtt_copy_loop cb1 b src 0 M 0 = Some (cb', M)"
    if "0 \<le> M" "M \<le> N" "M \<le> space" for M
  proof -
    have "\<exists>res. rtt_copy_loop cb1 b src 0 M 0 = Some res"
      using rtt_copy_loop_two_turns [OF l(1) that(1), of 0 src 0] that N hm same sp
        rb_space_eq [OF okr] l(2) by auto
    then obtain cb' n where r: "rtt_copy_loop cb1 b src 0 M 0 = Some (cb', n)" by auto
    from rtt_copy_loop_stream [OF this l(1) that(1)] that N have "n = M" by auto
    with r show ?thesis by blast
  qed
  show ?thesis
  proof (cases "N \<le> space")
    case True
    then show ?thesis using run [of N] N b mode ld
      by (auto simp: SEGGER_RTT_Write_def Let_def sp wrap_s32_id)
  next
    case False
    then show ?thesis using run [of space] N b mode ld space same
      by (auto simp: SEGGER_RTT_Write_def Let_def sp wrap_s32_id wrap_u32_id)
  qed
qed

lemma rtt_write_blocking_live:
  assumes ok: "cb_ok b cb" and N: "0 \<le> N" "N < 2 ^ 31" "N \<le> int (length src)"
    and mode: "rb_mode (aUp cb ! b) = MODE_BLOCK_IF_FIFO_FULL"
    and live: "N \<le> int (live_moves cb)"
  shows "\<exists>cb'. SEGGER_RTT_Write cb b src N = Some (cb', N) \<and> live_moves cb \<le> live_moves cb' + nat N"
proof (cases "N = 0")
  case True
  then show ?thesis using ok mode by (simp add: SEGGER_RTT_Write_def cb_ok_def)
next
  case False
  then obtain cb' n where r: "rtt_copy_loop cb b src 0 N 0 = Some (cb', n)" "live_moves cb \<le> live_moves cb' + nat N"
    using rtt_copy_loop_live [OF ok _ N(2), of 0 src 0] N live by auto
  have "n = N" using rtt_copy_loop_stream [OF r(1) ok N(1,2)] N by auto
  with r False ok mode show ?thesis by (simp add: SEGGER_RTT_Write_def cb_ok_def)
qed

lemma rtt_write_blocking_stuck:
  assumes ok: "cb_ok b cb" and N: "N < 2 ^ 31" "N \<le> int (length src)"
    and mode: "rb_mode (aUp cb ! b) = MODE_BLOCK_IF_FIFO_FULL"
    and idle: "\<forall>k \<in> set (host_moves cb). k = 0"
    and full: "SizeOfBuffer (aUp cb ! b) - 1 - int (ring_used (aUp cb ! b)) < N"
  shows "SEGGER_RTT_Write cb b src N = None"
proof -
  have "N \<noteq> 0" using full ring_used_less [of "aUp cb ! b"] ok by (auto simp: cb_ok_def)
  then show ?thesis
    using rtt_copy_loop_blocked [OF ok N(1) _ _ idle full] N ok mode
    by (simp add: SEGGER_RTT_Write_def cb_ok_def)
qed

section \<open>SEGGER_RTT_Read as a whole\<close>

lemma ring_content_linear:
  assumes ok: "ring_ok r"
  shows "ring_content r =
    (if RdOff r \<le> WrOff r then take (nat (WrOff r - RdOff r)) (drop (nat (RdOff r)) (pBuffer r))
     else drop (nat (RdOff r)) (pBuffer r) @ take (nat (WrOff r)) (pBuffer r))"
    and "int (ring_used r) = (if RdOff r \<le> WrOff r then WrOff r - RdOff r
                              else SizeOfBuffer r - RdOff r + WrOff r)"
proof -
  have o: "0 \<le> WrOff r" "WrOff r < SizeOfBuffer r" "0 \<le> RdOff r" "RdOff r < SizeOfBuffer r"
    "length (pBuffer r) = nat (SizeOfBuffer r)" using ok by (auto simp: ring_ok_def)
  show used: "int (ring_used r) = (if RdOff r \<le> WrOff r then WrOff r - RdOff r
                              else SizeOfBuffer r - RdOff r + WrOff r)"
  proof (cases "RdOff r \<le> WrOff r")
    case True then show ?thesis using o by (simp add: int_ring_used [OF ok])
  next
    case False
    have "(WrOff r - RdOff r) mod SizeOfBuffer r = (WrOff r - RdOff r + SizeOfBuffer r) mod SizeOfBuffer r"
      by simp
    also have "\<dots> = WrOff r - RdOff r + SizeOfBuffer r" using False o by (intro mod_pos_pos_trivial) auto
    finally show ?thesis using False by (simp add: int_ring_used [OF ok])
  qed
  show "ring_content r =
    (if RdOff r \<le> WrOff r then take (nat (WrOff r - RdOff r)) (drop (nat (RdOff r)) (pBuffer r))
     else drop (nat (RdOff r)) (pBuffer r) @ take (nat (WrOff r)) (pBuffer r))" (is "_ = ?rhs")
  proof (rule nth_equalityI)
    show len: "length (ring_content r) = length ?rhs" using used o by (auto simp: min_def split: if_splits)
  next
    fix i assume "i < length (ring_content r)"
    then have i: "i < ring_used r" by simp
    have "ring_content r ! i = pBuffer r ! nat ((RdOff r + int i) mod SizeOfBuffer r)"
      using i by (rule ring_content_nth)
    also have "\<dots> = ?rhs ! i"
    proof (cases "RdOff r + int i < SizeOfBuffer r")
      case True
      then have "(RdOff r + int i) mod SizeOfBuffer r = RdOff r + int i" using o by simp
      then show ?thesis using True i used o by (auto simp: nth_append nat_add_distrib split: if_splits)
    next
      case False
      then have "(RdOff r + int i) mod SizeOfBuffer r = (RdOff r + int i - SizeOfBuffer r) mod SizeOfBuffer r" by simp
      also have "\<dots> = RdOff r + int i - SizeOfBuffer r"
        using False i used o by (intro mod_pos_pos_trivial) (auto split: if_splits)
      finally have m: "(RdOff r + int i) mod SizeOfBuffer r = RdOff r + int i - SizeOfBuffer r" .
      have nle: "\<not> RdOff r \<le> WrOff r" using False i used o by (auto split: if_splits)
      define j where "j = nat (RdOff r + int i - SizeOfBuffer r)"
      have ij: "i = length (drop (nat (RdOff r)) (pBuffer r)) + j" using False o by (simp add: j_def)
      have "j < nat (WrOff r)" using i used nle False by (simp add: j_def)
      then have "?rhs ! i = pBuffer r ! j"
        unfolding ij if_not_P [OF nle] nth_append_length_plus by simp
      then show ?thesis by (simp add: m j_def)
    qed
    finally show "ring_content r ! i = ?rhs ! i" .
  qed
qed

lemma rb_read_content:
  assumes ok: "ring_ok r" and B: "0 \<le> B" "B < 2 ^ 31" "B \<le> int (length dst)"
  defines "n \<equiv> min (nat B) (ring_used r)"
  shows "\<exists>r'. rb_read r dst B = Some (take n (ring_content r) @ drop n dst, r', int n) \<and>
              ring_ok r' \<and> ring_content r' = drop n (ring_content r)"
proof -
  have o: "0 \<le> WrOff r" "WrOff r < SizeOfBuffer r" "0 \<le> RdOff r" "RdOff r < SizeOfBuffer r"
    "length (pBuffer r) = nat (SizeOfBuffer r)" "SizeOfBuffer r < 2 ^ 31" "2 \<le> SizeOfBuffer r"
    using ok by (auto simp: ring_ok_def)
  note lin = ring_content_linear [OF ok]
  define R W S b where "R = nat (RdOff r)" and "W = nat (WrOff r)" and "S = nat (SizeOfBuffer r)"
    and "b = nat B"
  have i: "RdOff r = int R" "WrOff r = int W" "SizeOfBuffer r = int S" "B = int b"
    using o B by (simp_all add: R_def W_def S_def b_def)
  have bd: "W < S" "R < S" "length (pBuffer r) = S" "b \<le> length dst" "int S < 2 ^ 31" "int b < 2 ^ 31"
    using o B by (simp_all add: i)
  have wb: "wrap_s32 (int b) = int b" using bd by (simp add: wrap_s32_id)
  have okr: "ring_ok (r\<lparr>RdOff := int x\<rparr>)" if "x < S" for x
    using ok that by (auto simp: ring_ok_def i)
  show ?thesis
  proof (cases "R \<le> W")
    case True
    have used: "ring_used r = W - R" using lin(2) True by (simp add: i)
    have n: "n = min b (W - R)" by (simp add: n_def used b_def)
    have nle: "n \<le> W - R" "n \<le> b" by (simp_all add: n)
    have c: "ring_content r = take (W - R) (drop R (pBuffer r))"
      using lin(1) True by (simp add: i nat_diff_distrib')
    have cp: "copy_bytes dst 0 (pBuffer r) (int R) (int n) = Some (take n (drop R (pBuffer r)) @ drop n dst)"
      using bd True by (subst copy_bytes_Some) (auto simp: n)
    have e: "min (WrOff r - RdOff r) (wrap_s32 B) = int n" "\<not> RdOff r > WrOff r"
      "0 < n \<Longrightarrow> RdOff r < WrOff r \<and> 0 < wrap_s32 B"
      using bd True by (auto simp: i wb n min_def of_nat_diff split: if_splits)
    have rd: "rb_read r dst B = Some (take n (ring_content r) @ drop n dst, r\<lparr>RdOff := int (R + n)\<rparr>, int n)"
      using cp nle e(3) by (cases "n = 0") (simp_all add: rb_read_def Let_def e(1,2) c i(1) [symmetric] min_absorb1)
    have ok': "ring_ok (r\<lparr>RdOff := int (R + n)\<rparr>)" using nle bd True by (intro okr) linarith
    have "ring_content (r\<lparr>RdOff := int (R + n)\<rparr>) = drop n (ring_content r)"
    proof -
      have "int (R + n) \<le> int W" "nat (int W - int (R + n)) = W - R - n" using nle True by linarith+
      then show ?thesis
        using ring_content_linear(1) [OF ok'] unfolding c
        by (simp add: i(2) drop_take add.commute del: of_nat_add)
    qed
    with rd ok' show ?thesis by blast
  next
    case False
    have used: "ring_used r = S - R + W" using lin(2) False bd by (simp add: i)
    have c: "ring_content r = drop R (pBuffer r) @ take W (pBuffer r)"
      using lin(1) False by (simp add: i)
    show ?thesis
    proof (cases "b < S - R")
      case True
      have n: "n = b" using True by (simp add: n_def used b_def)
      have cp: "copy_bytes dst 0 (pBuffer r) (int R) (int b) = Some (take b (drop R (pBuffer r)) @ drop b dst)"
        using bd True by (subst copy_bytes_Some) auto
      have e: "min (SizeOfBuffer r - RdOff r) (wrap_s32 B) = int n" "RdOff r > WrOff r"
        "wrap_s32 (wrap_u32 (B - int n)) = 0" "RdOff r + int n \<noteq> SizeOfBuffer r"
        "\<not> min (WrOff r - (RdOff r + int n)) 0 > 0"
        using bd True False by (auto simp: i wb n min_def wrap_s32_def wrap_u32_def)
      have tk: "take n (ring_content r) = take n (drop R (pBuffer r))" using bd True by (simp add: c n)
      have upd: "(if int n \<noteq> 0 then r\<lparr>RdOff := RdOff r + int n\<rparr> else r) = r\<lparr>RdOff := int (R + n)\<rparr>"
        using i(1) by auto
      have rd: "rb_read r dst B = Some (take n (ring_content r) @ drop n dst, r\<lparr>RdOff := int (R + n)\<rparr>, int n)"
        unfolding rb_read_def Let_def if_P [OF e(2)] e(1) cp [folded n, folded i(1)] option.case prod.case
          e(3) if_not_P [OF e(4)] if_not_P [OF e(5)] upd tk by simp
      have ok': "ring_ok (r\<lparr>RdOff := int (R + n)\<rparr>)" using n bd True by (intro okr) linarith
      have "ring_content (r\<lparr>RdOff := int (R + n)\<rparr>) = drop n (ring_content r)"
      proof -
        have "\<not> int (R + n) \<le> int W" "n \<le> length (drop R (pBuffer r))" using n True False bd by auto
        then show ?thesis
          using ring_content_linear(1) [OF ok'] unfolding c
          by (simp add: i(2) add.commute del: of_nat_add)
      qed
      with rd ok' show ?thesis by blast
    next
      case ge: False
      define k where "k = S - R"
      define m where "m = min W (b - k)"
      have k: "0 < k" "k \<le> b" "int S - int R = int k" "R + k = S" using ge bd by (auto simp: k_def)
      have n: "n = k + m" using ge unfolding n_def used b_def [symmetric] k_def [symmetric] m_def by auto
      have cp: "copy_bytes dst 0 (pBuffer r) (int R) (int k) = Some (drop R (pBuffer r) @ drop k dst)"
        using bd k by (subst copy_bytes_Some) auto
      have lk: "length (pBuffer r) - R = k" "k \<le> length dst" "k + m \<le> length dst" "m \<le> length (pBuffer r)"
        using bd k by (auto simp: k_def m_def)
      have cp2: "copy_bytes (drop R (pBuffer r) @ drop k dst) (int k) (pBuffer r) 0 (int m)
          = Some (drop R (pBuffer r) @ take m (pBuffer r) @ drop n dst)"
        using lk by (subst copy_bytes_Some) (auto simp: n add.commute)
      have e: "min (SizeOfBuffer r - RdOff r) (wrap_s32 B) = int k" "RdOff r > WrOff r"
        "RdOff r + int k = SizeOfBuffer r"
        using bd k False by (auto simp: i wb)
      have m: "min (WrOff r - 0) (wrap_s32 (wrap_u32 (B - int k))) = int m"
        using bd k by (simp add: i m_def wrap_s32_id wrap_u32_id of_nat_diff [symmetric] del: of_nat_diff)
      have tk: "take n (ring_content r) @ drop n dst = drop R (pBuffer r) @ take m (pBuffer r) @ drop n dst"
        using lk bd k by (simp add: c n m_def)
      have rd: "rb_read r dst B = Some (take n (ring_content r) @ drop n dst, r\<lparr>RdOff := int m\<rparr>, int n)"
        unfolding tk rb_read_def Let_def if_P [OF e(2)] e(1) cp [folded i(1)] option.case prod.case
          if_P [OF e(3)] m using cp2 k(1) by (cases "m = 0") (simp_all add: n lk)
      have mS: "m \<le> W" "m < S" using bd by (auto simp: m_def)
      have ok': "ring_ok (r\<lparr>RdOff := int m\<rparr>)" using okr mS by simp
      have "ring_content (r\<lparr>RdOff := int m\<rparr>) = drop n (ring_content r)"
      proof -
        have "int m \<le> int W" "nat (int W - int m) = W - m" "length (drop R (pBuffer r)) = k"
          using mS bd by (auto simp: k_def)
        then show ?thesis
          using ring_content_linear(1) [OF ok'] unfolding c by (simp add: i(2) n drop_take)
      qed
      with rd ok' show ?thesis by blast
    qed
  qed
qed

section \<open>Runs of writes\<close>

text \<open>A run of the target: calls of \<open>SEGGER_RTT_Write\<close> on its channels, with their results.\<close>

fun rtt_writes :: "rtt_cb \<Rightarrow> (nat \<times> u8 list) list \<Rightarrow> (rtt_cb \<times> int list) option" where
  "rtt_writes cb [] = Some (cb, [])"
| "rtt_writes cb ((b, bs) # ws) =
     (case SEGGER_RTT_Write cb b bs (int (length bs)) of None \<Rightarrow> None
      | Some (cb1, n) \<Rightarrow>
          (case rtt_writes cb1 ws of None \<Rightarrow> None | Some (cb2, ns) \<Rightarrow> Some (cb2, n # ns)))"

definition accepted :: "nat \<Rightarrow> (nat \<times> u8 list) list \<Rightarrow> int list \<Rightarrow> u8 list" where
  "accepted c ws ns =
     concat (map (\<lambda>((b, bs), n). if b = c then take (nat n) bs else []) (zip ws ns))"

lemma accepted_simps [simp]:
  "accepted c [] ns = []"
  "accepted c ((b, bs) # ws) (n # ns) = (if b = c then take (nat n) bs else []) @ accepted c ws ns"
  by (simp_all add: accepted_def)

lemma up_frame_cb_ok: "up_frame b cb cb' \<Longrightarrow> cb_ok b cb' \<Longrightarrow> cb_ok c cb \<Longrightarrow> cb_ok c cb'"
  by (cases "c = b") (auto simp: up_frame_def cb_ok_def)

lemma up_frame_sent: "up_frame b cb cb' \<Longrightarrow> c \<noteq> b \<Longrightarrow> up_sent c cb' = up_sent c cb"
  by (simp add: up_frame_def up_sent_def)

lemma rtt_writes_stream:
  "rtt_writes cb ws = Some (cb', ns) \<Longrightarrow>
   list_all (\<lambda>(b, bs). cb_ok b cb \<and> int (length bs) < 2 ^ 31) ws \<Longrightarrow>
   up_sent c cb' = up_sent c cb @ accepted c ws ns \<and> length ns = length ws \<and>
   list_all2 (\<lambda>(b, bs) n. 0 \<le> n \<and> n \<le> int (length bs)) ws ns"
proof (induction cb ws arbitrary: ns rule: rtt_writes.induct)
  case (1 cb) then show ?case by simp
next
  case (2 cb b bs ws)
  obtain cb1 n ns' where w: "SEGGER_RTT_Write cb b bs (int (length bs)) = Some (cb1, n)"
    and ws: "rtt_writes cb1 ws = Some (cb', ns')" and ns: "ns = n # ns'"
    using 2(2) by (auto split: option.splits)
  have s: "cb_ok b cb1 \<and> up_frame b cb cb1 \<and> 0 \<le> n \<and> n \<le> int (length bs) \<and>
      up_sent b cb1 = up_sent b cb @ take (nat n) bs"
    using rtt_write_stream [OF w] 2(3) by simp
  have "list_all (\<lambda>(b, bs). cb_ok b cb1 \<and> int (length bs) < 2 ^ 31) ws"
    using 2(3) s up_frame_cb_ok [of b cb cb1] by (auto simp: list_all_iff)
  then show ?case using 2(1) [OF w refl ws] s ns up_frame_sent [of b cb cb1 c] by auto
qed

section \<open>Properties\<close>

text \<open>A small channel for the instances below: channel 1 with a ring of eight bytes.\<close>

definition demo_cb :: "int \<Rightarrow> nat list \<Rightarrow> rtt_cb" where
  "demo_cb mode hs = (SEGGER_RTT0 hs)\<lparr>aUp := [zero_ring,
     \<lparr>sName = None, pBuffer = replicate 8 0, SizeOfBuffer = 8, WrOff = 6, RdOff = 6, Flags = mode\<rparr>]\<rparr>"

lemma demo_cb_ok: "cb_ok (Suc 0) (demo_cb mode hs)"
  by (simp add: demo_cb_def cb_ok_def ring_ok_def)

lemma demo_cb_simps:
  "aUp (demo_cb mode hs) ! Suc 0 = \<lparr>sName = None, pBuffer = replicate 8 0, SizeOfBuffer = 8, WrOff = 6, RdOff = 6, Flags = mode\<rparr>"
  "host_moves (demo_cb mode hs) = hs" "up_sent (Suc 0) (demo_cb mode hs) = []"
  by (simp_all add: demo_cb_def SEGGER_RTT0_def up_sent_def ring_content_def ring_used_def)

text \<open>C16: the channels are FIFO streams. For any run of \<open>SEGGER_RTT_Write\<close> calls and any moves of the
  host between the accesses to the ring, what the host has received from a channel followed by what
  is pending in its ring is what it was before the run followed by the accepted prefixes of the
  blocks written to this channel, in order: nothing is lost, duplicated, reordered or mixed up
  between channels.\<close>

theorem rtt_writes_fifo:
  assumes "rtt_writes cb ws = Some (cb', ns)"
    and "list_all (\<lambda>(b, bs). cb_ok b cb \<and> int (length bs) < 2 ^ 31) ws"
  shows "host_rx cb' c @ ring_content (aUp cb' ! c) =
           host_rx cb c @ ring_content (aUp cb ! c) @ accepted c ws ns \<and>
         list_all2 (\<lambda>(b, bs) n. 0 \<le> n \<and> n \<le> int (length bs)) ws ns"
  using rtt_writes_stream [OF assms, of c] by (simp add: up_sent_def)

lemma rtt_writes_fifo_witness:
  "host_rx (fst (the (rtt_writes (demo_cb 1 [0, 0, 0, 2, 0, 0]) [(1, [1, 2, 3, 4, 5]), (1, [6, 7, 8, 9, 10])]))) 1 @
   ring_content (aUp (fst (the (rtt_writes (demo_cb 1 [0, 0, 0, 2, 0, 0]) [(1, [1, 2, 3, 4, 5]), (1, [6, 7, 8, 9, 10])]))) ! 1)
   = [1, 2, 3, 4, 5, 6, 7, 8, 9]"
proof -
  have "map_option snd (rtt_writes (demo_cb 1 [0, 0, 0, 2, 0, 0]) [(1, [1, 2, 3, 4, 5]), (1, [6, 7, 8, 9, 10])])
      = Some [5, 4]"
    by code_simp
  then obtain cb' where c: "rtt_writes (demo_cb 1 [0, 0, 0, 2, 0, 0]) [(1, [1, 2, 3, 4, 5]), (1, [6, 7, 8, 9, 10])]
      = Some (cb', [5, 4])" by auto
  have "ring_content (aUp (demo_cb 1 [0, 0, 0, 2, 0, 0]) ! 1) = []" "host_rx (demo_cb 1 [0, 0, 0, 2, 0, 0]) 1 = []"
    by code_simp+
  then show ?thesis using rtt_writes_fifo [OF c, of 1] c by (simp add: demo_cb_ok)
qed

text \<open>C17: the non-blocking modes. With room for the whole block it is taken; otherwise the skip mode
  takes nothing and the trim mode takes as much as fits. The call returns within three loads of
  \<open>RdOff\<close>, and the accepted prefix is appended to the channel's stream.\<close>

theorem rtt_write_nonblocking_result:
  assumes "cb_ok b cb" and "int (length src) < 2 ^ 31" and "3 \<le> length (host_moves cb)"
    and "rb_mode (aUp cb ! b) \<noteq> MODE_BLOCK_IF_FIFO_FULL"
  defines "space \<equiv> SizeOfBuffer (aUp cb ! b) - 1 -
     int (ring_used (aUp cb ! b) - min (hd (host_moves cb)) (ring_used (aUp cb ! b)))"
  defines "n \<equiv> if int (length src) \<le> space then int (length src)
              else if rb_mode (aUp cb ! b) = MODE_NO_BLOCK_SKIP then 0 else space"
  shows "\<exists>cb'. SEGGER_RTT_Write cb b src (int (length src)) = Some (cb', n) \<and>
           up_sent b cb' = up_sent b cb @ take (nat n) src \<and> cb_ok b cb'"
proof -
  obtain k ks where hm: "host_moves cb = k # ks" using assms(3) by (cases "host_moves cb") auto
  have "2 \<le> length ks" using assms(3) hm by simp
  from rtt_write_nonblocking [OF assms(1) _ assms(2) _ assms(4) hm this, of src]
  obtain cb' where w: "SEGGER_RTT_Write cb b src (int (length src)) = Some (cb', n)"
    unfolding n_def space_def hm list.sel by fastforce
  then show ?thesis using rtt_write_stream [OF w assms(1) _ assms(2)] by auto
qed

lemma rtt_write_nonblocking_result_witness:
  "\<exists>cb'. SEGGER_RTT_Write (demo_cb MODE_NO_BLOCK_TRIM [0, 0, 0]) 1 [1, 2, 3, 4, 5, 6, 7, 8, 9] 9 = Some (cb', 7) \<and>
         up_sent 1 cb' = [1, 2, 3, 4, 5, 6, 7]"
  using rtt_write_nonblocking_result
    [of 1 "demo_cb MODE_NO_BLOCK_TRIM [0, 0, 0]" "[1, 2, 3, 4, 5, 6, 7, 8, 9]"] demo_cb_ok
  by (auto simp: demo_cb_simps ring_used_def rb_mode_def MODE_NO_BLOCK_SKIP_def MODE_NO_BLOCK_TRIM_def
      MODE_BLOCK_IF_FIFO_FULL_def)

text \<open>C18: the blocking mode loses nothing. As soon as the host reads often enough during the call, a
  write of any length - longer than the ring as well - returns, and the whole block is in the
  stream.\<close>

theorem rtt_write_blocking_complete:
  assumes "cb_ok b cb" and "int (length src) < 2 ^ 31"
    and "rb_mode (aUp cb ! b) = MODE_BLOCK_IF_FIFO_FULL"
    and "length src \<le> length (filter (\<lambda>k. 1 \<le> k) (host_moves cb))"
  shows "\<exists>cb'. SEGGER_RTT_Write cb b src (int (length src)) = Some (cb', int (length src)) \<and>
           up_sent b cb' = up_sent b cb @ src \<and> up_frame b cb cb'"
proof -
  obtain cb' where w: "SEGGER_RTT_Write cb b src (int (length src)) = Some (cb', int (length src))"
    using rtt_write_blocking_live [OF assms(1) _ assms(2) _ assms(3)] assms(4) by (auto simp: live_moves_def)
  then show ?thesis using rtt_write_stream [OF w assms(1) _ assms(2)] by auto
qed

lemma rtt_write_blocking_complete_witness:
  "\<exists>cb'. SEGGER_RTT_Write (demo_cb MODE_BLOCK_IF_FIFO_FULL (replicate 10 1)) 1 [1, 2, 3, 4, 5, 6, 7, 8, 9, 10] 10
           = Some (cb', 10) \<and> up_sent 1 cb' = [1, 2, 3, 4, 5, 6, 7, 8, 9, 10]"
  using rtt_write_blocking_complete
    [of 1 "demo_cb MODE_BLOCK_IF_FIFO_FULL (replicate 10 1)" "[1, 2, 3, 4, 5, 6, 7, 8, 9, 10]"] demo_cb_ok
  by (auto simp: demo_cb_simps ring_used_def rb_mode_def MODE_BLOCK_IF_FIFO_FULL_def)

text \<open>C19: the blocking mode can hang. While the host does not read, a write that does not fit never
  returns, however long it waits.\<close>

theorem rtt_write_blocking_hangs:
  assumes "cb_ok b cb" and "int (length src) < 2 ^ 31"
    and "rb_mode (aUp cb ! b) = MODE_BLOCK_IF_FIFO_FULL"
    and "SizeOfBuffer (aUp cb ! b) - 1 - int (ring_used (aUp cb ! b)) < int (length src)"
  shows "SEGGER_RTT_Write (cb\<lparr>host_moves := replicate turns 0\<rparr>) b src (int (length src)) = None"
  by (rule rtt_write_blocking_stuck) (use assms in \<open>auto simp: cb_ok_def\<close>)

lemma rtt_write_blocking_hangs_witness:
  "SEGGER_RTT_Write ((demo_cb MODE_BLOCK_IF_FIFO_FULL [])\<lparr>host_moves := replicate 1000 0\<rparr>) 1
     [1, 2, 3, 4, 5, 6, 7, 8] 8 = None"
  using rtt_write_blocking_hangs
    [of 1 "demo_cb MODE_BLOCK_IF_FIFO_FULL []" "[1, 2, 3, 4, 5, 6, 7, 8]" 1000] demo_cb_ok
  by (simp add: demo_cb_simps ring_used_def rb_mode_def MODE_BLOCK_IF_FIFO_FULL_def)

end
