(* ===== verification/RttTerminal.thy ===== *)
theory RttTerminal
  imports RttRing
begin

text \<open>
  The rest of \<open>rtt/SEGGER_RTT.c\<close>: strings, keys, run-time configuration and the virtual terminals
  of channel 0, with the interfaces the printf layer and the key functions rely on.

  A C string argument is the list of bytes of the object behind the pointer, \<open>None\<close> for a null
  pointer; scanning past the end of the object has no result.
\<close>

section \<open>Strings\<close>

fun rtt_strlen_from :: "u8 list \<Rightarrow> int \<Rightarrow> int option" where
  "rtt_strlen_from [] len = None"
| "rtt_strlen_from (c # cs) len = (if c = 0 then Some len else rtt_strlen_from cs (len + 1))"

definition rtt_strlen :: "u8 list option \<Rightarrow> int option" where
  "rtt_strlen s = (case s of None \<Rightarrow> Some 0 | Some cs \<Rightarrow> rtt_strlen_from cs 0)"

definition SEGGER_RTT_WriteString :: "rtt_cb \<Rightarrow> nat \<Rightarrow> u8 list option \<Rightarrow> (rtt_cb \<times> int) option" where
  "SEGGER_RTT_WriteString cb b s =
     (case rtt_strlen s of None \<Rightarrow> None
      | Some len \<Rightarrow> SEGGER_RTT_Write cb b (case s of None \<Rightarrow> [] | Some cs \<Rightarrow> cs) (wrap_u32 len))"

lemma rtt_strlen_from_terminated:
  "0 \<notin> set cs \<Longrightarrow> rtt_strlen_from (cs @ 0 # rest) len = Some (len + int (length cs))"
  by (induction cs arbitrary: len) auto

lemma rtt_strlen_from_unterminated: "0 \<notin> set cs \<Longrightarrow> rtt_strlen_from cs len = None"
  by (induction cs arbitrary: len) auto

section \<open>Keys\<close>

text \<open>The one-byte object \<open>c\<close> starts with an unspecified value; any value gives the same result.\<close>

definition SEGGER_RTT_GetKey :: "rtt_cb \<Rightarrow> (rtt_cb \<times> int) option" where
  "SEGGER_RTT_GetKey cb =
     (case SEGGER_RTT_Read cb 0 [0] 1 of None \<Rightarrow> None
      | Some (c, cb', r) \<Rightarrow> if r = 1 then Some (cb', uint (c ! 0)) else Some (cb', - 1))"

text \<open>
  \<open>SEGGER_RTT_WaitKey\<close> polls. Between two polls the host may type: \<open>feed\<close> is its effect on the
  control block before each poll, one entry per poll.
\<close>

fun SEGGER_RTT_WaitKey :: "rtt_cb \<Rightarrow> (rtt_cb \<Rightarrow> rtt_cb) list \<Rightarrow> (rtt_cb \<times> int) option" where
  "SEGGER_RTT_WaitKey cb [] = None"
| "SEGGER_RTT_WaitKey cb (feed # feeds) =
     (case SEGGER_RTT_GetKey (feed cb) of None \<Rightarrow> None
      | Some (cb', r) \<Rightarrow> if r < 0 then SEGGER_RTT_WaitKey cb' feeds else Some (cb', r))"

definition SEGGER_RTT_HasKey :: "rtt_cb \<Rightarrow> int option" where
  "SEGGER_RTT_HasKey cb0 =
     (let cb = Init cb0 in
      if \<not> 0 < length (aDown cb) then None
      else if RdOff (aDown cb ! 0) \<noteq> WrOff (aDown cb ! 0) then Some 1 else Some 0)"

section \<open>Configuration\<close>

definition config_ring :: "nat \<Rightarrow> string option \<Rightarrow> u8 list \<Rightarrow> int \<Rightarrow> int \<Rightarrow> ring_buffer \<Rightarrow> ring_buffer" where
  "config_ring b name buf bsize flags r =
     (let r1 = (if b > 0 then r\<lparr>sName := name, pBuffer := buf, SizeOfBuffer := bsize, RdOff := 0, WrOff := 0\<rparr>
                else r)
      in r1\<lparr>Flags := flags\<rparr>)"

definition SEGGER_RTT_ConfigUpBuffer ::
    "rtt_cb \<Rightarrow> nat \<Rightarrow> string option \<Rightarrow> u8 list \<Rightarrow> int \<Rightarrow> int \<Rightarrow> rtt_cb \<times> int" where
  "SEGGER_RTT_ConfigUpBuffer cb0 b name buf bsize flags =
     (let cb = Init cb0 in
      if int b < wrap_u32 (MaxNumUpBuffers cb) then
        (cb\<lparr>aUp := (aUp cb)[b := config_ring b name buf bsize flags (aUp cb ! b)]\<rparr>, 0)
      else (cb, - 1))"

definition SEGGER_RTT_ConfigDownBuffer ::
    "rtt_cb \<Rightarrow> nat \<Rightarrow> string option \<Rightarrow> u8 list \<Rightarrow> int \<Rightarrow> int \<Rightarrow> rtt_cb \<times> int" where
  "SEGGER_RTT_ConfigDownBuffer cb0 b name buf bsize flags =
     (let cb = Init cb0 in
      if int b < wrap_u32 (MaxNumDownBuffers cb) then
        (cb\<lparr>aDown := (aDown cb)[b := config_ring b name buf bsize flags (aDown cb ! b)]\<rparr>, 0)
      else (cb, - 1))"

definition SEGGER_RTT_Init :: "rtt_cb \<Rightarrow> rtt_cb" where
  "SEGGER_RTT_Init cb = Init cb"

section \<open>Virtual terminals\<close>

text \<open>The second byte of the escape sequence for a terminal number below 16.\<close>

definition SEGGER_RTT_SetTerminal :: "rtt_cb \<Rightarrow> u8 \<Rightarrow> rtt_cb option" where
  "SEGGER_RTT_SetTerminal cb t =
     (if t < 10 then
        map_option fst (SEGGER_RTT_Write (cb\<lparr>ActiveTerminal := t\<rparr>) 0 [0xFF, 48 + t] 2)
      else if t < 16 then
        map_option fst (SEGGER_RTT_Write (cb\<lparr>ActiveTerminal := t\<rparr>) 0 [0xFF, 65 + (t - 10)] 2)
      else Some cb)"

definition SEGGER_RTT_TerminalOut :: "rtt_cb \<Rightarrow> u8 \<Rightarrow> u8 list option \<Rightarrow> (rtt_cb \<times> int) option" where
  "SEGGER_RTT_TerminalOut cb t s =
     (if \<not> t < 16 then Some (cb, - 1)
      else do {
        (cb1, _) \<leftarrow> SEGGER_RTT_Write cb 0 [0xFF, if t < 10 then 48 + t else 65 + (t - 10)] 2;
        (cb2, r) \<leftarrow> SEGGER_RTT_WriteString cb1 0 s;
        (cb3, _) \<leftarrow> SEGGER_RTT_Write cb2 0
          [0xFF, if t < 10 then 48 + ActiveTerminal cb2 else 65 + (ActiveTerminal cb2 - 10)] 2;
        Some (cb3, r)
      })"

section \<open>Interfaces\<close>

text \<open>
  What a producer of bytes relies on: a write is accepted up to a prefix, which is appended to the
  stream of the channel and leaves the state good for the next write.
\<close>

locale byte_sink =
  fixes good :: "'s \<Rightarrow> bool" and sent :: "'s \<Rightarrow> u8 list"
    and wr :: "'s \<Rightarrow> u8 list \<Rightarrow> int \<Rightarrow> ('s \<times> int) option"
  assumes wr_stream: "good s \<Longrightarrow> 0 \<le> n \<Longrightarrow> n < 2 ^ 31 \<Longrightarrow> n \<le> int (length bs) \<Longrightarrow> wr s bs n = Some (s', m) \<Longrightarrow>
    good s' \<and> 0 \<le> m \<and> m \<le> n \<and> sent s' = sent s @ take (nat m) bs"
begin

lemma wr_all:
  assumes "good s" and "0 \<le> n" and "n < 2 ^ 31" and "n = int (length bs)" and "wr s bs n = Some (s', n)"
  shows "good s' \<and> sent s' = sent s @ bs"
  using wr_stream [OF assms(1-3) _ assms(5)] assms(4) by simp

lemma wr_extends:
  assumes "good s" and "0 \<le> n" and "n < 2 ^ 31" and "n \<le> int (length bs)" and "wr s bs n = Some (s', m)"
  shows "\<exists>ys. sent s' = sent s @ ys"
  using wr_stream [OF assms] by blast

end

text \<open>The channel a producer writes to, with the control block's \<open>SEGGER_RTT_Write\<close>.\<close>

interpretation up0: byte_sink "cb_ok b" "up_sent b" "\<lambda>cb. SEGGER_RTT_Write cb b" for b
  by unfold_locales (auto dest: rtt_write_stream)

text \<open>
  A sink that takes everything while it has credit, and uses up at most one unit of it per byte. A
  channel in the blocking mode is one: its credit is the number of moves left in which the host takes
  at least a byte.
\<close>

locale live_sink = byte_sink good sent wr
  for good :: "'s \<Rightarrow> bool" and sent :: "'s \<Rightarrow> u8 list" and wr +
  fixes credit :: "'s \<Rightarrow> nat"
  assumes wr_live: "good s \<Longrightarrow> 0 \<le> n \<Longrightarrow> n < 2 ^ 31 \<Longrightarrow> n \<le> int (length bs) \<Longrightarrow> nat n \<le> credit s \<Longrightarrow>
    \<exists>s'. wr s bs n = Some (s', n) \<and> credit s \<le> credit s' + nat n"

definition up_blocking :: "nat \<Rightarrow> rtt_cb \<Rightarrow> bool" where
  "up_blocking b cb \<longleftrightarrow> cb_ok b cb \<and> rb_mode (aUp cb ! b) = MODE_BLOCK_IF_FIFO_FULL"

lemma rtt_write_keeps_blocking:
  assumes "up_blocking b cb" and "0 \<le> n" and "n < 2 ^ 31" and "n \<le> int (length bs)"
    and "SEGGER_RTT_Write cb b bs n = Some (cb', m)"
  shows "up_blocking b cb'"
  using rtt_write_stream [OF assms(5) _ assms(2-4)] assms(1)
  by (simp add: up_blocking_def up_frame_def rb_mode_def)

interpretation upb: live_sink "up_blocking b" "up_sent b" "\<lambda>cb. SEGGER_RTT_Write cb b" live_moves for b
proof unfold_locales
  fix s :: rtt_cb and n and bs :: "u8 list" and s' m
  assume "up_blocking b s" "0 \<le> n" "n < 2 ^ 31" "n \<le> int (length bs)" "SEGGER_RTT_Write s b bs n = Some (s', m)"
  then show "up_blocking b s' \<and> 0 \<le> m \<and> m \<le> n \<and> up_sent b s' = up_sent b s @ take (nat m) bs"
    using rtt_write_keeps_blocking [of b s n bs s' m] rtt_write_stream [of s b bs n s' m]
    by (simp add: up_blocking_def)
next
  fix s :: rtt_cb and n and bs :: "u8 list"
  assume "up_blocking b s" "0 \<le> n" "n < 2 ^ 31" "n \<le> int (length bs)" "nat n \<le> live_moves s"
  then show "\<exists>s'. SEGGER_RTT_Write s b bs n = Some (s', n) \<and> live_moves s \<le> live_moves s' + nat n"
    using rtt_write_blocking_live [of b s n bs] by (simp add: up_blocking_def)
qed

text \<open>
  What a consumer of bytes relies on: a read delivers the longest prefix of the pending bytes that
  fits, and removes exactly that prefix.
\<close>

locale byte_source =
  fixes good :: "'s \<Rightarrow> bool" and pending :: "'s \<Rightarrow> u8 list"
    and rd :: "'s \<Rightarrow> u8 list \<Rightarrow> int \<Rightarrow> (u8 list \<times> 's \<times> int) option"
  assumes rd_prefix: "good s \<Longrightarrow> 0 \<le> n \<Longrightarrow> n < 2 ^ 31 \<Longrightarrow> n \<le> int (length dst) \<Longrightarrow>
    \<exists>s'. rd s dst n = Some (take (min (nat n) (length (pending s))) (pending s) @
                            drop (min (nat n) (length (pending s))) dst, s',
                            int (min (nat n) (length (pending s)))) \<and>
         good s' \<and> pending s' = drop (min (nat n) (length (pending s))) (pending s)"
begin

lemma rd_one:
  assumes "good s" and "pending s = c # cs"
  shows "\<exists>s'. rd s [x] 1 = Some ([c], s', 1) \<and> good s' \<and> pending s' = cs"
  using rd_prefix [OF assms(1), of 1 "[x]"] assms(2) by auto

lemma rd_none:
  assumes "good s" and "pending s = []"
  shows "\<exists>s'. rd s [x] 1 = Some ([x], s', 0) \<and> good s' \<and> pending s' = []"
  using rd_prefix [OF assms(1), of 1 "[x]"] assms(2) by auto

end

definition down_ok :: "nat \<Rightarrow> rtt_cb \<Rightarrow> bool" where
  "down_ok b cb \<longleftrightarrow> b < length (aDown cb) \<and> ring_ok (aDown cb ! b)"

definition down_pending :: "nat \<Rightarrow> rtt_cb \<Rightarrow> u8 list" where
  "down_pending b cb = ring_content (aDown cb ! b)"

lemma rtt_read_prefix:
  assumes "down_ok b cb" and "0 \<le> n" and "n < 2 ^ 31" and "n \<le> int (length dst)"
  defines "m \<equiv> min (nat n) (length (down_pending b cb))"
  shows "\<exists>r. SEGGER_RTT_Read cb b dst n =
           Some (take m (down_pending b cb) @ drop m dst, cb\<lparr>aDown := (aDown cb)[b := r]\<rparr>, int m) \<and>
         ring_ok r \<and> ring_content r = drop m (down_pending b cb)"
  using rb_read_content [of "aDown cb ! b" n dst] assms
  by (auto simp: SEGGER_RTT_Read_def down_ok_def down_pending_def)

interpretation down0: byte_source "down_ok b" "down_pending b" "\<lambda>cb. SEGGER_RTT_Read cb b" for b
proof
  fix s :: rtt_cb and n and dst :: "u8 list"
  assume a: "down_ok b s" "0 \<le> n" "n < 2 ^ 31" "n \<le> int (length dst)"
  let ?m = "min (nat n) (length (down_pending b s))"
  obtain r where "SEGGER_RTT_Read s b dst n =
      Some (take ?m (down_pending b s) @ drop ?m dst, s\<lparr>aDown := (aDown s)[b := r]\<rparr>, int ?m)"
    "ring_ok r" "ring_content r = drop ?m (down_pending b s)"
    using rtt_read_prefix [OF a] by blast
  moreover have "b < length (aDown s)" using a(1) by (simp add: down_ok_def)
  ultimately show "\<exists>s'. SEGGER_RTT_Read s b dst n =
      Some (take ?m (down_pending b s) @ drop ?m dst, s', int ?m) \<and>
      down_ok b s' \<and> down_pending b s' = drop ?m (down_pending b s)"
    by (intro exI [of _ "s\<lparr>aDown := (aDown s)[b := r]\<rparr>"])
       (simp add: down_ok_def down_pending_def)
qed

section \<open>Keys over the byte source\<close>

lemma GetKey_pending:
  assumes "down_ok 0 cb"
  shows "\<exists>cb'. SEGGER_RTT_GetKey cb = Some (cb', case down_pending 0 cb of [] \<Rightarrow> - 1 | c # _ \<Rightarrow> uint c) \<and>
           down_ok 0 cb' \<and> down_pending 0 cb' = tl (down_pending 0 cb)"
proof (cases "down_pending 0 cb")
  case Nil
  then show ?thesis using down0.rd_none [OF assms Nil, of 0] by (auto simp: SEGGER_RTT_GetKey_def)
next
  case (Cons c cs)
  then show ?thesis using down0.rd_one [OF assms Cons, of 0] by (auto simp: SEGGER_RTT_GetKey_def)
qed

lemma HasKey_pending:
  assumes "down_ok 0 cb"
  shows "SEGGER_RTT_HasKey cb = Some (if down_pending 0 cb = [] then 0 else 1)"
proof -
  have ok: "ring_ok (aDown cb ! 0)" and len: "0 < length (aDown cb)" using assms by (simp_all add: down_ok_def)
  have "down_pending 0 cb = [] \<longleftrightarrow> int (ring_used (aDown cb ! 0)) = 0"
    using length_ring_content [of "aDown cb ! 0"] by (auto simp: down_pending_def simp flip: length_0_conv)
  also have "\<dots> \<longleftrightarrow> RdOff (aDown cb ! 0) = WrOff (aDown cb ! 0)"
    using ring_content_linear(2) [OF ok] ok by (auto simp: ring_ok_def split: if_splits)
  finally show ?thesis using len by (auto simp: SEGGER_RTT_HasKey_def)
qed

lemma GetKey_empty:
  assumes "down_ok 0 cb" and "down_pending 0 cb = []"
  shows "SEGGER_RTT_GetKey cb = Some (cb, - 1)"
proof -
  have "0 < length (aDown cb)" "RdOff (aDown cb ! 0) = WrOff (aDown cb ! 0)"
    using HasKey_pending [OF assms(1)] assms by (auto simp: down_ok_def SEGGER_RTT_HasKey_def split: if_splits)
  then show ?thesis
    by (simp add: SEGGER_RTT_GetKey_def SEGGER_RTT_Read_def rb_read_def Let_def wrap_s32_def)
qed

section \<open>Strings and terminals over a blocking channel\<close>

text \<open>The digit of a terminal number: \<open>'0'..'9'\<close>, \<open>'A'..'F'\<close>.\<close>

definition term_char :: "u8 \<Rightarrow> u8" where
  "term_char t = (if t < 10 then 48 + t else 65 + (t - 10))"

lemma up_blocking_write:
  assumes "up_blocking b cb" and "length bs \<le> live_moves cb" and "int (length bs) < 2 ^ 31"
    and "n = int (length bs)"
  shows "\<exists>cb'. SEGGER_RTT_Write cb b (bs @ junk) n = Some (cb', n) \<and>
           up_blocking b cb' \<and> up_sent b cb' = up_sent b cb @ bs \<and> ActiveTerminal cb' = ActiveTerminal cb \<and>
           live_moves cb \<le> live_moves cb' + length bs"
proof -
  have "0 \<le> n" "n < 2 ^ 31" "n \<le> int (length (bs @ junk))" "nat n \<le> live_moves cb" using assms by simp_all
  from upb.wr_live [OF assms(1) this] obtain cb' where
    w: "SEGGER_RTT_Write cb b (bs @ junk) n = Some (cb', n)" "live_moves cb \<le> live_moves cb' + nat n" by blast
  show ?thesis
    using w upb.wr_stream [OF assms(1) \<open>0 \<le> n\<close> \<open>n < 2 ^ 31\<close> _ w(1)] assms
      rtt_write_stream [OF w(1), unfolded up_frame_def] by (auto simp: up_blocking_def)
qed

lemma up_blocking_write_two:
  assumes "up_blocking b cb" and "2 \<le> live_moves cb"
  obtains cb' where "SEGGER_RTT_Write cb b [x, y] 2 = Some (cb', 2)" and "up_blocking b cb'"
    and "up_sent b cb' = up_sent b cb @ [x, y]" and "ActiveTerminal cb' = ActiveTerminal cb"
    and "live_moves cb \<le> live_moves cb' + 2"
proof -
  have "length [x, y] \<le> live_moves cb" "int (length [x, y]) < 2 ^ 31" "2 = int (length [x, y])"
    using assms(2) by simp_all
  from up_blocking_write [OF assms(1) this, of "[]"] that show thesis by auto
qed

lemma WriteString_blocking:
  assumes "up_blocking b cb" and "0 \<notin> set cs" and "length cs \<le> live_moves cb" and "int (length cs) < 2 ^ 31"
  shows "\<exists>cb'. SEGGER_RTT_WriteString cb b (Some (cs @ 0 # junk)) = Some (cb', int (length cs)) \<and>
           up_blocking b cb' \<and> up_sent b cb' = up_sent b cb @ cs \<and> ActiveTerminal cb' = ActiveTerminal cb \<and>
           live_moves cb \<le> live_moves cb' + length cs"
  using up_blocking_write [OF assms(1,3,4) refl, of "0 # junk"] assms(2,4)
  by (simp add: SEGGER_RTT_WriteString_def rtt_strlen_def rtt_strlen_from_terminated wrap_u32_id)

lemma TerminalOut_blocking:
  assumes ok: "up_blocking 0 cb" and t: "t < 16" and cs: "0 \<notin> set cs" and len: "int (length cs) < 2 ^ 31"
    and live: "length cs + 4 \<le> live_moves cb"
  shows "\<exists>cb'. SEGGER_RTT_TerminalOut cb t (Some (cs @ 0 # junk)) = Some (cb', int (length cs)) \<and>
           up_sent 0 cb' = up_sent 0 cb @ [0xFF, term_char t] @ cs @
             [0xFF, if t < 10 then 48 + ActiveTerminal cb else 65 + (ActiveTerminal cb - 10)] \<and>
           ActiveTerminal cb' = ActiveTerminal cb"
proof -
  obtain cb1 where 1: "SEGGER_RTT_Write cb 0 [0xFF, term_char t] 2 = Some (cb1, 2)" "up_blocking 0 cb1"
    "up_sent 0 cb1 = up_sent 0 cb @ [0xFF, term_char t]" "ActiveTerminal cb1 = ActiveTerminal cb"
    "live_moves cb \<le> live_moves cb1 + 2"
    by (rule up_blocking_write_two [OF ok, of "0xFF" "term_char t"]) (use live in simp)
  obtain cb2 where 2: "SEGGER_RTT_WriteString cb1 0 (Some (cs @ 0 # junk)) = Some (cb2, int (length cs))"
    "up_blocking 0 cb2" "up_sent 0 cb2 = up_sent 0 cb1 @ cs" "ActiveTerminal cb2 = ActiveTerminal cb"
    "live_moves cb1 \<le> live_moves cb2 + length cs"
    using WriteString_blocking [OF 1(2) cs _ len, of junk] live 1(4,5) by fastforce
  let ?r = "if t < 10 then 48 + ActiveTerminal cb else 65 + (ActiveTerminal cb - 10)"
  obtain cb3 where 3: "SEGGER_RTT_Write cb2 0 [0xFF, ?r] 2 = Some (cb3, 2)"
    "up_sent 0 cb3 = up_sent 0 cb2 @ [0xFF, ?r]" "ActiveTerminal cb3 = ActiveTerminal cb"
    by (rule up_blocking_write_two [OF 2(2), of "0xFF" ?r]) (use live 1(5) 2(4,5) in simp_all)
  have "\<not> \<not> t < 16" using t by simp
  from 1(1) 2(1) 3(1) 2(4) have "SEGGER_RTT_TerminalOut cb t (Some (cs @ 0 # junk)) = Some (cb3, int (length cs))"
    unfolding SEGGER_RTT_TerminalOut_def if_not_P [OF \<open>\<not> \<not> t < 16\<close>] term_char_def
    by (cases "t < 10") simp_all
  then show ?thesis using 1 2 3 by simp
qed

lemma term_restore_iff:
  fixes t a :: u8
  shows "(if t < 10 then 48 + a else 65 + (a - 10)) = term_char a \<longleftrightarrow> (t < 10 \<longleftrightarrow> a < 10)"
proof -
  have e: "65 + (a - 10) = (48 + a) + 7" by simp
  have n: "(48 + a) + 7 \<noteq> 48 + a" "48 + a \<noteq> (48 + a) + 7"
    unfolding add_cancel_left_right add_cancel_right_right by simp_all
  show ?thesis unfolding term_char_def e using n by (simp del: add.assoc)
qed

section \<open>Properties\<close>

definition demo_down :: "rtt_cb" where
  "demo_down = (SEGGER_RTT0 [])\<lparr>aDown :=
     [\<lparr>sName = None, pBuffer = [13, 14, 15, 10, 11, 12], SizeOfBuffer = 6, WrOff = 2, RdOff = 4, Flags = 0\<rparr>]\<rparr>"

lemma demo_down_ok: "down_ok 0 demo_down" and demo_down_pending: "down_pending 0 demo_down = [11, 12, 13, 14]"
  by (simp add: down_ok_def ring_ok_def demo_down_def, code_simp)

text \<open>C37: \<open>SEGGER_RTT_Read\<close> delivers the longest prefix of the pending bytes that fits into the caller's
  buffer, across the wrap-around of the ring, leaves the rest of the caller's buffer and of the
  pending bytes, and returns the count.\<close>

theorem rtt_read_delivers:
  assumes "down_ok b cb" and "int (length dst) < 2 ^ 31"
  defines "m \<equiv> min (length dst) (length (down_pending b cb))"
  shows "\<exists>cb'. SEGGER_RTT_Read cb b dst (int (length dst)) =
           Some (take m (down_pending b cb) @ drop m dst, cb', int m) \<and>
         down_ok b cb' \<and> down_pending b cb' = drop m (down_pending b cb) \<and>
         aUp cb' = aUp cb \<and> host_rx cb' = host_rx cb"
proof -
  obtain r where "SEGGER_RTT_Read cb b dst (int (length dst)) =
      Some (take m (down_pending b cb) @ drop m dst, cb\<lparr>aDown := (aDown cb)[b := r]\<rparr>, int m)"
    "ring_ok r" "ring_content r = drop m (down_pending b cb)"
    using rtt_read_prefix [OF assms(1) _ assms(2), of dst] by (auto simp: m_def)
  moreover have "b < length (aDown cb)" using assms(1) by (simp add: down_ok_def)
  ultimately show ?thesis
    by (intro exI [of _ "cb\<lparr>aDown := (aDown cb)[b := r]\<rparr>"]) (simp add: down_ok_def down_pending_def)
qed

lemma rtt_read_delivers_witness:
  "\<exists>cb'. SEGGER_RTT_Read demo_down 0 [0, 0, 0] 3 = Some ([11, 12, 13], cb', 3) \<and> down_pending 0 cb' = [14]"
  using rtt_read_delivers [OF demo_down_ok, of "[0, 0, 0]"] by (auto simp: demo_down_pending)

text \<open>The key functions agree. \<open>SEGGER_RTT_HasKey\<close> tells whether \<open>SEGGER_RTT_GetKey\<close> will return a
  key; \<open>SEGGER_RTT_WaitKey\<close> keeps polling while no key is pending and returns the first byte the host
  types, which it removes, leaving what follows it.\<close>

theorem rtt_wait_key:
  assumes "down_ok 0 cb" and "down_pending 0 cb = []"
    and "down_ok 0 (f cb)" and "down_pending 0 (f cb) = k # ks"
  shows "SEGGER_RTT_WaitKey cb (replicate polls id) = None \<and>
         SEGGER_RTT_HasKey cb = Some 0 \<and> SEGGER_RTT_HasKey (f cb) = Some 1 \<and>
         (\<exists>cb'. SEGGER_RTT_WaitKey cb (replicate polls id @ f # feeds) = Some (cb', uint k) \<and>
                down_ok 0 cb' \<and> down_pending 0 cb' = ks)"
proof (intro conjI)
  note idle = GetKey_empty [OF assms(1,2)]
  show "SEGGER_RTT_WaitKey cb (replicate polls id) = None" by (induction polls) (simp_all add: idle)
  obtain cb' where "SEGGER_RTT_GetKey (f cb) = Some (cb', uint k)" "down_ok 0 cb'" "down_pending 0 cb' = ks"
    using GetKey_pending [OF assms(3)] assms(4) by auto
  moreover from this have "SEGGER_RTT_WaitKey cb (replicate polls id @ f # feeds) = Some (cb', uint k)"
    by (induction polls) (simp_all add: idle)
  ultimately show "\<exists>cb'. SEGGER_RTT_WaitKey cb (replicate polls id @ f # feeds) = Some (cb', uint k) \<and>
                down_ok 0 cb' \<and> down_pending 0 cb' = ks" by blast
qed (simp_all add: HasKey_pending assms)

lemma rtt_wait_key_witness:
  "\<exists>cb'. SEGGER_RTT_WaitKey (SEGGER_RTT0 []) (replicate 2 id @ [\<lambda>_. demo_down]) = Some (cb', 11) \<and>
         down_pending 0 cb' = [12, 13, 14]"
proof -
  have "down_ok 0 (SEGGER_RTT0 [])"
    by (simp add: down_ok_def ring_ok_def SEGGER_RTT0_def BUFFER_SIZE_DOWN_def)
  moreover have "down_pending 0 (SEGGER_RTT0 []) = []"
    by (simp add: down_pending_def ring_content_def ring_used_def SEGGER_RTT0_def)
  ultimately show ?thesis
    using rtt_wait_key [of "SEGGER_RTT0 []" "\<lambda>_. demo_down" 11 "[12, 13, 14]" 2 "[]"]
      demo_down_ok demo_down_pending by auto
qed

text \<open>Configuring an up-buffer other than 0 with a buffer of two bytes or more makes it an empty
  channel that a write can use; index 0 keeps its ring and content and only takes the flags; an index
  outside the table is refused and nothing changes.\<close>

theorem rtt_config_up:
  assumes "length (aUp cb) = nat (MaxNumUpBuffers cb)" and "0 \<le> MaxNumUpBuffers cb" and "MaxNumUpBuffers cb < 2 ^ 31"
    and "2 \<le> length buf" and "int (length buf) < 2 ^ 31" and "SEGGER_RTT_ConfigUpBuffer cb b name buf (int (length buf)) flags = (cb', r)"
  shows "(if int b < MaxNumUpBuffers cb then r = 0 \<and>
            Flags (aUp cb' ! b) = flags \<and> aDown cb' = aDown cb \<and> (\<forall>c. c \<noteq> b \<longrightarrow> aUp cb' ! c = aUp cb ! c) \<and>
            (if b = 0 then ring_content (aUp cb' ! 0) = ring_content (aUp cb ! 0)
             else cb_ok b cb' \<and> ring_content (aUp cb' ! b) = [] \<and> SizeOfBuffer (aUp cb' ! b) = int (length buf))
          else r = - 1 \<and> cb' = cb)"
proof (cases "int b < MaxNumUpBuffers cb")
  case True
  then have "cb' = cb\<lparr>aUp := (aUp cb)[b := config_ring b name buf (int (length buf)) flags (aUp cb ! b)]\<rparr> \<and> r = 0"
    "b < length (aUp cb)"
    using assms by (auto simp: SEGGER_RTT_ConfigUpBuffer_def wrap_u32_id)
  then show ?thesis using True assms(4,5)
    by (auto simp: config_ring_def cb_ok_def ring_ok_def ring_content_def ring_used_def)
next
  case False
  then show ?thesis using assms by (auto simp: SEGGER_RTT_ConfigUpBuffer_def wrap_u32_id)
qed

lemma rtt_config_up_witness:
  "cb_ok 1 (fst (SEGGER_RTT_ConfigUpBuffer (SEGGER_RTT0 []) 1 None [0, 0, 0, 0] 4 2))"
  using rtt_config_up [of "SEGGER_RTT0 []" "[0, 0, 0, 0]" 1 None 2
      "fst (SEGGER_RTT_ConfigUpBuffer (SEGGER_RTT0 []) 1 None [0, 0, 0, 0] 4 2)"
      "snd (SEGGER_RTT_ConfigUpBuffer (SEGGER_RTT0 []) 1 None [0, 0, 0, 0] 4 2)"]
  by (simp add: SEGGER_RTT0_def SEGGER_RTT_MAX_NUM_UP_BUFFERS_def)

text \<open>\<open>SEGGER_RTT_TerminalOut\<close> puts the switch to the terminal, the string and a switch back on
  channel 0 and keeps the active terminal; the switch back names the active terminal exactly when the
  active and the addressed terminal both have a decimal digit or both a letter. Otherwise the host is
  left on another terminal: from terminal 0, writing to terminal 10 ends with \<open>'7'\<close>.\<close>

theorem rtt_terminal_out:
  assumes "up_blocking 0 cb" and "t < 16" and "0 \<notin> set cs" and "int (length cs) < 2 ^ 31"
    and "length cs + 4 \<le> live_moves cb"
  shows "\<exists>cb' restore. SEGGER_RTT_TerminalOut cb t (Some (cs @ 0 # junk)) = Some (cb', int (length cs)) \<and>
           up_sent 0 cb' = up_sent 0 cb @ [0xFF, term_char t] @ cs @ [0xFF, restore] \<and>
           ActiveTerminal cb' = ActiveTerminal cb \<and>
           (restore = term_char (ActiveTerminal cb) \<longleftrightarrow> (t < 10 \<longleftrightarrow> ActiveTerminal cb < 10))"
  using TerminalOut_blocking [OF assms(1-5), of junk] term_restore_iff [of t "ActiveTerminal cb"] by blast

definition demo_term :: rtt_cb where
  "demo_term = (SEGGER_RTT0 (replicate 6 1))\<lparr>aUp :=
     [\<lparr>sName = None, pBuffer = [0, 0, 0, 0], SizeOfBuffer = 4, WrOff = 0, RdOff = 0, Flags = 2\<rparr>]\<rparr>"

lemma rtt_terminal_out_witness:
  "\<exists>cb' restore. SEGGER_RTT_TerminalOut demo_term 10 (Some [72, 105, 0]) = Some (cb', 2) \<and>
           up_sent 0 cb' = [0xFF, 65, 72, 105, 0xFF, restore] \<and> restore \<noteq> term_char 0"
proof -
  have "up_blocking 0 demo_term" "live_moves demo_term = 6" "up_sent 0 demo_term = []" "ActiveTerminal demo_term = 0"
    by (simp_all add: up_blocking_def cb_ok_def ring_ok_def demo_term_def SEGGER_RTT0_def rb_mode_def
        MODE_BLOCK_IF_FIFO_FULL_def live_moves_def up_sent_def ring_content_def ring_used_def)
  moreover have "(10 :: u8) < 16" "\<not> (10 :: u8) < 10" "(0 :: u8) < 10" "term_char 10 = 65" by (simp_all add: term_char_def)
  ultimately show ?thesis
    using rtt_terminal_out [of demo_term 10 "[72, 105]" "[]"] by auto
qed

end
