(* ===== verification/RttPrintf.thy ===== *)
theory RttPrintf
  imports RttTerminal
begin

text \<open>
  The formatted output of RTT (\<open>rtt/SEGGER_RTT_printf.c\<close>). The functions take the write operation
  of the channel as an argument (the code passes \<open>RTTBufferIndex\<close> in the descriptor and calls
  \<open>SEGGER_RTT_Write\<close>), so that their lemmas hold for every \<open>byte_sink\<close>; the last section applies
  them to the channel itself.

  The format string is the list of bytes of the object behind \<open>sFormat\<close>, its terminator included;
  reading past the object has no result. The variable arguments are a list of integers and strings;
  taking one that is missing or of the other kind has no result.
\<close>

unbundle bit_operations_syntax

section \<open>Descriptor\<close>

record printf_desc =
  pd_Buffer :: "u8 list"
  BufferSize :: int
  Cnt :: int
  ReturnValue :: int

definition SEGGER_RTT_PRINTF_BUFFER_SIZE :: int where "SEGGER_RTT_PRINTF_BUFFER_SIZE = 128"

definition FORMAT_FLAG_LEFT_JUSTIFY :: u32 where "FORMAT_FLAG_LEFT_JUSTIFY = 1"
definition FORMAT_FLAG_PAD_ZERO :: u32 where "FORMAT_FLAG_PAD_ZERO = 2"
definition FORMAT_FLAG_PRINT_SIGN :: u32 where "FORMAT_FLAG_PRINT_SIGN = 4"
definition FORMAT_FLAG_ALTERNATE :: u32 where "FORMAT_FLAG_ALTERNATE = 8"

type_synonym 's sink = "'s \<Rightarrow> u8 list \<Rightarrow> int \<Rightarrow> ('s \<times> int) option"
type_synonym 's pstate = "'s \<times> printf_desc"

abbreviation RV :: "'s pstate \<Rightarrow> int" where
  "RV st \<equiv> ReturnValue (snd st)"

definition StoreChar :: "'s sink \<Rightarrow> 's pstate \<Rightarrow> u8 \<Rightarrow> 's pstate option" where
  "StoreChar wr st c =
     (let (s, p) = st; cnt = Cnt p in
      case (if cnt + 1 \<le> BufferSize p then
              (if 0 \<le> cnt \<and> cnt < int (length (pd_Buffer p))
               then Some (p\<lparr>pd_Buffer := (pd_Buffer p)[nat cnt := c], Cnt := cnt + 1,
                            ReturnValue := ReturnValue p + 1\<rparr>)
               else None)
            else Some p) of None \<Rightarrow> None
      | Some p1 \<Rightarrow>
          (if Cnt p1 = BufferSize p1 then
             (case wr s (pd_Buffer p1) (Cnt p1) of None \<Rightarrow> None
              | Some (s', n) \<Rightarrow>
                  Some (s', if n \<noteq> Cnt p1 then p1\<lparr>ReturnValue := - 1\<rparr> else p1\<lparr>Cnt := 0\<rparr>))
           else Some (s, p1)))"

section \<open>Numbers\<close>

text \<open>
  \<open>while (Number >= Base) { Number /= Base; Width++; }\<close>. The conversions use the bases 10 and 16;
  the test \<open>1 < Base\<close> only makes the recursion total.
\<close>

function num_width :: "u32 \<Rightarrow> u32 \<Rightarrow> nat \<Rightarrow> nat" where
  "num_width Base Number w =
     (if Base \<le> Number \<and> 1 < Base then num_width Base (Number div Base) (Suc w) else w)"
  by pat_completeness auto
termination
proof (relation "measure (\<lambda>(_, n, _). unat n)")
  fix Base Number :: u32 and w :: nat
  assume "Base \<le> Number \<and> 1 < Base"
  then have "1 < unat Base" "0 < unat Number" by (simp_all add: word_less_nat_alt word_le_nat_alt)
  then show "((Base, Number div Base, Suc w), Base, Number, w) \<in> measure (\<lambda>(_, n, _). unat n)"
    by (simp add: unat_div_distrib)
qed simp

declare num_width.simps [simp del]

text \<open>
  \<open>while ((FieldWidth != 0) && (Width < FieldWidth--)) { _StoreChar(c); if (ReturnValue < 0) return; }\<close>.
  The result holds the remaining \<open>FieldWidth\<close>, and whether the caller returns.
\<close>

fun pad_loop :: "'s sink \<Rightarrow> u8 \<Rightarrow> nat \<Rightarrow> nat \<Rightarrow> 's pstate \<Rightarrow> ('s pstate \<times> nat \<times> bool) option" where
  "pad_loop wr c Width 0 st = Some (st, 0, False)"
| "pad_loop wr c Width (Suc f) st =
     (if Width < Suc f then
        (case StoreChar wr st c of None \<Rightarrow> None
         | Some st' \<Rightarrow> if RV st' < 0 then Some (st', f, True) else pad_loop wr c Width f st')
      else Some (st, f, False))"

text \<open>
  \<open>while (((v / Digit) >= Base) | (NumDigits-- > 1)) Digit *= Base;\<close> on 32-bit unsigned values: a
  \<open>Digit\<close> that has wrapped to 0 divides by zero.
\<close>

function digit_scale :: "u32 \<Rightarrow> u32 \<Rightarrow> u32 \<Rightarrow> int \<Rightarrow> u32 option" where
  "digit_scale Base v Digit NumDigits =
     (if Digit = 0 then None
      else if (Base \<le> v div Digit \<and> 1 < Base) \<or> NumDigits > 1
      then digit_scale Base v (Digit * Base) (NumDigits - 1)
      else Some Digit)"
  by pat_completeness auto
termination
proof (relation "measures [\<lambda>(_, _, _, n). nat (n - 1), \<lambda>(_, v, d, _). unat v - unat d]")
  fix Base v Digit :: u32 and NumDigits :: int
  assume d0: "Digit \<noteq> 0" and c: "(Base \<le> v div Digit \<and> 1 < Base) \<or> NumDigits > 1"
  show "((Base, v, Digit * Base, NumDigits - 1), Base, v, Digit, NumDigits)
    \<in> measures [\<lambda>(_, _, _, n). nat (n - 1), \<lambda>(_, v, d, _). unat v - unat d]"
  proof (cases "NumDigits > 1")
    case True then show ?thesis by simp
  next
    case False
    with c have b: "Base \<le> v div Digit" "1 < unat Base" by (simp_all add: word_less_nat_alt)
    have d: "0 < unat Digit" using d0 by (simp add: unat_gt_0)
    have "unat Base \<le> unat v div unat Digit" using b(1) by (simp add: word_le_nat_alt unat_div_distrib)
    then have le: "unat Digit * unat Base \<le> unat v"
      using d by (simp add: less_eq_div_iff_mult_less_eq mult.commute)
    then have "unat (Digit * Base) = unat Digit * unat Base"
      using unsigned_less [of v, where ?'a = nat] by (intro unat_mult_lem [THEN iffD1]) simp
    moreover have "unat Digit < unat Digit * unat Base" using b(2) d by simp
    with le have "unat v - unat Digit * unat Base < unat v - unat Digit" by linarith
    ultimately show ?thesis using False by auto
  qed
qed simp

declare digit_scale.simps [simp del]

definition aV2C :: "u8 list" where
  "aV2C = [48, 49, 50, 51, 52, 53, 54, 55, 56, 57, 65, 66, 67, 68, 69, 70]"

text \<open>The loop \<open>do \<dots> while (Digit)\<close> that stores the digits.\<close>

function digit_loop :: "'s sink \<Rightarrow> u32 \<Rightarrow> u32 \<Rightarrow> u32 \<Rightarrow> 's pstate \<Rightarrow> 's pstate option" where
  "digit_loop wr Base v Digit st =
     (if Digit = 0 \<or> \<not> 1 < Base then None
      else
        (let Div = v div Digit; v' = v - Div * Digit in
         if \<not> unat Div < length aV2C then None
         else case StoreChar wr st (aV2C ! unat Div) of None \<Rightarrow> None
           | Some st' \<Rightarrow>
               (if RV st' < 0 then Some st'
                else if Digit div Base = 0 then Some st'
                else digit_loop wr Base v' (Digit div Base) st')))"
  by pat_completeness auto
termination
proof (relation "measure (\<lambda>(_, _, _, d, _). unat d)")
  fix wr :: "'s sink" and Base v Digit x xa :: u32 and st x2 :: "'s pstate"
  assume "\<not> (Digit = 0 \<or> \<not> 1 < Base)"
  then have "1 < unat Base" "0 < unat Digit" by (simp_all add: word_less_nat_alt unat_gt_0)
  then show "((wr, Base, xa, Digit div Base, x2), wr, Base, v, Digit, st) \<in> measure (\<lambda>(_, _, _, d, _). unat d)"
    by (simp add: unat_div_distrib)
qed simp

declare digit_loop.simps [simp del]

definition PrintUnsigned ::
    "'s sink \<Rightarrow> 's pstate \<Rightarrow> u32 \<Rightarrow> u32 \<Rightarrow> int \<Rightarrow> nat \<Rightarrow> u32 \<Rightarrow> 's pstate option" where
  "PrintUnsigned wr st v Base NumDigits FieldWidth FormatFlags =
     (let w0 = num_width Base v 1;
          Width = (if wrap_u32 NumDigits > int w0 then nat (wrap_u32 NumDigits) else w0)
      in case (if FormatFlags AND FORMAT_FLAG_LEFT_JUSTIFY = 0 \<and> FieldWidth \<noteq> 0 then
                 pad_loop wr (if FormatFlags AND FORMAT_FLAG_PAD_ZERO = FORMAT_FLAG_PAD_ZERO \<and> NumDigits = 0
                              then 48 else 32) Width FieldWidth st
               else Some (st, FieldWidth, False)) of None \<Rightarrow> None
         | Some (st1, fw1, ret) \<Rightarrow>
             if ret then Some st1
             else case digit_scale Base v 1 NumDigits of None \<Rightarrow> None
             | Some Digit \<Rightarrow>
                 (case digit_loop wr Base v Digit st1 of None \<Rightarrow> None
                  | Some st2 \<Rightarrow>
                      (if FormatFlags AND FORMAT_FLAG_LEFT_JUSTIFY = FORMAT_FLAG_LEFT_JUSTIFY \<and> fw1 \<noteq> 0
                       then map_option fst (pad_loop wr 32 Width fw1 st2)
                       else Some st2)))"

definition PrintInt ::
    "'s sink \<Rightarrow> 's pstate \<Rightarrow> int \<Rightarrow> u32 \<Rightarrow> int \<Rightarrow> nat \<Rightarrow> u32 \<Rightarrow> 's pstate option" where
  "PrintInt wr st v Base NumDigits FieldWidth0 FormatFlags =
     (let Number = (word_of_int (if v < 0 then - v else v) :: u32);
          w0 = num_width Base Number 1;
          Width = (if NumDigits > int w0 then nat NumDigits else w0);
          sign = (FormatFlags AND FORMAT_FLAG_PRINT_SIGN = FORMAT_FLAG_PRINT_SIGN);
          zero = (FormatFlags AND FORMAT_FLAG_PAD_ZERO = FORMAT_FLAG_PAD_ZERO);
          left = (FormatFlags AND FORMAT_FLAG_LEFT_JUSTIFY = FORMAT_FLAG_LEFT_JUSTIFY);
          FieldWidth = (if FieldWidth0 > 0 \<and> (v < 0 \<or> sign) then FieldWidth0 - 1 else FieldWidth0)
      in case (if (\<not> zero \<or> NumDigits \<noteq> 0) \<and> \<not> left \<and> FieldWidth \<noteq> 0
               then pad_loop wr 32 Width FieldWidth st else Some (st, FieldWidth, False)) of None \<Rightarrow> None
         | Some (st1, fw1, ret1) \<Rightarrow>
             if ret1 then Some st1
             else case (if v < 0 then StoreChar wr st1 45 else if sign then StoreChar wr st1 43 else Some st1) of
               None \<Rightarrow> None
             | Some st2 \<Rightarrow>
                 if (v < 0 \<or> sign) \<and> RV st2 < 0 then Some st2
                 else case (if zero \<and> \<not> left \<and> NumDigits = 0 \<and> fw1 \<noteq> 0
                            then pad_loop wr 48 Width fw1 st2 else Some (st2, fw1, False)) of None \<Rightarrow> None
                   | Some (st3, fw2, ret2) \<Rightarrow>
                       if ret2 then Some st3
                       else PrintUnsigned wr st3 (word_of_int (if v < 0 then wrap_s32 (- v) else v)) Base
                              (wrap_s32 NumDigits) fw2 FormatFlags)"

section \<open>Format strings\<close>

datatype varg = VInt int | VStr "u8 list"

text \<open>Lines 292--302: the flags. Bytes: \<open>-\<close> 45, \<open>0\<close> 48, \<open>+\<close> 43, \<open>#\<close> 35.\<close>

fun parse_flags :: "u8 list \<Rightarrow> u32 \<Rightarrow> (u32 \<times> u8 list) option" where
  "parse_flags [] fl = None"
| "parse_flags (c # cs) fl =
     (if c = 45 then parse_flags cs (fl OR FORMAT_FLAG_LEFT_JUSTIFY)
      else if c = 48 then parse_flags cs (fl OR FORMAT_FLAG_PAD_ZERO)
      else if c = 43 then parse_flags cs (fl OR FORMAT_FLAG_PRINT_SIGN)
      else if c = 35 then parse_flags cs (fl OR FORMAT_FLAG_ALTERNATE)
      else Some (fl, c # cs))"

text \<open>Lines 307--315 and 324--331: a decimal number in an \<open>unsigned\<close>.\<close>

fun parse_number :: "u8 list \<Rightarrow> nat \<Rightarrow> (nat \<times> u8 list) option" where
  "parse_number [] acc = None"
| "parse_number (c # cs) acc =
     (if c < 48 \<or> c > 57 then Some (acc, c # cs)
      else parse_number cs ((acc * 10 + (unat c - 48)) mod 2 ^ 32))"

text \<open>Lines 336--343: \<open>c\<close> holds \<open>*sFormat\<close>, and each \<open>l\<close> or \<open>h\<close> reloads it with \<open>*sFormat++\<close>.\<close>

fun parse_length :: "u8 \<Rightarrow> u8 list \<Rightarrow> (u8 \<times> u8 list) option" where
  "parse_length c [] = (if c = 108 \<or> c = 104 then None else Some (c, []))"
| "parse_length c (d # ds) = (if c = 108 \<or> c = 104 then parse_length d ds else Some (c, d # ds))"

text \<open>Lines 292--343: flags, field width, precision, specifier, and the rest of the format.\<close>

definition parse_spec :: "u8 list \<Rightarrow> (u32 \<times> nat \<times> nat \<times> u8 \<times> u8 list) option" where
  "parse_spec fmt =
     (case parse_flags fmt 0 of None \<Rightarrow> None
      | Some (fl, f1) \<Rightarrow>
     (case parse_number f1 0 of None \<Rightarrow> None
      | Some (fw, f2) \<Rightarrow>
     (case (case f2 of [] \<Rightarrow> None | c # cs \<Rightarrow> if c = 46 then parse_number cs 0 else Some (0, f2)) of
        None \<Rightarrow> None
      | Some (nd, f3) \<Rightarrow>
     (case f3 of [] \<Rightarrow> None
      | c # _ \<Rightarrow> (case parse_length c f3 of None \<Rightarrow> None
                 | Some (c', f4) \<Rightarrow> Some (fl, fw, nd, c', f4))))))"

fun StoreString :: "'s sink \<Rightarrow> 's pstate \<Rightarrow> u8 list \<Rightarrow> 's pstate option" where
  "StoreString wr st [] = None"
| "StoreString wr st (c # cs) =
     (if c = 0 then Some st
      else case StoreChar wr st c of None \<Rightarrow> None
        | Some st' \<Rightarrow> if RV st' \<ge> 0 then StoreString wr st' cs else Some st')"

definition va_int :: "varg list \<Rightarrow> (int \<times> varg list) option" where
  "va_int args = (case args of VInt v # rest \<Rightarrow> Some (v, rest) | _ \<Rightarrow> None)"

definition va_str :: "varg list \<Rightarrow> (u8 list \<times> varg list) option" where
  "va_str args = (case args of VStr v # rest \<Rightarrow> Some (v, rest) | _ \<Rightarrow> None)"

text \<open>Lines 347--387: the specifiers \<open>c\<close> 99, \<open>d\<close> 100, \<open>u\<close> 117, \<open>x\<close> 120, \<open>X\<close> 88, \<open>s\<close> 115, \<open>p\<close> 112, \<open>%\<close> 37.\<close>

definition convert ::
    "'s sink \<Rightarrow> 's pstate \<Rightarrow> u8 \<Rightarrow> nat \<Rightarrow> nat \<Rightarrow> u32 \<Rightarrow> varg list \<Rightarrow> ('s pstate \<times> varg list) option" where
  "convert wr st c nd fw fl args =
     (if c = 99 then do { (v, args') \<leftarrow> va_int args; st' \<leftarrow> StoreChar wr st (word_of_int v); Some (st', args') }
      else if c = 100 then
        do { (v, args') \<leftarrow> va_int args; st' \<leftarrow> PrintInt wr st v 10 (int nd) fw fl; Some (st', args') }
      else if c = 117 then
        do { (v, args') \<leftarrow> va_int args;
             st' \<leftarrow> PrintUnsigned wr st (word_of_int v) 10 (wrap_s32 (int nd)) fw fl; Some (st', args') }
      else if c = 120 \<or> c = 88 then
        do { (v, args') \<leftarrow> va_int args;
             st' \<leftarrow> PrintUnsigned wr st (word_of_int v) 16 (wrap_s32 (int nd)) fw fl; Some (st', args') }
      else if c = 115 then
        do { (s, args') \<leftarrow> va_str args; st' \<leftarrow> StoreString wr st s; Some (st', args') }
      else if c = 112 then
        do { (v, args') \<leftarrow> va_int args; st' \<leftarrow> PrintUnsigned wr st (word_of_int v) 16 8 8 0; Some (st', args') }
      else if c = 37 then do { st' \<leftarrow> StoreChar wr st 37; Some (st', args) }
      else Some (st, args))"

lemma parse_flags_length: "parse_flags f a = Some (fl, r) \<Longrightarrow> length r \<le> length f"
  by (induction f arbitrary: a) (fastforce split: if_splits)+

lemma parse_number_length: "parse_number f a = Some (n, r) \<Longrightarrow> length r \<le> length f"
  by (induction f arbitrary: a) (fastforce split: if_splits)+

lemma parse_length_length: "parse_length c f = Some (d, r) \<Longrightarrow> length r \<le> length f"
  by (induction c f rule: parse_length.induct) (fastforce split: if_splits)+

lemma parse_spec_length: "parse_spec f = Some (fl, fw, nd, c, r) \<Longrightarrow> length r \<le> length f"
  by (force simp: parse_spec_def split: option.splits list.splits if_splits
      dest: parse_flags_length parse_number_length parse_length_length)

function vprintf_loop :: "'s sink \<Rightarrow> u8 list \<Rightarrow> varg list \<Rightarrow> 's pstate \<Rightarrow> 's pstate option" where
  "vprintf_loop wr fmt args st =
     (case fmt of [] \<Rightarrow> None
      | c # cs \<Rightarrow>
         if c = 0 then Some st
         else if c = 37 then
           (case parse_spec cs of None \<Rightarrow> None
            | Some (fl, fw, nd, c', rest) \<Rightarrow>
               (case convert wr st c' nd fw fl args of None \<Rightarrow> None
                | Some (st', args') \<Rightarrow>
                    if RV st' \<ge> 0 then vprintf_loop wr (drop 1 rest) args' st' else Some st'))
         else
           (case StoreChar wr st c of None \<Rightarrow> None
            | Some st' \<Rightarrow> if RV st' \<ge> 0 then vprintf_loop wr cs args st' else Some st'))"
  by pat_completeness auto
termination
  by (relation "measure (\<lambda>(_, fmt, _). length fmt)") (auto dest!: parse_spec_length)

declare vprintf_loop.simps [simp del]

text \<open>The local buffer starts unspecified; its first bytes are written before they are read.\<close>

definition vprintf_with :: "'s sink \<Rightarrow> 's \<Rightarrow> u8 list \<Rightarrow> varg list \<Rightarrow> ('s \<times> int) option" where
  "vprintf_with wr s fmt args =
     (let p0 = \<lparr>pd_Buffer = replicate (nat SEGGER_RTT_PRINTF_BUFFER_SIZE) 0,
                BufferSize = SEGGER_RTT_PRINTF_BUFFER_SIZE, Cnt = 0, ReturnValue = 0\<rparr>
      in case vprintf_loop wr fmt args (s, p0) of None \<Rightarrow> None
         | Some (s1, p) \<Rightarrow>
             if ReturnValue p > 0 then
               (if Cnt p \<noteq> 0 then
                  (case wr s1 (pd_Buffer p) (Cnt p) of None \<Rightarrow> None
                   | Some (s2, _) \<Rightarrow> Some (s2, ReturnValue p + Cnt p))
                else Some (s1, ReturnValue p + Cnt p))
             else Some (s1, ReturnValue p))"

definition SEGGER_RTT_vprintf :: "rtt_cb \<Rightarrow> nat \<Rightarrow> u8 list \<Rightarrow> varg list \<Rightarrow> (rtt_cb \<times> int) option" where
  "SEGGER_RTT_vprintf cb b fmt args = vprintf_with (\<lambda>cb. SEGGER_RTT_Write cb b) cb fmt args"

definition SEGGER_RTT_printf :: "rtt_cb \<Rightarrow> nat \<Rightarrow> u8 list \<Rightarrow> varg list \<Rightarrow> (rtt_cb \<times> int) option" where
  "SEGGER_RTT_printf cb b fmt args = SEGGER_RTT_vprintf cb b fmt args"

section \<open>What the conversions print\<close>

text \<open>
  The reference: digits of a number in a base, padded to a precision, then to a field. A base is 10
  or 16; the digit characters are those of \<open>_aV2C\<close>.
\<close>

fun radix_digits :: "nat \<Rightarrow> nat \<Rightarrow> u8 list" where
  "radix_digits b n =
     (if n < b \<or> b \<le> 1 then [aV2C ! n] else radix_digits b (n div b) @ [aV2C ! (n mod b)])"

declare radix_digits.simps [simp del]

definition prec_digits :: "nat \<Rightarrow> nat \<Rightarrow> nat \<Rightarrow> u8 list" where
  "prec_digits b nd v = (let ds = radix_digits b v in replicate (nd - length ds) 48 @ ds)"

definition flag_left :: "u32 \<Rightarrow> bool" where
  "flag_left fl \<longleftrightarrow> fl AND FORMAT_FLAG_LEFT_JUSTIFY = FORMAT_FLAG_LEFT_JUSTIFY"
definition flag_zero :: "u32 \<Rightarrow> bool" where
  "flag_zero fl \<longleftrightarrow> fl AND FORMAT_FLAG_PAD_ZERO = FORMAT_FLAG_PAD_ZERO"
definition flag_sign :: "u32 \<Rightarrow> bool" where
  "flag_sign fl \<longleftrightarrow> fl AND FORMAT_FLAG_PRINT_SIGN = FORMAT_FLAG_PRINT_SIGN"

definition unsigned_text :: "nat \<Rightarrow> nat \<Rightarrow> nat \<Rightarrow> nat \<Rightarrow> u32 \<Rightarrow> u8 list" where
  "unsigned_text b v nd fw fl =
     (let ds = prec_digits b nd v; pad = fw - length ds in
      if flag_left fl then ds @ replicate pad 32
      else replicate pad (if flag_zero fl \<and> nd = 0 then 48 else 32) @ ds)"

definition int_text :: "nat \<Rightarrow> int \<Rightarrow> nat \<Rightarrow> nat \<Rightarrow> u32 \<Rightarrow> u8 list" where
  "int_text b v nd fw fl =
     (let ds = prec_digits b nd (nat \<bar>v\<bar>);
          sign = (if v < 0 then [45] else if flag_sign fl then [43] else []);
          pad = fw - length sign - length ds in
      if flag_left fl then sign @ ds @ replicate pad 32
      else if flag_zero fl \<and> nd = 0 then sign @ replicate pad 48 @ ds
      else replicate pad 32 @ sign @ ds)"

text \<open>A precision whose leading digit's weight still is a 32-bit value.\<close>

definition prec_ok :: "nat \<Rightarrow> nat \<Rightarrow> bool" where
  "prec_ok b nd \<longleftrightarrow> b ^ (nd - 1) < 2 ^ 32"

section \<open>Runs of stored characters\<close>

declare split_paired_Ex [simp del] split_paired_All [simp del]

primrec stored :: "'s sink \<Rightarrow> 's pstate \<Rightarrow> u8 list \<Rightarrow> 's pstate \<Rightarrow> bool" where
  "stored wr st [] st' \<longleftrightarrow> st' = st"
| "stored wr st (c # cs) st' \<longleftrightarrow>
     (\<exists>st1. StoreChar wr st c = Some st1 \<and> 0 \<le> RV st1 \<and> stored wr st1 cs st')"

lemma stored_append: "stored wr st (xs @ ys) st'' \<longleftrightarrow> (\<exists>st'. stored wr st xs st' \<and> stored wr st' ys st'')"
  by (induction xs arbitrary: st) auto

lemma stored_RV: "stored wr st cs st' \<Longrightarrow> 0 \<le> RV st \<Longrightarrow> 0 \<le> RV st'"
  by (induction cs arbitrary: st) auto

lemma stored_fun: "stored wr st cs st1 \<Longrightarrow> stored wr st cs st2 \<Longrightarrow> st1 = st2"
  by (induction cs arbitrary: st) auto

lemma pad_loop_iff:
  "0 \<le> RV st \<Longrightarrow>
   pad_loop wr c w f st = Some (st', f', False) \<longleftrightarrow>
   stored wr st (replicate (f - w) c) st' \<and> f' = min f w - 1"
proof (induction f arbitrary: st)
  case 0 then show ?case by auto
next
  case (Suc f)
  show ?case
  proof (cases "w < Suc f")
    case True
    then have "replicate (Suc f - w) c = c # replicate (f - w) c" "min (Suc f) w = min f w \<or> w = f"
      by (auto simp: Suc_diff_le)
    then show ?thesis using Suc True by (auto split: option.splits)
  next
    case False then show ?thesis by auto
  qed
qed

lemma pad_loop_True: "pad_loop wr c w f st = Some (st', f', True) \<Longrightarrow> RV st' < 0"
  by (induction f arbitrary: st) (auto split: if_splits option.splits)

section \<open>Digits\<close>

lemma length_aV2C [simp]: "length aV2C = 16"
  by (simp add: aV2C_def)

lemma aV2C_0 [simp]: "aV2C ! 0 = 48"
  by (simp add: aV2C_def)

primrec fixed_digits :: "nat \<Rightarrow> nat \<Rightarrow> nat \<Rightarrow> u8 list" where
  "fixed_digits b 0 v = []"
| "fixed_digits b (Suc k) v = aV2C ! (v div b ^ k) # fixed_digits b k (v mod b ^ k)"

lemma length_fixed_digits [simp]: "length (fixed_digits b k v) = k"
  by (induction k arbitrary: v) auto

lemma fixed_digits_snoc:
  "2 \<le> b \<Longrightarrow> v < b ^ Suc k \<Longrightarrow> fixed_digits b (Suc k) v = fixed_digits b k (v div b) @ [aV2C ! (v mod b)]"
proof (induction k arbitrary: v)
  case 0 then show ?case by simp
next
  case (Suc k)
  have "v mod b ^ Suc k < b ^ Suc k" using Suc.prems(1) by simp
  then have "fixed_digits b (Suc k) (v mod b ^ Suc k)
      = fixed_digits b k (v mod b ^ Suc k div b) @ [aV2C ! (v mod b ^ Suc k mod b)]"
    using Suc.IH Suc.prems(1) by blast
  moreover have "v mod b ^ Suc k div b = v div b mod b ^ k"
    using Suc.prems(1) by (simp add: mod_mult2_eq power_Suc)
  moreover have "v mod b ^ Suc k mod b = v mod b" by (simp add: mod_mod_cancel)
  moreover have "v div b ^ Suc k = v div b div b ^ k" by (simp add: div_mult2_eq)
  ultimately show ?case by simp
qed

lemma radix_digits_length: "2 \<le> b \<Longrightarrow> 0 < length (radix_digits b v) \<and> v < b ^ length (radix_digits b v) \<and>
    (length (radix_digits b v) = 1 \<or> b ^ (length (radix_digits b v) - 1) \<le> v)"
proof (induction b v rule: radix_digits.induct)
  case (1 b n)
  show ?case
  proof (cases "n < b")
    case True then show ?thesis by (subst (1 2 3 4) radix_digits.simps) simp
  next
    case False
    let ?l = "length (radix_digits b (n div b))"
    have e: "length (radix_digits b n) = Suc ?l" using False "1.prems" by (subst radix_digits.simps) simp
    have ih: "0 < ?l" "n div b < b ^ ?l" "?l = 1 \<or> b ^ (?l - 1) \<le> n div b" using 1 False by auto
    have "n < b ^ Suc ?l"
      using ih(2) "1.prems" by (simp add: div_less_iff_less_mult mult.commute)
    moreover have "b ^ ?l \<le> n"
    proof -
      have "b ^ (?l - 1) \<le> n div b" using ih False "1.prems" by (auto simp: less_eq_div_iff_mult_less_eq)
      then have "b ^ (?l - 1) * b \<le> n" using "1.prems" by (simp add: less_eq_div_iff_mult_less_eq)
      then show ?thesis using ih(1) by (cases ?l) (simp_all add: mult.commute)
    qed
    ultimately show ?thesis by (simp add: e)
  qed
qed

lemma fixed_digits_radix:
  "2 \<le> b \<Longrightarrow> v < b ^ k \<Longrightarrow> 0 < k \<Longrightarrow>
   fixed_digits b k v = replicate (k - length (radix_digits b v)) 48 @ radix_digits b v"
proof (induction k arbitrary: v)
  case 0 then show ?case by simp
next
  case (Suc k)
  show ?case
  proof (cases "k = 0")
    case True
    then show ?thesis using Suc.prems by (simp add: radix_digits.simps)
  next
    case False
    have "v div b < b ^ k" using Suc.prems by (simp add: div_less_iff_less_mult mult.commute)
    then have ih: "fixed_digits b k (v div b)
        = replicate (k - length (radix_digits b (v div b))) 48 @ radix_digits b (v div b)"
      using Suc False by simp
    have snoc: "fixed_digits b (Suc k) v = fixed_digits b k (v div b) @ [aV2C ! (v mod b)]"
      using Suc.prems by (intro fixed_digits_snoc) auto
    show ?thesis
    proof (cases "v < b")
      case True
      then have "radix_digits b (v div b) = [48]" "radix_digits b v = [aV2C ! v]"
        using Suc.prems by (subst radix_digits.simps, simp)+
      then show ?thesis unfolding snoc ih using True False
        by (simp add: replicate_append_same [symmetric] del: fixed_digits.simps)
           (metis One_nat_def Suc_diff_Suc diff_zero neq0_conv replicate_Suc replicate_append_same)
    next
      case f: False
      then have "radix_digits b v = radix_digits b (v div b) @ [aV2C ! (v mod b)]"
        using Suc.prems by (subst radix_digits.simps) simp
      then show ?thesis unfolding snoc ih by simp
    qed
  qed
qed

lemma num_width_radix:
  "1 < unat B \<Longrightarrow> num_width B n w + 1 = w + length (radix_digits (unat B) (unat n))"
proof (induction B n w rule: num_width.induct)
  case (1 B n w)
  show ?case
  proof (cases "B \<le> n")
    case True
    then have b: "B \<le> n \<and> 1 < B" "\<not> unat n < unat B" "unat (n div B) = unat n div unat B"
      using "1.prems" by (simp_all add: word_less_nat_alt word_le_nat_alt unat_div_distrib)
    show ?thesis
      using "1.IH" [OF b(1)] "1.prems" b
      by (subst num_width.simps, subst radix_digits.simps) simp
  next
    case False
    then show ?thesis using "1.prems"
      by (subst num_width.simps, subst radix_digits.simps) (simp add: word_le_nat_alt)
  qed
qed

text \<open>
  The weight of the leading digit: with \<open>w\<close> digits in all, \<open>Digit\<close> ends at \<open>b ^ (w - 1)\<close>.
\<close>

lemma digit_scale_weight:
  assumes "2 \<le> unat B" and "unat D = unat B ^ j" and "j < w" and "unat B ^ (w - 1) < 2 ^ 32"
    and "w = max (length (radix_digits (unat B) (unat v))) nd"
  shows "\<exists>D'. digit_scale B v D (int nd - int j) = Some D' \<and> unat D' = unat B ^ (w - 1)"
  using assms
proof (induction "w - j" arbitrary: j D)
  case 0
  from "0.hyps" "0.prems"(3) show ?case by linarith
next
  case (Suc x)
  let ?b = "unat B" and ?len = "length (radix_digits (unat B) (unat v))"
  have b: "2 \<le> ?b" using Suc.prems(1) .
  have D0: "D \<noteq> 0" "0 < unat D" using Suc.prems(1,2) by (auto simp: unat_eq_zero simp flip: unat_gt_0)
  have B1: "1 < B" using b by (simp add: word_less_nat_alt)
  have "B \<le> v div D \<longleftrightarrow> ?b * ?b ^ j \<le> unat v"
    using D0(2) Suc.prems(2) by (simp add: word_le_nat_alt unat_div_distrib less_eq_div_iff_mult_less_eq)
  also have "\<dots> \<longleftrightarrow> Suc j < ?len"
  proof -
    have r: "0 < ?len" "unat v < ?b ^ ?len" "?len = 1 \<or> ?b ^ (?len - 1) \<le> unat v"
      using radix_digits_length [OF b] by auto
    show ?thesis
    proof
      assume "?b * ?b ^ j \<le> unat v"
      then have "?b ^ Suc j < ?b ^ ?len" using r(2) by simp
      then show "Suc j < ?len" using b power_less_imp_less_exp by (metis numeral_2_eq_2 Suc_le_lessD One_nat_def)
    next
      assume "Suc j < ?len"
      then have "?b ^ Suc j \<le> ?b ^ (?len - 1)" using b by (intro power_increasing) auto
      then show "?b * ?b ^ j \<le> unat v" using r \<open>Suc j < ?len\<close> by auto
    qed
  qed
  finally have cond: "(B \<le> v div D \<and> 1 < B \<or> int nd - int j > 1) \<longleftrightarrow> Suc j < w"
    using B1 Suc.prems(5) by auto
  show ?case
  proof (cases "Suc j < w")
    case True
    have "?b ^ Suc j \<le> ?b ^ (w - 1)" using True b by (intro power_increasing) auto
    then have "unat D * ?b < 2 ^ 32" using Suc.prems(2,4) by (simp add: mult.commute)
    then have uD: "unat (D * B) = ?b ^ Suc j"
      using Suc.prems(2) unat_mult_lem [of D B] by (simp add: mult.commute)
    have "x = w - Suc j" using Suc.hyps(2) by simp
    from Suc.hyps(1) [OF this b uD True Suc.prems(4,5)]
    have "\<exists>D'. digit_scale B v (D * B) (int nd - int j - 1) = Some D' \<and> unat D' = ?b ^ (w - 1)"
      by (simp add: algebra_simps)
    then show ?thesis
      using D0(1) cond True by (subst digit_scale.simps) simp
  next
    case False
    then have "j = w - 1" using Suc.prems(3) by simp
    then show ?thesis using D0(1) cond False Suc.prems(2) by (subst digit_scale.simps) auto
  qed
qed

lemma digit_loop_iff:
  assumes "2 \<le> unat B" and "unat B \<le> 16" and "unat D = unat B ^ k" and "unat v < unat B ^ Suc k"
  shows "(digit_loop wr B v D st = Some st' \<and> 0 \<le> RV st') \<longleftrightarrow>
         stored wr st (fixed_digits (unat B) (Suc k) (unat v)) st' \<and> 0 \<le> RV st'"
  using assms
proof (induction k arbitrary: v D st)
  case 0
  have D: "D = 1" using "0.prems"(3) by (simp add: word_eq_iff_unsigned [where ?'a = nat])
  have B: "1 < B" using "0.prems"(1) by (simp add: word_less_nat_alt)
  have "1 div B = 0" using B by (simp add: word_arith_nat_div word_less_nat_alt)
  moreover have "unat v < 16" using "0.prems"(2,4) by simp
  ultimately show ?case
    using B by (subst digit_loop.simps) (auto simp: D Let_def split: option.splits)
next
  case (Suc k)
  let ?b = "unat B"
  have B: "1 < B" using Suc.prems(1) by (simp add: word_less_nat_alt)
  have D0: "D \<noteq> 0" using Suc.prems(1,3) by (auto simp: unat_eq_zero)
  have q: "unat (v div D) = unat v div ?b ^ Suc k" using Suc.prems(3) by (simp add: unat_div_distrib)
  have "unat v div ?b ^ Suc k < ?b"
    using Suc.prems(1,4) by (subst div_less_iff_less_mult) (auto simp: mult.commute mult.left_commute)
  then have q16: "unat (v div D) < 16" using q Suc.prems(2) by simp
  have r: "unat (v - v div D * D) = unat v mod ?b ^ Suc k"
    using Suc.prems(3) by (simp add: minus_div_mult_eq_mod unat_mod_distrib)
  have D': "unat (D div B) = ?b ^ k" using Suc.prems(1,3) by (simp add: unat_div_distrib)
  have D'0: "D div B \<noteq> 0" using D' Suc.prems(1) by (auto simp: unat_eq_zero)
  have rlt: "unat (v - v div D * D) < ?b ^ Suc k" using r Suc.prems(1) by simp
  have ih: "(digit_loop wr B (v - v div D * D) (D div B) st1 = Some st' \<and> 0 \<le> RV st') \<longleftrightarrow>
        stored wr st1 (fixed_digits ?b (Suc k) (unat v mod ?b ^ Suc k)) st' \<and> 0 \<le> RV st'" for st1
    using Suc.IH [OF Suc.prems(1,2) D' rlt] by (simp only: r)
  have fd: "fixed_digits ?b (Suc (Suc k)) (unat v)
      = aV2C ! unat (v div D) # fixed_digits ?b (Suc k) (unat v mod ?b ^ Suc k)"
    by (simp only: fixed_digits.simps q)
  show ?case
    unfolding fd stored.simps using B D0 D'0 q16 ih
    by (subst digit_loop.simps) (auto simp: Let_def simp del: fixed_digits.simps split: option.splits)
qed

section \<open>PrintUnsigned and PrintInt store their text\<close>

lemma flag_left_cases: "fl AND FORMAT_FLAG_LEFT_JUSTIFY = 0 \<longleftrightarrow> \<not> flag_left fl"
proof -
  have "fl AND 1 = 0 \<or> fl AND 1 = 1" by (simp add: and_one_eq mod2_eq_if)
  then show ?thesis by (auto simp: flag_left_def FORMAT_FLAG_LEFT_JUSTIFY_def)
qed

lemma prec_ok_small: "2 \<le> b \<Longrightarrow> prec_ok b nd \<Longrightarrow> nd \<le> 32"
proof (rule ccontr)
  assume b: "2 \<le> b" "prec_ok b nd" "\<not> nd \<le> 32"
  have "(2::nat) ^ 32 \<le> 2 ^ (nd - 1)" using b(3) by (intro power_increasing) auto
  also have "\<dots> \<le> b ^ (nd - 1)" using b(1) by (intro power_mono) auto
  finally show False using b(2) by (simp add: prec_ok_def)
qed

lemma length_prec_digits: "length (prec_digits b nd v) = max (length (radix_digits b v)) nd"
  by (auto simp: prec_digits_def Let_def max_def)

lemma field_Width:
  assumes "2 \<le> unat B" and "prec_ok (unat B) nd"
  shows "(if wrap_u32 (int nd) > int (num_width B v 1) then nat (wrap_u32 (int nd)) else num_width B v 1)
       = length (prec_digits (unat B) nd (unat v))"
    and "(if int nd > int (num_width B v 1) then nat (int nd) else num_width B v 1)
       = length (prec_digits (unat B) nd (unat v))"
proof -
  have "num_width B v 1 = length (radix_digits (unat B) (unat v))"
    using num_width_radix [of B v 1] assms(1) by simp
  moreover have "wrap_u32 (int nd) = int nd"
    using prec_ok_small [OF assms] by (simp add: wrap_u32_id)
  ultimately show "(if wrap_u32 (int nd) > int (num_width B v 1) then nat (wrap_u32 (int nd)) else num_width B v 1)
       = length (prec_digits (unat B) nd (unat v))"
    and "(if int nd > int (num_width B v 1) then nat (int nd) else num_width B v 1)
       = length (prec_digits (unat B) nd (unat v))"
    by (auto simp: length_prec_digits)
qed

lemma digits_stored:
  assumes b: "2 \<le> unat B" "unat B \<le> 16" and p: "prec_ok (unat B) nd"
  obtains D where "digit_scale B v 1 (int nd) = Some D"
    and "\<And>st st'. (digit_loop wr B v D st = Some st' \<and> 0 \<le> RV st') \<longleftrightarrow>
            stored wr st (prec_digits (unat B) nd (unat v)) st' \<and> 0 \<le> RV st'"
proof -
  let ?b = "unat B" and ?ds = "radix_digits (unat B) (unat v)"
  define w where "w = max (length ?ds) nd"
  have r: "0 < length ?ds" "unat v < ?b ^ length ?ds" "length ?ds = 1 \<or> ?b ^ (length ?ds - 1) \<le> unat v"
    using radix_digits_length [OF b(1)] by auto
  have w0: "0 < w" using r(1) unfolding w_def by linarith
  have "unat v < 2 ^ 32" using unsigned_less [of v, where ?'a = nat] by simp
  then have "?b ^ (length ?ds - 1) < 2 ^ 32" using r(3) by auto
  then have wt: "?b ^ (w - 1) < 2 ^ 32" using p by (auto simp: w_def prec_ok_def max_def)
  obtain D where D: "digit_scale B v 1 (int nd - int 0) = Some D" "unat D = ?b ^ (w - 1)"
    using digit_scale_weight [of B 1 0 w v nd] b wt w0 w_def by auto
  have "?b ^ length ?ds \<le> ?b ^ w" using b(1) by (intro power_increasing) (auto simp: w_def)
  then have vw: "unat v < ?b ^ Suc (w - 1)" using r(2) w0 by simp
  have "fixed_digits ?b (Suc (w - 1)) (unat v) = replicate (Suc (w - 1) - length ?ds) 48 @ ?ds"
    using b(1) vw by (intro fixed_digits_radix) auto
  also have "\<dots> = prec_digits ?b nd (unat v)"
    using w0 by (auto simp: prec_digits_def Let_def w_def max_def)
  finally have "fixed_digits ?b (Suc (w - 1)) (unat v) = prec_digits ?b nd (unat v)" .
  then have "(digit_loop wr B v D st = Some st' \<and> 0 \<le> RV st') \<longleftrightarrow>
      stored wr st (prec_digits ?b nd (unat v)) st' \<and> 0 \<le> RV st'" for st st'
    using digit_loop_iff [OF b D(2) vw, of wr st st'] by (simp only:)
  moreover have "digit_scale B v 1 (int nd) = Some D" using D(1) by simp
  ultimately show thesis by (intro that)
qed

text \<open>
  A refused flush leaves the buffer full, and storing into a full buffer after a refusal cannot turn
  the negative return value around.
\<close>

lemma StoreChar_refused:
  "0 \<le> RV st \<Longrightarrow> StoreChar wr st c = Some st' \<Longrightarrow> RV st' < 0 \<Longrightarrow> Cnt (snd st') = BufferSize (snd st')"
  by (auto simp: StoreChar_def Let_def split: prod.splits if_splits option.splits)

lemma StoreChar_full:
  "RV st < 0 \<Longrightarrow> Cnt (snd st) = BufferSize (snd st) \<Longrightarrow> StoreChar wr st c = Some st' \<Longrightarrow> RV st' < 0"
  by (auto simp: StoreChar_def Let_def split: prod.splits if_splits option.splits)

lemma digit_loop_refused:
  "digit_loop wr B v D st = Some st' \<Longrightarrow> 0 \<le> RV st \<Longrightarrow> RV st' < 0 \<Longrightarrow> Cnt (snd st') = BufferSize (snd st')"
proof (induction wr B v D st rule: digit_loop.induct)
  case (1 wr B v D st)
  from "1.prems"(1) obtain st1 where g: "\<not> (D = 0 \<or> \<not> 1 < B)" "unat (v div D) < length aV2C"
    and s: "StoreChar wr st (aV2C ! unat (v div D)) = Some st1"
    and r: "(if RV st1 < 0 \<or> D div B = 0 then Some st1
             else digit_loop wr B (v - v div D * D) (D div B) st1) = Some st'"
    by (subst (asm) digit_loop.simps) (auto simp: Let_def split: if_splits option.splits)
  show ?case
  proof (cases "RV st1 < 0 \<or> D div B = 0")
    case True
    then show ?thesis using StoreChar_refused [OF "1.prems"(2) s] r "1.prems"(3) by auto
  next
    case False
    then show ?thesis
      using "1.IH" [OF g(1) refl refl _ s] g(2) r "1.prems"(3) by auto
  qed
qed

lemma pad_loop_refused:
  "pad_loop wr c w f st = Some (st', f', ret) \<Longrightarrow> RV st < 0 \<Longrightarrow> Cnt (snd st) = BufferSize (snd st) \<Longrightarrow> RV st' < 0"
  by (cases f) (auto split: if_splits option.splits dest: StoreChar_full)

lemma pad_loop_unfailed:
  "0 \<le> RV st \<Longrightarrow>
   (\<exists>f' r. pad_loop wr c w f st = Some (st', f', r) \<and> 0 \<le> RV st') \<longleftrightarrow>
   stored wr st (replicate (f - w) c) st'"
  using pad_loop_iff [of st wr c w f st'] pad_loop_True [of wr c w f st st'] stored_RV [of wr st]
  by (metis (full_types) linorder_not_le)

text \<open>The leading pads of \<open>PrintUnsigned\<close> and \<open>PrintInt\<close>, with what follows them.\<close>

lemma lead_pad_then:
  assumes rv: "0 \<le> RV st"
  shows "((case (if fw \<noteq> 0 then pad_loop wr c w fw st else Some (st, fw, False)) of None \<Rightarrow> None
           | Some (st1, fw1, ret) \<Rightarrow> if ret then Some st1 else k st1 fw1) = Some st' \<and> 0 \<le> RV st') \<longleftrightarrow>
         (\<exists>st1. stored wr st (replicate (fw - w) c) st1 \<and> k st1 (min fw w - 1) = Some st' \<and> 0 \<le> RV st')"
proof -
  have eq: "(if fw \<noteq> 0 then pad_loop wr c w fw st else Some (st, fw, False)) = pad_loop wr c w fw st"
    by simp
  show ?thesis unfolding eq
  proof (cases "pad_loop wr c w fw st")
    case None
    then have "\<not> stored wr st (replicate (fw - w) c) s1" for s1
      using pad_loop_iff [OF rv, of wr c w fw s1 "min fw w - 1"] by auto
    with None show "((case pad_loop wr c w fw st of None \<Rightarrow> None
           | Some (st1, fw1, ret) \<Rightarrow> if ret then Some st1 else k st1 fw1) = Some st' \<and> 0 \<le> RV st') \<longleftrightarrow>
         (\<exists>st1. stored wr st (replicate (fw - w) c) st1 \<and> k st1 (min fw w - 1) = Some st' \<and> 0 \<le> RV st')"
      by simp
  next
    case (Some t)
    obtain s1 f1 ret where t: "t = (s1, f1, ret)" by (cases t) auto
    show "((case pad_loop wr c w fw st of None \<Rightarrow> None
           | Some (st1, fw1, ret) \<Rightarrow> if ret then Some st1 else k st1 fw1) = Some st' \<and> 0 \<le> RV st') \<longleftrightarrow>
         (\<exists>st1. stored wr st (replicate (fw - w) c) st1 \<and> k st1 (min fw w - 1) = Some st' \<and> 0 \<le> RV st')"
    proof (cases ret)
      case True
      then have "RV s1 < 0" "\<not> stored wr st (replicate (fw - w) c) s2" for s2
        using Some t pad_loop_True [of wr c w fw st s1 f1] pad_loop_iff [OF rv, of wr c w fw s2 "min fw w - 1"]
        by auto
      then show ?thesis using Some t True by auto
    next
      case False
      then have "stored wr st (replicate (fw - w) c) s1" "f1 = min fw w - 1"
        using Some t pad_loop_iff [OF rv, of wr c w fw s1 f1] by auto
      then have "stored wr st (replicate (fw - w) c) s2 \<longleftrightarrow> s2 = s1" for s2
        using stored_fun [of wr st "replicate (fw - w) c" s1 s2] by blast
      then show ?thesis using Some t False \<open>f1 = min fw w - 1\<close> by (simp del: split_paired_Ex)
    qed
  qed
qed

lemma PrintUnsigned_text:
  assumes b: "2 \<le> unat B" "unat B \<le> 16" and p: "prec_ok (unat B) nd" and rv: "0 \<le> RV st"
  shows "(PrintUnsigned wr st v B (int nd) fw fl = Some st' \<and> 0 \<le> RV st') \<longleftrightarrow>
         stored wr st (unsigned_text (unat B) (unat v) nd fw fl) st' \<and> 0 \<le> RV st'"
proof -
  let ?ds = "prec_digits (unat B) nd (unat v)"
  obtain D where D: "digit_scale B v 1 (int nd) = Some D"
    "\<And>st st'. (digit_loop wr B v D st = Some st' \<and> 0 \<le> RV st') \<longleftrightarrow> stored wr st ?ds st' \<and> 0 \<le> RV st'"
    using digits_stored [OF b p] by blast
  note pu = PrintUnsigned_def [of wr st v B "int nd" fw fl, unfolded Let_def field_Width(1) [OF b(1) p, of v]]
  show ?thesis
  proof (cases "flag_left fl")
    case True
    define tail where "tail st2 = map_option fst (pad_loop wr 32 (length ?ds) fw st2)" for st2
    have run: "PrintUnsigned wr st v B (int nd) fw fl =
        (case digit_loop wr B v D st of None \<Rightarrow> None | Some st2 \<Rightarrow> tail st2)"
      using True by (auto simp: pu flag_left_cases D(1) tail_def
          flag_left_def [symmetric] split: option.splits)
    have tl: "tail st2 = Some st' \<and> 0 \<le> RV st' \<longleftrightarrow> stored wr st2 (replicate (fw - length ?ds) 32) st'"
      if "0 \<le> RV st2" for st2
      unfolding pad_loop_unfailed [OF that, of wr 32 "length ?ds" fw st', symmetric]
      by (cases "pad_loop wr 32 (length ?ds) fw st2") (auto simp: tail_def)
    have bad: "\<not> (tail st2 = Some st' \<and> 0 \<le> RV st')" if "digit_loop wr B v D st = Some st2" "RV st2 < 0" for st2
      using digit_loop_refused [OF that(1) rv that(2)] that(2) pad_loop_refused
      by (fastforce simp: tail_def split: if_splits)
    show ?thesis (is "?lhs \<longleftrightarrow> ?rhs")
    proof
      assume l: ?lhs
      then obtain st2 where 2: "digit_loop wr B v D st = Some st2" "tail st2 = Some st'" "0 \<le> RV st'"
        unfolding run by (auto split: option.splits)
      then have "0 \<le> RV st2" using bad [OF 2(1)] by force
      then show ?rhs using 2 tl D(2) [of st st2] True
        by (auto simp: unsigned_text_def Let_def stored_append)
    next
      assume ?rhs
      then obtain st2 where 2: "stored wr st ?ds st2" "stored wr st2 (replicate (fw - length ?ds) 32) st'" "0 \<le> RV st'"
        using True by (auto simp: unsigned_text_def Let_def stored_append)
      have "0 \<le> RV st2" using stored_RV [OF 2(1) rv] .
      then show ?lhs using 2 tl D(2) [of st st2] by (auto simp: run)
    qed
  next
    case False
    let ?c = "if flag_zero fl \<and> nd = 0 then 48 else 32"
    have run: "PrintUnsigned wr st v B (int nd) fw fl =
       (case (if fw \<noteq> 0 then pad_loop wr ?c (length ?ds) fw st else Some (st, fw, False)) of None \<Rightarrow> None
           | Some (st1, fw1, ret) \<Rightarrow> if ret then Some st1 else digit_loop wr B v D st1)"
    proof -
      have body: "(case digit_scale B v 1 (int nd) of None \<Rightarrow> None
          | Some Digit \<Rightarrow> (case digit_loop wr B v Digit st1 of None \<Rightarrow> None
             | Some st2 \<Rightarrow> if flag_left fl \<and> fw1 \<noteq> 0
                 then map_option fst (pad_loop wr 32 (length ?ds) fw1 st2) else Some st2))
          = digit_loop wr B v D st1" for st1 fw1
        using False by (auto simp: D(1) split: option.split)
      show ?thesis
        unfolding pu flag_left_cases flag_left_def [symmetric] flag_zero_def [symmetric] body
        using False by simp
    qed
    show ?thesis
      unfolding run lead_pad_then [OF rv, where k = "\<lambda>st1 _. digit_loop wr B v D st1"] D(2)
      using False by (auto simp: unsigned_text_def Let_def stored_append)
  qed
qed

lemma word_of_wrap_s32: "(word_of_int (wrap_s32 x) :: u32) = word_of_int x"
  unfolding word_of_int_eq_iff wrap_s32_def by (simp add: take_bit_eq_mod mod_diff_left_eq)

lemma unat_abs_u32: "- (2 ^ 31) \<le> v \<Longrightarrow> v < 2 ^ 31 \<Longrightarrow> unat (word_of_int \<bar>v\<bar> :: u32) = nat \<bar>v\<bar>"
  by (simp add: unsigned_of_int take_bit_eq_mod)

text \<open>The states after a run of stored characters have not failed, so only those matter afterwards.\<close>

lemma stored_bind:
  assumes "0 \<le> RV st" and "\<And>st1. 0 \<le> RV st1 \<Longrightarrow> P st1 \<longleftrightarrow> Q st1"
  shows "(\<exists>st1. stored wr st cs st1 \<and> P st1) \<longleftrightarrow> (\<exists>st1. stored wr st cs st1 \<and> Q st1)"
  using assms stored_RV [of wr st cs] by blast

lemma sign_then:
  "((case (if neg then StoreChar wr st 45 else if sg then StoreChar wr st 43 else Some st) of None \<Rightarrow> None
     | Some st2 \<Rightarrow> if (neg \<or> sg) \<and> RV st2 < 0 then Some st2 else k st2) = Some st' \<and> 0 \<le> RV st') \<longleftrightarrow>
   (\<exists>st2. stored wr st (if neg then [45] else if sg then [43] else []) st2 \<and> k st2 = Some st' \<and> 0 \<le> RV st')"
  by (cases "StoreChar wr st 45"; cases "StoreChar wr st 43") auto

lemma unsigned_text_residual:
  "\<not> flag_left fl \<Longrightarrow> f \<le> length (prec_digits b nd v) \<Longrightarrow> unsigned_text b v nd f fl = prec_digits b nd v"
  by (simp add: unsigned_text_def Let_def)

lemma PrintInt_text:
  fixes wr :: "'s sink"
  assumes b: "2 \<le> unat B" "unat B \<le> 16" and p: "prec_ok (unat B) nd"
    and v: "- (2 ^ 31) \<le> v" "v < 2 ^ 31" and rv: "0 \<le> RV st"
  shows "(PrintInt wr st v B (int nd) fw fl = Some st' \<and> 0 \<le> RV st') \<longleftrightarrow>
         stored wr st (int_text (unat B) v nd fw fl) st' \<and> 0 \<le> RV st'"
proof -
  let ?V = "word_of_int \<bar>v\<bar> :: u32" and ?ds = "prec_digits (unat B) nd (nat \<bar>v\<bar>)"
  let ?sign = "if v < 0 then [45] else if flag_sign fl then [43] else [] :: u8 list"
  let ?fw = "fw - length ?sign"
  have V: "(word_of_int (if v < 0 then - v else v) :: u32) = ?V"
    "(word_of_int (if v < 0 then wrap_s32 (- v) else v) :: u32) = ?V"
    by (simp_all add: word_of_wrap_s32)
  have uV: "unat ?V = nat \<bar>v\<bar>" using v by (rule unat_abs_u32)
  have nd: "wrap_s32 (int nd) = int nd" using prec_ok_small [OF b(1) p] by (simp add: wrap_s32_id)
  have fw': "(if fw > 0 \<and> (v < 0 \<or> flag_sign fl) then fw - 1 else fw) = ?fw" by auto
  note W = field_Width(2) [OF b(1) p, of ?V, unfolded uV]
  define k3 where "k3 st3 f = PrintUnsigned wr st3 ?V B (int nd) f fl" for st3 f
  define k2 where "k2 st2 f = (case (if flag_zero fl \<and> \<not> flag_left fl \<and> int nd = 0 \<and> f \<noteq> 0
      then pad_loop wr 48 (length ?ds) f st2 else Some (st2, f, False)) of None \<Rightarrow> None
    | Some (st3, f2, ret) \<Rightarrow> if ret then Some st3 else k3 st3 f2)" for st2 f
  define k1 where "k1 st1 f = (case (if v < 0 then StoreChar wr st1 45 else if flag_sign fl then StoreChar wr st1 43
      else Some st1) of None \<Rightarrow> None
    | Some st2 \<Rightarrow> if (v < 0 \<or> flag_sign fl) \<and> RV st2 < 0 then Some st2 else k2 st2 f)" for st1 f
  have run: "PrintInt wr st v B (int nd) fw fl =
     (case (if (\<not> flag_zero fl \<or> int nd \<noteq> 0) \<and> \<not> flag_left fl \<and> ?fw \<noteq> 0
            then pad_loop wr 32 (length ?ds) ?fw st else Some (st, ?fw, False)) of None \<Rightarrow> None
      | Some (st1, f, ret) \<Rightarrow> if ret then Some st1 else k1 st1 f)"
    unfolding PrintInt_def Let_def flag_left_def [symmetric] flag_zero_def [symmetric]
      flag_sign_def [symmetric] V W nd fw' k1_def k2_def k3_def by (rule refl)
  have k3: "(k3 st3 f = Some st' \<and> 0 \<le> RV st') \<longleftrightarrow>
      stored wr st3 (unsigned_text (unat B) (nat \<bar>v\<bar>) nd f fl) st' \<and> 0 \<le> RV st'" if "0 \<le> RV st3" for st3 f
    unfolding k3_def using PrintUnsigned_text [OF b p that, of wr ?V] by (simp add: uV)
  have k1: "(k1 st1 f = Some st' \<and> 0 \<le> RV st') \<longleftrightarrow>
      (\<exists>st2. stored wr st1 ?sign st2 \<and> k2 st2 f = Some st' \<and> 0 \<le> RV st')" for st1 f
    unfolding k1_def by (rule sign_then)
  have resid: "unsigned_text (unat B) (nat \<bar>v\<bar>) nd (min g (length ?ds) - 1) fl = ?ds" if "\<not> flag_left fl" for g
    using that by (intro unsigned_text_residual) auto
  consider (left) "flag_left fl" | (zero) "\<not> flag_left fl" "flag_zero fl" "nd = 0"
    | (blank) "\<not> flag_left fl" "\<not> (flag_zero fl \<and> nd = 0)" by blast
  then show ?thesis
  proof cases
    case left
    have k2: "k2 st2 f = k3 st2 f" for st2 f using left by (simp add: k2_def)
    have "(PrintInt wr st v B (int nd) fw fl = Some st' \<and> 0 \<le> RV st') \<longleftrightarrow>
        (\<exists>st2. stored wr st ?sign st2 \<and> k3 st2 ?fw = Some st' \<and> 0 \<le> RV st')"
      unfolding run using left k1 [of st ?fw] by (simp add: k2)
    also have "\<dots> \<longleftrightarrow> (\<exists>st2. stored wr st ?sign st2 \<and>
        stored wr st2 (unsigned_text (unat B) (nat \<bar>v\<bar>) nd ?fw fl) st' \<and> 0 \<le> RV st')"
      by (rule stored_bind [OF rv], rule k3)
    finally show ?thesis using left by (auto simp: int_text_def unsigned_text_def Let_def stored_append)
  next
    case zero
    have k2: "(k2 st2 f = Some st' \<and> 0 \<le> RV st') \<longleftrightarrow>
        (\<exists>st3. stored wr st2 (replicate (f - length ?ds) 48) st3 \<and>
           k3 st3 (min f (length ?ds) - 1) = Some st' \<and> 0 \<le> RV st')" if "0 \<le> RV st2" for st2 f
      using lead_pad_then [OF that, where fw = f and wr = wr and c = 48 and w = "length ?ds" and k = k3] zero by (simp add: k2_def)
    have k23: "(k2 st2 f = Some st' \<and> 0 \<le> RV st') \<longleftrightarrow>
        (\<exists>st3. stored wr st2 (replicate (f - length ?ds) 48) st3 \<and> stored wr st3 ?ds st' \<and> 0 \<le> RV st')"
      if "0 \<le> RV st2" for st2 f
      unfolding k2 [OF that] by (rule stored_bind [OF that]) (simp add: k3 resid [OF zero(1), of f, simplified])
    have "(PrintInt wr st v B (int nd) fw fl = Some st' \<and> 0 \<le> RV st') \<longleftrightarrow>
        (\<exists>st2. stored wr st ?sign st2 \<and> k2 st2 ?fw = Some st' \<and> 0 \<le> RV st')"
      unfolding run using zero k1 [of st ?fw] by simp
    also have "\<dots> \<longleftrightarrow> (\<exists>st2. stored wr st ?sign st2 \<and>
        (\<exists>st3. stored wr st2 (replicate (?fw - length ?ds) 48) st3 \<and> stored wr st3 ?ds st' \<and> 0 \<le> RV st'))"
      by (rule stored_bind [OF rv], rule k23)
    finally show ?thesis using zero by (auto simp: int_text_def Let_def stored_append)
  next
    case blank
    have k2: "k2 st2 f = k3 st2 f" for st2 f using blank by (auto simp: k2_def)
    have "(PrintInt wr st v B (int nd) fw fl = Some st' \<and> 0 \<le> RV st') \<longleftrightarrow>
       (\<exists>st1. stored wr st (replicate (?fw - length ?ds) 32) st1 \<and>
              k1 st1 (min ?fw (length ?ds) - 1) = Some st' \<and> 0 \<le> RV st')"
      unfolding run using lead_pad_then [OF rv, where fw = ?fw and wr = wr and c = 32 and w = "length ?ds" and k = k1] blank by auto
    also have "\<dots> \<longleftrightarrow> (\<exists>st1. stored wr st (replicate (?fw - length ?ds) 32) st1 \<and>
        (\<exists>st2. stored wr st1 ?sign st2 \<and> stored wr st2 ?ds st' \<and> 0 \<le> RV st'))"
    proof (rule stored_bind [OF rv])
      fix st1 :: "'s pstate" assume rv1: "0 \<le> RV st1"
      show "(k1 st1 (min ?fw (length ?ds) - 1) = Some st' \<and> 0 \<le> RV st') \<longleftrightarrow>
          (\<exists>st2. stored wr st1 ?sign st2 \<and> stored wr st2 ?ds st' \<and> 0 \<le> RV st')"
        unfolding k1 k2 by (rule stored_bind [OF rv1]) (simp only: k3 resid [OF blank(1)])
    qed
    finally show ?thesis using blank by (auto simp: int_text_def Let_def stored_append)
  qed
qed

section \<open>Whole format strings\<close>

text \<open>
  A well-formed format is a list of directives: literal bytes, and conversions with flags, field
  width (0 for none), precision and an argument. \<open>dir_fmt\<close> writes a directive as format text,
  \<open>dir_text\<close> says what it prints.
\<close>

datatype conversion = CInt int | CUnsigned int | CHex int | CHexUpper int | CChar int | CStr "u8 list" | CPtr int | CPercent

datatype directive = Lit u8 | Conv "u8 list" nat "nat option" conversion

fun conv_char :: "conversion \<Rightarrow> u8" where
  "conv_char (CInt _) = 100" | "conv_char (CUnsigned _) = 117" | "conv_char (CHex _) = 120"
| "conv_char (CHexUpper _) = 88" | "conv_char (CChar _) = 99" | "conv_char (CStr _) = 115"
| "conv_char (CPtr _) = 112" | "conv_char CPercent = 37"

fun conv_args :: "conversion \<Rightarrow> varg list" where
  "conv_args (CInt v) = [VInt v]" | "conv_args (CUnsigned v) = [VInt v]" | "conv_args (CHex v) = [VInt v]"
| "conv_args (CHexUpper v) = [VInt v]" | "conv_args (CChar v) = [VInt v]" | "conv_args (CStr s) = [VStr (s @ [0])]"
| "conv_args (CPtr v) = [VInt v]" | "conv_args CPercent = []"

definition unsigned_of :: "int \<Rightarrow> nat" where
  "unsigned_of v = unat (word_of_int v :: u32)"

fun conv_text :: "u32 \<Rightarrow> nat \<Rightarrow> nat \<Rightarrow> conversion \<Rightarrow> u8 list" where
  "conv_text fl fw nd (CInt v) = int_text 10 v nd fw fl"
| "conv_text fl fw nd (CUnsigned v) = unsigned_text 10 (unsigned_of v) nd fw fl"
| "conv_text fl fw nd (CHex v) = unsigned_text 16 (unsigned_of v) nd fw fl"
| "conv_text fl fw nd (CHexUpper v) = unsigned_text 16 (unsigned_of v) nd fw fl"
| "conv_text fl fw nd (CChar v) = [word_of_int v]"
| "conv_text fl fw nd (CStr s) = s"
| "conv_text fl fw nd (CPtr v) = unsigned_text 16 (unsigned_of v) 8 8 0"
| "conv_text fl fw nd CPercent = [37]"

fun conv_ok :: "nat \<Rightarrow> conversion \<Rightarrow> bool" where
  "conv_ok nd (CInt v) \<longleftrightarrow> - (2 ^ 31) \<le> v \<and> v < 2 ^ 31 \<and> prec_ok 10 nd"
| "conv_ok nd (CUnsigned v) \<longleftrightarrow> prec_ok 10 nd"
| "conv_ok nd (CHex v) \<longleftrightarrow> prec_ok 16 nd"
| "conv_ok nd (CHexUpper v) \<longleftrightarrow> prec_ok 16 nd"
| "conv_ok nd (CStr s) \<longleftrightarrow> 0 \<notin> set s"
| "conv_ok nd _ \<longleftrightarrow> True"

fun flag_bit :: "u8 \<Rightarrow> u32" where
  "flag_bit c = (if c = 45 then FORMAT_FLAG_LEFT_JUSTIFY else if c = 48 then FORMAT_FLAG_PAD_ZERO
                 else if c = 43 then FORMAT_FLAG_PRINT_SIGN else FORMAT_FLAG_ALTERNATE)"

definition flags_of :: "u8 list \<Rightarrow> u32 \<Rightarrow> u32" where
  "flags_of fs acc = foldl (\<lambda>a c. a OR flag_bit c) acc fs"

definition prec_of :: "nat option \<Rightarrow> nat" where
  "prec_of p = (case p of None \<Rightarrow> 0 | Some n \<Rightarrow> n)"

fun dir_fmt :: "directive \<Rightarrow> u8 list" where
  "dir_fmt (Lit c) = [c]"
| "dir_fmt (Conv fs fw p cv) =
     37 # fs @ (if fw = 0 then [] else radix_digits 10 fw) @
     (case p of None \<Rightarrow> [] | Some n \<Rightarrow> 46 # radix_digits 10 n) @ [conv_char cv]"

fun dir_text :: "directive \<Rightarrow> u8 list" where
  "dir_text (Lit c) = [c]"
| "dir_text (Conv fs fw p cv) = conv_text (flags_of fs 0) fw (prec_of p) cv"

fun dir_args :: "directive \<Rightarrow> varg list" where
  "dir_args (Lit c) = []"
| "dir_args (Conv fs fw p cv) = conv_args cv"

fun dir_ok :: "directive \<Rightarrow> bool" where
  "dir_ok (Lit c) \<longleftrightarrow> c \<noteq> 0 \<and> c \<noteq> 37"
| "dir_ok (Conv fs fw p cv) \<longleftrightarrow>
     set fs \<subseteq> {45, 48, 43, 35} \<and> fw < 2 ^ 32 \<and> prec_of p < 2 ^ 32 \<and> conv_ok (prec_of p) cv"

subsection \<open>Parsing what \<open>dir_fmt\<close> writes\<close>

lemma parse_flags_flags:
  assumes "set fs \<subseteq> {45, 48, 43, 35}" and "c \<notin> {45, 48, 43, 35}"
  shows "parse_flags (fs @ c # r) acc = Some (flags_of fs acc, c # r)"
  using assms by (induction fs arbitrary: acc) (auto simp: flags_of_def)

lemma parse_number_stop: "c < 48 \<or> c > 57 \<Longrightarrow> parse_number (c # r) acc = Some (acc, c # r)"
  by auto

definition dec_step :: "nat \<Rightarrow> u8 \<Rightarrow> nat" where
  "dec_step acc c = (acc * 10 + (unat c - 48)) mod 2 ^ 32"

lemma parse_number_digits:
  "(\<And>c. c \<in> set xs \<Longrightarrow> 48 \<le> c \<and> c \<le> 57) \<Longrightarrow> parse_number (xs @ r) acc = parse_number r (foldl dec_step acc xs)"
  by (induction xs arbitrary: acc) (auto simp: dec_step_def linorder_not_less [symmetric])

lemma aV2C_decimal: "d < 10 \<Longrightarrow> 48 \<le> aV2C ! d \<and> aV2C ! d \<le> 57 \<and> unat (aV2C ! d) = 48 + d"
proof -
  assume "d < 10"
  then have "d = 0 \<or> d = 1 \<or> d = 2 \<or> d = 3 \<or> d = 4 \<or> d = 5 \<or> d = 6 \<or> d = 7 \<or> d = 8 \<or> d = 9"
    by presburger
  then show ?thesis by (elim disjE) (simp_all add: aV2C_def)
qed

lemma radix_digits_decimal: "c \<in> set (radix_digits 10 n) \<Longrightarrow> 48 \<le> c \<and> c \<le> 57"
proof (induction "10::nat" n rule: radix_digits.induct)
  case (1 n)
  show ?case
  proof (cases "n < 10")
    case True
    then show ?thesis using "1.prems" aV2C_decimal [of n] by (subst (asm) radix_digits.simps) simp
  next
    case False
    then have "c \<in> set (radix_digits 10 (n div 10)) \<or> c = aV2C ! (n mod 10)"
      using "1.prems" by (subst (asm) radix_digits.simps) auto
    then show ?thesis using "1.hyps" False aV2C_decimal [of "n mod 10"] by auto
  qed
qed

lemma dec_step_radix: "n < 2 ^ 32 \<Longrightarrow> foldl dec_step 0 (radix_digits 10 n) = n"
proof (induction "10::nat" n rule: radix_digits.induct)
  case (1 n)
  show ?case
  proof (cases "n < 10")
    case True
    then show ?thesis using aV2C_decimal [of n] by (subst radix_digits.simps) (simp add: dec_step_def)
  next
    case False
    then have "foldl dec_step 0 (radix_digits 10 (n div 10)) = n div 10" using "1.hyps" "1.prems" by simp
    then show ?thesis using False "1.prems" aV2C_decimal [of "n mod 10"]
      by (subst radix_digits.simps) (simp add: dec_step_def)
  qed
qed

lemma parse_number_radix:
  "n < 2 ^ 32 \<Longrightarrow> c < 48 \<or> c > 57 \<Longrightarrow> parse_number (radix_digits 10 n @ c # r) 0 = Some (n, c # r)"
  using parse_number_digits [of "radix_digits 10 n" "c # r" 0] radix_digits_decimal [of _ n]
    dec_step_radix [of n] parse_number_stop [of c r n] by metis

lemma radix_digits_hd: "0 < n \<Longrightarrow> \<exists>d ds. radix_digits 10 n = d # ds \<and> 49 \<le> d \<and> d \<le> 57"
proof (induction "10::nat" n rule: radix_digits.induct)
  case (1 n)
  show ?case
  proof (cases "n < 10")
    case True
    then consider "n = 1" | "n = 2" | "n = 3" | "n = 4" | "n = 5" | "n = 6" | "n = 7" | "n = 8" | "n = 9"
      using "1.prems" by linarith
    then show ?thesis by cases (simp_all add: radix_digits.simps [of 10] aV2C_def)
  next
    case False
    then show ?thesis using "1.hyps" by (subst radix_digits.simps) force
  qed
qed

lemma conv_char_plain: "conv_char cv \<notin> {45, 48, 43, 35, 46, 108, 104}" "conv_char cv < 48 \<or> conv_char cv > 57"
  by (cases cv; simp)+

lemma parse_spec_fmt:
  assumes "set fs \<subseteq> {45, 48, 43, 35}" and "fw < 2 ^ 32" and "prec_of p < 2 ^ 32"
  shows "parse_spec (fs @ (if fw = 0 then [] else radix_digits 10 fw) @
           (case p of None \<Rightarrow> [] | Some n \<Rightarrow> 46 # radix_digits 10 n) @ [conv_char cv] @ r)
       = Some (flags_of fs 0, fw, prec_of p, conv_char cv, conv_char cv # r)"
proof -
  let ?c = "conv_char cv"
  define tail where "tail = (case p of None \<Rightarrow> [] | Some n \<Rightarrow> 46 # radix_digits 10 n) @ ?c # r"
  obtain t ts where t: "tail = t # ts" "t \<notin> {45, 48, 43, 35}" "t < 48 \<or> t > 57"
    using conv_char_plain [of cv] by (cases p) (auto simp: tail_def)
  have "\<exists>h hs. (if fw = 0 then [] else radix_digits 10 fw) @ tail = h # hs \<and> h \<notin> {45, 48, 43, 35}"
    using t radix_digits_hd [of fw] by (cases "fw = 0") (auto simp: word_le_nat_alt)
  then have fl: "parse_flags (fs @ (if fw = 0 then [] else radix_digits 10 fw) @ tail) 0
      = Some (flags_of fs 0, (if fw = 0 then [] else radix_digits 10 fw) @ tail)"
    using parse_flags_flags [OF assms(1)] by metis
  have num: "parse_number ((if fw = 0 then [] else radix_digits 10 fw) @ tail) 0 = Some (fw, tail)"
    using parse_number_radix [OF assms(2) t(3), of ts] t by (cases "fw = 0") auto
  have prec: "(case tail of [] \<Rightarrow> None | c # cs \<Rightarrow> if c = 46 then parse_number cs 0 else Some (0, tail))
      = Some (prec_of p, ?c # r)"
  proof (cases p)
    case None
    then show ?thesis using conv_char_plain [of cv] by (simp add: tail_def prec_of_def)
  next
    case (Some n)
    then show ?thesis using parse_number_radix [of n ?c r] conv_char_plain [of cv] assms(3)
      by (simp add: tail_def prec_of_def)
  qed
  have len: "parse_length ?c (?c # r) = Some (?c, ?c # r)" using conv_char_plain [of cv] by simp
  have fmt: "fs @ (if fw = 0 then [] else radix_digits 10 fw) @
      (case p of None \<Rightarrow> [] | Some n \<Rightarrow> 46 # radix_digits 10 n) @ [?c] @ r
    = fs @ (if fw = 0 then [] else radix_digits 10 fw) @ tail" by (simp add: tail_def)
  show ?thesis
    unfolding parse_spec_def fmt fl num prec option.case prod.case list.case len ..
qed

subsection \<open>The directives print their text\<close>

lemma StoreString_stored:
  "0 \<notin> set s \<Longrightarrow> 0 \<le> RV st \<Longrightarrow>
   (StoreString wr st (s @ 0 # r) = Some st' \<and> 0 \<le> RV st') \<longleftrightarrow> stored wr st s st' \<and> 0 \<le> RV st'"
proof (induction s arbitrary: st)
  case Nil then show ?case by auto
next
  case (Cons c s)
  show ?case
  proof (cases "StoreChar wr st c")
    case None then show ?thesis using Cons.prems by simp
  next
    case (Some st1)
    then show ?thesis using Cons by (cases "0 \<le> RV st1") auto
  qed
qed

lemma convert_text:
  assumes ok: "conv_ok nd cv" and rv: "0 \<le> RV st"
  shows "(convert wr st (conv_char cv) nd fw fl (conv_args cv @ rest) = Some (st', args') \<and> 0 \<le> RV st') \<longleftrightarrow>
         stored wr st (conv_text fl fw nd cv) st' \<and> args' = rest \<and> 0 \<le> RV st'"
proof -
  have lift: "((x \<bind> (\<lambda>st1. Some (st1, rest))) = Some (st', args') \<and> 0 \<le> RV st') \<longleftrightarrow>
      (x = Some st' \<and> 0 \<le> RV st') \<and> args' = rest" for x
    by (cases x) auto
  have nd: "wrap_s32 (int nd) = int nd" if "prec_ok b nd" "2 \<le> b" for b
    using prec_ok_small [OF that(2,1)] by (simp add: wrap_s32_id)
  have u10: "2 \<le> unat (10 :: u32)" "unat (10 :: u32) \<le> 16" and u16: "2 \<le> unat (16 :: u32)" "unat (16 :: u32) \<le> 16"
    by simp_all
  have uns: "(PrintUnsigned wr st (word_of_int v) B (int nd) fw fl = Some st' \<and> 0 \<le> RV st') \<longleftrightarrow>
      stored wr st (unsigned_text (unat B) (unsigned_of v) nd fw fl) st' \<and> 0 \<le> RV st'"
    if "2 \<le> unat B" "unat B \<le> 16" "prec_ok (unat B) nd" for B v nd fw fl
    using PrintUnsigned_text [OF that rv] by (simp add: unsigned_of_def)
  show ?thesis
  proof (cases cv)
    case (CInt v)
    then show ?thesis using lift PrintInt_text [OF u10, of nd v st wr fw fl st'] ok rv
      by (auto simp: convert_def va_int_def)
  next
    case (CUnsigned v)
    then show ?thesis using lift uns [OF u10, of nd v fw fl] ok nd [of 10]
      by (auto simp: convert_def va_int_def)
  next
    case (CHex v)
    then show ?thesis using lift uns [OF u16, of nd v fw fl] ok nd [of 16]
      by (auto simp: convert_def va_int_def)
  next
    case (CHexUpper v)
    then show ?thesis using lift uns [OF u16, of nd v fw fl] ok nd [of 16]
      by (auto simp: convert_def va_int_def)
  next
    case (CChar v)
    then show ?thesis using lift by (auto simp: convert_def va_int_def)
  next
    case (CStr s)
    then show ?thesis using lift StoreString_stored [of s st wr "[]" st'] ok rv
      by (auto simp: convert_def va_str_def)
  next
    case (CPtr v)
    have "prec_ok 16 8" by (simp add: prec_ok_def)
    then show ?thesis using CPtr lift uns [OF u16, of 8 v 8 0]
      by (auto simp: convert_def va_int_def)
  next
    case CPercent
    then show ?thesis using lift by (auto simp: convert_def)
  qed
qed

lemma vprintf_loop_dir:
  assumes ok: "dir_ok d" and rv: "0 \<le> RV st"
  shows "(vprintf_loop wr (dir_fmt d @ fmt) (dir_args d @ args) st = Some st' \<and> 0 \<le> RV st') \<longleftrightarrow>
         (\<exists>st1. stored wr st (dir_text d) st1 \<and> vprintf_loop wr fmt args st1 = Some st' \<and> 0 \<le> RV st')"
proof (cases d)
  case (Lit c)
  then show ?thesis using ok
    by (subst vprintf_loop.simps) (auto split: option.splits)
next
  case (Conv fs fw p cv)
  let ?c = "convert wr st (conv_char cv) (prec_of p) fw (flags_of fs 0) (conv_args cv @ args)"
  have okc: "conv_ok (prec_of p) cv" using ok Conv by simp
  have ps: "parse_spec ((fs @ (if fw = 0 then [] else radix_digits 10 fw) @
         (case p of None \<Rightarrow> [] | Some n \<Rightarrow> 46 # radix_digits 10 n) @ [conv_char cv]) @ fmt)
     = Some (flags_of fs 0, fw, prec_of p, conv_char cv, conv_char cv # fmt)"
    using parse_spec_fmt [of fs fw p cv fmt] ok Conv by simp
  have run: "vprintf_loop wr (dir_fmt d @ fmt) (dir_args d @ args) st =
     (case ?c of None \<Rightarrow> None
      | Some (st1, args') \<Rightarrow> if RV st1 \<ge> 0 then vprintf_loop wr fmt args' st1 else Some st1)"
    unfolding Conv dir_fmt.simps dir_args.simps append_Cons
    by (subst vprintf_loop.simps) (simp add: ps [simplified] split: option.split prod.split)
  have dt: "dir_text d = conv_text (flags_of fs 0) fw (prec_of p) cv" by (simp add: Conv)
  have cv: "?c = Some (s1, ar) \<and> 0 \<le> RV s1 \<longleftrightarrow> stored wr st (dir_text d) s1 \<and> ar = args" for s1 ar
    using convert_text [OF okc rv, of wr fw "flags_of fs 0" args s1 ar]
      stored_RV [of wr st "dir_text d" s1] rv unfolding dt by blast
  show ?thesis
  proof (cases ?c)
    case None
    have "\<not> stored wr st (dir_text d) s" for s using cv [of s args] unfolding None by simp
    then show ?thesis unfolding run None by simp
  next
    case (Some q)
    obtain st1 args' where q: "q = (st1, args')" by (cases q)
    note cv' = cv [unfolded Some q]
    show ?thesis
    proof (cases "0 \<le> RV st1")
      case True
      then have "stored wr st (dir_text d) st1" "args' = args" using cv' [of st1 args'] by blast+
      moreover then have "stored wr st (dir_text d) s \<longleftrightarrow> s = st1" for s
        using stored_fun [of wr st "dir_text d" st1] by blast
      ultimately show ?thesis unfolding run Some q using True by simp
    next
      case False
      have "\<not> stored wr st (dir_text d) s" for s using cv' [of s args] False by auto
      then show ?thesis unfolding run Some q using False by auto
    qed
  qed
qed

lemma vprintf_loop_text:
  "list_all dir_ok ds \<Longrightarrow> 0 \<le> RV st \<Longrightarrow>
   (vprintf_loop wr (concat (map dir_fmt ds) @ 0 # junk) (concat (map dir_args ds) @ args) st = Some st' \<and> 0 \<le> RV st') \<longleftrightarrow>
   stored wr st (concat (map dir_text ds)) st' \<and> 0 \<le> RV st'"
proof (induction ds arbitrary: st)
  case Nil
  then show ?case by (subst vprintf_loop.simps) auto
next
  case (Cons d ds)
  have ok: "dir_ok d" "list_all dir_ok ds" using Cons.prems by simp_all
  have "(vprintf_loop wr (concat (map dir_fmt (d # ds)) @ 0 # junk) (concat (map dir_args (d # ds)) @ args) st = Some st'
         \<and> 0 \<le> RV st') \<longleftrightarrow>
      (\<exists>st1. stored wr st (dir_text d) st1 \<and>
        (vprintf_loop wr (concat (map dir_fmt ds) @ 0 # junk) (concat (map dir_args ds) @ args) st1 = Some st' \<and> 0 \<le> RV st'))"
    using vprintf_loop_dir [OF ok(1) Cons.prems(2)] by simp
  also have "\<dots> \<longleftrightarrow> (\<exists>st1. stored wr st (dir_text d) st1 \<and>
        (stored wr st1 (concat (map dir_text ds)) st' \<and> 0 \<le> RV st'))"
    by (rule stored_bind [OF Cons.prems(2)], rule Cons.IH [OF ok(2)])
  also have "\<dots> \<longleftrightarrow> stored wr st (concat (map dir_text (d # ds))) st' \<and> 0 \<le> RV st'"
    by (auto simp: stored_append)
  finally show ?case .
qed

section \<open>What reaches the channel\<close>

context byte_sink begin

text \<open>The bytes of the channel followed by those still in the local buffer.\<close>

definition desc_text :: "'s pstate \<Rightarrow> u8 list" where
  "desc_text st = sent (fst st) @ take (nat (Cnt (snd st))) (pd_Buffer (snd st))"

definition desc_ok :: "'s pstate \<Rightarrow> bool" where
  "desc_ok st \<longleftrightarrow> good (fst st) \<and> 0 < BufferSize (snd st) \<and> BufferSize (snd st) < 2 ^ 31 \<and>
     length (pd_Buffer (snd st)) = nat (BufferSize (snd st)) \<and> 0 \<le> Cnt (snd st) \<and>
     Cnt (snd st) < BufferSize (snd st) \<and> 0 \<le> RV st"

lemma StoreChar_text:
  assumes ok: "desc_ok st" and sc: "StoreChar wr st c = Some st'" and rv: "0 \<le> RV st'"
  shows "desc_ok st' \<and> desc_text st' = desc_text st @ [c] \<and> RV st' = RV st + 1 \<and>
         BufferSize (snd st') = BufferSize (snd st) \<and>
         Cnt (snd st') = (Cnt (snd st) + 1) mod BufferSize (snd st)"
proof -
  obtain s p where st: "st = (s, p)" by (cases st)
  have p: "good s" "0 < BufferSize p" "BufferSize p < 2 ^ 31" "length (pd_Buffer p) = nat (BufferSize p)"
    "0 \<le> Cnt p" "Cnt p < BufferSize p" "0 \<le> ReturnValue p" using ok by (auto simp: desc_ok_def st)
  let ?buf = "(pd_Buffer p)[nat (Cnt p) := c]"
  let ?p1 = "p\<lparr>pd_Buffer := ?buf, Cnt := Cnt p + 1, ReturnValue := ReturnValue p + 1\<rparr>"
  have tk: "take (nat (Cnt p + 1)) ?buf = take (nat (Cnt p)) (pd_Buffer p) @ [c]"
    using p by (simp add: nat_add_distrib take_Suc_conv_app_nth)
  show ?thesis
  proof (cases "Cnt p + 1 = BufferSize p")
    case False
    then have "st' = (s, ?p1)" using sc p by (auto simp: StoreChar_def st Let_def)
    then show ?thesis using p False tk by (auto simp: desc_ok_def desc_text_def st)
  next
    case True
    then obtain s' n where w: "wr s ?buf (BufferSize p) = Some (s', n)"
      and st': "st' = (s', if n \<noteq> BufferSize p then ?p1\<lparr>ReturnValue := - 1\<rparr> else ?p1\<lparr>Cnt := 0\<rparr>)"
      using sc p by (auto simp: StoreChar_def st Let_def split: option.splits if_splits)
    have n: "n = BufferSize p" using rv st' by (auto split: if_splits)
    have "good s' \<and> sent s' = sent s @ ?buf"
      by (rule wr_all [OF p(1) _ _ _ w [unfolded n]]) (use p in auto)
    moreover have "take (nat (Cnt p + 1)) ?buf = ?buf" using p True by simp
    ultimately show ?thesis using st' n p True tk by (auto simp: desc_ok_def desc_text_def st)
  qed
qed

lemma stored_text:
  "stored wr st cs st' \<Longrightarrow> desc_ok st \<Longrightarrow>
   desc_ok st' \<and> desc_text st' = desc_text st @ cs \<and> RV st' = RV st + int (length cs) \<and>
   BufferSize (snd st') = BufferSize (snd st) \<and>
   Cnt (snd st') = (Cnt (snd st) + int (length cs)) mod BufferSize (snd st)"
proof (induction cs arbitrary: st)
  case Nil then show ?case by (auto simp: desc_ok_def)
next
  case (Cons c cs)
  then obtain st1 where 1: "StoreChar wr st c = Some st1" "0 \<le> RV st1" "stored wr st1 cs st'" by auto
  note sc = StoreChar_text [OF Cons.prems(2) 1(1,2)]
  then show ?case using Cons.IH [OF 1(3)] by (auto simp: mod_add_right_eq algebra_simps)
qed

text \<open>The state in which \<open>vprintf\<close> starts, and the whole of it when no flush is refused.\<close>

lemma vprintf_with_text:
  assumes g: "good s" and ok: "list_all dir_ok ds" and r: "0 \<le> r"
    and call: "vprintf_with wr s (concat (map dir_fmt ds) @ 0 # junk) (concat (map dir_args ds) @ args) = Some (s', r)"
  defines "tx \<equiv> concat (map dir_text ds)"
  shows "good s' \<and> r = int (length tx + length tx mod 128) \<and>
         (\<exists>k \<le> length tx mod 128. sent s' = sent s @ take (length tx - length tx mod 128 + k) tx)"
proof -
  let ?fmt = "concat (map dir_fmt ds) @ 0 # junk" and ?args = "concat (map dir_args ds) @ args"
  define p0 where "p0 = \<lparr>pd_Buffer = replicate 128 0, BufferSize = 128, Cnt = 0, ReturnValue = (0::int)\<rparr>"
  have ok0: "desc_ok (s, p0)" using g by (simp add: desc_ok_def p0_def)
  have run: "vprintf_with wr s ?fmt ?args = (case vprintf_loop wr ?fmt ?args (s, p0) of None \<Rightarrow> None
     | Some (s1, p) \<Rightarrow> if ReturnValue p > 0 then
               (if Cnt p \<noteq> 0 then
                  (case wr s1 (pd_Buffer p) (Cnt p) of None \<Rightarrow> None
                   | Some (s2, _) \<Rightarrow> Some (s2, ReturnValue p + Cnt p))
                else Some (s1, ReturnValue p + Cnt p))
             else Some (s1, ReturnValue p))"
    by (simp add: vprintf_with_def SEGGER_RTT_PRINTF_BUFFER_SIZE_def p0_def)
  obtain s1 p where l: "vprintf_loop wr ?fmt ?args (s, p0) = Some (s1, p)"
    using call unfolding run by (auto split: option.splits)
  have rv: "0 \<le> RV (s1, p)"
    using call r unfolding run l by (simp split: if_splits)
  have "stored wr (s, p0) tx (s1, p)"
    using vprintf_loop_text [OF ok, of "(s, p0)" wr junk args "(s1, p)"] l rv
    by (simp add: tx_def p0_def)
  note st = stored_text [OF this ok0]
  have f3: "Cnt p = int (length tx mod 128)" using st by (simp add: p0_def zmod_int)
  have f5: "sent s1 @ take (nat (Cnt p)) (pd_Buffer p) = sent s @ tx"
    using st by (auto simp: desc_text_def p0_def)
  have f: "good s1" "ReturnValue p = int (length tx)" "Cnt p = int (length tx mod 128)"
    "length (pd_Buffer p) = 128" "sent s1 @ take (length tx mod 128) (pd_Buffer p) = sent s @ tx"
    using st f3 f5 [unfolded f3 nat_int] by (simp_all add: desc_ok_def p0_def)
  have pre: "sent s1 @ take k (pd_Buffer p) = sent s @ take (length tx - length tx mod 128 + k) tx"
    if k: "k \<le> length tx mod 128" for k
  proof -
    let ?c = "length tx mod 128"
    have len: "length (sent s1) = length (sent s) + (length tx - ?c)"
      using arg_cong [OF f(5), of length] f(4) by simp
    have "take (length (sent s1) + k) (sent s1 @ take ?c (pd_Buffer p)) = sent s1 @ take k (pd_Buffer p)"
      using k by (simp add: min_def)
    moreover have "take (length (sent s1) + k) (sent s @ tx) = sent s @ take (length tx - ?c + k) tx"
      using len by simp
    ultimately show ?thesis using f(5) by simp
  qed
  show ?thesis
  proof (cases "length tx mod 128 = 0")
    case True
    then have "s' = s1 \<and> r = int (length tx)" using call f unfolding run l by (simp split: if_splits)
    then show ?thesis using pre [of 0] True f(1) by auto
  next
    case False
    then have pos: "0 < ReturnValue p" using f(2) by (cases "tx = []") auto
    then obtain m where m: "wr s1 (pd_Buffer p) (Cnt p) = Some (s', m)" "r = ReturnValue p + Cnt p"
      using call False f(3) unfolding run l by (auto split: option.splits)
    have "good s' \<and> 0 \<le> m \<and> m \<le> Cnt p \<and> sent s' = sent s1 @ take (nat m) (pd_Buffer p)"
      by (rule wr_stream [OF f(1) _ _ _ m(1)]) (use f(3,4) in auto)
    moreover from this have "nat m \<le> length tx mod 128" using f(3) by linarith
    ultimately show ?thesis using m(2) f pre [of "nat m"] by auto
  qed
qed

end

context live_sink begin

lemma StoreChar_live:
  assumes ok: "desc_ok st" and cr: "nat (Cnt (snd st)) + 1 + n \<le> credit (fst st)"
  shows "\<exists>st'. StoreChar wr st c = Some st' \<and> 0 \<le> RV st' \<and> nat (Cnt (snd st')) + n \<le> credit (fst st')"
proof -
  obtain s p where st: "st = (s, p)" by (cases st)
  have p: "good s" "0 < BufferSize p" "BufferSize p < 2 ^ 31" "length (pd_Buffer p) = nat (BufferSize p)"
    "0 \<le> Cnt p" "Cnt p < BufferSize p" "0 \<le> ReturnValue p" using ok by (auto simp: desc_ok_def st)
  show ?thesis
  proof (cases "Cnt p + 1 = BufferSize p")
    case False
    then show ?thesis using p cr by (auto simp: StoreChar_def st Let_def)
  next
    case True
    let ?buf = "(pd_Buffer p)[nat (Cnt p) := c]"
    have "\<exists>s'. wr s ?buf (BufferSize p) = Some (s', BufferSize p) \<and> credit s \<le> credit s' + nat (BufferSize p)"
      by (rule wr_live [OF p(1)]) (use p True cr st in auto)
    then obtain s' where "wr s ?buf (BufferSize p) = Some (s', BufferSize p)"
      "credit s \<le> credit s' + nat (BufferSize p)" by blast
    then show ?thesis using p True cr by (auto simp: StoreChar_def st Let_def)
  qed
qed

lemma stored_live:
  "desc_ok st \<Longrightarrow> nat (Cnt (snd st)) + length cs \<le> credit (fst st) \<Longrightarrow>
   \<exists>st'. stored wr st cs st' \<and> nat (Cnt (snd st')) \<le> credit (fst st')"
proof (induction cs arbitrary: st)
  case Nil then show ?case by auto
next
  case (Cons c cs)
  obtain st1 where 1: "StoreChar wr st c = Some st1" "0 \<le> RV st1" "nat (Cnt (snd st1)) + length cs \<le> credit (fst st1)"
    using StoreChar_live [OF Cons.prems(1), of "length cs" c] Cons.prems(2) by auto
  have "desc_ok st1" using StoreChar_text [OF Cons.prems(1) 1(1,2)] by simp
  from Cons.IH [OF this 1(3)] 1 show ?case by auto
qed

lemma vprintf_with_live:
  assumes g: "good s" and ok: "list_all dir_ok ds"
    and cr: "length (concat (map dir_text ds)) \<le> credit s"
  shows "\<exists>s'. vprintf_with wr s (concat (map dir_fmt ds) @ 0 # junk) (concat (map dir_args ds) @ args) =
           Some (s', int (length (concat (map dir_text ds)) + length (concat (map dir_text ds)) mod 128)) \<and>
         good s' \<and> sent s' = sent s @ concat (map dir_text ds)"
proof -
  let ?fmt = "concat (map dir_fmt ds) @ 0 # junk" and ?args = "concat (map dir_args ds) @ args"
  define tx where "tx = concat (map dir_text ds)"
  define p0 where "p0 = \<lparr>pd_Buffer = replicate 128 0, BufferSize = 128, Cnt = 0, ReturnValue = (0::int)\<rparr>"
  have ok0: "desc_ok (s, p0)" using g by (simp add: desc_ok_def p0_def)
  obtain s1 p where sd: "stored wr (s, p0) tx (s1, p)" and cr1: "nat (Cnt p) \<le> credit s1"
    using stored_live [OF ok0, of tx] cr by (force simp: p0_def tx_def)
  note st = stored_text [OF sd ok0]
  have f3: "Cnt p = int (length tx mod 128)" using st by (simp add: p0_def zmod_int)
  have f5: "sent s1 @ take (nat (Cnt p)) (pd_Buffer p) = sent s @ tx"
    using st by (auto simp: desc_text_def p0_def)
  have f: "good s1" "ReturnValue p = int (length tx)" "Cnt p = int (length tx mod 128)"
    "length (pd_Buffer p) = 128" "sent s1 @ take (length tx mod 128) (pd_Buffer p) = sent s @ tx"
    using st f3 f5 [unfolded f3 nat_int] by (simp_all add: desc_ok_def p0_def)
  have l: "vprintf_loop wr ?fmt ?args (s, p0) = Some (s1, p)"
    using vprintf_loop_text [OF ok, of "(s, p0)" wr junk args "(s1, p)"] sd f(2)
    by (simp add: tx_def p0_def)
  have "\<exists>s'. wr s1 (pd_Buffer p) (Cnt p) = Some (s', Cnt p) \<and> credit s1 \<le> credit s' + nat (Cnt p)"
    by (rule wr_live [OF f(1)]) (use f(3,4) cr1 in auto)
  then obtain s' where w: "wr s1 (pd_Buffer p) (Cnt p) = Some (s', Cnt p)" by blast
  have ws: "good s' \<and> sent s' = sent s1 @ take (nat (Cnt p)) (pd_Buffer p)"
    using wr_stream [OF f(1) _ _ _ w] f(3,4) by auto
  show ?thesis
  proof (cases "length tx mod 128 = 0")
    case True
    then show ?thesis using l f
      by (simp add: vprintf_with_def SEGGER_RTT_PRINTF_BUFFER_SIZE_def p0_def [symmetric] tx_def [symmetric])
  next
    case False
    then have "0 < ReturnValue p" using f(2) by (cases "tx = []") auto
    then show ?thesis using l f w ws False
      by (simp add: vprintf_with_def SEGGER_RTT_PRINTF_BUFFER_SIZE_def p0_def [symmetric] tx_def [symmetric])
  qed
qed

end

section \<open>Faulty formats\<close>

text \<open>Eight multiplications by 16 wrap \<open>Digit\<close> to 0.\<close>

lemma digit_scale_hex_zero:
  "n + k = 8 \<Longrightarrow> int n < nd \<Longrightarrow> digit_scale 16 v (16 ^ k) nd = None"
proof (induction n arbitrary: k nd)
  case 0
  then have "(16 :: u32) ^ k = 0" by simp
  then show ?case by (subst digit_scale.simps) simp
next
  case (Suc n)
  have "digit_scale 16 v (16 ^ Suc k) (nd - 1) = None" by (rule Suc.IH) (use Suc.prems in auto)
  then show ?case using Suc.prems by (subst digit_scale.simps) (simp add: mult.commute)
qed

lemma PrintUnsigned_hex_precision:
  assumes "9 \<le> nd"
  shows "PrintUnsigned wr st v 16 nd 0 fl = None"
  using digit_scale_hex_zero [of 8 0 nd v] assms by (simp add: PrintUnsigned_def Let_def)

lemma parse_length_plain: "c \<noteq> 108 \<Longrightarrow> c \<noteq> 104 \<Longrightarrow> parse_length c r = Some (c, r)"
  by (cases r) simp_all

lemma parse_spec_plain:
  assumes "k \<in> {99, 100, 117, 120, 88, 115, 112, 37}"
  shows "parse_spec (k # r) = Some (0, 0, 0, k, k # r)"
proof -
  have "k \<notin> {45, 48, 43, 35, 46, 108, 104} \<and> \<not> (48 \<le> k \<and> k \<le> 57)"
    using assms by (elim insertE emptyE) simp_all
  then show ?thesis by (simp add: parse_spec_def not_le)
qed

lemma parse_spec_length_modifier:
  assumes "k \<in> {99, 100, 117, 120, 88, 115, 112, 37}" and "m \<in> {108, 104}"
  shows "parse_spec (m # k # r) = Some (0, 0, 0, k, r)"
proof -
  have k: "k \<noteq> 108" "k \<noteq> 104" using assms(1) by auto
  from assms(2) consider "m = 108" | "m = 104" by auto
  then show ?thesis by cases (simp_all add: parse_spec_def k parse_length_plain)
qed

section \<open>Properties\<close>


text \<open>\<open>"n=%5d;%-4xL%s%%"\<close> with \<open>-42\<close>, \<open>255\<close> and \<open>"ok"\<close>.\<close>

definition demo_dirs :: "directive list" where
  "demo_dirs = [Lit 110, Lit 61, Conv [] 5 None (CInt (- 42)), Lit 59, Conv [45] 4 None (CHex 255), Lit 76,
                Conv [] 0 None (CStr [111, 107]), Conv [] 0 None CPercent]"

lemma demo_dirs_ok: "list_all dir_ok demo_dirs"
  by (simp add: demo_dirs_def prec_of_def prec_ok_def)

lemma demo_dirs_fmt: "concat (map dir_fmt demo_dirs) = map (of_nat \<circ> of_char) ''n=%5d;%-4xL%s%%''"
  by code_simp

lemma demo_dirs_text: "concat (map dir_text demo_dirs) = map (of_nat \<circ> of_char) ''n=  -42;FF  Lok%''"
  by code_simp


text \<open>On a channel in any mode, a non-negative result of \<open>SEGGER_RTT_printf\<close> means that every full
  local buffer was accepted: the stream got the text up to a part of the last, incomplete buffer that
  the final write may have cut or dropped without a trace in the result.\<close>

theorem rtt_printf_nonnegative:
  assumes "cb_ok b cb" and "list_all dir_ok ds" and "0 \<le> r"
    and "SEGGER_RTT_printf cb b (concat (map dir_fmt ds) @ 0 # junk) (concat (map dir_args ds) @ args) = Some (cb', r)"
  defines "tx \<equiv> concat (map dir_text ds)"
  shows "r = int (length tx + length tx mod 128) \<and>
         (\<exists>k \<le> length tx mod 128. up_sent b cb' = up_sent b cb @ take (length tx - length tx mod 128 + k) tx)"
  using up0.vprintf_with_text [OF assms(1-3)] assms(4)
  by (simp add: SEGGER_RTT_printf_def SEGGER_RTT_vprintf_def tx_def)

lemma rtt_printf_nonnegative_witness:
  "map_option snd (SEGGER_RTT_printf (demo_cb 0 [0, 0, 0]) 1 [65, 66, 67, 0] []) = Some 6 \<and>
   (\<exists>k \<le> 3. up_sent 1 (fst (the (SEGGER_RTT_printf (demo_cb 0 [0, 0, 0]) 1 [65, 66, 67, 0] []))) = take k [65, 66, 67])"
proof -
  have "map_option snd (SEGGER_RTT_printf (demo_cb 0 [0, 0, 0]) 1 [65, 66, 67, 0] []) = Some 6" by code_simp
  then obtain cb' where c: "SEGGER_RTT_printf (demo_cb 0 [0, 0, 0]) 1 [65, 66, 67, 0] [] = Some (cb', 6)" by auto
  have ok: "cb_ok 1 (demo_cb 0 [0, 0, 0])" using demo_cb_ok by simp
  have "list_all dir_ok [Lit 65, Lit 66, Lit 67]" by simp
  from rtt_printf_nonnegative [OF ok this, of 6 "[]" "[]" cb'] c show ?thesis
    by (auto simp: demo_cb_simps)
qed

text \<open>A hexadecimal conversion with a precision of nine or more has no result: \<open>Digit\<close> is multiplied
  by 16 once per digit beyond the first, wraps to 0 at the eighth, and the next quotient divides by
  zero. This holds for every channel, value and argument list.\<close>

theorem rtt_printf_hex_precision:
  assumes "9 \<le> n" and "n < 2 ^ 31"
  shows "SEGGER_RTT_printf cb b (37 # 46 # radix_digits 10 n @ 120 # 0 # junk) (VInt v # args) = None"
proof -
  have ps: "parse_spec (46 # radix_digits 10 n @ 120 # 0 # junk) = Some (0, 0, n, 120, 120 # 0 # junk)"
    using parse_spec_fmt [of "[]" 0 "Some n" "CHex v" "0 # junk"] assms
    by (simp add: prec_of_def flags_of_def)
  show ?thesis
    using assms by (simp add: SEGGER_RTT_printf_def SEGGER_RTT_vprintf_def vprintf_with_def Let_def
        vprintf_loop.simps [of _ "37 # 46 # radix_digits 10 n @ 120 # 0 # junk"] ps convert_def va_int_def
        wrap_s32_id PrintUnsigned_hex_precision)
qed

lemma rtt_printf_hex_precision_witness:
  "SEGGER_RTT_printf (demo_cb 0 [0, 0, 0]) 1 (37 # 46 # radix_digits 10 9 @ [120, 0]) [VInt 1] = None"
  using rtt_printf_hex_precision [of 9 "demo_cb 0 [0, 0, 0]" 1 "[]" 1 "[]"] by simp

text \<open>A length modifier eats a character. After \<open>%l\<close> or \<open>%h\<close> and a specifier, the character that
  follows the specifier is dropped from the output, whatever it is - also when it is the terminator of
  the format, in which case the conversion runs on past the end of the string.\<close>

theorem rtt_printf_length_modifier:
  assumes "k \<in> {99, 100, 117, 120, 88, 115, 112, 37}" and "m \<in> {108, 104}"
  shows "vprintf_loop wr (37 # m # k # c # fmt) args st = vprintf_loop wr (37 # k # fmt) args st"
  by (subst (1 2) vprintf_loop.simps)
     (simp add: parse_spec_length_modifier [OF assms] parse_spec_plain [OF assms(1)] split: option.split prod.split)

lemma rtt_printf_length_modifier_witness:
  "map_option (\<lambda>(cb, r). up_sent 1 cb) (SEGGER_RTT_printf (demo_cb 0 [0, 0, 0]) 1 [37, 108, 100, 33, 33, 0] [VInt 7])
     = Some [55, 33]"
proof -
  have "map_option (\<lambda>(cb, r). up_sent 1 cb) (SEGGER_RTT_printf (demo_cb 0 [0, 0, 0]) 1 [37, 100, 33, 0] [VInt 7])
     = Some [55, 33]" by code_simp
  then show ?thesis
    using rtt_printf_length_modifier [of 100 108 "\<lambda>cb. SEGGER_RTT_Write cb 1" 33 "[33, 0]" "[VInt 7]"]
    by (simp add: SEGGER_RTT_printf_def SEGGER_RTT_vprintf_def vprintf_with_def Let_def)
qed

end
