(* ===== verification/MemFuns.thy ===== *)
theory MemFuns
  imports CMem
begin

text \<open>
  The \<open>mem*\<close> functions of newlib (\<open>newlib/libc/string\<close>): the versions that are compiled for speed,
  with their word loops, and for the copy functions the plain version of the other branch of the
  \<open>#if\<close>. A function that stores returns the memory and its result. A null result is \<open>None\<close>.
\<close>

section \<open>Alignment and sizes\<close>

definition UNALIGNED2 :: "nat \<Rightarrow> nat \<Rightarrow> bool" where
  "UNALIGNED2 x y \<longleftrightarrow> x mod 4 \<noteq> 0 \<or> y mod 4 \<noteq> 0"

abbreviation (input) BIGBLOCKSIZE :: nat where "BIGBLOCKSIZE \<equiv> 16"
abbreviation (input) LITTLEBLOCKSIZE :: nat where "LITTLEBLOCKSIZE \<equiv> 4"
abbreviation (input) LBLOCKSIZE :: nat where "LBLOCKSIZE \<equiv> 4"

section \<open>Copying\<close>

text \<open>\<open>while (len0--) *dst++ = *src++;\<close>\<close>

fun byte_copier :: "mem \<Rightarrow> nat \<Rightarrow> nat \<Rightarrow> nat \<Rightarrow> mem \<times> nat \<times> nat" where
  "byte_copier m dst src 0 = (m, dst, src)"
| "byte_copier m dst src (Suc len) = byte_copier (m(dst := m src)) (dst + 1) (src + 1) len"

text \<open>\<open>*aligned_dst++ = *aligned_src++\<close>\<close>

definition copy_word :: "mem \<Rightarrow> nat \<Rightarrow> nat \<Rightarrow> mem" where
  "copy_word m dst src = store32 m dst (load32 m src)"

fun copy_big :: "mem \<Rightarrow> nat \<Rightarrow> nat \<Rightarrow> nat \<Rightarrow> mem \<times> nat \<times> nat \<times> nat" where
  "copy_big m dst src len =
     (if BIGBLOCKSIZE \<le> len then
        (let m1 = copy_word m dst src;
             m2 = copy_word m1 (dst + 4) (src + 4);
             m3 = copy_word m2 (dst + 8) (src + 8);
             m4 = copy_word m3 (dst + 12) (src + 12)
         in copy_big m4 (dst + 16) (src + 16) (len - BIGBLOCKSIZE))
      else (m, dst, src, len))"

fun copy_little :: "mem \<Rightarrow> nat \<Rightarrow> nat \<Rightarrow> nat \<Rightarrow> mem \<times> nat \<times> nat \<times> nat" where
  "copy_little m dst src len =
     (if LITTLEBLOCKSIZE \<le> len then
        copy_little (copy_word m dst src) (dst + 4) (src + 4) (len - LITTLEBLOCKSIZE)
      else (m, dst, src, len))"

declare copy_big.simps [simp del] copy_little.simps [simp del]

text \<open>The body the three copy functions share: words if it pays off, then bytes.\<close>

definition copy_fast :: "mem \<Rightarrow> nat \<Rightarrow> nat \<Rightarrow> nat \<Rightarrow> mem \<times> nat" where
  "copy_fast m0 dst0 src0 len0 =
     (let (m, dst, src, len) =
        (if \<not> len0 < BIGBLOCKSIZE \<and> \<not> UNALIGNED2 src0 dst0 then
           (let (m1, d1, s1, l1) = copy_big m0 dst0 src0 len0 in copy_little m1 d1 s1 l1)
         else (m0, dst0, src0, len0));
        (m', dst', src') = byte_copier m dst src len
      in (m', dst'))"

definition memcpy :: "mem \<Rightarrow> nat \<Rightarrow> nat \<Rightarrow> nat \<Rightarrow> mem \<times> nat" where
  "memcpy m dst0 src0 len0 = (let (m', dst) = copy_fast m dst0 src0 len0 in (m', dst0))"

definition mempcpy :: "mem \<Rightarrow> nat \<Rightarrow> nat \<Rightarrow> nat \<Rightarrow> mem \<times> nat" where
  "mempcpy m dst0 src0 len0 = (let (m', dst) = copy_fast m dst0 src0 len0 in (m', dst))"

text \<open>\<open>while (length--) *--dst = *--src;\<close>, with the pointers past the ends.\<close>

fun byte_copier_down :: "mem \<Rightarrow> nat \<Rightarrow> nat \<Rightarrow> nat \<Rightarrow> mem" where
  "byte_copier_down m dst src 0 = m"
| "byte_copier_down m dst src (Suc len) =
     byte_copier_down (m(dst - 1 := m (src - 1))) (dst - 1) (src - 1) len"

definition memmove :: "mem \<Rightarrow> nat \<Rightarrow> nat \<Rightarrow> nat \<Rightarrow> mem \<times> nat" where
  "memmove m dst src len =
     (if src < dst \<and> dst < src + len
      then (byte_copier_down m (dst + len) (src + len) len, dst)
      else (fst (copy_fast m dst src len), dst))"

definition memmove_size :: "mem \<Rightarrow> nat \<Rightarrow> nat \<Rightarrow> nat \<Rightarrow> mem \<times> nat" where
  "memmove_size m dst src len =
     (if src < dst \<and> dst < src + len
      then (byte_copier_down m (dst + len) (src + len) len, dst)
      else (fst (byte_copier m dst src len), dst))"

definition bcopy :: "mem \<Rightarrow> nat \<Rightarrow> nat \<Rightarrow> nat \<Rightarrow> mem" where
  "bcopy m b1 b2 len = fst (memmove m b2 b1 len)"

section \<open>Filling\<close>

text \<open>\<open>while (n--) *s++ = (char) c;\<close>\<close>

fun byte_filler :: "mem \<Rightarrow> nat \<Rightarrow> u8 \<Rightarrow> nat \<Rightarrow> mem" where
  "byte_filler m s c 0 = m"
| "byte_filler m s c (Suc n) = byte_filler (m(s := c)) (s + 1) c n"

text \<open>\<open>while (UNALIGNED (s)) { if (n--) *s++ = c; else return m; }\<close>: \<open>None\<close> for the return.\<close>

fun fill_align :: "mem \<Rightarrow> nat \<Rightarrow> u8 \<Rightarrow> nat \<Rightarrow> mem \<times> (nat \<times> nat) option" where
  "fill_align m s c 0 = (m, if s mod 4 = 0 then Some (s, 0) else None)"
| "fill_align m s c (Suc n) =
     (if s mod 4 = 0 then (m, Some (s, Suc n)) else fill_align (m(s := c)) (s + 1) c n)"

fun fill_big :: "mem \<Rightarrow> nat \<Rightarrow> u32 \<Rightarrow> nat \<Rightarrow> mem \<times> nat \<times> nat" where
  "fill_big m s b n =
     (if LBLOCKSIZE * 4 \<le> n then
        fill_big (store32 (store32 (store32 (store32 m s b) (s + 4) b) (s + 8) b) (s + 12) b) (s + 16) b
          (n - 4 * LBLOCKSIZE)
      else (m, s, n))"

fun fill_little :: "mem \<Rightarrow> nat \<Rightarrow> u32 \<Rightarrow> nat \<Rightarrow> mem \<times> nat \<times> nat" where
  "fill_little m s b n =
     (if LBLOCKSIZE \<le> n then fill_little (store32 m s b) (s + 4) b (n - LBLOCKSIZE) else (m, s, n))"

declare fill_big.simps [simp del] fill_little.simps [simp del]

definition memset :: "mem \<Rightarrow> nat \<Rightarrow> int \<Rightarrow> nat \<Rightarrow> mem \<times> nat" where
  "memset m0 s0 c n0 =
     (let d = word_of_int c :: u8 in
      case fill_align m0 s0 d n0 of
        (m, None) \<Rightarrow> (m, s0)
      | (m, Some (s, n)) \<Rightarrow>
          (let (m', s', n') =
             (if \<not> n < LBLOCKSIZE then
                (let (m1, s1, n1) = fill_big m s (fill_word d) n in fill_little m1 s1 (fill_word d) n1)
              else (m, s, n))
           in (byte_filler m' s' d n', s0)))"

definition bzero :: "mem \<Rightarrow> nat \<Rightarrow> nat \<Rightarrow> mem" where
  "bzero m b len = byte_filler m b 0 len"

section \<open>Comparing\<close>

fun cmp_words :: "mem \<Rightarrow> nat \<Rightarrow> nat \<Rightarrow> nat \<Rightarrow> nat \<times> nat \<times> nat" where
  "cmp_words m a1 a2 n =
     (if LBLOCKSIZE \<le> n \<and> load32 m a1 = load32 m a2 then cmp_words m (a1 + 4) (a2 + 4) (n - LBLOCKSIZE)
      else (a1, a2, n))"

declare cmp_words.simps [simp del]

fun cmp_bytes :: "mem \<Rightarrow> nat \<Rightarrow> nat \<Rightarrow> nat \<Rightarrow> int" where
  "cmp_bytes m s1 s2 0 = 0"
| "cmp_bytes m s1 s2 (Suc n) =
     (if m s1 \<noteq> m s2 then uint (m s1) - uint (m s2) else cmp_bytes m (s1 + 1) (s2 + 1) n)"

definition memcmp :: "mem \<Rightarrow> nat \<Rightarrow> nat \<Rightarrow> nat \<Rightarrow> int" where
  "memcmp m m1 m2 n =
     (let (s1, s2, n') = (if \<not> n < LBLOCKSIZE \<and> \<not> UNALIGNED2 m1 m2 then cmp_words m m1 m2 n else (m1, m2, n))
      in cmp_bytes m s1 s2 n')"

definition bcmp :: "mem \<Rightarrow> nat \<Rightarrow> nat \<Rightarrow> nat \<Rightarrow> int" where
  "bcmp m m1 m2 n = memcmp m m1 m2 n"

section \<open>Searching\<close>

text \<open>\<open>while (UNALIGNED (src)) { if (!length--) return NULL; if (*src == d) return src; src++; }\<close>; a
  return is a \<open>Inl\<close>.\<close>

fun find_align :: "mem \<Rightarrow> nat \<Rightarrow> u8 \<Rightarrow> nat \<Rightarrow> nat option + nat \<times> nat" where
  "find_align m src d 0 = (if src mod 4 = 0 then Inr (src, 0) else Inl None)"
| "find_align m src d (Suc n) =
     (if src mod 4 = 0 then Inr (src, Suc n)
      else if m src = d then Inl (Some src) else find_align m (src + 1) d n)"

fun find_words :: "mem \<Rightarrow> nat \<Rightarrow> u32 \<Rightarrow> nat \<Rightarrow> nat \<times> nat" where
  "find_words m a msk n =
     (if LBLOCKSIZE \<le> n \<and> \<not> DETECTCHAR (load32 m a) msk \<noteq> 0
      then find_words m (a + 4) msk (n - LBLOCKSIZE) else (a, n))"

declare find_words.simps [simp del]

fun find_bytes :: "mem \<Rightarrow> nat \<Rightarrow> u8 \<Rightarrow> nat \<Rightarrow> nat option" where
  "find_bytes m src d 0 = None"
| "find_bytes m src d (Suc n) = (if m src = d then Some src else find_bytes m (src + 1) d n)"

definition memchr :: "mem \<Rightarrow> nat \<Rightarrow> int \<Rightarrow> nat \<Rightarrow> nat option" where
  "memchr m src c len =
     (let d = word_of_int c :: u8 in
      case find_align m src d len of
        Inl r \<Rightarrow> r
      | Inr (s, n) \<Rightarrow>
          (let (s', n') = (if \<not> n < LBLOCKSIZE then find_words m s (fill_word d) n else (s, n))
           in find_bytes m s' d n'))"

text \<open>
  \<open>memrchr\<close> runs down. The model keeps the address one past \<open>src\<close>, so that a region at the start of
  the memory needs no negative address; \<open>UNALIGNED (src)\<close> tests \<open>src + 1\<close> there.
\<close>

fun rfind_align :: "mem \<Rightarrow> nat \<Rightarrow> u8 \<Rightarrow> nat \<Rightarrow> nat option + nat \<times> nat" where
  "rfind_align m e d 0 = (if e mod 4 = 0 then Inr (e, 0) else Inl None)"
| "rfind_align m e d (Suc n) =
     (if e mod 4 = 0 then Inr (e, Suc n)
      else if m (e - 1) = d then Inl (Some (e - 1)) else rfind_align m (e - 1) d n)"

fun rfind_words :: "mem \<Rightarrow> nat \<Rightarrow> u32 \<Rightarrow> nat \<Rightarrow> nat \<times> nat" where
  "rfind_words m e msk n =
     (if LBLOCKSIZE \<le> n \<and> \<not> DETECTCHAR (load32 m (e - LBLOCKSIZE)) msk \<noteq> 0
      then rfind_words m (e - 4) msk (n - LBLOCKSIZE) else (e, n))"

declare rfind_words.simps [simp del]

fun rfind_bytes :: "mem \<Rightarrow> nat \<Rightarrow> u8 \<Rightarrow> nat \<Rightarrow> nat option" where
  "rfind_bytes m e d 0 = None"
| "rfind_bytes m e d (Suc n) = (if m (e - 1) = d then Some (e - 1) else rfind_bytes m (e - 1) d n)"

definition memrchr :: "mem \<Rightarrow> nat \<Rightarrow> int \<Rightarrow> nat \<Rightarrow> nat option" where
  "memrchr m src c len =
     (let d = word_of_int c :: u8 in
      case rfind_align m (src + len) d len of
        Inl r \<Rightarrow> r
      | Inr (e, n) \<Rightarrow>
          (let (e', n') = (if \<not> n < LBLOCKSIZE then rfind_words m e (fill_word d) n else (e, n))
           in rfind_bytes m e' d n'))"

text \<open>\<open>rawmemchr\<close> has no bound: it returns only if the byte occurs.\<close>

definition rawmemchr :: "mem \<Rightarrow> nat \<Rightarrow> int \<Rightarrow> nat option" where
  "rawmemchr m src c =
     (let d = word_of_int c :: u8 in
      case skip_align (\<lambda>b. b = d) m src of
        (True, s) \<Rightarrow> Some s
      | (False, s) \<Rightarrow>
          (case skip_words (\<lambda>w. DETECTCHAR w (fill_word d) \<noteq> 0) m s of None \<Rightarrow> None
           | Some s' \<Rightarrow> skip_bytes (\<lambda>b. b = d) m s'))"

section \<open>Copying up to a byte\<close>

text \<open>The mask of \<open>memccpy\<close>: \<open>mask = (mask << 8) + endchar\<close>, four times.\<close>

definition ccpy_mask :: "u8 \<Rightarrow> u32" where
  "ccpy_mask c = (((0 * 256 + ucast c) * 256 + ucast c) * 256 + ucast c) * 256 + ucast c"

fun ccpy_words :: "mem \<Rightarrow> nat \<Rightarrow> nat \<Rightarrow> u32 \<Rightarrow> nat \<Rightarrow> mem \<times> nat \<times> nat \<times> nat" where
  "ccpy_words m dst src msk len =
     (if LITTLEBLOCKSIZE \<le> len \<and> \<not> DETECTNULL (load32 m src XOR msk) \<noteq> 0
      then ccpy_words (copy_word m dst src) (dst + 4) (src + 4) msk (len - LITTLEBLOCKSIZE)
      else (m, dst, src, len))"

declare ccpy_words.simps [simp del]

fun ccpy_bytes :: "mem \<Rightarrow> nat \<Rightarrow> nat \<Rightarrow> u8 \<Rightarrow> nat \<Rightarrow> mem \<times> nat option" where
  "ccpy_bytes m dst src c 0 = (m, None)"
| "ccpy_bytes m dst src c (Suc len) =
     (if m src = c then (m(dst := m src), Some (dst + 1))
      else ccpy_bytes (m(dst := m src)) (dst + 1) (src + 1) c len)"

definition memccpy :: "mem \<Rightarrow> nat \<Rightarrow> nat \<Rightarrow> int \<Rightarrow> nat \<Rightarrow> mem \<times> nat option" where
  "memccpy m dst0 src0 endchar0 len0 =
     (let c = word_of_int endchar0 :: u8;
          (m', dst, src, len) =
            (if \<not> len0 < LITTLEBLOCKSIZE \<and> \<not> UNALIGNED2 src0 dst0
             then ccpy_words m dst0 src0 (ccpy_mask c) len0 else (m, dst0, src0, len0))
      in ccpy_bytes m' dst src c len)"

section \<open>Swapping bytes\<close>

text \<open>The loop of \<open>swab\<close>, from \<open>ptr\<close> on; \<open>length\<close> is signed.\<close>

function swab_loop :: "mem \<Rightarrow> nat \<Rightarrow> nat \<Rightarrow> nat \<Rightarrow> int \<Rightarrow> mem \<times> nat" where
  "swab_loop m from to ptr len =
     (if int ptr < len then
        (let p = m (from + ptr); q = m (from + (ptr - 1))
         in swab_loop (m(to + (ptr - 1) := p, to + ptr := q)) from to (ptr + 2) len)
      else (m, ptr))"
  by pat_completeness auto
termination
  by (relation "measure (\<lambda>(_, _, _, ptr, len). nat (len - int ptr))") auto

declare swab_loop.simps [simp del]

definition swab :: "mem \<Rightarrow> nat \<Rightarrow> nat \<Rightarrow> int \<Rightarrow> mem" where
  "swab m b1 b2 len =
     (let (m', ptr) = swab_loop m b1 b2 1 len
      in if int ptr = len then m'(b2 + (ptr - 1) := 0) else m')"

section \<open>What the loops do\<close>

lemma byte_copier_region:
  "forward_ok d s n \<Longrightarrow> byte_copier m d s n = (region_copy m d s n, d + n, s + n)"
proof (induction n arbitrary: m d s)
  case (Suc n)
  have f: "forward_ok d s (1 + n)" using Suc.prems by simp
  have "forward_ok (d + 1) (s + 1) n" by (rule forward_ok_step [OF f])
  then show ?case using Suc.IH [of "d + 1" "s + 1"] region_copy_add [OF f, of m] by (simp add: region_copy_byte)
qed simp

lemma copy_word_region: "copy_word m d s = region_copy m d s 4"
  by (simp add: copy_word_def region_copy_word)

lemma copy_little_region:
  "forward_ok d s n \<Longrightarrow>
   copy_little m d s n = (region_copy m d s (4 * (n div 4)), d + 4 * (n div 4), s + 4 * (n div 4), n mod 4)"
proof (induction m d s n rule: copy_little.induct)
  case (1 m d s n)
  show ?case
  proof (cases "4 \<le> n")
    case True
    have f: "forward_ok d s (4 + (n - 4))" using 1(2) True by simp
    have fw: "forward_ok d s (4 + 4 * ((n - 4) div 4))" by (rule forward_ok_mono [OF f]) simp
    have "forward_ok (d + 4) (s + 4) (n - 4)" by (rule forward_ok_step [OF f])
    moreover have "4 * (n div 4) = 4 + 4 * ((n - 4) div 4)" "n mod 4 = (n - 4) mod 4"
      using True by (simp_all add: le_div_geq le_mod_geq)
    ultimately show ?thesis
      using 1(1) [OF True] region_copy_add [OF fw, of m] True
      by (subst copy_little.simps) (simp add: copy_word_region)
  next
    case False
    then show ?thesis by (subst copy_little.simps) simp
  qed
qed

lemma copy_four_words:
  assumes "forward_ok d s 16"
  shows "copy_word (copy_word (copy_word (copy_word m d s) (d + 4) (s + 4)) (d + 8) (s + 8)) (d + 12) (s + 12)
    = region_copy m d s 16"
  using region_copy_add [of d s 4 4 m] region_copy_add [of d s 8 4 m] region_copy_add [of d s 12 4 m]
    forward_ok_mono [OF assms, of 8] forward_ok_mono [OF assms, of 12] assms
  by (simp add: copy_word_region)

lemma copy_big_region:
  "forward_ok d s n \<Longrightarrow>
   copy_big m d s n = (region_copy m d s (16 * (n div 16)), d + 16 * (n div 16), s + 16 * (n div 16), n mod 16)"
proof (induction m d s n rule: copy_big.induct)
  case (1 m d s n)
  show ?case
  proof (cases "16 \<le> n")
    case True
    have f: "forward_ok d s (16 + (n - 16))" using 1(2) True by simp
    have fw: "forward_ok d s (16 + 16 * ((n - 16) div 16))" by (rule forward_ok_mono [OF f]) simp
    have f16: "forward_ok d s 16" by (rule forward_ok_mono [OF f]) simp
    have "forward_ok (d + 16) (s + 16) (n - 16)" by (rule forward_ok_step [OF f])
    note ih = 1(1) [OF True refl refl refl refl this, unfolded copy_four_words [OF f16]]
    have "16 * (n div 16) = 16 + 16 * ((n - 16) div 16)" "n mod 16 = (n - 16) mod 16"
      using True by (simp_all add: le_div_geq le_mod_geq)
    then show ?thesis
      using ih region_copy_add [OF fw, of m] True copy_four_words [OF f16, of m]
      by (subst copy_big.simps) (simp add: Let_def)
  next
    case False
    then show ?thesis by (subst copy_big.simps) simp
  qed
qed

lemma copy_fast_region:
  assumes f: "forward_ok d s n"
  shows "copy_fast m d s n = (region_copy m d s n, d + n)"
proof (cases "\<not> n < BIGBLOCKSIZE \<and> \<not> UNALIGNED2 s d")
  case False
  then show ?thesis by (auto simp: copy_fast_def byte_copier_region [OF f])
next
  case True
  define k where "k = 16 * (n div 16)"
  define j where "j = 4 * (n mod 16 div 4)"
  have nk: "n = k + n mod 16" "n mod 16 = j + n mod 16 mod 4" by (simp_all add: k_def j_def)
  have fk: "forward_ok d s (k + n mod 16)" using f nk(1) by simp
  have fkj: "forward_ok d s (k + j)" by (rule forward_ok_mono [OF fk]) (use nk(2) in linarith)
  have f1: "forward_ok (d + k) (s + k) (n mod 16)" by (rule forward_ok_step [OF fk])
  have f2: "forward_ok (d + k + j) (s + k + j) (n mod 16 mod 4)" by (rule forward_ok_step) (use f1 nk(2) in simp)
  have f3: "forward_ok d s (k + j + n mod 16 mod 4)" using f nk by (metis add.assoc)
  have len: "k + j + n mod 16 mod 4 = n" using nk by linarith
  show ?thesis
    using True copy_big_region [OF f, of m, folded k_def]
      copy_little_region [OF f1, of "region_copy m d s k", folded j_def]
      byte_copier_region [OF f2, of "region_copy m d s (k + j)"] region_copy_add [OF fkj, of m]
      region_copy_add [OF f3, of m, folded add.assoc] len
    by (simp add: copy_fast_def)
qed

lemma byte_copier_down_region:
  "s < d \<Longrightarrow> byte_copier_down m (d + n) (s + n) n = region_copy m d s n"
proof (induction n arbitrary: m)
  case (Suc n)
  have "byte_copier_down m (d + Suc n) (s + Suc n) (Suc n) = region_copy (m(d + n := m (s + n))) d s n"
    using Suc by simp
  also have "\<dots> = region_copy m d s (Suc n)"
    by (rule ext) (use Suc.prems in \<open>auto simp: region_copy_def less_Suc_eq\<close>)
  finally show ?case .
qed simp

lemma byte_filler_region: "byte_filler m s c n = region_fill m s n c"
proof (induction n arbitrary: m s)
  case (Suc n)
  then show ?case using region_fill_add [of m s 1 c n] by (simp add: region_fill_byte)
qed simp

lemma fill_align_region:
  "\<exists>k \<le> n. fill_align m s c n = (region_fill m s k c, if (s + k) mod 4 = 0 then Some (s + k, n - k) else None) \<and>
          ((s + k) mod 4 \<noteq> 0 \<longrightarrow> k = n)"
proof (induction n arbitrary: m s)
  case 0 then show ?case by simp
next
  case (Suc n)
  show ?case
  proof (cases "s mod 4 = 0")
    case True then show ?thesis by (intro exI [of _ 0]) simp
  next
    case False
    obtain k where "k \<le> n" "fill_align (m(s := c)) (s + 1) c n = (region_fill (m(s := c)) (s + 1) k c,
        if (s + 1 + k) mod 4 = 0 then Some (s + 1 + k, n - k) else None)" "(s + 1 + k) mod 4 \<noteq> 0 \<longrightarrow> k = n"
      using Suc.IH [of "m(s := c)" "s + 1"] by blast
    then show ?thesis using False region_fill_add [of m s 1 c k]
      by (intro exI [of _ "Suc k"]) (simp add: region_fill_byte)
  qed
qed

lemma fill_little_region:
  "fill_little m s (fill_word c) n = (region_fill m s (4 * (n div 4)) c, s + 4 * (n div 4), n mod 4)"
proof (induction n arbitrary: m s rule: less_induct)
  case (less n)
  show ?case
  proof (cases "4 \<le> n")
    case True
    have "4 * (n div 4) = 4 + 4 * ((n - 4) div 4)" "n mod 4 = (n - 4) mod 4"
      using True by (simp_all add: le_div_geq le_mod_geq)
    then show ?thesis using True less [of "n - 4"] region_fill_add [of m s 4 c]
      by (subst fill_little.simps) (simp add: region_fill_word)
  qed (subst fill_little.simps, simp)
qed

lemma fill_big_region:
  "fill_big m s (fill_word c) n = (region_fill m s (16 * (n div 16)) c, s + 16 * (n div 16), n mod 16)"
proof (induction n arbitrary: m s rule: less_induct)
  case (less n)
  show ?case
  proof (cases "16 \<le> n")
    case True
    have four: "store32 (store32 (store32 (store32 m s (fill_word c)) (s + 4) (fill_word c)) (s + 8) (fill_word c))
        (s + 12) (fill_word c) = region_fill m s 16 c"
      using region_fill_add [of m s 4 c 4] region_fill_add [of m s 8 c 4] region_fill_add [of m s 12 c 4]
      by (simp add: region_fill_word)
    have "16 * (n div 16) = 16 + 16 * ((n - 16) div 16)" "n mod 16 = (n - 16) mod 16"
      using True by (simp_all add: le_div_geq le_mod_geq)
    then show ?thesis using True less [of "n - 16"] region_fill_add [of m s 16 c] four
      by (subst fill_big.simps) simp
  qed (subst fill_big.simps, simp)
qed

lemma memset_region: "memset m s c n = (region_fill m s n (word_of_int c), s)"
proof -
  obtain k where k: "k \<le> n" "fill_align m s (word_of_int c) n = (region_fill m s k (word_of_int c),
      if (s + k) mod 4 = 0 then Some (s + k, n - k) else None)" "(s + k) mod 4 \<noteq> 0 \<longrightarrow> k = n"
    using fill_align_region [of n m s "word_of_int c"] by blast
  show ?thesis
  proof (cases "(s + k) mod 4 = 0")
    case False then show ?thesis using k by (simp add: memset_def)
  next
    case True
    define l where "l = n - k"
    have "region_fill (region_fill (region_fill (region_fill m s k d) (s + k) (16 * (l div 16)) d)
        (s + k + 16 * (l div 16)) (4 * (l mod 16 div 4)) d)
        (s + k + 16 * (l div 16) + 4 * (l mod 16 div 4)) (l mod 16 mod 4) d = region_fill m s n d" for d
    proof -
      have "k + (16 * (l div 16) + (4 * (l mod 16 div 4) + l mod 16 mod 4)) = n" using k(1) by (simp add: l_def)
      then show ?thesis by (simp add: region_fill_add add.assoc)
    qed
    moreover have "region_fill (region_fill m s k d) (s + k) l d = region_fill m s n d" for d
      using k(1) by (simp add: region_fill_add l_def)
    ultimately show ?thesis using True k
      by (simp add: memset_def Let_def fill_big_region fill_little_region byte_filler_region l_def [symmetric])
  qed
qed

section \<open>Comparing and searching\<close>

text \<open>The result of a comparison: the difference of the first bytes that differ.\<close>

definition first_diff :: "mem \<Rightarrow> nat \<Rightarrow> nat \<Rightarrow> nat \<Rightarrow> int" where
  "first_diff m s1 s2 n =
     (case filter (\<lambda>i. m (s1 + i) \<noteq> m (s2 + i)) [0..<n] of [] \<Rightarrow> 0
      | i # _ \<Rightarrow> uint (m (s1 + i)) - uint (m (s2 + i)))"

lemma upt_add_map: "[0..<k + n] = [0..<k] @ map (\<lambda>i. k + i) [0..<n]"
  by (induction n) simp_all

lemma first_diff_skip:
  assumes "\<forall>i<k. m (s1 + i) = m (s2 + i)"
  shows "first_diff m s1 s2 (k + n) = first_diff m (s1 + k) (s2 + k) n"
proof -
  have "filter (\<lambda>i. m (s1 + i) \<noteq> m (s2 + i)) [0..<k + n] =
        map (\<lambda>i. k + i) (filter (\<lambda>i. m (s1 + k + i) \<noteq> m (s2 + k + i)) [0..<n])"
    unfolding upt_add_map using assms by (simp add: filter_map comp_def add.assoc)
  then show ?thesis by (simp add: first_diff_def add.assoc split: list.split)
qed

lemma first_diff_at:
  assumes "k < n" and "\<forall>i<k. m (s1 + i) = m (s2 + i)" and "m (s1 + k) \<noteq> m (s2 + k)"
  shows "first_diff m s1 s2 n = uint (m (s1 + k)) - uint (m (s2 + k))"
proof -
  obtain l where l: "n = k + Suc l" using assms(1) less_imp_Suc_add by fastforce
  show ?thesis unfolding l using first_diff_skip [OF assms(2), of "Suc l"] assms(3)
    by (simp add: first_diff_def upt_conv_Cons del: upt_Suc)
qed

lemma first_diff_zero: "first_diff m s1 s2 n = 0 \<longleftrightarrow> (\<forall>i<n. m (s1 + i) = m (s2 + i))"
proof (cases "\<forall>i<n. m (s1 + i) = m (s2 + i)")
  case True
  then have "filter (\<lambda>i. m (s1 + i) \<noteq> m (s2 + i)) [0..<n] = []" by (simp add: filter_empty_conv)
  then show ?thesis using True by (simp add: first_diff_def)
next
  case False
  then obtain k where k: "k < n \<and> m (s1 + k) \<noteq> m (s2 + k)" "\<forall>i<k. \<not> (i < n \<and> m (s1 + i) \<noteq> m (s2 + i))"
    using exists_least_iff [of "\<lambda>i. i < n \<and> m (s1 + i) \<noteq> m (s2 + i)"] by blast
  then have "\<forall>i<k. m (s1 + i) = m (s2 + i)" by (meson order.strict_trans)
  then have "first_diff m s1 s2 n = uint (m (s1 + k)) - uint (m (s2 + k))"
    using first_diff_at k(1) by blast
  then show ?thesis using False k(1) by (simp add: word_uint_eq_iff)
qed

lemma cmp_bytes_first: "cmp_bytes m s1 s2 n = first_diff m s1 s2 n"
proof (induction n arbitrary: s1 s2)
  case 0 then show ?case by (simp add: first_diff_def)
next
  case (Suc n)
  show ?case
  proof (cases "m s1 = m s2")
    case True
    then show ?thesis using Suc first_diff_skip [of 1 m s1 s2 n] by simp
  next
    case False
    then show ?thesis by (simp add: first_diff_def upt_conv_Cons del: upt_Suc)
  qed
qed

lemma cmp_words_first:
  "cmp_words m a1 a2 n = (b1, b2, l) \<Longrightarrow> first_diff m b1 b2 l = first_diff m a1 a2 n"
proof (induction m a1 a2 n rule: cmp_words.induct)
  case (1 m a1 a2 n)
  show ?case
  proof (cases "4 \<le> n \<and> load32 m a1 = load32 m a2")
    case True
    then have "first_diff m a1 a2 n = first_diff m (a1 + 4) (a2 + 4) (n - 4)"
      using first_diff_skip [of 4 m a1 a2 "n - 4"] by (simp add: load32_eq_iff)
    then show ?thesis using 1 True by (subst (asm) cmp_words.simps) simp
  next
    case False
    then show ?thesis using 1(2) by (subst (asm) cmp_words.simps) auto
  qed
qed

lemma memcmp_first: "memcmp m s1 s2 n = first_diff m s1 s2 n"
proof -
  obtain b1 b2 l where "cmp_words m s1 s2 n = (b1, b2, l)" by (cases "cmp_words m s1 s2 n") auto
  then show ?thesis using cmp_words_first [of m s1 s2 n b1 b2 l] by (simp add: memcmp_def cmp_bytes_first)
qed

text \<open>The first and the last occurrence of a byte in a region.\<close>

definition occurrences :: "mem \<Rightarrow> nat \<Rightarrow> u8 \<Rightarrow> nat \<Rightarrow> nat list" where
  "occurrences m s d n = filter (\<lambda>a. m a = d) [s..<s + n]"

definition first_of :: "nat list \<Rightarrow> nat option" where
  "first_of xs = (case xs of [] \<Rightarrow> None | x # _ \<Rightarrow> Some x)"

lemma occurrences_0 [simp]: "occurrences m s d 0 = []"
  by (simp add: occurrences_def)

lemma occurrences_Suc: "occurrences m s d (Suc n) = (if m s = d then [s] else []) @ occurrences m (s + 1) d n"
  by (simp add: occurrences_def upt_conv_Cons del: upt_Suc)

lemma occurrences_add: "occurrences m s d (k + n) = occurrences m s d k @ occurrences m (s + k) d n"
  by (induction k arbitrary: s) (simp_all add: occurrences_Suc)

lemma occurrences_none: "\<forall>i<n. m (s + i) \<noteq> d \<Longrightarrow> occurrences m s d n = []"
  by (induction n arbitrary: s) (force simp: occurrences_Suc)+

lemma occurrences_4: "(\<exists>i<4. m (s + i) = d) \<longleftrightarrow> DETECTCHAR (load32 m s) (fill_word d) \<noteq> 0"
  by (auto simp: DETECTCHAR_iff)

lemma find_bytes_first: "find_bytes m s d n = first_of (occurrences m s d n)"
  by (induction n arbitrary: s) (simp_all add: occurrences_Suc first_of_def)

lemma find_words_first:
  "find_words m s (fill_word d) n = (s', n') \<Longrightarrow> occurrences m s' d n' = occurrences m s d n"
proof (induction n arbitrary: s rule: less_induct)
  case (less n)
  show ?case
  proof (cases "4 \<le> n \<and> \<not> DETECTCHAR (load32 m s) (fill_word d) \<noteq> 0")
    case True
    then have "occurrences m s d 4 = []" by (intro occurrences_none) (use occurrences_4 in blast)
    then have "occurrences m s d n = occurrences m (s + 4) d (n - 4)"
      using occurrences_add [of m s d 4 "n - 4"] True by simp
    then show ?thesis using less.IH [of "n - 4" "s + 4"] less.prems True by (subst (asm) find_words.simps) simp
  next
    case False
    then show ?thesis using less.prems by (subst (asm) find_words.simps) auto
  qed
qed

lemma find_align_first:
  "case find_align m s d n of Inl r \<Rightarrow> r = first_of (occurrences m s d n)
   | Inr (s', n') \<Rightarrow> first_of (occurrences m s' d n') = first_of (occurrences m s d n)"
  by (induction m s d n rule: find_align.induct) (auto simp: occurrences_Suc first_of_def split: sum.splits)

lemma memchr_first: "memchr m s c n = first_of (occurrences m s (word_of_int c) n)"
proof (cases "find_align m s (word_of_int c) n")
  case (Inl r)
  then show ?thesis using find_align_first [of m s "word_of_int c" n] by (simp add: memchr_def)
next
  case (Inr p)
  obtain s1 n1 where p: "p = (s1, n1)" by (cases p)
  obtain s2 n2 where w: "find_words m s1 (fill_word (word_of_int c)) n1 = (s2, n2)" by (cases "find_words m s1 (fill_word (word_of_int c)) n1")
  show ?thesis using find_align_first [of m s "word_of_int c" n] Inr p find_words_first [OF w] w
    by (simp add: memchr_def find_bytes_first Let_def)
qed

text \<open>Downwards: the region of \<open>n\<close> bytes below \<open>e\<close>.\<close>

lemma occurrences_snoc: "occurrences m s d (Suc n) = occurrences m s d n @ (if m (s + n) = d then [s + n] else [])"
  using occurrences_add [of m s d n 1] occurrences_Suc [of m "s + n" d 0] by simp

lemma rfind_bytes_last: "rfind_bytes m (s + n) d n = first_of (rev (occurrences m s d n))"
  by (induction n) (simp_all add: occurrences_snoc first_of_def)

lemma rfind_words_last:
  "rfind_words m (s + n) (fill_word d) n = (e, n') \<Longrightarrow>
   e = s + n' \<and> first_of (rev (occurrences m s d n')) = first_of (rev (occurrences m s d n))"
proof (induction n rule: less_induct)
  case (less n)
  show ?case
  proof (cases "4 \<le> n \<and> \<not> DETECTCHAR (load32 m (s + n - 4)) (fill_word d) \<noteq> 0")
    case True
    have "occurrences m (s + n - 4) d 4 = []" by (intro occurrences_none) (use occurrences_4 True in blast)
    then have "occurrences m s d n = occurrences m s d (n - 4)"
      using occurrences_add [of m s d "n - 4" 4] True by simp
    then show ?thesis using less.IH [of "n - 4"] less.prems True by (subst (asm) rfind_words.simps) simp
  next
    case False
    then show ?thesis using less.prems by (subst (asm) rfind_words.simps) auto
  qed
qed

lemma rfind_align_last:
  "case rfind_align m (s + n) d n of Inl r \<Rightarrow> r = first_of (rev (occurrences m s d n))
   | Inr (e, n') \<Rightarrow> e = s + n' \<and> first_of (rev (occurrences m s d n')) = first_of (rev (occurrences m s d n))"
proof (induction n)
  case (Suc n)
  then show ?case by (auto simp: occurrences_snoc first_of_def split: sum.splits)
qed (simp add: first_of_def)

lemma memrchr_last: "memrchr m s c n = first_of (rev (occurrences m s (word_of_int c) n))"
proof (cases "rfind_align m (s + n) (word_of_int c) n")
  case (Inl r)
  then show ?thesis using rfind_align_last [of m s "word_of_int c" n] by (simp add: memrchr_def)
next
  case (Inr p)
  obtain n1 where p: "p = (s + n1, n1)" "first_of (rev (occurrences m s (word_of_int c) n1)) = first_of (rev (occurrences m s (word_of_int c) n))"
    using rfind_align_last [of m s "word_of_int c" n] Inr by (cases p) auto
  obtain e n2 where w: "rfind_words m (s + n1) (fill_word (word_of_int c)) n1 = (e, n2)"
    by (cases "rfind_words m (s + n1) (fill_word (word_of_int c)) n1")
  show ?thesis using Inr p rfind_words_last [OF w] w by (auto simp: memrchr_def rfind_bytes_last Let_def)
qed

lemma rawmemchr_first:
  assumes "first_hit (\<lambda>b. b = word_of_int c) m s k"
  shows "rawmemchr m s c = Some (s + k)"
proof -
  obtain b j where a: "skip_align (\<lambda>b. b = word_of_int c) m s = (b, s + j)" "j \<le> k" "b \<longrightarrow> j = k"
    using skip_align_first [OF assms] by metis
  show ?thesis
  proof (cases b)
    case True then show ?thesis using a by (simp add: rawmemchr_def)
  next
    case False
    have "first_hit (\<lambda>b. b = word_of_int c) m (s + j) (k - j)" by (rule first_hit_shift [OF assms a(2)])
    from char_test.skip_words_then_bytes [OF this] show ?thesis
      using a False by (auto simp: rawmemchr_def)
  qed
qed

section \<open>Copying up to a byte, swapping\<close>

lemma ccpy_mask_fill: "ccpy_mask c = fill_word c"
proof -
  have u: "(ucast c :: u32) = word_of_int (uint c)" by simp
  have "fill_word c = word_of_int (uint (fill_word c))" by simp
  also have "uint (fill_word c) = uint c + 256 * (uint c + 256 * (uint c + 256 * uint c))"
    by (subst uint_bytes) simp
  also have "word_of_int \<dots> = ccpy_mask c" unfolding ccpy_mask_def u by (simp add: algebra_simps)
  finally show ?thesis ..
qed

text \<open>The last byte is copied, too; the result points behind it.\<close>

definition ccpy_result :: "mem \<Rightarrow> nat \<Rightarrow> nat \<Rightarrow> u8 \<Rightarrow> nat \<Rightarrow> mem \<times> nat option" where
  "ccpy_result m d s c n = (case first_of (occurrences m s c n) of
     None \<Rightarrow> (region_copy m d s n, None) | Some p \<Rightarrow> (region_copy m d s (p - s + 1), Some (d + (p - s + 1))))"

lemma occurrences_ge: "a \<in> set (occurrences m s c n) \<Longrightarrow> s \<le> a \<and> a < s + n \<and> m a = c"
  by (auto simp: occurrences_def)

lemma first_of_Some: "first_of xs = Some x \<Longrightarrow> x \<in> set xs"
  by (cases xs) (simp_all add: first_of_def)

lemma occurrences_cong:
  "(\<And>i. i < n \<Longrightarrow> m' (s + i) = m (s + i)) \<Longrightarrow> occurrences m' s c n = occurrences m s c n"
  unfolding occurrences_def by (rule filter_cong) (auto simp: le_iff_add)

text \<open>A prefix without the byte can be copied first.\<close>

lemma ccpy_result_skip:
  assumes dj: "d + (k + n) \<le> s \<or> s + (k + n) \<le> d" and none: "occurrences m s c k = []"
  shows "ccpy_result (region_copy m d s k) (d + k) (s + k) c n = ccpy_result m d s c (k + n)"
proof -
  let ?m = "region_copy m d s k"
  have o: "occurrences ?m (s + k) c n = occurrences m (s + k) c n"
    by (rule occurrences_cong) (use dj in \<open>auto simp: region_copy_def\<close>)
  have r: "region_copy ?m (d + k) (s + k) j = region_copy m d s (k + j)" if "j \<le> n" for j
    by (rule region_copy_add) (use dj that in \<open>auto simp: forward_ok_def\<close>)
  show ?thesis
  proof (cases "first_of (occurrences m (s + k) c n)")
    case None
    then show ?thesis by (simp add: ccpy_result_def o occurrences_add none r)
  next
    case (Some p)
    have p: "s + k \<le> p" "p < s + k + n" using occurrences_ge [OF first_of_Some [OF Some]] by auto
    have "k + (p - (s + k) + 1) = p - s + 1" "p - (s + k) + 1 \<le> n" using p by auto
    then show ?thesis using Some r [of "p - (s + k) + 1"]
      by (simp add: ccpy_result_def o occurrences_add none add.assoc)
  qed
qed

lemma ccpy_bytes_result:
  "d + n \<le> s \<or> s + n \<le> d \<Longrightarrow> ccpy_bytes m d s c n = ccpy_result m d s c n"
proof (induction n arbitrary: m d s)
  case 0 then show ?case by (simp add: ccpy_result_def first_of_def)
next
  case (Suc n)
  show ?case
  proof (cases "m s = c")
    case True
    then show ?thesis using region_copy_byte [of m d s] by (simp add: ccpy_result_def occurrences_Suc first_of_def)
  next
    case False
    then have "occurrences m s c 1 = []" by (simp add: occurrences_Suc)
    moreover have "ccpy_bytes (region_copy m d s 1) (d + 1) (s + 1) c n = ccpy_result (region_copy m d s 1) (d + 1) (s + 1) c n"
      by (rule Suc.IH) (use Suc.prems in auto)
    ultimately show ?thesis using Suc.prems False ccpy_result_skip [of d 1 n s m c] by (simp add: region_copy_byte)
  qed
qed

lemma ccpy_words_result:
  "d + n \<le> s \<or> s + n \<le> d \<Longrightarrow> ccpy_words m d s (fill_word c) n = (m', d', s', n') \<Longrightarrow>
   ccpy_result m' d' s' c n' = ccpy_result m d s c n \<and> (d' + n' \<le> s' \<or> s' + n' \<le> d')"
proof (induction n arbitrary: m d s rule: less_induct)
  case (less n)
  show ?case
  proof (cases "4 \<le> n \<and> \<not> DETECTNULL (load32 m s XOR fill_word c) \<noteq> 0")
    case True
    then have none: "occurrences m s c 4 = []"
      by (intro occurrences_none) (use occurrences_4 [of m s c] in \<open>auto simp: DETECTCHAR_def\<close>)
    have "ccpy_result (copy_word m d s) (d + 4) (s + 4) c (n - 4) = ccpy_result m d s c n"
      using ccpy_result_skip [of d 4 "n - 4" s m c] none less.prems True by (auto simp: copy_word_region)
    moreover have "ccpy_words (copy_word m d s) (d + 4) (s + 4) (fill_word c) (n - 4) = (m', d', s', n')"
      using less.prems True by (subst (asm) ccpy_words.simps) simp
    moreover have "d + 4 + (n - 4) \<le> s + 4 \<or> s + 4 + (n - 4) \<le> d + 4" using less.prems True by auto
    ultimately show ?thesis using less.IH [of "n - 4" "d + 4" "s + 4"] True by auto
  next
    case False
    then show ?thesis using less.prems by (subst (asm) ccpy_words.simps) auto
  qed
qed

lemma memccpy_result:
  assumes "d + n \<le> s \<or> s + n \<le> d"
  shows "memccpy m d s c n = ccpy_result m d s (word_of_int c) n"
proof -
  obtain m' d' s' n' where w: "ccpy_words m d s (fill_word (word_of_int c)) n = (m', d', s', n')"
    by (metis prod_cases4)
  show ?thesis
    using ccpy_words_result [OF assms w] w assms
    by (auto simp: memccpy_def ccpy_mask_fill ccpy_bytes_result Let_def)
qed

text \<open>What \<open>swab\<close> stores at offset \<open>i\<close> of the first \<open>n\<close> bytes.\<close>

definition swab_region :: "mem \<Rightarrow> nat \<Rightarrow> nat \<Rightarrow> nat \<Rightarrow> mem" where
  "swab_region m from to n = (\<lambda>a. if to \<le> a \<and> a < to + n
     then m (from + (if even (a - to) then a - to + 1 else a - to - 1)) else m a)"

lemma swab_region_step:
  assumes "from = to \<or> from + 2 * (j + 1) \<le> to \<or> to + 2 * (j + 1) \<le> from"
  shows "(swab_region m from to (2 * j))(to + 2 * j := swab_region m from to (2 * j) (from + (2 * j + 1)),
            to + (2 * j + 1) := swab_region m from to (2 * j) (from + 2 * j))
         = swab_region m from to (2 * (j + 1))"
  by (rule ext) (use assms in \<open>auto simp: swab_region_def\<close>)

lemma swab_loop_region:
  assumes "from = to \<or> from + nat len \<le> to \<or> to + nat len \<le> from" and "2 * int j + 1 \<le> len \<or> 2 * int j = len"
  shows "swab_loop (swab_region m from to (2 * j)) from to (2 * j + 1) len =
         (swab_region m from to (2 * (nat len div 2)), 2 * (nat len div 2) + 1)"
  using assms(2)
proof (induction "nat len - 2 * j" arbitrary: j rule: less_induct)
  case less
  show ?case
  proof (cases "2 * int j + 1 < len")
    case True
    then have st: "from = to \<or> from + 2 * (j + 1) \<le> to \<or> to + 2 * (j + 1) \<le> from" using assms(1) by auto
    have "swab_loop (swab_region m from to (2 * (j + 1))) from to (2 * (j + 1) + 1) len =
         (swab_region m from to (2 * (nat len div 2)), 2 * (nat len div 2) + 1)"
      by (rule less.hyps) (use True in auto)
    then show ?thesis using True swab_region_step [OF st, of m]
      by (subst swab_loop.simps) (simp add: Let_def)
  next
    case False
    then have "nat len div 2 = j" using less.prems by auto
    then show ?thesis using False by (subst swab_loop.simps) simp
  qed
qed

lemma swab_region_0 [simp]: "swab_region m from to 0 = m"
  by (rule ext) (auto simp: swab_region_def)

section \<open>Properties\<close>

text \<open>C38: \<open>memcpy\<close> and \<open>mempcpy\<close> copy the region, byte for byte, and touch nothing else, for every
  alignment and length - through the sixteen-byte loop, the word loop and the byte loop - whenever the
  regions do not overlap or the copy goes down; \<open>mempcpy\<close> returns the end.\<close>

theorem memcpy_correct:
  assumes "d + n \<le> s \<or> s + n \<le> d \<or> d \<le> s"
  shows "memcpy m d s n = (\<lambda>a. if d \<le> a \<and> a < d + n then m (s + (a - d)) else m a, d) \<and>
         mempcpy m d s n = (\<lambda>a. if d \<le> a \<and> a < d + n then m (s + (a - d)) else m a, d + n)"
proof -
  have "forward_ok d s n" using assms by (auto simp: forward_ok_def)
  then show ?thesis using copy_fast_region [of d s n m] by (simp add: memcpy_def mempcpy_def region_copy_def)
qed

definition demo_mem :: mem where "demo_mem = mem_at 100 (map word_of_nat [1..<60])"

lemma memcpy_correct_witness:
  "map (fst (memcpy demo_mem 200 104 23)) [199, 200, 201, 222, 223] = [0, 5, 6, 27, 0]"
proof -
  have e: "memcpy demo_mem 200 104 23 = (\<lambda>a. if 200 \<le> a \<and> a < 200 + 23 then demo_mem (104 + (a - 200)) else demo_mem a, 200)"
    using memcpy_correct [of 200 23 104 demo_mem] by simp
  show ?thesis unfolding e by code_simp
qed

text \<open>C39: \<open>memmove\<close> copies the region for every overlap: the result is the one of reading the whole
  source first. The version compiled for size, and \<open>bcopy\<close> with its arguments in the other order, do
  the same.\<close>

theorem memmove_correct:
  "memmove m d s n = (\<lambda>a. if d \<le> a \<and> a < d + n then m (s + (a - d)) else m a, d) \<and>
   memmove_size m d s n = memmove m d s n \<and> bcopy m s d n = fst (memmove m d s n)"
proof (cases "s < d \<and> d < s + n")
  case True
  then show ?thesis using byte_copier_down_region [of s d m n]
    by (simp add: memmove_def memmove_size_def bcopy_def region_copy_def)
next
  case False
  then have "forward_ok d s n" by (auto simp: forward_ok_def)
  then show ?thesis using copy_fast_region [of d s n m] byte_copier_region [of d s n m]
    unfolding memmove_def memmove_size_def bcopy_def if_not_P [OF False] by (simp add: region_copy_def)
qed

text \<open>\<open>memset\<close> sets exactly the bytes of the region to the low byte of its argument, whatever the
  alignment - through the alignment loop, the sixteen-byte loop, the word loop and the byte loop - and
  returns its first argument; \<open>bzero\<close> is \<open>memset\<close> with 0.\<close>

theorem memset_correct:
  "memset m s c n = (\<lambda>a. if s \<le> a \<and> a < s + n then word_of_int c else m a, s) \<and>
   bzero m s n = fst (memset m s 0 n)"
  by (simp add: memset_region bzero_def byte_filler_region region_fill_def)

text \<open>\<open>memcmp\<close> returns 0 exactly on equal regions, and otherwise the difference of the first two
  bytes that differ, as unsigned values; comparing words first does not change this. \<open>bcmp\<close> is the
  same.\<close>

theorem memcmp_correct:
  "(memcmp m s1 s2 n = 0 \<longleftrightarrow> (\<forall>i<n. m (s1 + i) = m (s2 + i))) \<and>
   (k < n \<and> (\<forall>i<k. m (s1 + i) = m (s2 + i)) \<and> m (s1 + k) \<noteq> m (s2 + k) \<longrightarrow>
    memcmp m s1 s2 n = uint (m (s1 + k)) - uint (m (s2 + k))) \<and>
   bcmp m s1 s2 n = memcmp m s1 s2 n"
  using first_diff_zero [of m s1 s2 n] first_diff_at [of k n m s1 s2] by (auto simp: memcmp_first bcmp_def)

lemma memcmp_correct_witness:
  "memcmp (demo_mem(120 := 7, 140 := 9)) 120 140 8 = - 2 \<and> memcmp demo_mem 104 104 9 = 0"
proof -
  have "(demo_mem(120 := 7, 140 := 9)) (120 + 0) \<noteq> (demo_mem(120 := 7, 140 := 9)) (140 + 0)" by simp
  then show ?thesis
    using memcmp_correct [of "demo_mem(120 := 7, 140 := 9)" 120 140 8 0] memcmp_correct [of demo_mem 104 104 9 0]
    by simp
qed

text \<open>The searches. \<open>memchr\<close> returns the first address in the region that holds the byte and
  \<open>memrchr\<close> the last one, and a null pointer exactly when there is none; \<open>rawmemchr\<close>, which has no
  bound, returns the first one when there is one. The word loops stop neither early nor late.\<close>

theorem memchr_correct:
  "(case memchr m s c n of
      None \<Rightarrow> \<forall>a. s \<le> a \<and> a < s + n \<longrightarrow> m a \<noteq> word_of_int c
    | Some p \<Rightarrow> s \<le> p \<and> p < s + n \<and> m p = word_of_int c \<and> (\<forall>a. s \<le> a \<and> a < p \<longrightarrow> m a \<noteq> word_of_int c) \<and>
                rawmemchr m s c = Some p) \<and>
   (case memrchr m s c n of
      None \<Rightarrow> \<forall>a. s \<le> a \<and> a < s + n \<longrightarrow> m a \<noteq> word_of_int c
    | Some p \<Rightarrow> s \<le> p \<and> p < s + n \<and> m p = word_of_int c \<and> (\<forall>a. p < a \<and> a < s + n \<longrightarrow> m a \<noteq> word_of_int c))"
proof -
  let ?d = "word_of_int c :: u8"
  have sorted: "sorted_wrt (<) (occurrences m s ?d n)"
    unfolding occurrences_def by (rule sorted_wrt_filter) simp
  have set: "a \<in> set (occurrences m s ?d n) \<longleftrightarrow> s \<le> a \<and> a < s + n \<and> m a = ?d" for a
    by (auto simp: occurrences_def)
  show ?thesis
  proof (cases "occurrences m s ?d n")
    case Nil
    then show ?thesis using set by (auto simp: memchr_first memrchr_last first_of_def)
  next
    case (Cons p ps)
    have later: "\<forall>a \<in> set ps. p < a" using sorted unfolding Cons by simp
    have p: "s \<le> p" "p < s + n" "m p = ?d" using set [of p] Cons by simp_all
    have before: "\<forall>a. s \<le> a \<and> a < p \<longrightarrow> m a \<noteq> ?d"
    proof (intro allI impI notI)
      fix a assume "s \<le> a \<and> a < p" "m a = ?d"
      then have "a \<in> set (p # ps)" using set [of a] p(2) Cons by simp
      then show False using later \<open>s \<le> a \<and> a < p\<close> by auto
    qed
    have "first_hit (\<lambda>b. b = ?d) m s (p - s)" using p before by (auto simp: first_hit_def)
    then have raw: "rawmemchr m s c = Some p" using rawmemchr_first p(1) by fastforce
    obtain qs q where q: "occurrences m s ?d n = qs @ [q]" using Cons by (metis list.distinct(1) rev_exhaust)
    have earlier: "\<forall>a \<in> set qs. a < q" using sorted unfolding q by (simp add: sorted_wrt_append)
    have "s \<le> q" "q < s + n" "m q = ?d" using set [of q] q by simp_all
    moreover have "\<forall>a. q < a \<and> a < s + n \<longrightarrow> m a \<noteq> ?d"
    proof (intro allI impI notI)
      fix a assume "q < a \<and> a < s + n" "m a = ?d"
      then have "a \<in> set (qs @ [q])" using set [of a] \<open>s \<le> q\<close> q by simp
      then show False using earlier \<open>q < a \<and> a < s + n\<close> by auto
    qed
    moreover have "first_of (rev (occurrences m s ?d n)) = Some q" unfolding q by (simp add: first_of_def)
    ultimately show ?thesis using p before raw Cons by (simp add: memchr_first memrchr_last first_of_def)
  qed
qed

lemma memchr_correct_witness:
  "memchr demo_mem 101 20 40 = Some 119 \<and> memrchr demo_mem 101 20 40 = Some 119 \<and> rawmemchr demo_mem 101 20 = Some 119"
proof -
  have "memchr demo_mem 101 20 40 = Some 119 \<and> memrchr demo_mem 101 20 40 = Some 119" by code_simp
  then show ?thesis using memchr_correct [where m = demo_mem and s = 101 and c = 20 and n = 40] by simp
qed

text \<open>\<open>memccpy\<close> copies up to and including the first occurrence of the byte and returns the address
  behind its copy; without an occurrence among the first \<open>n\<close> bytes it copies all of them and returns a
  null pointer.\<close>

theorem memccpy_correct:
  assumes "d + n \<le> s \<or> s + n \<le> d"
  shows "memccpy m d s c n = (case memchr m s c n of
      None \<Rightarrow> (fst (memcpy m d s n), None)
    | Some p \<Rightarrow> (fst (memcpy m d s (p - s + 1)), Some (d + (p - s + 1))))"
proof -
  have "fst (memcpy m d s k) = region_copy m d s k" if "k \<le> n" for k
    using copy_fast_region [of d s k m] assms that by (auto simp: memcpy_def forward_ok_def)
  moreover have "p - s + 1 \<le> n" if "first_of (occurrences m s (word_of_int c) n) = Some p" for p
    using occurrences_ge [OF first_of_Some [OF that]] by auto
  ultimately show ?thesis
    using memccpy_result [OF assms, of m c] by (simp add: ccpy_result_def memchr_first split: option.split)
qed

lemma memccpy_correct_witness: "snd (memccpy demo_mem 200 100 10 30) = Some 210"
proof -
  have "memchr demo_mem 100 10 30 = Some 109" by code_simp
  then show ?thesis using memccpy_correct [of 200 30 100 demo_mem 10] by simp
qed

text \<open>\<open>swab\<close> exchanges the two bytes of every pair, in place or into a separate region; an odd
  last byte becomes 0, and nothing outside the region changes.\<close>

theorem swab_correct:
  assumes "b1 = b2 \<or> b1 + n \<le> b2 \<or> b2 + n \<le> b1"
  shows "swab m b1 b2 (int n) = (\<lambda>a.
     if b2 \<le> a \<and> a < b2 + n then
       (if even (a - b2) then (if a + 1 < b2 + n then m (b1 + (a - b2 + 1)) else 0) else m (b1 + (a - b2 - 1)))
     else m a)"
proof (cases "n = 0")
  case True
  have "swab m b1 b2 0 = m" by (simp add: swab_def swab_loop.simps)
  then show ?thesis using True by (intro ext) auto
next
  case False
  have l: "swab_loop m b1 b2 1 (int n) = (swab_region m b1 b2 (2 * (n div 2)), 2 * (n div 2) + 1)"
    using swab_loop_region [of b1 b2 "int n" 0 m] assms False by simp
  show ?thesis
  proof (cases "even n")
    case True
    then have "swab m b1 b2 (int n) = swab_region m b1 b2 n" using l by (auto simp: swab_def)
    moreover have "a + 1 < b2 + n" if "even (a - b2)" "b2 \<le> a" "a < b2 + n" for a
      using True that by presburger
    ultimately show ?thesis by (simp add: swab_region_def fun_eq_iff)
  next
    case o: False
    then have "2 * (n div 2) = n - 1" "n - 1 + 1 = n" by presburger+
    then have "swab m b1 b2 (int n) = (swab_region m b1 b2 (n - 1))(b2 + (n - 1) := 0)" using l by (simp add: swab_def)
    then show ?thesis using o by (auto simp: swab_region_def fun_eq_iff)
  qed
qed

lemma swab_correct_witness: "map (swab demo_mem 100 200 5) [200, 201, 202, 203, 204, 205] = [2, 1, 4, 3, 0, 0]"
proof -
  have e: "swab demo_mem 100 200 5 = (\<lambda>a. if 200 \<le> a \<and> a < 200 + 5 then
       (if even (a - 200) then (if a + 1 < 200 + 5 then demo_mem (100 + (a - 200 + 1)) else 0) else demo_mem (100 + (a - 200 - 1)))
     else demo_mem a)"
    using swab_correct [of 100 200 5 demo_mem] by simp
  show ?thesis unfolding e by code_simp
qed

end
