(* ===== verification/StrScan.thy ===== *)
theory StrScan
  imports MemFuns
begin

text \<open>
  The functions of newlib that scan strings (\<open>newlib/libc/string\<close>). A function that need not return
  has an option result; where it may return a null pointer, the value inside is an option again.
\<close>

section \<open>Length\<close>

definition strlen :: "mem \<Rightarrow> nat \<Rightarrow> nat option" where
  "strlen m str =
     (case skip_align (\<lambda>b. b = 0) m str of
        (True, s) \<Rightarrow> Some (s - str)
      | (False, s) \<Rightarrow>
          (case skip_words (\<lambda>w. DETECTNULL w \<noteq> 0) m s of None \<Rightarrow> None
           | Some a \<Rightarrow> map_option (\<lambda>e. e - str) (skip_bytes (\<lambda>b. b = 0) m a)))"

text \<open>\<open>while (n-- > 0 && *str) str++;\<close>\<close>

fun strnlen_loop :: "mem \<Rightarrow> nat \<Rightarrow> nat \<Rightarrow> nat" where
  "strnlen_loop m str 0 = str"
| "strnlen_loop m str (Suc n) = (if m str \<noteq> 0 then strnlen_loop m (str + 1) n else str)"

definition strnlen :: "mem \<Rightarrow> nat \<Rightarrow> nat \<Rightarrow> nat" where
  "strnlen m str n = strnlen_loop m str n - str"

section \<open>Characters\<close>

definition strchr :: "mem \<Rightarrow> nat \<Rightarrow> int \<Rightarrow> nat option option" where
  "strchr m s1 i =
     (let c = word_of_int i :: u8 in
      if c = 0 then
        (case skip_align (\<lambda>b. b = 0) m s1 of
           (True, s) \<Rightarrow> Some (Some s)
         | (False, s) \<Rightarrow>
             (case skip_words (\<lambda>w. DETECTNULL w \<noteq> 0) m s of None \<Rightarrow> None
              | Some a \<Rightarrow> map_option Some (skip_bytes (\<lambda>b. b = 0) m a)))
      else
        (case skip_align (\<lambda>b. b = 0 \<or> b = c) m s1 of
           (True, s) \<Rightarrow> Some (if m s = 0 then None else Some s)
         | (False, s) \<Rightarrow>
             (case skip_words (\<lambda>w. DETECTNULL w \<noteq> 0 \<or> DETECTCHAR w (fill_word c) \<noteq> 0) m s of None \<Rightarrow> None
              | Some a \<Rightarrow> map_option (\<lambda>e. if m e = c then Some e else None)
                            (skip_bytes (\<lambda>b. b = 0 \<or> b = c) m a))))"

definition index :: "mem \<Rightarrow> nat \<Rightarrow> int \<Rightarrow> nat option option" where
  "index m s c = strchr m s c"

text \<open>\<open>while ((s = strchr (s, i))) { last = s; s++; }\<close>\<close>

partial_function (option) strrchr_loop :: "mem \<Rightarrow> nat \<Rightarrow> int \<Rightarrow> nat option \<Rightarrow> nat option option" where
  "strrchr_loop m s i lst =
     (case strchr m s i of None \<Rightarrow> None
      | Some None \<Rightarrow> Some lst
      | Some (Some s') \<Rightarrow> strrchr_loop m (s' + 1) i (Some s'))"

definition strrchr :: "mem \<Rightarrow> nat \<Rightarrow> int \<Rightarrow> nat option option" where
  "strrchr m s i = (if i \<noteq> 0 then strrchr_loop m s i None else strchr m s i)"

definition rindex :: "mem \<Rightarrow> nat \<Rightarrow> int \<Rightarrow> nat option option" where
  "rindex m s c = strrchr m s c"

definition strchrnul :: "mem \<Rightarrow> nat \<Rightarrow> int \<Rightarrow> nat option" where
  "strchrnul m s1 i =
     (case strchr m s1 i of None \<Rightarrow> None
      | Some (Some s) \<Rightarrow> Some s
      | Some None \<Rightarrow> map_option (\<lambda>n. s1 + n) (strlen m s1))"

section \<open>Spans\<close>

text \<open>\<open>for (c = s2; *c; c++) if (*s1 == *c) break;\<close>: where \<open>c\<close> ends up.\<close>

definition set_scan :: "mem \<Rightarrow> u8 \<Rightarrow> nat \<Rightarrow> nat option" where
  "set_scan m b s2 = skip_bytes (\<lambda>x. x = 0 \<or> x = b) m s2"

partial_function (option) strspn_loop :: "mem \<Rightarrow> nat \<Rightarrow> nat \<Rightarrow> nat option" where
  "strspn_loop m s1 s2 =
     (if m s1 \<noteq> 0 then
        (case set_scan m (m s1) s2 of None \<Rightarrow> None
         | Some c \<Rightarrow> if m c = 0 then Some s1 else strspn_loop m (s1 + 1) s2)
      else Some s1)"

definition strspn :: "mem \<Rightarrow> nat \<Rightarrow> nat \<Rightarrow> nat option" where
  "strspn m s1 s2 = map_option (\<lambda>e. e - s1) (strspn_loop m s1 s2)"

text \<open>The loop of \<open>strcspn\<close> and \<open>strpbrk\<close>; the latter also looks at the last \<open>c\<close>.\<close>

partial_function (option) strcspn_loop :: "mem \<Rightarrow> nat \<Rightarrow> nat \<Rightarrow> nat \<Rightarrow> (nat \<times> nat) option" where
  "strcspn_loop m s1 s2 c0 =
     (if m s1 \<noteq> 0 then
        (case set_scan m (m s1) s2 of None \<Rightarrow> None
         | Some c \<Rightarrow> if m c \<noteq> 0 then Some (s1, c) else strcspn_loop m (s1 + 1) s2 c)
      else Some (s1, c0))"

definition strcspn :: "mem \<Rightarrow> nat \<Rightarrow> nat \<Rightarrow> nat option" where
  "strcspn m s1 s2 = map_option (\<lambda>(e, c). e - s1) (strcspn_loop m s1 s2 s2)"

definition strpbrk :: "mem \<Rightarrow> nat \<Rightarrow> nat \<Rightarrow> nat option option" where
  "strpbrk m s1 s2 =
     (if m s1 = 0 then Some None
      else map_option (\<lambda>(e, c). if m c = 0 then None else Some e) (strcspn_loop m s1 s2 s2))"

section \<open>Substrings, compiled for size\<close>

text \<open>The inner loop of \<open>strstr\<close>: whether \<open>lookfor\<close> is a prefix of \<open>searchee\<close>.\<close>

partial_function (option) prefix_at :: "mem \<Rightarrow> nat \<Rightarrow> nat \<Rightarrow> nat \<Rightarrow> bool option" where
  "prefix_at m searchee lookfor i =
     (if m (lookfor + i) = 0 then Some True
      else if m (lookfor + i) \<noteq> m (searchee + i) then Some False
      else prefix_at m searchee lookfor (i + 1))"

partial_function (option) strstr_loop :: "mem \<Rightarrow> nat \<Rightarrow> nat \<Rightarrow> nat option option" where
  "strstr_loop m searchee lookfor =
     (if m searchee \<noteq> 0 then
        (case prefix_at m searchee lookfor 0 of None \<Rightarrow> None
         | Some found \<Rightarrow> if found then Some (Some searchee) else strstr_loop m (searchee + 1) lookfor)
      else Some None)"

definition strstr_size :: "mem \<Rightarrow> nat \<Rightarrow> nat \<Rightarrow> nat option option" where
  "strstr_size m searchee lookfor =
     (if m searchee = 0 then Some (if m lookfor \<noteq> 0 then None else Some searchee)
      else strstr_loop m searchee lookfor)"

text \<open>\<open>memmem\<close>: the regions are bounded, so the loop ends.\<close>

fun memmem_loop :: "mem \<Rightarrow> nat \<Rightarrow> nat \<Rightarrow> nat \<Rightarrow> nat \<Rightarrow> nat option" where
  "memmem_loop m h 0 n nlen = (if nlen \<le> 0 \<and> memcmp m h n nlen = 0 then Some h else None)"
| "memmem_loop m h (Suc hlen) n nlen =
     (if nlen \<le> Suc hlen then
        (if memcmp m h n nlen = 0 then Some h else memmem_loop m (h + 1) hlen n nlen)
      else None)"

definition memmem_size :: "mem \<Rightarrow> nat \<Rightarrow> nat \<Rightarrow> nat \<Rightarrow> nat \<Rightarrow> nat option" where
  "memmem_size m h hlen n nlen = (if nlen = 0 then Some h else memmem_loop m h hlen n nlen)"

declare strrchr_loop.simps [code] strspn_loop.simps [code] strcspn_loop.simps [code] prefix_at.simps [code]
  strstr_loop.simps [code]

section \<open>Null-terminated strings\<close>

lemma cstr_scan:
  assumes "cstr m p s"
  shows "skip_align (\<lambda>b. b = 0) m p = (True, e) \<Longrightarrow> e = p + length s"
    and "skip_align (\<lambda>b. b = 0) m p = (False, a) \<Longrightarrow>
         \<exists>w. skip_words (\<lambda>w. DETECTNULL w \<noteq> 0) m a = Some w \<and> skip_bytes (\<lambda>b. b = 0) m w = Some (p + length s)"
proof -
  have h: "first_hit (\<lambda>b. b = 0) m p (length s)" by (rule cstr_first_hit [OF assms])
  obtain b j where j: "skip_align (\<lambda>b. b = 0) m p = (b, p + j)" "j \<le> length s" "b \<longrightarrow> j = length s"
    using skip_align_first [OF h] by metis
  show "skip_align (\<lambda>b. b = 0) m p = (True, e) \<Longrightarrow> e = p + length s" using j by simp
  have "first_hit (\<lambda>b. b = 0) m (p + j) (length s - j)" by (rule first_hit_shift [OF h j(2)])
  from null_test.skip_words_then_bytes [OF this]
  show "skip_align (\<lambda>b. b = 0) m p = (False, a) \<Longrightarrow>
         \<exists>w. skip_words (\<lambda>w. DETECTNULL w \<noteq> 0) m a = Some w \<and> skip_bytes (\<lambda>b. b = 0) m w = Some (p + length s)"
    using j by auto
qed

lemma strlen_cstr: "cstr m p s \<Longrightarrow> strlen m p = Some (length s)"
  using cstr_scan [of m p s] by (auto simp: strlen_def split: prod.split bool.split)

lemma strnlen_loop_cstr: "cstr m p s \<Longrightarrow> strnlen_loop m p n = p + min n (length s)"
proof (induction n arbitrary: p s)
  case (Suc n)
  then show ?case by (cases s) (auto simp: cstr_Cons)
qed simp

text \<open>The first byte of the string that satisfies a test.\<close>

lemma cstr_first_hit_or:
  assumes "cstr m p s"
  shows "first_hit (\<lambda>b. b = 0 \<or> t b) m p (length (takeWhile (\<lambda>b. \<not> t b) s))"
  using assms
proof (induction s arbitrary: p)
  case (Cons c s)
  then show ?case by (auto simp: cstr_Cons first_hit_Suc)
qed simp

lemma cstr_nth: "cstr m p s \<Longrightarrow> i < length s \<Longrightarrow> m (p + i) = s ! i \<and> s ! i \<noteq> 0"
  by (auto simp: cstr_def in_set_conv_nth)

lemma cstr_end: "cstr m p s \<Longrightarrow> m (p + length s) = 0"
  by (simp add: cstr_def)

lemma cstr_drop: "cstr m p s \<Longrightarrow> i \<le> length s \<Longrightarrow> cstr m (p + i) (drop i s)"
  using cstr_append [of m p "take i s" "drop i s"] by (simp add: min_absorb2)

lemma length_takeWhile_neq: "c \<in> set s \<Longrightarrow> length (takeWhile (\<lambda>b. b \<noteq> c) s) < length s"
  by (induction s) auto

lemma stop_byte:
  assumes s: "cstr m p s" and nz: "c \<noteq> 0"
  defines "k \<equiv> length (takeWhile (\<lambda>b. b \<noteq> c) s)"
  shows "m (p + k) = (if c \<in> set s then c else 0)"
proof (cases "c \<in> set s")
  case True
  then have "k < length s" "s ! k = c"
    unfolding k_def using nth_length_takeWhile [of "\<lambda>b. b \<noteq> c" s] length_takeWhile_neq [OF True] by auto
  then show ?thesis using cstr_nth [OF s] True by simp
next
  case False
  then have "takeWhile (\<lambda>b. b \<noteq> c) s = s" by (auto simp: takeWhile_eq_all_conv)
  then have "k = length s" unfolding k_def by (rule arg_cong)
  then show ?thesis using cstr_end [OF s] False by simp
qed

lemma strchr_cstr:
  assumes s: "cstr m p s" and c: "word_of_int i = (c :: u8)" and nz: "c \<noteq> 0"
  shows "strchr m p i = Some (if c \<in> set s then Some (p + length (takeWhile (\<lambda>b. b \<noteq> c) s)) else None)"
proof -
  define k where "k = length (takeWhile (\<lambda>b. b \<noteq> c) s)"
  have h: "first_hit (\<lambda>b. b = 0 \<or> b = c) m p k"
    unfolding k_def using cstr_first_hit_or [OF s, of "\<lambda>b. b = c"] by simp
  have at: "m (p + k) = (if c \<in> set s then c else 0)" unfolding k_def by (rule stop_byte [OF s nz])
  obtain b j where j: "skip_align (\<lambda>b. b = 0 \<or> b = c) m p = (b, p + j)" "j \<le> k" "b \<longrightarrow> j = k"
    using skip_align_first [OF h] by metis
  have "first_hit (\<lambda>b. b = 0 \<or> b = c) m (p + j) (k - j)" by (rule first_hit_shift [OF h j(2)])
  from null_or_char_test.skip_words_then_bytes [OF this]
  obtain w where w: "skip_words (\<lambda>w. DETECTNULL w \<noteq> 0 \<or> DETECTCHAR w (fill_word c) \<noteq> 0) m (p + j) = Some w"
    "skip_bytes (\<lambda>b. b = 0 \<or> b = c) m w = Some (p + k)" using j by auto
  show ?thesis
    using j w at c nz unfolding k_def [symmetric] by (cases b) (auto simp: strchr_def Let_def split: if_splits)
qed

lemma strchr_null:
  assumes "cstr m p s" and "word_of_int i = (0 :: u8)"
  shows "strchr m p i = Some (Some (p + length s))"
  using cstr_scan [OF assms(1)] assms(2) by (auto simp: strchr_def split: prod.split bool.split)

text \<open>The last occurrence of a byte in a list.\<close>

definition last_at :: "u8 list \<Rightarrow> u8 \<Rightarrow> nat \<Rightarrow> bool" where
  "last_at s c k \<longleftrightarrow> k < length s \<and> s ! k = c \<and> c \<notin> set (drop (Suc k) s)"

lemma strrchr_loop_cstr:
  "cstr m p s \<Longrightarrow> word_of_int i = (c :: u8) \<Longrightarrow> c \<noteq> 0 \<Longrightarrow>
   \<exists>r. strrchr_loop m p i l = Some r \<and> (if c \<in> set s then \<exists>k. r = Some (p + k) \<and> last_at s c k else r = l)"
proof (induction "length s" arbitrary: s p l rule: less_induct)
  case less
  note sc = strchr_cstr [OF less.prems]
  show ?case
  proof (cases "c \<in> set s")
    case False
    then show ?thesis using sc by (subst strrchr_loop.simps) simp
  next
    case True
    define k where "k = length (takeWhile (\<lambda>b. b \<noteq> c) s)"
    have k: "k < length s" "s ! k = c"
      unfolding k_def using nth_length_takeWhile [of "\<lambda>b. b \<noteq> c" s] length_takeWhile_neq [OF True] by auto
    have d: "cstr m (p + k + 1) (drop (Suc k) s)" using cstr_drop [OF less.prems(1), of "Suc k"] k(1) by simp
    obtain r where r: "strrchr_loop m (p + k + 1) i (Some (p + k)) = Some r"
      "if c \<in> set (drop (Suc k) s) then \<exists>j. r = Some (p + k + 1 + j) \<and> last_at (drop (Suc k) s) c j else r = Some (p + k)"
    proof -
      have "length (drop (Suc k) s) < length s" using k(1) by simp
      from less.hyps [OF this d less.prems(2,3), of "Some (p + k)"] that show thesis by blast
    qed
    have run: "strrchr_loop m p i l = Some r"
      using sc True r(1) unfolding k_def [symmetric] by (subst strrchr_loop.simps) simp
    show ?thesis
    proof (cases "c \<in> set (drop (Suc k) s)")
      case False
      then show ?thesis using run r(2) True k by (auto simp: last_at_def)
    next
      case c: True
      then obtain j where j: "r = Some (p + k + 1 + j)" "last_at (drop (Suc k) s) c j" using r(2) by auto
      have "last_at s c (Suc k + j)" using j(2) by (auto simp: last_at_def add.commute)
      then show ?thesis using run True j(1) by (auto intro!: exI [of _ "Suc k + j"])
    qed
  qed
qed

lemma set_scan_cstr:
  assumes "cstr m q t" and "b \<noteq> 0"
  shows "\<exists>c. set_scan m b q = Some c \<and> m c = (if b \<in> set t then b else 0)"
proof -
  have "first_hit (\<lambda>x. x = 0 \<or> x = b) m q (length (takeWhile (\<lambda>x. x \<noteq> b) t))"
    using cstr_first_hit_or [OF assms(1), of "\<lambda>x. x = b"] by simp
  then show ?thesis using skip_bytes_first stop_byte [OF assms] by (auto simp: set_scan_def)
qed

lemma strspn_loop_cstr:
  "cstr m p s \<Longrightarrow> cstr m q t \<Longrightarrow> strspn_loop m p q = Some (p + length (takeWhile (\<lambda>b. b \<in> set t) s))"
proof (induction s arbitrary: p)
  case Nil then show ?case by (subst strspn_loop.simps) simp
next
  case (Cons b s)
  then have b: "m p = b" "b \<noteq> 0" "cstr m (p + 1) s" by (simp_all add: cstr_Cons)
  obtain c where c: "set_scan m b q = Some c" "m c = (if b \<in> set t then b else 0)"
    using set_scan_cstr [OF Cons.prems(2) b(2)] by blast
  show ?case using b c Cons.IH [OF b(3) Cons.prems(2)] by (subst strspn_loop.simps) simp
qed

lemma strcspn_loop_cstr:
  "cstr m p s \<Longrightarrow> cstr m q t \<Longrightarrow>
   \<exists>c. strcspn_loop m p q c0 = Some (p + length (takeWhile (\<lambda>b. b \<notin> set t) s), c) \<and>
       (s \<noteq> [] \<longrightarrow> (m c = 0 \<longleftrightarrow> set s \<inter> set t = {}))"
proof (induction s arbitrary: p c0)
  case Nil then show ?case by (subst strcspn_loop.simps) simp
next
  case (Cons b s)
  then have b: "m p = b" "b \<noteq> 0" "cstr m (p + 1) s" by (simp_all add: cstr_Cons)
  obtain c where c: "set_scan m b q = Some c" "m c = (if b \<in> set t then b else 0)"
    using set_scan_cstr [OF Cons.prems(2) b(2)] by blast
  show ?case
  proof (cases "b \<in> set t")
    case True
    then show ?thesis using b c by (subst strcspn_loop.simps) auto
  next
    case False
    obtain c' where c': "strcspn_loop m (p + 1) q c = Some (p + 1 + length (takeWhile (\<lambda>b. b \<notin> set t) s), c')"
      "s \<noteq> [] \<longrightarrow> (m c' = 0 \<longleftrightarrow> set s \<inter> set t = {})" using Cons.IH [OF b(3) Cons.prems(2)] by blast
    have "s = [] \<Longrightarrow> c' = c" using c'(1) b(3) by (subst (asm) strcspn_loop.simps) simp
    then show ?thesis using b c c' False by (subst strcspn_loop.simps) (cases "s = []"; auto)
  qed
qed

section \<open>Substrings\<close>

lemma prefix_at_list:
  "cstr m p s \<Longrightarrow> cstr m q t \<Longrightarrow> take i s = take i t \<Longrightarrow> i \<le> length s \<Longrightarrow> i \<le> length t \<Longrightarrow>
   prefix_at m p q i = Some (take (length t) s = t)"
proof (induction "length t - i" arbitrary: i)
  case 0
  then have "m (q + i) = 0" "i = length t" using cstr_end [of m q t] by auto
  then show ?case using 0 by (subst prefix_at.simps) simp
next
  case (Suc n)
  then have i: "i < length t" by simp
  have t: "m (q + i) = t ! i" "t ! i \<noteq> 0" using cstr_nth [OF Suc.prems(2) i] by simp_all
  show ?case
  proof (cases "i < length s \<and> s ! i = t ! i")
    case True
    then have "m (p + i) = m (q + i)" using cstr_nth [OF Suc.prems(1)] t by simp
    moreover have "take (i + 1) s = take (i + 1) t" using Suc.prems(3) True i by (simp add: take_Suc_conv_app_nth)
    then have "prefix_at m p q (i + 1) = Some (take (length t) s = t)"
      by (intro Suc.hyps(1)) (use Suc.hyps(2) Suc.prems True i in auto)
    ultimately show ?thesis using t by (subst prefix_at.simps) simp
  next
    case False
    have "m (p + i) \<noteq> m (q + i)"
      using False t cstr_nth [OF Suc.prems(1), of i] cstr_end [OF Suc.prems(1)] Suc.prems(4)
      by (cases "i < length s") auto
    moreover have "take (length t) s \<noteq> t"
    proof
      assume e: "take (length t) s = t"
      then have "i < length s" using i by (metis length_take min_less_iff_conj)
      moreover have "s ! i = t ! i" using e i by (metis nth_take)
      ultimately show False using False by simp
    qed
    ultimately show ?thesis using t by (subst prefix_at.simps) simp
  qed
qed

text \<open>The first position at which the needle is found.\<close>

definition occurs_at :: "u8 list \<Rightarrow> u8 list \<Rightarrow> nat \<Rightarrow> bool" where
  "occurs_at s t k \<longleftrightarrow> k + length t \<le> length s \<and> take (length t) (drop k s) = t"

lemma occurs_at_Cons: "occurs_at (b # s) t (Suc k) \<longleftrightarrow> occurs_at s t k"
  by (simp add: occurs_at_def)

lemma occurs_at_0: "occurs_at s t 0 \<longleftrightarrow> take (length t) s = t"
  unfolding occurs_at_def by (metis add_0 drop0 length_take min.cobounded1 min.absorb_iff2 nat_le_linear take_all_iff)

lemma strstr_loop_list:
  "cstr m p s \<Longrightarrow> cstr m q t \<Longrightarrow>
   \<exists>r. strstr_loop m p q = Some r \<and>
       (case r of None \<Rightarrow> \<forall>k<length s. \<not> occurs_at s t k
        | Some a \<Rightarrow> \<exists>k<length s. a = p + k \<and> occurs_at s t k \<and> (\<forall>j<k. \<not> occurs_at s t j))"
proof (induction s arbitrary: p)
  case Nil then show ?case by (subst strstr_loop.simps) simp
next
  case (Cons b s)
  then have b: "m p = b" "b \<noteq> 0" "cstr m (p + 1) s" by (simp_all add: cstr_Cons)
  have pre: "prefix_at m p q 0 = Some (occurs_at (b # s) t 0)"
    using prefix_at_list [OF Cons.prems, of 0] by (simp add: occurs_at_0)
  show ?case
  proof (cases "occurs_at (b # s) t 0")
    case True
    then show ?thesis using b pre by (subst strstr_loop.simps) auto
  next
    case False
    obtain r where r: "strstr_loop m (p + 1) q = Some r"
      "case r of None \<Rightarrow> \<forall>k<length s. \<not> occurs_at s t k
       | Some a \<Rightarrow> \<exists>k<length s. a = p + 1 + k \<and> occurs_at s t k \<and> (\<forall>j<k. \<not> occurs_at s t j)"
      using Cons.IH [OF b(3) Cons.prems(2)] by blast
    have "strstr_loop m p q = Some r" using b pre False r(1) by (subst strstr_loop.simps) simp
    then show ?thesis using r(2) False
      by (auto simp: All_less_Suc2 Ex_less_Suc2 occurs_at_Cons split: option.splits)
  qed
qed

lemma memmem_loop_first:
  assumes nl: "0 < nlen"
  shows "case memmem_loop m h hlen n nlen of
      None \<Rightarrow> \<forall>k. k + nlen \<le> hlen \<longrightarrow> (\<exists>i<nlen. m (h + k + i) \<noteq> m (n + i))
    | Some a \<Rightarrow> \<exists>k. a = h + k \<and> k + nlen \<le> hlen \<and> (\<forall>i<nlen. m (h + k + i) = m (n + i)) \<and>
                 (\<forall>j<k. \<exists>i<nlen. m (h + j + i) \<noteq> m (n + i))"
proof (induction hlen arbitrary: h)
  case 0
  then show ?case using nl by auto
next
  case (Suc hlen)
  have eq: "memcmp m h n nlen = 0 \<longleftrightarrow> (\<forall>i<nlen. m (h + i) = m (n + i))"
    by (simp add: memcmp_first first_diff_zero)
  show ?case
  proof (cases "nlen \<le> Suc hlen \<and> memcmp m h n nlen = 0")
    case True
    then show ?thesis using eq by (auto intro!: exI [of _ 0])
  next
    case no: False
    show ?thesis
    proof (cases "nlen \<le> Suc hlen")
      case False then show ?thesis by auto
    next
      case True
      then have run: "memmem_loop m h (Suc hlen) n nlen = memmem_loop m (h + 1) hlen n nlen" using no by simp
      have here: "\<exists>i<nlen. m (h + 0 + i) \<noteq> m (n + i)" using no True eq by auto
      show ?thesis
      proof (cases "memmem_loop m (h + 1) hlen n nlen")
        case None
        have "\<exists>i<nlen. m (h + k + i) \<noteq> m (n + i)" if "k + nlen \<le> Suc hlen" for k
          using Suc.IH [of "h + 1"] here that unfolding None by (cases k) (auto simp: add.assoc)
        then show ?thesis unfolding run None by simp
      next
        case (Some a)
        then obtain k where k: "a = h + 1 + k" "k + nlen \<le> hlen" "\<forall>i<nlen. m (h + 1 + k + i) = m (n + i)"
          "\<forall>j<k. \<exists>i<nlen. m (h + 1 + j + i) \<noteq> m (n + i)" using Suc.IH [of "h + 1"] by auto
        have "\<exists>i<nlen. m (h + j + i) \<noteq> m (n + i)" if "j < Suc k" for j
          using k(4) here that by (cases j) (auto simp: add.assoc)
        then show ?thesis unfolding run Some using k(1-3) by (auto intro!: exI [of _ "Suc k"] simp: add.assoc)
      qed
    qed
  qed
qed

section \<open>Properties\<close>

definition demo_strs :: mem where
  "demo_strs = mem_at 101 (map (of_nat \<circ> of_char) ''hello, world'' @ [0] @ map (of_nat \<circ> of_char) '' ,lo'' @ [0])"

lemma demo_strs_cstr:
  "cstr demo_strs 101 (map (of_nat \<circ> of_char) ''hello, world'')"
  "cstr demo_strs 114 (map (of_nat \<circ> of_char) '' ,lo'')"
  by code_simp+

text \<open>C40: \<open>strlen\<close> returns the length of every string at every alignment, and \<open>strnlen\<close> the smaller of the length and its
  bound. From an aligned string on, the word loop of \<open>strlen\<close> reads words exactly up to the one that has the
  terminator: the test \<open>DETECTNULL\<close> neither misses a zero byte nor reports one where there is none.\<close>

theorem strlen_correct:
  assumes "cstr m p s"
  shows "strlen m p = Some (length s) \<and> strnlen m p n = min n (length s) \<and>
    skip_words (\<lambda>w. DETECTNULL w \<noteq> 0) m p = Some (p + 4 * (length s div 4))"
  using strlen_cstr [OF assms] strnlen_loop_cstr [OF assms] null_test.skip_words_first [OF cstr_first_hit [OF assms]]
  by (simp add: strnlen_def)

lemma strlen_correct_witness: "strlen demo_strs 101 = Some 12 \<and> strnlen demo_strs 101 5 = 5"
  using strlen_correct [OF demo_strs_cstr(1), of 5] by simp

text \<open>The character searches. \<open>strchr\<close> and \<open>index\<close> return the first and \<open>strrchr\<close> and \<open>rindex\<close>
  the last occurrence of the low byte of the argument, null pointers if there is none; for the
  character 0 all return the terminator. \<open>strchrnul\<close> returns the terminator instead of a null
  pointer.\<close>

theorem strchr_correct:
  assumes "cstr m p s" and "0 \<le> i" and "i < 256"
  shows "if word_of_int i \<in> set s
         then \<exists>k l. strchr m p i = Some (Some (p + k)) \<and> index m p i = Some (Some (p + k)) \<and>
                strchrnul m p i = Some (p + k) \<and>
                k < length s \<and> s ! k = word_of_int i \<and> word_of_int i \<notin> set (take k s) \<and>
                strrchr m p i = Some (Some (p + l)) \<and> rindex m p i = Some (Some (p + l)) \<and>
                l < length s \<and> s ! l = word_of_int i \<and> word_of_int i \<notin> set (drop (Suc l) s)
         else strchr m p i = strrchr m p i \<and>
              strchr m p i = Some (if i = 0 then Some (p + length s) else None) \<and>
              strchrnul m p i = Some (p + length s)"
proof (cases "i = 0")
  case True
  have "0 \<notin> set s" using assms(1) by (simp add: cstr_def)
  then show ?thesis using strchr_null [OF assms(1), of 0] True by (simp add: strrchr_def strchrnul_def)
next
  case False
  define c :: u8 where "c = word_of_int i"
  have "uint c = i" using assms(2,3) by (simp add: c_def uint_word_of_int)
  then have nz: "c \<noteq> 0" using False by auto
  define k where "k = length (takeWhile (\<lambda>b. b \<noteq> c) s)"
  note f = strchr_cstr [OF assms(1) c_def [symmetric] nz, folded k_def]
  obtain r where r: "strrchr m p i = Some r" "if c \<in> set s then \<exists>l. r = Some (p + l) \<and> last_at s c l else r = None"
    using strrchr_loop_cstr [OF assms(1) c_def [symmetric] nz, of None] False by (auto simp: strrchr_def)
  show ?thesis
  proof (cases "c \<in> set s")
    case True
    obtain l where l: "r = Some (p + l)" "l < length s" "s ! l = c" "c \<notin> set (drop (Suc l) s)"
      using r(2) True by (auto simp: last_at_def)
    have k: "k < length s" "s ! k = c" "c \<notin> set (take k s)"
      unfolding k_def using nth_length_takeWhile [of "\<lambda>b. b \<noteq> c" s] length_takeWhile_neq [OF True]
      by (auto simp: takeWhile_eq_take [symmetric] dest: set_takeWhileD)
    show ?thesis unfolding c_def [symmetric] if_P [OF True]
      using f True r(1) l k by (intro exI [of _ k] exI [of _ l]) (simp add: index_def rindex_def strchrnul_def)
  next
    case no: False
    show ?thesis unfolding c_def [symmetric] if_not_P [OF no]
      using f no r False strlen_cstr [OF assms(1)] by (simp add: strchrnul_def)
  qed
qed

lemma strchr_correct_witness:
  "strchr demo_strs 101 111 = Some (Some 105) \<and> strrchr demo_strs 101 111 = Some (Some 109)"
proof -
  let ?s = "map (of_nat \<circ> of_char) ''hello, world'' :: u8 list"
  have "(111 :: u8) \<in> set ?s" by code_simp
  then obtain k l where kl: "strchr demo_strs 101 111 = Some (Some (101 + k))" "k < 12" "?s ! k = 111" "111 \<notin> set (take k ?s)"
    "strrchr demo_strs 101 111 = Some (Some (101 + l))" "l < 12" "?s ! l = 111" "111 \<notin> set (drop (Suc l) ?s)"
    using strchr_correct [OF demo_strs_cstr(1), of 111] by auto
  have "\<forall>k<12. ?s ! k = 111 \<and> 111 \<notin> set (take k ?s) \<longrightarrow> k = 4" by code_simp
  moreover have "\<forall>l<12. ?s ! l = 111 \<and> 111 \<notin> set (drop (Suc l) ?s) \<longrightarrow> l = 8" by code_simp
  ultimately have "k = 4" "l = 8" using kl by blast+
  then show ?thesis using kl by simp
qed

text \<open>The spans. \<open>strspn\<close> returns the length of the longest prefix made of bytes of the set,
  \<open>strcspn\<close> of the longest prefix without a byte of the set, and \<open>strpbrk\<close> a pointer to the byte after
  that prefix, a null pointer when the string has no byte of the set.\<close>

theorem strspn_correct:
  assumes "cstr m p s" and "cstr m q t"
  shows "strspn m p q = Some (length (takeWhile (\<lambda>b. b \<in> set t) s)) \<and>
         strcspn m p q = Some (length (takeWhile (\<lambda>b. b \<notin> set t) s)) \<and>
         strpbrk m p q = Some (if set s \<inter> set t = {} then None
                               else Some (p + length (takeWhile (\<lambda>b. b \<notin> set t) s)))"
proof -
  obtain c where c: "strcspn_loop m p q q = Some (p + length (takeWhile (\<lambda>b. b \<notin> set t) s), c)"
    "s \<noteq> [] \<longrightarrow> (m c = 0 \<longleftrightarrow> set s \<inter> set t = {})" using strcspn_loop_cstr [OF assms] by blast
  have "m p = 0 \<longleftrightarrow> s = []" using assms(1) by (cases s) (auto simp: cstr_Cons)
  then show ?thesis using strspn_loop_cstr [OF assms] c
    by (auto simp: strspn_def strcspn_def strpbrk_def)
qed

lemma strspn_correct_witness: "strcspn demo_strs 101 114 = Some 2 \<and> strpbrk demo_strs 101 114 = Some (Some 103)"
  using strspn_correct [OF demo_strs_cstr] by simp

text \<open>The substring searches of the size build. \<open>strstr\<close> returns the first position at which the
  needle occurs, a null pointer if there is none; an empty needle is found at the start. \<open>memmem\<close> does
  the same on regions.\<close>

theorem strstr_correct:
  assumes "cstr m p s" and "cstr m q t"
  shows "(\<exists>r. strstr_size m p q = Some r \<and>
           (case r of None \<Rightarrow> \<forall>k. \<not> occurs_at s t k
            | Some a \<Rightarrow> \<exists>k. a = p + k \<and> occurs_at s t k \<and> (\<forall>j<k. \<not> occurs_at s t j))) \<and>
         (case memmem_size m h hlen n nlen of
            None \<Rightarrow> \<forall>k. k + nlen \<le> hlen \<longrightarrow> (\<exists>i<nlen. m (h + k + i) \<noteq> m (n + i))
          | Some a \<Rightarrow> \<exists>k. a = h + k \<and> k + nlen \<le> hlen \<and> (\<forall>i<nlen. m (h + k + i) = m (n + i)) \<and>
                       (\<forall>j<k. \<exists>i<nlen. m (h + j + i) \<noteq> m (n + i)))"
proof
  show "\<exists>r. strstr_size m p q = Some r \<and>
           (case r of None \<Rightarrow> \<forall>k. \<not> occurs_at s t k
            | Some a \<Rightarrow> \<exists>k. a = p + k \<and> occurs_at s t k \<and> (\<forall>j<k. \<not> occurs_at s t j))"
  proof (cases "s = []")
    case True
    have "m q = 0 \<longleftrightarrow> t = []" using assms(2) by (cases t) (auto simp: cstr_Cons)
    then show ?thesis using assms(1) True by (auto simp: strstr_size_def occurs_at_def)
  next
    case False
    then have "m p \<noteq> 0" using assms(1) by (cases s) (auto simp: cstr_Cons)
    moreover obtain r where r: "strstr_loop m p q = Some r"
       "case r of None \<Rightarrow> \<forall>k<length s. \<not> occurs_at s t k
        | Some a \<Rightarrow> \<exists>k<length s. a = p + k \<and> occurs_at s t k \<and> (\<forall>j<k. \<not> occurs_at s t j)"
      using strstr_loop_list [OF assms] by blast
    moreover have "\<not> occurs_at s t k" if "\<forall>k<length s. \<not> occurs_at s t k" for k
    proof
      assume o: "occurs_at s t k"
      then have "length s \<le> k" using that not_le by blast
      then have "t = []" using o by (auto simp: occurs_at_def)
      then have "occurs_at s t 0" by (simp add: occurs_at_def)
      then show False using that False by auto
    qed
    ultimately show ?thesis by (auto simp: strstr_size_def split: option.splits)
  qed
  show "case memmem_size m h hlen n nlen of
            None \<Rightarrow> \<forall>k. k + nlen \<le> hlen \<longrightarrow> (\<exists>i<nlen. m (h + k + i) \<noteq> m (n + i))
          | Some a \<Rightarrow> \<exists>k. a = h + k \<and> k + nlen \<le> hlen \<and> (\<forall>i<nlen. m (h + k + i) = m (n + i)) \<and>
                       (\<forall>j<k. \<exists>i<nlen. m (h + j + i) \<noteq> m (n + i))"
    using memmem_loop_first [where m = m and h = h and hlen = hlen and n = n and nlen = nlen] by (cases "nlen = 0") (simp_all add: memmem_size_def)
qed

lemma strstr_correct_witness: "\<exists>r. strstr_size (demo_strs(116 := 111, 117 := 0)) 101 115 = Some r"
proof -
  have "cstr (demo_strs(116 := 111, 117 := 0)) 101 (map (of_nat \<circ> of_char) ''hello, world'')"
    "cstr (demo_strs(116 := 111, 117 := 0)) 115 (map (of_nat \<circ> of_char) '',o'')" by code_simp+
  from strstr_correct [OF this] show ?thesis by blast
qed

end
