(* ===== verification/Ctype.thy ===== *)
theory Ctype
  imports Prelude
begin

text \<open>
  The character classes of newlib in its one-byte build (\<open>newlib/libc/ctype\<close>): the table \<open>_ctype_\<close>,
  indexed from \<open>EOF\<close> (-1) to 255, and the functions that look it up. An argument outside that range
  reads outside the table; the theorems exclude it.
\<close>

unbundle bit_operations_syntax

definition CT_U :: u8 where "CT_U = 0x01"
definition CT_L :: u8 where "CT_L = 0x02"
definition CT_N :: u8 where "CT_N = 0x04"
definition CT_S :: u8 where "CT_S = 0x08"
definition CT_P :: u8 where "CT_P = 0x10"
definition CT_C :: u8 where "CT_C = 0x20"
definition CT_X :: u8 where "CT_X = 0x40"
definition CT_B :: u8 where "CT_B = 0x80"

definition CTYPE_DATA_0_127 :: "u8 list" where
  "CTYPE_DATA_0_127 =
     [CT_C, CT_C, CT_C, CT_C, CT_C, CT_C, CT_C, CT_C,
      CT_C, CT_C OR CT_S, CT_C OR CT_S, CT_C OR CT_S, CT_C OR CT_S, CT_C OR CT_S, CT_C, CT_C,
      CT_C, CT_C, CT_C, CT_C, CT_C, CT_C, CT_C, CT_C,
      CT_C, CT_C, CT_C, CT_C, CT_C, CT_C, CT_C, CT_C,
      CT_S OR CT_B, CT_P, CT_P, CT_P, CT_P, CT_P, CT_P, CT_P,
      CT_P, CT_P, CT_P, CT_P, CT_P, CT_P, CT_P, CT_P,
      CT_N, CT_N, CT_N, CT_N, CT_N, CT_N, CT_N, CT_N,
      CT_N, CT_N, CT_P, CT_P, CT_P, CT_P, CT_P, CT_P,
      CT_P, CT_U OR CT_X, CT_U OR CT_X, CT_U OR CT_X, CT_U OR CT_X, CT_U OR CT_X, CT_U OR CT_X, CT_U,
      CT_U, CT_U, CT_U, CT_U, CT_U, CT_U, CT_U, CT_U,
      CT_U, CT_U, CT_U, CT_U, CT_U, CT_U, CT_U, CT_U,
      CT_U, CT_U, CT_U, CT_P, CT_P, CT_P, CT_P, CT_P,
      CT_P, CT_L OR CT_X, CT_L OR CT_X, CT_L OR CT_X, CT_L OR CT_X, CT_L OR CT_X, CT_L OR CT_X, CT_L,
      CT_L, CT_L, CT_L, CT_L, CT_L, CT_L, CT_L, CT_L,
      CT_L, CT_L, CT_L, CT_L, CT_L, CT_L, CT_L, CT_L,
      CT_L, CT_L, CT_L, CT_P, CT_P, CT_P, CT_P, CT_C]"

definition ctype_table :: "u8 list" where
  "ctype_table = 0 # CTYPE_DATA_0_127 @ replicate 128 0"

definition ctype_lookup :: "int \<Rightarrow> u8" where
  "ctype_lookup c = ctype_table ! nat (c + 1)"

definition isalpha :: "int \<Rightarrow> bool" where "isalpha c \<longleftrightarrow> ctype_lookup c AND (CT_U OR CT_L) \<noteq> 0"
definition isupper :: "int \<Rightarrow> bool" where "isupper c \<longleftrightarrow> ctype_lookup c AND (CT_U OR CT_L) = CT_U"
definition islower :: "int \<Rightarrow> bool" where "islower c \<longleftrightarrow> ctype_lookup c AND (CT_U OR CT_L) = CT_L"
definition isdigit :: "int \<Rightarrow> bool" where "isdigit c \<longleftrightarrow> ctype_lookup c AND CT_N \<noteq> 0"
definition isxdigit :: "int \<Rightarrow> bool" where "isxdigit c \<longleftrightarrow> ctype_lookup c AND (CT_X OR CT_N) \<noteq> 0"
definition isspace :: "int \<Rightarrow> bool" where "isspace c \<longleftrightarrow> ctype_lookup c AND CT_S \<noteq> 0"
definition ispunct :: "int \<Rightarrow> bool" where "ispunct c \<longleftrightarrow> ctype_lookup c AND CT_P \<noteq> 0"
definition isalnum :: "int \<Rightarrow> bool" where "isalnum c \<longleftrightarrow> ctype_lookup c AND (CT_U OR CT_L OR CT_N) \<noteq> 0"
definition isprint :: "int \<Rightarrow> bool" where
  "isprint c \<longleftrightarrow> ctype_lookup c AND (CT_P OR CT_U OR CT_L OR CT_N OR CT_B) \<noteq> 0"
definition isgraph :: "int \<Rightarrow> bool" where
  "isgraph c \<longleftrightarrow> ctype_lookup c AND (CT_P OR CT_U OR CT_L OR CT_N) \<noteq> 0"
definition iscntrl :: "int \<Rightarrow> bool" where "iscntrl c \<longleftrightarrow> ctype_lookup c AND CT_C \<noteq> 0"
definition isblank :: "int \<Rightarrow> bool" where "isblank c \<longleftrightarrow> ctype_lookup c AND CT_B \<noteq> 0 \<or> c = 9"
definition isascii :: "int \<Rightarrow> bool" where "isascii c \<longleftrightarrow> 0 \<le> c \<and> c < 128"
definition toascii :: "int \<Rightarrow> int" where "toascii c = c AND 0x7F"

definition tolower :: "int \<Rightarrow> int" where
  "tolower c = (if isupper c then c - 65 + 97 else c)"

definition toupper :: "int \<Rightarrow> int" where
  "toupper c = (if islower c then c - 97 + 65 else c)"

section \<open>The classes as ranges\<close>

text \<open>The table as a function of the character, compared with the list once.\<close>

definition class_of :: "int \<Rightarrow> u8" where
  "class_of c =
     (if c < 0 then 0 else if c < 9 then CT_C else if c < 14 then CT_C OR CT_S else if c < 32 then CT_C
      else if c = 32 then CT_S OR CT_B else if c < 48 then CT_P else if c < 58 then CT_N else if c < 65 then CT_P
      else if c < 71 then CT_U OR CT_X else if c < 91 then CT_U else if c < 97 then CT_P
      else if c < 103 then CT_L OR CT_X else if c < 123 then CT_L else if c < 127 then CT_P
      else if c = 127 then CT_C else 0)"

lemma ctype_table_class: "ctype_table = map class_of [- 1..255]"
  by code_simp

lemma ctype_lookup_class:
  assumes "- 1 \<le> c" and "c \<le> 255"
  shows "ctype_lookup c = class_of c"
proof -
  have "nat (c + 1) < length [- 1..255]" using assms by simp
  moreover have "[- 1..255] ! nat (c + 1) = c" using assms by (subst nth_upto) auto
  ultimately show ?thesis by (simp add: ctype_lookup_def ctype_table_class)
qed

lemma class_bits:
  "CT_U = 1" "CT_L = 2" "CT_N = 4" "CT_S = 8" "CT_P = 16" "CT_C = 32" "CT_X = 64" "CT_B = 128"
  by (simp_all add: CT_U_def CT_L_def CT_N_def CT_S_def CT_P_def CT_C_def CT_X_def CT_B_def)

text \<open>A test of the class is a test of the ranges in which it holds.\<close>

lemma class_of_cases:
  "P (class_of c) \<longleftrightarrow>
     (if c < 0 then P 0 else if c < 9 then P 32 else if c < 14 then P 40 else if c < 32 then P 32
      else if c = 32 then P 136 else if c < 48 then P 16 else if c < 58 then P 4 else if c < 65 then P 16
      else if c < 71 then P 65 else if c < 91 then P 1 else if c < 97 then P 16
      else if c < 103 then P 66 else if c < 123 then P 2 else if c < 127 then P 16
      else if c = 127 then P 32 else P 0)"
  by (simp add: class_of_def class_bits)

lemma class_tests:
  assumes "- 1 \<le> c" and "c \<le> 255"
  shows "(isalpha c \<longleftrightarrow> 65 \<le> c \<and> c \<le> 90 \<or> 97 \<le> c \<and> c \<le> 122) \<and>
    (isupper c \<longleftrightarrow> 65 \<le> c \<and> c \<le> 90) \<and> (islower c \<longleftrightarrow> 97 \<le> c \<and> c \<le> 122) \<and>
    (isdigit c \<longleftrightarrow> 48 \<le> c \<and> c \<le> 57) \<and>
    (isxdigit c \<longleftrightarrow> 48 \<le> c \<and> c \<le> 57 \<or> 65 \<le> c \<and> c \<le> 70 \<or> 97 \<le> c \<and> c \<le> 102) \<and>
    (isspace c \<longleftrightarrow> c = 32 \<or> 9 \<le> c \<and> c \<le> 13) \<and>
    (ispunct c \<longleftrightarrow> (33 \<le> c \<and> c \<le> 126) \<and>
       \<not> (65 \<le> c \<and> c \<le> 90 \<or> 97 \<le> c \<and> c \<le> 122 \<or> 48 \<le> c \<and> c \<le> 57)) \<and>
    (isalnum c \<longleftrightarrow> 65 \<le> c \<and> c \<le> 90 \<or> 97 \<le> c \<and> c \<le> 122 \<or> 48 \<le> c \<and> c \<le> 57) \<and>
    (isprint c \<longleftrightarrow> 32 \<le> c \<and> c \<le> 126) \<and> (isgraph c \<longleftrightarrow> 33 \<le> c \<and> c \<le> 126) \<and>
    (iscntrl c \<longleftrightarrow> 0 \<le> c \<and> c \<le> 31 \<or> c = 127) \<and> (isblank c \<longleftrightarrow> c = 32 \<or> c = 9)"
  unfolding isalpha_def isupper_def islower_def isdigit_def isxdigit_def isspace_def ispunct_def isalnum_def
    isprint_def isgraph_def iscntrl_def isblank_def ctype_lookup_class [OF assms] class_bits
  using assms by (intro conjI; split class_of_cases; simp; arith)

lemma ctype_ranges:
  assumes "- 1 \<le> c" and "c \<le> 255"
  shows "isupper c \<longleftrightarrow> 65 \<le> c \<and> c \<le> 90" and "islower c \<longleftrightarrow> 97 \<le> c \<and> c \<le> 122"
    and "isdigit c \<longleftrightarrow> 48 \<le> c \<and> c \<le> 57" and "isspace c \<longleftrightarrow> c = 32 \<or> 9 \<le> c \<and> c \<le> 13"
  by (simp_all only: class_tests [OF assms])

lemma tolower_range: "0 \<le> c \<Longrightarrow> c \<le> 255 \<Longrightarrow> 0 \<le> tolower c \<and> tolower c \<le> 255 \<and> (tolower c = 0 \<longleftrightarrow> c = 0)"
  using ctype_ranges [of c] by (simp add: tolower_def)

lemma toupper_range: "0 \<le> c \<Longrightarrow> c \<le> 255 \<Longrightarrow> 0 \<le> toupper c \<and> toupper c \<le> 255 \<and> (toupper c = 0 \<longleftrightarrow> c = 0)"
  using ctype_ranges [of c] by (simp add: toupper_def)

text \<open>A byte in lower and upper case, as the string functions store it.\<close>

definition lower_byte :: "u8 \<Rightarrow> u8" where "lower_byte b = word_of_int (tolower (uint b))"
definition upper_byte :: "u8 \<Rightarrow> u8" where "upper_byte b = word_of_int (toupper (uint b))"

lemma uint_lower_byte: "uint (lower_byte b) = tolower (uint b)"
  and uint_upper_byte: "uint (upper_byte b) = toupper (uint b)"
  using tolower_range [of "uint b"] toupper_range [of "uint b"] uint_lt2p [of b]
  by (simp_all add: lower_byte_def upper_byte_def uint_word_of_int)

lemma lower_byte_0 [simp]: "lower_byte b = 0 \<longleftrightarrow> b = 0" and upper_byte_0 [simp]: "upper_byte b = 0 \<longleftrightarrow> b = 0"
  using tolower_range [of "uint b"] toupper_range [of "uint b"] uint_lt2p [of b]
  by (simp_all add: word_uint_eq_iff uint_lower_byte uint_upper_byte)

section \<open>Properties\<close>

text \<open>The table classifies \<open>EOF\<close> and the bytes as ASCII does; no byte above 127 and not \<open>EOF\<close> is in a
  class. \<open>tolower\<close> and \<open>toupper\<close> exchange the two alphabets and leave the rest.\<close>

theorem ctype_correct:
  assumes "- 1 \<le> c" and "c \<le> 255"
  shows "(isupper c \<longleftrightarrow> 65 \<le> c \<and> c \<le> 90) \<and> (islower c \<longleftrightarrow> 97 \<le> c \<and> c \<le> 122) \<and>
    (isalpha c \<longleftrightarrow> isupper c \<or> islower c) \<and> (isdigit c \<longleftrightarrow> 48 \<le> c \<and> c \<le> 57) \<and>
    (isxdigit c \<longleftrightarrow> isdigit c \<or> 65 \<le> c \<and> c \<le> 70 \<or> 97 \<le> c \<and> c \<le> 102) \<and>
    (isalnum c \<longleftrightarrow> isalpha c \<or> isdigit c) \<and> (isspace c \<longleftrightarrow> c = 32 \<or> 9 \<le> c \<and> c \<le> 13) \<and>
    (isblank c \<longleftrightarrow> c = 32 \<or> c = 9) \<and> (isgraph c \<longleftrightarrow> 33 \<le> c \<and> c \<le> 126) \<and>
    (isprint c \<longleftrightarrow> 32 \<le> c \<and> c \<le> 126) \<and> (ispunct c \<longleftrightarrow> isgraph c \<and> \<not> isalnum c) \<and>
    (iscntrl c \<longleftrightarrow> 0 \<le> c \<and> c \<le> 31 \<or> c = 127) \<and> (isascii c \<longleftrightarrow> 0 \<le> c \<and> c \<le> 127) \<and>
    tolower c = (if 65 \<le> c \<and> c \<le> 90 then c + 32 else c) \<and>
    toupper c = (if 97 \<le> c \<and> c \<le> 122 then c - 32 else c)"
proof -
  have "c < 128 \<longleftrightarrow> c \<le> 127" by linarith
  then show ?thesis unfolding isascii_def tolower_def toupper_def using class_tests [OF assms] by simp
qed

lemma ctype_correct_witness: "isalpha 113 \<and> tolower 81 = 113 \<and> \<not> isprint (- 1) \<and> toupper 255 = 255"
  using ctype_correct [of 113] ctype_correct [of 81] ctype_correct [of "- 1"] ctype_correct [of 255] by simp

end
