(* ===== verification/StrCopy.thy ===== *)
theory StrCopy
  imports StrScan Ctype
begin

text \<open>
  The functions of newlib that build strings (\<open>newlib/libc/string\<close>). Those that need not return have
  an option result; the others return the memory with the pointer or the length.
\<close>

section \<open>Copying a string\<close>

text \<open>\<open>while (!DETECTNULL(*aligned_src)) *aligned_dst++ = *aligned_src++;\<close>\<close>

partial_function (option) cpy_words :: "mem \<Rightarrow> nat \<Rightarrow> nat \<Rightarrow> (mem \<times> nat \<times> nat) option" where
  "cpy_words m dst src =
     (if DETECTNULL (load32 m src) \<noteq> 0 then Some (m, dst, src)
      else cpy_words (copy_word m dst src) (dst + 4) (src + 4))"

text \<open>\<open>while ((*dst++ = *src++)) ;\<close>\<close>

partial_function (option) cpy_bytes :: "mem \<Rightarrow> nat \<Rightarrow> nat \<Rightarrow> (mem \<times> nat) option" where
  "cpy_bytes m dst src =
     (if m src = 0 then Some (m(dst := m src), dst + 1)
      else cpy_bytes (m(dst := m src)) (dst + 1) (src + 1))"

definition str_fast :: "mem \<Rightarrow> nat \<Rightarrow> nat \<Rightarrow> (mem \<times> nat) option" where
  "str_fast m dst0 src0 =
     (if \<not> UNALIGNED2 src0 dst0 then
        (case cpy_words m dst0 src0 of None \<Rightarrow> None | Some (m1, dst, src) \<Rightarrow> cpy_bytes m1 dst src)
      else cpy_bytes m dst0 src0)"

definition strcpy :: "mem \<Rightarrow> nat \<Rightarrow> nat \<Rightarrow> (mem \<times> nat) option" where
  "strcpy m dst0 src0 = (case str_fast m dst0 src0 of None \<Rightarrow> None | Some (m1, dst) \<Rightarrow> Some (m1, dst0))"

definition stpcpy :: "mem \<Rightarrow> nat \<Rightarrow> nat \<Rightarrow> (mem \<times> nat) option" where
  "stpcpy m dst src = (case str_fast m dst src of None \<Rightarrow> None | Some (m1, dst') \<Rightarrow> Some (m1, dst' - 1))"

section \<open>Copying with a count\<close>

fun ncpy_words :: "mem \<Rightarrow> nat \<Rightarrow> nat \<Rightarrow> nat \<Rightarrow> mem \<times> nat \<times> nat \<times> nat" where
  "ncpy_words m dst src count =
     (if 4 \<le> count \<and> \<not> DETECTNULL (load32 m src) \<noteq> 0
      then ncpy_words (copy_word m dst src) (dst + 4) (src + 4) (count - 4)
      else (m, dst, src, count))"

declare ncpy_words.simps [simp del]

text \<open>
  \<open>while (count > 0) { --count; if ((*dst++ = *src++) == '\0') break; }\<close>; the last component tells
  whether the loop was left by the break.
\<close>

fun ncpy_bytes :: "mem \<Rightarrow> nat \<Rightarrow> nat \<Rightarrow> nat \<Rightarrow> mem \<times> nat \<times> nat \<times> bool" where
  "ncpy_bytes m dst src 0 = (m, dst, 0, False)"
| "ncpy_bytes m dst src (Suc count) =
     (if m src = 0 then (m(dst := m src), dst + 1, count, True)
      else ncpy_bytes (m(dst := m src)) (dst + 1) (src + 1) count)"

text \<open>The two loops of \<open>strncpy\<close> and \<open>stpncpy\<close> and the padding: the memory, \<open>ret\<close> and the last \<open>dst\<close>.\<close>

definition strn_fast :: "mem \<Rightarrow> nat \<Rightarrow> nat \<Rightarrow> nat \<Rightarrow> mem \<times> nat option \<times> nat" where
  "strn_fast m dst0 src0 count0 =
     (let (m1, dst, src, count) =
            (if \<not> UNALIGNED2 src0 dst0 \<and> \<not> count0 < 4 then ncpy_words m dst0 src0 count0 else (m, dst0, src0, count0));
          (m2, dst', count', brk) = ncpy_bytes m1 dst src count
      in (byte_filler m2 dst' 0 count', if brk then Some (dst' - 1) else None, dst' + count'))"

definition strncpy :: "mem \<Rightarrow> nat \<Rightarrow> nat \<Rightarrow> nat \<Rightarrow> mem \<times> nat" where
  "strncpy m dst0 src0 count = (let (m', ret, dst) = strn_fast m dst0 src0 count in (m', dst0))"

definition stpncpy :: "mem \<Rightarrow> nat \<Rightarrow> nat \<Rightarrow> nat \<Rightarrow> mem \<times> nat" where
  "stpncpy m dst src count =
     (let (m', ret, dst') = strn_fast m dst src count in (m', case ret of Some r \<Rightarrow> r | None \<Rightarrow> dst'))"

section \<open>Appending\<close>

text \<open>The end of the string at \<open>s1\<close>: by words only if it is aligned.\<close>

definition str_end :: "mem \<Rightarrow> nat \<Rightarrow> nat option" where
  "str_end m s1 =
     (if s1 mod 4 = 0 then
        (case skip_words (\<lambda>w. DETECTNULL w \<noteq> 0) m s1 of None \<Rightarrow> None
         | Some a \<Rightarrow> skip_bytes (\<lambda>b. b = 0) m a)
      else skip_bytes (\<lambda>b. b = 0) m s1)"

definition strcat :: "mem \<Rightarrow> nat \<Rightarrow> nat \<Rightarrow> (mem \<times> nat) option" where
  "strcat m s1 s2 =
     (case str_end m s1 of None \<Rightarrow> None
      | Some e \<Rightarrow> (case strcpy m e s2 of None \<Rightarrow> None | Some (m', _) \<Rightarrow> Some (m', s1)))"

text \<open>\<open>while (n-- != 0 && (*s1++ = *s2++)) { if (n == 0) *s1 = '\0'; }\<close>\<close>

fun strncat_loop :: "mem \<Rightarrow> nat \<Rightarrow> nat \<Rightarrow> nat \<Rightarrow> mem" where
  "strncat_loop m s1 s2 0 = m"
| "strncat_loop m s1 s2 (Suc n) =
     (let m1 = m(s1 := m s2) in
      if m s2 = 0 then m1
      else strncat_loop (if n = 0 then m1(s1 + 1 := 0) else m1) (s1 + 1) (s2 + 1) n)"

definition strncat :: "mem \<Rightarrow> nat \<Rightarrow> nat \<Rightarrow> nat \<Rightarrow> (mem \<times> nat) option" where
  "strncat m s1 s2 n = (case str_end m s1 of None \<Rightarrow> None | Some e \<Rightarrow> Some (strncat_loop m e s2 n, s1))"

section \<open>Bounded copies\<close>

text \<open>\<open>do { if ((*d++ = *s++) == 0) break; } while (--n != 0);\<close> for \<open>n \<noteq> 0\<close>.\<close>

fun lcpy_loop :: "mem \<Rightarrow> nat \<Rightarrow> nat \<Rightarrow> nat \<Rightarrow> mem \<times> nat \<times> nat \<times> nat" where
  "lcpy_loop m d s 0 = (m, d, s, 0)"
| "lcpy_loop m d s (Suc n) =
     (if m s = 0 then (m(d := m s), d + 1, s + 1, Suc n)
      else lcpy_loop (m(d := m s)) (d + 1) (s + 1) n)"

definition strlcpy :: "mem \<Rightarrow> nat \<Rightarrow> nat \<Rightarrow> nat \<Rightarrow> (mem \<times> nat) option" where
  "strlcpy m dst src siz =
     (let (m1, d, s, n) = (if siz \<noteq> 0 \<and> siz - 1 \<noteq> 0 then lcpy_loop m dst src (siz - 1) else (m, dst, src, 0)) in
      if n = 0 then
        (let m2 = (if siz \<noteq> 0 then m1(d := 0) else m1)
         in case skip_bytes (\<lambda>b. b = 0) m2 s of None \<Rightarrow> None | Some e \<Rightarrow> Some (m2, e + 1 - src - 1))
      else Some (m1, s - src - 1))"

text \<open>\<open>while (*s != '\0') { if (n != 1) { *d++ = *s; n--; } s++; }\<close>\<close>

partial_function (option) lcat_loop :: "mem \<Rightarrow> nat \<Rightarrow> nat \<Rightarrow> nat \<Rightarrow> (mem \<times> nat \<times> nat) option" where
  "lcat_loop m d s n =
     (if m s \<noteq> 0 then
        (if n \<noteq> 1 then lcat_loop (m(d := m s)) (d + 1) (s + 1) (n - 1) else lcat_loop m d (s + 1) n)
      else Some (m, d, s))"

definition strlcat :: "mem \<Rightarrow> nat \<Rightarrow> nat \<Rightarrow> nat \<Rightarrow> (mem \<times> nat) option" where
  "strlcat m dst src siz =
     (let d = strnlen_loop m dst siz; dlen = d - dst; n = siz - dlen in
      if n = 0 then (case strlen m src of None \<Rightarrow> None | Some l \<Rightarrow> Some (m, dlen + l))
      else (case lcat_loop m d src n of None \<Rightarrow> None
            | Some (m1, d1, s1) \<Rightarrow> Some (m1(d1 := 0), dlen + (s1 - src))))"

text \<open>\<open>strxfrm\<close> in the C locale: the copying loop, then the counting loop.\<close>

fun xfrm_loop :: "mem \<Rightarrow> nat \<Rightarrow> nat \<Rightarrow> nat \<Rightarrow> nat \<Rightarrow> mem \<times> nat \<times> nat \<times> bool" where
  "xfrm_loop m s1 s2 0 res = (m, s2, res, False)"
| "xfrm_loop m s1 s2 (Suc n) res =
     (if m s2 \<noteq> 0 then xfrm_loop (m(s1 := m s2)) (s1 + 1) (s2 + 1) n (res + 1)
      else (m(s1 := m s2), s2 + 1, res, True))"

definition strxfrm :: "mem \<Rightarrow> nat \<Rightarrow> nat \<Rightarrow> nat \<Rightarrow> (mem \<times> nat) option" where
  "strxfrm m s1 s2 n =
     (case xfrm_loop m s1 s2 n 0 of (m1, s, res, done) \<Rightarrow>
        if done then Some (m1, res)
        else (case skip_bytes (\<lambda>b. b = 0) m1 s of None \<Rightarrow> None | Some e \<Rightarrow> Some (m1, res + (e - s))))"

section \<open>Case\<close>

partial_function (option) strlwr_loop :: "mem \<Rightarrow> nat \<Rightarrow> mem option" where
  "strlwr_loop m s = (if m s = 0 then Some m else strlwr_loop (m(s := lower_byte (m s))) (s + 1))"

definition strlwr :: "mem \<Rightarrow> nat \<Rightarrow> (mem \<times> nat) option" where
  "strlwr m s = map_option (\<lambda>m'. (m', s)) (strlwr_loop m s)"

partial_function (option) strupr_loop :: "mem \<Rightarrow> nat \<Rightarrow> mem option" where
  "strupr_loop m s = (if m s = 0 then Some m else strupr_loop (m(s := upper_byte (m s))) (s + 1))"

definition strupr :: "mem \<Rightarrow> nat \<Rightarrow> (mem \<times> nat) option" where
  "strupr m s = map_option (\<lambda>m'. (m', s)) (strupr_loop m s)"

declare cpy_words.simps [code] cpy_bytes.simps [code] lcat_loop.simps [code] strlwr_loop.simps [code]
  strupr_loop.simps [code]

section \<open>Copy loops on strings\<close>

lemma forward_keeps:
  "forward_ok d s n \<Longrightarrow> j \<le> i \<Longrightarrow> i < n \<Longrightarrow> region_copy m d s j (s + i) = m (s + i)"
  by (auto simp: region_copy_def forward_ok_def)

lemma cstr_after_copy:
  assumes "cstr m s str" and "forward_ok d s (length str + 1)" and "j \<le> length str"
  shows "cstr (region_copy m d s j) (s + j) (drop j str)"
proof (subst cstr_cong)
  fix i assume "i \<le> length (drop j str)"
  then show "region_copy m d s j (s + j + i) = m (s + j + i)"
    using forward_keeps [OF assms(2), of j "j + i" m] assms(3) by (simp add: add.assoc)
next
  show "cstr m (s + j) (drop j str)" by (rule cstr_drop [OF assms(1,3)])
qed

lemma cpy_bytes_str:
  "cstr m s str \<Longrightarrow> forward_ok d s (length str + 1) \<Longrightarrow>
   cpy_bytes m d s = Some (region_copy m d s (length str + 1), d + length str + 1)"
proof (induction str arbitrary: m d s)
  case Nil
  then show ?case using region_copy_byte [of m d s] by (subst cpy_bytes.simps) simp
next
  case (Cons c str)
  have f: "forward_ok d s (1 + (length str + 1))" using Cons.prems(2) by simp
  have c: "m s = c" "c \<noteq> 0" using Cons.prems(1) by (simp_all add: cstr_Cons)
  have "cstr (region_copy m d s 1) (s + 1) str" using cstr_after_copy [OF Cons.prems, of 1] by simp
  moreover have "forward_ok (d + 1) (s + 1) (length str + 1)" by (rule forward_ok_step [OF f])
  ultimately have "cpy_bytes (region_copy m d s 1) (d + 1) (s + 1) =
      Some (region_copy (region_copy m d s 1) (d + 1) (s + 1) (length str + 1), d + 1 + length str + 1)"
    by (rule Cons.IH)
  then show ?case using c region_copy_byte [of m d s] region_copy_add [OF f, of m]
    by (subst cpy_bytes.simps) simp
qed

lemma cstr_no_null: "cstr m s str \<Longrightarrow> \<not> DETECTNULL (load32 m s) \<noteq> 0 \<Longrightarrow> 4 \<le> length str"
  unfolding DETECTNULL_iff using cstr_end [of m s str] by (metis byte_of_load32 linorder_not_le)

lemma cpy_words_str:
  "cstr m s str \<Longrightarrow> forward_ok d s (length str + 1) \<Longrightarrow>
   \<exists>j \<le> length str. cpy_words m d s = Some (region_copy m d s j, d + j, s + j)"
proof (induction "length str" arbitrary: m d s str rule: less_induct)
  case less
  show ?case
  proof (cases "DETECTNULL (load32 m s) \<noteq> 0")
    case True
    then show ?thesis by (subst cpy_words.simps) (auto intro!: exI [of _ 0])
  next
    case False
    then have l: "4 \<le> length str" using cstr_no_null [OF less.prems(1)] by simp
    have f: "forward_ok d s (4 + (length str - 4 + 1))" using less.prems(2) l by simp
    have c: "cstr (region_copy m d s 4) (s + 4) (drop 4 str)" by (rule cstr_after_copy [OF less.prems l])
    have "forward_ok (d + 4) (s + 4) (length (drop 4 str) + 1)" using forward_ok_step [OF f] by simp
    moreover have "length (drop 4 str) < length str" using l by simp
    ultimately obtain j where j: "j \<le> length (drop 4 str)"
      "cpy_words (region_copy m d s 4) (d + 4) (s + 4) =
       Some (region_copy (region_copy m d s 4) (d + 4) (s + 4) j, d + 4 + j, s + 4 + j)"
      using less.hyps [OF _ c] by blast
    have "forward_ok d s (4 + j)" by (rule forward_ok_mono [OF f]) (use j(1) in simp)
    from region_copy_add [OF this, of m] show ?thesis
      using False j l by (subst cpy_words.simps) (auto simp: copy_word_region add.assoc intro!: exI [of _ "4 + j"])
  qed
qed

lemma str_fast_str:
  assumes "cstr m s str" and "forward_ok d s (length str + 1)"
  shows "str_fast m d s = Some (region_copy m d s (length str + 1), d + length str + 1)"
proof (cases "UNALIGNED2 s d")
  case True
  then show ?thesis using cpy_bytes_str [OF assms] by (simp add: str_fast_def)
next
  case False
  obtain j where j: "j \<le> length str" "cpy_words m d s = Some (region_copy m d s j, d + j, s + j)"
    using cpy_words_str [OF assms] by blast
  have f: "forward_ok d s (j + (length str - j + 1))" using assms(2) j(1) by simp
  have "forward_ok (d + j) (s + j) (length (drop j str) + 1)" using forward_ok_step [OF f] by simp
  from cpy_bytes_str [OF cstr_after_copy [OF assms j(1)] this] show ?thesis
    using False j region_copy_add [OF f, of m] by (simp add: str_fast_def)
qed

lemma str_end_cstr: "cstr m p s \<Longrightarrow> str_end m p = Some (p + length s)"
  using null_test.skip_words_then_bytes [OF cstr_first_hit, of m p s] skip_bytes_first [OF cstr_first_hit, of m p s]
  by (auto simp: str_end_def)

section \<open>Counted copies on strings\<close>

lemma ncpy_words_str:
  "cstr m s str \<Longrightarrow> forward_ok d s (length str + 1) \<Longrightarrow>
   \<exists>j. j \<le> n \<and> j \<le> length str \<and> ncpy_words m d s n = (region_copy m d s j, d + j, s + j, n - j)"
proof (induction n arbitrary: m d s str rule: less_induct)
  case (less n)
  show ?case
  proof (cases "4 \<le> n \<and> \<not> DETECTNULL (load32 m s) \<noteq> 0")
    case False
    then show ?thesis by (subst ncpy_words.simps) (auto intro!: exI [of _ 0])
  next
    case True
    then have l: "4 \<le> length str" using cstr_no_null [OF less.prems(1)] by simp
    have f: "forward_ok d s (4 + (length str - 4 + 1))" using less.prems(2) l by simp
    have c: "cstr (region_copy m d s 4) (s + 4) (drop 4 str)" by (rule cstr_after_copy [OF less.prems l])
    have "forward_ok (d + 4) (s + 4) (length (drop 4 str) + 1)" using forward_ok_step [OF f] by simp
    moreover have "n - 4 < n" using True by simp
    ultimately obtain j where j: "j \<le> n - 4" "j \<le> length (drop 4 str)"
      "ncpy_words (region_copy m d s 4) (d + 4) (s + 4) (n - 4) =
       (region_copy (region_copy m d s 4) (d + 4) (s + 4) j, d + 4 + j, s + 4 + j, n - 4 - j)"
      using less.IH [OF _ c] by blast
    have "forward_ok d s (4 + j)" by (rule forward_ok_mono [OF f]) (use j(2) l in simp)
    from region_copy_add [OF this, of m] show ?thesis
      using True j l by (subst ncpy_words.simps) (auto simp: copy_word_region add.assoc intro!: exI [of _ "4 + j"])
  qed
qed

text \<open>The bytes loop: it copies the rest and leaves with the count that is to be padded.\<close>

lemma ncpy_bytes_str:
  "cstr m s str \<Longrightarrow> forward_ok d s (length str + 1) \<Longrightarrow>
   ncpy_bytes m d s n = (if n \<le> length str then (region_copy m d s n, d + n, 0, False)
     else (region_copy m d s (length str + 1), d + length str + 1, n - length str - 1, True))"
proof (induction n arbitrary: m d s str)
  case 0 then show ?case by simp
next
  case (Suc n)
  show ?case
  proof (cases str)
    case Nil
    then show ?thesis using Suc.prems region_copy_byte [of m d s] by simp
  next
    case (Cons c r)
    have f: "forward_ok d s (1 + (length r + 1))" using Suc.prems(2) Cons by simp
    have c: "m s \<noteq> 0" using Suc.prems(1) Cons by (simp add: cstr_Cons)
    have "cstr (region_copy m d s 1) (s + 1) r" using cstr_after_copy [OF Suc.prems, of 1] Cons by simp
    moreover have "forward_ok (d + 1) (s + 1) (length r + 1)" by (rule forward_ok_step [OF f])
    ultimately have ih: "ncpy_bytes (region_copy m d s 1) (d + 1) (s + 1) n =
      (if n \<le> length r then (region_copy (region_copy m d s 1) (d + 1) (s + 1) n, d + 1 + n, 0, False)
       else (region_copy (region_copy m d s 1) (d + 1) (s + 1) (length r + 1), d + 1 + length r + 1, n - length r - 1, True))"
      by (rule Suc.IH)
    have r: "region_copy (region_copy m d s 1) (d + 1) (s + 1) k = region_copy m d s (1 + k)" if "k \<le> length r + 1" for k
      by (rule region_copy_add) (rule forward_ok_mono [OF f], use that in simp)
    show ?thesis using ih r [of n] r [of "length r + 1"] c Cons region_copy_byte [of m d s] by simp
  qed
qed

text \<open>What a counted copy leaves behind: the first \<open>n\<close> bytes of the string padded with zeros.\<close>

definition region_pad :: "mem \<Rightarrow> nat \<Rightarrow> nat \<Rightarrow> u8 list \<Rightarrow> mem" where
  "region_pad m d n str = region_put m d (take n str @ replicate (n - length str) 0)"

lemma region_pad_copy:
  assumes "cstr m s str"
  shows "n \<le> length str \<Longrightarrow> region_copy m d s n = region_pad m d n str"
    and "\<not> n \<le> length str \<Longrightarrow>
      region_fill (region_copy m d s (length str + 1)) (d + length str + 1) (n - length str - 1) 0 = region_pad m d n str"
proof -
  have at: "m (s + i) = str ! i" if "i < length str" for i using cstr_nth [OF assms that] by simp
  show "region_copy m d s n = region_pad m d n str" if "n \<le> length str"
  proof
    fix a
    consider "a < d" | "d + n \<le> a" | i where "a = d + i" "i < n"
      by (metis le_Suc_ex linorder_not_le nat_add_left_cancel_less)
    then show "region_copy m d s n a = region_pad m d n str a"
      using that at by cases (auto simp: region_copy_def region_pad_def region_put_def)
  qed
  show "region_fill (region_copy m d s (length str + 1)) (d + length str + 1) (n - length str - 1) 0 = region_pad m d n str"
    if "\<not> n \<le> length str"
  proof
    fix a
    consider "a < d" | "d + n \<le> a" | i where "a = d + i" "i < length str" | i where "a = d + i" "length str \<le> i" "i < n"
      by (metis le_Suc_ex linorder_not_le nat_add_left_cancel_less)
    then show "region_fill (region_copy m d s (length str + 1)) (d + length str + 1) (n - length str - 1) 0 a = region_pad m d n str a"
      using that at cstr_end [OF assms]
      by cases (auto simp: region_fill_def region_copy_def region_pad_def region_put_def nth_append not_less_eq_eq
          dest: le_antisym)
  qed
qed

lemma strn_fast_str:
  assumes c: "cstr m s str" and f: "forward_ok d s (length str + 1)"
  shows "strn_fast m d s n = (region_pad m d n str, if n \<le> length str then None else Some (d + length str), d + n)"
proof -
  define p where "p = (if \<not> UNALIGNED2 s d \<and> \<not> n < 4 then ncpy_words m d s n else (m, d, s, n))"
  obtain j where j: "j \<le> n" "j \<le> length str" "p = (region_copy m d s j, d + j, s + j, n - j)"
    using ncpy_words_str [OF assms, of n] that [of 0] by (cases "\<not> UNALIGNED2 s d \<and> \<not> n < 4") (auto simp: p_def)
  have f': "forward_ok d s (j + (length str - j + 1))" using f j(2) by simp
  have c2: "cstr (region_copy m d s j) (s + j) (drop j str)" by (rule cstr_after_copy [OF assms j(2)])
  have f2: "forward_ok (d + j) (s + j) (length (drop j str) + 1)" using forward_ok_step [OF f'] by simp
  have r: "region_copy (region_copy m d s j) (d + j) (s + j) k = region_copy m d s (j + k)" if "k \<le> length str - j + 1" for k
    by (rule region_copy_add) (rule forward_ok_mono [OF f'], use that in simp)
  have run: "strn_fast m d s n = (case ncpy_bytes (region_copy m d s j) (d + j) (s + j) (n - j) of
      (m2, dst', count', brk) \<Rightarrow> (byte_filler m2 dst' 0 count', if brk then Some (dst' - 1) else None, dst' + count'))"
    using j(3) by (simp add: strn_fast_def p_def [symmetric])
  show ?thesis
  proof (cases "n \<le> length str")
    case True
    then show ?thesis using run ncpy_bytes_str [OF c2 f2, of "n - j"] r [of "n - j"] j region_pad_copy(1) [OF c True, of d]
      by simp
  next
    case False
    then show ?thesis using run ncpy_bytes_str [OF c2 f2, of "n - j"] r [of "length str - j + 1"] j
      region_pad_copy(2) [OF c False, of d] by (simp add: byte_filler_region)
  qed
qed

section \<open>Stored strings\<close>

lemma region_put_Nil [simp]: "region_put m d [] = m"
  by (rule ext) (auto simp: region_put_def)

lemma region_put_Cons: "region_put m d (c # bs) = region_put (m(d := c)) (d + 1) bs"
proof
  fix a
  consider "a < d" | "a = d" | i where "a = Suc (d + i)"
    by (metis less_iff_Suc_add linorder_cases)
  then show "region_put m d (c # bs) a = region_put (m(d := c)) (d + 1) bs a"
    by cases (auto simp: region_put_def)
qed

lemma region_put_append: "region_put m d (xs @ ys) = region_put (region_put m d xs) (d + length xs) ys"
  by (induction xs arbitrary: m d) (simp_all add: region_put_Cons)

lemma region_copy_put: "\<forall>i<n. m (s + i) = str ! i \<Longrightarrow> n \<le> length str \<Longrightarrow> region_copy m d s n = region_put m d (take n str)"
proof
  fix a assume *: "\<forall>i<n. m (s + i) = str ! i" "n \<le> length str"
  consider "a < d" | "d + n \<le> a" | i where "a = d + i" "i < n"
    by (metis le_Suc_ex linorder_not_le nat_add_left_cancel_less)
  then show "region_copy m d s n a = region_put m d (take n str) a"
    using * by cases (auto simp: region_copy_def region_put_def)
qed

lemma cstr_copy_put:
  assumes "cstr m s str"
  shows "n \<le> length str \<Longrightarrow> region_copy m d s n = region_put m d (take n str)"
    and "region_copy m d s (length str + 1) = region_put m d (str @ [0])"
proof -
  show "n \<le> length str \<Longrightarrow> region_copy m d s n = region_put m d (take n str)"
    using cstr_nth [OF assms] by (intro region_copy_put) auto
  have "region_copy m d s (length str + 1) = region_put m d (take (length str + 1) (str @ [0]))"
    using cstr_nth [OF assms] cstr_end [OF assms] by (intro region_copy_put) (auto simp: nth_append less_Suc_eq)
  then show "region_copy m d s (length str + 1) = region_put m d (str @ [0])" by simp
qed

lemma region_put_other: "a < d \<or> d + length bs \<le> a \<Longrightarrow> region_put m d bs a = m a"
  by (auto simp: region_put_def)

lemma cstr_put_other:
  "d + length bs \<le> p \<or> p + length s + 1 \<le> d \<Longrightarrow> cstr (region_put m d bs) p s \<longleftrightarrow> cstr m p s"
  by (rule cstr_cong) (auto intro!: region_put_other)

section \<open>Bounded copies on strings\<close>

lemma strncat_loop_str:
  "cstr m q b \<Longrightarrow> forward_ok e q (length b + 1) \<Longrightarrow> m e = 0 \<or> n \<noteq> 0 \<Longrightarrow>
   strncat_loop m e q n = region_put m e (take n b @ [0])"
proof (induction n arbitrary: m e q b)
  case 0 then show ?case by (auto simp: region_put_Cons)
next
  case (Suc n)
  show ?case
  proof (cases b)
    case Nil then show ?thesis using Suc.prems(1) by (simp add: region_put_Cons)
  next
    case (Cons c r)
    have c: "m q = c" "c \<noteq> 0" using Suc.prems(1) Cons by (simp_all add: cstr_Cons)
    show ?thesis
    proof (cases "n = 0")
      case True then show ?thesis using c Cons by (simp add: region_put_Cons)
    next
      case False
      have f: "forward_ok e q (1 + (length r + 1))" using Suc.prems(2) Cons by simp
      define m1 where "m1 = m(e := m q)"
      have "cstr m1 (q + 1) r"
        using cstr_after_copy [OF Suc.prems(1,2), of 1] Cons region_copy_byte [of m e q] by (simp add: m1_def)
      moreover have "forward_ok (e + 1) (q + 1) (length r + 1)" by (rule forward_ok_step [OF f])
      ultimately have "strncat_loop m1 (e + 1) (q + 1) n = region_put m1 (e + 1) (take n r @ [0])"
        using False by (intro Suc.IH) auto
      then show ?thesis using c Cons False by (simp add: region_put_Cons m1_def)
    qed
  qed
qed

lemma lcpy_loop_str:
  "cstr m s str \<Longrightarrow> forward_ok d s (length str + 1) \<Longrightarrow>
   lcpy_loop m d s n = (if n \<le> length str then (region_put m d (take n str), d + n, s + n, 0)
     else (region_put m d (str @ [0]), d + length str + 1, s + length str + 1, n - length str))"
proof (induction n arbitrary: m d s str)
  case 0 then show ?case by simp
next
  case (Suc n)
  show ?case
  proof (cases str)
    case Nil then show ?thesis using Suc.prems(1) by (simp add: region_put_Cons)
  next
    case (Cons c r)
    have c: "m s = c" "c \<noteq> 0" using Suc.prems(1) Cons by (simp_all add: cstr_Cons)
    have f: "forward_ok d s (1 + (length r + 1))" using Suc.prems(2) Cons by simp
    define m1 where "m1 = m(d := c)"
    have "cstr m1 (s + 1) r"
      using cstr_after_copy [OF Suc.prems, of 1] Cons c(1) region_copy_byte [of m d s] by (simp add: m1_def)
    moreover have "forward_ok (d + 1) (s + 1) (length r + 1)" by (rule forward_ok_step [OF f])
    ultimately show ?thesis using Suc.IH [of m1 "s + 1" r "d + 1"] c Cons by (simp add: region_put_Cons m1_def [symmetric])
  qed
qed

lemma strlcpy_str:
  assumes s: "cstr m s str" and dj: "d + siz \<le> s \<or> s + length str + 1 \<le> d"
  shows "strlcpy m d s siz = Some (if siz = 0 then m else region_put m d (take (siz - 1) str @ [0]), length str)"
proof (cases "siz - 1 \<le> length str")
  case False
  have f: "forward_ok d s (length str + 1)" using dj by (auto simp: forward_ok_def)
  have "siz \<noteq> 0 \<and> siz - 1 \<noteq> 0" "siz \<noteq> 0" using False by auto
  moreover have "\<not> siz \<le> Suc (length str)" using False by simp
  ultimately show ?thesis using lcpy_loop_str [OF s f, of "siz - 1"] False by (simp add: strlcpy_def)
next
  case True
  define k where "k = siz - 1"
  have f: "forward_ok d s (length str + 1)" using dj by (auto simp: forward_ok_def)
  have l: "(if siz \<noteq> 0 \<and> k \<noteq> 0 then lcpy_loop m d s k else (m, d, s, 0)) = (region_put m d (take k str), d + k, s + k, 0)"
  proof (cases "k = 0")
    case False
    then have "siz \<noteq> 0" "k \<le> length str" using True by (simp_all add: k_def)
    then show ?thesis using lcpy_loop_str [OF s f, of k] False by simp
  qed simp
  have m2: "(if siz \<noteq> 0 then (region_put m d (take k str))(d + k := 0) else region_put m d (take k str)) =
      (if siz = 0 then m else region_put m d (take k str @ [0]))"
  proof -
    have "siz = 0 \<Longrightarrow> k = 0" "min (length str) k = k" using True by (simp_all add: k_def)
    then show ?thesis by (auto simp: region_put_append region_put_Cons)
  qed
  have "cstr (if siz = 0 then m else region_put m d (take k str @ [0])) (s + k) (drop k str)"
    using cstr_drop [OF s, of k] dj True by (auto simp: k_def cstr_put_other min_absorb2)
  from skip_bytes_first [OF cstr_first_hit [OF this]] True show ?thesis
    unfolding strlcpy_def Let_def k_def [symmetric] l prod.case if_P [OF refl] m2 by (simp add: k_def)
qed

lemma lcat_loop_str:
  "cstr m s str \<Longrightarrow> d + (n - 1) \<le> s \<or> s + length str + 1 \<le> d \<Longrightarrow> 1 \<le> n \<Longrightarrow>
   lcat_loop m d s n = Some (region_put m d (take (n - 1) str), d + min (n - 1) (length str), s + length str)"
proof (induction str arbitrary: m d s n)
  case Nil then show ?case by (subst lcat_loop.simps) simp
next
  case (Cons c r)
  have c: "m s = c" "c \<noteq> 0" "cstr m (s + 1) r" using Cons.prems(1) by (simp_all add: cstr_Cons)
  show ?case
  proof (cases "n = 1")
    case True
    have "lcat_loop m d (s + 1) 1 = Some (region_put m d (take 0 r), d + min 0 (length r), s + 1 + length r)"
      using Cons.IH [OF c(3), of d 1] Cons.prems(2) True by auto
    then show ?thesis using c True by (subst lcat_loop.simps) simp
  next
    case False
    define m1 where "m1 = m(d := c)"
    have "d + 1 \<le> s + 1 \<or> s + 1 + length r + 1 \<le> d" using Cons.prems(2,3) False by auto
    then have "cstr m1 (s + 1) r"
      using cstr_put_other [of d "[c]" "s + 1" r m] c(3) by (simp add: region_put_Cons m1_def)
    moreover have "d + 1 + (n - 1 - 1) \<le> s + 1 \<or> s + 1 + length r + 1 \<le> d + 1" using Cons.prems False by auto
    moreover have "1 \<le> n - 1" using Cons.prems(3) False by simp
    ultimately have "lcat_loop m1 (d + 1) (s + 1) (n - 1) =
        Some (region_put m1 (d + 1) (take (n - 1 - 1) r), d + 1 + min (n - 1 - 1) (length r), s + 1 + length r)"
      by (rule Cons.IH)
    moreover obtain j where "n = Suc (Suc j)" using Cons.prems(3) False by (cases n; cases "n - 1") auto
    ultimately show ?thesis using c by (subst lcat_loop.simps) (simp add: region_put_Cons m1_def)
  qed
qed

lemma xfrm_loop_str:
  "cstr m s str \<Longrightarrow> forward_ok d s (length str + 1) \<Longrightarrow>
   xfrm_loop m d s n r = (if n \<le> length str then (region_put m d (take n str), s + n, r + n, False)
     else (region_put m d (str @ [0]), s + length str + 1, r + length str, True))"
proof (induction n arbitrary: m d s str r)
  case 0 then show ?case by simp
next
  case (Suc n)
  show ?case
  proof (cases str)
    case Nil then show ?thesis using Suc.prems(1) by (simp add: region_put_Cons)
  next
    case (Cons c t)
    have c: "m s = c" "c \<noteq> 0" using Suc.prems(1) Cons by (simp_all add: cstr_Cons)
    have f: "forward_ok d s (1 + (length t + 1))" using Suc.prems(2) Cons by simp
    define m1 where "m1 = m(d := c)"
    have "cstr m1 (s + 1) t"
      using cstr_after_copy [OF Suc.prems, of 1] Cons c(1) region_copy_byte [of m d s] by (simp add: m1_def)
    moreover have "forward_ok (d + 1) (s + 1) (length t + 1)" by (rule forward_ok_step [OF f])
    ultimately show ?thesis using Suc.IH [of m1 "s + 1" t "d + 1" "r + 1"] c Cons by (simp add: region_put_Cons m1_def [symmetric])
  qed
qed

lemma strlwr_loop_str: "cstr m p str \<Longrightarrow> strlwr_loop m p = Some (region_put m p (map lower_byte str))"
proof (induction str arbitrary: m p)
  case Nil then show ?case by (subst strlwr_loop.simps) simp
next
  case (Cons c r)
  then have "cstr (m(p := lower_byte c)) (p + 1) r" by (subst cstr_cong [of _ _ _ m]) (auto simp: cstr_Cons)
  then show ?case using Cons by (subst strlwr_loop.simps) (simp add: cstr_Cons region_put_Cons)
qed

lemma strupr_loop_str: "cstr m p str \<Longrightarrow> strupr_loop m p = Some (region_put m p (map upper_byte str))"
proof (induction str arbitrary: m p)
  case Nil then show ?case by (subst strupr_loop.simps) simp
next
  case (Cons c r)
  then have "cstr (m(p := upper_byte c)) (p + 1) r" by (subst cstr_cong [of _ _ _ m]) (auto simp: cstr_Cons)
  then show ?case using Cons by (subst strupr_loop.simps) (simp add: cstr_Cons region_put_Cons)
qed

section \<open>Properties\<close>

lemma cstr_appended:
  assumes "cstr m d a" and "0 \<notin> set b"
  shows "cstr (region_put m (d + length a) (b @ [0])) d (a @ b)"
proof -
  have "cstr (region_put m (d + length a) (b @ [0])) (d + length a) b" by (rule cstr_region_put [OF assms(2)])
  moreover have "region_put m (d + length a) (b @ [0]) (d + i) = a ! i" if "i < length a" for i
    using cstr_nth [OF assms(1) that] that by (simp add: region_put_def)
  moreover have "0 \<notin> set a" using assms(1) by (simp add: cstr_def)
  ultimately show ?thesis unfolding cstr_append by blast
qed

text \<open>The unbounded copies. For separate objects and any alignment \<open>strcpy\<close> stores the string with
  its terminator and nothing else and returns the destination, \<open>stpcpy\<close> the address of the new
  terminator; \<open>strcat\<close> appends: the destination then holds the concatenation.\<close>

theorem strcpy_correct:
  assumes "cstr m s b" and "cstr m d a"
    and "d + length a + length b + 1 \<le> s \<or> s + length b + 1 \<le> d"
  shows "strcpy m d s = Some (region_put m d (b @ [0]), d) \<and>
         stpcpy m d s = Some (region_put m d (b @ [0]), d + length b) \<and>
         cstr (region_put m d (b @ [0])) d b \<and>
         strcat m d s = Some (region_put m (d + length a) (b @ [0]), d) \<and>
         cstr (region_put m (d + length a) (b @ [0])) d (a @ b)"
proof -
  have b: "0 \<notin> set b" using assms(1) by (simp add: cstr_def)
  have "forward_ok d s (length b + 1)" "forward_ok (d + length a) s (length b + 1)"
    using assms(3) by (auto simp: forward_ok_def)
  then show ?thesis
    using str_fast_str [OF assms(1)] cstr_copy_put(2) [OF assms(1)] str_end_cstr [OF assms(2)]
      cstr_region_put [OF b] cstr_appended [OF assms(2) b]
    by (simp add: strcpy_def stpcpy_def strcat_def)
qed

definition demo_copy :: mem where
  "demo_copy = region_put demo_strs 200 (map (of_nat \<circ> of_char) ''say '' @ [0])"

lemma demo_copy_cstr:
  "cstr demo_copy 101 (map (of_nat \<circ> of_char) ''hello, world'')"
  "cstr demo_copy 200 (map (of_nat \<circ> of_char) ''say '')"
  by code_simp+

lemma strcpy_correct_witness:
  "strcat demo_copy 200 101 = Some (region_put demo_copy 204 (map (of_nat \<circ> of_char) ''hello, world'' @ [0]), 200)"
  using strcpy_correct [OF demo_copy_cstr] by simp

text \<open>The counted copies. \<open>strncpy\<close> and \<open>stpncpy\<close> write exactly \<open>n\<close> bytes: the string, cut or padded
  with zeros; \<open>strncpy\<close> returns the destination and \<open>stpncpy\<close> the first zero written, or the end. A
  string of \<open>n\<close> or more bytes leaves no terminator.\<close>

theorem strncpy_correct:
  assumes "cstr m s str" and "d + max n (length str + 1) \<le> s \<or> s + length str + 1 \<le> d"
  shows "strncpy m d s n = (region_put m d (take n str @ replicate (n - length str) 0), d) \<and>
         stpncpy m d s n = (region_put m d (take n str @ replicate (n - length str) 0), d + min n (length str)) \<and>
         (length str < n \<longrightarrow> cstr (fst (strncpy m d s n)) d str)"
proof -
  have "forward_ok d s (length str + 1)" using assms(2) by (auto simp: forward_ok_def)
  note f = strn_fast_str [OF assms(1) this, of n, unfolded region_pad_def]
  have "cstr (region_put m d (take n str @ replicate (n - length str) 0)) d str" if "length str < n"
  proof -
    have e: "take n str @ replicate (n - length str) 0 = (str @ [0]) @ replicate (n - length str - 1) 0"
      using that by (simp add: replicate_Suc [symmetric] Suc_diff_Suc)
    have "cstr (region_put (region_put m d (str @ [0])) (d + length (str @ [0])) (replicate (n - length str - 1) 0)) d str"
      by (subst cstr_put_other) (use cstr_region_put assms(1) in \<open>auto simp: cstr_def [of m]\<close>)
    then show ?thesis unfolding e region_put_append [of m d "str @ [0]"] .
  qed
  then show ?thesis using f by (simp add: strncpy_def stpncpy_def)
qed

lemma strncpy_correct_witness:
  "strncpy demo_copy 301 101 16 = (region_put demo_copy 301 (map (of_nat \<circ> of_char) ''hello, world'' @ [0, 0, 0, 0]), 301)"
proof -
  have "replicate 4 0 = [0, 0, 0, 0 :: u8]" by (simp add: numeral_eq_Suc)
  then show ?thesis using strncpy_correct [OF demo_copy_cstr(1), of 301 16] by simp
qed

text \<open>What the bounded functions write and return. \<open>strncat\<close> appends at most \<open>n\<close> bytes and a terminator.
  \<open>strlcpy\<close> writes nothing for \<open>siz = 0\<close> and otherwise the source cut to \<open>siz - 1\<close> bytes with a terminator, \<open>strlcat\<close>
  does so behind a destination that is shorter than \<open>siz\<close> and otherwise writes nothing; both return the length they
  would have needed. \<open>strxfrm\<close> in the C locale writes the first \<open>siz\<close> bytes of the source and its terminator, so
  no terminator if the source has \<open>siz\<close> bytes or more, and returns the length of its source.\<close>

theorem strlcpy_correct:
  assumes "cstr m s b" and "cstr m d a"
    and "d + length a + length b + siz + 1 \<le> s \<or> s + length b + 1 \<le> d"
  shows "strncat m d s n = Some (region_put m (d + length a) (take n b @ [0]), d) \<and>
         cstr (region_put m (d + length a) (take n b @ [0])) d (a @ take n b) \<and>
         strlcpy m d s siz = Some (if siz = 0 then m else region_put m d (take (siz - 1) b @ [0]), length b) \<and>
         (0 < siz \<longrightarrow> cstr (region_put m d (take (siz - 1) b @ [0])) d (take (siz - 1) b)) \<and>
         strlcat m d s siz = Some (if length a < siz then region_put m (d + length a) (take (siz - 1 - length a) b @ [0]) else m,
           min siz (length a) + length b) \<and>
         strxfrm m d s siz = Some (region_put m d (take siz (b @ [0])), length b)"
proof -
  have b: "0 \<notin> set (take k b)" for k using assms(1) by (auto simp: cstr_def dest: in_set_takeD)
  have f: "forward_ok (d + length a) s (length b + 1)" "forward_ok d s (length b + 1)"
    using assms(3) by (auto simp: forward_ok_def)
  have cat: "strncat m d s n = Some (region_put m (d + length a) (take n b @ [0]), d)"
    using str_end_cstr [OF assms(2)] strncat_loop_str [OF assms(1) f(1), of n] cstr_end [OF assms(2)]
    by (simp add: strncat_def)
  have lcpy: "strlcpy m d s siz = Some (if siz = 0 then m else region_put m d (take (siz - 1) b @ [0]), length b)"
    by (rule strlcpy_str [OF assms(1)]) (use assms(3) in auto)
  have lcat: "strlcat m d s siz = Some (if length a < siz then region_put m (d + length a) (take (siz - 1 - length a) b @ [0]) else m,
           min siz (length a) + length b)"
  proof (cases "length a < siz")
    case False
    then show ?thesis using strnlen_loop_cstr [OF assms(2), of siz] strlen_cstr [OF assms(1)]
      by (simp add: strlcat_def)
  next
    case True
    have "d + length a + (siz - length a - 1) \<le> s \<or> s + length b + 1 \<le> d + length a" using assms(3) True by auto
    note l = lcat_loop_str [OF assms(1) this]
    have "siz - length a - 1 = siz - 1 - length a" by simp
    then show ?thesis using strnlen_loop_cstr [OF assms(2), of siz] l True
      by (simp add: strlcat_def Let_def min_absorb2 region_put_append region_put_Cons add.assoc min.commute)
  qed
  have xfrm: "strxfrm m d s siz = Some (region_put m d (take siz (b @ [0])), length b)"
  proof (cases "siz \<le> length b")
    case False
    then show ?thesis using xfrm_loop_str [OF assms(1) f(2), of siz 0] by (simp add: strxfrm_def)
  next
    case True
    have "d + length (take siz b) \<le> s + siz \<or> s + siz + length (drop siz b) + 1 \<le> d" using assms(3) True by auto
    then have "cstr (region_put m d (take siz b)) (s + siz) (drop siz b)"
      using cstr_drop [OF assms(1) True] by (simp only: cstr_put_other)
    from skip_bytes_first [OF cstr_first_hit [OF this]] True show ?thesis
      using xfrm_loop_str [OF assms(1) f(2), of siz 0] by (simp add: strxfrm_def)
  qed
  show ?thesis using cat lcpy lcat xfrm cstr_appended [OF assms(2) b] cstr_region_put [OF b] by blast
qed

lemma strlcpy_correct_witness:
  "strlcat demo_copy 200 101 8 = Some (region_put demo_copy 204 (map (of_nat \<circ> of_char) ''hel'' @ [0]), 16)"
  using strlcpy_correct [OF demo_copy_cstr, of 8] by (simp add: numeral_eq_Suc)

text \<open>\<open>strlwr\<close> and \<open>strupr\<close> change the letters of the string in place and nothing else; what
  \<open>strlwr\<close> has written, \<open>strlwr\<close> leaves alone.\<close>

theorem strlwr_correct:
  assumes "cstr m p s"
  shows "strlwr m p = Some (region_put m p (map lower_byte s), p) \<and>
         strupr m p = Some (region_put m p (map upper_byte s), p) \<and>
         cstr (region_put m p (map lower_byte s)) p (map lower_byte s) \<and>
         strlwr (region_put m p (map lower_byte s)) p = Some (region_put m p (map lower_byte s), p)"
proof -
  let ?m = "region_put m p (map lower_byte s)"
  have c: "cstr ?m p (map lower_byte s)" using assms by (auto simp: cstr_def region_put_def)
  have idem: "lower_byte (lower_byte b) = lower_byte b" for b
  proof -
    have ge: "- 1 \<le> uint v" for v :: u8 using uint_ge_0 [of v] by linarith
    have "uint (lower_byte b) = (if 65 \<le> uint b \<and> uint b \<le> 90 then uint b + 32 else uint b)"
      using ctype_ranges [OF ge [of b]] uint_lt2p [of b] by (simp add: uint_lower_byte tolower_def)
    then have "\<not> (65 \<le> uint (lower_byte b) \<and> uint (lower_byte b) \<le> 90)" by auto
    then show ?thesis
      using ctype_ranges [OF ge [of "lower_byte b"]] uint_lt2p [of "lower_byte b"]
      by (simp add: lower_byte_def [of "lower_byte b"] tolower_def)
  qed
  have "region_put ?m p (map lower_byte (map lower_byte s)) = ?m"
  proof -
    have "map lower_byte (map lower_byte s) = map lower_byte s" by (simp add: idem)
    then show ?thesis by (simp only:) (rule ext, simp add: region_put_def)
  qed
  then show ?thesis using strlwr_loop_str [OF assms] strupr_loop_str [OF assms] strlwr_loop_str [OF c] c
    by (simp add: strlwr_def strupr_def)
qed

lemma strlwr_correct_witness:
  "strupr demo_copy 200 = Some (region_put demo_copy 200 (map upper_byte (map (of_nat \<circ> of_char) ''say '')), 200)"
  using strlwr_correct [OF demo_copy_cstr(2)] by simp

end
