(* ===== verification/StrCmp.thy ===== *)
theory StrCmp
  imports StrCopy
begin

text \<open>
  The string comparisons of \<open>string/\<close>: \<open>strcmp.c\<close>, \<open>strncmp.c\<close>, \<open>strcasecmp.c\<close>, \<open>strncasecmp.c\<close> and
  \<open>strcoll.c\<close>. The specification is the difference \<open>str_diff\<close> of the first characters that differ, which
  orders the strings lexicographically.
\<close>

section \<open>The functions\<close>

text \<open>
  \<open>while (*a1 == *a2) { if (DETECTNULL (*a1)) return 0; a1++; a2++; }\<close>; the inner \<open>None\<close> is the return
  with 0.
\<close>

partial_function (option) scmp_words :: "mem \<Rightarrow> nat \<Rightarrow> nat \<Rightarrow> (nat \<times> nat) option option" where
  "scmp_words m a1 a2 =
     (if load32 m a1 = load32 m a2 then
        (if DETECTNULL (load32 m a1) \<noteq> 0 then Some None else scmp_words m (a1 + 4) (a2 + 4))
      else Some (Some (a1, a2)))"

text \<open>\<open>while (*s1 != '\0' && *s1 == *s2) { s1++; s2++; }\<close> and the difference where it ends.\<close>

partial_function (option) scmp_bytes :: "mem \<Rightarrow> nat \<Rightarrow> nat \<Rightarrow> int option" where
  "scmp_bytes m s1 s2 =
     (if m s1 \<noteq> 0 \<and> m s1 = m s2 then scmp_bytes m (s1 + 1) (s2 + 1)
      else Some (uint (m s1) - uint (m s2)))"

definition strcmp :: "mem \<Rightarrow> nat \<Rightarrow> nat \<Rightarrow> int option" where
  "strcmp m s1 s2 =
     (if \<not> UNALIGNED2 s1 s2 then
        (case scmp_words m s1 s2 of None \<Rightarrow> None
         | Some None \<Rightarrow> Some 0
         | Some (Some (a1, a2)) \<Rightarrow> scmp_bytes m a1 a2)
      else scmp_bytes m s1 s2)"

definition strcoll :: "mem \<Rightarrow> nat \<Rightarrow> nat \<Rightarrow> int option" where
  "strcoll m a b = strcmp m a b"

text \<open>The word loop of \<open>strncmp\<close>; \<open>None\<close> is the return with 0.\<close>

fun ncmp_words :: "mem \<Rightarrow> nat \<Rightarrow> nat \<Rightarrow> nat \<Rightarrow> (nat \<times> nat \<times> nat) option" where
  "ncmp_words m a1 a2 n =
     (if 4 \<le> n \<and> load32 m a1 = load32 m a2 then
        (if n - 4 = 0 \<or> DETECTNULL (load32 m a1) \<noteq> 0 then None
         else ncmp_words m (a1 + 4) (a2 + 4) (n - 4))
      else Some (a1, a2, n))"

declare ncmp_words.simps [simp del]

text \<open>\<open>while (n-- > 0 && *s1 == *s2) { if (n == 0 || *s1 == '\0') return 0; s1++; s2++; }\<close>\<close>

fun ncmp_bytes :: "mem \<Rightarrow> nat \<Rightarrow> nat \<Rightarrow> nat \<Rightarrow> int" where
  "ncmp_bytes m s1 s2 0 = uint (m s1) - uint (m s2)"
| "ncmp_bytes m s1 s2 (Suc n) =
     (if m s1 = m s2 then (if n = 0 \<or> m s1 = 0 then 0 else ncmp_bytes m (s1 + 1) (s2 + 1) n)
      else uint (m s1) - uint (m s2))"

definition strncmp :: "mem \<Rightarrow> nat \<Rightarrow> nat \<Rightarrow> nat \<Rightarrow> int" where
  "strncmp m s1 s2 n =
     (if n = 0 then 0
      else if \<not> UNALIGNED2 s1 s2 then
        (case ncmp_words m s1 s2 n of None \<Rightarrow> 0 | Some (a1, a2, n') \<Rightarrow> ncmp_bytes m a1 a2 n')
      else ncmp_bytes m s1 s2 n)"

text \<open>The loops of the comparisons without case.\<close>

partial_function (option) strcasecmp :: "mem \<Rightarrow> nat \<Rightarrow> nat \<Rightarrow> int option" where
  "strcasecmp m ucs1 ucs2 =
     (let c1 = tolower (uint (m ucs1)); c2 = tolower (uint (m ucs2)); d = c1 - c2
      in if d \<noteq> 0 \<or> c2 = 0 then Some d else strcasecmp m (ucs1 + 1) (ucs2 + 1))"

fun ncase_loop :: "mem \<Rightarrow> nat \<Rightarrow> nat \<Rightarrow> nat \<Rightarrow> int \<Rightarrow> int" where
  "ncase_loop m ucs1 ucs2 0 d0 = d0"
| "ncase_loop m ucs1 ucs2 (Suc n) d0 =
     (let c1 = tolower (uint (m ucs1)); c2 = tolower (uint (m ucs2)); d = c1 - c2
      in if d \<noteq> 0 \<or> c2 = 0 then d else ncase_loop m (ucs1 + 1) (ucs2 + 1) n d)"

definition strncasecmp :: "mem \<Rightarrow> nat \<Rightarrow> nat \<Rightarrow> nat \<Rightarrow> int" where
  "strncasecmp m s1 s2 n = ncase_loop m s1 s2 n 0"

declare scmp_words.simps [code] scmp_bytes.simps [code] strcasecmp.simps [code]

section \<open>The order of strings\<close>

text \<open>A string is followed by its terminator, so a proper prefix differs from the longer string by 0.\<close>

fun str_diff :: "u8 list \<Rightarrow> u8 list \<Rightarrow> int" where
  "str_diff [] [] = 0"
| "str_diff [] (b # t) = - uint b"
| "str_diff (a # s) [] = uint a"
| "str_diff (a # s) (b # t) = (if a = b then str_diff s t else uint a - uint b)"

text \<open>The lexicographic order by unsigned bytes.\<close>

fun str_less :: "u8 list \<Rightarrow> u8 list \<Rightarrow> bool" where
  "str_less s [] = False"
| "str_less [] (b # t) = True"
| "str_less (a # s) (b # t) = (a < b \<or> a = b \<and> str_less s t)"

lemma str_diff_zero: "0 \<notin> set s \<Longrightarrow> 0 \<notin> set t \<Longrightarrow> str_diff s t = 0 \<longleftrightarrow> s = t"
  by (induction s t rule: str_diff.induct) (auto simp: word_uint_eq_iff)

lemma str_diff_anti: "str_diff t s = - str_diff s t"
  by (induction s t rule: str_diff.induct) auto

lemma uint_pos: "0 < uint (b :: u8) \<longleftrightarrow> b \<noteq> 0"
  by (metis uint_0_iff uint_ge_0 order_le_less less_irrefl)

lemma str_diff_neg: "0 \<notin> set s \<Longrightarrow> 0 \<notin> set t \<Longrightarrow> str_diff s t < 0 \<longleftrightarrow> str_less s t"
  by (induction s t rule: str_diff.induct) (auto simp: uint_pos word_less_def not_less)

lemma str_less_trans: "str_less r s \<Longrightarrow> str_less s t \<Longrightarrow> str_less r t"
proof (induction r s arbitrary: t rule: str_less.induct)
  case (2 b s) then show ?case by (cases t) auto
next
  case (3 a r b s) then show ?case by (cases t) auto
qed simp

section \<open>The loops compute the difference\<close>

lemma scmp_bytes_str:
  "cstr m p s \<Longrightarrow> cstr m q t \<Longrightarrow> scmp_bytes m p q = Some (str_diff s t)"
  by (induction s t arbitrary: p q rule: str_diff.induct)
     (auto simp: cstr_Cons scmp_bytes.simps [of m p q for p q])

text \<open>Equal words without a zero byte: both strings start with the same four characters.\<close>

lemma same_word:
  assumes "cstr m p s" and "cstr m q t" and "load32 m p = load32 m q" and "\<not> DETECTNULL (load32 m p) \<noteq> 0"
  shows "4 \<le> length s \<and> 4 \<le> length t \<and> take 4 s = take 4 t \<and>
    cstr m (p + 4) (drop 4 s) \<and> cstr m (q + 4) (drop 4 t)"
proof -
  have l: "4 \<le> length s" "4 \<le> length t"
    using cstr_no_null [OF assms(1,4)] cstr_no_null [OF assms(2)] assms(3,4) by simp_all
  have "m (p + i) = m (q + i)" if "i < 4" for i using assms(3) that unfolding load32_eq_iff by blast
  then have "take 4 s = take 4 t"
    using l cstr_nth [OF assms(1)] cstr_nth [OF assms(2)] by (intro nth_equalityI) auto
  then show ?thesis using l cstr_drop [OF assms(1) l(1)] cstr_drop [OF assms(2) l(2)] by simp
qed

lemma str_diff_prefix: "str_diff (r @ s) (r @ t) = str_diff s t"
  by (induction r) auto

lemma str_diff_drop: "take k s = take k t \<Longrightarrow> str_diff (drop k s) (drop k t) = str_diff s t"
  by (metis append_take_drop_id str_diff_prefix)

text \<open>Equal words with a zero byte: the strings end in them and are equal.\<close>

lemma same_last_word:
  assumes "cstr m p s" and "cstr m q t" and "load32 m p = load32 m q" and "DETECTNULL (load32 m p) \<noteq> 0"
  shows "s = t"
proof -
  have eq: "m (p + i) = m (q + i)" if "i < 4" for i using assms(3) that unfolding load32_eq_iff by blast
  obtain i where i: "i < 4" "m (p + i) = 0" using assms(4) unfolding DETECTNULL_iff by auto
  have "length s \<le> i"
  proof (rule ccontr)
    assume "\<not> length s \<le> i"
    then show False using cstr_nth [OF assms(1), of i] i(2) by simp
  qed
  then have "cstr m q s" using assms(1) eq i(1) unfolding cstr_def by simp
  then show ?thesis using cstr_fun assms(2) by blast
qed

lemma scmp_words_str:
  "cstr m p s \<Longrightarrow> cstr m q t \<Longrightarrow>
   (scmp_words m p q = Some None \<and> s = t) \<or>
   (\<exists>k. scmp_words m p q = Some (Some (p + k, q + k)) \<and> k \<le> length s \<and> k \<le> length t \<and> take k s = take k t)"
proof (induction "length s" arbitrary: p q s t rule: less_induct)
  case less
  consider "load32 m p \<noteq> load32 m q" | "load32 m p = load32 m q" "DETECTNULL (load32 m p) \<noteq> 0"
    | "load32 m p = load32 m q" "\<not> DETECTNULL (load32 m p) \<noteq> 0" by blast
  then show ?case
  proof cases
    case 1
    then show ?thesis by (subst (1 2) scmp_words.simps) (auto intro!: exI [of _ 0])
  next
    case 2
    then show ?thesis using same_last_word [OF less.prems] by (subst scmp_words.simps) simp
  next
    case 3
    note w = same_word [OF less.prems 3]
    have st: "s = take 4 s @ drop 4 s" "t = take 4 s @ drop 4 t" using w by (metis append_take_drop_id)+
    have step: "scmp_words m p q = scmp_words m (p + 4) (q + 4)"
      using 3 by (subst scmp_words.simps) simp
    have "length (drop 4 s) < length s" using w by (metis diff_less length_drop order_less_le_trans zero_less_numeral)
    from less.hyps [OF this] w
    consider "scmp_words m (p + 4) (q + 4) = Some None" "drop 4 s = drop 4 t"
      | k where "scmp_words m (p + 4) (q + 4) = Some (Some (p + 4 + k, q + 4 + k))"
        "k \<le> length (drop 4 s)" "k \<le> length (drop 4 t)" "take k (drop 4 s) = take k (drop 4 t)" by blast
    then show ?thesis
    proof cases
      case 1 then show ?thesis using step st by metis
    next
      case (2 k)
      have "take (4 + k) s = take (4 + k) t" using 2(4) w unfolding take_add by simp
      then show ?thesis using step 2 w by (intro disjI2 exI [of _ "4 + k"]) (auto simp: add.assoc)
    qed
  qed
qed

lemma strcmp_str:
  assumes "cstr m p s" and "cstr m q t"
  shows "strcmp m p q = Some (str_diff s t)"
proof (cases "UNALIGNED2 p q")
  case True
  then show ?thesis by (simp add: strcmp_def scmp_bytes_str [OF assms])
next
  case False
  from scmp_words_str [OF assms] show ?thesis
  proof (elim disjE exE conjE)
    assume "scmp_words m p q = Some None" "s = t"
    moreover have "str_diff t t = 0" by (induction t) auto
    ultimately show ?thesis using False by (simp add: strcmp_def)
  next
    fix k assume k: "scmp_words m p q = Some (Some (p + k, q + k))" "k \<le> length s" "k \<le> length t" "take k s = take k t"
    then show ?thesis
      using False scmp_bytes_str [OF cstr_drop [OF assms(1) k(2)] cstr_drop [OF assms(2) k(3)]] str_diff_drop [OF k(4)]
      by (simp add: strcmp_def)
  qed
qed

lemma ncmp_bytes_str:
  "0 < n \<Longrightarrow> cstr m p s \<Longrightarrow> cstr m q t \<Longrightarrow> ncmp_bytes m p q n = str_diff (take n s) (take n t)"
proof (induction n arbitrary: p q s t)
  case (Suc n)
  show ?case
  proof (cases s; cases t)
    fix a s' b t' assume st: "s = a # s'" "t = b # t'"
    then have c: "m p = a" "m q = b" "a \<noteq> 0" "cstr m (p + 1) s'" "cstr m (q + 1) t'"
      using Suc.prems by (simp_all add: cstr_Cons)
    show ?thesis using st c Suc.IH [OF _ c(4,5)] by (cases "n = 0") auto
  qed (use Suc.prems in \<open>auto simp: cstr_Cons\<close>)
qed simp

lemma ncmp_words_str:
  "0 < n \<Longrightarrow> cstr m p s \<Longrightarrow> cstr m q t \<Longrightarrow>
   (case ncmp_words m p q n of None \<Rightarrow> 0 | Some (a1, a2, n') \<Rightarrow> ncmp_bytes m a1 a2 n') =
   str_diff (take n s) (take n t)"
proof (induction n arbitrary: p q s t rule: less_induct)
  case (less n)
  have same: "str_diff r r = 0" for r by (induction r) auto
  consider "\<not> (4 \<le> n \<and> load32 m p = load32 m q)" | "4 \<le> n" "load32 m p = load32 m q" "DETECTNULL (load32 m p) \<noteq> 0"
    | "4 \<le> n" "load32 m p = load32 m q" "\<not> DETECTNULL (load32 m p) \<noteq> 0" by blast
  then show ?case
  proof cases
    case 1
    then have "ncmp_words m p q n = Some (p, q, n)" by (subst ncmp_words.simps) (simp only: if_False)
    then show ?thesis using ncmp_bytes_str [OF less.prems] by simp
  next
    case 2
    then show ?thesis using same_last_word [OF less.prems(2,3)] same by (subst ncmp_words.simps) simp
  next
    case 3
    note w = same_word [OF less.prems(2,3) 3(2,3)]
    have tk: "take n u = take 4 u @ take (n - 4) (drop 4 u)" for u :: "u8 list"
      using 3(1) by (metis le_add_diff_inverse take_add)
    show ?thesis
    proof (cases "n = 4")
      case True
      then show ?thesis using 3 w same by (subst ncmp_words.simps) simp
    next
      case False
      then have "0 < n - 4" "n - 4 < n" using 3(1) by simp_all
      then have ih: "(case ncmp_words m (p + 4) (q + 4) (n - 4) of None \<Rightarrow> 0
          | Some (a1, a2, n') \<Rightarrow> ncmp_bytes m a1 a2 n') = str_diff (take (n - 4) (drop 4 s)) (take (n - 4) (drop 4 t))"
        using less.IH w by blast
      show ?thesis using ih 3 w False str_diff_prefix [of "take 4 t"]
        unfolding tk [of s] tk [of t] by (subst ncmp_words.simps) simp
    qed
  qed
qed

lemma strncmp_str:
  "cstr m p s \<Longrightarrow> cstr m q t \<Longrightarrow> strncmp m p q n = str_diff (take n s) (take n t)"
  using ncmp_words_str [of n m p s q t] ncmp_bytes_str [of n m p s q t] by (simp add: strncmp_def)

text \<open>Without case, the characters are compared as \<open>lower_byte\<close> maps them.\<close>

lemma lower_byte_eq: "lower_byte a = lower_byte b \<longleftrightarrow> tolower (uint a) = tolower (uint b)"
  by (simp add: word_uint_eq_iff uint_lower_byte)

lemma tolower_zero [simp]: "tolower 0 = 0" "tolower (uint (b :: u8)) = 0 \<longleftrightarrow> b = 0"
  using tolower_range [of 0] tolower_range [of "uint b"] uint_lt2p [of b] by (simp_all add: uint_0_iff)

lemma strcasecmp_str:
  "cstr m p s \<Longrightarrow> cstr m q t \<Longrightarrow> strcasecmp m p q = Some (str_diff (map lower_byte s) (map lower_byte t))"
proof (induction s arbitrary: p q t)
  case Nil
  then show ?case by (cases t) (auto simp: cstr_Cons uint_lower_byte strcasecmp.simps [of m p q] Let_def)
next
  case (Cons a s)
  then show ?case
    by (cases t) (auto simp: cstr_Cons uint_lower_byte lower_byte_eq strcasecmp.simps [of m p q] Let_def)
qed

lemma ncase_loop_str:
  "cstr m p s \<Longrightarrow> cstr m q t \<Longrightarrow>
   ncase_loop m p q n 0 = str_diff (map lower_byte (take n s)) (map lower_byte (take n t))"
proof (induction n arbitrary: p q s t)
  case (Suc n)
  then show ?case
    by (cases s; cases t) (auto simp: cstr_Cons Let_def uint_lower_byte lower_byte_eq)
qed simp

section \<open>Properties\<close>

text \<open>The comparisons order the strings. \<open>strcmp\<close> and \<open>strcoll\<close> return, for any alignment, the difference of
  the first characters that differ, as unsigned bytes: 0 exactly for equal strings, negative exactly
  when the first string comes first in the lexicographic order, and the negated value for exchanged
  arguments. \<open>strncmp\<close> does so for the first \<open>n\<close> characters.\<close>

theorem strcmp_correct:
  assumes "cstr m p s" and "cstr m q t"
  shows "\<exists>d. strcmp m p q = Some d \<and> strcoll m p q = Some d \<and> (d = 0 \<longleftrightarrow> s = t) \<and>
    (d < 0 \<longleftrightarrow> str_less s t) \<and> strcmp m q p = Some (- d) \<and>
    strncmp m p q n = str_diff (take n s) (take n t) \<and>
    (strncmp m p q n = 0 \<longleftrightarrow> take n s = take n t) \<and> (strncmp m p q n < 0 \<longleftrightarrow> str_less (take n s) (take n t))"
proof -
  have z: "0 \<notin> set s" "0 \<notin> set t" using assms by (simp_all add: cstr_def)
  then have zn: "0 \<notin> set (take n s)" "0 \<notin> set (take n t)" by (auto dest: in_set_takeD)
  show ?thesis
    using strcmp_str [OF assms] strcmp_str [OF assms(2,1)] strncmp_str [OF assms, of n] str_diff_anti [of t s]
      str_diff_zero [OF z] str_diff_neg [OF z] str_diff_zero [OF zn] str_diff_neg [OF zn]
    by (simp add: strcoll_def)
qed

definition demo_pair :: mem where
  "demo_pair = region_put (mem_at 100 ([104, 101, 108, 108, 111, 32, 119] @ [0])) 200 ([104, 101, 108, 108, 79] @ [0])"

lemma demo_pair_cstr:
  "cstr demo_pair 100 [104, 101, 108, 108, 111, 32, 119]" "cstr demo_pair 200 [104, 101, 108, 108, 79]"
  by code_simp+

lemma strcmp_correct_witness: "strncmp demo_pair 100 200 5 = 32 \<and> (\<exists>d. strcmp demo_pair 100 200 = Some d \<and> d \<noteq> 0)"
  using strcmp_correct [OF demo_pair_cstr, of 5] by auto

text \<open>The comparisons without case return what the comparison of the strings in lower case returns.\<close>

theorem strcasecmp_correct:
  assumes "cstr m p s" and "cstr m q t"
  shows "strcasecmp m p q = Some (str_diff (map lower_byte s) (map lower_byte t)) \<and>
    strncasecmp m p q n = str_diff (map lower_byte (take n s)) (map lower_byte (take n t)) \<and>
    (strcasecmp m p q = Some 0 \<longleftrightarrow> map lower_byte s = map lower_byte t)"
proof -
  have "0 \<notin> set (map lower_byte s)" "0 \<notin> set (map lower_byte t)"
    using assms by (auto simp: cstr_def image_iff dest: sym)
  then show ?thesis
    using strcasecmp_str [OF assms] ncase_loop_str [OF assms] str_diff_zero by (simp add: strncasecmp_def)
qed

lemma strcasecmp_correct_witness: "strncasecmp demo_pair 100 200 5 = 0"
proof -
  have "lower_byte 111 = lower_byte 79" by code_simp
  then show ?thesis using strcasecmp_correct [OF demo_pair_cstr, of 5] by simp
qed

end
