(* ===== verification/StrTok.thy ===== *)
theory StrTok
  imports StrScan
begin

text \<open>
  The tokenizers of \<open>string/\<close>: \<open>strtok_r.c\<close> (the shared \<open>__strtok_r\<close>), \<open>strtok.c\<close> and \<open>strsep.c\<close>. They
  overwrite the delimiter behind each token, so the memory is threaded through the calls; the pointer
  behind \<open>lasts\<close> is a value of its own, outside the strings.
\<close>

section \<open>The functions\<close>

text \<open>The loop at \<open>cont\<close> that skips the leading delimiters: the first position that holds none.\<close>

partial_function (option) tok_lead :: "mem \<Rightarrow> nat \<Rightarrow> nat \<Rightarrow> nat option" where
  "tok_lead m s delim =
     (case set_scan m (m s) delim of None \<Rightarrow> None
      | Some sp \<Rightarrow> if m sp \<noteq> 0 then tok_lead m (s + 1) delim else Some s)"

text \<open>The loop that scans the token: the position of the delimiter or terminator behind it.\<close>

partial_function (option) tok_scan :: "mem \<Rightarrow> nat \<Rightarrow> nat \<Rightarrow> nat option" where
  "tok_scan m s delim =
     (case set_scan m (m s) delim of None \<Rightarrow> None
      | Some sp \<Rightarrow> if m sp = m s then Some s else tok_scan m (s + 1) delim)"

text \<open>The part behind the leading delimiters: the memory, \<open>*lasts\<close> and the result.\<close>

definition tok_rest :: "mem \<Rightarrow> nat \<Rightarrow> nat \<Rightarrow> (mem \<times> nat option \<times> nat option) option" where
  "tok_rest m s delim =
     (if m s = 0 then Some (m, None, None)
      else case tok_scan m (s + 1) delim of None \<Rightarrow> None
        | Some e \<Rightarrow> if m e = 0 then Some (m, None, Some s)
                    else Some (m(e := 0), Some (e + 1), Some s))"

definition strtok_common :: "mem \<Rightarrow> nat option \<Rightarrow> nat \<Rightarrow> nat option \<Rightarrow> bool \<Rightarrow> (mem \<times> nat option \<times> nat option) option" where
  "strtok_common m s delim lasts skip =
     (case (case s of None \<Rightarrow> lasts | Some p \<Rightarrow> Some p) of None \<Rightarrow> Some (m, lasts, None)
      | Some s0 \<Rightarrow>
          if skip then
            (case tok_lead m s0 delim of None \<Rightarrow> None | Some s1 \<Rightarrow> tok_rest m s1 delim)
          else
            (case set_scan m (m s0) delim of None \<Rightarrow> None
             | Some sp \<Rightarrow> if m sp \<noteq> 0 then Some (m(s0 := 0), Some (s0 + 1), Some s0)
                          else tok_rest m s0 delim))"

definition strtok_r :: "mem \<Rightarrow> nat option \<Rightarrow> nat \<Rightarrow> nat option \<Rightarrow> (mem \<times> nat option \<times> nat option) option" where
  "strtok_r m s delim lasts = strtok_common m s delim lasts True"

text \<open>\<open>last\<close> is the field \<open>_strtok_last\<close> of the reentrancy structure.\<close>

definition strtok :: "mem \<Rightarrow> nat option \<Rightarrow> nat option \<Rightarrow> nat \<Rightarrow> (mem \<times> nat option \<times> nat option) option" where
  "strtok m strtok_last s delim = strtok_common m s delim strtok_last True"

definition strsep :: "mem \<Rightarrow> nat option \<Rightarrow> nat \<Rightarrow> (mem \<times> nat option \<times> nat option) option" where
  "strsep m source delim = strtok_common m source delim source False"

declare tok_lead.simps [code] tok_scan.simps [code]

section \<open>The pieces of a string\<close>

text \<open>
  What repeated calls return: with \<open>skip\<close> the maximal runs without a delimiter, otherwise the fields
  between the delimiters, where an empty field at the very end is left out.
\<close>

function pieces :: "bool \<Rightarrow> u8 set \<Rightarrow> u8 list \<Rightarrow> u8 list list" where
  "pieces skip D s =
     (case (if skip then dropWhile (\<lambda>b. b \<in> D) s else s) of [] \<Rightarrow> []
      | b # r \<Rightarrow> takeWhile (\<lambda>b. b \<notin> D) (b # r) # pieces skip D (drop 1 (dropWhile (\<lambda>b. b \<notin> D) (b # r))))"
  by pat_completeness auto
termination
proof (relation "measure (\<lambda>(_, _, s). length s)", goal_cases)
  case (2 skip D s b r)
  have "length (b # r) \<le> length s" using length_dropWhile_le [of "\<lambda>b. b \<in> D" s] by (simp flip: 2 split: if_splits)
  moreover have "length (drop 1 (dropWhile (\<lambda>b. b \<notin> D) (b # r))) < length (b # r)"
    using length_dropWhile_le [of "\<lambda>b. b \<notin> D" r] by auto
  ultimately show ?case by simp
qed simp

declare pieces.simps [simp del]

text \<open>A loop of a client: call until the result is a null pointer, collect the pointers.\<close>

fun tok_calls :: "nat \<Rightarrow> bool \<Rightarrow> mem \<Rightarrow> nat \<Rightarrow> nat option \<Rightarrow> (mem \<times> nat list) option" where
  "tok_calls 0 skip m delim l = None"
| "tok_calls (Suc n) skip m delim l =
     (case strtok_common m None delim l skip of None \<Rightarrow> None
      | Some (m1, l1, None) \<Rightarrow> Some (m1, [])
      | Some (m1, l1, Some t) \<Rightarrow> map_option (\<lambda>(m2, ts). (m2, t # ts)) (tok_calls n skip m1 delim l1))"

section \<open>One call\<close>

lemma tok_lead_str:
  "cstr m p s \<Longrightarrow> cstr m q t \<Longrightarrow> tok_lead m p q = Some (p + length (takeWhile (\<lambda>b. b \<in> set t) s))"
proof (induction s arbitrary: p)
  case Nil
  then have "set_scan m (m p) q = Some (q + length t)"
    using skip_bytes_first [OF cstr_first_hit, of m q t] by (simp add: set_scan_def)
  then show ?case using cstr_end [OF Nil.prems(2)] by (subst tok_lead.simps) simp
next
  case (Cons b s)
  then have b: "m p = b" "b \<noteq> 0" "cstr m (p + 1) s" by (simp_all add: cstr_Cons)
  obtain c where c: "set_scan m b q = Some c" "m c = (if b \<in> set t then b else 0)"
    using set_scan_cstr [OF Cons.prems(2) b(2)] by blast
  show ?case using b c Cons.IH [OF b(3) Cons.prems(2)] by (subst tok_lead.simps) simp
qed

lemma tok_scan_str:
  "cstr m p s \<Longrightarrow> cstr m q t \<Longrightarrow> tok_scan m p q = Some (p + length (takeWhile (\<lambda>b. b \<notin> set t) s))"
proof (induction s arbitrary: p)
  case Nil
  then have "set_scan m (m p) q = Some (q + length t)"
    using skip_bytes_first [OF cstr_first_hit, of m q t] by (simp add: set_scan_def)
  then show ?case using cstr_end [OF Nil.prems(2)] Nil by (subst tok_scan.simps) simp
next
  case (Cons b s)
  then have b: "m p = b" "b \<noteq> 0" "cstr m (p + 1) s" by (simp_all add: cstr_Cons)
  obtain c where c: "set_scan m b q = Some c" "m c = (if b \<in> set t then b else 0)"
    using set_scan_cstr [OF Cons.prems(2) b(2)] by blast
  show ?case using b c Cons.IH [OF b(3) Cons.prems(2)] by (subst tok_scan.simps) simp
qed

lemma takeWhile_split: "dropWhile P s = c # v \<Longrightarrow> s = takeWhile P s @ c # v"
  by (metis takeWhile_dropWhile_id)

lemma tok_rest_str:
  assumes "cstr m p u" and "cstr m q t" and "u = b # r" and "b \<notin> set t"
  shows "tok_rest m p q =
    (case dropWhile (\<lambda>b. b \<notin> set t) u of [] \<Rightarrow> Some (m, None, Some p)
     | c # v \<Rightarrow> (let e = p + length (takeWhile (\<lambda>b. b \<notin> set t) u) in Some (m(e := 0), Some (e + 1), Some p)))"
proof -
  let ?D = "\<lambda>b. b \<notin> set t"
  have b: "m p = b" "b \<noteq> 0" "cstr m (p + 1) r" using assms by (simp_all add: cstr_Cons)
  have tl: "takeWhile ?D u = b # takeWhile ?D r" "dropWhile ?D u = dropWhile ?D r" using assms by simp_all
  show ?thesis
  proof (cases "dropWhile ?D r")
    case Nil
    then have "takeWhile ?D r = r" by (metis append_Nil2 takeWhile_dropWhile_id)
    then show ?thesis using b tok_scan_str [OF b(3) assms(2)] cstr_end [OF b(3)] Nil tl
      by (simp add: tok_rest_def del: dropWhile_eq_Nil_conv takeWhile_eq_all_conv)
  next
    case (Cons c v)
    then have "r = takeWhile ?D r @ c # v" by (rule takeWhile_split)
    then have "cstr m (p + 1 + length (takeWhile ?D r)) (c # v)"
      using b(3) cstr_append [of m "p + 1" "takeWhile ?D r" "c # v"] by simp
    then have "m (p + 1 + length (takeWhile ?D r)) = c" "c \<noteq> 0" by (simp_all add: cstr_Cons)
    then show ?thesis using b tok_scan_str [OF b(3) assms(2)] Cons tl by (simp add: tok_rest_def Let_def)
  qed
qed

text \<open>
  One call: \<open>u\<close> is the string from the token on. The result is a null pointer when nothing is left;
  otherwise the pointer to the token, with the delimiter behind it overwritten and remembered.
\<close>

lemma strtok_common_str:
  assumes p: "cstr m p s" and q: "cstr m q t"
    and u: "u = (if skip then dropWhile (\<lambda>b. b \<in> set t) s else s)"
  shows "strtok_common m None q (Some p) skip =
    (let o' = p + (length s - length u); e = o' + length (takeWhile (\<lambda>b. b \<notin> set t) u)
     in if u = [] then Some (m, None, None)
        else if dropWhile (\<lambda>b. b \<notin> set t) u = [] then Some (m, None, Some o')
        else Some (m(e := 0), Some (e + 1), Some o'))"
proof (cases skip)
  case True
  let ?k = "length (takeWhile (\<lambda>b. b \<in> set t) s)"
  have du: "u = drop ?k s" using u True by (simp add: dropWhile_eq_drop)
  have lu: "length s - length u = ?k"
    using du length_takeWhile_le [of "\<lambda>b. b \<in> set t" s] by simp
  have c: "cstr m (p + ?k) u" using du cstr_drop [OF p length_takeWhile_le] by simp
  show ?thesis
  proof (cases u)
    case Nil
    then have "m (p + ?k) = 0" using c by simp
    then show ?thesis using Nil True tok_lead_str [OF p q]
      by (simp add: strtok_common_def tok_rest_def lu del: dropWhile_eq_Nil_conv)
  next
    case (Cons b r)
    then have d: "dropWhile (\<lambda>b. b \<in> set t) s = b # r" using u True by simp
    have "b \<notin> set t" using hd_dropWhile [of "\<lambda>b. b \<in> set t" s] unfolding d by simp
    then show ?thesis using Cons True tok_lead_str [OF p q] tok_rest_str [OF c q Cons] lu
      by (simp add: strtok_common_def Let_def del: dropWhile_eq_Nil_conv split: list.split)
  qed
next
  case False
  then have us: "u = s" using u by simp
  show ?thesis
  proof (cases s)
    case Nil
    then have "set_scan m (m p) q = Some (q + length t)" "m p = 0"
      using skip_bytes_first [OF cstr_first_hit, OF q] p by (simp_all add: set_scan_def)
    then show ?thesis using Nil False us cstr_end [OF q] by (simp add: strtok_common_def tok_rest_def)
  next
    case (Cons b r)
    then have b: "m p = b" "b \<noteq> 0" using p by (simp_all add: cstr_Cons)
    obtain c where c: "set_scan m b q = Some c" "m c = (if b \<in> set t then b else 0)"
      using set_scan_cstr [OF q b(2)] by blast
    show ?thesis
    proof (cases "b \<in> set t")
      case True
      then show ?thesis using False us b c Cons by (simp add: strtok_common_def)
    next
      case nb: False
      then show ?thesis using False us b c tok_rest_str [OF p q Cons nb] Cons
        by (simp add: strtok_common_def Let_def del: dropWhile_eq_Nil_conv split: list.split)
    qed
  qed
qed

section \<open>All calls\<close>

definition tok_sep :: "nat \<Rightarrow> u8 list \<Rightarrow> nat \<Rightarrow> u8 list \<Rightarrow> bool" where
  "tok_sep p s q t \<longleftrightarrow> p + length s < q \<or> q + length t < p"

lemma tok_calls_str:
  assumes "cstr m p s" and "cstr m q t" and "tok_sep p s q t" and "length s < n"
  shows "\<exists>m' ps. tok_calls n skip m q (Some p) = Some (m', ps) \<and>
    list_all2 (cstr m') ps (pieces skip (set t) s) \<and>
    (\<forall>a. a < p \<or> p + length s \<le> a \<longrightarrow> m' a = m a) \<and> (\<forall>x \<in> set ps. p \<le> x)"
  using assms
proof (induction n arbitrary: m p s)
  case (Suc n)
  define u where "u = (if skip then dropWhile (\<lambda>b. b \<in> set t) s else s)"
  define x where "x = p + (length s - length u)"
  define w where "w = takeWhile (\<lambda>b. b \<notin> set t) u"
  note step = strtok_common_str [OF Suc.prems(1,2) u_def, folded x_def w_def]
  have ls: "length u \<le> length s" unfolding u_def by (simp add: length_dropWhile_le)
  have du: "u = drop (length s - length u) s"
    unfolding u_def by (cases skip) (simp_all add: dropWhile_eq_drop length_takeWhile_le)
  have xu: "x + length u = p + length s" "p \<le> x" unfolding x_def using ls by simp_all
  have cu: "cstr m x u" using cstr_drop [OF Suc.prems(1), of "length s - length u"] du x_def by simp
  show ?case
  proof (cases "u = []")
    case True
    then have "pieces skip (set t) s = []" unfolding u_def by (simp add: pieces.simps [of skip "set t" s])
    then show ?thesis using step True by simp
  next
    case False
    then obtain b r where br: "u = b # r" by (cases u) auto
    have pc: "pieces skip (set t) s = w # pieces skip (set t) (drop 1 (dropWhile (\<lambda>b. b \<notin> set t) u))"
      using br unfolding w_def u_def by (subst pieces.simps) (simp only: list.case)
    show ?thesis
    proof (cases "dropWhile (\<lambda>b. b \<notin> set t) u")
      case Nil
      have n: "0 < n" using Suc.prems(4) br ls by simp
      have "w = u" unfolding w_def using Nil by (metis append_Nil2 takeWhile_dropWhile_id)
      moreover have "tok_calls n skip m q None = Some (m, [])"
        using n by (cases n) (simp_all add: strtok_common_def)
      moreover have "pieces skip (set t) [] = []" by (simp add: pieces.simps)
      ultimately show ?thesis using step False Nil pc cu xu by (simp del: dropWhile_eq_Nil_conv)
    next
      case (Cons c v)
      define e where "e = x + length w"
      define m1 where "m1 = m(e := 0)"
      have uw: "u = w @ c # v" unfolding w_def using takeWhile_split [OF Cons] .
      have ce: "cstr m (e + 1) v" using cu uw by (simp add: cstr_append cstr_Cons e_def)
      have cw: "\<forall>i<length w. m (x + i) = w ! i" "0 \<notin> set w" using cu uw by (simp_all add: cstr_append)
      have lv: "e + 1 + length v = p + length s" using xu uw by (simp add: e_def)
      have cv: "cstr m1 (e + 1) v" by (rule cstr_cong [THEN iffD2, OF _ ce]) (simp add: m1_def)
      have ct: "cstr m1 q t"
        by (rule cstr_cong [THEN iffD2, OF _ Suc.prems(2)])
           (use Suc.prems(3) lv xu in \<open>auto simp: m1_def tok_sep_def e_def\<close>)
      have sp: "tok_sep (e + 1) v q t" using Suc.prems(3) lv xu by (auto simp: tok_sep_def e_def)
      have "length v < n" using Suc.prems(4) uw ls by simp
      from Suc.IH [OF cv ct sp this] obtain m' ps where
        ih: "tok_calls n skip m1 q (Some (e + 1)) = Some (m', ps)"
          "list_all2 (cstr m') ps (pieces skip (set t) v)"
          "\<forall>a. a < e + 1 \<or> e + 1 + length v \<le> a \<longrightarrow> m' a = m1 a" "\<forall>y \<in> set ps. e + 1 \<le> y" by blast
      have "cstr m' x w" using cw ih(3) by (simp add: cstr_def e_def m1_def)
      then have "list_all2 (cstr m') (x # ps) (pieces skip (set t) s)" using pc Cons ih(2) by simp
      moreover have "m' a = m a" if "a < p \<or> p + length s \<le> a" for a
        using ih(3) that lv xu by (auto simp: m1_def e_def)
      moreover have "\<forall>y \<in> set (x # ps). p \<le> y" using ih(4) xu by (auto simp: e_def)
      moreover have "tok_calls (Suc n) skip m q (Some p) = Some (m', x # ps)"
        using step False Cons ih(1) by (simp add: Let_def e_def m1_def)
      ultimately show ?thesis by blast
    qed
  qed
qed simp

lemma strtok_first: "strtok_common m (Some p) delim l skip = strtok_common m None delim (Some p) skip"
  by (simp add: strtok_common_def)

section \<open>Properties\<close>

text \<open>Repeated calls of \<open>strtok_r\<close> return the maximal runs of characters that are no delimiters, in order, as
  terminated strings, and of \<open>strsep\<close> the fields between the delimiters, except an empty last field;
  each ends after at most one call per character and one more, and writes only inside the string. The
  first call with a pointer is the same as a call that continues at this pointer, for \<open>strtok\<close> too.\<close>

theorem strtok_tokens:
  assumes "cstr m p s" and "cstr m q t" and "tok_sep p s q t" and "length s < n"
  shows "(\<exists>m' ps. tok_calls n skip m q (Some p) = Some (m', ps) \<and>
      list_all2 (cstr m') ps (pieces skip (set t) s) \<and>
      (\<forall>a. a < p \<or> p + length s \<le> a \<longrightarrow> m' a = m a)) \<and>
    strtok_r m (Some p) q l = strtok_r m None q (Some p) \<and>
    strtok m l (Some p) q = strtok_r m None q (Some p) \<and>
    strsep m (Some p) q = strtok_common m None q (Some p) False"
  using tok_calls_str [OF assms, of skip] by (auto simp: strtok_r_def strtok_def strsep_def strtok_first)

lemma strtok_tokens_witness:
  "\<exists>m' ps. tok_calls 20 True demo_strs 114 (Some 101) = Some (m', ps) \<and>
     list_all2 (cstr m') ps (map (map (of_nat \<circ> of_char)) [''he'', ''w'', ''r'', ''d''])"
proof -
  have "pieces True (set (map (of_nat \<circ> of_char) '' ,lo'')) (map (of_nat \<circ> of_char) ''hello, world'') =
      map (map (of_nat \<circ> of_char)) [''he'', ''w'', ''r'', ''d'']"
    by code_simp
  moreover have "tok_sep 101 (map (of_nat \<circ> of_char) ''hello, world'') 114 (map (of_nat \<circ> of_char) '' ,lo'')"
    by (simp add: tok_sep_def)
  ultimately show ?thesis using strtok_tokens [OF demo_strs_cstr, of 20 True None] by auto
qed

end
