(* ===== verification/SizeBuild.thy ===== *)
theory SizeBuild
  imports StrCmp
begin

text \<open>
  The branches of \<open>string/\<close> that are compiled when size is preferred over speed
  (\<open>PREFER_SIZE_OVER_SPEED\<close>): plain byte loops. The theorems show that both builds of the library
  compute the same, so the word-at-a-time code is an optimisation of these loops.
\<close>

section \<open>Memory\<close>

definition memcpy_size :: "mem \<Rightarrow> nat \<Rightarrow> nat \<Rightarrow> nat \<Rightarrow> mem \<times> nat" where
  "memcpy_size m dst0 src0 len0 = (let (m', dst, src) = byte_copier m dst0 src0 len0 in (m', dst0))"

definition mempcpy_size :: "mem \<Rightarrow> nat \<Rightarrow> nat \<Rightarrow> nat \<Rightarrow> mem \<times> nat" where
  "mempcpy_size m dst0 src0 len0 = (let (m', dst, src) = byte_copier m dst0 src0 len0 in (m', dst))"

definition memcmp_size :: "mem \<Rightarrow> nat \<Rightarrow> nat \<Rightarrow> nat \<Rightarrow> int" where
  "memcmp_size m m1 m2 n = cmp_bytes m m1 m2 n"

definition memccpy_size :: "mem \<Rightarrow> nat \<Rightarrow> nat \<Rightarrow> int \<Rightarrow> nat \<Rightarrow> mem \<times> nat option" where
  "memccpy_size m dst0 src0 endchar0 len0 = ccpy_bytes m dst0 src0 (word_of_int endchar0) len0"

section \<open>Strings\<close>

definition strcpy_size :: "mem \<Rightarrow> nat \<Rightarrow> nat \<Rightarrow> (mem \<times> nat) option" where
  "strcpy_size m dst0 src0 = (case cpy_bytes m dst0 src0 of None \<Rightarrow> None | Some (m', e) \<Rightarrow> Some (m', dst0))"

definition strcat_size :: "mem \<Rightarrow> nat \<Rightarrow> nat \<Rightarrow> (mem \<times> nat) option" where
  "strcat_size m s1 s2 =
     (case skip_bytes (\<lambda>b. b = 0) m s1 of None \<Rightarrow> None
      | Some e \<Rightarrow> (case cpy_bytes m e s2 of None \<Rightarrow> None | Some (m', _) \<Rightarrow> Some (m', s1)))"

definition strncpy_size :: "mem \<Rightarrow> nat \<Rightarrow> nat \<Rightarrow> nat \<Rightarrow> mem \<times> nat" where
  "strncpy_size m dst0 src0 count =
     (let (m1, dscan, left, brk) = ncpy_bytes m dst0 src0 count in (byte_filler m1 dscan 0 left, dst0))"

definition strncat_size :: "mem \<Rightarrow> nat \<Rightarrow> nat \<Rightarrow> nat \<Rightarrow> (mem \<times> nat) option" where
  "strncat_size m s1 s2 n =
     (case skip_bytes (\<lambda>b. b = 0) m s1 of None \<Rightarrow> None | Some e \<Rightarrow> Some (strncat_loop m e s2 n, s1))"

definition strcmp_size :: "mem \<Rightarrow> nat \<Rightarrow> nat \<Rightarrow> int option" where
  "strcmp_size m s1 s2 = scmp_bytes m s1 s2"

text \<open>
  \<open>while (n-- != 0 && *s1 == *s2) { if (n == 0 || *s1 == '\0') break; s1++; s2++; }\<close> and the
  difference of the characters where it ends.
\<close>

fun ncmp_size_loop :: "mem \<Rightarrow> nat \<Rightarrow> nat \<Rightarrow> nat \<Rightarrow> nat \<times> nat" where
  "ncmp_size_loop m s1 s2 0 = (s1, s2)"
| "ncmp_size_loop m s1 s2 (Suc n) =
     (if m s1 = m s2 then
        (if n = 0 \<or> m s1 = 0 then (s1, s2) else ncmp_size_loop m (s1 + 1) (s2 + 1) n)
      else (s1, s2))"

definition strncmp_size :: "mem \<Rightarrow> nat \<Rightarrow> nat \<Rightarrow> nat \<Rightarrow> int" where
  "strncmp_size m s1 s2 n =
     (if n = 0 then 0
      else let (t1, t2) = ncmp_size_loop m s1 s2 n in uint (m t1) - uint (m t2))"

lemma ncmp_size_loop_bytes:
  "ncmp_size_loop m p q n = (p', q') \<Longrightarrow> uint (m p') - uint (m q') = ncmp_bytes m p q n"
  by (induction m p q n rule: ncmp_size_loop.induct) (auto split: if_splits)

section \<open>Properties\<close>

text \<open>Both builds of the memory functions agree, for every alignment and length.\<close>

theorem size_build_memory:
  assumes "d + n \<le> s \<or> s + n \<le> d"
  shows "memcpy m d s n = memcpy_size m d s n \<and> mempcpy m d s n = mempcpy_size m d s n \<and>
    memmove m d s n = memmove_size m d s n \<and>
    memcmp m s d n = memcmp_size m s d n \<and> memccpy m d s c n = memccpy_size m d s c n"
proof -
  have f: "forward_ok d s n" using assms by (auto simp: forward_ok_def)
  have o: "\<not> (s < d \<and> d < s + n)" using assms by auto
  show ?thesis
    using copy_fast_region [OF f, of m] byte_copier_region [OF f, of m] o
    by (simp add: memcpy_def mempcpy_def memcpy_size_def mempcpy_size_def memmove_def memmove_size_def
        memcmp_first cmp_bytes_first memcmp_size_def memccpy_size_def memccpy_result [OF assms]
        ccpy_bytes_result [OF assms] byte_copier_down_region)
qed

lemma size_build_memory_witness: "memccpy demo_mem 200 100 10 30 = memccpy_size demo_mem 200 100 10 30"
  using size_build_memory [of 200 30 100 demo_mem 10] by simp

text \<open>Both builds of the string functions agree, for every alignment, on separate strings.\<close>

theorem size_build_strings:
  assumes "cstr m s b" and "cstr m d a"
    and "d + length a + length b + 1 \<le> s \<or> s + length b + 1 \<le> d"
  shows "strcpy m d s = strcpy_size m d s \<and> strcat m d s = strcat_size m d s \<and>
    strncpy m d s n = strncpy_size m d s n \<and> strncat m d s n = strncat_size m d s n \<and>
    strcmp m d s = strcmp_size m d s \<and> strncmp m d s n = strncmp_size m d s n"
proof -
  have f: "forward_ok d s (length b + 1)" "forward_ok (d + length a) s (length b + 1)"
    using assms(3) by (auto simp: forward_ok_def)
  have e: "skip_bytes (\<lambda>b. b = 0) m d = Some (d + length a)" by (rule skip_bytes_first [OF cstr_first_hit [OF assms(2)]])
  have copy: "strcpy m d s = strcpy_size m d s" "strcat m d s = strcat_size m d s"
    using str_fast_str [OF assms(1) f(1)] cpy_bytes_str [OF assms(1) f(1)]
      str_fast_str [OF assms(1) f(2)] cpy_bytes_str [OF assms(1) f(2)] str_end_cstr [OF assms(2)] e
    by (simp_all add: strcpy_def strcpy_size_def strcat_def strcat_size_def)
  have "strncpy m d s n = strncpy_size m d s n"
    using strn_fast_str [OF assms(1) f(1), of n] ncpy_bytes_str [OF assms(1) f(1), of n]
      region_pad_copy(1) [OF assms(1), of n d] region_pad_copy(2) [OF assms(1), of n d]
    by (simp add: strncpy_def strncpy_size_def byte_filler_region)
  moreover have "strncat m d s n = strncat_size m d s n"
    using str_end_cstr [OF assms(2)] e by (simp add: strncat_def strncat_size_def)
  moreover have "strcmp m d s = strcmp_size m d s"
    by (simp add: strcmp_size_def strcmp_str [OF assms(2,1)] scmp_bytes_str [OF assms(2,1)])
  moreover have "strncmp m d s n = strncmp_size m d s n"
    using strncmp_str [OF assms(2,1), of n] ncmp_bytes_str [OF _ assms(2,1), of n] ncmp_size_loop_bytes [of m d s n]
    by (cases "ncmp_size_loop m d s n") (simp add: strncmp_size_def)
  ultimately show ?thesis using copy by simp
qed

lemma size_build_strings_witness: "strncmp demo_copy 200 101 3 = strncmp_size demo_copy 200 101 3"
  using size_build_strings [OF demo_copy_cstr, of 3] by simp

end
