(* ===== verification/StrNum.thy ===== *)
theory StrNum
  imports StrCopy Ctype
begin

text \<open>
  Numbers as text: \<open>strtol\<close>, \<open>strtoul\<close>, \<open>strtoll\<close>, \<open>strtoull\<close>, \<open>atoi\<close>, \<open>atol\<close> and \<open>atoll\<close>, and the other way
  \<open>utoa\<close> and \<open>itoa\<close> (\<open>newlib/libc/stdlib\<close>). The four parsers are four copies of one text in two widths;
  what they share is here one definition over the width, and each of them an instance. \<open>_errno\<close> is
  explicit state; of the two results of a parser the second is what it stores in \<open>*endptr\<close>.
\<close>

section \<open>The parsers\<close>

definition ERANGE :: int where "ERANGE = 34"

text \<open>\<open>do { c = *s++; } while (isspace(c))\<close>\<close>

partial_function (option) skip_space :: "mem \<Rightarrow> nat \<Rightarrow> (int \<times> nat) option" where
  "skip_space m s = (let c = uint (m s) in if isspace c then skip_space m (s + 1) else Some (c, s + 1))"

definition read_sign :: "mem \<Rightarrow> int \<Rightarrow> nat \<Rightarrow> bool \<times> int \<times> nat" where
  "read_sign m c s =
     (if c = 45 then (True, uint (m s), s + 1)
      else if c = 43 then (False, uint (m s), s + 1) else (False, c, s))"

definition read_base :: "mem \<Rightarrow> int \<Rightarrow> nat \<Rightarrow> int \<Rightarrow> int \<times> int \<times> nat" where
  "read_base m c s base =
     (if (base = 0 \<or> base = 16) \<and> c = 48 \<and> (m s = 120 \<or> m s = 88) then (16, uint (m (s + 1)), s + 2)
      else (if base = 0 then (if c = 48 then 8 else 10) else base, c, s))"

definition digit_of :: "int \<Rightarrow> int option" where
  "digit_of c =
     (if isdigit c then Some (c - 48)
      else if isalpha c then Some (c - (if isupper c then 65 - 10 else 97 - 10)) else None)"

text \<open>The loop over the digits; \<open>any\<close> is 0 before the first digit, negative after an overflow.\<close>

partial_function (option) digits_loop ::
    "mem \<Rightarrow> 'w::len word \<Rightarrow> int \<Rightarrow> int \<Rightarrow> 'w word \<Rightarrow> int \<Rightarrow> int \<Rightarrow> nat \<Rightarrow> ('w word \<times> int \<times> nat) option" where
  "digits_loop m cutoff cutlim base acc any c s =
     (case digit_of c of None \<Rightarrow> Some (acc, any, s)
      | Some d \<Rightarrow>
          if base \<le> d then Some (acc, any, s)
          else if any < 0 \<or> acc > cutoff \<or> acc = cutoff \<and> d > cutlim
          then digits_loop m cutoff cutlim base acc (- 1) (uint (m s)) (s + 1)
          else digits_loop m cutoff cutlim base (acc * word_of_int base + word_of_int d) 1 (uint (m s)) (s + 1))"

text \<open>
  The body the parsers share: \<open>limit\<close> is the largest magnitude, by the sign, and \<open>clamp\<close> the result of
  an overflow.
\<close>

definition strto_num ::
    "(bool \<Rightarrow> 'w::len word) \<Rightarrow> (bool \<Rightarrow> 'w word) \<Rightarrow> mem \<Rightarrow> int \<Rightarrow> nat \<Rightarrow> int \<Rightarrow> ('w word \<times> nat \<times> int) option" where
  "strto_num limit clamp m errno nptr base0 =
     (case skip_space m nptr of None \<Rightarrow> None
      | Some (c0, s0) \<Rightarrow>
          let (neg, c1, s1) = read_sign m c0 s0;
              (base, c2, s2) = read_base m c1 s1 base0;
              cutlim = sint (ucast (limit neg mod word_of_int base) :: u32);
              cutoff = limit neg div word_of_int base
          in case digits_loop m cutoff cutlim base 0 0 c2 s2 of None \<Rightarrow> None
             | Some (acc, any, s) \<Rightarrow>
                 Some (if any < 0 then clamp neg else if neg then - acc else acc,
                       if any \<noteq> 0 then s - 1 else nptr,
                       if any < 0 then ERANGE else errno))"

definition LONG_MAX :: u32 where "LONG_MAX = 0x7FFFFFFF"
definition LONG_MIN :: u32 where "LONG_MIN = - LONG_MAX - 1"
definition ULONG_MAX :: u32 where "ULONG_MAX = LONG_MAX * 2 + 1"
definition LONG_LONG_MAX :: "64 word" where "LONG_LONG_MAX = 0x7FFFFFFFFFFFFFFF"
definition LONG_LONG_MIN :: "64 word" where "LONG_LONG_MIN = - LONG_LONG_MAX - 1"
definition ULONG_LONG_MAX :: "64 word" where "ULONG_LONG_MAX = LONG_LONG_MAX * 2 + 1"

definition strtol_r :: "mem \<Rightarrow> int \<Rightarrow> nat \<Rightarrow> int \<Rightarrow> (u32 \<times> nat \<times> int) option" where
  "strtol_r = strto_num (\<lambda>neg. if neg then - LONG_MIN else LONG_MAX) (\<lambda>neg. if neg then LONG_MIN else LONG_MAX)"

definition strtoul_r :: "mem \<Rightarrow> int \<Rightarrow> nat \<Rightarrow> int \<Rightarrow> (u32 \<times> nat \<times> int) option" where
  "strtoul_r = strto_num (\<lambda>neg. ULONG_MAX) (\<lambda>neg. ULONG_MAX)"

definition strtoll_r :: "mem \<Rightarrow> int \<Rightarrow> nat \<Rightarrow> int \<Rightarrow> (64 word \<times> nat \<times> int) option" where
  "strtoll_r = strto_num (\<lambda>neg. if neg then - LONG_LONG_MIN else LONG_LONG_MAX)
                         (\<lambda>neg. if neg then LONG_LONG_MIN else LONG_LONG_MAX)"

definition strtoull_r :: "mem \<Rightarrow> int \<Rightarrow> nat \<Rightarrow> int \<Rightarrow> (64 word \<times> nat \<times> int) option" where
  "strtoull_r = strto_num (\<lambda>neg. ULONG_LONG_MAX) (\<lambda>neg. ULONG_LONG_MAX)"

text \<open>The wrappers on the reentrancy structure of the thread, and those that drop the end pointer.\<close>

definition strtol :: "mem \<Rightarrow> int \<Rightarrow> nat \<Rightarrow> int \<Rightarrow> (u32 \<times> nat \<times> int) option" where "strtol = strtol_r"
definition strtoul :: "mem \<Rightarrow> int \<Rightarrow> nat \<Rightarrow> int \<Rightarrow> (u32 \<times> nat \<times> int) option" where "strtoul = strtoul_r"
definition strtoll :: "mem \<Rightarrow> int \<Rightarrow> nat \<Rightarrow> int \<Rightarrow> (64 word \<times> nat \<times> int) option" where "strtoll = strtoll_r"
definition strtoull :: "mem \<Rightarrow> int \<Rightarrow> nat \<Rightarrow> int \<Rightarrow> (64 word \<times> nat \<times> int) option" where "strtoull = strtoull_r"

definition atoi :: "mem \<Rightarrow> int \<Rightarrow> nat \<Rightarrow> (u32 \<times> int) option" where
  "atoi m errno s = map_option (\<lambda>(v, _, e). (v, e)) (strtol m errno s 10)"

definition atol :: "mem \<Rightarrow> int \<Rightarrow> nat \<Rightarrow> (u32 \<times> int) option" where
  "atol m errno s = map_option (\<lambda>(v, _, e). (v, e)) (strtol m errno s 10)"

definition atoll :: "mem \<Rightarrow> int \<Rightarrow> nat \<Rightarrow> (64 word \<times> int) option" where
  "atoll m errno s = map_option (\<lambda>(v, _, e). (v, e)) (strtoll m errno s 10)"

section \<open>The printers\<close>

text \<open>\<open>digits\<close> of \<open>__utoa\<close>\<close>

definition utoa_digits :: "u8 list" where
  "utoa_digits = map of_nat ([48..<58] @ [97..<123]) @ [0]"

text \<open>The conversion loop: the digits from the last one on, up to the position behind the first.\<close>

partial_function (option) utoa_loop :: "mem \<Rightarrow> nat \<Rightarrow> nat \<Rightarrow> nat \<Rightarrow> nat \<Rightarrow> (mem \<times> nat) option" where
  "utoa_loop m str i value base =
     (let m1 = m(str + i := utoa_digits ! (value mod base)); v1 = value div base
      in if v1 \<noteq> 0 then utoa_loop m1 str (i + 1) v1 base else Some (m1, i + 1))"

text \<open>\<open>for (j = 0, i--; j < i; j++, i--)\<close>: the reversal in place.\<close>

function reverse_loop :: "mem \<Rightarrow> nat \<Rightarrow> nat \<Rightarrow> nat \<Rightarrow> mem" where
  "reverse_loop m str j i =
     (if j < i then reverse_loop (m(str + j := m (str + i), str + i := m (str + j))) str (j + 1) (i - 1) else m)"
  by pat_completeness auto
termination by (relation "measure (\<lambda>(_, _, j, i). i - j)") auto

declare reverse_loop.simps [simp del]

definition utoa :: "mem \<Rightarrow> u32 \<Rightarrow> nat \<Rightarrow> int \<Rightarrow> (mem \<times> nat option) option" where
  "utoa m value str base =
     (if base < 2 \<or> 36 < base then Some (m(str := 0), None)
      else case utoa_loop m str 0 (unat value) (nat base) of None \<Rightarrow> None
        | Some (m1, i) \<Rightarrow> Some (reverse_loop (m1(str + i := 0)) str 0 (i - 1), Some str))"

definition itoa :: "mem \<Rightarrow> u32 \<Rightarrow> nat \<Rightarrow> int \<Rightarrow> (mem \<times> nat option) option" where
  "itoa m value str base =
     (if base < 2 \<or> 36 < base then Some (m(str := 0), None)
      else (let (m1, i, uvalue) = (if base = 10 \<and> sint value < 0 then (m(str := 45), 1, - value) else (m, 0, value))
            in case utoa m1 uvalue (str + i) base of None \<Rightarrow> None | Some (m2, _) \<Rightarrow> Some (m2, Some str)))"

declare skip_space.simps [code] digits_loop.simps [code] utoa_loop.simps [code]

section \<open>Digits of a string\<close>

text \<open>The value of a byte as a digit of the base, the longest run of digits, and its value.\<close>

definition is_dig :: "int \<Rightarrow> u8 \<Rightarrow> bool" where
  "is_dig b c \<longleftrightarrow> (case digit_of (uint c) of None \<Rightarrow> False | Some d \<Rightarrow> d < b)"

definition dig_val :: "u8 \<Rightarrow> int" where "dig_val c = the (digit_of (uint c))"

definition num_val :: "int \<Rightarrow> int \<Rightarrow> u8 list \<Rightarrow> int" where
  "num_val b v ds = foldl (\<lambda>v c. v * b + dig_val c) v ds"

lemma num_val_simps [simp]: "num_val b v [] = v" "num_val b v (c # ds) = num_val b (v * b + dig_val c) ds"
  by (simp_all add: num_val_def)

lemma byte_range: "- 1 \<le> uint (c :: u8)" "uint (c :: u8) \<le> 255"
proof -
  have "0 \<le> uint c" by simp
  then show "- 1 \<le> uint c" by linarith
  show "uint c \<le> 255" using uint_lt2p [of c] by simp
qed

lemma digit_of_byte: "digit_of (uint (c :: u8)) = Some d \<Longrightarrow> 0 \<le> d \<and> d < 36"
  using class_tests [OF byte_range, of c] by (auto simp: digit_of_def split: if_splits)

lemma is_dig_0: "\<not> is_dig b 0"
  using class_tests [of 0] by (simp add: is_dig_def digit_of_def)

lemma dig_val_range: "is_dig b c \<Longrightarrow> 0 \<le> dig_val c \<and> dig_val c < b"
  using digit_of_byte [of c] by (auto simp: is_dig_def dig_val_def split: option.splits)

lemma num_val_mono: "0 \<le> v \<Longrightarrow> 1 \<le> b \<Longrightarrow> \<forall>c \<in> set ds. is_dig b c \<Longrightarrow> v \<le> num_val b v ds"
proof (induction ds arbitrary: v)
  case (Cons c ds)
  have c: "0 \<le> dig_val c" using dig_val_range [of b c] Cons.prems(3) by simp
  have "v * 1 \<le> v * b" using Cons.prems(1,2) by (intro mult_left_mono) simp_all
  then have "0 \<le> v * b + dig_val c" "v \<le> v * b + dig_val c" using c Cons.prems(1) by simp_all
  moreover have "v * b + dig_val c \<le> num_val b (v * b + dig_val c) ds"
    using Cons.IH [OF calculation(1) Cons.prems(2)] Cons.prems(3) by simp
  ultimately show ?case by simp
qed simp

section \<open>The loop over the digits\<close>

text \<open>
  After an overflow the loop only skips digits. Before, the accumulator is the value so far, and the
  test before each step is whether the next value exceeds the limit \<open>cutoff * base + cutlim\<close>.
\<close>

lemma digits_loop_overflown:
  assumes "\<forall>i < length ds. m (q + i) = ds ! i" and "\<forall>c \<in> set ds. is_dig b c" and "\<not> is_dig b (m (q + length ds))"
  shows "digits_loop m cutoff cutlim b acc (- 1) (uint (m q)) (q + 1) = Some (acc, - 1, q + length ds + 1)"
  using assms
proof (induction ds arbitrary: q)
  case Nil
  then show ?case by (subst digits_loop.simps) (auto simp: is_dig_def split: option.splits)
next
  case (Cons c ds)
  have c: "m q = c" "\<forall>i < length ds. m (q + 1 + i) = ds ! i" "\<not> is_dig b (m (q + 1 + length ds))"
    using Cons.prems(1,3) by force+
  obtain d where d: "digit_of (uint c) = Some d" "d < b" using Cons.prems(2) by (auto simp: is_dig_def split: option.splits)
  have "digits_loop m cutoff cutlim b acc (- 1) (uint (m (q + 1))) (q + 1 + 1) = Some (acc, - 1, q + 1 + length ds + 1)"
    by (rule Cons.IH [OF c(2) _ c(3)]) (use Cons.prems(2) in simp)
  then show ?case using d c(1) by (subst digits_loop.simps) simp
qed

lemma digits_loop_value:
  fixes cutoff :: "'w::len word"
  assumes "\<forall>i < length ds. m (q + i) = ds ! i" and "\<forall>c \<in> set ds. is_dig b c" and "\<not> is_dig b (m (q + length ds))"
    and b: "2 \<le> b" and lim: "L = uint cutoff * b + cutlim" "0 \<le> cutlim" "cutlim < b" "L < 2 ^ LENGTH('w)"
    and v: "0 \<le> v" "v \<le> L" "0 \<le> any"
  shows "\<exists>acc. digits_loop m cutoff cutlim b (word_of_int v) any (uint (m q)) (q + 1) =
    Some (acc, if num_val b v ds \<le> L then (if ds = [] then any else 1) else - 1, q + length ds + 1) \<and>
    (num_val b v ds \<le> L \<longrightarrow> acc = word_of_int (num_val b v ds))"
  using assms(1-3) v
proof (induction ds arbitrary: q v any)
  case Nil
  then show ?case by (subst digits_loop.simps) (auto simp: is_dig_def split: option.splits)
next
  case (Cons c ds)
  have c: "m q = c" "\<forall>i < length ds. m (q + 1 + i) = ds ! i" "\<not> is_dig b (m (q + 1 + length ds))" "\<forall>c \<in> set ds. is_dig b c"
    using Cons.prems(1,2,3) by force+
  obtain d where d: "digit_of (uint c) = Some d" "d < b" using Cons.prems(2) by (auto simp: is_dig_def split: option.splits)
  have dv: "dig_val c = d" "0 \<le> d" using d(1) digit_of_byte by (auto simp: dig_val_def)
  have uv: "uint (word_of_int v :: 'w word) = v" using Cons.prems(4,5) lim(4) by (simp add: uint_word_of_int)
  let ?v = "v * b + d"
  have over: "(word_of_int v > cutoff \<or> word_of_int v = cutoff \<and> d > cutlim) \<longleftrightarrow> L < ?v"
  proof -
    have "cutoff < word_of_int v \<longleftrightarrow> uint cutoff < v" by (simp add: word_less_def uv)
    moreover have "word_of_int v = cutoff \<longleftrightarrow> v = uint cutoff" using uv by (metis word_of_int_uint)
    moreover consider "v < uint cutoff" | "v = uint cutoff" | "uint cutoff < v" by linarith
    then have "L < ?v \<longleftrightarrow> uint cutoff < v \<or> v = uint cutoff \<and> cutlim < d"
    proof cases
      case 1
      then have "(v + 1) * b \<le> uint cutoff * b" using b by (intro mult_right_mono) simp_all
      then have "?v < L" using d(2) lim(1,2) by (simp add: algebra_simps)
      then show ?thesis using 1 by simp
    next
      case 2
      then show ?thesis using lim(1) by simp
    next
      case 3
      then have "(uint cutoff + 1) * b \<le> v * b" using b by (intro mult_right_mono) simp_all
      then have "L < ?v" using dv(2) lim(1,3) by (simp add: algebra_simps)
      then show ?thesis using 3 by simp
    qed
    ultimately show ?thesis by blast
  qed
  have vb: "0 \<le> v * b" using Cons.prems(4) b by simp
  show ?case
  proof (cases "L < ?v")
    case True
    have "?v \<le> num_val b ?v ds" by (rule num_val_mono) (use vb dv(2) b c(4) in simp_all)
    then have "\<not> num_val b v (c # ds) \<le> L" using True dv(1) by simp
    moreover have "digits_loop m cutoff cutlim b (word_of_int v) any (uint (m q)) (q + 1) =
      digits_loop m cutoff cutlim b (word_of_int v) (- 1) (uint (m (q + 1))) (q + 1 + 1)"
      using over True d c(1) by (subst digits_loop.simps) simp
    ultimately show ?thesis using digits_loop_overflown [OF c(2,4,3), of cutoff cutlim "word_of_int v"] by simp
  next
    case False
    have "digits_loop m cutoff cutlim b (word_of_int v) any (uint (m q)) (q + 1) =
      digits_loop m cutoff cutlim b (word_of_int ?v) 1 (uint (m (q + 1))) (q + 1 + 1)"
      using over False d c(1) Cons.prems(6) by (subst digits_loop.simps) auto
    moreover have "\<exists>acc. digits_loop m cutoff cutlim b (word_of_int ?v) 1 (uint (m (q + 1))) (q + 1 + 1) =
      Some (acc, if num_val b ?v ds \<le> L then (if ds = [] then 1 else 1) else - 1, q + 1 + length ds + 1) \<and>
      (num_val b ?v ds \<le> L \<longrightarrow> acc = word_of_int (num_val b ?v ds))"
      by (rule Cons.IH [OF c(2,4,3)]) (use vb dv(2) False in simp_all)
    ultimately show ?thesis using dv(1) by auto
  qed
qed

section \<open>The parts of a number\<close>

definition split_sign :: "u8 list \<Rightarrow> bool \<times> u8 list" where
  "split_sign r = (case r of [] \<Rightarrow> (False, []) | c # t \<Rightarrow> if c = 45 then (True, t) else if c = 43 then (False, t) else (False, r))"

definition split_base :: "int \<Rightarrow> u8 list \<Rightarrow> int \<times> u8 list" where
  "split_base base r =
     (if (base = 0 \<or> base = 16) \<and> 2 \<le> length r \<and> r ! 0 = 48 \<and> (r ! 1 = 120 \<or> r ! 1 = 88) then (16, drop 2 r)
      else (if base = 0 then (if r \<noteq> [] \<and> hd r = 48 then 8 else 10) else base, r))"

text \<open>The sign, the base, the number of bytes before the digits and the digits.\<close>

definition split_num :: "int \<Rightarrow> u8 list \<Rightarrow> bool \<times> int \<times> nat \<times> u8 list" where
  "split_num base s =
     (let (neg, r2) = split_sign (dropWhile (\<lambda>c. isspace (uint c)) s); (b, r3) = split_base base r2
      in (neg, b, length s - length r3, takeWhile (is_dig b) r3))"

lemma uint_byte_eq: "uint (c :: u8) = n \<longleftrightarrow> c = word_of_int n" if "0 \<le> n" "n < 256"
  using that by (auto simp: uint_word_of_int)

lemma skip_space_cstr:
  assumes "cstr m p s"
  defines "r \<equiv> dropWhile (\<lambda>c. isspace (uint c)) s"
  shows "\<exists>q. skip_space m p = Some (uint (m q), q + 1) \<and> cstr m q r \<and> q + length r = p + length s"
  using assms(1) unfolding r_def
proof (induction s arbitrary: p)
  case Nil
  have "\<not> isspace 0" using class_tests [of 0] by simp
  then show ?case using Nil by (subst skip_space.simps) (auto simp: Let_def)
next
  case (Cons c s)
  have c: "m p = c" "cstr m (p + 1) s" using Cons.prems by (simp_all add: cstr_Cons)
  show ?case
  proof (cases "isspace (uint c)")
    case True
    then show ?thesis using Cons.IH [OF c(2)] c(1) by (subst skip_space.simps) (simp add: Let_def)
  next
    case False
    then show ?thesis using c(1) Cons.prems by (subst skip_space.simps) (auto simp: Let_def)
  qed
qed

lemma read_sign_cstr:
  assumes "cstr m q r" and "split_sign r = (neg, r2)"
  shows "\<exists>q2. read_sign m (uint (m q)) (q + 1) = (neg, uint (m q2), q2 + 1) \<and> cstr m q2 r2 \<and> q2 + length r2 = q + length r"
  using assms
  by (cases r) (auto simp: split_sign_def read_sign_def cstr_Cons uint_byte_eq split: if_splits intro: exI [of _ q])

lemma read_base_cstr:
  assumes "cstr m q r" and "split_base base r = (b, r2)"
  shows "\<exists>q2. read_base m (uint (m q)) (q + 1) base = (b, uint (m q2), q2 + 1) \<and> cstr m q2 r2 \<and> q2 + length r2 = q + length r"
proof (cases "(base = 0 \<or> base = 16) \<and> 2 \<le> length r \<and> r ! 0 = 48 \<and> (r ! 1 = 120 \<or> r ! 1 = 88)")
  case True
  then obtain x t where r: "r = 48 # x # t" by (cases r; cases "tl r") auto
  then show ?thesis using True assms
    by (auto simp: split_base_def read_base_def cstr_Cons intro: exI [of _ "q + 2"])
next
  case False
  have "\<not> ((base = 0 \<or> base = 16) \<and> uint (m q) = 48 \<and> (m (q + 1) = 120 \<or> m (q + 1) = 88))"
  proof
    assume h: "(base = 0 \<or> base = 16) \<and> uint (m q) = 48 \<and> (m (q + 1) = 120 \<or> m (q + 1) = 88)"
    then have c: "m q = 48" by (simp add: uint_byte_eq)
    then obtain t where t: "r = 48 # t" "cstr m (q + 1) t" using assms(1) by (cases r) (auto simp: cstr_Cons)
    then obtain x u where "t = x # u" "m (q + 1) = x" using h by (cases t) (auto simp: cstr_Cons)
    then show False using False h t(1) by simp
  qed
  then have "read_base m (uint (m q)) (q + 1) base =
    (if base = 0 then (if uint (m q) = 48 then 8 else 10) else base, uint (m q), q + 1)"
    unfolding read_base_def by (simp only: if_False)
  moreover have "uint (m q) = 48 \<longleftrightarrow> r \<noteq> [] \<and> hd r = 48" using assms(1) by (cases r) (auto simp: cstr_Cons uint_byte_eq)
  moreover have "(if base = 0 then (if r \<noteq> [] \<and> hd r = 48 then 8 else 10) else base, r) = (b, r2)"
    using assms(2) unfolding split_base_def if_not_P [OF False] .
  then have "b = (if base = 0 then (if r \<noteq> [] \<and> hd r = 48 then 8 else 10) else base)" "r2 = r"
    by (auto simp only: prod.inject)
  ultimately show ?thesis using assms(1) by (intro exI [of _ q]) simp
qed

section \<open>The parsers against the value of the text\<close>

lemma split_base_range: "split_base base r = (b, r2) \<Longrightarrow> base = 0 \<or> 2 \<le> base \<and> base \<le> 36 \<Longrightarrow> 2 \<le> b \<and> b \<le> 36"
  by (auto simp: split_base_def split: if_splits)

lemma limit_parts:
  fixes x :: "'w::len word"
  assumes "2 \<le> b" "b \<le> 36" "32 \<le> LENGTH('w)"
  shows "uint (x div word_of_int b) = uint x div b" "sint (ucast (x mod word_of_int b) :: u32) = uint x mod b"
proof -
  have "(2 :: int) ^ 32 \<le> 2 ^ LENGTH('w)" using assms(3) by (intro power_increasing) simp_all
  then have ub: "uint (word_of_int b :: 'w word) = b" using assms(1,2) by (simp add: uint_word_of_int)
  show "uint (x div word_of_int b) = uint x div b" by (simp add: uint_div_distrib ub)
  have um: "uint (x mod word_of_int b) = uint x mod b" by (simp add: uint_mod_distrib ub)
  have "0 \<le> uint x mod b" "uint x mod b < 36" using assms(1,2) pos_mod_bound [of b "uint x"] by (simp, linarith)
  then show "sint (ucast (x mod word_of_int b) :: u32) = uint x mod b"
    by (simp add: sint_uint unsigned_ucast_eq um take_bit_int_eq_self signed_take_bit_int_eq_self)
qed

lemma strto_num_cstr:
  fixes limit :: "bool \<Rightarrow> 'w::len word"
  assumes s: "cstr m p s" and base: "base = 0 \<or> 2 \<le> base \<and> base \<le> 36" and w: "32 \<le> LENGTH('w)"
    and sp: "split_num base s = (neg, b, k, ds)"
  shows "strto_num limit clamp m errno p base =
    (let v = num_val b 0 ds; e = (if ds = [] then p else p + k + length ds)
     in if v \<le> uint (limit neg) then Some (if neg then - word_of_int v else word_of_int v, e, errno)
        else Some (clamp neg, e, ERANGE))"
proof -
  define r1 where "r1 = dropWhile (\<lambda>c. isspace (uint c)) s"
  obtain r2 where r2: "split_sign r1 = (neg, r2)" using sp by (auto simp: split_num_def r1_def Let_def split: prod.splits)
  obtain r3 where r3: "split_base base r2 = (b, r3)" "ds = takeWhile (is_dig b) r3" "k = length s - length r3"
    using sp r2 by (auto simp: split_num_def r1_def Let_def split: prod.splits)
  obtain q1 where q1: "skip_space m p = Some (uint (m q1), q1 + 1)" "cstr m q1 r1" "q1 + length r1 = p + length s"
    using skip_space_cstr [OF s] by (auto simp: r1_def)
  obtain q2 where q2: "read_sign m (uint (m q1)) (q1 + 1) = (neg, uint (m q2), q2 + 1)" "cstr m q2 r2" "q2 + length r2 = q1 + length r1"
    using read_sign_cstr [OF q1(2) r2] by blast
  obtain q3 where q3: "read_base m (uint (m q2)) (q2 + 1) base = (b, uint (m q3), q3 + 1)" "cstr m q3 r3" "q3 + length r3 = q2 + length r2"
    using read_base_cstr [OF q2(2) r3(1)] by blast
  have pk: "q3 = p + k" 
  proof -
    have "length r1 \<le> length s" unfolding r1_def by (rule length_dropWhile_le)
    moreover have "length r2 \<le> length r1" using r2 by (auto simp: split_sign_def split: list.splits if_splits)
    moreover have "length r3 \<le> length r2" using r3(1) by (auto simp: split_base_def split: if_splits)
    ultimately show ?thesis using q1(3) q2(3) q3(3) r3(3) by linarith
  qed
  have b: "2 \<le> b" "b \<le> 36" using split_base_range [OF r3(1) base] by simp_all
  define L where "L = uint (limit neg)"
  have Ld: "L = uint (limit neg div word_of_int b) * b + L mod b"
    using limit_parts(1) [OF b w, of "limit neg"] by (simp add: L_def)
  have L: "0 \<le> L mod b" "L mod b < b" "0 \<le> L" "L < 2 ^ LENGTH('w)" using b by (simp_all add: L_def)
  have dg: "\<forall>i < length ds. m (q3 + i) = ds ! i" "\<forall>c \<in> set ds. is_dig b c" "\<not> is_dig b (m (q3 + length ds))"
  proof -
    show "\<forall>i < length ds. m (q3 + i) = ds ! i"
    proof (intro allI impI)
      fix i assume i: "i < length ds"
      then have "i < length r3" using length_takeWhile_le [of "is_dig b" r3] by (simp add: r3(2))
      then show "m (q3 + i) = ds ! i" using cstr_nth [OF q3(2)] i by (simp add: r3(2) takeWhile_nth)
    qed
    show "\<forall>c \<in> set ds. is_dig b c" unfolding r3(2) by (auto dest: set_takeWhileD)
    show "\<not> is_dig b (m (q3 + length ds))"
    proof (cases "length ds < length r3")
      case True
      then show ?thesis using nth_length_takeWhile [of "is_dig b" r3] cstr_nth [OF q3(2) True] by (simp add: r3(2))
    next
      case False
      then have "length ds = length r3" using length_takeWhile_le [of "is_dig b" r3] by (simp add: r3(2))
      then show ?thesis using cstr_end [OF q3(2)] is_dig_0 by simp
    qed
  qed
  from digits_loop_value [OF dg b(1) Ld L(1,2,4), of 0 0] L(3) obtain acc where
    run: "digits_loop m (limit neg div word_of_int b) (L mod b) b 0 0 (uint (m q3)) (q3 + 1) =
      Some (acc, if num_val b 0 ds \<le> L then (if ds = [] then 0 else 1) else - 1, q3 + length ds + 1)"
    "num_val b 0 ds \<le> L \<longrightarrow> acc = word_of_int (num_val b 0 ds)" by auto
  have "ds = [] \<Longrightarrow> num_val b 0 ds \<le> L" using L(3) by simp
  then show ?thesis
    using q1(1) q2(1) q3(1) run limit_parts(2) [OF b w, of "limit neg"] pk
    by (auto simp: strto_num_def L_def [symmetric] Let_def)
qed

section \<open>The text of a number\<close>

text \<open>The digits from the last one on.\<close>

function rdigits :: "nat \<Rightarrow> nat \<Rightarrow> u8 list" where
  "rdigits b v = utoa_digits ! (v mod b) # (if v div b = 0 \<or> b < 2 then [] else rdigits b (v div b))"
  by pat_completeness auto
termination
proof (relation "measure snd", goal_cases)
  case (2 b v)
  then have "0 < v" "1 < b" by (auto intro: gr0I)
  then show ?case by simp
qed simp

declare rdigits.simps [simp del]

lemma utoa_digit:
  assumes "d < 36"
  shows "digit_of (uint (utoa_digits ! d)) = Some (int d)" and "utoa_digits ! d \<noteq> 0"
    and "\<not> isspace (uint (utoa_digits ! d))" and "utoa_digits ! d \<noteq> 45" "utoa_digits ! d \<noteq> 43"
    and "utoa_digits ! d = 48 \<longleftrightarrow> d = 0"
proof -
  define c where "c = (if d < 10 then 48 + d else 87 + d)"
  have "utoa_digits ! d = of_nat c" using assms by (auto simp: utoa_digits_def nth_append c_def simp del: upt_rec_numeral)
  moreover have c: "c < 256" "48 \<le> c" using assms by (auto simp: c_def)
  moreover have uc: "uint (of_nat c :: u8) = int c" using c by (simp add: uint_nat unat_of_nat)
  moreover have e: "(of_nat c :: u8) = word_of_int n \<longleftrightarrow> int c = n" if "0 \<le> n" "n < 256" for n
    using uc uint_byte_eq [OF that, of "of_nat c"] by simp
  note e [of 0] e [of 45] e [of 43] e [of 48]
  ultimately show "utoa_digits ! d \<noteq> 0" "utoa_digits ! d \<noteq> 45" "utoa_digits ! d \<noteq> 43" "utoa_digits ! d = 48 \<longleftrightarrow> d = 0"
    using assms by (auto simp: c_def split: if_splits)
  have "- 1 \<le> int c" "int c \<le> 255" using c by simp_all
  note ct = class_tests [OF this]
  show "digit_of (uint (utoa_digits ! d)) = Some (int d)" "\<not> isspace (uint (utoa_digits ! d))"
    unfolding \<open>utoa_digits ! d = of_nat c\<close> uc digit_of_def using ct assms by (auto simp: c_def)
qed

lemma utoa_loop_text:
  "2 \<le> b \<Longrightarrow> utoa_loop m str i v b = Some (region_put m (str + i) (rdigits b v), i + length (rdigits b v))"
proof (induction b v arbitrary: m i rule: rdigits.induct)
  case (1 b v)
  show ?case
  proof (cases "v div b = 0")
    case True
    then show ?thesis by (subst utoa_loop.simps, subst (1 2) rdigits.simps) (auto simp: region_put_def fun_eq_iff)
  next
    case False
    have "region_put (m(str + i := x)) (str + (i + 1)) ds = region_put m (str + i) (x # ds)" for x ds
      by (auto simp: region_put_def fun_eq_iff nth_Cons' Suc_diff_Suc)
    then show ?thesis using 1 False by (subst utoa_loop.simps, subst (1 2) rdigits.simps) (simp add: Let_def)
  qed
qed

lemma reverse_loop_eq:
  "reverse_loop m str j i a = (if str + j \<le> a \<and> a \<le> str + i then m (str + j + (str + i - a)) else m a)"
proof (induction m str j i rule: reverse_loop.induct)
  case (1 m str j i)
  show ?case
  proof (cases "j < i")
    case True
    define m' where "m' = m(str + j := m (str + i), str + i := m (str + j))"
    have run: "reverse_loop m str j i = reverse_loop m' str (j + 1) (i - 1)"
      using True by (subst reverse_loop.simps) (simp add: m'_def)
    have ih: "reverse_loop m' str (j + 1) (i - 1) a =
      (if str + (j + 1) \<le> a \<and> a \<le> str + (i - 1) then m' (str + (j + 1) + (str + (i - 1) - a)) else m' a)"
      unfolding m'_def by (rule 1 [OF True])
    consider "a = str + j" | "a = str + i" | "str + j < a" "a < str + i" | "a < str + j \<or> str + i < a" by linarith
    then have "(if str + (j + 1) \<le> a \<and> a \<le> str + (i - 1) then m' (str + (j + 1) + (str + (i - 1) - a)) else m' a) =
      (if str + j \<le> a \<and> a \<le> str + i then m (str + j + (str + i - a)) else m a)" (is ?eq)
    proof cases
      case 3
      then have "str + (j + 1) + (str + (i - 1) - a) = str + j + (str + i - a)" "str + j < str + j + (str + i - a)"
        "str + j + (str + i - a) < str + i" "a \<le> str + (i - 1)" "str + (j + 1) \<le> a" using True by simp_all
      then show ?eq using 3 True by (simp add: m'_def)
    next
      case 2
      then have "\<not> (str + (j + 1) \<le> a \<and> a \<le> str + (i - 1))" "str + j \<le> a \<and> a \<le> str + i" "str + j + (str + i - a) = str + j"
        using True by linarith+
      then show ?eq using 2 by (simp only: m'_def if_False if_True fun_upd_apply simp_thms)
    next
      case 4
      then have "\<not> (str + (j + 1) \<le> a \<and> a \<le> str + (i - 1))" "\<not> (str + j \<le> a \<and> a \<le> str + i)"
        "a \<noteq> str + j" "a \<noteq> str + i" using True by linarith+
      then show ?eq by (simp only: m'_def if_False fun_upd_apply)
    qed (use True in \<open>simp_all add: m'_def\<close>)
    then show ?thesis by (simp only: run ih)
  next
    case False
    then have e: "str + j \<le> a \<and> a \<le> str + i \<Longrightarrow> str + j + (str + i - a) = a" by linarith
    have "reverse_loop m str j i = m" using False by (subst reverse_loop.simps) simp
    then show ?thesis using e by metis
  qed
qed

text \<open>What \<open>utoa\<close> writes: the digits in reading order and the terminator, and nothing else.\<close>

definition num_text :: "nat \<Rightarrow> nat \<Rightarrow> u8 list" where "num_text b v = rev (rdigits b v)"

lemma rdigits_nonempty [simp]: "rdigits b v \<noteq> []"
  by (subst rdigits.simps) simp

lemma utoa_text:
  assumes b: "2 \<le> base" "base \<le> 36"
  shows "utoa m v str base = Some (region_put m str (num_text (nat base) (unat v) @ [0]), Some str)"
proof -
  define ds where "ds = rdigits (nat base) (unat v)"
  have n: "0 < length ds" unfolding ds_def by simp
  have loop: "utoa_loop m str 0 (unat v) (nat base) = Some (region_put m str ds, length ds)"
    using utoa_loop_text [of "nat base" m str 0 "unat v"] b by (simp add: ds_def)
  define M where "M = (region_put m str ds)(str + length ds := 0)"
  have "reverse_loop M str 0 (length ds - 1) = region_put m str (rev ds @ [0])"
  proof
    fix a
    consider "a < str" | "str \<le> a" "a < str + length ds" | "a = str + length ds" | "str + length ds < a" by linarith
    then show "reverse_loop M str 0 (length ds - 1) a = region_put m str (rev ds @ [0]) a"
    proof cases
      case 3
      obtain k where k: "length ds = Suc k" using n gr0_conv_Suc by auto
      then show ?thesis using 3 by (simp add: reverse_loop_eq M_def region_put_def nth_append)
    next
      case 2
      then obtain i where i: "a = str + i" "i < length ds" using le_Suc_ex [of str a] by auto
      have "reverse_loop M str 0 (length ds - 1) a = M (str + (length ds - 1 - i))" 
      proof -
        have "str + i \<le> str + (length ds - 1)" using i(2) by simp
        then show ?thesis using i(2) by (simp add: reverse_loop_eq i(1) del: One_nat_def)
      qed
      also have "\<dots> = ds ! (length ds - 1 - i)"
      proof -
        have k: "M (str + k) = ds ! k" if "k < length ds" for k using that by (simp add: M_def region_put_def)
        show ?thesis by (rule k) (use i(2) in simp)
      qed
      finally show ?thesis using i by (simp add: region_put_def nth_append rev_nth)
    qed (use n in \<open>auto simp: reverse_loop_eq M_def region_put_def nth_append\<close>)
  qed
  then show ?thesis using b loop by (simp add: utoa_def M_def ds_def num_text_def)
qed

lemma num_val_snoc: "num_val b v (ds @ [c]) = num_val b v ds * b + dig_val c"
  by (simp add: num_val_def)

lemma rdigits_props:
  assumes "2 \<le> b" "b \<le> 36"
  shows "num_val (int b) 0 (rev (rdigits b v)) = int v \<and> (\<forall>c \<in> set (rdigits b v). \<exists>d < 36. d < b \<and> c = utoa_digits ! d) \<and>
    (last (rdigits b v) = 48 \<longrightarrow> length (rdigits b v) = 1)"
  using assms
proof (induction b v rule: rdigits.induct)
  case (1 b v)
  have d: "v mod b < 36" "v mod b < b" using 1(2,3) mod_less_divisor [of b v] by linarith+
  note ud = utoa_digit [OF d(1)]
  have dv: "dig_val (utoa_digits ! (v mod b)) = int (v mod b)" using ud(1) by (simp add: dig_val_def)
  have e: "int (v div b) * int b + int (v mod b) = int v" by (metis div_mult_mod_eq of_nat_add of_nat_mult)
  show ?case
  proof (cases "v div b = 0")
    case True
    then show ?thesis using d dv e by (subst (1 2 3 4) rdigits.simps) auto
  next
    case False
    define ds where "ds = rdigits b (v div b)"
    have r: "rdigits b v = utoa_digits ! (v mod b) # ds" using False 1(2) by (subst rdigits.simps) (simp add: ds_def)
    have ih: "num_val (int b) 0 (rev ds) = int (v div b)" "\<forall>c \<in> set ds. \<exists>d < 36. d < b \<and> c = utoa_digits ! d"
      "last ds = 48 \<longrightarrow> length ds = 1" using 1 False by (auto simp: ds_def)
    have "last ds \<noteq> 48"
    proof
      assume l: "last ds = 48"
      then obtain c where c: "ds = [c]" using ih(3) by (auto simp: length_Suc_conv)
      then have "c = 48" "num_val (int b) 0 [c] = int (v div b)" using l ih(1) by simp_all
      moreover have "dig_val 48 = 0" using utoa_digit(1) [of 0] utoa_digit(6) [of 0] by (simp add: dig_val_def)
      ultimately show False using False by simp
    qed
    then show ?thesis unfolding r using d dv e ih ds_def by (auto simp: num_val_snoc)
  qed
qed

text \<open>The text of a number is one run of digits of the base, without sign, blanks or prefix.\<close>

lemma split_num_text:
  assumes b: "2 \<le> b" "b \<le> 36"
  shows "split_num (int b) (num_text b v) = (False, int b, 0, num_text b v)"
    and "num_val (int b) 0 (num_text b v) = int v" and "0 \<notin> set (num_text b v)"
    and "split_num (int b) (45 # num_text b v) = (True, int b, 1, num_text b v)"
proof -
  note p = rdigits_props [OF b, of v]
  show "num_val (int b) 0 (num_text b v) = int v" using p by (simp add: num_text_def)
  have dg: "\<exists>d < 36. d < b \<and> c = utoa_digits ! d" if "c \<in> set (num_text b v)" for c using p that by (simp add: num_text_def)
  show "0 \<notin> set (num_text b v)"
  proof
    assume "0 \<in> set (num_text b v)"
    then obtain d where "d < 36" "0 = utoa_digits ! d" using dg by blast
    then show False using utoa_digit(2) [of d] by metis
  qed
  obtain c r where cr: "num_text b v = c # r" by (cases "num_text b v") (auto simp: num_text_def)
  then have hd: "c = last (rdigits b v)" by (metis num_text_def hd_rev list.sel(1))
  obtain d where d: "d < 36" "c = utoa_digits ! d" using dg [of c] cr by auto
  note ud = utoa_digit [OF d(1)]
  have "dropWhile (\<lambda>c. isspace (uint c)) (num_text b v) = num_text b v" using cr ud(3) d(2) by simp
  moreover have "split_sign (num_text b v) = (False, num_text b v)" using cr ud(4,5) d(2) by (simp add: split_sign_def)
  moreover have sb: "split_base (int b) (num_text b v) = (int b, num_text b v)"
  proof -
    have "\<not> (2 \<le> length (num_text b v) \<and> num_text b v ! 0 = 48)"
    proof
      assume h: "2 \<le> length (num_text b v) \<and> num_text b v ! 0 = 48"
      then have "c = 48" using cr by simp
      then have "length (rdigits b v) = 1" using p hd by simp
      then show False using h by (simp add: num_text_def)
    qed
    then show ?thesis using b by (auto simp: split_base_def)
  qed
  moreover have tw: "takeWhile (is_dig (int b)) (num_text b v) = num_text b v"
  proof (rule takeWhile_eq_all_conv [THEN iffD2], rule ballI)
    fix c assume "c \<in> set (num_text b v)"
    then obtain d where "d < 36" "d < b" "c = utoa_digits ! d" using dg by blast
    then show "is_dig (int b) c" using utoa_digit(1) [of d] by (simp add: is_dig_def)
  qed
  ultimately show "split_num (int b) (num_text b v) = (False, int b, 0, num_text b v)"
    by (simp add: split_num_def)
  have "\<not> isspace 45" using class_tests [of 45] by simp
  then show "split_num (int b) (45 # num_text b v) = (True, int b, 1, num_text b v)"
    using sb tw by (simp add: split_num_def split_sign_def)
qed

section \<open>Properties\<close>

text \<open>The bounds of the four parsers, as numbers.\<close>

lemma strto_limits:
  "uint (if neg then - LONG_MIN else LONG_MAX) = (if neg then 2 ^ 31 else 2 ^ 31 - 1)"
  "uint ULONG_MAX = 2 ^ 32 - 1"
  "uint (if neg then - LONG_LONG_MIN else LONG_LONG_MAX) = (if neg then 2 ^ 63 else 2 ^ 63 - 1)"
  "uint ULONG_LONG_MAX = 2 ^ 64 - 1"
  by (simp_all add: LONG_MIN_def LONG_MAX_def ULONG_MAX_def LONG_LONG_MIN_def LONG_LONG_MAX_def ULONG_LONG_MAX_def)

lemma sint_word_range:
  "- (2 ^ 31) \<le> x \<Longrightarrow> x < 2 ^ 31 \<Longrightarrow> sint (word_of_int x :: u32) = x"
  "- (2 ^ 63) \<le> x \<Longrightarrow> x < 2 ^ 63 \<Longrightarrow> sint (word_of_int x :: 64 word) = x"
  by (simp_all add: int_word_sint)

lemma num_val_nonneg: "2 \<le> b \<Longrightarrow> \<forall>c \<in> set ds. is_dig b c \<Longrightarrow> 0 \<le> num_val b 0 ds"
  using num_val_mono [of 0 b ds] by simp

lemma split_num_digits: "split_num base s = (neg, b, k, ds) \<Longrightarrow> base = 0 \<or> 2 \<le> base \<and> base \<le> 36 \<Longrightarrow> 0 \<le> num_val b 0 ds"
  by (rule num_val_nonneg) (auto simp: split_num_def Let_def split: prod.splits dest: split_base_range set_takeWhileD)

lemma strtol_cstr:
  assumes "cstr m p s" and "base = 0 \<or> 2 \<le> base \<and> base \<le> 36" and "split_num base s = (neg, b, k, ds)"
    and "x = (if neg then - num_val b 0 ds else num_val b 0 ds)" and "e = (if ds = [] then p else p + k + length ds)"
  shows "\<exists>r. strtol m errno p base = Some (r, e, if - (2 ^ 31) \<le> x \<and> x < 2 ^ 31 then errno else ERANGE) \<and>
      sint r = max (- (2 ^ 31)) (min (2 ^ 31 - 1) x)"
    and "\<exists>r. strtoll m errno p base = Some (r, e, if - (2 ^ 63) \<le> x \<and> x < 2 ^ 63 then errno else ERANGE) \<and>
      sint r = max (- (2 ^ 63)) (min (2 ^ 63 - 1) x)"
proof -
  define v where "v = num_val b 0 ds"
  have v: "0 \<le> v" using split_num_digits [OF assms(3,2)] by (simp add: v_def)
  note mn = LONG_MIN_def LONG_MAX_def LONG_LONG_MIN_def LONG_LONG_MAX_def
  show "\<exists>r. strtol m errno p base = Some (r, e, if - (2 ^ 31) \<le> x \<and> x < 2 ^ 31 then errno else ERANGE) \<and>
      sint r = max (- (2 ^ 31)) (min (2 ^ 31 - 1) x)"
    using strto_num_cstr [OF assms(1,2) _ assms(3), of "\<lambda>neg. if neg then - LONG_MIN else LONG_MAX" "\<lambda>neg. if neg then LONG_MIN else LONG_MAX" errno] v
    unfolding strto_limits assms(4,5) v_def [symmetric] strtol_def strtol_r_def Let_def
    by (cases neg) (auto simp: mn sint_word_range(1) [of "- v", simplified] sint_word_range(1) [of v, simplified])
  show "\<exists>r. strtoll m errno p base = Some (r, e, if - (2 ^ 63) \<le> x \<and> x < 2 ^ 63 then errno else ERANGE) \<and>
      sint r = max (- (2 ^ 63)) (min (2 ^ 63 - 1) x)"
    using strto_num_cstr [OF assms(1,2) _ assms(3), of "\<lambda>neg. if neg then - LONG_LONG_MIN else LONG_LONG_MAX" "\<lambda>neg. if neg then LONG_LONG_MIN else LONG_LONG_MAX" errno] v
    unfolding strto_limits assms(4,5) v_def [symmetric] strtoll_def strtoll_r_def Let_def
    by (cases neg) (auto simp: mn sint_word_range(2) [of "- v", simplified] sint_word_range(2) [of v, simplified])
qed

text \<open>C32: for every string and every base, \<open>strtol\<close> and \<open>strtoll\<close> return. With \<open>x\<close> the signed value of the longest run
  of digits behind blanks, sign and, for the bases 0 and 16, \<open>0x\<close>, the result is \<open>x\<close> cut to the range of the type,
  and \<open>errno\<close> becomes \<open>ERANGE\<close> exactly when \<open>x\<close> is outside. The end pointer is behind the digits, or at the start
  of the string if there is none; so it is at the start also for \<open>0x\<close> without a digit behind it, where the \<open>0\<close> alone
  would be a number. \<open>atoi\<close>, \<open>atol\<close> and \<open>atoll\<close> are these in base 10.\<close>

theorem strtol_correct:
  assumes "cstr m p s" and "base = 0 \<or> 2 \<le> base \<and> base \<le> 36" and "split_num base s = (neg, b, k, ds)"
    and "x = (if neg then - num_val b 0 ds else num_val b 0 ds)" and "e = (if ds = [] then p else p + k + length ds)"
  shows "(\<exists>r. strtol m errno p base = Some (r, e, if - (2 ^ 31) \<le> x \<and> x < 2 ^ 31 then errno else ERANGE) \<and>
      sint r = max (- (2 ^ 31)) (min (2 ^ 31 - 1) x)) \<and>
    (\<exists>r. strtoll m errno p base = Some (r, e, if - (2 ^ 63) \<le> x \<and> x < 2 ^ 63 then errno else ERANGE) \<and>
      sint r = max (- (2 ^ 63)) (min (2 ^ 63 - 1) x)) \<and>
    atoi m errno p = map_option (\<lambda>(v, _, e). (v, e)) (strtol m errno p 10) \<and>
    atol m errno p = atoi m errno p \<and> atoll m errno p = map_option (\<lambda>(v, _, e). (v, e)) (strtoll m errno p 10)"
  using strtol_cstr [OF assms] by (simp add: atoi_def atol_def atoll_def)

text \<open>The string \<open>  -0x1F, rest\<close> of the instances.\<close>

definition demo_num :: mem where
  "demo_num = mem_at 100 ([32, 32, 45, 48, 120, 49, 70, 44, 57] @ [0])"

lemma demo_num_cstr: "cstr demo_num 100 [32, 32, 45, 48, 120, 49, 70, 44, 57]"
  unfolding demo_num_def mem_at_def by (rule cstr_region_put) simp

lemma demo_num_split: "split_num 16 [32, 32, 45, 48, 120, 49, 70, 44, 57] = (True, 16, 5, [49, 70])"
  by code_simp

theorem strtol_correct_witness: "\<exists>r. strtol demo_num 0 100 16 = Some (r, 107, 0) \<and> sint r = - 31"
proof -
  have v: "dig_val 49 = 1" "dig_val 70 = 15" by code_simp+
  show ?thesis using strtol_correct [OF demo_num_cstr _ demo_num_split refl refl, of 0] by (simp add: v)
qed

text \<open>The unsigned parsers: the magnitude must fit, and a minus sign negates modulo the width.\<close>

lemma strtoul_correct:
  assumes "cstr m p s" and "base = 0 \<or> 2 \<le> base \<and> base \<le> 36" and "split_num base s = (neg, b, k, ds)"
    and "v = num_val b 0 ds" and "e = (if ds = [] then p else p + k + length ds)"
  shows "\<exists>r. strtoul m errno p base = Some (r, e, if v < 2 ^ 32 then errno else ERANGE) \<and>
      uint r = (if v < 2 ^ 32 then (if neg then - v else v) mod 2 ^ 32 else 2 ^ 32 - 1)"
    and "\<exists>r. strtoull m errno p base = Some (r, e, if v < 2 ^ 64 then errno else ERANGE) \<and>
      uint r = (if v < 2 ^ 64 then (if neg then - v else v) mod 2 ^ 64 else 2 ^ 64 - 1)"
proof -
  show "\<exists>r. strtoul m errno p base = Some (r, e, if v < 2 ^ 32 then errno else ERANGE) \<and>
      uint r = (if v < 2 ^ 32 then (if neg then - v else v) mod 2 ^ 32 else 2 ^ 32 - 1)"
    using strto_num_cstr [OF assms(1,2) _ assms(3), of "\<lambda>_. ULONG_MAX" "\<lambda>_. ULONG_MAX" errno]
    unfolding strto_limits assms(4,5) strtoul_def strtoul_r_def Let_def
    by (auto simp: strto_limits uint_word_ariths uint_word_of_int zmod_zminus1_eq_if)
  show "\<exists>r. strtoull m errno p base = Some (r, e, if v < 2 ^ 64 then errno else ERANGE) \<and>
      uint r = (if v < 2 ^ 64 then (if neg then - v else v) mod 2 ^ 64 else 2 ^ 64 - 1)"
    using strto_num_cstr [OF assms(1,2) _ assms(3), of "\<lambda>_. ULONG_LONG_MAX" "\<lambda>_. ULONG_LONG_MAX" errno]
    unfolding strto_limits assms(4,5) strtoull_def strtoull_r_def Let_def
    by (auto simp: strto_limits uint_word_ariths uint_word_of_int zmod_zminus1_eq_if)
qed

lemma sint_u32: "sint (v :: u32) = (if uint v < 2 ^ 31 then uint v else uint v - 2 ^ 32)"
proof -
  have "uint v < 2 ^ 32" "0 \<le> uint v" using uint_lt2p [of v] by simp_all
  moreover from this(2) have "- (2 ^ 31) \<le> uint v" by (rule order_trans [rotated]) simp
  moreover have "sint v = wrap_s32 (uint v)" using int_word_sint [of "uint v", where 'a = 32] by (simp add: wrap_s32_def)
  ultimately show ?thesis using wrap_s32_id [of "uint v"] wrap_s32_large [of "uint v"] by auto
qed

text \<open>C33: printing and parsing are inverse. In every base from 2 to 36, \<open>strtoul\<close> gives back the number
  that \<open>utoa\<close> wrote, and \<open>strtol\<close> in base 10 the signed number that \<open>itoa\<close> wrote; the end pointer is at
  the terminator, \<open>errno\<close> stays, and the printers write nothing outside the text.\<close>

theorem num_roundtrip:
  assumes "2 \<le> base" and "base \<le> 36"
  shows "(\<exists>m' n. utoa m v str base = Some (m', Some str) \<and> strtoul m' errno str base = Some (v, str + n, errno) \<and>
      (\<forall>a. a < str \<or> str + n < a \<longrightarrow> m' a = m a)) \<and>
    (\<exists>m' n. itoa m v str 10 = Some (m', Some str) \<and> strtol m' errno str 10 = Some (v, str + n, errno) \<and>
      (\<forall>a. a < str \<or> str + n < a \<longrightarrow> m' a = m a))"
proof
  have tx: "cstr (region_put m0 q (num_text b w @ [0])) q (num_text b w)" if "2 \<le> b" "b \<le> 36" for m0 q b w
    by (rule cstr_region_put [OF split_num_text(3) [OF that]])
  have nn: "num_text b w \<noteq> []" for b w by (simp add: num_text_def)
  define t where "t = num_text (nat base) (unat v)"
  have nb: "2 \<le> nat base" "nat base \<le> 36" "int (nat base) = base" using assms by simp_all
  have sp: "split_num base t = (False, base, 0, t)" "num_val base 0 t = uint v"
    using split_num_text(1,2) [OF nb(1,2), of "unat v"] nb(3) by (simp_all add: t_def)
  have lt: "uint v < 2 ^ 32" using uint_lt2p [of v] by simp
  have "base = 0 \<or> 2 \<le> base \<and> base \<le> 36" using assms by simp
  from strtoul_correct(1) [OF tx [OF nb(1,2), of m str "unat v", folded t_def] this sp(1) refl refl, of errno] obtain r where
    r: "strtoul (region_put m str (t @ [0])) errno str base = Some (r, str + length t, errno)" "uint r = uint v"
    using sp(2) lt nn by (auto simp: t_def)
  then have "r = v" by (simp add: word_uint_eq_iff)
  then show "\<exists>m' n. utoa m v str base = Some (m', Some str) \<and> strtoul m' errno str base = Some (v, str + n, errno) \<and>
      (\<forall>a. a < str \<or> str + n < a \<longrightarrow> m' a = m a)"
    using r(1) utoa_text [OF assms, of m v str]
    by (intro exI [of _ "region_put m str (t @ [0])"] exI [of _ "length t"]) (auto simp: t_def region_put_def)
  show "\<exists>m' n. itoa m v str 10 = Some (m', Some str) \<and> strtol m' errno str 10 = Some (v, str + n, errno) \<and>
      (\<forall>a. a < str \<or> str + n < a \<longrightarrow> m' a = m a)"
  proof (cases "sint v < 0")
    case False
    define u where "u = num_text 10 (unat v)"
    have uv: "uint v < 2 ^ 31" using False lt by (simp add: sint_u32 split: if_splits)
    then have sv: "sint v = uint v" by (simp add: sint_u32)
    have "0 \<le> uint v" by simp
    then have lo: "- (2 ^ 31) \<le> uint v" by (rule order_trans [rotated]) simp
    have su: "split_num 10 u = (False, 10, 0, u)" "num_val 10 0 u = uint v" "u \<noteq> []"
      using split_num_text(1,2) [of 10 "unat v"] nn by (simp_all add: u_def)
    have "cstr (region_put m str (u @ [0])) str u" unfolding u_def by (rule tx) simp_all
    from strtol_cstr(1) [OF this _ su(1) refl refl, of errno] obtain w where
      w: "strtol (region_put m str (u @ [0])) errno str 10 = Some (w, str + length u, errno)" "sint w = sint v"
      using su(2,3) uv sv lo by auto
    have "w = v" using w(2) by (simp add: signed_word_eqI)
    moreover have "itoa m v str 10 = Some (region_put m str (u @ [0]), Some str)"
      using False utoa_text [of 10 m v str] by (simp add: itoa_def u_def)
    ultimately show ?thesis using w(1)
      by (intro exI [of _ "region_put m str (u @ [0])"] exI [of _ "length u"]) (auto simp: region_put_def)
  next
    case True
    define u where "u = num_text 10 (unat (- v))"
    have uv: "2 ^ 31 \<le> uint v" using True by (simp add: sint_u32 split: if_splits)
    then have sv: "sint v = uint v - 2 ^ 32" by (simp add: sint_u32)
    have un: "uint (- v) = 2 ^ 32 - uint v" using uv lt by (simp add: uint_word_ariths zmod_zminus1_eq_if)
    have su: "split_num 10 u = (False, 10, 0, u)" "num_val 10 0 u = 2 ^ 32 - uint v" "u \<noteq> []" "0 \<notin> set u"
      using split_num_text [of 10 "unat (- v)"] nn un by (simp_all add: u_def)
    have sn: "split_num 10 (45 # u) = (True, 10, 1, u)"
      using split_num_text(4) [of 10 "unat (- v)"] by (simp add: u_def)
    have "cstr (region_put m str ((45 # u) @ [0])) str (45 # u)" by (rule cstr_region_put) (use su(4) in simp)
    from strtol_cstr(1) [OF this _ sn refl refl, of errno] obtain w where
      w: "strtol (region_put m str ((45 # u) @ [0])) errno str 10 = Some (w, str + length (45 # u), errno)" "sint w = sint v"
      using su(2,3) uv lt sv by auto
    have "w = v" using w(2) by (simp add: signed_word_eqI)
    moreover have "itoa m v str 10 = Some (region_put m str ((45 # u) @ [0]), Some str)"
      using True utoa_text [of 10 "m(str := 45)" "- v" "str + 1"] by (simp add: itoa_def u_def region_put_Cons)
    ultimately show ?thesis using w(1)
      by (intro exI [of _ "region_put m str ((45 # u) @ [0])"] exI [of _ "length (45 # u)"]) (auto simp: region_put_def)
  qed
qed

theorem num_roundtrip_witness:
  "\<exists>m' n. itoa demo_num (- 2015) 200 10 = Some (m', Some 200) \<and> strtol m' 0 200 10 = Some (- 2015, 200 + n, 0)"
  using num_roundtrip [of 16 demo_num 7 200 0] num_roundtrip [of 16 demo_num "- 2015" 200 0] by auto

end
