(* ===== verification/Qsort.thy ===== *)
theory Qsort
  imports StrCmp "HOL-Library.Multiset"
begin

text \<open>
  \<open>qsort\<close> (\<open>search/qsort.c\<close>, the sort of Bentley and McIlroy) and \<open>bsearch\<close> (\<open>search/bsearch.c\<close>). A
  pointer into the array is the index of its element, as every pointer of the code is a multiple of
  \<open>es\<close> away from the base. The algorithm is written over three operations on the array, the record
  \<open>sort_env\<close>; \<open>qsort\<close> runs it with the comparison and the exchanges of bytes in memory. What the
  algorithm relies on is stated by the locales \<open>comparison\<close> and \<open>sort_array\<close>.
\<close>

section \<open>The algorithm\<close>

record 's sort_env =
  CMP :: "'s \<Rightarrow> int \<Rightarrow> int \<Rightarrow> int"
  swap_elems :: "'s \<Rightarrow> int \<Rightarrow> int \<Rightarrow> 's"
  vecswap :: "'s \<Rightarrow> int \<Rightarrow> int \<Rightarrow> int \<Rightarrow> 's"

definition med3 :: "'s sort_env \<Rightarrow> 's \<Rightarrow> int \<Rightarrow> int \<Rightarrow> int \<Rightarrow> int" where
  "med3 E s a b c =
     (if CMP E s a b < 0 then (if CMP E s b c < 0 then b else if CMP E s a c < 0 then c else a)
      else (if CMP E s b c > 0 then b else if CMP E s a c < 0 then a else c))"

text \<open>\<open>for (pl = pm; pl > a && CMP(pl - es, pl) > 0; pl -= es) swap(pl, pl - es)\<close>\<close>

function isort_inner :: "'s sort_env \<Rightarrow> 's \<Rightarrow> int \<Rightarrow> int \<Rightarrow> 's" where
  "isort_inner E s a pl =
     (if a < pl \<and> CMP E s (pl - 1) pl > 0 then isort_inner E (swap_elems E s pl (pl - 1)) a (pl - 1) else s)"
  by pat_completeness auto
termination by (relation "measure (\<lambda>(_, _, a, pl). nat (pl - a))") auto

function isort_outer :: "'s sort_env \<Rightarrow> 's \<Rightarrow> int \<Rightarrow> int \<Rightarrow> int \<Rightarrow> 's" where
  "isort_outer E s a n pm =
     (if pm < a + n then isort_outer E (isort_inner E s a pm) a n (pm + 1) else s)"
  by pat_completeness auto
termination by (relation "measure (\<lambda>(_, _, a, n, pm). nat (a + n - pm))") auto

text \<open>The pivot: the middle, the median of three, or the median of three medians.\<close>

definition choose_pivot :: "'s sort_env \<Rightarrow> 's \<Rightarrow> int \<Rightarrow> int \<Rightarrow> int" where
  "choose_pivot E s a n =
     (let pm = a + n div 2 in
      if n > 7 then
        (let pl = a; pn = a + (n - 1); d = n div 8;
             (pl, pm, pn) = (if n > 40
               then (med3 E s pl (pl + d) (pl + 2 * d), med3 E s (pm - d) pm (pm + d), med3 E s (pn - 2 * d) (pn - d) pn)
               else (pl, pm, pn))
         in med3 E s pl pm pn)
      else pm)"

function scan_up :: "'s sort_env \<Rightarrow> 's \<Rightarrow> int \<Rightarrow> int \<Rightarrow> int \<Rightarrow> int \<Rightarrow> int \<Rightarrow> 's \<times> int \<times> int \<times> int" where
  "scan_up E s a pa pb pc swap_cnt =
     (if pb \<le> pc \<and> CMP E s pb a \<le> 0 then
        (if CMP E s pb a = 0 then scan_up E (swap_elems E s pa pb) a (pa + 1) (pb + 1) pc 1
         else scan_up E s a pa (pb + 1) pc swap_cnt)
      else (s, pa, pb, swap_cnt))"
  by pat_completeness auto
termination by (relation "measure (\<lambda>(_, _, _, _, pb, pc, _). nat (pc - pb + 1))") auto

function scan_down :: "'s sort_env \<Rightarrow> 's \<Rightarrow> int \<Rightarrow> int \<Rightarrow> int \<Rightarrow> int \<Rightarrow> int \<Rightarrow> 's \<times> int \<times> int \<times> int" where
  "scan_down E s a pb pc pd swap_cnt =
     (if pb \<le> pc \<and> CMP E s pc a \<ge> 0 then
        (if CMP E s pc a = 0 then scan_down E (swap_elems E s pc pd) a pb (pc - 1) (pd - 1) 1
         else scan_down E s a pb (pc - 1) pd swap_cnt)
      else (s, pc, pd, swap_cnt))"
  by pat_completeness auto
termination by (relation "measure (\<lambda>(_, _, _, pb, pc, _). nat (pc - pb + 1))") auto

declare isort_inner.simps [simp del] isort_outer.simps [simp del] scan_up.simps [simp del] scan_down.simps [simp del]

lemma scan_up_bounds:
  "scan_up E s a pa pb pc k = (s', pa', pb', k') \<Longrightarrow> pa \<le> pa' \<and> pb \<le> pb' \<and> pb' \<le> max pb (pc + 1)"
proof (induction E s a pa pb pc k rule: scan_up.induct)
  case (1 E s a pa pb pc k)
  show ?case
  proof (cases "pb \<le> pc \<and> CMP E s pb a \<le> 0")
    case True
    then show ?thesis using 1 by (cases "CMP E s pb a = 0") (fastforce simp: scan_up.simps [of E s a pa pb pc k])+
  next
    case False
    then have "scan_up E s a pa pb pc k = (s, pa, pb, k)" by (subst scan_up.simps) auto
    then show ?thesis using 1(3) by simp
  qed
qed

lemma scan_down_bounds:
  "scan_down E s a pb pc pd k = (s', pc', pd', k') \<Longrightarrow> pd' \<le> pd \<and> pc' \<le> pc \<and> min pc (pb - 1) \<le> pc'"
proof (induction E s a pb pc pd k rule: scan_down.induct)
  case (1 E s a pb pc pd k)
  show ?case
  proof (cases "pb \<le> pc \<and> CMP E s pc a \<ge> 0")
    case True
    then show ?thesis using 1 by (cases "CMP E s pc a = 0") (fastforce simp: scan_down.simps [of E s a pb pc pd k])+
  next
    case False
    then have "scan_down E s a pb pc pd k = (s, pc, pd, k)" by (subst scan_down.simps) auto
    then show ?thesis using 1(3) by simp
  qed
qed

text \<open>\<open>for (;;)\<close>: the two scans towards each other, with an exchange between.\<close>

function part_loop ::
    "'s sort_env \<Rightarrow> 's \<Rightarrow> int \<Rightarrow> int \<Rightarrow> int \<Rightarrow> int \<Rightarrow> int \<Rightarrow> int \<Rightarrow> 's \<times> int \<times> int \<times> int \<times> int \<times> int" where
  "part_loop E s a pa pb pc pd swap_cnt =
     (case scan_up E s a pa pb pc swap_cnt of (s1, pa1, pb1, cnt1) \<Rightarrow>
        case scan_down E s1 a pb1 pc pd cnt1 of (s2, pc1, pd1, cnt2) \<Rightarrow>
          if pb1 > pc1 then (s2, pa1, pb1, pc1, pd1, cnt2)
          else part_loop E (swap_elems E s2 pb1 pc1) a pa1 (pb1 + 1) (pc1 - 1) pd1 1)"
  by pat_completeness auto
termination
  by (relation "measure (\<lambda>(_, _, _, _, pb, pc, _). nat (pc - pb + 1))")
    (auto dest!: scan_up_bounds [OF sym] scan_down_bounds [OF sym])

declare part_loop.simps [simp del]

lemma part_loop_bounds:
  "part_loop E s a pa pb pc pd k = (s', pa', pb', pc', pd', k') \<Longrightarrow>
    pa \<le> pa' \<and> pb' \<le> max pb (pc + 1) \<and> min pc (pb - 1) \<le> pc' \<and> pd' \<le> pd"
proof (induction E s a pa pb pc pd k rule: part_loop.induct)
  case (1 E s a pa pb pc pd k)
  obtain s1 pa1 pb1 k1 where u: "scan_up E s a pa pb pc k = (s1, pa1, pb1, k1)" by (metis prod_cases4)
  obtain s2 pc1 pd1 k2 where d: "scan_down E s1 a pb1 pc pd k1 = (s2, pc1, pd1, k2)" by (metis prod_cases4)
  note b = scan_up_bounds [OF u] scan_down_bounds [OF d]
  show ?case
  proof (cases "pb1 > pc1")
    case True
    then show ?thesis using 1(2) u d b by (auto simp: part_loop.simps [of E s a pa pb pc pd k])
  next
    case False
    then have "part_loop E (swap_elems E s2 pb1 pc1) a pa1 (pb1 + 1) (pc1 - 1) pd1 1 = (s', pa', pb', pc', pd', k')"
      using 1(2) u d by (simp add: part_loop.simps [of E s a pa pb pc pd k])
    from 1(1) [OF u [symmetric] refl refl d [symmetric] refl refl False this] show ?thesis using b False by auto
  qed
qed

text \<open>
  The routine itself: insertion sort for short arrays and for those in which the partition exchanged
  nothing, else the exchange of the ends, the recursive call for the smaller elements and the loop for
  the bigger ones.
\<close>

function qsort_loop :: "'s sort_env \<Rightarrow> 's \<Rightarrow> int \<Rightarrow> int \<Rightarrow> 's" where
  "qsort_loop E s a n =
     (if n < 7 then isort_outer E s a n (a + 1)
      else case part_loop E (swap_elems E s a (choose_pivot E s a n)) a (a + 1) (a + 1) (a + (n - 1)) (a + (n - 1)) 0 of
        (s1, pa, pb, pc, pd, swap_cnt) \<Rightarrow>
          if swap_cnt = 0 then isort_outer E s1 a n (a + 1)
          else
           (let pn = a + n;
                r = min (pa - a) (pb - pa);
                s2 = (if r > 0 then vecswap E s1 a (pb - r) r else s1);
                r2 = min (pd - pc) (pn - pd - 1);
                s3 = (if r2 > 0 then vecswap E s2 pb (pn - r2) r2 else s2);
                s4 = (if pb - pa > 1 then qsort_loop E s3 a (pb - pa) else s3)
            in if pd - pc > 1 then qsort_loop E s4 (pn - (pd - pc)) (pd - pc) else s4))"
  by pat_completeness auto
termination
  by (relation "measure (\<lambda>(_, _, _, n). nat n)") (auto dest!: part_loop_bounds [OF sym])

declare qsort_loop.simps [simp del]

section \<open>Orders and rearrangements\<close>

text \<open>What a comparison function promises on the elements: a total preorder.\<close>

locale comparison =
  fixes c :: "'a \<Rightarrow> 'a \<Rightarrow> int" and D :: "'a set"
  assumes anti: "x \<in> D \<Longrightarrow> y \<in> D \<Longrightarrow> c x y < 0 \<longleftrightarrow> 0 < c y x"
    and trans: "x \<in> D \<Longrightarrow> y \<in> D \<Longrightarrow> z \<in> D \<Longrightarrow> c x y \<le> 0 \<Longrightarrow> c y z \<le> 0 \<Longrightarrow> c x z \<le> 0"
begin

lemma self: "x \<in> D \<Longrightarrow> c x x = 0"
  using anti [of x x] by auto

lemma flip: "x \<in> D \<Longrightarrow> y \<in> D \<Longrightarrow> 0 \<le> c x y \<longleftrightarrow> c y x \<le> 0"
  using anti [of x y] by auto

lemma flip_eq: "x \<in> D \<Longrightarrow> y \<in> D \<Longrightarrow> c x y = 0 \<longleftrightarrow> c y x = 0"
  using anti [of x y] anti [of y x] by auto

end

text \<open>The array \<open>g\<close> is a rearrangement of \<open>f\<close> inside \<open>lo..<hi\<close>.\<close>

definition rearranged :: "int \<Rightarrow> int \<Rightarrow> (int \<Rightarrow> 'a) \<Rightarrow> (int \<Rightarrow> 'a) \<Rightarrow> bool" where
  "rearranged lo hi f g \<longleftrightarrow> image_mset g (mset_set {lo..<hi}) = image_mset f (mset_set {lo..<hi}) \<and>
     (\<forall>k. 0 \<le> k \<and> k \<notin> {lo..<hi} \<longrightarrow> g k = f k)"

lemma rearranged_refl [simp]: "rearranged lo hi f f"
  by (simp add: rearranged_def)

lemma rearranged_trans: "rearranged lo hi f g \<Longrightarrow> rearranged lo hi g h \<Longrightarrow> rearranged lo hi f h"
  by (simp add: rearranged_def)

lemma rearranged_mono:
  assumes "rearranged lo hi f g" and "0 \<le> lo'" "lo' \<le> lo" "hi \<le> hi'"
  shows "rearranged lo' hi' f g"
proof -
  have s: "{lo'..<hi'} = {lo..<hi} \<union> ({lo'..<hi'} - {lo..<hi})" using assms(3,4) by auto
  have "mset_set {lo'..<hi'} = mset_set {lo..<hi} + mset_set ({lo'..<hi'} - {lo..<hi})"
    by (subst s, subst mset_set_Union) auto
  moreover have "image_mset g (mset_set ({lo'..<hi'} - {lo..<hi})) = image_mset f (mset_set ({lo'..<hi'} - {lo..<hi}))"
    by (rule image_mset_cong) (use assms in \<open>auto simp: rearranged_def\<close>)
  ultimately show ?thesis using assms by (auto simp: rearranged_def)
qed

lemma rearranged_all:
  assumes "rearranged lo hi f g" and "\<forall>k \<in> {lo..<hi}. P (f k)"
  shows "\<forall>k \<in> {lo..<hi}. P (g k)"
proof -
  have "set_mset (image_mset g (mset_set {lo..<hi})) = set_mset (image_mset f (mset_set {lo..<hi}))"
    using assms(1) by (simp only: rearranged_def)
  then have "g ` {lo..<hi} = f ` {lo..<hi}" by simp
  then show ?thesis using assms(2) by (metis image_eqI imageE)
qed

lemma rearranged_out: "rearranged lo hi f g \<Longrightarrow> 0 \<le> k \<Longrightarrow> k < lo \<or> hi \<le> k \<Longrightarrow> g k = f k"
  by (auto simp: rearranged_def)

lemma rearranged_swap:
  assumes "i \<in> {lo..<hi}" "j \<in> {lo..<hi}" and g: "\<And>k. 0 \<le> k \<Longrightarrow> g k = (if k = i then f j else if k = j then f i else f k)" and "0 \<le> lo"
  shows "rearranged lo hi f g"
proof (cases "i = j")
  case True
  have "image_mset g (mset_set {lo..<hi}) = image_mset f (mset_set {lo..<hi})"
    by (rule image_mset_cong) (use True g assms(4) in auto)
  then show ?thesis using True g assms(1) by (auto simp: rearranged_def)
next
  case False
  define T where "T = {lo..<hi} - {i, j}"
  have s: "{lo..<hi} = insert i (insert j T)" "i \<notin> insert j T" "j \<notin> T" "finite T"
    using assms(1,2) False by (auto simp: T_def)
  have "image_mset g (mset_set T) = image_mset f (mset_set T)"
    by (rule image_mset_cong) (use g assms(4) in \<open>auto simp: T_def\<close>)
  then have "image_mset g (mset_set {lo..<hi}) = image_mset f (mset_set {lo..<hi})"
    unfolding s(1) using s(2-4) g [of i] g [of j] assms by simp
  then show ?thesis using g assms(1,2) by (auto simp: rearranged_def)
qed

text \<open>The exchange of two blocks.\<close>

lemma rearranged_blocks:
  assumes r: "0 \<le> r" "lo \<le> i" "i + r \<le> j" "j + r \<le> hi" "0 \<le> lo"
    and g: "\<And>k. 0 \<le> k \<Longrightarrow> g k = (if k \<in> {i..<i + r} then f (k - i + j) else if k \<in> {j..<j + r} then f (k - j + i) else f k)"
  shows "rearranged lo hi f g"
proof -
  define T where "T = {lo..<hi} - {i..<i + r} - {j..<j + r}"
  have s: "{lo..<hi} = {i..<i + r} \<union> ({j..<j + r} \<union> T)" "{i..<i + r} \<inter> ({j..<j + r} \<union> T) = {}" "{j..<j + r} \<inter> T = {}" "finite T"
    using r by (auto simp: T_def)
  have shift: "image_mset (\<lambda>k. f (k - x + y)) (mset_set {x..<x + r}) = image_mset f (mset_set {y..<y + r})" for x y
  proof -
    have "image_mset (\<lambda>k. k - x + y) (mset_set {x..<x + r}) = mset_set ((\<lambda>k. k - x + y) ` {x..<x + r})"
      by (rule image_mset_mset_set) (auto simp: inj_on_def)
    also have "(\<lambda>k. k - x + y) ` {x..<x + r} = {y..<y + r}"
    proof (intro set_eqI iffI)
      fix k assume "k \<in> {y..<y + r}"
      then show "k \<in> (\<lambda>k. k - x + y) ` {x..<x + r}" by (intro image_eqI [of _ _ "k - y + x"]) auto
    qed auto
    finally have "image_mset f (image_mset (\<lambda>k. k - x + y) (mset_set {x..<x + r})) = image_mset f (mset_set {y..<y + r})" by simp
    then show ?thesis by (simp add: multiset.map_comp comp_def)
  qed
  have "image_mset g (mset_set {i..<i + r}) = image_mset (\<lambda>k. f (k - i + j)) (mset_set {i..<i + r})"
    by (rule image_mset_cong) (use g r in auto)
  then have "image_mset g (mset_set {i..<i + r}) = image_mset f (mset_set {j..<j + r})" by (simp only: shift)
  moreover have "image_mset g (mset_set {j..<j + r}) = image_mset (\<lambda>k. f (k - j + i)) (mset_set {j..<j + r})"
    by (rule image_mset_cong) (use g r in auto)
  then have "image_mset g (mset_set {j..<j + r}) = image_mset f (mset_set {i..<i + r})" by (simp only: shift)
  moreover have "mset_set {lo..<hi} = mset_set {i..<i + r} + (mset_set {j..<j + r} + mset_set T)"
    unfolding s(1) using s(2-4) by (simp only: mset_set_Union finite_atLeastLessThan_int finite_UnI)
  moreover have "image_mset g (mset_set T) = image_mset f (mset_set T)"
    by (rule image_mset_cong) (use g r in \<open>auto simp: T_def\<close>)
  ultimately have "image_mset g (mset_set {lo..<hi}) = image_mset f (mset_set {lo..<hi})"
    by (simp only: image_mset_union) (simp only: ac_simps)
  then show ?thesis using g r by (auto simp: rearranged_def)
qed

section \<open>Correctness over any array\<close>

definition sorted_on :: "('a \<Rightarrow> 'a \<Rightarrow> int) \<Rightarrow> int \<Rightarrow> int \<Rightarrow> (int \<Rightarrow> 'a) \<Rightarrow> bool" where
  "sorted_on c lo hi f \<longleftrightarrow> (\<forall>i j. lo \<le> i \<and> i < j \<and> j < hi \<longrightarrow> c (f i) (f j) \<le> 0)"

text \<open>A step of the sort: the elements move inside \<open>lo..<hi\<close>, the rest of the state stays.\<close>

definition moved :: "('s \<Rightarrow> int \<Rightarrow> 'a) \<Rightarrow> ('s \<Rightarrow> 'o) \<Rightarrow> int \<Rightarrow> int \<Rightarrow> 's \<Rightarrow> 's \<Rightarrow> bool" where
  "moved view out lo hi s s' \<longleftrightarrow> rearranged lo hi (view s) (view s') \<and> out s' = out s"

lemma moved_refl [simp]: "moved view out lo hi s s"
  by (simp add: moved_def)

lemma moved_trans: "moved view out lo hi s s' \<Longrightarrow> moved view out lo hi s' s'' \<Longrightarrow> moved view out lo hi s s''"
  by (auto simp: moved_def intro: rearranged_trans)

lemma moved_mono: "moved view out lo hi s s' \<Longrightarrow> 0 \<le> lo' \<Longrightarrow> lo' \<le> lo \<Longrightarrow> hi \<le> hi' \<Longrightarrow> moved view out lo' hi' s s'"
  by (auto simp: moved_def intro: rearranged_mono)

lemma moved_all: "moved view out lo hi s s' \<Longrightarrow> \<forall>k \<in> {lo..<hi}. P (view s k) \<Longrightarrow> \<forall>k \<in> {lo..<hi}. P (view s' k)"
  unfolding moved_def using rearranged_all [of lo hi "view s" "view s'" P] by blast

lemma moved_out: "moved view out lo hi s s' \<Longrightarrow> 0 \<le> k \<Longrightarrow> k < lo \<or> hi \<le> k \<Longrightarrow> view s' k = view s k"
  unfolding moved_def using rearranged_out by blast

lemma moved_elems:
  assumes "moved view out lo hi s s'" and "\<forall>k \<in> {lo..<hi}. view s k \<in> D"
  shows "\<forall>k \<in> {lo..<hi}. view s' k \<in> D"
  by (rule moved_all [OF assms(1), of "\<lambda>x. x \<in> D", OF assms(2)])

text \<open>The state of the partition around the element at \<open>a\<close>: equal, smaller, unknown, bigger, equal.\<close>

definition part_inv :: "('a \<Rightarrow> 'a \<Rightarrow> int) \<Rightarrow> int \<Rightarrow> int \<Rightarrow> int \<Rightarrow> int \<Rightarrow> int \<Rightarrow> int \<Rightarrow> (int \<Rightarrow> 'a) \<Rightarrow> bool" where
  "part_inv c a n pa pb pc pd f \<longleftrightarrow> a + 1 \<le> pa \<and> pa \<le> pb \<and> pb \<le> pc + 1 \<and> pc \<le> pd \<and> pd \<le> a + n - 1 \<and>
     (\<forall>k. a + 1 \<le> k \<and> k < pa \<longrightarrow> c (f k) (f a) = 0) \<and> (\<forall>k. pa \<le> k \<and> k < pb \<longrightarrow> c (f k) (f a) < 0) \<and>
     (\<forall>k. pc < k \<and> k \<le> pd \<longrightarrow> c (f k) (f a) > 0) \<and> (\<forall>k. pd < k \<and> k < a + n \<longrightarrow> c (f k) (f a) = 0)"

locale sort_array = comparison c D
  for c :: "'a \<Rightarrow> 'a \<Rightarrow> int" and D :: "'a set" +
  fixes E :: "'s sort_env" and view :: "'s \<Rightarrow> int \<Rightarrow> 'a" and out :: "'s \<Rightarrow> 'o"
  assumes cmp_law: "0 \<le> i \<Longrightarrow> 0 \<le> j \<Longrightarrow> CMP E s i j = c (view s i) (view s j)"
    and swap_law: "0 \<le> i \<Longrightarrow> 0 \<le> j \<Longrightarrow> 0 \<le> k \<Longrightarrow>
      view (swap_elems E s i j) k = (if k = i then view s j else if k = j then view s i else view s k)"
    and swap_out: "0 \<le> i \<Longrightarrow> 0 \<le> j \<Longrightarrow> out (swap_elems E s i j) = out s"
    and vec_law: "0 < r \<Longrightarrow> 0 \<le> i \<Longrightarrow> i + r \<le> j \<Longrightarrow> 0 \<le> k \<Longrightarrow> view (vecswap E s i j r) k =
      (if k \<in> {i..<i + r} then view s (k - i + j) else if k \<in> {j..<j + r} then view s (k - j + i) else view s k)"
    and vec_out: "0 < r \<Longrightarrow> 0 \<le> i \<Longrightarrow> i + r \<le> j \<Longrightarrow> out (vecswap E s i j r) = out s"
begin

lemma swap_moved: "0 \<le> lo \<Longrightarrow> i \<in> {lo..<hi} \<Longrightarrow> j \<in> {lo..<hi} \<Longrightarrow> moved view out lo hi s (swap_elems E s i j)"
  unfolding moved_def by (intro conjI rearranged_swap [of i lo hi j]) (auto simp: swap_law swap_out)

lemma vec_moved:
  "0 < r \<Longrightarrow> 0 \<le> lo \<Longrightarrow> lo \<le> i \<Longrightarrow> i + r \<le> j \<Longrightarrow> j + r \<le> hi \<Longrightarrow> moved view out lo hi s (vecswap E s i j r)"
  unfolding moved_def by (intro conjI rearranged_blocks [of r lo i j hi]) (simp_all add: vec_law vec_out)

text \<open>Insertion: everything is in order but for the element on its way down.\<close>

lemma isort_inner_ok:
  assumes "0 \<le> a" "a \<le> pl" "pl < hi" and "\<forall>k \<in> {a..<hi}. view s k \<in> D"
    and "\<forall>i j. a \<le> i \<and> i < j \<and> j < hi \<and> j \<noteq> pl \<longrightarrow> c (view s i) (view s j) \<le> 0"
  shows "sorted_on c a hi (view (isort_inner E s a pl)) \<and> moved view out a hi s (isort_inner E s a pl)"
  using assms
proof (induction "nat (pl - a)" arbitrary: s pl rule: less_induct)
  case less
  note pre = less.prems
  have D: "view s k \<in> D" if "a \<le> k" "k < hi" for k using pre(4) that by simp
  show ?case
  proof (cases "a < pl \<and> CMP E s (pl - 1) pl > 0")
    case False
    have "c (view s i) (view s j) \<le> 0" if ij: "a \<le> i" "i < j" "j < hi" for i j
    proof (cases "j = pl")
      case True
      then have "c (view s (pl - 1)) (view s pl) \<le> 0" using False ij pre(1) by (auto simp: cmp_law)
      moreover have "c (view s i) (view s (pl - 1)) \<le> 0"
        using ij True pre(3,5) self [OF D, of i] by (cases "i = pl - 1") auto
      ultimately show ?thesis using trans [OF D D D, of i "pl - 1" pl] ij True pre(3) by simp
    qed (use pre(5) ij in blast)
    moreover have "isort_inner E s a pl = s" using False by (subst isort_inner.simps) auto
    ultimately show ?thesis by (simp add: sorted_on_def)
  next
    case True
    define s1 where "s1 = swap_elems E s pl (pl - 1)"
    have v: "view s1 k = (if k = pl then view s (pl - 1) else if k = pl - 1 then view s pl else view s k)" if "0 \<le> k" for k
      using swap_law [of pl "pl - 1" k s] True pre(1) that by (simp add: s1_def)
    have mv: "moved view out a hi s s1" unfolding s1_def by (rule swap_moved) (use True pre in auto)
    have gt: "c (view s pl) (view s (pl - 1)) \<le> 0"
      using True pre(1,3) anti [OF D D, of pl "pl - 1"] by (auto simp: cmp_law)
    have ord: "c (view s1 i) (view s1 j) \<le> 0" if ij: "a \<le> i" "i < j" "j < hi" "j \<noteq> pl - 1" for i j
    proof -
      have le: "a \<le> i' \<Longrightarrow> i' < j' \<Longrightarrow> j' < hi \<Longrightarrow> j' \<noteq> pl \<Longrightarrow> c (view s i') (view s j') \<le> 0" for i' j'
        using pre(5) by blast
      have vi: "view s1 i = (if i = pl then view s (pl - 1) else if i = pl - 1 then view s pl else view s i)"
        "view s1 j = (if j = pl then view s (pl - 1) else if j = pl - 1 then view s pl else view s j)"
        using v ij pre(1) by simp_all
      consider "j = pl" "i = pl - 1" | "j = pl" "i < pl - 1" | "j > pl" "i = pl - 1" | "j > pl" "i = pl"
        | "j \<noteq> pl" "i \<noteq> pl" "i \<noteq> pl - 1" using ij by linarith
      then show ?thesis
      proof cases
        case 1 then show ?thesis unfolding vi using gt by simp
      next
        case 2
        then have "c (view s i) (view s (pl - 1)) \<le> 0" using ij(1) pre(3) by (intro le) simp_all
        then show ?thesis unfolding vi using 2 by simp
      next
        case 3
        then have "c (view s pl) (view s j) \<le> 0" using ij(3) True by (intro le) simp_all
        then show ?thesis unfolding vi using 3 by simp
      next
        case 4
        then have "c (view s (pl - 1)) (view s j) \<le> 0" using ij(3) True by (intro le) simp_all
        then show ?thesis unfolding vi using 4 by simp
      next
        case 5
        then have "c (view s i) (view s j) \<le> 0" using ij by (intro le) simp_all
        then show ?thesis unfolding vi using 5 ij(4) by simp
      qed
    qed
    have "sorted_on c a hi (view (isort_inner E s1 a (pl - 1))) \<and> moved view out a hi s1 (isort_inner E s1 a (pl - 1))"
    proof (rule less.hyps)
      show "\<forall>k \<in> {a..<hi}. view s1 k \<in> D" by (rule moved_elems [OF mv pre(4)])
      show "\<forall>i j. a \<le> i \<and> i < j \<and> j < hi \<and> j \<noteq> pl - 1 \<longrightarrow> c (view s1 i) (view s1 j) \<le> 0" using ord by blast
    qed (use True pre in auto)
    moreover have "isort_inner E s a pl = isort_inner E s1 a (pl - 1)" using True by (subst isort_inner.simps) (simp add: s1_def)
    ultimately show ?thesis using moved_trans [OF mv] by auto
  qed
qed

lemma isort_outer_ok:
  assumes "0 \<le> a" "a < pm" "pm \<le> a + n" and "\<forall>k \<in> {a..<a + n}. view s k \<in> D" and "sorted_on c a pm (view s)"
  shows "sorted_on c a (a + n) (view (isort_outer E s a n pm)) \<and> moved view out a (a + n) s (isort_outer E s a n pm)"
  using assms
proof (induction "nat (a + n - pm)" arbitrary: s pm rule: less_induct)
  case less
  note pre = less.prems
  show ?case
  proof (cases "pm < a + n")
    case False
    then show ?thesis using pre by (subst (1 2) isort_outer.simps) simp
  next
    case True
    define s1 where "s1 = isort_inner E s a pm"
    have "sorted_on c a (pm + 1) (view s1) \<and> moved view out a (pm + 1) s s1"
      unfolding s1_def by (rule isort_inner_ok) (use pre True in \<open>auto simp: sorted_on_def\<close>)
    then have 1: "sorted_on c a (pm + 1) (view s1)" "moved view out a (a + n) s s1"
      using moved_mono [of view out a "pm + 1" s s1 a "a + n"] pre True by auto
    have "sorted_on c a (a + n) (view (isort_outer E s1 a n (pm + 1))) \<and> moved view out a (a + n) s1 (isort_outer E s1 a n (pm + 1))"
      by (rule less.hyps) (use True pre(1,2) 1(1) moved_elems [OF 1(2) pre(4)] in simp_all)
    moreover have "isort_outer E s a n pm = isort_outer E s1 a n (pm + 1)" using True by (subst isort_outer.simps) (simp add: s1_def)
    ultimately show ?thesis using moved_trans [OF 1(2)] by auto
  qed
qed

text \<open>The scans keep the partition and stop at an element for the other side.\<close>

lemma scan_up_ok:
  assumes "0 \<le> a" "part_inv c a n pa pb pc pd (view s)" and "scan_up E s a pa pb pc k = (s', pa', pb', k')"
  shows "part_inv c a n pa' pb' pc pd (view s') \<and> moved view out (a + 1) (a + n) s s' \<and>
    (pb' \<le> pc \<longrightarrow> c (view s' pb') (view s' a) > 0)"
  using assms(2,3)
proof (induction "nat (pc - pb + 1)" arbitrary: s pa pb k rule: less_induct)
  case less
  note inv = less.prems(1) [unfolded part_inv_def] and run = less.prems(2)
  have cp: "CMP E s pb a = c (view s pb) (view s a)" using inv assms(1) by (simp add: cmp_law)
  show ?case
  proof (cases "pb \<le> pc \<and> CMP E s pb a \<le> 0")
    case False
    then have "(s', pa', pb', k') = (s, pa, pb, k)" using run by (subst (asm) scan_up.simps) auto
    then show ?thesis using less.prems(1) False cp by auto
  next
    case True
    show ?thesis
    proof (cases "CMP E s pb a = 0")
      case eq: True
      define s1 where "s1 = swap_elems E s pa pb"
      have v: "view s1 j = (if j = pa then view s pb else if j = pb then view s pa else view s j)" if "0 \<le> j" for j
        using swap_law [of pa pb j s] inv assms(1) that by (simp add: s1_def)
      have va: "view s1 a = view s a" using v [of a] inv assms(1) by simp
      have mv: "moved view out (a + 1) (a + n) s s1" unfolding s1_def by (rule swap_moved) (use inv True assms(1) in auto)
      have "part_inv c a n (pa + 1) (pb + 1) pc pd (view s1)"
        unfolding part_inv_def va
      proof (intro conjI allI impI)
        fix j assume j: "a + 1 \<le> j \<and> j < pa + 1"
        then show "c (view s1 j) (view s a) = 0" using v [of j] inv assms(1) eq cp by (cases "j = pa") auto
      next
        fix j assume j: "pa + 1 \<le> j \<and> j < pb + 1"
        then show "c (view s1 j) (view s a) < 0" using v [of j] inv assms(1) by (cases "j = pb") auto
      next
        fix j assume j: "pc < j \<and> j \<le> pd"
        then show "0 < c (view s1 j) (view s a)" using v [of j] inv assms(1) True by auto
      next
        fix j assume j: "pd < j \<and> j < a + n"
        then show "c (view s1 j) (view s a) = 0" using v [of j] inv assms(1) True by auto
      qed (use inv True in auto)
      moreover have "scan_up E s1 a (pa + 1) (pb + 1) pc 1 = (s', pa', pb', k')"
        using run True eq by (subst (asm) scan_up.simps) (simp add: s1_def)
      ultimately have "part_inv c a n pa' pb' pc pd (view s') \<and> moved view out (a + 1) (a + n) s1 s' \<and>
        (pb' \<le> pc \<longrightarrow> c (view s' pb') (view s' a) > 0)" by (intro less.hyps) (use True in simp_all)
      then show ?thesis using moved_trans [OF mv] by blast
    next
      case ne: False
      have "part_inv c a n pa (pb + 1) pc pd (view s)"
        unfolding part_inv_def
      proof (intro conjI allI impI)
        fix j assume j: "pa \<le> j \<and> j < pb + 1"
        then show "c (view s j) (view s a) < 0" using inv True ne cp by (cases "j = pb") auto
      qed (use inv True in auto)
      moreover have "scan_up E s a pa (pb + 1) pc k = (s', pa', pb', k')"
        using run True ne by (subst (asm) scan_up.simps) simp
      ultimately show ?thesis by (intro less.hyps) (use True in simp_all)
    qed
  qed
qed

lemma scan_down_ok:
  assumes "0 \<le> a" "part_inv c a n pa pb pc pd (view s)" and "scan_down E s a pb pc pd k = (s', pc', pd', k')"
  shows "part_inv c a n pa pb pc' pd' (view s') \<and> moved view out (a + 1) (a + n) s s' \<and>
    (pb \<le> pc' \<longrightarrow> c (view s' pc') (view s' a) < 0 \<and> view s' pb = view s pb)"
  using assms(2,3)
proof (induction "nat (pc - pb + 1)" arbitrary: s pc pd k rule: less_induct)
  case less
  note inv = less.prems(1) [unfolded part_inv_def] and run = less.prems(2)
  show ?case
  proof (cases "pb \<le> pc \<and> CMP E s pc a \<ge> 0")
    case False
    then have "(s', pc', pd', k') = (s, pc, pd, k)" using run by (subst (asm) scan_down.simps) auto
    moreover have "pb \<le> pc \<Longrightarrow> CMP E s pc a = c (view s pc) (view s a)" using inv assms(1) by (simp add: cmp_law)
    ultimately show ?thesis using less.prems(1) False by auto
  next
    case True
    then have cp: "CMP E s pc a = c (view s pc) (view s a)" using inv assms(1) by (simp add: cmp_law)
    show ?thesis
    proof (cases "CMP E s pc a = 0")
      case eq: True
      define s1 where "s1 = swap_elems E s pc pd"
      have v: "view s1 j = (if j = pc then view s pd else if j = pd then view s pc else view s j)" if "0 \<le> j" for j
        using swap_law [of pc pd j s] inv assms(1) True that by (simp add: s1_def)
      have va: "view s1 a = view s a" using v [of a] inv assms(1) True by simp
      have mv: "moved view out (a + 1) (a + n) s s1" unfolding s1_def by (rule swap_moved) (use inv True assms(1) in auto)
      have "part_inv c a n pa pb (pc - 1) (pd - 1) (view s1)"
        unfolding part_inv_def va
      proof (intro conjI allI impI)
        fix j assume j: "a + 1 \<le> j \<and> j < pa"
        then show "c (view s1 j) (view s a) = 0" using v [of j] inv assms(1) True by auto
      next
        fix j assume j: "pa \<le> j \<and> j < pb"
        then show "c (view s1 j) (view s a) < 0" using v [of j] inv assms(1) True by auto
      next
        fix j assume j: "pc - 1 < j \<and> j \<le> pd - 1"
        then show "0 < c (view s1 j) (view s a)" using v [of j] inv assms(1) True by (cases "j = pc") auto
      next
        fix j assume j: "pd - 1 < j \<and> j < a + n"
        then show "c (view s1 j) (view s a) = 0" using v [of j] inv assms(1) True eq cp by (cases "j = pd") auto
      qed (use inv True in auto)
      moreover have "scan_down E s1 a pb (pc - 1) (pd - 1) 1 = (s', pc', pd', k')"
        using run True eq by (subst (asm) scan_down.simps) (simp add: s1_def)
      ultimately have "part_inv c a n pa pb pc' pd' (view s') \<and> moved view out (a + 1) (a + n) s1 s' \<and>
        (pb \<le> pc' \<longrightarrow> c (view s' pc') (view s' a) < 0 \<and> view s' pb = view s1 pb)" by (intro less.hyps) (use True in simp_all)
      moreover have "pb \<le> pc' \<Longrightarrow> view s1 pb = view s pb"
      proof -
        assume "pb \<le> pc'"
        then have "pb < pc" using scan_down_bounds [OF \<open>scan_down E s1 a pb (pc - 1) (pd - 1) 1 = (s', pc', pd', k')\<close>] by linarith
        then show ?thesis using v [of pb] inv assms(1) by simp
      qed
      ultimately show ?thesis using moved_trans [OF mv] by auto
    next
      case ne: False
      have "part_inv c a n pa pb (pc - 1) pd (view s)"
        unfolding part_inv_def
      proof (intro conjI allI impI)
        fix j assume j: "pc - 1 < j \<and> j \<le> pd"
        then show "0 < c (view s j) (view s a)" using inv True ne cp by (cases "j = pc") auto
      qed (use inv True in auto)
      moreover have "scan_down E s a pb (pc - 1) pd k = (s', pc', pd', k')"
        using run True ne by (subst (asm) scan_down.simps) simp
      ultimately show ?thesis by (intro less.hyps) (use True in simp_all)
    qed
  qed
qed

lemma part_loop_ok:
  assumes "0 \<le> a" "part_inv c a n pa pb pc pd (view s)" and "part_loop E s a pa pb pc pd k = (s', pa', pb', pc', pd', k')"
  shows "part_inv c a n pa' pb' pc' pd' (view s') \<and> pb' = pc' + 1 \<and> moved view out (a + 1) (a + n) s s'"
  using assms(2,3)
proof (induction "nat (pc - pb + 1)" arbitrary: s pa pb pc pd k rule: less_induct)
  case less
  obtain s1 pa1 pb1 k1 where u: "scan_up E s a pa pb pc k = (s1, pa1, pb1, k1)" by (metis prod_cases4)
  obtain s2 pc1 pd1 k2 where d: "scan_down E s1 a pb1 pc pd k1 = (s2, pc1, pd1, k2)" by (metis prod_cases4)
  have 1: "part_inv c a n pa1 pb1 pc pd (view s1)" "moved view out (a + 1) (a + n) s s1"
    "pb1 \<le> pc \<Longrightarrow> c (view s1 pb1) (view s1 a) > 0"
    using scan_up_ok [OF assms(1) less.prems(1) u] by auto
  have 2: "part_inv c a n pa1 pb1 pc1 pd1 (view s2)" "moved view out (a + 1) (a + n) s1 s2"
    "pb1 \<le> pc1 \<Longrightarrow> c (view s2 pc1) (view s2 a) < 0 \<and> view s2 pb1 = view s1 pb1"
    using scan_down_ok [OF assms(1) 1(1) d] by auto
  have mv: "moved view out (a + 1) (a + n) s s2" by (rule moved_trans [OF 1(2) 2(2)])
  note b = scan_up_bounds [OF u] scan_down_bounds [OF d]
  note inv = 2(1) [unfolded part_inv_def]
  show ?case
  proof (cases "pb1 > pc1")
    case True
    then have "(s', pa', pb', pc', pd') = (s2, pa1, pb1, pc1, pd1)" using less.prems(2) u d by (subst (asm) part_loop.simps) simp
    then show ?thesis using 2(1) True inv mv by auto
  next
    case False
    have va2: "view s2 a = view s1 a" using moved_out [OF 2(2), of a] assms(1) by simp
    have gt: "c (view s2 pb1) (view s2 a) > 0" "c (view s2 pc1) (view s2 a) < 0" using 1(3) 2(3) b False va2 by auto
    then have lt: "pb1 < pc1" using False by (cases "pb1 = pc1") auto
    define s3 where "s3 = swap_elems E s2 pb1 pc1"
    have v: "view s3 j = (if j = pb1 then view s2 pc1 else if j = pc1 then view s2 pb1 else view s2 j)" if "0 \<le> j" for j
      using swap_law [of pb1 pc1 j s2] inv assms(1) False that by (simp add: s3_def)
    have va: "view s3 a = view s2 a" using v [of a] inv assms(1) lt by simp
    have mv3: "moved view out (a + 1) (a + n) s2 s3" unfolding s3_def by (rule swap_moved) (use inv lt assms(1) in auto)
    have "part_inv c a n pa1 (pb1 + 1) (pc1 - 1) pd1 (view s3)"
      unfolding part_inv_def va
    proof (intro conjI allI impI)
      fix j assume j: "a + 1 \<le> j \<and> j < pa1"
      then show "c (view s3 j) (view s2 a) = 0" using v [of j] inv assms(1) lt by auto
    next
      fix j assume j: "pa1 \<le> j \<and> j < pb1 + 1"
      then show "c (view s3 j) (view s2 a) < 0" using v [of j] inv assms(1) lt gt by (cases "j = pb1") auto
    next
      fix j assume j: "pc1 - 1 < j \<and> j \<le> pd1"
      then show "0 < c (view s3 j) (view s2 a)" using v [of j] inv assms(1) lt gt by (cases "j = pc1") auto
    next
      fix j assume j: "pd1 < j \<and> j < a + n"
      then show "c (view s3 j) (view s2 a) = 0" using v [of j] inv assms(1) lt by auto
    qed (use inv lt in auto)
    moreover have "part_loop E s3 a pa1 (pb1 + 1) (pc1 - 1) pd1 1 = (s', pa', pb', pc', pd', k')"
      using less.prems(2) u d False by (subst (asm) part_loop.simps) (simp add: s3_def)
    ultimately have "part_inv c a n pa' pb' pc' pd' (view s') \<and> pb' = pc' + 1 \<and> moved view out (a + 1) (a + n) s3 s'"
      by (intro less.hyps) (use False b in simp_all)
    then show ?thesis using moved_trans [OF moved_trans [OF mv mv3]] by blast
  qed
qed

text \<open>The exchanges of the ends: the equal elements come to the middle.\<close>

lemma exchange_low:
  assumes "0 \<le> a" "part_inv c a n pa pb pc pd (view s)" and eq: "c (view s a) (view s a) = 0"
  defines "r \<equiv> min (pa - a) (pb - pa)"
  defines "s2 \<equiv> (if r > 0 then vecswap E s a (pb - r) r else s)"
  shows "(\<forall>k. a \<le> k \<and> k < a + (pb - pa) \<longrightarrow> c (view s2 k) (view s a) < 0) \<and>
    (\<forall>k. a + (pb - pa) \<le> k \<and> k < pb \<longrightarrow> c (view s2 k) (view s a) = 0) \<and> moved view out a pb s s2"
proof -
  note inv = assms(2) [unfolded part_inv_def]
  have low: "c (view s k) (view s a) = 0" if "a \<le> k" "k < pa" for k using inv eq that by (cases "k = a") auto
  have mid: "c (view s k) (view s a) < 0" if "pa \<le> k" "k < pb" for k using inv that by auto
  show ?thesis
  proof (cases "r > 0")
    case False
    then have "pb = pa" using inv unfolding r_def by linarith
    then show ?thesis using False low by (simp add: s2_def)
  next
    case True
    have r: "r \<le> pa - a" "r \<le> pb - pa" "r = pa - a \<or> r = pb - pa" unfolding r_def by auto
    have v: "view s2 k = (if k \<in> {a..<a + r} then view s (k - a + (pb - r)) else if k \<in> {pb - r..<pb} then view s (k - (pb - r) + a) else view s k)"
      if "0 \<le> k" for k
      using vec_law [of r a "pb - r" k s] True r assms(1) that by (simp add: s2_def)
    have "moved view out a pb s s2" using vec_moved [of r a a "pb - r" pb s] True r assms(1) by (simp add: s2_def)
    moreover have "c (view s2 k) (view s a) < 0" if k: "a \<le> k" "k < a + (pb - pa)" for k
    proof (cases "k < a + r")
      case True
      then show ?thesis using v [of k] k assms(1) r mid [of "k - a + (pb - r)"] by simp
    next
      case False
      moreover have "k < pb" using k inv by linarith
      ultimately show ?thesis using v [of k] k assms(1) r mid [of k] by auto
    qed
    moreover have "c (view s2 k) (view s a) = 0" if k: "a + (pb - pa) \<le> k" "k < pb" for k
    proof (cases "pb - r \<le> k")
      case True
      then show ?thesis using v [of k] k assms(1) r low [of "k - (pb - r) + a"] by auto
    next
      case False
      moreover have "a \<le> k" using k inv by linarith
      ultimately show ?thesis using v [of k] k assms(1) r low [of k] by auto
    qed
    ultimately show ?thesis by blast
  qed
qed

lemma exchange_high:
  assumes "0 \<le> pb" "pb \<le> pd + 1" "pd < hi"
    and gt: "\<forall>k. pb \<le> k \<and> k \<le> pd \<longrightarrow> c (view s k) x > 0" and eq: "\<forall>k. pd < k \<and> k < hi \<longrightarrow> c (view s k) x = 0"
  defines "r \<equiv> min (pd + 1 - pb) (hi - pd - 1)"
  defines "s2 \<equiv> (if r > 0 then vecswap E s pb (hi - r) r else s)"
  shows "(\<forall>k. pb \<le> k \<and> k < hi - (pd + 1 - pb) \<longrightarrow> c (view s2 k) x = 0) \<and>
    (\<forall>k. hi - (pd + 1 - pb) \<le> k \<and> k < hi \<longrightarrow> c (view s2 k) x > 0) \<and> moved view out pb hi s s2"
proof (cases "r > 0")
  case False
  then have "pb = pd + 1 \<or> hi = pd + 1" using assms(2,3) unfolding r_def by linarith
  then show ?thesis using False gt eq assms(2,3) by (auto simp: s2_def)
next
  case True
  have r: "r \<le> pd + 1 - pb" "r \<le> hi - pd - 1" "r = pd + 1 - pb \<or> r = hi - pd - 1" unfolding r_def by auto
  have v: "view s2 k = (if k \<in> {pb..<pb + r} then view s (k - pb + (hi - r)) else if k \<in> {hi - r..<hi} then view s (k - (hi - r) + pb) else view s k)"
    if "0 \<le> k" for k
    using vec_law [of r pb "hi - r" k s] True r assms(1) that by (simp add: s2_def)
  have "moved view out pb hi s s2" using vec_moved [of r pb pb "hi - r" hi s] True r assms(1) by (simp add: s2_def)
  moreover have "c (view s2 k) x = 0" if k: "pb \<le> k" "k < hi - (pd + 1 - pb)" for k
  proof (cases "k < pb + r")
    case True
    have "c (view s (k - pb + (hi - r))) x = 0" using eq k r True by auto
    then show ?thesis using v [of k] k assms(1) True by simp
  next
    case False
    then have "c (view s k) x = 0" using eq k r assms(2) by auto
    then show ?thesis using v [of k] k assms(1) False r by auto
  qed
  moreover have "c (view s2 k) x > 0" if k: "hi - (pd + 1 - pb) \<le> k" "k < hi" for k
  proof (cases "hi - r \<le> k")
    case True
    have "c (view s (k - (hi - r) + pb)) x > 0" using gt k r True by auto
    then show ?thesis using v [of k] k assms(1) r True by auto
  next
    case False
    moreover have pk: "pb \<le> k" using k assms(3) by linarith
    ultimately have "c (view s k) x > 0" using gt k r assms(2) by auto
    then show ?thesis using v [of k] k assms(1) r False pk by auto
  qed
  ultimately show ?thesis by blast
qed

text \<open>Three sorted parts in order.\<close>

lemma sorted_parts:
  assumes D: "\<forall>k \<in> {a..<hi}. f k \<in> D" "x \<in> D" and "a \<le> l" "l \<le> h" "h \<le> hi"
    and lo: "sorted_on c a l f" "\<forall>k. a \<le> k \<and> k < l \<longrightarrow> c (f k) x < 0"
    and mid: "\<forall>k. l \<le> k \<and> k < h \<longrightarrow> c (f k) x = 0"
    and up: "sorted_on c h hi f" "\<forall>k. h \<le> k \<and> k < hi \<longrightarrow> c (f k) x > 0"
  shows "sorted_on c a hi f"
  unfolding sorted_on_def
proof (intro allI impI)
  fix i j assume ij: "a \<le> i \<and> i < j \<and> j < hi"
  have Di: "f i \<in> D" "f j \<in> D" using D(1) ij by simp_all
  consider "j < l" | "h \<le> i" | "i < h" "l \<le> j" by linarith
  then show "c (f i) (f j) \<le> 0"
  proof cases
    case 3
    have "c (f i) x \<le> 0" using lo(2) mid ij 3 by (cases "i < l") auto
    moreover have "0 \<le> c (f j) x" using mid up(2) ij 3 by (cases "j < h") (auto intro: less_imp_le)
    then have "c x (f j) \<le> 0" using flip [OF Di(2) D(2)] by simp
    ultimately show ?thesis by (rule trans [OF Di(1) D(2) Di(2)])
  qed (use lo(1) up(1) ij in \<open>auto simp: sorted_on_def\<close>)
qed

lemma med3_in: "i \<in> S \<Longrightarrow> j \<in> S \<Longrightarrow> k \<in> S \<Longrightarrow> med3 E s i j k \<in> S"
  by (simp add: med3_def)

lemma choose_pivot_in:
  assumes "7 \<le> n"
  shows "choose_pivot E s a n \<in> {a..<a + n}"
proof -
  have h: "0 \<le> n div 2" "n div 2 < n" using assms by simp_all
  show ?thesis
  proof (cases "n > 40")
    case True
    have "0 \<le> n div 8" "2 * (n div 8) < n" "n div 8 \<le> n div 2" "n div 2 + n div 8 < n" 
    proof -
      have "0 \<le> n div 8" "8 * (n div 8) \<le> n" "2 * (n div 2) \<le> n" "n \<le> 2 * (n div 2) + 1" using True by simp_all
      then show "0 \<le> n div 8" "2 * (n div 8) < n" "n div 8 \<le> n div 2" "n div 2 + n div 8 < n" using True by linarith+
    qed
    then have "a \<in> {a..<a + n}" "a + n div 8 \<in> {a..<a + n}" "a + 2 * (n div 8) \<in> {a..<a + n}"
      "a + n div 2 - n div 8 \<in> {a..<a + n}" "a + n div 2 \<in> {a..<a + n}" "a + n div 2 + n div 8 \<in> {a..<a + n}"
      "a + (n - 1) - 2 * (n div 8) \<in> {a..<a + n}" "a + (n - 1) - n div 8 \<in> {a..<a + n}" "a + (n - 1) \<in> {a..<a + n}"
      using h True by simp_all
    moreover have "7 < n" using True by simp
    ultimately show ?thesis using True
      by (simp only: choose_pivot_def Let_def if_True split med3_in)
  next
    case False
    have "med3 E s a (a + n div 2) (a + (n - 1)) \<in> {a..<a + n}" "a + n div 2 \<in> {a..<a + n}"
      by (rule med3_in) (use h assms in simp_all)
    then show ?thesis using False by (simp add: choose_pivot_def Let_def del: atLeastLessThan_iff)
  qed
qed

lemma isort_ok:
  assumes "0 \<le> a" "\<forall>k \<in> {a..<a + n}. view s k \<in> D"
  shows "sorted_on c a (a + n) (view (isort_outer E s a n (a + 1))) \<and> moved view out a (a + n) s (isort_outer E s a n (a + 1))"
proof (cases "1 \<le> n")
  case True
  then show ?thesis using isort_outer_ok [of a "a + 1" n s] assms by (simp add: sorted_on_def)
next
  case False
  then show ?thesis by (subst (1 2) isort_outer.simps) (simp add: sorted_on_def)
qed

text \<open>The end of a round: the two parts sorted on their own, by hypothesis.\<close>

lemma qsort_round:
  assumes a: "0 \<le> a" and D: "\<forall>k \<in> {a..<hi}. view s k \<in> D" "x \<in> D" and l: "0 \<le> L" "0 \<le> R" "a + L \<le> hi - R"
    and parts: "\<forall>k. a \<le> k \<and> k < a + L \<longrightarrow> c (view s k) x < 0" "\<forall>k. a + L \<le> k \<and> k < hi - R \<longrightarrow> c (view s k) x = 0"
      "\<forall>k. hi - R \<le> k \<and> k < hi \<longrightarrow> c (view s k) x > 0"
    and left: "sorted_on c a (a + L) (view s4)" "moved view out a (a + L) s s4"
    and right: "sorted_on c (hi - R) hi (view s5)" "moved view out (hi - R) hi s4 s5"
  shows "sorted_on c a hi (view s5) \<and> moved view out a hi s s5"
proof
  have m4: "moved view out a hi s s4" by (rule moved_mono [OF left(2)]) (use a l in auto)
  have m5: "moved view out a hi s4 s5" by (rule moved_mono [OF right(2)]) (use a l in auto)
  show m: "moved view out a hi s s5" by (rule moved_trans [OF m4 m5])
  have v5: "view s5 k = view s4 k" if "a \<le> k" "k < hi - R" for k using moved_out [OF right(2)] a that by simp
  have v4: "view s4 k = view s k" if "a + L \<le> k" for k using moved_out [OF left(2)] a l that by simp
  have p4: "\<forall>k \<in> {a..<a + L}. c (view s4 k) x < 0"
    by (rule moved_all [OF left(2), of "\<lambda>y. c y x < 0"]) (use parts(1) in simp)
  have "\<forall>k \<in> {hi - R..<hi}. c (view s4 k) x > 0" using parts(3) v4 l by simp
  from moved_all [OF right(2), of "\<lambda>y. c y x > 0", OF this] have p5: "\<forall>k \<in> {hi - R..<hi}. c (view s5 k) x > 0" .
  show "sorted_on c a hi (view s5)"
  proof (rule sorted_parts [OF moved_elems [OF m D(1)] D(2), where l = "a + L" and h = "hi - R"])
    show "sorted_on c a (a + L) (view s5)"
      unfolding sorted_on_def
    proof (intro allI impI)
      fix i j assume "a \<le> i \<and> i < j \<and> j < a + L"
      then show "c (view s5 i) (view s5 j) \<le> 0" using left(1) v5 [of i] v5 [of j] l by (simp add: sorted_on_def)
    qed
    show "\<forall>k. a \<le> k \<and> k < a + L \<longrightarrow> c (view s5 k) x < 0" using p4 v5 l by simp
    show "\<forall>k. a + L \<le> k \<and> k < hi - R \<longrightarrow> c (view s5 k) x = 0" using parts(2) v4 v5 l by simp
    show "\<forall>k. hi - R \<le> k \<and> k < hi \<longrightarrow> c (view s5 k) x > 0" using p5 by simp
  qed (use l right(1) in simp_all)
qed

lemma qsort_loop_ok:
  assumes "0 \<le> a" "\<forall>k \<in> {a..<a + n}. view s k \<in> D"
  shows "sorted_on c a (a + n) (view (qsort_loop E s a n)) \<and> moved view out a (a + n) s (qsort_loop E s a n)"
  using assms
proof (induction "nat n" arbitrary: s a n rule: less_induct)
  case less
  note pre = less.prems
  show ?case
  proof (cases "n < 7")
    case True
    then have "qsort_loop E s a n = isort_outer E s a n (a + 1)" by (subst qsort_loop.simps) simp
    then show ?thesis using isort_ok [OF pre] by simp
  next
    case n7: False
    define s0 where "s0 = swap_elems E s a (choose_pivot E s a n)"
    define hi where "hi = a + n"
    have "choose_pivot E s a n \<in> {a..<hi}" using choose_pivot_in [of n s a] n7 by (simp add: hi_def)
    then have m0: "moved view out a hi s s0" unfolding s0_def by (intro swap_moved) (use pre n7 in \<open>auto simp: hi_def\<close>)
    obtain s1 pa pb pc pd cnt where pl: "part_loop E s0 a (a + 1) (a + 1) (a + (n - 1)) (a + (n - 1)) 0 = (s1, pa, pb, pc, pd, cnt)"
      by (metis prod_cases6)
    have "part_inv c a n (a + 1) (a + 1) (a + (n - 1)) (a + (n - 1)) (view s0)" using n7 by (simp add: part_inv_def)
    from part_loop_ok [OF pre(1) this pl] have p1: "part_inv c a n pa pb pc pd (view s1)" "pb = pc + 1" "moved view out a hi s0 s1"
      using moved_mono [of view out "a + 1" hi s0 s1 a hi] pre(1) by (auto simp: hi_def)
    have m1: "moved view out a hi s s1" by (rule moved_trans [OF m0 p1(3)])
    have D1: "\<forall>k \<in> {a..<hi}. view s1 k \<in> D" by (rule moved_elems [OF m1]) (use pre(2) in \<open>simp add: hi_def\<close>)
    show ?thesis
    proof (cases "cnt = 0")
      case True
      then have "qsort_loop E s a n = isort_outer E s1 a n (a + 1)" using n7 pl by (subst qsort_loop.simps) (simp add: s0_def)
      then show ?thesis using isort_ok [of a n s1] pre(1) D1 moved_trans [OF m1] by (auto simp: hi_def)
    next
      case cnt: False
      note inv = p1(1) [unfolded part_inv_def]
      define L R where "L = pb - pa" and "R = pd - pc"
      have LR: "0 \<le> L" "0 \<le> R" "L < n" "R < n" "a + L \<le> pb" "pb \<le> hi - R" "R = pd + 1 - pb"
        using inv p1(2) by (auto simp: L_def R_def hi_def)
      define s2 where "s2 = (if min (pa - a) L > 0 then vecswap E s1 a (pb - min (pa - a) L) (min (pa - a) L) else s1)"
      define s3 where "s3 = (if min R (hi - pd - 1) > 0 then vecswap E s2 pb (hi - min R (hi - pd - 1)) (min R (hi - pd - 1)) else s2)"
      define s4 where "s4 = (if L > 1 then qsort_loop E s3 a L else s3)"
      define s5 where "s5 = (if R > 1 then qsort_loop E s4 (hi - R) R else s4)"
      define x where "x = view s1 a"
      have x: "x \<in> D" using D1 n7 by (simp add: x_def hi_def)
      have run: "qsort_loop E s a n = s5"
        using n7 pl cnt by (subst qsort_loop.simps) (simp add: s0_def s5_def s4_def s3_def s2_def L_def R_def hi_def Let_def)
      have "c (view s1 a) (view s1 a) = 0" using self [OF x] by (simp add: x_def)
      then have e2:
        "\<forall>k. a \<le> k \<and> k < a + L \<longrightarrow> c (view s2 k) x < 0" "\<forall>k. a + L \<le> k \<and> k < pb \<longrightarrow> c (view s2 k) x = 0" "moved view out a pb s1 s2"
        using exchange_low [OF pre(1) p1(1)] unfolding x_def [symmetric] L_def [symmetric] s2_def [symmetric] by blast+
      have v2: "view s2 k = view s1 k" if "pb \<le> k" for k using moved_out [OF e2(3)] that inv pre(1) by simp
      have g2: "\<forall>k. pb \<le> k \<and> k \<le> pd \<longrightarrow> c (view s2 k) x > 0" "\<forall>k. pd < k \<and> k < hi \<longrightarrow> c (view s2 k) x = 0"
        using inv p1(2) v2 by (simp_all add: x_def hi_def)
      have "0 \<le> pb" "pb \<le> pd + 1" "pd < hi" using inv p1(2) pre(1) by (simp_all add: hi_def)
      then have e3: "\<forall>k. pb \<le> k \<and> k < hi - R \<longrightarrow> c (view s3 k) x = 0"
        "\<forall>k. hi - R \<le> k \<and> k < hi \<longrightarrow> c (view s3 k) x > 0" "moved view out pb hi s2 s3"
        using exchange_high [OF _ _ _ g2] unfolding LR(7) [symmetric] s3_def [symmetric] by blast+
      have v3: "view s3 k = view s2 k" if "a \<le> k" "k < pb" for k using moved_out [OF e3(3)] that pre(1) by simp
      have m3: "moved view out a hi s1 s3"
        using moved_trans [OF moved_mono [OF e2(3), of a hi] moved_mono [OF e3(3), of a hi]] pre(1) inv LR by simp
      have D3: "\<forall>k \<in> {a..<hi}. view s3 k \<in> D" by (rule moved_elems [OF m3 D1])
      have 4: "sorted_on c a (a + L) (view s4) \<and> moved view out a (a + L) s3 s4"
      proof (cases "L > 1")
        case True
        have "nat L < nat n" using LR by simp
        then show ?thesis using less.hyps [of L a s3] True pre(1) D3 LR by (simp add: s4_def)
      qed (use LR in \<open>simp add: s4_def sorted_on_def\<close>)
      have "moved view out a hi s3 s4" using moved_mono [of view out a "a + L" s3 s4 a hi] 4 pre(1) LR by simp
      then have D4: "\<forall>k \<in> {a..<hi}. view s4 k \<in> D" using D3 by (rule moved_elems)
      have 5: "sorted_on c (hi - R) hi (view s5) \<and> moved view out (hi - R) hi s4 s5"
      proof (cases "R > 1")
        case True
        have "nat R < nat n" using LR by simp
        then show ?thesis using less.hyps [of R "hi - R" s4] True pre(1) D4 LR by (simp add: s5_def)
      qed (use LR in \<open>simp add: s5_def sorted_on_def\<close>)
      have "sorted_on c a hi (view s5) \<and> moved view out a hi s3 s5"
      proof (rule qsort_round [OF pre(1) D3 x LR(1,2), where ?s4.0 = s4])
        show "\<forall>k. a \<le> k \<and> k < a + L \<longrightarrow> c (view s3 k) x < 0" using e2(1) v3 LR by simp
        show "\<forall>k. a + L \<le> k \<and> k < hi - R \<longrightarrow> c (view s3 k) x = 0"
        proof (intro allI impI)
          fix k assume "a + L \<le> k \<and> k < hi - R"
          then show "c (view s3 k) x = 0" using e2(2) e3(1) v3 [of k] LR(1) by (cases "k < pb") auto
        qed
      qed (use 4 5 e3(2) LR(1,5,6) in simp_all)
      then show ?thesis using run moved_trans [OF moved_trans [OF m1 m3]] by (simp add: hi_def)
    qed
  qed
qed

end

section \<open>The array in memory\<close>

text \<open>\<open>swapcode\<close> for \<open>char\<close> and for \<open>long\<close>: the bodies run at least once.\<close>

function swap_chars :: "mem \<Rightarrow> nat \<Rightarrow> nat \<Rightarrow> nat \<Rightarrow> mem" where
  "swap_chars m pi pj i =
     (let m1 = m(pi := m pj, pj := m pi) in if i - 1 > 0 then swap_chars m1 (pi + 1) (pj + 1) (i - 1) else m1)"
  by pat_completeness auto
termination by (relation "measure (\<lambda>(_, _, _, i). i)") auto

function swap_longs :: "mem \<Rightarrow> nat \<Rightarrow> nat \<Rightarrow> nat \<Rightarrow> mem" where
  "swap_longs m pi pj i =
     (let m1 = store32 (store32 m pi (load32 m pj)) pj (load32 m pi)
      in if i - 1 > 0 then swap_longs m1 (pi + 4) (pj + 4) (i - 1) else m1)"
  by pat_completeness auto
termination by (relation "measure (\<lambda>(_, _, _, i). i)") auto

declare swap_chars.simps [simp del] swap_longs.simps [simp del]

definition SWAPINIT :: "nat \<Rightarrow> nat \<Rightarrow> nat" where
  "SWAPINIT a es = (if a mod 4 \<noteq> 0 \<or> es mod 4 \<noteq> 0 then 2 else if es = 4 then 0 else 1)"

definition swapfunc :: "mem \<Rightarrow> nat \<Rightarrow> nat \<Rightarrow> nat \<Rightarrow> nat \<Rightarrow> mem" where
  "swapfunc m a b n swaptype = (if swaptype \<le> 1 then swap_longs m a b (n div 4) else swap_chars m a b n)"

text \<open>The macro \<open>swap\<close>\<close>

definition swap_macro :: "mem \<Rightarrow> nat \<Rightarrow> nat \<Rightarrow> nat \<Rightarrow> nat \<Rightarrow> mem" where
  "swap_macro m a b es swaptype =
     (if swaptype = 0 then store32 (store32 m a (load32 m b)) b (load32 m a) else swapfunc m a b es swaptype)"

text \<open>The element with an index, and the sort on the bytes from \<open>base\<close> on.\<close>

definition elem_ptr :: "nat \<Rightarrow> nat \<Rightarrow> int \<Rightarrow> nat" where "elem_ptr base es i = base + nat i * es"

definition elem_at :: "nat \<Rightarrow> nat \<Rightarrow> mem \<Rightarrow> int \<Rightarrow> u8 list" where
  "elem_at base es m i = map (\<lambda>k. m (elem_ptr base es i + k)) [0..<es]"

definition mem_env :: "nat \<Rightarrow> nat \<Rightarrow> (u8 list \<Rightarrow> u8 list \<Rightarrow> int) \<Rightarrow> mem sort_env" where
  "mem_env base es cmp = (let swaptype = SWAPINIT base es in
     \<lparr>CMP = (\<lambda>m i j. cmp (elem_at base es m i) (elem_at base es m j)),
      swap_elems = (\<lambda>m i j. swap_macro m (elem_ptr base es i) (elem_ptr base es j) es swaptype),
      vecswap = (\<lambda>m i j r. swapfunc m (elem_ptr base es i) (elem_ptr base es j) (nat r * es) swaptype)\<rparr>)"

definition qsort :: "mem \<Rightarrow> nat \<Rightarrow> nat \<Rightarrow> nat \<Rightarrow> (u8 list \<Rightarrow> u8 list \<Rightarrow> int) \<Rightarrow> mem" where
  "qsort m a n es cmp = qsort_loop (mem_env a es cmp) m 0 (int n)"

text \<open>\<open>SWAPINIT\<close> gives the same at every element, so that it need not be computed again in each round.\<close>

lemma SWAPINIT_elem: "SWAPINIT (base + i * es) es = SWAPINIT base es"
proof (cases "es mod 4 = 0")
  case True
  then have "(base + i * es) mod 4 = base mod 4" by (metis mod_add_right_eq mod_mult_right_eq mult_0_right add_0_right mod_0)
  then show ?thesis by (simp add: SWAPINIT_def)
qed (simp add: SWAPINIT_def)

definition region_swap :: "mem \<Rightarrow> nat \<Rightarrow> nat \<Rightarrow> nat \<Rightarrow> mem" where
  "region_swap m a b n = (\<lambda>x. if a \<le> x \<and> x < a + n then m (b + (x - a))
     else if b \<le> x \<and> x < b + n then m (a + (x - b)) else m x)"

definition apart :: "nat \<Rightarrow> nat \<Rightarrow> nat \<Rightarrow> bool" where "apart a b n \<longleftrightarrow> a = b \<or> a + n \<le> b \<or> b + n \<le> a"

lemma region_swap_add:
  assumes "apart a b (k + n)" 
  shows "region_swap (region_swap m a b k) (a + k) (b + k) n = region_swap m a b (k + n)"
proof (cases "a = b")
  case True
  have "region_swap m' c c j = m'" for m' c j by (rule ext) (simp add: region_swap_def)
  then show ?thesis using True by simp
next
  case False
  then have d: "a + (k + n) \<le> b \<or> b + (k + n) \<le> a" using assms by (simp add: apart_def)
  have in_a: "region_swap m' p q j (p + i) = m' (q + i)" if "i < j" for m' p q j i
    using that by (simp add: region_swap_def)
  have in_b: "region_swap m' p q j (q + i) = m' (p + i)" if "i < j" "p + j \<le> q \<or> q + j \<le> p" for m' p q j i
    using that by (auto simp: region_swap_def)
  have off: "region_swap m' p q j x = m' x" if "x < p \<or> p + j \<le> x" "x < q \<or> q + j \<le> x" for m' p q j x
    using that by (auto simp: region_swap_def)
  show ?thesis
  proof
    fix x
    consider i where "x = a + i" "i < k" | i where "x = a + k + i" "i < n" | i where "x = b + i" "i < k" | i where "x = b + k + i" "i < n"
      | "x < a \<or> a + (k + n) \<le> x" "x < b \<or> b + (k + n) \<le> x"
    proof -
      have "x < a \<or> (\<exists>i < k. x = a + i) \<or> (\<exists>i < n. x = a + k + i) \<or> a + (k + n) \<le> x"
        "x < b \<or> (\<exists>i < k. x = b + i) \<or> (\<exists>i < n. x = b + k + i) \<or> b + (k + n) \<le> x" by presburger+
      then show ?thesis using that by blast
    qed
    then show "region_swap (region_swap m a b k) (a + k) (b + k) n x = region_swap m a b (k + n) x"
    proof cases
      case 1
      have "region_swap (region_swap m a b k) (a + k) (b + k) n (a + i) = region_swap m a b k (a + i)"
        by (rule off) (use 1 d in linarith)+
      then show ?thesis using 1 in_a [of i k m a b] in_a [of i "k + n" m a b] by simp
    next
      case 2
      have "region_swap m a b k (b + k + i) = m (b + k + i)" by (rule off) (use 2 d in linarith)+
      then show ?thesis using 2 in_a [of i n "region_swap m a b k" "a + k" "b + k"] in_a [of "k + i" "k + n" m a b] by (simp add: add.assoc)
    next
      case 3
      have "region_swap (region_swap m a b k) (a + k) (b + k) n (b + i) = region_swap m a b k (b + i)"
        by (rule off) (use 3 d in linarith)+
      then show ?thesis using 3 d in_b [of i k a b m] in_b [of i "k + n" a b m] by auto
    next
      case 4
      have "region_swap m a b k (a + k + i) = m (a + k + i)" by (rule off) (use 4 d in linarith)+
      then show ?thesis using 4 d in_b [of i n "a + k" "b + k" "region_swap m a b k"] in_b [of "k + i" "k + n" a b m] by (auto simp: add.assoc)
    next
      case 5
      have "region_swap (region_swap m a b k) (a + k) (b + k) n x = region_swap m a b k x" by (rule off) (use 5 d in linarith)+
      moreover have "region_swap m a b k x = m x" "region_swap m a b (k + n) x = m x" by (rule off, (use 5 d in linarith)+)+
      ultimately show ?thesis by simp
    qed
  qed
qed

lemma swap_word: "apart a b 4 \<Longrightarrow> store32 (store32 m a (load32 m b)) b (load32 m a) = region_swap m a b 4"
  unfolding store32_load32 region_swap_def apart_def by (rule ext) auto

lemma swap_chars_region: "0 < n \<Longrightarrow> apart a b n \<Longrightarrow> swap_chars m a b n = region_swap m a b n"
proof (induction n arbitrary: m a b)
  case (Suc n)
  have one: "m(a := m b, b := m a) = region_swap m a b 1" by (auto simp: region_swap_def fun_eq_iff)
  show ?case
  proof (cases "n = 0")
    case True
    then show ?thesis using one by (subst swap_chars.simps) simp
  next
    case False
    then have "swap_chars m a b (Suc n) = swap_chars (region_swap m a b 1) (a + 1) (b + 1) n"
      using one by (subst swap_chars.simps) (simp add: Let_def)
    also have "\<dots> = region_swap (region_swap m a b 1) (a + 1) (b + 1) n"
      by (rule Suc.IH) (use False Suc.prems in \<open>auto simp: apart_def\<close>)
    also have "\<dots> = region_swap m a b (1 + n)" by (rule region_swap_add) (use Suc.prems in simp)
    finally show ?thesis by simp
  qed
qed simp

lemma swap_longs_region: "0 < i \<Longrightarrow> apart a b (4 * i) \<Longrightarrow> swap_longs m a b i = region_swap m a b (4 * i)"
proof (induction i arbitrary: m a b)
  case (Suc i)
  have one: "store32 (store32 m a (load32 m b)) b (load32 m a) = region_swap m a b 4"
    by (rule swap_word) (use Suc.prems in \<open>auto simp: apart_def\<close>)
  show ?case
  proof (cases "i = 0")
    case True
    then show ?thesis using one by (subst swap_longs.simps) simp
  next
    case False
    then have "swap_longs m a b (Suc i) = swap_longs (region_swap m a b 4) (a + 4) (b + 4) i"
      using one by (subst swap_longs.simps) (simp add: Let_def)
    also have "\<dots> = region_swap (region_swap m a b 4) (a + 4) (b + 4) (4 * i)"
      by (rule Suc.IH) (use False Suc.prems in \<open>auto simp: apart_def\<close>)
    also have "\<dots> = region_swap m a b (4 + 4 * i)" by (rule region_swap_add) (use Suc.prems in simp)
    finally show ?thesis by simp
  qed
qed simp

lemma swapfunc_region:
  assumes "0 < n" "es dvd n" "apart a b n"
  shows "swapfunc m a b n (SWAPINIT base es) = region_swap m a b n"
proof (cases "SWAPINIT base es \<le> 1")
  case True
  then have "4 dvd es" by (auto simp: SWAPINIT_def split: if_splits)
  then have "4 dvd n" using assms(2) by (rule dvd_trans)
  then obtain i where "n = 4 * i" ..
  then show ?thesis using True assms swap_longs_region [of i a b m] by (simp add: swapfunc_def)
next
  case False
  then show ?thesis using assms swap_chars_region by (simp add: swapfunc_def)
qed

lemma swap_macro_region:
  assumes "0 < es" "apart a b es"
  shows "swap_macro m a b es (SWAPINIT base es) = region_swap m a b es"
proof (cases "SWAPINIT base es = 0")
  case True
  then have "es = 4" by (auto simp: SWAPINIT_def split: if_splits)
  then show ?thesis using True swap_word assms(2) by (simp add: swap_macro_def)
qed (use swapfunc_region [OF assms(1) dvd_refl assms(2)] in \<open>simp add: swap_macro_def\<close>)

text \<open>The exchange of regions on the elements.\<close>

lemma region_swap_elem:
  fixes K I J R es :: nat
  assumes t: "t < es" and ap: "I = J \<or> I + R \<le> J \<or> J + R \<le> I"
  shows "region_swap m (base + I * es) (base + J * es) (R * es) (base + K * es + t) =
    m (base + (if I \<le> K \<and> K < I + R then K - I + J else if J \<le> K \<and> K < J + R then K - J + I else K) * es + t)"
proof -
  have iff: "base + A * es \<le> base + K * es + t \<and> base + K * es + t < base + A * es + R * es \<longleftrightarrow> A \<le> K \<and> K < A + R" for A
  proof -
    have "A * es \<le> K * es + t \<longleftrightarrow> A \<le> K"
    proof
      assume "A * es \<le> K * es + t"
      then have "A * es < (K + 1) * es" using t by simp
      then have "A < K + 1" by (metis mult_less_cancel2)
      then show "A \<le> K" by simp
    next
      assume "A \<le> K"
      then have "A * es \<le> K * es" by (rule mult_le_mono1)
      then show "A * es \<le> K * es + t" by (rule trans_le_add1)
    qed
    moreover have "K * es + t < A * es + R * es \<longleftrightarrow> K < A + R"
    proof
      assume "K * es + t < A * es + R * es"
      then have "K * es < (A + R) * es" by (simp add: add_mult_distrib)
      then show "K < A + R" by (metis mult_less_cancel2)
    next
      assume "K < A + R"
      then have "(K + 1) * es \<le> (A + R) * es" by (intro mult_le_mono1) simp
      then show "K * es + t < A * es + R * es" using t by (simp add: add_mult_distrib)
    qed
    ultimately show ?thesis by simp
  qed
  have d: "base + B * es + (base + K * es + t - (base + A * es)) = base + (K - A + B) * es + t" if "A \<le> K" for A B
  proof -
    have "K * es = A * es + (K - A) * es" using that by (simp add: add_mult_distrib [symmetric])
    then show ?thesis by (simp add: add_mult_distrib)
  qed
  consider "I \<le> K \<and> K < I + R" | "\<not> (I \<le> K \<and> K < I + R)" "J \<le> K \<and> K < J + R"
    | "\<not> (I \<le> K \<and> K < I + R)" "\<not> (J \<le> K \<and> K < J + R)" by blast
  then show ?thesis
  proof cases
    case 1
    then show ?thesis using d [of I J] by (simp only: region_swap_def iff if_True simp_thms)
  next
    case 2
    then show ?thesis using d [of J I] by (simp only: region_swap_def iff if_True if_False simp_thms)
  qed (simp only: region_swap_def iff if_False)
qed

definition below :: "nat \<Rightarrow> mem \<Rightarrow> mem" where "below base m = (\<lambda>x. if x < base then m x else 0)"

text \<open>The operations in memory satisfy the laws of the sort.\<close>

lemma mem_env_array:
  assumes "comparison cmp D" and es: "0 < es"
  shows "sort_array cmp D (mem_env base es cmp) (elem_at base es) (below base)"
proof -
  have blocks: "elem_at base es (region_swap m (elem_ptr base es i) (elem_ptr base es j) (nat r * es)) k =
      (if k \<in> {i..<i + r} then elem_at base es m (k - i + j) else if k \<in> {j..<j + r} then elem_at base es m (k - j + i) else elem_at base es m k)"
    if h: "0 < r" "0 \<le> i" "0 \<le> j" "0 \<le> k" "i = j \<or> i + r \<le> j \<or> j + r \<le> i" for m i j r k
  proof -
    define I J K R where "I = nat i" and "J = nat j" and "K = nat k" and "R = nat r"
    have e: "i = int I" "j = int J" "k = int K" "r = int R" using h by (simp_all add: I_def J_def K_def R_def)
    have ap: "I = J \<or> I + R \<le> J \<or> J + R \<le> I" using h(5) unfolding e by linarith
    define K' where "K' = (if I \<le> K \<and> K < I + R then K - I + J else if J \<le> K \<and> K < J + R then K - J + I else K)"
    have k': "int K' = (if k \<in> {i..<i + r} then k - i + j else if k \<in> {j..<j + r} then k - j + i else k)"
      unfolding K'_def e by (simp add: of_nat_diff)
    have "elem_at base es (region_swap m (elem_ptr base es i) (elem_ptr base es j) (nat r * es)) k = elem_at base es m (int K')"
      using region_swap_elem [OF _ ap, of _ es m base K, folded K'_def] by (simp add: elem_at_def elem_ptr_def e)
    then show ?thesis unfolding k' by (simp split: if_splits)
  qed
  have ptrs: "apart (elem_ptr base es i) (elem_ptr base es j) (nat r * es)" if "0 \<le> i" "0 \<le> j" "0 \<le> r" "i = j \<or> i + r \<le> j \<or> j + r \<le> i" for i j r
  proof -
    have m: "x + nat r * es \<le> y" if "x = nat u * es" "y = nat v * es" "u + r \<le> v" "0 \<le> u" for x y u v
    proof -
      have "nat u + nat r \<le> nat v" using that(3,4) \<open>0 \<le> r\<close> by linarith
      then have "(nat u + nat r) * es \<le> nat v * es" by (rule mult_le_mono1)
      then show ?thesis using that by (simp add: add_mult_distrib)
    qed
    show ?thesis using that(4) m [OF refl refl, of i j] m [OF refl refl, of j i] that(1,2) by (auto simp: apart_def elem_ptr_def)
  qed
  have low: "below base (region_swap m (base + x) (base + y) z) = below base m" for m x y z
    by (auto simp: below_def region_swap_def fun_eq_iff)
  have one: "swap_elems (mem_env base es cmp) m i j = region_swap m (elem_ptr base es i) (elem_ptr base es j) es" if "0 \<le> i" "0 \<le> j" for m i j
  proof -
    have "i = j \<or> i + 1 \<le> j \<or> j + 1 \<le> i" by linarith
    then have "apart (elem_ptr base es i) (elem_ptr base es j) es" using ptrs [OF that, of 1] by simp
    then show ?thesis using swap_macro_region [OF es] by (simp add: mem_env_def Let_def)
  qed
  have vec: "vecswap (mem_env base es cmp) m i j r = region_swap m (elem_ptr base es i) (elem_ptr base es j) (nat r * es)"
    if "0 < r" "0 \<le> i" "i + r \<le> j" for m i j r
    using swapfunc_region [of "nat r * es" es "elem_ptr base es i" "elem_ptr base es j" m base] ptrs [of i j r] that es
    by (simp add: mem_env_def Let_def)
  show ?thesis
  proof (intro sort_array.intro assms(1) sort_array_axioms.intro)
    fix m :: mem and i j k :: int
    assume ij: "0 \<le> i" "0 \<le> j" 
    show "CMP (mem_env base es cmp) m i j = cmp (elem_at base es m i) (elem_at base es m j)" by (simp add: mem_env_def Let_def)
    show "below base (swap_elems (mem_env base es cmp) m i j) = below base m" unfolding one [OF ij] by (simp add: elem_ptr_def low)
    assume k: "0 \<le> k"
    have "i = j \<or> i + 1 \<le> j \<or> j + 1 \<le> i" by linarith
    then show "elem_at base es (swap_elems (mem_env base es cmp) m i j) k =
        (if k = i then elem_at base es m j else if k = j then elem_at base es m i else elem_at base es m k)"
      using blocks [of 1 i j k m] ij k unfolding one [OF ij] by auto
  next
    fix m :: mem and i j k r :: int
    assume r: "0 < r" "0 \<le> i" "i + r \<le> j"
    show "below base (vecswap (mem_env base es cmp) m i j r) = below base m" unfolding vec [OF r] by (simp add: elem_ptr_def low)
    assume k: "0 \<le> k"
    show "elem_at base es (vecswap (mem_env base es cmp) m i j r) k =
        (if k \<in> {i..<i + r} then elem_at base es m (k - i + j) else if k \<in> {j..<j + r} then elem_at base es m (k - j + i) else elem_at base es m k)"
      unfolding vec [OF r] using blocks [of r i j k m] r k by simp
  qed
qed

section \<open>bsearch\<close>

text \<open>
  The indices are \<open>size_t\<close>, so that \<open>lower + upper\<close> wraps around; \<open>cmp\<close> compares the key with the element
  of an index.
\<close>

partial_function (option) bsearch_loop :: "(u32 \<Rightarrow> int) \<Rightarrow> u32 \<Rightarrow> u32 \<Rightarrow> u32 option option" where
  "bsearch_loop cmp lower upper =
     (if lower < upper then
        (let index = (lower + upper) div 2; result = cmp index in
         if result < 0 then bsearch_loop cmp lower index
         else if result > 0 then bsearch_loop cmp (index + 1) upper
         else Some (Some index))
      else Some None)"

declare bsearch_loop.simps [code]

definition bsearch :: "mem \<Rightarrow> 'k \<Rightarrow> nat \<Rightarrow> u32 \<Rightarrow> nat \<Rightarrow> ('k \<Rightarrow> u8 list \<Rightarrow> int) \<Rightarrow> nat option option" where
  "bsearch m key base nmemb esize compar =
     (if nmemb = 0 \<or> esize = 0 then Some None
      else map_option (map_option (\<lambda>index. base + unat index * esize))
        (bsearch_loop (\<lambda>index. compar key (elem_at base esize m (int (unat index)))) 0 nmemb))"

text \<open>The key is not below \<open>lower\<close> and not at or above \<open>upper\<close>; without wrap-around the loop ends.\<close>

lemma bsearch_loop_ok:
  assumes "unat upper \<le> n" "n < 2 ^ 31" and mono: "\<And>i j. i < j \<Longrightarrow> j < n \<Longrightarrow> f i \<le> 0 \<Longrightarrow> f j \<le> 0 \<and> (f i < 0 \<longrightarrow> f j < 0)"
    and "\<And>i. i < unat lower \<Longrightarrow> f i > 0" "\<And>i. unat upper \<le> i \<Longrightarrow> i < n \<Longrightarrow> f i < 0"
  shows "\<exists>r. bsearch_loop (\<lambda>w. f (unat w)) lower upper = Some r \<and>
    (case r of None \<Rightarrow> \<forall>i < n. f i \<noteq> 0 | Some w \<Rightarrow> unat w < n \<and> f (unat w) = 0)"
  using assms(1,4,5)
proof (induction "unat upper - unat lower" arbitrary: lower upper rule: less_induct)
  case less
  show ?case
  proof (cases "lower < upper")
    case False
    then have "unat upper \<le> unat lower" by (simp add: word_less_nat_alt)
    then have "f i \<noteq> 0" if "i < n" for i using less.prems(2,3) [of i] that by (cases "i < unat lower") (fastforce, force)
    then show ?thesis using False by (subst bsearch_loop.simps) simp
  next
    case True
    define i where "i = (unat lower + unat upper) div 2"
    have lu: "unat lower < unat upper" "unat upper < 2 ^ 31" using True less.prems(1) assms(2) by (simp_all add: word_less_nat_alt)
    have i: "unat lower \<le> i" "i < unat upper" "i < n" using lu less.prems(1) unfolding i_def by auto
    have "unat (lower + upper) = unat lower + unat upper" using lu by (simp add: unat_word_ariths)
    then have ui: "unat ((lower + upper) div 2) = i" by (simp add: unat_div i_def)
    have ui1: "unat ((lower + upper) div 2 + 1) = i + 1" using ui i lu by (simp add: unat_word_ariths)
    consider "f i < 0" | "f i > 0" | "f i = 0" by linarith
    then show ?thesis
    proof cases
      case 1
      have "\<exists>r. bsearch_loop (\<lambda>w. f (unat w)) lower ((lower + upper) div 2) = Some r \<and>
        (case r of None \<Rightarrow> \<forall>i < n. f i \<noteq> 0 | Some w \<Rightarrow> unat w < n \<and> f (unat w) = 0)"
      proof (rule less.hyps)
        fix j assume "unat ((lower + upper) div 2) \<le> j" "j < n"
        then show "f j < 0" using 1 mono [of i j] ui by (cases "i = j") auto
      qed (use ui i lu less.prems(2) in auto)
      then show ?thesis using True 1 ui by (subst bsearch_loop.simps) (simp add: Let_def)
    next
      case 2
      have "\<exists>r. bsearch_loop (\<lambda>w. f (unat w)) ((lower + upper) div 2 + 1) upper = Some r \<and>
        (case r of None \<Rightarrow> \<forall>i < n. f i \<noteq> 0 | Some w \<Rightarrow> unat w < n \<and> f (unat w) = 0)"
      proof (rule less.hyps)
        fix j assume "j < unat ((lower + upper) div 2 + 1)"
        then have "j \<le> i" using ui1 by simp
        then show "f j > 0" using 2 mono [of j i] i by (cases "j = i") (auto simp: not_le [symmetric])
      qed (use ui1 i lu less.prems(1,3) in auto)
      then show ?thesis using True 2 ui by (subst bsearch_loop.simps) (simp add: Let_def)
    next
      case 3
      then show ?thesis using True ui i by (subst bsearch_loop.simps) (simp add: Let_def)
    qed
  qed
qed

section \<open>Properties\<close>

text \<open>The elements of the array as a list.\<close>

definition elems :: "mem \<Rightarrow> nat \<Rightarrow> nat \<Rightarrow> nat \<Rightarrow> u8 list list" where
  "elems m base n es = map (\<lambda>i. elem_at base es m (int i)) [0..<n]"

lemma mset_elems: "mset (elems m base n es) = image_mset (elem_at base es m) (mset_set {0..<int n})"
proof -
  have "mset_set {0..<int n} = mset_set (int ` {0..<n})" by (simp add: image_int_atLeastLessThan)
  also have "\<dots> = image_mset int (mset_set {0..<n})" by (rule image_mset_mset_set [symmetric]) (simp add: inj_on_def)
  finally have "mset_set {0..<int n} = image_mset int (mset_set {0..<n})" .
  moreover have "mset [0..<n] = mset_set {0..<n}" by (metis mset_set_set distinct_upt set_upt)
  ultimately show ?thesis by (simp add: elems_def multiset.map_comp comp_def)
qed

lemma qsort_elems:
  assumes "comparison cmp D" and "0 < es" and "set (elems m base n es) \<subseteq> D"
  defines "m' \<equiv> qsort m base n es cmp"
  shows "mset (elems m' base n es) = mset (elems m base n es)"
    and "sorted_wrt (\<lambda>x y. cmp x y \<le> 0) (elems m' base n es)"
    and "x < base \<or> base + n * es \<le> x \<Longrightarrow> m' x = m x"
proof -
  have "\<forall>k \<in> {0..<0 + int n}. elem_at base es m k \<in> D"
  proof
    fix k assume "k \<in> {0..<0 + int n}"
    then have k: "int (nat k) = k" "nat k < n" by auto
    have "elem_at base es m (int (nat k)) \<in> set (elems m base n es)"
      unfolding elems_def set_map by (rule imageI) (use k in simp)
    then show "elem_at base es m k \<in> D" using assms(3) unfolding k(1) by blast
  qed
  then have q: "sorted_on cmp 0 (int n) (elem_at base es m')" "moved (elem_at base es) (below base) 0 (int n) m m'"
    using sort_array.qsort_loop_ok [OF mem_env_array [OF assms(1,2)], of 0 "int n" base m] by (simp_all add: m'_def qsort_def)
  show "mset (elems m' base n es) = mset (elems m base n es)"
    using q(2) by (simp add: mset_elems moved_def rearranged_def)
  show "sorted_wrt (\<lambda>x y. cmp x y \<le> 0) (elems m' base n es)"
    using q(1) by (simp add: elems_def sorted_on_def sorted_wrt_iff_nth_less)
  show "m' x = m x" if "x < base \<or> base + n * es \<le> x"
    using that
  proof
    assume "x < base"
    moreover have "below base m' x = below base m x" using q(2) by (simp add: moved_def)
    ultimately show ?thesis by (simp add: below_def)
  next
    assume x: "base + n * es \<le> x"
    define k t where "k = (x - base) div es" and "t = (x - base) mod es"
    have "x - base = k * es + t" by (simp add: k_def t_def)
    then have e: "x = base + k * es + t" using x by linarith
    have t: "t < es" using assms(2) by (simp add: t_def)
    have "n * es div es \<le> k" unfolding k_def by (rule div_le_mono) (use x in linarith)
    then have "n \<le> k" using assms(2) by simp
    then have "elem_at base es m' (int k) = elem_at base es m (int k)" using moved_out [OF q(2), of "int k"] by simp
    then have "elem_at base es m' (int k) ! t = elem_at base es m (int k) ! t" by simp
    then show ?thesis using t by (simp add: elem_at_def elem_ptr_def e)
  qed
qed

text \<open>
  The instance: an array of \<open>char *\<close> whose elements point to strings in \<open>m\<close>, compared by \<open>strcmp\<close>.
\<close>

definition ptr_of :: "u8 list \<Rightarrow> nat" where "ptr_of bs = unat (load32 (\<lambda>k. bs ! k) 0)"

definition strcmp_ptrs :: "mem \<Rightarrow> u8 list \<Rightarrow> u8 list \<Rightarrow> int" where
  "strcmp_ptrs m x y = the (strcmp m (ptr_of x) (ptr_of y))"

interpretation strcmp_order: comparison "strcmp_ptrs m" "{x. \<exists>s. cstr m (ptr_of x) s}" for m
proof
  have sp: "strcmp_ptrs m x y = str_diff s t" "0 \<notin> set s" "0 \<notin> set t" if "cstr m (ptr_of x) s" "cstr m (ptr_of y) t" for x y s t
    using strcmp_str [OF that] that by (auto simp: strcmp_ptrs_def cstr_def)
  fix x y
  assume xy: "x \<in> {x. \<exists>s. cstr m (ptr_of x) s}" "y \<in> {x. \<exists>s. cstr m (ptr_of x) s}"
  then obtain s t where st: "cstr m (ptr_of x) s" "cstr m (ptr_of y) t" by blast
  show "strcmp_ptrs m x y < 0 \<longleftrightarrow> 0 < strcmp_ptrs m y x"
    using sp [OF st] sp [OF st(2,1)] str_diff_anti [of t s] by simp
  fix z assume z: "z \<in> {x. \<exists>s. cstr m (ptr_of x) s}" and le: "strcmp_ptrs m x y \<le> 0" "strcmp_ptrs m y z \<le> 0"
  from z obtain u where u: "cstr m (ptr_of z) u" by blast
  note p = sp [OF st] sp [OF st(2) u] sp [OF st(1) u]
  have "str_less s t \<or> s = t" using le(1) p str_diff_neg [of s t] str_diff_zero [of s t] by auto
  moreover have "str_less t u \<or> t = u" using le(2) p str_diff_neg [of t u] str_diff_zero [of t u] by auto
  ultimately have "str_less s u \<or> s = u" using str_less_trans by blast
  then show "strcmp_ptrs m x z \<le> 0" using p str_diff_neg [of s u] str_diff_zero [of s u] by auto
qed

interpretation ptr_array: sort_array "strcmp_ptrs m" "{x. \<exists>s. cstr m (ptr_of x) s}" "mem_env base 4 (strcmp_ptrs m)"
    "elem_at base 4" "below base" for m base
  by (rule mem_env_array [OF strcmp_order.comparison_axioms]) simp

text \<open>Four strings and an array of pointers to them.\<close>

definition demo_ptrs :: mem where
  "demo_ptrs = (\<lambda>_. 0)(100 := 112, 104 := 108, 108 := 116, 112 := 100, 116 := 99, 117 := 98)"

lemma demo_ptrs_elems: "elems demo_ptrs 100 3 4 = [[112, 0, 0, 0], [108, 0, 0, 0], [116, 0, 0, 0]]"
  by (simp add: elems_def elem_at_def elem_ptr_def demo_ptrs_def upt_rec)

lemma demo_ptrs_strings: "set (elems demo_ptrs 100 3 4) \<subseteq> {x. \<exists>s. cstr demo_ptrs (ptr_of x) s}"
proof -
  have "ptr_of [112, 0, 0, 0] = 112" "ptr_of [108, 0, 0, 0] = 108" "ptr_of [116, 0, 0, 0] = 116"
    by (simp_all add: ptr_of_def load32_def)
  moreover have "cstr demo_ptrs 112 [100]" "cstr demo_ptrs 108 [116]" "cstr demo_ptrs 116 [99, 98]"
    by (simp_all add: cstr_def demo_ptrs_def less_Suc_eq)
  ultimately show ?thesis unfolding demo_ptrs_elems by auto
qed

text \<open>C23: for every comparison function that is a total preorder on the elements, \<open>qsort\<close> leaves in the
  array a sorted rearrangement of the elements it found and changes no byte outside, for every base
  address and element size, in each of its three modes of exchange.\<close>

theorem qsort_correct:
  assumes "comparison cmp D" and "0 < es" and "set (elems m base n es) \<subseteq> D"
  shows "mset (elems (qsort m base n es cmp) base n es) = mset (elems m base n es) \<and>
    sorted_wrt (\<lambda>x y. cmp x y \<le> 0) (elems (qsort m base n es cmp) base n es) \<and>
    (\<forall>x. x < base \<or> base + n * es \<le> x \<longrightarrow> qsort m base n es cmp x = m x)"
  using qsort_elems [OF assms] by blast

theorem qsort_correct_witness:
  "sorted_wrt (\<lambda>x y. strcmp_ptrs demo_ptrs x y \<le> 0) (elems (qsort demo_ptrs 100 3 4 (strcmp_ptrs demo_ptrs)) 100 3 4)"
  using qsort_correct [OF strcmp_order.comparison_axioms _ demo_ptrs_strings] by simp

text \<open>C24: on an array that \<open>qsort\<close> sorted, \<open>bsearch\<close> with the same comparison returns, and it finds an
  element equal to the key exactly when the array had one before the sort. The result points to it.\<close>

theorem qsort_bsearch:
  assumes "comparison cmp D" and "0 < es" and "set (elems m base (unat n) es) \<subseteq> D" and "key \<in> D" and "unat n < 2 ^ 31"
  defines "m' \<equiv> qsort m base (unat n) es cmp"
  shows "\<exists>r. bsearch m' key base n es cmp = Some r \<and>
    (case r of None \<Rightarrow> \<forall>x \<in> set (elems m base (unat n) es). cmp key x \<noteq> 0
     | Some p \<Rightarrow> \<exists>i < unat n. p = base + i * es \<and> cmp key (elems m' base (unat n) es ! i) = 0 \<and>
         elems m' base (unat n) es ! i \<in> set (elems m base (unat n) es))"
proof -
  note q = qsort_elems [OF assms(1-3), folded m'_def]
  define N where "N = unat n"
  define f where "f i = cmp key (elem_at base es m' (int i))" for i
  have el: "elems m' base N es ! i = elem_at base es m' (int i)" if "i < N" for i using that by (simp add: elems_def)
  have st: "set (elems m' base N es) = set (elems m base N es)" using q(1) by (metis N_def set_mset_mset)
  have inD: "elem_at base es m' (int i) \<in> D" if "i < N" for i
  proof -
    have "elems m' base N es ! i \<in> set (elems m' base N es)" by (rule nth_mem) (use that in \<open>simp add: elems_def\<close>)
    then show ?thesis using el [OF that] st assms(3) by (auto simp: N_def)
  qed
  have mono: "f j \<le> 0 \<and> (f i < 0 \<longrightarrow> f j < 0)" if ij: "i < j" "j < N" "f i \<le> 0" for i j
  proof -
    have D: "elem_at base es m' (int i) \<in> D" "elem_at base es m' (int j) \<in> D" using inD ij by auto
    have le: "cmp (elem_at base es m' (int i)) (elem_at base es m' (int j)) \<le> 0"
      using q(2) ij el [of i] el [of j] by (auto simp: N_def sorted_wrt_iff_nth_less elems_def)
    have fj: "f j \<le> 0" using comparison.trans [OF assms(1) assms(4) D _ le] ij(3) by (simp add: f_def)
    moreover have "f j < 0" if "f i < 0"
    proof (rule ccontr)
      assume "\<not> f j < 0"
      then have "cmp (elem_at base es m' (int j)) key \<le> 0" using comparison.flip [OF assms(1) assms(4) D(2)] by (simp add: f_def)
      then have "cmp (elem_at base es m' (int i)) key \<le> 0" by (rule comparison.trans [OF assms(1) D assms(4) le])
      then have "0 \<le> f i" using comparison.flip [OF assms(1) assms(4) D(1)] by (simp add: f_def)
      then show False using that by simp
    qed
    ultimately show ?thesis by simp
  qed
  obtain r where r: "bsearch_loop (\<lambda>w. f (unat w)) 0 n = Some r"
    "case r of None \<Rightarrow> \<forall>i < N. f i \<noteq> 0 | Some w \<Rightarrow> unat w < N \<and> f (unat w) = 0"
    using bsearch_loop_ok [of n N f 0] mono assms(5) by (auto simp: N_def)
  show ?thesis
  proof (cases "n = 0")
    case True
    then show ?thesis by (auto simp: bsearch_def elems_def)
  next
    case False
    then have run: "bsearch m' key base n es cmp = Some (map_option (\<lambda>w. base + unat w * es) r)"
      using r(1) assms(2) by (simp add: bsearch_def f_def)
    show ?thesis
    proof (cases r)
      case None
      have "cmp key x \<noteq> 0" if "x \<in> set (elems m base N es)" for x
      proof -
        have "x \<in> set (elems m' base N es)" using that st by simp
        then obtain i where "i < N" "x = elem_at base es m' (int i)" by (auto simp: elems_def)
        then show ?thesis using r(2) None by (simp add: f_def)
      qed
      then show ?thesis using run None by (simp add: N_def)
    next
      case (Some w)
      have w: "unat w < N" "f (unat w) = 0" using r(2) Some by simp_all
      have "elems m' base N es ! unat w \<in> set (elems m base N es)"
        using st nth_mem [of "unat w" "elems m' base N es"] w(1) by (simp add: elems_def)
      then show ?thesis using run Some w el [OF w(1)] by (auto simp: N_def f_def)
    qed
  qed
qed

theorem qsort_bsearch_witness:
  "\<exists>r. bsearch (qsort demo_ptrs 100 3 4 (strcmp_ptrs demo_ptrs)) [116, 0, 0, 0] 100 3 4 (strcmp_ptrs demo_ptrs) = Some r"
proof -
  have "set (elems demo_ptrs 100 (unat (3 :: u32)) 4) \<subseteq> {x. \<exists>s. cstr demo_ptrs (ptr_of x) s}"
    using demo_ptrs_strings by simp
  moreover have "[116, 0, 0, 0] \<in> {x. \<exists>s. cstr demo_ptrs (ptr_of x) s}"
    using demo_ptrs_strings unfolding demo_ptrs_elems by simp
  ultimately show ?thesis
    using qsort_bsearch [OF strcmp_order.comparison_axioms, of 4 demo_ptrs 100 3 demo_ptrs "[116, 0, 0, 0]"] by fastforce
qed

end
