(* ===== verification/Gmtime.thy ===== *)
theory Gmtime
  imports Prelude "HOL-Library.Signed_Division"
begin

text \<open>
  The calendar: \<open>gmtime_r\<close> (\<open>time/gmtime_r.c\<close>) with the tables and macros of \<open>time/month_lengths.c\<close> and
  \<open>time/local.h\<close>, against the Gregorian calendar as a count of days. A \<open>time_t\<close> is a 32-bit \<open>long\<close>;
  C's division truncates, so it is \<open>sdiv\<close> and \<open>smod\<close> here, and agrees with \<open>div\<close> and \<open>mod\<close> only after
  the corrections the code makes.
\<close>

section \<open>The broken-down time\<close>

record tm =
  tm_sec :: int
  tm_min :: int
  tm_hour :: int
  tm_mday :: int
  tm_mon :: int
  tm_year :: int
  tm_wday :: int
  tm_yday :: int
  tm_isdst :: int

definition isleap :: "int \<Rightarrow> bool" where
  "isleap y = (y smod 4 = 0 \<and> y smod 100 \<noteq> 0 \<or> y smod 400 = 0)"

definition month_lengths :: "bool \<Rightarrow> int list" where
  "month_lengths leap =
     (if leap then [31, 29, 31, 30, 31, 30, 31, 31, 30, 31, 30, 31]
      else [31, 28, 31, 30, 31, 30, 31, 31, 30, 31, 30, 31])"

section \<open>gmtime\<close>

definition days_rem :: "int \<Rightarrow> int \<times> int" where
  "days_rem lcltime =
     (let days = lcltime sdiv 86400 + 719468; rem = lcltime smod 86400
      in if rem < 0 then (days - 1, rem + 86400) else (days, rem))"

definition gmtime_r :: "int \<Rightarrow> tm" where
  "gmtime_r lcltime =
     (let (days, rem) = days_rem lcltime;
          hour = rem sdiv 3600; rem1 = rem smod 3600;
          weekday = (3 + days) smod 7;
          era = (if 0 \<le> days then days else days - (146097 - 1)) sdiv 146097;
          eraday = days - era * 146097;
          erayear = (eraday - eraday sdiv ((3 * 365 + 366) - 1) + eraday sdiv 36524 - eraday sdiv (146097 - 1)) sdiv 365;
          yearday = eraday - (365 * erayear + erayear sdiv 4 - erayear sdiv 100);
          month0 = (5 * yearday + 2) sdiv 153;
          day = yearday - (153 * month0 + 2) sdiv 5 + 1;
          month = (if month0 < 10 then month0 + 2 else month0 - 10);
          year = erayear + era * 400 + (if month \<le> 1 then 1 else 0)
      in \<lparr>tm_sec = rem1 smod 60, tm_min = rem1 sdiv 60, tm_hour = hour, tm_mday = day, tm_mon = month,
          tm_year = year - 1900, tm_wday = (if weekday < 0 then weekday + 7 else weekday),
          tm_yday = (if 365 - 31 - 28 \<le> yearday then yearday - (365 - 31 - 28)
                     else yearday + 31 + 28 + (if isleap erayear then 1 else 0)),
          tm_isdst = 0\<rparr>)"

section \<open>The Gregorian calendar\<close>

definition leap_year :: "int \<Rightarrow> bool" where
  "leap_year y \<longleftrightarrow> 4 dvd y \<and> \<not> 100 dvd y \<or> 400 dvd y"

definition year_len :: "int \<Rightarrow> int" where "year_len y = (if leap_year y then 366 else 365)"

text \<open>The number of the first day of a year, from the first of January 1970.\<close>

definition year_start :: "int \<Rightarrow> int" where
  "year_start y = 365 * (y - 1970) + (y - 1) div 4 - (y - 1) div 100 + (y - 1) div 400 - 477"

definition month_start :: "bool \<Rightarrow> nat \<Rightarrow> int" where
  "month_start leap mon = sum_list (take mon (month_lengths leap))"

definition civil_day :: "int \<Rightarrow> int \<Rightarrow> int \<Rightarrow> int" where
  "civil_day y mon mday = year_start y + month_start (leap_year y) (nat mon) + mday - 1"

definition tm_day :: "tm \<Rightarrow> int" where
  "tm_day t = civil_day (tm_year t + 1900) (tm_mon t) (tm_mday t)"

definition tm_clock :: "tm \<Rightarrow> int" where
  "tm_clock t = tm_hour t * 3600 + tm_min t * 60 + tm_sec t"

definition tm_seconds :: "tm \<Rightarrow> int" where "tm_seconds t = tm_day t * 86400 + tm_clock t"

definition tm_valid :: "tm \<Rightarrow> bool" where
  "tm_valid t \<longleftrightarrow> 0 \<le> tm_sec t \<and> tm_sec t < 60 \<and> 0 \<le> tm_min t \<and> tm_min t < 60 \<and>
     0 \<le> tm_hour t \<and> tm_hour t < 24 \<and> 0 \<le> tm_mon t \<and> tm_mon t < 12 \<and>
     1 \<le> tm_mday t \<and> tm_mday t \<le> month_lengths (leap_year (tm_year t + 1900)) ! nat (tm_mon t)"

definition tm_derived :: "tm \<Rightarrow> bool" where
  "tm_derived t \<longleftrightarrow> tm_wday t = (4 + tm_day t) mod 7 \<and>
     tm_yday t = tm_day t - year_start (tm_year t + 1900)"

lemma year_start_1970: "year_start 1970 = 0" by (simp add: year_start_def)

lemma div_step: "0 < k \<Longrightarrow> y div k = (y - 1) div k + (if k dvd y then 1 else (0 :: int))"
proof -
  assume k: "0 < k"
  have "y div k = (y - 1) div k + (if y mod k = 0 then 1 else 0)"
  proof (cases "k dvd y")
    case True
    then obtain q where "y = k * q" by auto
    moreover have "(k * q - 1) div k = q - 1"
      by (rule int_div_pos_eq [of _ _ _ "k - 1"]) (use k in \<open>auto simp: algebra_simps\<close>)
    ultimately show ?thesis using k by simp
  next
    case False
    then have m: "0 < y mod k" using k pos_mod_sign [of k y] by (metis dvd_eq_mod_eq_0 le_less)
    have b: "y mod k < k" using k by simp
    have "(y - 1) div k = y div k"
      by (rule int_div_pos_eq [of _ _ _ "y mod k - 1"]) (use k m b div_mult_mod_eq [of y k] in \<open>auto simp: algebra_simps\<close>)
    then show ?thesis using False by (simp add: dvd_eq_mod_eq_0)
  qed
  then show ?thesis by (simp add: dvd_eq_mod_eq_0)
qed

lemma year_start_Suc: "year_start (y + 1) = year_start y + year_len y"
proof -
  have "400 dvd y \<Longrightarrow> 100 dvd y" "100 dvd y \<Longrightarrow> 4 dvd y" by (auto intro: dvd_trans)
  then show ?thesis
    using div_step [of 4 y] div_step [of 100 y] div_step [of 400 y]
    by (auto simp: year_start_def year_len_def leap_year_def)
qed

section \<open>Truncating division\<close>

lemma sdiv_smod_pos: "0 \<le> a \<Longrightarrow> 0 \<le> b \<Longrightarrow> a sdiv b = a div (b :: int) \<and> a smod b = a mod b"
  by (auto simp: signed_divide_int_def signed_modulo_int_def sgn_if)

lemma sdiv_smod_neg: "0 < a \<Longrightarrow> 0 \<le> b \<Longrightarrow> (- a) sdiv b = - (a div (b :: int)) \<and> (- a) smod b = - (a mod b)"
  by (auto simp: signed_divide_int_def signed_modulo_int_def sgn_if)

text \<open>The correction of a negative remainder, and the test for divisibility.\<close>

lemma sdiv_floor:
  assumes "0 < (b :: int)"
  shows "(if a smod b < 0 then (a sdiv b - 1, a smod b + b) else (a sdiv b, a smod b)) = (a div b, a mod b)"
proof (cases "0 \<le> a")
  case True
  moreover have "\<not> a mod b < 0" using assms by (simp add: not_less)
  ultimately show ?thesis using assms by (simp add: sdiv_smod_pos)
next
  case False
  define c where "c = - a"
  have c: "a = - c" "0 < c" using False by (simp_all add: c_def)
  have "0 \<le> c mod b" "c mod b < b" using assms by simp_all
  then show ?thesis using assms sdiv_smod_neg [of c b] c
    by (auto simp: zdiv_zminus1_eq_if zmod_zminus1_eq_if less_le)
qed

lemma smod_dvd: "0 < (b :: int) \<Longrightarrow> a smod b = 0 \<longleftrightarrow> b dvd a"
  by (simp add: signed_modulo_int_def sgn_if dvd_eq_mod_eq_0 [symmetric])

lemma isleap_leap_year: "isleap y = leap_year y"
  by (auto simp: isleap_def leap_year_def smod_dvd)

lemma days_rem_floor: "days_rem t = (t div 86400 + 719468, t mod 86400)"
  using sdiv_floor [of 86400 t] by (auto simp: days_rem_def Let_def split: if_splits)

section \<open>The algorithm for the year\<close>

text \<open>The first of March of the year \<open>Y\<close> of an era, from the start of the era.\<close>

definition march_start :: "int \<Rightarrow> int" where "march_start Y = 365 * Y + Y div 4 - Y div 100"

text \<open>A day of the era in centuries, cycles of four years and years.\<close>

lemma era_split:
  assumes "0 \<le> E" and "E < 146097"
  obtains c q s y where "E = 36524 * c + 1461 * q + s" "0 \<le> c" "c \<le> 3" "0 \<le> q" "q \<le> 24" "0 \<le> s" "s \<le> 1460"
    "365 * y \<le> s" "s \<le> 365 * y + (if y = 3 then 365 else 364)" "0 \<le> y" "y \<le> (3 :: int)"
    "c < 3 \<Longrightarrow> 1461 * q + s \<le> 36523"
proof -
  define c where "c = min 3 (E div 36524)"
  define R where "R = E - 36524 * c"
  have c: "0 \<le> c" "c \<le> 3" "0 \<le> R" "R \<le> 36524" "c < 3 \<Longrightarrow> R \<le> 36523"
    using assms by (auto simp: c_def R_def min_def)
  define q where "q = R div 1461"
  define s where "s = R mod 1461"
  have q: "R = 1461 * q + s" "0 \<le> s" "s \<le> 1460" "0 \<le> q" "q \<le> 24"
    using c by (auto simp: q_def s_def)
  define y where "y = min 3 (s div 365)"
  have y: "365 * y \<le> s" "s \<le> 365 * y + (if y = 3 then 365 else 364)" "0 \<le> y" "y \<le> 3"
    using q by (auto simp: y_def min_def)
  show ?thesis by (rule that [of c q s y]) (use c q y R_def in auto)
qed

lemma era_year:
  assumes "0 \<le> E" and "E < 146097"
  defines "Y \<equiv> (E - E div 1460 + E div 36524 - E div 146096) div 365"
  shows "0 \<le> Y" and "Y < 400" and "march_start Y \<le> E" and "E \<le> march_start Y + 365"
    and "E = march_start Y + 365 \<Longrightarrow> leap_year (Y + 1)"
proof -
  obtain c q s y where e: "E = 36524 * c + 1461 * q + s" and b: "0 \<le> c" "c \<le> 3" "0 \<le> q" "q \<le> 24" "0 \<le> s" "s \<le> 1460"
    and y: "365 * y \<le> s" "s \<le> 365 * y + (if y = 3 then 365 else 364)" "0 \<le> y" "y \<le> (3 :: int)"
    and c3: "c < 3 \<Longrightarrow> 1461 * q + s \<le> 36523" using era_split [OF assms(1,2)] by blast
  define d where "d = (if 1460 \<le> 24 * c + q + s then 1 else 0 :: int)"
  have "E div 1460 = 25 * c + q + d"
    by (rule int_div_pos_eq [of _ _ _ "24 * c + q + s - 1460 * d"]) (use e b in \<open>auto simp: d_def\<close>)
  moreover have "E div 36524 - E div 146096 = c"
  proof (cases "E = 146096")
    case True
    then have "c = 3" using e b c3 by linarith
    then show ?thesis using True by simp
  next
    case False
    then have "E div 146096 = 0" using assms by simp
    moreover have "E div 36524 = c"
      by (rule int_div_pos_eq [of _ _ _ "1461 * q + s"])
        (use e b c3 False assms(2) in \<open>(cases "c < 3"; linarith)+\<close>)
    ultimately show ?thesis by simp
  qed
  ultimately have n: "E - E div 1460 + E div 36524 - E div 146096 = 365 * (100 * c + 4 * q + y) + (s - d - 365 * y)"
    using e by simp
  have "0 \<le> s - d - 365 * y \<and> s - d - 365 * y < 365" using b y by (auto simp: d_def split: if_splits)
  then have Y: "Y = 100 * c + 4 * q + y" unfolding Y_def n by (intro int_div_pos_eq [of _ _ _ "s - d - 365 * y"]) auto
  have "Y div 4 = 25 * c + q" by (rule int_div_pos_eq [of _ _ _ y]) (use Y y in auto)
  moreover have "Y div 100 = c" by (rule int_div_pos_eq [of _ _ _ "4 * q + y"]) (use Y y b in auto)
  ultimately have M: "march_start Y = 36524 * c + 1461 * q + 365 * y" by (simp add: march_start_def Y)
  show "0 \<le> Y" "Y < 400" "march_start Y \<le> E" "E \<le> march_start Y + 365" using Y M e b y by (auto split: if_splits)
  show "leap_year (Y + 1)" if "E = march_start Y + 365"
  proof -
    have s: "s = 1460" "y = 3" using that M e y by (auto split: if_splits)
    then have Y1: "Y + 1 = 4 * (25 * c + q + 1)" using Y by simp
    show ?thesis
    proof (cases "q = 24")
      case True
      then have "c = 3" using c3 s b by linarith
      then show ?thesis using True Y1 by (simp add: leap_year_def)
    next
      case False
      have "(Y + 1) div 100 = c" "(Y + 1) mod 100 = 4 * (q + 1)"
        using Y1 False b by (auto intro: int_div_pos_eq int_mod_pos_eq)
      then have "\<not> 100 dvd Y + 1" using b by (simp add: dvd_eq_mod_eq_0)
      moreover have "4 dvd Y + 1" unfolding Y1 by (rule dvd_triv_left)
      ultimately show ?thesis unfolding leap_year_def by blast
    qed
  qed
qed

section \<open>The algorithm for the month\<close>

text \<open>Months are counted from March; the first day of the month \<open>mp\<close> is \<open>(153 * mp + 2) div 5\<close>.\<close>

lemma month_split:
  assumes "0 \<le> yd" and "yd \<le> 365" and "mp = (5 * yd + 2) div 153" and "day = yd - (153 * mp + 2) div 5 + 1"
  shows "0 \<le> mp" and "mp \<le> 11" and "1 \<le> day" and "day \<le> (153 * (mp + 1) + 2) div 5 - (153 * mp + 2) div (5 :: int)"
proof -
  have m: "153 * mp \<le> 5 * yd + 2" "5 * yd + 2 < 153 * (mp + 1)" using assms(3) by auto
  show "0 \<le> mp" "mp \<le> 11" using assms by auto
  have "(153 * mp + 2) div 5 \<le> yd" using m by linarith
  then show "1 \<le> day" using assms(4) by simp
  have "yd + 1 \<le> (153 * (mp + 1) + 2) div 5" using m by linarith
  then show "day \<le> (153 * (mp + 1) + 2) div 5 - (153 * mp + 2) div 5" using assms(4) by simp
qed

lemma month_march:
  assumes "0 \<le> mp" and "mp < 10"
  shows "month_start leap (nat (mp + 2)) = 59 + (if leap then 1 else 0) + (153 * mp + 2) div 5"
    and "month_lengths leap ! nat (mp + 2) = (153 * (mp + 1) + 2) div 5 - (153 * mp + 2) div 5"
proof -
  have "mp = 0 \<or> mp = 1 \<or> mp = 2 \<or> mp = 3 \<or> mp = 4 \<or> mp = 5 \<or> mp = 6 \<or> mp = 7 \<or> mp = 8 \<or> mp = 9" using assms by arith
  then show "month_start leap (nat (mp + 2)) = 59 + (if leap then 1 else 0) + (153 * mp + 2) div 5"
    "month_lengths leap ! nat (mp + 2) = (153 * (mp + 1) + 2) div 5 - (153 * mp + 2) div 5"
    by (elim disjE; simp add: month_start_def month_lengths_def numeral_2_eq_2 [symmetric])+
qed

lemma month_january:
  assumes "10 \<le> mp" and "mp \<le> 11"
  shows "month_start leap (nat (mp - 10)) = (153 * mp + 2) div 5 - 306"
    and "month_lengths leap ! nat (mp - 10) = (if mp = 10 then 31 else if leap then 29 else 28)"
proof -
  have "mp = 10 \<or> mp = 11" using assms by arith
  then show "month_start leap (nat (mp - 10)) = (153 * mp + 2) div 5 - 306"
    "month_lengths leap ! nat (mp - 10) = (if mp = 10 then 31 else if leap then 29 else 28)"
    by (elim disjE; simp add: month_start_def month_lengths_def)+
qed

text \<open>The era \<open>e\<close> has 146097 days; its years begin in March.\<close>

lemma leap_year_era: "leap_year (x + e * 400) = leap_year x"
proof -
  have "k dvd x + e * 400 \<longleftrightarrow> k dvd x" if "k dvd 400" for k :: int
    using that by (intro dvd_add_left_iff dvd_mult)
  from this [of 4] this [of 100] this [of 400] show ?thesis by (simp add: leap_year_def)
qed

lemma era_march:
  assumes "0 \<le> Y" and "Y < 400"
  shows "year_start (Y + e * 400 + 1) - 306 = march_start Y + e * 146097 - 719468"
proof -
  have d: "(Y + e * 400) div 4 = Y div 4 + e * 100" "(Y + e * 400) div 100 = Y div 100 + e * 4"
    using div_mult_self1 [of 4 Y "e * 100"] div_mult_self1 [of 100 Y "e * 4"] by simp_all
  have d400: "(Y + e * 400) div 400 = e" by (rule int_div_pos_eq [of _ _ _ Y]) (use assms in simp_all)
  have "year_start (Y + e * 400 + 1) =
      365 * (Y + e * 400 - 1969) + (Y + e * 400) div 4 - (Y + e * 400) div 100 + (Y + e * 400) div 400 - 477"
    unfolding year_start_def by simp
  then show ?thesis unfolding d d400 march_start_def by (simp add: algebra_simps)
qed

lemma year_length: "year_start (y + 1) = year_start y + (if leap_year y then 366 else 365)"
  using year_start_Suc by (simp add: year_len_def)

text \<open>The computation of the date from the number of the day since 1 March 0000.\<close>

lemma civil_from_days:
  fixes days :: int
  defines "era \<equiv> days div 146097" and "E \<equiv> days mod 146097"
  defines "Y \<equiv> (E - E div 1460 + E div 36524 - E div 146096) div 365"
  defines "yd \<equiv> E - march_start Y"
  defines "mp \<equiv> (5 * yd + 2) div 153"
  defines "mday \<equiv> yd - (153 * mp + 2) div 5 + 1"
  defines "mon \<equiv> (if mp < 10 then mp + 2 else mp - 10)"
  defines "y \<equiv> Y + era * 400 + (if mon \<le> 1 then 1 else 0)"
  defines "yday \<equiv> (if 306 \<le> yd then yd - 306 else yd + 59 + (if leap_year Y then 1 else 0))"
  shows "0 \<le> mon" and "mon < 12" and "1 \<le> mday" and "mday \<le> month_lengths (leap_year y) ! nat mon"
    and "civil_day y mon mday = days - 719468" and "yday = days - 719468 - year_start y"
    and "0 \<le> Y" and "0 \<le> yd" and "0 \<le> E"
proof -
  have E: "0 \<le> E" "E < 146097" "days = era * 146097 + E" by (simp_all add: E_def era_def)
  note Y = era_year [OF E(1,2), folded Y_def]
  have yd: "0 \<le> yd" "yd \<le> 365" using Y by (simp_all add: yd_def)
  note m = month_split [OF yd meta_eq_to_obj_eq [OF mp_def] meta_eq_to_obj_eq [OF mday_def]]
  note ma = era_march [OF Y(1,2), of era]
  have d: "days - 719468 = year_start (Y + era * 400 + 1) - 306 + yd" using ma E(3) by (simp add: yd_def)
  have "0 \<le> mon \<and> mon < 12 \<and> mday \<le> month_lengths (leap_year y) ! nat mon \<and>
    civil_day y mon mday = days - 719468 \<and> yday = days - 719468 - year_start y"
  proof (cases "mp < 10")
    case True
    then have y: "mon = mp + 2" "y = Y + era * 400" using m(1) by (simp_all add: mon_def y_def)
    have "yd \<le> (153 * (mp + 1) + 2) div 5 - 1" using m(4) by (simp add: mday_def)
    moreover have "(153 * (mp + 1) + 2) div 5 \<le> 1532 div 5" by (rule zdiv_mono1) (use True in simp_all)
    ultimately have "\<not> 306 \<le> yd" by simp
    then show ?thesis using month_march [OF m(1) True, of "leap_year y"] m True d leap_year_era [of Y era] year_length [of y]
      by (simp add: y civil_day_def yday_def mday_def)
  next
    case False
    then have y: "mon = mp - 10" "y = Y + era * 400 + 1" using m(2) by (simp_all add: mon_def y_def)
    have mp: "mp = 10 \<or> mp = 11" using False m(2) by arith
    have "306 \<le> (153 * mp + 2) div 5" using mp by auto
    then have yd306: "306 \<le> yd" using m(3) by (simp add: mday_def)
    have "mday \<le> 28 \<or> leap_year y \<and> mday \<le> 29" if "mp = 11"
    proof (cases "yd = 365")
      case True
      then have "leap_year (Y + 1)" by (intro Y(5)) (simp add: yd_def)
      then have "leap_year y" using leap_year_era [of "Y + 1" era] by (simp add: y algebra_simps)
      then show ?thesis using True that by (simp add: mday_def)
    next
      case False
      then show ?thesis using that yd by (simp add: mday_def)
    qed
    moreover have "mday \<le> 31" if "mp = 10" using m(4) that by simp
    ultimately have "mday \<le> month_lengths (leap_year y) ! nat mon"
      using month_january(2) [of mp "leap_year y"] mp y(1) by auto
    then show ?thesis using month_january(1) [of mp "leap_year y"] m False d yd306
      by (simp add: y civil_day_def yday_def mday_def)
  qed
  then show "0 \<le> mon" "mon < 12" "mday \<le> month_lengths (leap_year y) ! nat mon"
    "civil_day y mon mday = days - 719468" "yday = days - 719468 - year_start y" by blast+
  show "1 \<le> mday" "0 \<le> Y" "0 \<le> yd" "0 \<le> E" using m(3) Y(1) yd(1) E(1) by simp_all
qed

section \<open>gmtime\<close>

text \<open>The code's expressions without truncating division; all of them are of numbers that are not negative.\<close>

lemma era_sdiv: "(if 0 \<le> days then days else days - (146097 - 1)) sdiv 146097 = days div (146097 :: int)"
proof (cases "0 \<le> days")
  case True
  then show ?thesis by (simp add: sdiv_smod_pos)
next
  case False
  have "0 \<le> days mod 146097" "days mod 146097 < 146097" by simp_all
  then have "(146096 - days) div 146097 = - (days div 146097)"
    by (intro int_div_pos_eq [of _ _ _ "146096 - days mod 146097"]) (use div_mult_mod_eq [of days 146097] in linarith)+
  then show ?thesis using False sdiv_smod_neg [of "146096 - days" 146097] by simp
qed

lemma weekday_mod: "(let w = x smod 7 in if w < 0 then w + 7 else w) = x mod (7 :: int)"
  using sdiv_floor [of 7 x] by (auto simp: Let_def split: if_splits)

text \<open>
  \<open>gmtime_r\<close> on any number of seconds: the fields are a valid date and time of day, and they denote the
  number that was converted.
\<close>

lemma gmtime_r_civil:
  fixes t :: int
  defines "r \<equiv> gmtime_r t"
  shows "tm_valid r" and "tm_seconds r = t" and "tm_derived r" and "tm_isdst r = 0"
proof -
  define days where "days = t div 86400 + 719468"
  define rem where "rem = t mod 86400"
  have rem: "0 \<le> rem" "rem < 86400" by (simp_all add: rem_def)
  define era where "era = days div 146097"
  define E where "E = days mod 146097"
  define Y where "Y = (E - E div 1460 + E div 36524 - E div 146096) div 365"
  define yd where "yd = E - march_start Y"
  define mp where "mp = (5 * yd + 2) div 153"
  define mday where "mday = yd - (153 * mp + 2) div 5 + 1"
  define mon where "mon = (if mp < 10 then mp + 2 else mp - 10)"
  define y where "y = Y + era * 400 + (if mon \<le> 1 then 1 else 0)"
  define yday where "yday = (if 306 \<le> yd then yd - 306 else yd + 59 + (if leap_year Y then 1 else 0))"
  note defs = days_def era_def E_def Y_def yd_def mp_def mday_def mon_def y_def yday_def
  note civil = civil_from_days [of days, folded era_def E_def, folded Y_def, folded yd_def, folded mp_def,
      folded mday_def mon_def, folded y_def yday_def]
  have r: "r = \<lparr>tm_sec = rem mod 3600 mod 60, tm_min = rem mod 3600 div 60, tm_hour = rem div 3600, tm_mday = mday,
      tm_mon = mon, tm_year = y - 1900, tm_wday = (3 + days) mod 7, tm_yday = yday, tm_isdst = 0\<rparr>"
  proof -
    have E': "days - era * 146097 = E" unfolding era_def E_def by (rule minus_div_mult_eq_mod)
    have pos: "0 \<le> E" "0 \<le> Y" "0 \<le> yd" by (rule civil)+
    have "0 \<le> E - E div 1460 + E div 36524 - E div 146096" using pos(2) by (simp add: Y_def pos_imp_zdiv_nonneg_iff)
    then have Y': "(E - E sdiv ((3 * 365 + 366) - 1) + E sdiv 36524 - E sdiv (146097 - 1)) sdiv 365 = Y"
      using pos(1) by (simp add: sdiv_smod_pos Y_def)
    have yd': "E - (365 * Y + Y sdiv 4 - Y sdiv 100) = yd" using pos by (simp add: sdiv_smod_pos yd_def march_start_def)
    have mp': "(5 * yd + 2) sdiv 153 = mp" using pos by (simp add: sdiv_smod_pos mp_def)
    have "0 \<le> mp" using pos by (simp add: mp_def)
    then have mday': "yd - (153 * mp + 2) sdiv 5 + 1 = mday" by (simp add: sdiv_smod_pos mday_def)
    have tod: "rem sdiv 3600 = rem div 3600" "rem smod 3600 = rem mod 3600" "rem mod 3600 smod 60 = rem mod 3600 mod 60"
      "rem mod 3600 sdiv 60 = rem mod 3600 div 60" using rem by (simp_all add: sdiv_smod_pos)
    show ?thesis
      unfolding r_def gmtime_r_def days_rem_floor days_def [symmetric] rem_def [symmetric] Let_def prod.case era_sdiv
        era_def [symmetric] E' Y' yd' mp' mday' tod mon_def [symmetric] y_def [symmetric] isleap_leap_year
        weekday_mod [unfolded Let_def]
      by (simp add: yday_def)
  qed
  have day: "tm_day r = days - 719468" using civil(5) by (simp add: tm_day_def r)
  have clock: "0 \<le> s div 60 \<and> s div 60 < 60 \<and> 0 \<le> s mod 60 \<and> s mod 60 < 60 \<and> s div 60 * 60 + s mod 60 = s"
    if "0 \<le> s" "s < 3600" for s :: int using that by (auto simp: pos_imp_zdiv_nonneg_iff)
  note c = clock [of "rem mod 3600", simplified]
  have h: "0 \<le> rem div 3600" "rem div 3600 < 24" "rem div 3600 * 3600 + rem mod 3600 = rem" using rem by simp_all
  show "tm_valid r" using civil(1-4) h c by (simp add: tm_valid_def r)
  have "tm_clock r = rem" using h c by (simp add: tm_clock_def r)
  then show "tm_seconds r = t" by (simp add: tm_seconds_def day days_def rem_def)
  have "(3 + days) mod 7 = (days - 719464) mod 7" using mod_mult_self1 [of "days - 719464" 102781 7] by simp
  then show "tm_derived r" using civil(6) by (simp add: tm_derived_def day) (simp add: r)
  show "tm_isdst r = 0" by (simp add: r)
qed

text \<open>C8: \<open>gmtime_r\<close> is right for every time: its fields are a valid date of the Gregorian calendar and a
  valid time of day, they denote the time that was converted, and the day of the week and of the year
  are those of the date.\<close>

theorem gmtime_correct:
  "tm_valid (gmtime_r t) \<and> tm_seconds (gmtime_r t) = t \<and> tm_derived (gmtime_r t) \<and> tm_isdst (gmtime_r t) = 0"
  using gmtime_r_civil by blast

section \<open>Months\<close>

lemma month_end:
  assumes "mon < 12" shows "month_start leap (Suc mon) = month_start leap mon + month_lengths leap ! mon"
proof -
  have "mon < length (month_lengths leap)" using assms by (simp add: month_lengths_def)
  then show ?thesis by (simp add: month_start_def take_Suc_conv_app_nth)
qed

lemma month_lengths_range:
  assumes "mon < 12" shows "28 \<le> month_lengths leap ! mon" and "month_lengths leap ! mon \<le> 31"
proof -
  have "\<forall>leap. list_all (\<lambda>n. 28 \<le> n \<and> n \<le> 31) (month_lengths leap)" "length (month_lengths leap) = 12"
    by (simp_all add: month_lengths_def)
  then show "28 \<le> month_lengths leap ! mon" "month_lengths leap ! mon \<le> 31" using assms by (simp_all add: list_all_length)
qed

lemma month_start_mono: "i \<le> j \<Longrightarrow> j \<le> 12 \<Longrightarrow> month_start leap i \<le> month_start leap j"
proof (induction j)
  case (Suc j)
  then show ?case using month_end [of j leap] month_lengths_range(1) [of j leap] by (cases "i = Suc j") auto
qed simp

lemma month_start_12: "month_start leap 12 = (if leap then 366 else 365)"
  by (simp add: month_start_def month_lengths_def)

end
