(* ===== verification/TimeZone.thy ===== *)
theory TimeZone
  imports Gmtime StrNum
begin

text \<open>
  Time zones: the shared state of \<open>time/gettzinfo.c\<close> and \<open>time/tzvars.c\<close>, \<open>_tzset_unlocked_r\<close>
  (\<open>time/tzset_r.c\<close>), which parses the variable \<open>TZ\<close>, and \<open>__tzcalc_limits\<close> (\<open>time/tzcalc_limits.c\<close>), which
  computes when summer time begins and ends in a year. A string of the environment is the list of
  its bytes.
\<close>

section \<open>State\<close>

record tz_rule =
  rule_ch :: int
  rule_m :: int
  rule_n :: int
  rule_d :: int
  rule_s :: int
  change :: int
  offset :: int

text \<open>What an element of \<open>_tzname\<close> points to: a constant or one of the two static buffers.\<close>

datatype tz_name = Name_GMT | Name_std | Name_dst

record tz_state =
  tznorth :: bool
  tzyear :: int
  tzrule :: "nat \<Rightarrow> tz_rule"
  tz_timezone :: int
  daylight :: bool
  tzname :: "tz_name \<times> tz_name"
  tzname_std :: "u8 list"
  tzname_dst :: "u8 list"
  prev_tzenv :: "u8 list option"

definition tz_start :: tz_state where
  "tz_start = \<lparr>tznorth = True, tzyear = 0,
     tzrule = (\<lambda>_. \<lparr>rule_ch = 74, rule_m = 0, rule_n = 0, rule_d = 0, rule_s = 0, change = 0, offset = 0\<rparr>),
     tz_timezone = 0, daylight = False, tzname = (Name_GMT, Name_GMT), tzname_std = [], tzname_dst = [],
     prev_tzenv = None\<rparr>"

text \<open>The environment: the variable \<open>TZ\<close>, and whether the allocator gives the memory for its copy.\<close>

record tz_env =
  TZ :: "u8 list option"
  malloc_ok :: bool

definition set_rule :: "nat \<Rightarrow> (tz_rule \<Rightarrow> tz_rule) \<Rightarrow> tz_state \<Rightarrow> tz_state" where
  "set_rule i f tz = tz\<lparr>tzrule := (tzrule tz)(i := f (tzrule tz i))\<rparr>"

section \<open>The limits of summer time\<close>

text \<open>\<open>for (j = 1; j < m; ++j) days += ip[j-1]\<close>\<close>

function add_months :: "int list \<Rightarrow> int \<Rightarrow> int \<Rightarrow> int \<Rightarrow> int \<times> int" where
  "add_months ip m j days = (if j < m then add_months ip m (j + 1) (days + ip ! nat (j - 1)) else (days, j))"
  by pat_completeness auto
termination by (relation "measure (\<lambda>(ip, m, j, days). nat (m - j))") auto

text \<open>\<open>while (m_day >= ip[j-1]) m_day -= DAYSPERWEEK\<close>\<close>

function last_week :: "int \<Rightarrow> int \<Rightarrow> int" where
  "last_week len m_day = (if len \<le> m_day then last_week len (m_day - 7) else m_day)"
  by pat_completeness auto
termination by (relation "measure (\<lambda>(len, m_day). nat (m_day - len + 1))") auto

declare add_months.simps [simp del] last_week.simps [simp del]

definition year_days :: "int \<Rightarrow> int" where
  "year_days year =
     (let years = year - 1970
      in years * 365 + (years - 1 + 2) sdiv 4 - (years - 1 + 70) sdiv 100 + (years - 1 + 370) sdiv 400)"

text \<open>The day of the change: the three forms of a rule.\<close>

definition rule_day :: "int \<Rightarrow> tz_rule \<Rightarrow> int" where
  "rule_day year r =
     (if rule_ch r = 74 then
        year_days year + rule_d r + (if isleap year \<and> 60 \<le> rule_d r then 1 else 0) - 1
      else if rule_ch r = 68 then year_days year + rule_d r
      else
        let ip = month_lengths (isleap year);
            (days, j) = add_months ip (rule_m r) 1 (year_days year);
            m_wday = (4 + days) smod 7;
            wday_diff = (let w = rule_d r - m_wday in if w < 0 then w + 7 else w);
            m_day = last_week (ip ! nat (j - 1)) ((rule_n r - 1) * 7 + wday_diff)
        in days + m_day)"

definition set_change :: "int \<Rightarrow> tz_rule \<Rightarrow> tz_rule" where
  "set_change year r = r\<lparr>change := wrap_s32 (rule_day year r * 86400 + rule_s r + offset r)\<rparr>"

definition tzcalc_limits :: "int \<Rightarrow> tz_state \<Rightarrow> tz_state \<times> bool" where
  "tzcalc_limits year tz =
     (if year < 1970 then (tz, False)
      else let tz1 = set_rule 1 (set_change year) (set_rule 0 (set_change year) (tz\<lparr>tzyear := year\<rparr>))
      in (tz1\<lparr>tznorth := change (tzrule tz1 0) < change (tzrule tz1 1)\<rparr>, True))"

section \<open>The variable TZ\<close>

text \<open>The conversion \<open>%10[^0-9,+-]\<close> of \<open>sscanf\<close>; it fails on no character.\<close>

definition scan_name :: "u8 list \<Rightarrow> u8 list" where
  "scan_name xs = take 10 (takeWhile (\<lambda>c. \<not> (48 \<le> c \<and> c \<le> 57) \<and> c \<noteq> 44 \<and> c \<noteq> 43 \<and> c \<noteq> 45) xs)"

text \<open>\<open>strtoul\<close> in base 10: the value and how many characters it took; 0 if there is no number.\<close>

definition scan_ulong :: "u8 list \<Rightarrow> int \<times> nat" where
  "scan_ulong xs =
     (case strtoul (mem_at 1 (xs @ [0])) 0 1 10 of None \<Rightarrow> (0, 0) | Some (v, stop, _) \<Rightarrow> (uint v, stop - 1))"

text \<open>The conversion \<open>%hu\<close>: what \<open>strtoul\<close> accepts, stored in an \<open>unsigned short\<close>.\<close>

definition scan_hu :: "u8 list \<Rightarrow> (int \<times> nat) option" where
  "scan_hu xs = (let (v, n) = scan_ulong xs in if n = 0 then None else Some (v mod 65536, n))"

text \<open>\<open>%hu%n\<close>, then the separator and \<open>%hu%n\<close>, up to three numbers: the numbers read and the last \<open>n\<close>.\<close>

fun scan_hus :: "nat \<Rightarrow> u8 \<Rightarrow> u8 list \<Rightarrow> nat \<Rightarrow> int list \<times> nat" where
  "scan_hus 0 sep xs n = ([], n)"
| "scan_hus (Suc k) sep xs n =
     (case scan_hu xs of None \<Rightarrow> ([], n)
      | Some (v, len) \<Rightarrow>
          (case drop len xs of [] \<Rightarrow> ([v], len)
           | c # ys \<Rightarrow> if c = sep then (let (vs, n') = scan_hus k sep ys 0 in
                                        if vs = [] then ([v], len) else (v # vs, len + 1 + n'))
                       else ([v], len)))"

text \<open>Hours, minutes and seconds, with defaults for what is missing.\<close>

definition scan_hms :: "u8 list \<Rightarrow> int \<times> int \<times> int \<Rightarrow> nat \<Rightarrow> nat \<times> int \<times> nat" where
  "scan_hms xs dflt n =
     (let (vs, n') = scan_hus 3 58 xs n; (hh, mm, ss) = dflt;
          hh' = (if 0 < length vs then vs ! 0 else hh); mm' = (if 1 < length vs then vs ! 1 else mm);
          ss' = (if 2 < length vs then vs ! 2 else ss)
      in (length vs, ss' + 60 * mm' + 3600 * hh', n'))"

definition scan_sign :: "u8 list \<Rightarrow> int \<times> u8 list" where
  "scan_sign xs = (case xs of c # ys \<Rightarrow> if c = 45 then (- 1, ys) else if c = 43 then (1, ys) else (1, xs) | [] \<Rightarrow> (1, xs))"

text \<open>One turn of the loop over the two rules; no rest means the \<open>return\<close> on a malformed rule.\<close>

definition parse_rule :: "nat \<Rightarrow> u8 list \<Rightarrow> tz_state \<Rightarrow> tz_state \<times> u8 list option" where
  "parse_rule i tzenv0 tz =
     (let tzenv = (case tzenv0 of c # ys \<Rightarrow> if c = 44 then ys else tzenv0 | [] \<Rightarrow> tzenv0);
          (tz1, rest) =
            (case tzenv of
               c # ys \<Rightarrow>
                 if c = 77 then
                   (case scan_hus 3 46 ys 0 of
                      ([m, w, d], n) \<Rightarrow>
                        if m < 1 \<or> 12 < m \<or> w < 1 \<or> 5 < w \<or> 6 < d then (tz, None)
                        else (set_rule i (\<lambda>r. r\<lparr>rule_ch := 77, rule_m := m, rule_n := w, rule_d := d\<rparr>) tz, Some (drop n ys))
                    | _ \<Rightarrow> (tz, None))
                 else
                   let (ch, zs) = (if c = 74 then (74, ys) else (68, tzenv)); (v, n) = scan_ulong zs
                   in (set_rule i (\<lambda>r. if n = 0 then r\<lparr>rule_ch := 77, rule_m := (if i = 0 then 3 else 11),
                                        rule_n := (if i = 0 then 2 else 1), rule_d := 0\<rparr>
                                      else r\<lparr>rule_ch := ch, rule_d := v mod 65536\<rparr>) tz, Some (drop n zs))
             | [] \<Rightarrow>
                 (set_rule i (\<lambda>r. r\<lparr>rule_ch := 77, rule_m := (if i = 0 then 3 else 11),
                    rule_n := (if i = 0 then 2 else 1), rule_d := 0\<rparr>) tz, Some []))
      in case rest of None \<Rightarrow> (tz1, None)
         | Some xs \<Rightarrow>
             let (s, n) = (case xs of c # ys \<Rightarrow>
                             if c = 47 then (let (k, s, n) = scan_hms ys (2, 0, 0) 0 in (s, if k = 0 then 0 else n + 1))
                             else (7200, 0)
                           | [] \<Rightarrow> (7200, 0))
             in (set_rule i (\<lambda>r. r\<lparr>rule_s := s\<rparr>) tz1, Some (drop n xs)))"

definition tzset_unlocked :: "tz_env \<Rightarrow> tz_state \<Rightarrow> tz_state" where
  "tzset_unlocked env tz =
     (case TZ env of
        None \<Rightarrow> tz\<lparr>tz_timezone := 0, daylight := False, tzname := (Name_GMT, Name_GMT), prev_tzenv := None\<rparr>
      | Some tzenv0 \<Rightarrow>
          if prev_tzenv tz = Some tzenv0 then tz
          else
            let tz1 = tz\<lparr>prev_tzenv := (if malloc_ok env then Some tzenv0 else None)\<rparr>;
                tzenv1 = (case tzenv0 of c # ys \<Rightarrow> if c = 58 then ys else tzenv0 | [] \<Rightarrow> tzenv0);
                std = scan_name tzenv1
            in if std = [] then tz1
               else
                 let tz2 = tz1\<lparr>tzname_std := std\<rparr>;
                     (sign, tzenv2) = scan_sign (drop (length std) tzenv1);
                     (k, secs, n) = scan_hms tzenv2 (0, 0, 0) 0
                 in if k < 1 then tz2
                    else
                      let tz3 = (set_rule 0 (\<lambda>r. r\<lparr>offset := sign * secs\<rparr>) tz2)\<lparr>tzname := (Name_std, snd (tzname tz2))\<rparr>;
                          tzenv3 = drop n tzenv2;
                          dst = scan_name tzenv3
                      in if dst = [] then
                           tz3\<lparr>tzname := (Name_std, Name_std), tz_timezone := offset (tzrule tz3 0), daylight := False\<rparr>
                         else
                           let tz4 = tz3\<lparr>tzname_dst := dst, tzname := (Name_std, Name_dst)\<rparr>;
                               (sign2, tzenv4) = scan_sign (drop (length dst) tzenv3);
                               (k2, secs2, n2) = scan_hms tzenv4 (0, 0, 0) 0;
                               tz5 = set_rule 1 (\<lambda>r. r\<lparr>offset := (if k2 = 0 then offset (tzrule tz4 0) - 3600
                                                                     else sign2 * secs2)\<rparr>) tz4
                           in case parse_rule 0 (drop n2 tzenv4) tz5 of (tz6, None) \<Rightarrow> tz6
                              | (tz6, Some xs) \<Rightarrow>
                                  (case parse_rule 1 xs tz6 of (tz7, None) \<Rightarrow> tz7
                                   | (tz7, Some ys) \<Rightarrow>
                                       let tz8 = fst (tzcalc_limits (tzyear tz7) tz7)
                                       in tz8\<lparr>tz_timezone := offset (tzrule tz8 0),
                                             daylight := offset (tzrule tz8 0) \<noteq> offset (tzrule tz8 1)\<rparr>))"

section \<open>The days of the rules\<close>

lemma add_months_eq:
  assumes "1 \<le> j" and "j \<le> m" and "m \<le> 12"
  shows "add_months (month_lengths leap) m j days =
    (days + month_start leap (nat (m - 1)) - month_start leap (nat (j - 1)), m)"
  using assms
proof (induction "nat (m - j)" arbitrary: j days)
  case 0
  then show ?case by (simp add: add_months.simps)
next
  case (Suc n)
  have j: "j < m" using Suc.hyps(2) by simp
  have e: "nat j = Suc (nat (j - 1))" using Suc.prems by simp
  have "add_months (month_lengths leap) m j days = add_months (month_lengths leap) m (j + 1) (days + month_lengths leap ! nat (j - 1))"
    using j by (subst add_months.simps) simp
  also have "\<dots> = (days + month_lengths leap ! nat (j - 1) + month_start leap (nat (m - 1)) - month_start leap (nat (j + 1 - 1)), m)"
    by (rule Suc.hyps(1)) (use Suc.hyps(2) Suc.prems j in auto)
  also have "month_start leap (nat (j + 1 - 1)) = month_start leap (nat (j - 1)) + month_lengths leap ! nat (j - 1)"
    using month_end [of "nat (j - 1)" leap] Suc.prems j e by simp
  finally show ?case by simp
qed

lemma year_days_eq:
  assumes "1970 \<le> year" shows "year_days year = year_start year"
proof -
  have "(year - 1969) div 4 = (year - 1) div 4 - 492" "(year - 1901) div 100 = (year - 1) div 100 - 19"
    "(year - 1601) div 400 = (year - 1) div 400 - 4"
    using div_mult_self1 [of 4 "year - 1" "- 492"] div_mult_self1 [of 100 "year - 1" "- 19"] div_mult_self1 [of 400 "year - 1" "- 4"]
    by simp_all
  then show ?thesis using assms by (simp add: year_days_def year_start_def Let_def sdiv_smod_pos)
qed

text \<open>From the offset of the first wanted weekday of the month to the wanted week of it.\<close>

lemma last_week_eq:
  assumes "1 \<le> n" "n \<le> 5" "0 \<le> diff" "diff \<le> 6" "28 \<le> len" "len \<le> 31"
  defines "d \<equiv> last_week len ((n - 1) * 7 + diff)"
  shows "0 \<le> d" and "d < len" and "d mod 7 = diff" and "n < 5 \<longrightarrow> d div 7 = n - 1" and "n = 5 \<longrightarrow> len \<le> d + 7"
proof -
  have d: "d = (if len \<le> (n - 1) * 7 + diff then (n - 1) * 7 + diff - 7 else (n - 1) * 7 + diff)"
    unfolding d_def using assms(1-6) by (subst last_week.simps, subst last_week.simps) auto
  have w: "x mod 7 = diff \<and> x div 7 = q" if "x = diff + q * 7" for x q :: int
    using assms(3,4) that by (simp add: div_pos_pos_trivial)
  have q: "d = diff + (n - 1) * 7 \<or> d = diff + (n - 2) * 7" by (auto simp: d)
  then show "d mod 7 = diff" using w by blast
  have "n < 5 \<longrightarrow> d = diff + (n - 1) * 7" using assms(1-6) by (auto simp: d)
  then show "n < 5 \<longrightarrow> d div 7 = n - 1" using w by blast
  show "0 \<le> d" "d < len" "n = 5 \<longrightarrow> len \<le> d + 7" using assms(1-6) by (auto simp: d)
qed

lemma year_start_nonneg:
  assumes "1970 \<le> y" shows "0 \<le> year_start y"
  using assms by (induction rule: int_ge_induct) (simp_all add: year_start_1970 year_start_Suc year_len_def)

lemma month_start_nonneg: "0 \<le> month_start leap mon"
  unfolding month_start_def by (rule sum_list_nonneg) (auto simp: month_lengths_def dest!: in_set_takeD split: if_splits)

text \<open>A common year's months begin where a leap year's do, one day earlier after February.\<close>

lemma month_start_leap:
  assumes "mon < 12"
  shows "month_start True mon = month_start False mon + (if 2 \<le> mon then 1 else 0)"
proof -
  have "\<forall>mon\<in>set [0..<12]. month_start True mon = month_start False mon + (if 2 \<le> mon then 1 else 0)"
    by (simp add: month_start_def month_lengths_def upt_rec)
  then show ?thesis using assms by simp
qed

lemma march_day:
  assumes "mon < 12" "1 \<le> mday" "mday \<le> month_lengths False ! mon"
  shows "60 \<le> month_start False mon + mday \<longleftrightarrow> 2 \<le> mon"
proof -
  have "\<forall>mon\<in>set [0..<12]. if 2 \<le> mon then 59 \<le> month_start False mon
      else month_start False mon + month_lengths False ! mon < 60"
    by (simp add: month_start_def month_lengths_def upt_rec)
  then have "if 2 \<le> mon then 59 \<le> month_start False mon else month_start False mon + month_lengths False ! mon < 60"
    using assms(1) by (metis atLeast0LessThan atLeast_upt lessThan_iff set_upt)
  then show ?thesis using assms(2,3) by (auto split: if_splits)
qed

lemma mod_shift: "(w + (d - w)) mod k = d mod k" "(a + (b + c)) mod k = ((a + b) mod k + c mod k) mod (k :: int)"
  by (simp_all add: mod_add_eq ac_simps)

text \<open>C10: The days of the rules. A rule \<open>Mm.n.d\<close> is the \<open>n\<close>-th weekday \<open>d\<close> of the month \<open>m\<close>, the last one
  for 5; a rule \<open>Jn\<close> is the \<open>n\<close>-th day of the year without the 29 February, a rule \<open>n\<close> the day \<open>n\<close> counted
  from 0 with it. \<open>__tzcalc_limits\<close> stores these days with the time of the rule in Greenwich seconds.\<close>

theorem tzcalc_rules:
  assumes "1970 \<le> year"
  shows "(rule_ch r = 77 \<and> 1 \<le> rule_m r \<and> rule_m r \<le> 12 \<and> 1 \<le> rule_n r \<and> rule_n r \<le> 5 \<and> 0 \<le> rule_d r \<and> rule_d r \<le> 6 \<longrightarrow>
      (\<exists>mday. rule_day year r = civil_day year (rule_m r - 1) mday \<and> 1 \<le> mday \<and>
         mday \<le> month_lengths (leap_year year) ! nat (rule_m r - 1) \<and> (4 + rule_day year r) mod 7 = rule_d r \<and>
         (if rule_n r < 5 then (mday - 1) div 7 = rule_n r - 1
          else month_lengths (leap_year year) ! nat (rule_m r - 1) < mday + 7))) \<and>
    (rule_ch r = 74 \<and> 0 \<le> mon \<and> mon < 12 \<and> 1 \<le> mday \<and> mday \<le> month_lengths False ! nat mon \<and>
       rule_d r = month_start False (nat mon) + mday \<longrightarrow> rule_day year r = civil_day year mon mday) \<and>
    (rule_ch r = 68 \<longrightarrow> rule_day year r = year_start year + rule_d r) \<and>
    (snd (tzcalc_limits year tz) \<and> tzyear (fst (tzcalc_limits year tz)) = year \<and>
      (\<forall>i\<le>1. change (tzrule (fst (tzcalc_limits year tz)) i) =
         wrap_s32 (rule_day year (tzrule tz i) * 86400 + rule_s (tzrule tz i) + offset (tzrule tz i))))"
proof (intro conjI impI)
  note yd = year_days_eq [OF assms]
  assume r: "rule_ch r = 77 \<and> 1 \<le> rule_m r \<and> rule_m r \<le> 12 \<and> 1 \<le> rule_n r \<and> rule_n r \<le> 5 \<and> 0 \<le> rule_d r \<and> rule_d r \<le> 6"
  let ?leap = "leap_year year"
  let ?len = "month_lengths ?leap ! nat (rule_m r - 1)"
  define days where "days = year_start year + month_start ?leap (nat (rule_m r - 1))"
  define w where "w = (4 + days) mod 7"
  define diff where "diff = (if rule_d r - w < 0 then rule_d r - w + 7 else rule_d r - w)"
  define k where "k = last_week ?len ((rule_n r - 1) * 7 + diff)"
  have d0: "0 \<le> year_start year" by (rule year_start_nonneg [OF assms])
  have ms: "0 \<le> month_start ?leap (nat (rule_m r - 1))" by (rule month_start_nonneg)
  have am: "add_months (month_lengths ?leap) (rule_m r) 1 (year_start year) = (days, rule_m r)"
    using add_months_eq [of 1 "rule_m r" ?leap "year_start year"] r by (simp add: days_def month_start_def)
  have "(4 + days) smod 7 = w" using d0 ms by (simp add: w_def days_def sdiv_smod_pos)
  then have day: "rule_day year r = days + k"
    using r am by (simp add: rule_day_def yd isleap_leap_year Let_def diff_def k_def)
  have diff: "0 \<le> diff" "diff \<le> 6" "diff mod 7 = (rule_d r - w) mod 7" using r by (auto simp: diff_def w_def)
  have len: "28 \<le> ?len" "?len \<le> 31" using r by (auto intro: month_lengths_range)
  note k = last_week_eq [of "rule_n r" diff ?len, folded k_def, OF _ _ diff(1,2) len]
  have "(4 + (days + k)) mod 7 = (w + diff) mod 7"
    using k(3) r diff by (simp add: mod_shift(2) [of 4 days k] w_def mod_add_right_eq)
  also have "\<dots> = rule_d r" using r by (auto simp: diff_def)
  finally have wd: "(4 + (days + k)) mod 7 = rule_d r" .
  show "\<exists>mday. rule_day year r = civil_day year (rule_m r - 1) mday \<and> 1 \<le> mday \<and> mday \<le> ?len \<and>
      (4 + rule_day year r) mod 7 = rule_d r \<and>
      (if rule_n r < 5 then (mday - 1) div 7 = rule_n r - 1 else ?len < mday + 7)"
    by (rule exI [of _ "k + 1"]) (use k r wd in \<open>auto simp: day days_def civil_day_def\<close>)
next
  show "rule_day year r = civil_day year mon mday"
    if r: "rule_ch r = 74 \<and> 0 \<le> mon \<and> mon < 12 \<and> 1 \<le> mday \<and> mday \<le> month_lengths False ! nat mon \<and>
       rule_d r = month_start False (nat mon) + mday"
    using r march_day [of "nat mon" mday] month_start_leap [of "nat mon"]
    by (cases "leap_year year") (auto simp: rule_day_def year_days_eq [OF assms] civil_day_def isleap_leap_year)
next
  show "rule_day year r = year_start year + rule_d r" if "rule_ch r = 68"
    using that by (simp add: rule_day_def year_days_eq [OF assms])
qed (use assms in \<open>auto simp: tzcalc_limits_def set_rule_def set_change_def Let_def le_Suc_eq\<close>)

theorem tzcalc_rules_witness:
  "rule_day 2015 \<lparr>rule_ch = 74, rule_m = 0, rule_n = 0, rule_d = 60, rule_s = 0, change = 0, offset = 0\<rparr> = civil_day 2015 2 1 \<and>
   (\<exists>mday. rule_day 2015 \<lparr>rule_ch = 77, rule_m = 3, rule_n = 2, rule_d = 0, rule_s = 0, change = 0, offset = 0\<rparr> =
      civil_day 2015 2 mday \<and> 8 \<le> mday \<and> mday \<le> 14)"
proof -
  let ?j = "\<lparr>rule_ch = 74, rule_m = 0, rule_n = 0, rule_d = 60, rule_s = 0, change = 0, offset = 0\<rparr>"
  let ?m = "\<lparr>rule_ch = 77, rule_m = 3, rule_n = 2, rule_d = 0, rule_s = 0, change = 0, offset = 0\<rparr>"
  have "\<exists>mday. rule_day 2015 ?m = civil_day 2015 2 mday \<and> (mday - 1) div 7 = 1"
    using tzcalc_rules [of 2015 ?m 0 0 tz_start] by auto
  moreover have "8 \<le> mday \<and> mday \<le> 14" if "(mday - 1) div 7 = 1" for mday :: int
    using that by presburger
  moreover have "rule_day 2015 ?j = civil_day 2015 2 1"
    using tzcalc_rules [of 2015 ?j 2 1 tz_start] by (simp add: month_start_def month_lengths_def numeral_2_eq_2)
  ultimately show ?thesis by blast
qed

end
