(* ===== verification/LocalTime.thy ===== *)
theory LocalTime
  imports TimeZone
begin

text \<open>
  Local time: \<open>localtime_r\<close> (\<open>time/lcltime_r.c\<close>) and \<open>mktime\<close> (\<open>time/mktime.c\<close>) with \<open>div\<close>
  (\<open>stdlib/div.c\<close>). \<open>mktime\<close> computes in 32 bits and wraps around.
\<close>

section \<open>localtime\<close>

text \<open>The fields after the offset was taken off: carries between seconds, minutes, hours and days.\<close>

definition local_minutes :: "tm \<Rightarrow> tm" where
  "local_minutes r0 =
     (let r1 = (if 60 \<le> tm_sec r0 then r0\<lparr>tm_min := tm_min r0 + 1, tm_sec := tm_sec r0 - 60\<rparr>
                else if tm_sec r0 < 0 then r0\<lparr>tm_min := tm_min r0 - 1, tm_sec := tm_sec r0 + 60\<rparr> else r0)
      in if 60 \<le> tm_min r1 then r1\<lparr>tm_hour := tm_hour r1 + 1, tm_min := tm_min r1 - 60\<rparr>
         else if tm_min r1 < 0 then r1\<lparr>tm_hour := tm_hour r1 - 1, tm_min := tm_min r1 + 60\<rparr> else r1)"

definition local_days :: "int list \<Rightarrow> tm \<Rightarrow> tm" where
  "local_days ip r =
     (if 24 \<le> tm_hour r then
        let r1 = r\<lparr>tm_yday := tm_yday r + 1, tm_wday := (if 6 < tm_wday r + 1 then 0 else tm_wday r + 1),
                   tm_mday := tm_mday r + 1, tm_hour := tm_hour r - 24\<rparr>
        in if ip ! nat (tm_mon r1) < tm_mday r1 then
             let r2 = r1\<lparr>tm_mday := tm_mday r1 - ip ! nat (tm_mon r1), tm_mon := tm_mon r1 + 1\<rparr>
             in if tm_mon r2 = 12 then r2\<lparr>tm_mon := 0, tm_year := tm_year r2 + 1, tm_yday := 0\<rparr> else r2
           else r1
      else if tm_hour r < 0 then
        let r1 = r\<lparr>tm_yday := tm_yday r - 1, tm_wday := (if tm_wday r - 1 < 0 then 6 else tm_wday r - 1),
                   tm_mday := tm_mday r - 1, tm_hour := tm_hour r + 24\<rparr>
        in if tm_mday r1 = 0 then
             let r2 = r1\<lparr>tm_mon := tm_mon r1 - 1\<rparr>;
                 r3 = (if tm_mon r2 < 0 then
                         r2\<lparr>tm_mon := 11, tm_year := tm_year r2 - 1,
                            tm_yday := 364 + (if isleap (tm_year r2 - 1 + 1900) then 1 else 0)\<rparr>
                       else r2)
             in r3\<lparr>tm_mday := ip ! nat (tm_mon r3)\<rparr>
           else r1
      else r)"

text \<open>Whether summer time is in effect at the time \<open>t\<close> of the year; -1 if there is no telling.\<close>

definition local_isdst :: "tz_state \<Rightarrow> int \<Rightarrow> int \<Rightarrow> tz_state \<times> int" where
  "local_isdst tz1 year t =
     (if daylight tz1 then
        let (tz2, ok) = (if year = tzyear tz1 then (tz1, True) else tzcalc_limits year tz1);
            c0 = change (tzrule tz2 0); c1 = change (tzrule tz2 1)
        in (tz2, if ok then (if (if tznorth tz2 then c0 \<le> t \<and> t < c1 else c0 \<le> t \<or> t < c1) then 1 else 0) else - 1)
      else (tz1, 0))"

definition localtime_r :: "tz_env \<Rightarrow> tz_state \<Rightarrow> int \<Rightarrow> tz_state \<times> tm" where
  "localtime_r env tz0 t =
     (let res = gmtime_r t; year = tm_year res + 1900; ip = month_lengths (isleap year);
          (tz, isdst) = local_isdst (tzset_unlocked env tz0) year t;
          off = offset (tzrule tz (if isdst = 1 then 1 else 0));
          hours = off sdiv 3600; off1 = off smod 3600; mins = off1 sdiv 60; secs = off1 smod 60;
          r = res\<lparr>tm_isdst := isdst, tm_sec := tm_sec res - secs, tm_min := tm_min res - mins,
                  tm_hour := tm_hour res - hours\<rparr>
      in (tz, local_days ip (local_minutes r)))"

section \<open>mktime\<close>

definition c_div :: "int \<Rightarrow> int \<Rightarrow> int \<times> int" where
  "c_div num denom =
     (let quot = num sdiv denom; rem = num smod denom
      in if 0 \<le> num \<and> rem < 0 then (quot + 1, rem - denom)
         else if num < 0 \<and> 0 < rem then (quot - 1, rem + denom) else (quot, rem))"

text \<open>A field that leaves \<open>0 .. b - 1\<close>, and the field the quotient is added to.\<close>

definition carry :: "int \<Rightarrow> int \<Rightarrow> int \<Rightarrow> int \<times> int" where
  "carry b v up =
     (if v < 0 \<or> b - 1 < v then
        let (quot, rem) = c_div v b; up1 = wrap_s32 (up + quot)
        in if rem < 0 then (rem + b, wrap_s32 (up1 - 1)) else (rem, up1)
      else (v, up))"

text \<open>\<open>_ISLEAP\<close> and \<open>_DAYS_IN_YEAR\<close> take the year as \<open>tm_year\<close> has it, from 1900.\<close>

definition tm_isleap :: "int \<Rightarrow> bool" where
  "tm_isleap y = (y smod 4 = 0 \<and> (y smod 100 \<noteq> 0 \<or> (y + 1900) smod 400 = 0))"

definition days_in_year :: "int \<Rightarrow> int" where "days_in_year year = (if tm_isleap year then 366 else 365)"

definition days_in_month :: "int \<Rightarrow> int \<Rightarrow> int" where
  "days_in_month days_in_feb x =
     (if x = 1 then days_in_feb else [31, 28, 31, 30, 31, 30, 31, 31, 30, 31, 30, 31] ! nat x)"

definition feb_days :: "int \<Rightarrow> int" where "feb_days year = (if days_in_year year = 366 then 29 else 28)"

text \<open>The loops that bring the day into its month, downwards and upwards: day, month, year and \<open>days_in_feb\<close>.\<close>

partial_function (option) mday_down :: "int \<Rightarrow> int \<Rightarrow> int \<Rightarrow> int \<Rightarrow> (int \<times> int \<times> int) option" where
  "mday_down mday mon year feb =
     (if mday \<le> 0 then
        let (mon1, year1, feb1) =
              (if mon - 1 = - 1 then (11, wrap_s32 (year - 1), feb_days (wrap_s32 (year - 1))) else (mon - 1, year, feb))
        in mday_down (mday + days_in_month feb1 mon1) mon1 year1 feb1
      else Some (mday, mon, year))"

partial_function (option) mday_up :: "int \<Rightarrow> int \<Rightarrow> int \<Rightarrow> int \<Rightarrow> (int \<times> int \<times> int) option" where
  "mday_up mday mon year feb =
     (if days_in_month feb mon < mday then
        let mday1 = mday - days_in_month feb mon;
            (mon1, year1, feb1) =
              (if mon + 1 = 12 then (0, wrap_s32 (year + 1), feb_days (wrap_s32 (year + 1))) else (mon + 1, year, feb))
        in mday_up mday1 mon1 year1 feb1
      else Some (mday, mon, year))"

definition validate_structure :: "tm \<Rightarrow> tm option" where
  "validate_structure t =
     (let (sec, min1) = carry 60 (tm_sec t) (tm_min t);
          (min, hour1) = carry 60 min1 (tm_hour t);
          (hour, mday1) = carry 24 hour1 (tm_mday t);
          (mon1, year1) = carry 12 (tm_mon t) (tm_year t);
          feb = feb_days year1
      in case (if mday1 \<le> 0 then mday_down mday1 mon1 year1 feb else mday_up mday1 mon1 year1 feb) of
           None \<Rightarrow> None
         | Some (mday, mon, year) \<Rightarrow>
             Some (t\<lparr>tm_sec := sec, tm_min := min, tm_hour := hour, tm_mday := mday, tm_mon := mon, tm_year := year\<rparr>))"

text \<open>The loops over the years from 1970 upwards and from 1969 downwards.\<close>

function years_up :: "int \<Rightarrow> int \<Rightarrow> int \<Rightarrow> int" where
  "years_up year stop days = (if year < stop then years_up (year + 1) stop (wrap_s32 (days + days_in_year year)) else days)"
  by pat_completeness auto
termination by (relation "measure (\<lambda>(year, stop, days). nat (stop - year))") auto

function years_down :: "int \<Rightarrow> int \<Rightarrow> int \<Rightarrow> int" where
  "years_down year stop days =
     (if stop < year then years_down (year - 1) stop (wrap_s32 (days - days_in_year year))
      else wrap_s32 (days - days_in_year year))"
  by pat_completeness auto
termination by (relation "measure (\<lambda>(year, stop, days). nat (year - stop))") auto

declare years_up.simps [simp del] years_down.simps [simp del]

definition other_years :: "int \<Rightarrow> int \<Rightarrow> int" where
  "other_years year days =
     (if 70 < year then years_up 70 year days else if year < 70 then years_down 69 year days else days)"

definition days_before_month :: "int list" where
  "days_before_month = [0, 31, 59, 90, 120, 151, 181, 212, 243, 273, 304, 334]"

text \<open>
  The correction when the caller's \<open>tm_isdst\<close> is wrong: time, fields and days move by the difference
  of the offsets.
\<close>

definition correct_dst :: "tz_state \<Rightarrow> int \<Rightarrow> tm \<Rightarrow> int \<Rightarrow> int \<Rightarrow> (tm \<times> int \<times> int) option" where
  "correct_dst tz isdst t tim days =
     (let diff0 = wrap_s32 (offset (tzrule tz 0) - offset (tzrule tz 1));
          diff = (if isdst = 0 then - diff0 else diff0);
          t1 = t\<lparr>tm_sec := wrap_s32 (tm_sec t + diff)\<rparr>
      in case validate_structure t1 of None \<Rightarrow> None
         | Some t2 \<Rightarrow>
             let mday0 = tm_mday t2 - tm_mday t
             in if mday0 \<noteq> 0 then
                  let mday = (if 1 < mday0 then - 1 else if mday0 < - 1 then 1 else mday0);
                      yday = tm_yday t2 + mday; year = tm_year t;
                      yday1 = (if yday < 0 then days_in_year (year - 1) - 1
                               else let len = days_in_year year in if len - 1 < yday then yday - len else yday)
                  in Some (t2\<lparr>tm_yday := yday1\<rparr>, wrap_s32 (tim + diff), days + mday)
                else Some (t2, wrap_s32 (tim + diff), days))"

text \<open>Whether summer time is in effect, and the correction: state, \<open>isdst\<close>, fields, time and days.\<close>

definition mktime_dst :: "tz_state \<Rightarrow> tm \<Rightarrow> int \<Rightarrow> int \<Rightarrow> (tz_state \<times> int \<times> tm \<times> int \<times> int) option" where
  "mktime_dst tz0 t tim days =
     (let y = tm_year t + 1900; tm_dst = (if 0 < tm_isdst t then 1 else tm_isdst t);
          (tz, ok) = (if y = tzyear tz0 then (tz0, True) else tzcalc_limits y tz0);
          off0 = offset (tzrule tz 0); off1 = offset (tzrule tz 1);
          startdst_dst = wrap_s32 (change (tzrule tz 0) - off1);
          startstd_dst = wrap_s32 (change (tzrule tz 1) - off1);
          startstd_std = wrap_s32 (change (tzrule tz 1) - off0)
      in if \<not> ok \<or> startstd_std \<le> tim \<and> tim < startstd_dst then Some (tz, tm_dst, t, tim, days)
         else
           let isdst = (if (if tznorth tz then startdst_dst \<le> tim \<and> tim < startstd_std
                            else startdst_dst \<le> tim \<or> tim < startstd_std) then 1 else 0)
           in if 0 \<le> tm_dst \<and> isdst \<noteq> tm_dst
              then map_option (\<lambda>(t', tim', days'). (tz, isdst, t', tim', days')) (correct_dst tz isdst t tim days)
              else Some (tz, isdst, t, tim, days))"

definition mktime :: "tz_env \<Rightarrow> tz_state \<Rightarrow> tm \<Rightarrow> (tz_state \<times> tm \<times> int) option" where
  "mktime env tz0 t0 =
     (case validate_structure t0 of None \<Rightarrow> None
      | Some t \<Rightarrow>
          let tim1 = tm_sec t + tm_min t * 60 + tm_hour t * 3600;
              days1 = tm_mday t - 1 + days_before_month ! nat (tm_mon t);
              days2 = (if 1 < tm_mon t \<and> days_in_year (tm_year t) = 366 then days1 + 1 else days1);
              t1 = t\<lparr>tm_yday := days2\<rparr>
          in if 10000 < tm_year t \<or> tm_year t < - 10000 then Some (tz0, t1, - 1)
             else
               let days = other_years (tm_year t) days2;
                   tim = wrap_s32 (tim1 + wrap_s32 (days * 86400));
                   tz1 = tzset_unlocked env tz0
               in case (if daylight tz1 then mktime_dst tz1 t1 tim days else Some (tz1, 0, t1, tim, days)) of
                    None \<Rightarrow> None
                  | Some (tz, isdst, t2, tim2, days3) \<Rightarrow>
                      let tim3 = wrap_s32 (tim2 + offset (tzrule tz (if isdst = 1 then 1 else 0)));
                          w = (days3 + 4) smod 7
                      in Some (tz, t2\<lparr>tm_isdst := isdst, tm_wday := (if w < 0 then w + 7 else w)\<rparr>, tim3))"

section \<open>The local date\<close>

lemma local_minutes_clock:
  assumes "- 60 < tm_sec r" "tm_sec r < 120" "- 60 < tm_min r" "tm_min r < 119" "- 24 < tm_hour r" "tm_hour r < 47"
  defines "l \<equiv> local_minutes r"
  shows "0 \<le> tm_sec l" "tm_sec l < 60" "0 \<le> tm_min l" "tm_min l < 60" "- 24 \<le> tm_hour l" "tm_hour l < 48"
    "tm_clock l = tm_clock r" "\<exists>s m h. l = r\<lparr>tm_sec := s, tm_min := m, tm_hour := h\<rparr>"
proof -
  show "0 \<le> tm_sec l" "tm_sec l < 60" "0 \<le> tm_min l" "tm_min l < 60" "- 24 \<le> tm_hour l" "tm_hour l < 48"
    "tm_clock l = tm_clock r"
    using assms(1-6) by (auto simp: l_def local_minutes_def Let_def tm_clock_def)
  show "\<exists>s m h. l = r\<lparr>tm_sec := s, tm_min := m, tm_hour := h\<rparr>"
    by (cases r) (auto simp: l_def local_minutes_def Let_def)
qed

lemma civil_next_month:
  assumes "0 \<le> mon" "mon < 11"
  shows "civil_day y (mon + 1) 1 = civil_day y mon (month_lengths (leap_year y) ! nat mon) + 1"
proof -
  have "nat (mon + 1) = Suc (nat mon)" using assms by simp
  then show ?thesis using month_end [of "nat mon" "leap_year y"] assms by (simp add: civil_day_def)
qed

lemma civil_next_year: "civil_day (y + 1) 0 1 = civil_day y 11 31 + 1"
  by (simp add: civil_day_def year_length month_start_def month_lengths_def)

lemma month_11: "month_lengths leap ! 11 = 31" by (simp add: month_lengths_def)

lemma month_nonempty: "0 \<le> mon \<Longrightarrow> mon < 12 \<Longrightarrow> 1 \<le> month_lengths leap ! nat mon"
  using month_lengths_range(1) [of "nat mon" leap] by linarith

lemma weekday_moved:
  "(if 6 < (4 + x) mod 7 + 1 then 0 else (4 + x) mod 7 + 1) = (4 + (x + 1)) mod (7 :: int)"
  "(if (4 + x) mod 7 - 1 < 0 then 6 else (4 + x) mod 7 - 1) = (4 + (x - 1)) mod (7 :: int)"
proof -
  have "0 \<le> (4 + x) mod 7" "(4 + x) mod 7 < 7" by simp_all
  then show "(if 6 < (4 + x) mod 7 + 1 then 0 else (4 + x) mod 7 + 1) = (4 + (x + 1)) mod 7"
    using mod_add_eq [of "4 + x" 7 1] by (cases "(4 + x) mod 7 = 6") (auto simp: mod_pos_pos_trivial)
  show "(if (4 + x) mod 7 - 1 < 0 then 6 else (4 + x) mod 7 - 1) = (4 + (x - 1)) mod 7"
    using mod_diff_eq [of "4 + x" 7 1] \<open>0 \<le> (4 + x) mod 7\<close> \<open>(4 + x) mod 7 < 7\<close>
    by (cases "(4 + x) mod 7 = 0") (auto simp: mod_pos_pos_trivial algebra_simps)
qed

text \<open>What the days of two dates have to do with each other.\<close>

lemma day_moved:
  assumes "tm_valid l" "tm_day l = tm_day r + k" "tm_clock l = tm_clock r - k * 86400"
    "tm_wday l = (4 + (tm_day r + k)) mod 7" "tm_yday l = tm_day r + k - year_start (tm_year l + 1900)" "tm_isdst l = tm_isdst r"
  shows "tm_valid l \<and> tm_seconds l = tm_seconds r \<and> tm_derived l \<and> tm_isdst l = tm_isdst r"
  using assms unfolding tm_seconds_def tm_derived_def by (simp add: algebra_simps)

text \<open>A time of day that runs into the day before or after.\<close>

lemma local_days_correct:
  assumes clock: "0 \<le> tm_sec r" "tm_sec r < 60" "0 \<le> tm_min r" "tm_min r < 60" "- 24 \<le> tm_hour r" "tm_hour r < 48"
    and date: "0 \<le> tm_mon r" "tm_mon r < 12" "1 \<le> tm_mday r" "tm_mday r \<le> month_lengths (leap_year (tm_year r + 1900)) ! nat (tm_mon r)"
    and der: "tm_derived r"
  defines "l \<equiv> local_days (month_lengths (leap_year (tm_year r + 1900))) r"
  shows "tm_valid l \<and> tm_seconds l = tm_seconds r \<and> tm_derived l \<and> tm_isdst l = tm_isdst r"
proof -
  let ?y = "tm_year r + 1900"
  let ?ip = "month_lengths (leap_year ?y)"
  have w: "tm_wday r = (4 + tm_day r) mod 7" and yd: "tm_yday r = tm_day r - year_start ?y"
    using der by (simp_all add: tm_derived_def)
  consider (same) "0 \<le> tm_hour r" "tm_hour r < 24" | (up) "24 \<le> tm_hour r" | (down) "tm_hour r < 0" by linarith
  then show ?thesis
  proof cases
    case same
    then have "l = r" by (simp add: l_def local_days_def)
    moreover have "tm_valid r" unfolding tm_valid_def using clock(1-4) date same by blast
    ultimately show ?thesis using der by (simp only:)
  next
    case up
    define wd where "wd = (if 6 < tm_wday r + 1 then 0 else tm_wday r + 1)"
    have wday: "wd = (4 + (tm_day r + 1)) mod 7" unfolding wd_def w weekday_moved(1) ..
    let ?r1 = "r\<lparr>tm_yday := tm_yday r + 1, tm_wday := wd,
        tm_hour := tm_hour r - 24\<rparr>"
    consider (day) "tm_mday r < ?ip ! nat (tm_mon r)" | (month) "tm_mday r = ?ip ! nat (tm_mon r)" "tm_mon r < 11"
      | (year) "tm_mday r = ?ip ! nat (tm_mon r)" "tm_mon r = 11" using date by linarith
    then show ?thesis
    proof cases
      case day
      then have l: "l = ?r1\<lparr>tm_mday := tm_mday r + 1\<rparr>" using up by (cases r) (simp add: l_def local_days_def Let_def wd_def)
      show ?thesis
        by (rule day_moved [where k = 1]; (use clock date up day in \<open>simp add: tm_valid_def l; fail\<close>)?)
          (simp_all add: l wday yd tm_day_def civil_day_def tm_clock_def)
    next
      case month
      then have l: "l = ?r1\<lparr>tm_mday := 1, tm_mon := tm_mon r + 1\<rparr>"
        using up by (cases r) (simp add: l_def local_days_def Let_def wd_def)
      have d: "tm_day l = tm_day r + 1" using civil_next_month [OF date(1) month(2)] by (simp add: l tm_day_def month(1))
      have "1 \<le> ?ip ! nat (tm_mon r + 1)" using month(2) date(1) by (intro month_nonempty) simp_all
      then have "tm_valid l" using clock date up month by (simp add: tm_valid_def l)
      then show ?thesis by (rule day_moved [OF _ d]) (simp_all add: l wday yd tm_clock_def)
    next
      case year
      then have m31: "tm_mday r = 31" by (simp add: month_11)
      then have l: "l = ?r1\<lparr>tm_yday := 0, tm_mday := 1, tm_mon := 0, tm_year := tm_year r + 1\<rparr>"
        using up year(2) by (cases r) (simp add: l_def local_days_def Let_def wd_def month_11)
      have d: "tm_day l = tm_day r + 1" "tm_day l = year_start (?y + 1)"
        using civil_next_year [of ?y] by (simp_all add: l tm_day_def year(2) m31 add.commute add.left_commute civil_day_def month_start_def)
      have "1 \<le> month_lengths b ! 0" for b by (simp add: month_lengths_def)
      then have "tm_valid l" using clock up by (simp add: tm_valid_def l)
      then show ?thesis by (rule day_moved [OF _ d(1)]) (use d in \<open>simp_all add: l wday tm_clock_def add.commute add.left_commute\<close>)
    qed
  next
    case down
    define wd where "wd = (if tm_wday r - 1 < 0 then 6 else tm_wday r - 1)"
    have wday: "wd = (4 + (tm_day r - 1)) mod 7" unfolding wd_def w weekday_moved(2) ..
    let ?r1 = "r\<lparr>tm_yday := tm_yday r - 1, tm_wday := wd,
        tm_hour := tm_hour r + 24\<rparr>"
    consider (day) "1 < tm_mday r" | (month) "tm_mday r = 1" "0 < tm_mon r" | (year) "tm_mday r = 1" "tm_mon r = 0"
      using date by linarith
    then show ?thesis
    proof cases
      case day
      then have l: "l = ?r1\<lparr>tm_mday := tm_mday r - 1\<rparr>" using down by (cases r) (simp add: l_def local_days_def Let_def wd_def)
      show ?thesis
        by (rule day_moved [where k = "- 1"]; (use clock date down day in \<open>simp add: tm_valid_def l; fail\<close>)?)
          (simp_all add: l wday yd tm_day_def civil_day_def tm_clock_def)
    next
      case month
      then have l: "l = ?r1\<lparr>tm_mday := ?ip ! nat (tm_mon r - 1), tm_mon := tm_mon r - 1\<rparr>"
        using down by (cases r) (simp add: l_def local_days_def Let_def wd_def)
      have d: "tm_day l = tm_day r - 1" using civil_next_month [of "tm_mon r - 1" ?y] month date(2) by (simp add: l tm_day_def)
      have "1 \<le> ?ip ! nat (tm_mon r - 1)" using month(2) date(2) by (intro month_nonempty) simp_all
      then have "tm_valid l" using clock date down month by (simp add: tm_valid_def l)
      then show ?thesis by (rule day_moved [where k = "- 1"]) (simp_all add: d l [symmetric], simp_all add: l wday yd tm_clock_def)
    next
      case year
      then have l: "l = ?r1\<lparr>tm_yday := 364 + (if leap_year (?y - 1) then 1 else 0), tm_mday := 31, tm_mon := 11, tm_year := tm_year r - 1\<rparr>"
        using down by (cases r) (simp add: l_def local_days_def Let_def wd_def month_11 isleap_leap_year algebra_simps)
      have d: "tm_day l = tm_day r - 1" "tm_day r = year_start ?y" "year_start ?y = year_start (?y - 1) + (if leap_year (?y - 1) then 366 else 365)"
        using civil_next_year [of "?y - 1"] year_length [of "?y - 1"]
        by (simp_all add: l tm_day_def year algebra_simps civil_day_def month_start_def)
      have "tm_valid l" using clock down by (simp add: tm_valid_def l month_11)
      then show ?thesis by (rule day_moved [where k = "- 1"]) (use d in \<open>simp_all add: l wday tm_clock_def algebra_simps\<close>)
    qed
  qed
qed


text \<open>Taking off an offset of less than a day.\<close>

lemma offset_split:
  fixes off :: int
  assumes "- 86400 < off" "off < 86400"
  defines "h \<equiv> off sdiv 3600" and "m \<equiv> off smod 3600 sdiv 60" and "s \<equiv> off smod 3600 smod 60"
  shows "h * 3600 + m * 60 + s = off" "- 24 < h" "h < 24" "- 60 < m" "m < 60" "- 60 < s" "s < 60"
proof -
  define p where "p = \<bar>off\<bar>"
  define a where "a = p mod 3600"
  have a: "0 \<le> a" "a < 3600" "0 \<le> p" "p < 86400" using assms(1,2) by (auto simp: a_def p_def)
  have sp: "p div 3600 * 3600 + a = p" "0 \<le> p div 3600" "p div 3600 < 24" using a by (simp_all add: a_def)
  have sa: "a div 60 * 60 + a mod 60 = a" "0 \<le> a div 60" "a div 60 < 60" "0 \<le> a mod 60" "a mod 60 < 60"
    using a(1,2) by (simp_all add: pos_imp_zdiv_nonneg_iff)
  have "h = p div 3600 \<and> m = a div 60 \<and> s = a mod 60 \<and> off = p \<or>
    h = - (p div 3600) \<and> m = - (a div 60) \<and> s = - (a mod 60) \<and> off = - p"
  proof (cases "0 \<le> off")
    case True
    then show ?thesis using a by (simp add: h_def m_def s_def p_def a_def sdiv_smod_pos)
  next
    case False
    have neg: "(- x) sdiv y = - (x div y) \<and> (- x) smod y = - (x mod y)" if "0 \<le> x" "0 \<le> y" for x y :: int
      using sdiv_smod_neg [of x y] that by (cases "x = 0") (auto simp: sdiv_smod_pos)
    have "off = - p" using False by (simp add: p_def)
    then show ?thesis using neg [of p 3600] neg [of a 60] a by (simp add: h_def m_def s_def a_def)
  qed
  then show "h * 3600 + m * 60 + s = off" "- 24 < h" "h < 24" "- 60 < m" "m < 60" "- 60 < s" "s < 60"
    using sp sa by linarith+
qed

lemma local_shift:
  fixes dst :: int
  assumes val: "tm_valid r" and der: "tm_derived r" and off: "- 86400 < off" "off < 86400"
  defines "h \<equiv> off sdiv 3600" and "m \<equiv> off smod 3600 sdiv 60" and "s \<equiv> off smod 3600 smod 60"
  defines "l \<equiv> local_days (month_lengths (leap_year (tm_year r + 1900)))
      (local_minutes (r\<lparr>tm_isdst := dst, tm_sec := tm_sec r - s, tm_min := tm_min r - m, tm_hour := tm_hour r - h\<rparr>))"
  shows "tm_valid l \<and> tm_seconds l = tm_seconds r - off \<and> tm_derived l \<and> tm_isdst l = dst"
proof -
  note hms = offset_split [OF off, folded h_def m_def s_def]
  let ?r = "r\<lparr>tm_isdst := dst, tm_sec := tm_sec r - s, tm_min := tm_min r - m, tm_hour := tm_hour r - h\<rparr>"
  define q where "q = local_minutes ?r"
  have v: "0 \<le> tm_sec r" "tm_sec r < 60" "0 \<le> tm_min r" "tm_min r < 60" "0 \<le> tm_hour r" "tm_hour r < 24"
    using val by (simp_all add: tm_valid_def)
  have "- 60 < tm_sec ?r" "tm_sec ?r < 120" "- 60 < tm_min ?r" "tm_min ?r < 119" "- 24 < tm_hour ?r" "tm_hour ?r < 47"
    using hms v by simp_all
  note q = local_minutes_clock [OF this, folded q_def]
  obtain s' m' h' where q': "q = ?r\<lparr>tm_sec := s', tm_min := m', tm_hour := h'\<rparr>" using q(8) by blast
  have "tm_valid l \<and> tm_seconds l = tm_seconds q \<and> tm_derived l \<and> tm_isdst l = tm_isdst q"
    using local_days_correct [OF q(1-6)] val der by (simp add: l_def q_def [symmetric] q' tm_valid_def tm_derived_def tm_day_def)
  moreover have "tm_day q = tm_day r" by (simp add: q' tm_day_def)
  moreover have "tm_clock ?r = tm_clock r - off" using hms by (simp add: tm_clock_def algebra_simps)
  ultimately show ?thesis using q(7) by (simp add: tm_seconds_def q')
qed

section \<open>mktime: the fields\<close>

lemma wrap_s32_wrap: "wrap_s32 (wrap_s32 x + y) = wrap_s32 (x + y)"
proof -
  define k where "k = (x + 2 ^ 31) div 2 ^ 32"
  have "wrap_s32 x = x - k * 2 ^ 32"
    using div_mult_mod_eq [of "x + 2 ^ 31" "2 ^ 32"] unfolding wrap_s32_def k_def by linarith
  then have "wrap_s32 x + y + 2 ^ 31 = x + y + 2 ^ 31 + (- k) * 2 ^ 32" by simp
  then show ?thesis unfolding wrap_s32_def [of "wrap_s32 x + y"] wrap_s32_def [of "x + y"] by (simp only: mod_mult_self1)
qed

lemma c_div_eq:
  assumes b: "0 < b" shows "c_div v b = (v sdiv b, v smod b)"
proof (cases "0 \<le> v")
  case True
  then have "0 \<le> v smod b" using b by (simp add: sdiv_smod_pos)
  then show ?thesis using True by (simp add: c_div_def Let_def)
next
  case False
  then have "v smod b \<le> 0" using sdiv_smod_neg [of "- v" b] b by simp
  then show ?thesis using False by (simp add: c_div_def Let_def)
qed

lemma carry_eq:
  assumes "0 < b" and "- (2 ^ 31) \<le> up" and "up < 2 ^ 31"
  shows "carry b v up = (v mod b, wrap_s32 (up + v div b))"
proof (cases "v < 0 \<or> b - 1 < v")
  case True
  show ?thesis
  proof (cases "v smod b < 0")
    case neg: True
    then have q: "v mod b = v smod b + b" "v div b = v sdiv b - 1" using sdiv_floor [OF assms(1), of v] by simp_all
    have "wrap_s32 (wrap_s32 (up + v sdiv b) - 1) = wrap_s32 (up + v div b)"
      using wrap_s32_wrap [of "up + v sdiv b" "- 1"] by (simp add: q algebra_simps)
    then show ?thesis using True neg by (simp add: carry_def c_div_eq assms(1) Let_def q(1))
  next
    case pos: False
    then show ?thesis using sdiv_floor [OF assms(1), of v] True by (simp add: carry_def c_div_eq assms(1) Let_def)
  qed
next
  case False
  then have "v div b = 0" "v mod b = v" using assms(1) by (simp_all add: div_pos_pos_trivial mod_pos_pos_trivial)
  then show ?thesis using False assms by (simp add: carry_def wrap_s32_id)
qed

lemma carry_small:
  assumes "0 < b" and "- 268435456 \<le> up" "up \<le> 268435456" and "- 536870912 \<le> up + v div b" "up + v div b \<le> 536870912"
  shows "carry b v up = (v mod b, up + v div b)"
proof -
  have "wrap_s32 (up + v div b) = up + v div b" by (rule wrap_s32_id) (use assms(4,5) in simp_all)
  then show ?thesis using carry_eq [OF assms(1), of up v] assms(2,3) by simp
qed

lemma tm_isleap_eq: "tm_isleap y = leap_year (y + 1900)"
proof -
  have "k dvd y + 1900 \<longleftrightarrow> k dvd y" if "k dvd 1900" for k :: int using that by (rule dvd_add_left_iff)
  from this [of 4] this [of 100] have d: "4 dvd y + 1900 \<longleftrightarrow> 4 dvd y" "100 dvd y + 1900 \<longleftrightarrow> 100 dvd y" by simp_all
  have "400 dvd y + 1900 \<Longrightarrow> 4 dvd y + 1900" by (rule dvd_trans [of 4 400]) simp_all
  then show ?thesis by (auto simp: tm_isleap_def leap_year_def smod_dvd d)
qed

lemma days_in_year_eq: "days_in_year y = (if leap_year (y + 1900) then 366 else 365)"
  by (simp add: days_in_year_def tm_isleap_eq)

lemma days_in_month_eq:
  assumes "0 \<le> mon" and "mon < 12"
  shows "days_in_month (feb_days y) mon = month_lengths (leap_year (y + 1900)) ! nat mon"
proof -
  have "mon = 0 \<or> mon = 1 \<or> mon = 2 \<or> mon = 3 \<or> mon = 4 \<or> mon = 5 \<or> mon = 6 \<or> mon = 7 \<or> mon = 8 \<or> mon = 9 \<or> mon = 10 \<or> mon = 11"
    using assms by arith
  then show ?thesis by (elim disjE; simp add: days_in_month_def feb_days_def days_in_year_eq month_lengths_def)
qed

lemma days_before_month_eq:
  assumes "0 \<le> mon" and "mon < 12"
  shows "days_before_month ! nat mon + (if 1 < mon \<and> leap then 1 else 0) = month_start leap (nat mon)"
proof -
  have "mon = 0 \<or> mon = 1 \<or> mon = 2 \<or> mon = 3 \<or> mon = 4 \<or> mon = 5 \<or> mon = 6 \<or> mon = 7 \<or> mon = 8 \<or> mon = 9 \<or> mon = 10 \<or> mon = 11"
    using assms by arith
  then show ?thesis by (elim disjE; simp add: days_before_month_def month_start_def month_lengths_def)
qed

text \<open>The loops over the months keep the day that is meant.\<close>

definition date_ok :: "int \<times> int \<times> int \<Rightarrow> bool" where
  "date_ok = (\<lambda>(mday, mon, y). 0 \<le> mon \<and> mon < 12 \<and> 1 \<le> mday \<and> mday \<le> month_lengths (leap_year (y + 1900)) ! nat mon)"

lemma civil_day_shift: "civil_day y mon (mday + k) = civil_day y mon mday + k" by (simp add: civil_day_def)

lemma civil_month_before:
  assumes "0 < mon" and "mon < 12"
  shows "civil_day y (mon - 1) (mday + month_lengths (leap_year y) ! nat (mon - 1)) = civil_day y mon mday"
  using civil_next_month [of "mon - 1" y] civil_day_shift [of y mon 1 "mday - 1"]
    civil_day_shift [of y "mon - 1" "month_lengths (leap_year y) ! nat (mon - 1)" mday] assms by (simp add: add.commute)

lemma civil_year_before: "civil_day (y - 1) 11 (mday + 31) = civil_day y 0 mday"
  using civil_next_year [of "y - 1"] civil_day_shift [of y 0 1 "mday - 1"] civil_day_shift [of "y - 1" 11 31 mday]
  by (simp add: add.commute)

lemma mday_down_correct:
  assumes "0 \<le> mon" "mon < 12" "mday \<le> 31" "mday \<le> month_lengths (leap_year (y + 1900)) ! nat mon" "mday \<le> 0 \<longrightarrow> - (2 ^ 31) < y + mday" "y < 2 ^ 31"
  shows "\<exists>d. mday_down mday mon y (feb_days y) = Some d \<and> date_ok d \<and>
    (case d of (mday', mon', y') \<Rightarrow> civil_day (y' + 1900) mon' mday' = civil_day (y + 1900) mon mday)"
  using assms
proof (induction "nat (1 - mday)" arbitrary: mday mon y rule: less_induct)
  case less
  show ?case
  proof (cases "mday \<le> 0")
    case False
    then show ?thesis using less.prems by (subst mday_down.simps) (simp add: date_ok_def)
  next
    case True
    show ?thesis
    proof (cases "mon = 0")
      case True: True
      have y: "wrap_s32 (y - 1) = y - 1" using less.prems \<open>mday \<le> 0\<close> by (intro wrap_s32_id) auto
      have len: "month_lengths (leap_year (y - 1 + 1900)) ! nat 11 = 31" by (simp add: month_11)
      have step: "mday_down mday mon y (feb_days y) = mday_down (mday + 31) 11 (y - 1) (feb_days (y - 1))"
        using \<open>mday \<le> 0\<close> True days_in_month_eq [of 11 "y - 1"] by (subst mday_down.simps) (simp add: y month_11)
      have "\<exists>d. mday_down (mday + 31) 11 (y - 1) (feb_days (y - 1)) = Some d \<and> date_ok d \<and>
          (case d of (mday', mon', y') \<Rightarrow> civil_day (y' + 1900) mon' mday' = civil_day (y - 1 + 1900) 11 (mday + 31))"
        by (rule less.hyps) (use less.prems \<open>mday \<le> 0\<close> len in auto)
      moreover have "civil_day (y - 1 + 1900) 11 (mday + 31) = civil_day (y + 1900) mon mday"
        using civil_year_before [of "y + 1900" mday] True by (simp add: algebra_simps)
      ultimately show ?thesis by (simp add: step)
    next
      case False
      let ?len = "month_lengths (leap_year (y + 1900)) ! nat (mon - 1)"
      have m: "0 \<le> mon - 1" "mon - 1 < 12" using False less.prems by auto
      have len: "28 \<le> ?len" "?len \<le> 31" using m by (auto intro: month_lengths_range)
      have step: "mday_down mday mon y (feb_days y) = mday_down (mday + ?len) (mon - 1) y (feb_days y)"
        using \<open>mday \<le> 0\<close> False less.prems days_in_month_eq [OF m] by (subst mday_down.simps) simp
      have "\<exists>d. mday_down (mday + ?len) (mon - 1) y (feb_days y) = Some d \<and> date_ok d \<and>
          (case d of (mday', mon', y') \<Rightarrow> civil_day (y' + 1900) mon' mday' = civil_day (y + 1900) (mon - 1) (mday + ?len))"
        by (rule less.hyps) (use less.prems \<open>mday \<le> 0\<close> len m in auto)
      then show ?thesis using civil_month_before [of mon "y + 1900" mday] False less.prems by (simp add: step)
    qed
  qed
qed

lemma mday_up_correct:
  assumes "0 \<le> mon" "mon < 12" "1 \<le> mday" "28 < mday \<longrightarrow> y + mday < 2 ^ 31" "- (2 ^ 31) \<le> y"
  shows "\<exists>d. mday_up mday mon y (feb_days y) = Some d \<and> date_ok d \<and>
    (case d of (mday', mon', y') \<Rightarrow> civil_day (y' + 1900) mon' mday' = civil_day (y + 1900) mon mday)"
  using assms
proof (induction "nat mday" arbitrary: mday mon y rule: less_induct)
  case less
  let ?len = "month_lengths (leap_year (y + 1900)) ! nat mon"
  have len: "28 \<le> ?len" "?len \<le> 31" using less.prems by (auto intro: month_lengths_range)
  note dim = days_in_month_eq [OF less.prems(1,2), of y]
  show ?case
  proof (cases "?len < mday")
    case False
    then show ?thesis using less.prems by (subst mday_up.simps) (simp add: date_ok_def dim)
  next
    case True
    show ?thesis
    proof (cases "mon = 11")
      case dec: True
      have y: "wrap_s32 (y + 1) = y + 1" using less.prems True len by (intro wrap_s32_id) auto
      have l31: "?len = 31" using dec by (simp add: month_11)
      have step: "mday_up mday mon y (feb_days y) = mday_up (mday - 31) 0 (y + 1) (feb_days (y + 1))"
        using True dec dim l31 by (subst mday_up.simps) (simp add: y)
      have "\<exists>d. mday_up (mday - 31) 0 (y + 1) (feb_days (y + 1)) = Some d \<and> date_ok d \<and>
          (case d of (mday', mon', y') \<Rightarrow> civil_day (y' + 1900) mon' mday' = civil_day (y + 1 + 1900) 0 (mday - 31))"
        by (rule less.hyps) (use less.prems True l31 in auto)
      moreover have "civil_day (y + 1 + 1900) 0 (mday - 31) = civil_day (y + 1900) mon mday"
        using civil_year_before [of "y + 1 + 1900" "mday - 31"] dec by (simp add: algebra_simps)
      ultimately show ?thesis by (simp add: step)
    next
      case False
      have step: "mday_up mday mon y (feb_days y) = mday_up (mday - ?len) (mon + 1) y (feb_days y)"
        using True False less.prems dim by (subst mday_up.simps) simp
      have "\<exists>d. mday_up (mday - ?len) (mon + 1) y (feb_days y) = Some d \<and> date_ok d \<and>
          (case d of (mday', mon', y') \<Rightarrow> civil_day (y' + 1900) mon' mday' = civil_day (y + 1900) (mon + 1) (mday - ?len))"
        by (rule less.hyps) (use less.prems True False len in auto)
      then show ?thesis using civil_month_before [of "mon + 1" "y + 1900" "mday - ?len"] False less.prems by (simp add: step)
    qed
  qed
qed

text \<open>The seconds that fields denote which need not be in their ranges.\<close>

definition tm_denote :: "tm \<Rightarrow> int" where
  "tm_denote t = civil_day (tm_year t + tm_mon t div 12 + 1900) (tm_mon t mod 12) (tm_mday t) * 86400 + tm_clock t"

definition tm_small :: "tm \<Rightarrow> bool" where
  "tm_small t \<longleftrightarrow> (\<forall>x \<in> {tm_sec t, tm_min t, tm_hour t, tm_mday t, tm_mon t, tm_year t}. \<bar>x\<bar> \<le> 2 ^ 28)"

lemma tm_denote_valid: "tm_valid t \<Longrightarrow> tm_denote t = tm_seconds t"
  by (simp add: tm_denote_def tm_valid_def tm_seconds_def tm_day_def div_pos_pos_trivial mod_pos_pos_trivial)

lemma validate_structure_correct:
  assumes "tm_small t"
  shows "\<exists>t'. validate_structure t = Some t' \<and> tm_valid t' \<and> tm_seconds t' = tm_denote t \<and> tm_isdst t' = tm_isdst t"
proof -
  have b: "- (268435456) \<le> tm_sec t" "tm_sec t \<le> 268435456" "- (268435456) \<le> tm_min t" "tm_min t \<le> 268435456" "- (268435456) \<le> tm_hour t"
    "tm_hour t \<le> 268435456" "- (268435456) \<le> tm_mday t" "tm_mday t \<le> 268435456" "- (268435456) \<le> tm_mon t" "tm_mon t \<le> 268435456"
    "- (268435456) \<le> tm_year t" "tm_year t \<le> 268435456"
    using assms by (simp_all add: tm_small_def abs_le_iff)
  define min1 where "min1 = tm_min t + tm_sec t div 60"
  define hour1 where "hour1 = tm_hour t + min1 div 60"
  define mday1 where "mday1 = tm_mday t + hour1 div 24"
  define year1 where "year1 = tm_year t + tm_mon t div 12"
  define mon1 where "mon1 = tm_mon t mod 12"
  have r1: "- 536870912 \<le> min1" "min1 \<le> 536870912" using b unfolding min1_def by linarith+
  have r2: "- 536870912 \<le> hour1" "hour1 \<le> 536870912" using b r1 unfolding hour1_def by linarith+
  have r3: "- 536870912 \<le> mday1" "mday1 \<le> 536870912" using b r2 unfolding mday1_def by linarith+
  have r4: "- 536870912 \<le> year1" "year1 \<le> 536870912" using b unfolding year1_def by linarith+
  have mon: "0 \<le> mon1" "mon1 < 12" by (simp_all add: mon1_def)
  have "carry 60 (tm_sec t) (tm_min t) = (tm_sec t mod 60, min1)"
    unfolding min1_def by (rule carry_small) (use b(3,4) r1 in \<open>simp_all add: min1_def\<close>)
  moreover have "carry 60 min1 (tm_hour t) = (min1 mod 60, hour1)"
    unfolding hour1_def by (rule carry_small) (use b(5,6) r2 in \<open>simp_all add: hour1_def\<close>)
  moreover have "carry 24 hour1 (tm_mday t) = (hour1 mod 24, mday1)"
    unfolding mday1_def by (rule carry_small) (use b(7,8) r3 in \<open>simp_all add: mday1_def\<close>)
  moreover have "carry 12 (tm_mon t) (tm_year t) = (mon1, year1)"
    unfolding mon1_def year1_def by (rule carry_small) (use b(11,12) r4 in \<open>simp_all add: year1_def\<close>)
  moreover have "\<exists>d. (if mday1 \<le> 0 then mday_down mday1 mon1 year1 (feb_days year1) else mday_up mday1 mon1 year1 (feb_days year1)) = Some d \<and>
      date_ok d \<and> (case d of (mday', mon', y') \<Rightarrow> civil_day (y' + 1900) mon' mday' = civil_day (year1 + 1900) mon1 mday1)"
  proof (cases "mday1 \<le> 0")
    case True
    have "mday1 \<le> month_lengths (leap_year (year1 + 1900)) ! nat mon1" using True month_nonempty [OF mon] by (smt (verit))
    then show ?thesis using mday_down_correct [OF mon, of mday1 year1] True r3 r4 by simp
  next
    case False
    then show ?thesis using mday_up_correct [OF mon, of mday1 year1] r3 r4 by simp
  qed
  ultimately obtain mday' mon' y' where v: "validate_structure t = Some (t\<lparr>tm_sec := tm_sec t mod 60, tm_min := min1 mod 60,
        tm_hour := hour1 mod 24, tm_mday := mday', tm_mon := mon', tm_year := y'\<rparr>)" "date_ok (mday', mon', y')"
      "civil_day (y' + 1900) mon' mday' = civil_day (year1 + 1900) mon1 mday1"
    by (auto simp: validate_structure_def)
  have "tm_clock t = hour1 div 24 * 86400 + (hour1 mod 24 * 3600 + min1 mod 60 * 60 + tm_sec t mod 60)"
    using div_mult_mod_eq [of "tm_sec t" 60] div_mult_mod_eq [of min1 60] div_mult_mod_eq [of hour1 24]
    unfolding tm_clock_def min1_def hour1_def by linarith
  moreover have "civil_day (year1 + 1900) mon1 mday1 = civil_day (year1 + 1900) mon1 (tm_mday t) + hour1 div 24"
    unfolding mday1_def by (rule civil_day_shift)
  moreover define t' where "t' = t\<lparr>tm_sec := tm_sec t mod 60, tm_min := min1 mod 60, tm_hour := hour1 mod 24,
      tm_mday := mday', tm_mon := mon', tm_year := y'\<rparr>"
  ultimately have "tm_seconds t' = tm_denote t"
    using v(3) by (simp add: tm_seconds_def tm_day_def tm_clock_def tm_denote_def year1_def mon1_def algebra_simps)
  moreover have "tm_valid t'" using v(2) by (simp add: tm_valid_def date_ok_def t'_def)
  ultimately show ?thesis using v(1) by (simp add: t'_def)
qed

lemma validate_structure_valid:
  assumes "tm_valid t" and "- (2 ^ 31) \<le> tm_year t" "tm_year t < 2 ^ 31"
  shows "validate_structure t = Some t"
proof -
  have v: "0 \<le> tm_sec t" "tm_sec t < 60" "0 \<le> tm_min t" "tm_min t < 60" "0 \<le> tm_hour t" "tm_hour t < 24" "0 \<le> tm_mon t"
    "tm_mon t < 12" "1 \<le> tm_mday t" "tm_mday t \<le> month_lengths (leap_year (tm_year t + 1900)) ! nat (tm_mon t)"
    using assms by (simp_all add: tm_valid_def)
  have "carry 60 (tm_sec t) u = (tm_sec t, u)" "carry 60 (tm_min t) u = (tm_min t, u)" "carry 24 (tm_hour t) u = (tm_hour t, u)"
    "carry 12 (tm_mon t) u = (tm_mon t, u)" for u using v by (simp_all add: carry_def)
  moreover have "mday_up (tm_mday t) (tm_mon t) (tm_year t) (feb_days (tm_year t)) = Some (tm_mday t, tm_mon t, tm_year t)"
    using v by (subst mday_up.simps) (simp add: days_in_month_eq)
  ultimately show ?thesis using v by (simp add: validate_structure_def)
qed

section \<open>mktime: the days of the years\<close>

lemma year_step: "year_start (y + 1 + 1900) = year_start (y + 1900) + days_in_year y"
  using year_length [of "y + 1900"] by (simp add: days_in_year_eq add.commute add.left_commute)

lemma years_up_eq:
  assumes "y \<le> stop" and "0 \<le> d" and "d + 366 * (stop - y) < 2 ^ 31"
  shows "years_up y stop d = d + year_start (stop + 1900) - year_start (y + 1900)"
  using assms
proof (induction "nat (stop - y)" arbitrary: y d)
  case 0
  then show ?case by (simp add: years_up.simps)
next
  case (Suc n)
  let ?d = "d + days_in_year y"
  note len = year_step [of y]
  have d: "365 \<le> days_in_year y" "days_in_year y \<le> 366" by (simp_all add: days_in_year_eq)
  have ys: "y < stop" using Suc.hyps(2) by simp
  then have "?d < 2 ^ 31" using Suc.prems d by simp
  then have w: "wrap_s32 ?d = ?d" using Suc.prems d by (intro wrap_s32_id) simp_all
  have "years_up y stop d = years_up (y + 1) stop ?d" using ys by (subst years_up.simps) (simp add: w)
  also have "\<dots> = ?d + year_start (stop + 1900) - year_start (y + 1 + 1900)"
    by (rule Suc.hyps(1)) (use Suc.hyps(2) Suc.prems d ys in auto)
  finally show ?case using len by simp
qed

lemma years_down_eq:
  assumes "stop \<le> y" and "d < 2 ^ 31" and "- (2 ^ 31) \<le> d - 366 * (y - stop + 1)"
  shows "years_down y stop d = d + year_start (stop + 1900) - year_start (y + 1 + 1900)"
  using assms
proof (induction "nat (y - stop)" arbitrary: y d)
  case 0
  let ?d = "d - days_in_year y"
  note len = year_step [of y]
  have d: "365 \<le> days_in_year y" "days_in_year y \<le> 366" by (simp_all add: days_in_year_eq)
  have ys: "y = stop" using 0 by simp
  then have "wrap_s32 ?d = ?d" using 0 d by (intro wrap_s32_id) simp_all
  then show ?case using ys len by (subst years_down.simps) simp
next
  case (Suc n)
  let ?d = "d - days_in_year y"
  note len = year_step [of y]
  have d: "365 \<le> days_in_year y" "days_in_year y \<le> 366" by (simp_all add: days_in_year_eq)
  have ys: "stop < y" using Suc.hyps(2) by simp
  have w: "wrap_s32 ?d = ?d" using Suc.prems d ys by (intro wrap_s32_id) simp_all
  have "years_down y stop d = years_down (y - 1) stop ?d" using ys by (subst years_down.simps) (simp add: w)
  also have "\<dots> = ?d + year_start (stop + 1900) - year_start (y - 1 + 1 + 1900)"
    by (rule Suc.hyps(1)) (use Suc.hyps(2) Suc.prems d ys in auto)
  finally show ?case using len by simp
qed

lemma other_years_eq:
  assumes "\<bar>year\<bar> \<le> 10000" and "0 \<le> d" and "d \<le> 366"
  shows "other_years year d = d + year_start (year + 1900)"
proof -
  consider "70 < year" | "year < 70" | "year = 70" by linarith
  then show ?thesis
  proof cases
    case 1
    then show ?thesis using years_up_eq [of 70 year d] assms year_start_1970 by (simp add: other_years_def)
  next
    case 2
    then show ?thesis using years_down_eq [of year 69 d] assms year_start_1970 by (simp add: other_years_def)
  next
    case 3
    then show ?thesis using year_start_1970 by (simp add: other_years_def)
  qed
qed

section \<open>mktime\<close>

lemma month_start_range: "0 \<le> mon \<Longrightarrow> mon < 12 \<Longrightarrow> 0 \<le> month_start leap (nat mon) \<and>
    month_start leap (nat mon) + month_lengths leap ! nat mon \<le> (if leap then 366 else 365)"
proof -
  assume "0 \<le> mon" "mon < 12"
  then have "mon = 0 \<or> mon = 1 \<or> mon = 2 \<or> mon = 3 \<or> mon = 4 \<or> mon = 5 \<or> mon = 6 \<or> mon = 7 \<or> mon = 8 \<or> mon = 9 \<or> mon = 10 \<or> mon = 11"
    by arith
  then show ?thesis by (elim disjE; simp add: month_start_def month_lengths_def)
qed

lemma tm_day_of_year:
  assumes "tm_valid t"
  shows "0 \<le> tm_day t - year_start (tm_year t + 1900)" and "tm_day t - year_start (tm_year t + 1900) < 366"
proof -
  have "0 \<le> tm_mon t" "tm_mon t < 12" "1 \<le> tm_mday t" "tm_mday t \<le> month_lengths (leap_year (tm_year t + 1900)) ! nat (tm_mon t)"
    using assms by (simp_all add: tm_valid_def)
  then show "0 \<le> tm_day t - year_start (tm_year t + 1900)" "tm_day t - year_start (tm_year t + 1900) < 366"
    using month_start_range [of "tm_mon t" "leap_year (tm_year t + 1900)"] by (auto simp: tm_day_def civil_day_def split: if_splits)
qed

text \<open>\<open>mktime\<close> behind the normalisation: the day of the year, the days since 1970 and the seconds.\<close>

lemma mktime_normal:
  fixes env tz
  assumes val: "validate_structure t0 = Some t" "tm_valid t" and year: "\<bar>tm_year t\<bar> \<le> 10000"
  defines "t1 \<equiv> t\<lparr>tm_yday := tm_day t - year_start (tm_year t + 1900)\<rparr>" and "tz1 \<equiv> tzset_unlocked env tz"
  shows "mktime env tz t0 =
    (case (if daylight tz1 then mktime_dst tz1 t1 (wrap_s32 (tm_seconds t)) (tm_day t) else Some (tz1, 0, t1, wrap_s32 (tm_seconds t), tm_day t)) of
       None \<Rightarrow> None
     | Some (tz', isdst, t2, tim, days) \<Rightarrow>
         Some (tz', t2\<lparr>tm_isdst := isdst, tm_wday := (days + 4) mod 7\<rparr>,
               wrap_s32 (tim + offset (tzrule tz' (if isdst = 1 then 1 else 0)))))"
proof -
  let ?leap = "leap_year (tm_year t + 1900)"
  let ?d = "tm_day t - year_start (tm_year t + 1900)"
  have mon: "0 \<le> tm_mon t" "tm_mon t < 12" using val(2) by (simp_all add: tm_valid_def)
  have "(if 1 < tm_mon t \<and> days_in_year (tm_year t) = 366 then tm_mday t - 1 + days_before_month ! nat (tm_mon t) + 1
      else tm_mday t - 1 + days_before_month ! nat (tm_mon t)) = ?d"
    using days_before_month_eq [OF mon, of ?leap] by (auto simp: tm_day_def civil_day_def days_in_year_eq)
  moreover have "other_years (tm_year t) ?d = tm_day t"
    using other_years_eq [OF year, of ?d] tm_day_of_year [OF val(2)] by simp
  moreover have "wrap_s32 (tm_sec t + tm_min t * 60 + tm_hour t * 3600 + wrap_s32 (tm_day t * 86400)) = wrap_s32 (tm_seconds t)"
    using wrap_s32_wrap [of "tm_day t * 86400" "tm_sec t + tm_min t * 60 + tm_hour t * 3600"]
    by (simp add: tm_seconds_def tm_clock_def algebra_simps)
  moreover have "(if (d + 4) smod 7 < 0 then (d + 4) smod 7 + 7 else (d + 4) smod 7) = (d + 4) mod 7" for d :: int
    using weekday_mod [of "d + 4"] by (simp add: Let_def)
  moreover have "\<not> (10000 < tm_year t \<or> tm_year t < - 10000)" using year by linarith
  ultimately show ?thesis
    using val(1) unfolding mktime_def t1_def tz1_def by (simp add: Let_def split: option.splits prod.splits)
qed

lemma mktime_far:
  "validate_structure t0 = Some t \<Longrightarrow> 10000 < \<bar>tm_year t\<bar> \<Longrightarrow> \<exists>yday. mktime env tz t0 = Some (tz, t\<lparr>tm_yday := yday\<rparr>, - 1)"
  by (auto simp: mktime_def Let_def)

lemma tm_valid_update [simp]:
  "tm_valid (t\<lparr>tm_yday := a\<rparr>) = tm_valid t" "tm_valid (t\<lparr>tm_isdst := b\<rparr>) = tm_valid t" "tm_valid (t\<lparr>tm_wday := c\<rparr>) = tm_valid t"
  by (simp_all add: tm_valid_def)

lemma tm_day_update [simp]:
  "tm_day (t\<lparr>tm_yday := a\<rparr>) = tm_day t" "tm_day (t\<lparr>tm_isdst := b\<rparr>) = tm_day t" "tm_day (t\<lparr>tm_wday := c\<rparr>) = tm_day t"
  "tm_clock (t\<lparr>tm_yday := a\<rparr>) = tm_clock t" "tm_clock (t\<lparr>tm_isdst := b\<rparr>) = tm_clock t" "tm_clock (t\<lparr>tm_wday := c\<rparr>) = tm_clock t"
  by (simp_all add: tm_day_def tm_clock_def)

lemma tm_seconds_update [simp]:
  "tm_seconds (t\<lparr>tm_yday := a\<rparr>) = tm_seconds t" "tm_seconds (t\<lparr>tm_isdst := b\<rparr>) = tm_seconds t" "tm_seconds (t\<lparr>tm_wday := c\<rparr>) = tm_seconds t"
  by (simp_all add: tm_seconds_def)

text \<open>C9: In a zone without summer time, \<open>mktime\<close> on any fields up to \<open>2 ^ 28\<close> in size, in or out of their ranges, returns,
  brings them into their ranges as the same time, fills in the day of the week and of the year, and gives the
  number of seconds modulo \<open>2 ^ 32\<close>; beyond ten thousand years it gives -1.\<close>

theorem mktime_correct:
  assumes "tm_small t" and "\<not> daylight (tzset_unlocked env tz)"
  shows "\<exists>tz' t' r. mktime env tz t = Some (tz', t', r) \<and> tm_valid t' \<and> tm_seconds t' = tm_denote t \<and>
    (if \<bar>tm_year t'\<bar> \<le> 10000
     then tz' = tzset_unlocked env tz \<and> tm_derived t' \<and> tm_isdst t' = 0 \<and> r = wrap_s32 (tm_denote t + offset (tzrule tz' 0))
     else r = - 1)"
proof -
  obtain t1 where t1: "validate_structure t = Some t1" "tm_valid t1" "tm_seconds t1 = tm_denote t"
    using validate_structure_correct [OF assms(1)] by blast
  show ?thesis
  proof (cases "\<bar>tm_year t1\<bar> \<le> 10000")
    case True
    then show ?thesis
      using mktime_normal [OF t1(1,2) True, of env tz] assms(2) t1(2,3) wrap_s32_wrap
      by (auto simp: tm_derived_def add.commute)
  next
    case False
    then obtain yday where "mktime env tz t = Some (tz, t1\<lparr>tm_yday := yday\<rparr>, - 1)"
      using mktime_far [OF t1(1), of env tz] by auto
    then show ?thesis using t1(2,3) False
      by (intro exI [of _ tz] exI [of _ "t1\<lparr>tm_yday := yday\<rparr>"] exI [of _ "- 1"]) simp
  qed
qed

section \<open>Local time and back\<close>

text \<open>A time of 32 bits lies within a few decades of 1970.\<close>

lemma tm_year_small:
  assumes "tm_valid t" and "\<bar>tm_seconds t\<bar> \<le> 2 ^ 32"
  shows "\<bar>tm_year t\<bar> \<le> 10000"
proof -
  let ?y = "tm_year t + 1900"
  have "0 \<le> tm_clock t" "tm_clock t < 86400" using assms(1) by (auto simp: tm_valid_def tm_clock_def)
  then have d: "- 49711 \<le> tm_day t" "tm_day t \<le> 49711" using assms(2) by (auto simp: tm_seconds_def abs_le_iff)
  then have s: "- 50077 \<le> year_start ?y" "year_start ?y \<le> 49711" using tm_day_of_year [OF assms(1)] by linarith+
  have "4 * ((?y - 1) div 4) \<le> ?y - 1" "?y - 1 \<le> 4 * ((?y - 1) div 4) + 3" "100 * ((?y - 1) div 100) \<le> ?y - 1"
    "?y - 1 \<le> 100 * ((?y - 1) div 100) + 99" "400 * ((?y - 1) div 400) \<le> ?y - 1" "?y - 1 \<le> 400 * ((?y - 1) div 400) + 399"
    by auto
  then show ?thesis using s unfolding year_start_def by (simp add: abs_le_iff)
qed

lemma localtime_r_parts:
  assumes loc: "localtime_r env tz0 t = (tz, r)"
    and off: "\<And>i. i \<le> 1 \<Longrightarrow> \<bar>offset (tzrule tz i)\<bar> < 86400"
  shows "local_isdst (tzset_unlocked env tz0) (tm_year (gmtime_r t) + 1900) t = (tz, tm_isdst r)"
    and "tm_valid r" and "tm_seconds r = t - offset (tzrule tz (if tm_isdst r = 1 then 1 else 0))" and "tm_derived r"
proof -
  obtain tz' isdst where d: "local_isdst (tzset_unlocked env tz0) (tm_year (gmtime_r t) + 1900) t = (tz', isdst)" by (rule prod.exhaust)
  have tz': "tz' = tz" using loc d by (simp add: localtime_r_def Let_def)
  let ?off = "offset (tzrule tz (if isdst = 1 then 1 else 0))"
  have o: "- 86400 < ?off" "?off < 86400" using off [of 0] off [of 1] by (auto simp: abs_less_iff)
  have r: "r = local_days (month_lengths (leap_year (tm_year (gmtime_r t) + 1900)))
      (local_minutes (gmtime_r t\<lparr>tm_isdst := isdst, tm_sec := tm_sec (gmtime_r t) - ?off smod 3600 smod 60,
        tm_min := tm_min (gmtime_r t) - ?off smod 3600 sdiv 60, tm_hour := tm_hour (gmtime_r t) - ?off sdiv 3600\<rparr>))"
    using loc d tz' by (simp add: localtime_r_def Let_def isleap_leap_year)
  have "tm_valid r \<and> tm_seconds r = tm_seconds (gmtime_r t) - ?off \<and> tm_derived r \<and> tm_isdst r = isdst"
    unfolding r by (rule local_shift [OF gmtime_r_civil(1,3) o])
  then show "local_isdst (tzset_unlocked env tz0) (tm_year (gmtime_r t) + 1900) t = (tz, tm_isdst r)" "tm_valid r"
    "tm_seconds r = t - offset (tzrule tz (if tm_isdst r = 1 then 1 else 0))" "tm_derived r"
    using d tz' gmtime_r_civil(2) by auto
qed

text \<open>Once the variable is parsed, parsing it again changes nothing.\<close>

lemma prev_tzenv_set_rule [simp]: "prev_tzenv (set_rule i f tz) = prev_tzenv tz" by (simp add: set_rule_def)

lemma prev_tzenv_tzcalc: "prev_tzenv (fst (tzcalc_limits y tz)) = prev_tzenv tz"
  by (simp add: tzcalc_limits_def Let_def)

lemma prev_tzenv_parse_rule: "prev_tzenv (fst (parse_rule i xs tz)) = prev_tzenv tz"
  by (auto simp: parse_rule_def Let_def split: option.splits prod.splits list.splits if_splits)

lemma parse_rule_prev: "parse_rule i xs tz = (tz', rest) \<Longrightarrow> prev_tzenv tz' = prev_tzenv tz"
  using prev_tzenv_parse_rule [of i xs tz] by simp

lemma tzset_prev: "TZ env = Some s \<Longrightarrow> malloc_ok env \<Longrightarrow> prev_tzenv (tzset_unlocked env tz) = Some s"
  by (auto simp: tzset_unlocked_def Let_def prev_tzenv_tzcalc split: option.splits prod.splits if_splits dest!: parse_rule_prev)

lemma tzset_settled:
  assumes env: "TZ env = None \<or> malloc_ok env" and loc: "local_isdst (tzset_unlocked env tz0) year t = (tz, dst)"
  shows "tzset_unlocked env tz = tz"
proof (cases "TZ env")
  case None
  then have "tz = tzset_unlocked env tz0" using loc by (simp add: local_isdst_def tzset_unlocked_def)
  then show ?thesis using None by (simp add: tzset_unlocked_def)
next
  case (Some s)
  have "prev_tzenv tz = prev_tzenv (tzset_unlocked env tz0)"
    using loc prev_tzenv_tzcalc [of year "tzset_unlocked env tz0"]
    by (auto simp: local_isdst_def Let_def split: if_splits prod.splits)
  then show ?thesis using tzset_prev [of env s tz0] Some env by (simp add: tzset_unlocked_def)
qed

lemma tm_eta: "tm_yday t = y \<Longrightarrow> tm_isdst t = d \<Longrightarrow> tm_wday t = w \<Longrightarrow> t\<lparr>tm_yday := y\<rparr>\<lparr>tm_isdst := d, tm_wday := w\<rparr> = (t :: tm)"
  by simp

text \<open>What \<open>mktime\<close> finds out about summer time agrees with what \<open>localtime\<close> had told.\<close>

lemma mktime_dst_agrees:
  assumes isdst: "local_isdst tz0 (tm_year r + 1900) t = (tz, tm_isdst r)" "daylight tz0"
    and tim: "tim = t - offset (tzrule tz (if tm_isdst r = 1 then 1 else 0))"
    and off: "offset (tzrule tz 1) \<le> offset (tzrule tz 0)" "\<And>i. i \<le> 1 \<Longrightarrow> \<bar>offset (tzrule tz i)\<bar> < 86400"
    and ch: "\<And>i. i \<le> 1 \<Longrightarrow> \<bar>change (tzrule tz i)\<bar> < 2 ^ 31 - 86400"
    and r1: "tm_isdst r1 = tm_isdst r" "tm_year r1 = tm_year r"
  shows "mktime_dst tz r1 tim days = Some (tz, tm_isdst r, r1, tim, days)"
proof -
  let ?y = "tm_year r + 1900"
  obtain tz2 ok where lim: "(if ?y = tzyear tz0 then (tz0, True) else tzcalc_limits ?y tz0) = (tz2, ok)" by (rule prod.exhaust)
  have tz2: "tz2 = tz" using isdst lim by (simp add: local_isdst_def Let_def)
  have again: "(if ?y = tzyear tz then (tz, True) else tzcalc_limits ?y tz) = (tz, ok)"
    using lim tz2 by (auto simp: tzcalc_limits_def Let_def set_rule_def split: if_splits)
  let ?c0 = "change (tzrule tz 0)" and ?c1 = "change (tzrule tz 1)" and ?o0 = "offset (tzrule tz 0)" and ?o1 = "offset (tzrule tz 1)"
  have dst: "tm_isdst r = (if ok then (if (if tznorth tz then ?c0 \<le> t \<and> t < ?c1 else ?c0 \<le> t \<or> t < ?c1) then 1 else 0) else - 1)"
    by (rule sym) (use isdst lim tz2 in \<open>simp add: local_isdst_def Let_def del: One_nat_def split del: if_split\<close>)
  have w: "wrap_s32 (?c0 - ?o1) = ?c0 - ?o1" "wrap_s32 (?c1 - ?o1) = ?c1 - ?o1" "wrap_s32 (?c1 - ?o0) = ?c1 - ?o0"
    using off(2) [of 0] off(2) [of 1] ch [of 0] ch [of 1] by (auto intro!: wrap_s32_id simp: abs_less_iff)
  show ?thesis
  proof (cases ok)
    case False
    then show ?thesis using dst again r1 by (simp add: mktime_dst_def Let_def)
  next
    case True
    let ?overlap = "?c1 - ?o0 \<le> tim \<and> tim < ?c1 - ?o1"
    define D where "D = (if (if tznorth tz then ?c0 - ?o1 \<le> tim \<and> tim < ?c1 - ?o0 else ?c0 - ?o1 \<le> tim \<or> tim < ?c1 - ?o0) then 1 else 0 :: int)"
    have "\<not> ?overlap \<Longrightarrow> D = tm_isdst r" unfolding D_def
      using dst True tim off(1) by (auto split: if_splits)
    moreover have c: "(if 0 < tm_isdst r1 then 1 else tm_isdst r1) = tm_isdst r" using dst True r1 by simp
    have "mktime_dst tz r1 tim days =
        (if \<not> ok \<or> ?overlap then Some (tz, tm_isdst r, r1, tim, days)
         else if 0 \<le> tm_isdst r \<and> D \<noteq> tm_isdst r
              then map_option (\<lambda>(t', tim', days'). (tz, D, t', tim', days')) (correct_dst tz D r1 tim days)
              else Some (tz, D, r1, tim, days))"
      unfolding mktime_dst_def Let_def r1(2) again prod.case w c D_def ..
    ultimately show ?thesis using True by (cases ?overlap) simp_all
  qed
qed

text \<open>C7: \<open>mktime\<close> is the inverse of \<open>localtime\<close>: on the fields \<open>localtime\<close> gave it returns the time they came from
  and leaves them as they are, also while summer time is in effect or an hour comes twice. For a zone with summer
  time this is shown where summer time is not behind standard time and the local year is the year in Greenwich;
  around New Year it fails, see \<open>mktime_new_year\<close>. Times within a day of the limits of \<open>time_t\<close> are left out.\<close>

theorem mktime_localtime:
  assumes loc: "localtime_r env tz0 t = (tz, r)" and env: "TZ env = None \<or> malloc_ok env"
    and t: "\<bar>t\<bar> < 2 ^ 31 - 86400" and off: "\<And>i. i \<le> 1 \<Longrightarrow> \<bar>offset (tzrule tz i)\<bar> < 86400"
    and dst: "daylight tz \<Longrightarrow> offset (tzrule tz 1) \<le> offset (tzrule tz 0) \<and> tm_year r = tm_year (gmtime_r t)"
    and ch: "\<And>i. daylight tz \<Longrightarrow> i \<le> 1 \<Longrightarrow> \<bar>change (tzrule tz i)\<bar> < 2 ^ 31 - 86400"
  shows "mktime env tz r = Some (tz, r, t)"
proof -
  note parts = localtime_r_parts [OF loc off]
  let ?off = "offset (tzrule tz (if tm_isdst r = 1 then 1 else 0))"
  have o: "\<bar>?off\<bar> < 86400" using off [of 0] off [of 1] by simp
  have "\<bar>tm_seconds r\<bar> \<le> 2 ^ 32" using parts(3) t o by (simp add: abs_if split: if_splits)
  then have y: "\<bar>tm_year r\<bar> \<le> 10000" using tm_year_small [OF parts(2)] by simp
  have val: "validate_structure r = Some r" using validate_structure_valid [OF parts(2)] y by (simp add: abs_le_iff)
  have settled: "tzset_unlocked env tz = tz" by (rule tzset_settled [OF env parts(1)])
  have w: "wrap_s32 (tm_seconds r) = tm_seconds r" "wrap_s32 (tm_seconds r + ?off) = t"
    using parts(3) t o by (auto intro!: wrap_s32_id simp: abs_less_iff)
  have day: "daylight tz = daylight (tzset_unlocked env tz0)"
    using parts(1) by (auto simp: local_isdst_def Let_def tzcalc_limits_def set_rule_def split: if_splits)
  let ?r1 = "r\<lparr>tm_yday := tm_day r - year_start (tm_year r + 1900)\<rparr>"
  have fields: "?r1 = r" "(tm_day r + 4) mod 7 = tm_wday r" using parts(4) by (simp_all add: tm_derived_def add.commute)
  show ?thesis
  proof (cases "daylight tz")
    case True
    have "mktime_dst tz r (tm_seconds r) (tm_day r) = Some (tz, tm_isdst r, r, tm_seconds r, tm_day r)"
      using mktime_dst_agrees [of "tzset_unlocked env tz0" r t tz "tm_seconds r" r "tm_day r"] parts(1,3) dst True off ch day by simp
    then show ?thesis using mktime_normal [OF val parts(2) y, of env tz] True w by (simp add: settled fields)
  next
    case False
    then have "tm_isdst r = 0" using parts(1) day by (simp add: local_isdst_def)
    then show ?thesis using mktime_normal [OF val parts(2) y, of env tz] False w by (simp add: settled fields)
  qed
qed

text \<open>A zone five hours west of Greenwich with summer time, in June 1970.\<close>

definition demo_zone :: tz_state where
  "demo_zone = tz_start\<lparr>tzyear := 1970, daylight := True, prev_tzenv := Some [69],
     tzrule := (\<lambda>i. if i = 0 then \<lparr>rule_ch = 77, rule_m = 4, rule_n = 1, rule_d = 0, rule_s = 7200, change = 10000000, offset = 18000\<rparr>
       else \<lparr>rule_ch = 77, rule_m = 10, rule_n = 5, rule_d = 0, rule_s = 7200, change = 25000000, offset = 14400\<rparr>)\<rparr>"

definition demo_env :: tz_env where "demo_env = \<lparr>TZ = Some [69], malloc_ok = True\<rparr>"

lemma demo_local:
  "localtime_r demo_env demo_zone 15000000 = (demo_zone, \<lparr>tm_sec = 0, tm_min = 40, tm_hour = 10, tm_mday = 23, tm_mon = 5,
     tm_year = 70, tm_wday = 2, tm_yday = 173, tm_isdst = 1\<rparr>)"
proof -
  have g: "gmtime_r 15000000 = \<lparr>tm_sec = 0, tm_min = 40, tm_hour = 14, tm_mday = 23, tm_mon = 5,
     tm_year = 70, tm_wday = 2, tm_yday = 173, tm_isdst = 0\<rparr>" by code_simp
  have z: "tzset_unlocked demo_env demo_zone = demo_zone" by (simp add: tzset_unlocked_def demo_env_def demo_zone_def)
  have l: "local_isdst demo_zone 1970 15000000 = (demo_zone, 1)" by (simp add: local_isdst_def demo_zone_def tz_start_def)
  have o: "offset (tzrule demo_zone 1) = 14400" by (simp add: demo_zone_def)
  have hms: "14400 sdiv 3600 = (4 :: int)" "14400 smod 3600 sdiv 60 = (0 :: int)" "14400 smod 3600 smod 60 = (0 :: int)" by code_simp+
  have "\<not> isleap 1970" by code_simp
  then show ?thesis unfolding localtime_r_def g z Let_def by (simp add: l o hms local_minutes_def local_days_def del: One_nat_def)
qed

lemma demo_zone_bounds: "\<bar>offset (tzrule demo_zone i)\<bar> < 86400" "\<bar>change (tzrule demo_zone i)\<bar> < 2 ^ 31 - 86400"
  "offset (tzrule demo_zone 1) \<le> offset (tzrule demo_zone 0)" "prev_tzenv demo_zone = TZ demo_env" "malloc_ok demo_env"
  by (simp_all add: demo_zone_def demo_env_def)

text \<open>C11: \<open>localtime\<close> gives a valid date and time of day, with the right day of the week and of the year,
  that lies the offset in effect before the time in Greenwich.\<close>

theorem localtime_correct:
  assumes "localtime_r env tz0 t = (tz, r)" and "\<And>i. i \<le> 1 \<Longrightarrow> \<bar>offset (tzrule tz i)\<bar> < 86400"
  shows "tm_valid r \<and> tm_seconds r = t - offset (tzrule tz (if tm_isdst r = 1 then 1 else 0)) \<and> tm_derived r"
  using localtime_r_parts [OF assms] by blast

theorem localtime_correct_witness:
  "tm_seconds \<lparr>tm_sec = 0, tm_min = 40, tm_hour = 10, tm_mday = 23, tm_mon = 5, tm_year = 70, tm_wday = 2, tm_yday = 173,
     tm_isdst = 1\<rparr> = 15000000 - 14400"
  using localtime_correct [OF demo_local demo_zone_bounds(1)] by (simp add: demo_zone_def)

theorem mktime_localtime_witness:
  "mktime demo_env demo_zone (snd (localtime_r demo_env demo_zone 15000000)) =
     Some (demo_zone, snd (localtime_r demo_env demo_zone 15000000), 15000000)"
proof -
  have "gmtime_r 15000000 = \<lparr>tm_sec = 0, tm_min = 40, tm_hour = 14, tm_mday = 23, tm_mon = 5,
     tm_year = 70, tm_wday = 2, tm_yday = 173, tm_isdst = 0\<rparr>" by code_simp
  then show ?thesis
    using mktime_localtime [OF demo_local _ _ demo_zone_bounds(1) _ demo_zone_bounds(2)] demo_zone_bounds(3,5)
    by (simp add: demo_local)
qed

text \<open>The first second that 32 bits cannot count wraps around, where -1 is announced.\<close>

theorem mktime_correct_witness:
  "\<exists>tz' t'. mktime \<lparr>TZ = None, malloc_ok = True\<rparr> tz_start \<lparr>tm_sec = 8, tm_min = 14, tm_hour = 3, tm_mday = 19, tm_mon = 0,
     tm_year = 138, tm_wday = 0, tm_yday = 0, tm_isdst = 0\<rparr> = Some (tz', t', - (2 ^ 31))"
proof -
  let ?t = "\<lparr>tm_sec = 8, tm_min = 14, tm_hour = 3, tm_mday = 19, tm_mon = 0, tm_year = 138, tm_wday = 0, tm_yday = 0, tm_isdst = 0\<rparr>"
  let ?env = "\<lparr>TZ = None, malloc_ok = True\<rparr>"
  have s: "tm_small ?t" by (simp add: tm_small_def)
  have d: "tm_denote ?t = 2147483648" by code_simp
  have z: "\<not> daylight (tzset_unlocked ?env tz_start)" "offset (tzrule (tzset_unlocked ?env tz_start) 0) = 0"
    by (simp_all add: tzset_unlocked_def tz_start_def)
  have w: "wrap_s32 2147483648 = - 2147483648" by code_simp
  obtain tz' t' r where m: "mktime ?env tz_start ?t = Some (tz', t', r)" "tm_valid t'" "tm_seconds t' = 2147483648"
    "if \<bar>tm_year t'\<bar> \<le> 10000 then tz' = tzset_unlocked ?env tz_start \<and> tm_derived t' \<and> tm_isdst t' = 0 \<and>
       r = wrap_s32 (2147483648 + offset (tzrule tz' 0)) else r = - 1"
    using mktime_correct [OF s z(1)] unfolding d by blast
  have "\<bar>tm_year t'\<bar> \<le> 10000" by (rule tm_year_small [OF m(2)]) (simp add: m(3))
  then have "r = - (2 ^ 31)" using m(4) z(2) w by simp
  then show ?thesis using m(1) by blast
qed

text \<open>C15: When the variable \<open>TZ\<close> is not set, \<open>localtime\<close> does not give the time in Greenwich but keeps the
  offset of the zone that was set before.\<close>

theorem tz_unset_keeps_offset:
  assumes "TZ env = None" and "\<And>i. i \<le> 1 \<Longrightarrow> \<bar>offset (tzrule tz i)\<bar> < 86400"
  shows "tz_timezone (tzset_unlocked env tz) = 0 \<and> tm_seconds (snd (localtime_r env tz t)) = t - offset (tzrule tz 0)"
proof -
  obtain tz' r where loc: "localtime_r env tz t = (tz', r)" by (rule prod.exhaust)
  have unset: "\<not> daylight (tzset_unlocked env tz)" "tzrule (tzset_unlocked env tz) = tzrule tz" "tz_timezone (tzset_unlocked env tz) = 0"
    using assms(1) by (simp_all add: tzset_unlocked_def)
  have tz': "tz' = tzset_unlocked env tz" using loc unset(1) by (simp add: localtime_r_def local_isdst_def Let_def)
  note parts = localtime_r_parts [OF loc, unfolded tz' unset(2), OF assms(2)]
  have "tm_isdst r = 0" using parts(1) unset(1) by (simp add: local_isdst_def)
  then show ?thesis using parts(3) unset(3) by (simp add: loc)
qed

theorem tz_unset_keeps_offset_witness:
  "tm_seconds (snd (localtime_r \<lparr>TZ = None, malloc_ok = True\<rparr> demo_zone 0)) = - 18000"
  using tz_unset_keeps_offset [of "\<lparr>TZ = None, malloc_ok = True\<rparr>" demo_zone 0] by (simp add: demo_zone_def)

text \<open>
  \<open>localtime\<close> takes the rules of the year that is current in Greenwich and not of the local one, and before 1970
  there are none. In New Zealand, where summer goes over New Year, the hour before 1970 in Greenwich gives the
  first of January 1970, 11 o'clock, without knowing of summer time; \<open>mktime\<close> takes these fields for summer time and
  returns a time an hour earlier.
\<close>

declare mday_down.simps [code] mday_up.simps [code]

definition demo_nz :: tz_env where
  "demo_nz = \<lparr>TZ = Some (map (of_nat \<circ> of_char) ''NZST-12NZDT,M10.1.0,M3.3.0''), malloc_ok = True\<rparr>"

lemma mktime_new_year:
  "(case localtime_r demo_nz tz_start (- 3600) of (tz, t) \<Rightarrow> map_option (\<lambda>(_, _, r). r) (mktime demo_nz tz t)) = Some (- 7200)"
  by code_simp

end
