(* ===== verification/TimeText.thy ===== *)
theory TimeText
  imports LocalTime StrCmp
begin

text \<open>
  Times as text: \<open>strftime\<close> (\<open>time/strftime.c\<close>, as built without \<open>_WANT_C99_TIME_FORMATS\<close>) and \<open>asctime_r\<close>,
  in the C locale of \<open>locale/timelocal.c\<close>. A format is the list of its characters. \<open>sniprintf\<close> is modelled for
  the conversions these functions use; what each conversion of \<open>strftime\<close> does is a value of the
  datatype \<open>piece\<close>, which says which text is put out and in which of the ways the code has for it.
\<close>

section \<open>The locale\<close>

definition ch :: "char \<Rightarrow> u8" where "ch c = of_nat (of_char c)"

definition ascii :: "string \<Rightarrow> u8 list" where "ascii s = map ch s"

text \<open>The members of \<open>struct lc_time_T\<close> in their order; an array takes as many places as it has elements.\<close>

definition month_names :: "string list" where
  "month_names = [''January'', ''February'', ''March'', ''April'', ''May'', ''June'',
     ''July'', ''August'', ''September'', ''October'', ''November'', ''December'']"

definition C_time_locale :: "u8 list list" where
  "C_time_locale = map ascii
     ([''Jan'', ''Feb'', ''Mar'', ''Apr'', ''May'', ''Jun'', ''Jul'', ''Aug'', ''Sep'', ''Oct'', ''Nov'', ''Dec''] @
      month_names @
      [''Sun'', ''Mon'', ''Tue'', ''Wed'', ''Thu'', ''Fri'', ''Sat''] @
      [''Sunday'', ''Monday'', ''Tuesday'', ''Wednesday'', ''Thursday'', ''Friday'', ''Saturday''] @
      [''%H:%M:%S'', ''%m/%d/%y'', ''%a %b %e %H:%M:%S %Y'', ''AM'', ''PM'', ''%a %b %e %H:%M:%S %Z %Y''] @
      month_names @ [''md'', ''%I:%M:%S %p'', '''', '''', '''', '''', ''''])"

definition lc_mon :: nat where "lc_mon = 0"
definition lc_month :: nat where "lc_month = 12"
definition lc_wday :: nat where "lc_wday = 24"
definition lc_weekday :: nat where "lc_weekday = 31"
definition lc_X_fmt :: nat where "lc_X_fmt = 38"
definition lc_x_fmt :: nat where "lc_x_fmt = 39"
definition lc_c_fmt :: nat where "lc_c_fmt = 40"
definition lc_am_pm :: nat where "lc_am_pm = 41"
definition lc_ampm_fmt :: nat where "lc_ampm_fmt = 57"

text \<open>An element of one of the arrays; an index outside leads to another member, or out of the structure.\<close>

definition lc_text :: "nat \<Rightarrow> int \<Rightarrow> u8 list option" where
  "lc_text member i =
     (let j = int member + i in if 0 \<le> j \<and> j < 63 then Some (C_time_locale ! nat j) else None)"

section \<open>Formatted numbers\<close>

text \<open>\<open>%.<p>d\<close>, \<open>%<w>d\<close> and \<open>%+03ld\<close>\<close>

definition digits :: "int \<Rightarrow> u8 list" where "digits v = num_text 10 (nat \<bar>v\<bar>)"

definition fmt_prec :: "nat \<Rightarrow> int \<Rightarrow> u8 list" where
  "fmt_prec p v =
     (let ds = (if v = 0 \<and> p = 0 then [] else digits v)
      in (if v < 0 then [45] else []) @ replicate (p - length ds) 48 @ ds)"

definition fmt_width :: "nat \<Rightarrow> int \<Rightarrow> u8 list" where
  "fmt_width w v = (let ds = (if v < 0 then [45] else []) @ digits v in replicate (w - length ds) 32 @ ds)"

definition fmt_sign3 :: "int \<Rightarrow> u8 list" where
  "fmt_sign3 v = (let ds = digits v in (if v < 0 then 45 else 43) # replicate (2 - length ds) 48 @ ds)"

text \<open>A precision given as an argument is an \<open>int\<close>; a negative one counts as none.\<close>

definition prec_arg :: "nat \<Rightarrow> nat" where
  "prec_arg n = (if n < 2 ^ 31 then n else 1)"

text \<open>\<open>sniprintf (a, n, ...)\<close> where the conversions give the text \<open>x\<close>: the memory and the result.\<close>

definition sniprintf :: "mem \<Rightarrow> nat \<Rightarrow> nat \<Rightarrow> u8 list \<Rightarrow> mem \<times> int" where
  "sniprintf m a n x =
     (if 2 ^ 31 \<le> n then (m, - 1)
      else (if 0 < n then region_put m a (take (n - 1) x @ [0]) else m, wrap_s32 (int (length x))))"

section \<open>The conversions\<close>

definition pack :: "int \<Rightarrow> int \<Rightarrow> int \<Rightarrow> int" where "pack yd wd lp = yd * 16 + wd * 2 + lp"

definition iso_year_adjust :: "tm \<Rightarrow> int" where
  "iso_year_adjust t =
     (let leap = isleap (tm_year t + (1900 - (if tm_year t < 0 then 0 else 2000)));
          p = pack (tm_yday t) (tm_wday t) (if leap then 1 else 0)
      in if p \<in> set [pack 0 5 0, pack 0 6 0, pack 0 0 0, pack 0 5 1, pack 0 6 1, pack 0 0 1, pack 1 6 0, pack 1 0 0,
                     pack 1 6 1, pack 1 0 1, pack 2 0 0, pack 2 0 1] then - 1
         else if p \<in> set [pack 362 1 0, pack 363 1 1, pack 363 1 0, pack 363 2 0, pack 364 1 1, pack 364 2 1,
                          pack 364 1 0, pack 364 2 0, pack 364 3 0, pack 365 1 1, pack 365 2 1, pack 365 3 1] then 1
         else 0)"

text \<open>The last two digits of the year, and the others.\<close>

definition year_2 :: "tm \<Rightarrow> int" where
  "year_2 t = (if 0 \<le> tm_year t then tm_year t mod 100 else \<bar>tm_year t + 1900\<bar> mod 100)"

definition century :: "tm \<Rightarrow> int" where
  "century t = (if 0 \<le> tm_year t then tm_year t div 100 + 1900 div 100 else \<bar>tm_year t + 1900\<bar> div 100)"

text \<open>\<open>%C\<close>, \<open>%Y\<close>, \<open>%g\<close> and \<open>%G\<close>\<close>

definition conv_C :: "u8 \<Rightarrow> nat \<Rightarrow> tm \<Rightarrow> u8 list" where
  "conv_C pad width t =
     (let neg = tm_year t < - 1900; pos = (if pad = ch CHR ''+'' \<and> 100 \<le> century t then [pad] else [])
      in (if neg then [45] else pos) @ fmt_prec (prec_arg (max 2 width - (if neg then 1 else 0))) (century t))"

text \<open>The end of \<open>%Y\<close> and \<open>%G\<close>: the sign and the number of the year, an \<open>unsigned\<close>.\<close>

definition year_text :: "u8 \<Rightarrow> nat \<Rightarrow> bool \<Rightarrow> int \<Rightarrow> u8 list" where
  "year_text pad width sign year =
     (let plus = (\<not> sign \<and> pad = ch CHR ''+'' \<and> 10000 \<le> year);
          width1 = (if width \<noteq> 0 \<and> (sign \<or> plus) then width - 1 else width)
      in (if sign then [45] else if plus then [43] else []) @ fmt_prec (prec_arg width1) year)"

definition conv_Y :: "u8 \<Rightarrow> nat \<Rightarrow> tm \<Rightarrow> u8 list" where
  "conv_Y pad width t =
     (let sign = tm_year t < - 1900; year = wrap_u32 (tm_year t + 1900)
      in year_text pad width sign (if sign then wrap_u32 (2 ^ 32 - 1 - year + 1) else year))"

definition conv_g :: "tm \<Rightarrow> u8 list" where
  "conv_g t =
     (let adjust = iso_year_adjust t;
          adjust1 = (if adjust < 0 \<and> tm_year t \<le> - 1900 then 1 else if 0 < adjust \<and> tm_year t < - 1900 then - 1 else adjust)
      in fmt_prec 2 (((year_2 t + adjust1) smod 100 + 100) smod 100))"

definition conv_G :: "u8 \<Rightarrow> nat \<Rightarrow> tm \<Rightarrow> u8 list" where
  "conv_G pad width t =
     (let sign = tm_year t < - 1900; adjust = iso_year_adjust t;
          (sign1, adjust1) = (if adjust < 0 \<and> tm_year t \<le> - 1900 then (True, 1)
                              else if 0 < adjust \<and> sign then (sign, - 1) else (sign, adjust));
          year = year_2 t + adjust1;
          (year1, century1) = (if year = - 1 then (99, century t - 1)
                               else if year = 100 then (0, century t + 1) else (year, century t))
      in year_text pad width sign1 (wrap_u32 (century1 * 100 + year1)))"

text \<open>The week of the year for weeks from Sunday or Monday on, and the ISO week.\<close>

definition week_U :: "tm \<Rightarrow> int" where "week_U t = (tm_yday t + 7 - tm_wday t) sdiv 7"

definition mon_wday :: "tm \<Rightarrow> int" where "mon_wday t = (if tm_wday t \<noteq> 0 then tm_wday t - 1 else 6)"

definition week_W :: "tm \<Rightarrow> int" where "week_W t = (tm_yday t + 7 - mon_wday t) sdiv 7"

definition week_V :: "tm \<Rightarrow> int" where
  "week_V t =
     (let adjust = iso_year_adjust t; wday = mon_wday t
      in if 0 < adjust then 1
         else if adjust < 0 then
           52 + (if wday - tm_yday t - (if isleap (tm_year t + (1900 - 1 - (if tm_year t < 0 then 0 else 2000))) then 1 else 0) \<le> 4
                 then 1 else 0)
         else (tm_yday t + 10 - wday) sdiv 7)"

definition hour_12 :: "tm \<Rightarrow> int" where
  "hour_12 t = (if tm_hour t = 0 \<or> tm_hour t = 12 then 12 else tm_hour t smod 12)"

text \<open>The format that \<open>%F\<close> builds for \<open>%Y-%m-%d\<close>.\<close>

definition conv_F :: "u8 \<Rightarrow> nat \<Rightarrow> u8 list" where
  "conv_F pad width =
     (let width1 = (if pad = 0 then 10 else width); width2 = max 6 width1 - 6
      in ch CHR ''%'' # (if pad \<noteq> 0 then pad else ch CHR ''+'') #
         (if width2 \<noteq> 0 then digits (int width2) else []) @ ascii ''Y-%m-%d'')"

definition zone_text :: "tz_state \<Rightarrow> bool \<Rightarrow> u8 list" where
  "zone_text tz dst =
     (case (if dst then snd (tzname tz) else fst (tzname tz)) of
        Name_GMT \<Rightarrow> ascii ''GMT'' | Name_std \<Rightarrow> tzname_std tz | Name_dst \<Rightarrow> tzname_dst tz)"

definition conv_z :: "tz_state \<Rightarrow> tm \<Rightarrow> u8 list" where
  "conv_z tz t =
     (let offset = - offset (tzrule tz (if 0 < tm_isdst t then 1 else 0))
      in fmt_sign3 (offset sdiv 3600) @ fmt_prec 2 (\<bar>offset sdiv 60\<bar> mod 60))"

text \<open>
  What a conversion does: characters that are copied one by one, a call of \<open>snprintf\<close>, a call of \<open>strftime\<close>
  itself for another format, nothing, or \<open>return 0\<close>.
\<close>

datatype piece = Copy "u8 list" | Print "u8 list" | Again "u8 list" | Nothing | Fail

definition num_piece :: "nat \<Rightarrow> int \<Rightarrow> piece option" where "num_piece p v = Some (Print (fmt_prec p v))"

definition name_piece :: "nat \<Rightarrow> int \<Rightarrow> piece option" where "name_piece member i = map_option Copy (lc_text member i)"

definition again_piece :: "nat \<Rightarrow> piece option" where "again_piece member = map_option Again (lc_text member 0)"

definition list_piece :: "int list \<Rightarrow> u8 \<Rightarrow> piece option" where
  "list_piece vs sep = Some (Print (tl (concat (map (\<lambda>v. sep # fmt_prec 2 v) vs))))"

definition conv_date :: "u8 \<Rightarrow> u8 \<Rightarrow> nat \<Rightarrow> tm \<Rightarrow> piece option" where
  "conv_date f pad width t =
     (if f = ch CHR ''a'' then name_piece lc_wday (tm_wday t)
      else if f = ch CHR ''A'' then name_piece lc_weekday (tm_wday t)
      else if f = ch CHR ''b'' \<or> f = ch CHR ''h'' then name_piece lc_mon (tm_mon t)
      else if f = ch CHR ''B'' then name_piece lc_month (tm_mon t)
      else if f = ch CHR ''c'' then again_piece lc_c_fmt
      else if f = ch CHR ''r'' then again_piece lc_ampm_fmt
      else if f = ch CHR ''x'' then again_piece lc_x_fmt
      else if f = ch CHR ''X'' then again_piece lc_X_fmt
      else if f = ch CHR ''C'' then Some (Print (conv_C pad width t))
      else if f = ch CHR ''d'' then num_piece 2 (tm_mday t)
      else if f = ch CHR ''e'' then Some (Print (fmt_width 2 (tm_mday t)))
      else if f = ch CHR ''D'' then list_piece [tm_mon t + 1, tm_mday t, year_2 t] (ch CHR ''/'')
      else if f = ch CHR ''F'' then Some (Again (conv_F pad width))
      else if f = ch CHR ''g'' then Some (Print (conv_g t))
      else if f = ch CHR ''G'' then Some (Print (conv_G pad width t))
      else if f = ch CHR ''j'' then num_piece 3 (tm_yday t + 1)
      else if f = ch CHR ''m'' then num_piece 2 (tm_mon t + 1)
      else if f = ch CHR ''u'' then Some (Copy [if tm_wday t = 0 then ch CHR ''7'' else word_of_int (48 + tm_wday t)])
      else if f = ch CHR ''U'' then num_piece 2 (week_U t)
      else if f = ch CHR ''V'' then num_piece 2 (week_V t)
      else if f = ch CHR ''w'' then Some (Copy [word_of_int (48 + tm_wday t)])
      else if f = ch CHR ''W'' then num_piece 2 (week_W t)
      else if f = ch CHR ''y'' then num_piece 2 (year_2 t)
      else if f = ch CHR ''Y'' then Some (Print (conv_Y pad width t))
      else Some Fail)"

definition conv :: "u8 \<Rightarrow> u8 \<Rightarrow> nat \<Rightarrow> tm \<Rightarrow> tz_state \<Rightarrow> piece option" where
  "conv f pad width t tz =
     (if f = ch CHR ''H'' then num_piece 2 (tm_hour t)
      else if f = ch CHR ''k'' then Some (Print (fmt_width 2 (tm_hour t)))
      else if f = ch CHR ''l'' then Some (Print (fmt_width 2 (hour_12 t)))
      else if f = ch CHR ''I'' then num_piece 2 (hour_12 t)
      else if f = ch CHR ''M'' then num_piece 2 (tm_min t)
      else if f = ch CHR ''n'' then Some (Copy [10])
      else if f = ch CHR ''p'' then name_piece lc_am_pm (if tm_hour t < 12 then 0 else 1)
      else if f = ch CHR ''P'' then map_option (\<lambda>x. Copy (map lower_byte x)) (lc_text lc_am_pm (if tm_hour t < 12 then 0 else 1))
      else if f = ch CHR ''R'' then list_piece [tm_hour t, tm_min t] (ch CHR '':'')
      else if f = ch CHR ''S'' then num_piece 2 (tm_sec t)
      else if f = ch CHR ''t'' then Some (Copy [9])
      else if f = ch CHR ''T'' then list_piece [tm_hour t, tm_min t, tm_sec t] (ch CHR '':'')
      else if f = ch CHR ''z'' then Some (if 0 \<le> tm_isdst t then Print (conv_z tz t) else Nothing)
      else if f = ch CHR ''Z'' then Some (if 0 \<le> tm_isdst t then Copy (zone_text tz (0 < tm_isdst t)) else Nothing)
      else if f = ch CHR ''%'' then Some (Copy [f])
      else conv_date f pad width t)"

section \<open>strftime\<close>

text \<open>What stands between the percent sign and the conversion, and what follows it.\<close>

definition spec_pad :: "u8 list \<Rightarrow> u8 \<times> u8 list" where
  "spec_pad xs = (case xs of c # ys \<Rightarrow> if c = ch CHR ''0'' \<or> c = ch CHR ''+'' then (c, ys) else (0, xs) | [] \<Rightarrow> (0, xs))"

definition spec_width :: "u8 list \<Rightarrow> nat \<times> u8 list" where
  "spec_width xs =
     (case xs of c # ys \<Rightarrow>
        if ch CHR ''1'' \<le> c \<and> c \<le> ch CHR ''9'' then (let (v, n) = scan_ulong xs in (nat v, drop n xs)) else (0, xs)
      | [] \<Rightarrow> (0, xs))"

definition spec_alt :: "u8 list \<Rightarrow> u8 list" where
  "spec_alt xs = (case xs of c # ys \<Rightarrow> if c = ch CHR ''E'' \<or> c = ch CHR ''O'' then ys else xs | [] \<Rightarrow> xs)"

definition spec :: "u8 list \<Rightarrow> u8 \<times> nat \<times> u8 \<times> u8 list" where
  "spec xs =
     (let (pad, xs1) = spec_pad xs; (width, xs2) = spec_width xs1; xs3 = spec_alt xs2
      in (pad, width, case xs3 of c # ys \<Rightarrow> (c, ys) | [] \<Rightarrow> (0, [])))"

definition size_sub :: "nat \<Rightarrow> nat \<Rightarrow> nat" where
  "size_sub a b = (a + 2 ^ 32 - b) mod 2 ^ 32"

text \<open>Copying: the memory and the new \<open>count\<close>, or none for \<open>return 0\<close>.\<close>

fun copy_loop :: "nat \<Rightarrow> nat \<Rightarrow> u8 list \<Rightarrow> mem \<Rightarrow> nat \<Rightarrow> mem \<times> nat option" where
  "copy_loop s maxsize [] m count = (m, Some count)"
| "copy_loop s maxsize (c # cs) m count =
     (if count < size_sub maxsize 1 then copy_loop s maxsize cs (m(s + count := c)) (count + 1) else (m, None))"

text \<open>A call of \<open>snprintf\<close> and \<open>CHECK_LENGTH\<close>.\<close>

definition print_check :: "nat \<Rightarrow> nat \<Rightarrow> u8 list \<Rightarrow> mem \<Rightarrow> nat \<Rightarrow> mem \<times> nat option" where
  "print_check s maxsize x m count =
     (let (m1, len) = sniprintf m (s + count) (size_sub maxsize count) x; count1 = (count + nat len) mod 2 ^ 32
      in (m1, if len < 0 \<or> maxsize \<le> count1 then None else Some count1))"

lemma spec_shorter: "spec xs = (pad, width, f, r) \<Longrightarrow> length r \<le> length xs"
proof -
  assume a: "spec xs = (pad, width, f, r)"
  have "length (snd (spec_pad xs)) \<le> length xs" for xs :: "u8 list" by (simp add: spec_pad_def split: list.split)
  moreover have "length (snd (spec_width xs)) \<le> length xs" for xs
    by (auto simp: spec_width_def simp del: drop_Suc_Cons split: list.split prod.split)
  moreover have "length (spec_alt xs) \<le> length xs" for xs by (simp add: spec_alt_def split: list.split)
  ultimately have "length (spec_alt (snd (spec_width (snd (spec_pad xs))))) \<le> length xs" by (meson le_trans)
  then show ?thesis using a by (auto simp: spec_def split: list.splits prod.splits)
qed

text \<open>
  The loop, from the format \<open>fmt\<close> on: the memory, the zone and the result. \<open>called\<close> is \<open>tzset_called\<close>. \<open>d\<close>
  bounds how deep \<open>strftime\<close> calls itself; deeper calls are \<open>None\<close>.
\<close>

function sf_run ::
    "nat \<Rightarrow> tz_env \<Rightarrow> nat \<Rightarrow> nat \<Rightarrow> tm \<Rightarrow> u8 list \<Rightarrow> mem \<Rightarrow> nat \<Rightarrow> tz_state \<Rightarrow> bool \<Rightarrow> (mem \<times> tz_state \<times> nat) option" where
  "sf_run d env s maxsize t [] m count tz called =
     Some (if maxsize \<noteq> 0 then m(s + count := 0) else m, tz, count)"
| "sf_run d env s maxsize t (c # fmt) m count tz called =
     (if c \<noteq> ch CHR ''%'' then
        (case copy_loop s maxsize [c] m count of (m1, None) \<Rightarrow> Some (m1, tz, 0)
         | (m1, Some count1) \<Rightarrow> sf_run d env s maxsize t fmt m1 count1 tz called)
      else
        (case spec fmt of (pad, width, f, rest) \<Rightarrow>
           (let zone = ((f = ch CHR ''z'' \<or> f = ch CHR ''Z'') \<and> 0 \<le> tm_isdst t);
                tz1 = (if zone \<and> \<not> called then tzset_unlocked env tz else tz); called1 = (called \<or> zone)
            in case conv f pad width t tz1 of None \<Rightarrow> None
               | Some Fail \<Rightarrow> Some (m, tz1, 0)
               | Some Nothing \<Rightarrow> sf_run d env s maxsize t rest m count tz1 called1
               | Some (Copy x) \<Rightarrow>
                   (case copy_loop s maxsize x m count of (m1, None) \<Rightarrow> Some (m1, tz1, 0)
                    | (m1, Some count1) \<Rightarrow> sf_run d env s maxsize t rest m1 count1 tz1 called1)
               | Some (Print x) \<Rightarrow>
                   (case print_check s maxsize x m count of (m1, None) \<Rightarrow> Some (m1, tz1, 0)
                    | (m1, Some count1) \<Rightarrow> sf_run d env s maxsize t rest m1 count1 tz1 called1)
               | Some (Again g) \<Rightarrow>
                   (if d = 0 then None
                    else case sf_run (d - 1) env (s + count) (size_sub maxsize count) t g m 0 tz1 False of None \<Rightarrow> None
                      | Some (m1, tz2, len) \<Rightarrow>
                          if 0 < wrap_s32 (int len)
                          then sf_run d env s maxsize t rest m1 ((count + len) mod 2 ^ 32) tz2 called1
                          else Some (m1, tz2, 0)))))"
  by pat_completeness auto
termination
  by (relation "measures [\<lambda>(d, env, s, maxsize, t, fmt, r). d, \<lambda>(d, env, s, maxsize, t, fmt, r). length fmt]")
     (auto dest: spec_shorter [OF sym] simp: less_Suc_eq_le)

declare sf_run.simps [simp del]

text \<open>In the C locale no format leads to a call that calls again.\<close>

definition strftime :: "tz_env \<Rightarrow> tz_state \<Rightarrow> mem \<Rightarrow> nat \<Rightarrow> nat \<Rightarrow> u8 list \<Rightarrow> tm \<Rightarrow> (mem \<times> tz_state \<times> nat) option" where
  "strftime env tz m s maxsize format t = sf_run 1 env s maxsize t format m 0 tz False"

section \<open>asctime\<close>

text \<open>The arrays \<open>day_name\<close> and \<open>mon_name\<close> of \<open>asctime_r\<close>, three characters each.\<close>

definition day_name :: "u8 list list" where
  "day_name = map ascii [''Sun'', ''Mon'', ''Tue'', ''Wed'', ''Thu'', ''Fri'', ''Sat'']"

definition mon_name :: "u8 list list" where
  "mon_name = map ascii [''Jan'', ''Feb'', ''Mar'', ''Apr'', ''May'', ''Jun'', ''Jul'', ''Aug'', ''Sep'', ''Oct'', ''Nov'', ''Dec'']"

text \<open>An index outside its array is none; the result is the address given.\<close>

definition asctime_r :: "mem \<Rightarrow> tm \<Rightarrow> nat \<Rightarrow> (mem \<times> nat) option" where
  "asctime_r m t a =
     (if 0 \<le> tm_wday t \<and> tm_wday t < 7 \<and> 0 \<le> tm_mon t \<and> tm_mon t < 12 then
        Some (region_put m a
          (day_name ! nat (tm_wday t) @ [32] @ mon_name ! nat (tm_mon t) @ fmt_width 3 (tm_mday t) @ [32] @
           fmt_prec 2 (tm_hour t) @ [58] @ fmt_prec 2 (tm_min t) @ [58] @ fmt_prec 2 (tm_sec t) @ [32] @
           fmt_width 0 (wrap_s32 (1900 + tm_year t)) @ [10] @ [0]), a)
      else None)"

definition ctime_r :: "tz_env \<Rightarrow> tz_state \<Rightarrow> mem \<Rightarrow> int \<Rightarrow> nat \<Rightarrow> tz_state \<times> (mem \<times> nat) option" where
  "ctime_r env tz m tim a = (let (tz1, t) = localtime_r env tz tim in (tz1, asctime_r m t a))"


section \<open>The text of a format\<close>

text \<open>What \<open>strftime\<close> puts out when there is room for it; none where it returns 0 whatever the room.\<close>

function sf_text :: "nat \<Rightarrow> tz_env \<Rightarrow> tm \<Rightarrow> u8 list \<Rightarrow> tz_state \<Rightarrow> bool \<Rightarrow> (u8 list \<times> tz_state) option" where
  "sf_text d env t [] tz called = Some ([], tz)"
| "sf_text d env t (c # fmt) tz called =
     (if c \<noteq> ch CHR ''%'' then map_option (apfst ((#) c)) (sf_text d env t fmt tz called)
      else
        (case spec fmt of (pad, width, f, rest) \<Rightarrow>
           (let zone = ((f = ch CHR ''z'' \<or> f = ch CHR ''Z'') \<and> 0 \<le> tm_isdst t);
                tz1 = (if zone \<and> \<not> called then tzset_unlocked env tz else tz); called1 = (called \<or> zone)
            in case conv f pad width t tz1 of None \<Rightarrow> None
               | Some Fail \<Rightarrow> None
               | Some Nothing \<Rightarrow> sf_text d env t rest tz1 called1
               | Some (Copy x) \<Rightarrow> map_option (apfst ((@) x)) (sf_text d env t rest tz1 called1)
               | Some (Print x) \<Rightarrow> map_option (apfst ((@) x)) (sf_text d env t rest tz1 called1)
               | Some (Again g) \<Rightarrow>
                   (if d = 0 then None
                    else case sf_text (d - 1) env t g tz1 False of None \<Rightarrow> None
                      | Some (x, tz2) \<Rightarrow>
                          if x = [] then None else map_option (apfst ((@) x)) (sf_text d env t rest tz2 called1)))))"
  by pat_completeness auto
termination
  by (relation "measures [\<lambda>(d, env, t, fmt, r). d, \<lambda>(d, env, t, fmt, r). length fmt]")
     (auto dest: spec_shorter [OF sym] simp: less_Suc_eq_le)

declare sf_text.simps [simp del]

text \<open>
  What a run leaves: if the text \<open>x\<close> fits behind the \<open>count\<close> characters, the text and its terminator and the
  new count, otherwise 0; in both cases nothing outside the buffer is written.
\<close>

definition sf_done :: "nat \<Rightarrow> nat \<Rightarrow> mem \<Rightarrow> nat \<Rightarrow> u8 list \<Rightarrow> tz_state \<Rightarrow> (mem \<times> tz_state \<times> nat) option \<Rightarrow> bool" where
  "sf_done s maxsize m count x tz r \<longleftrightarrow>
     (\<exists>m1 tz1. r = Some (m1, tz1, if count + length x < maxsize then count + length x else 0) \<and>
        (count + length x < maxsize \<longrightarrow> m1 = region_put m (s + count) (x @ [0]) \<and> tz1 = tz) \<and>
        (\<forall>a. a < s + count \<or> s + maxsize \<le> a \<longrightarrow> m1 a = m a))"

lemma region_put_outside: "a < p \<or> p + length x \<le> a \<Longrightarrow> region_put m p x a = m a"
  by (auto simp: region_put_def)

lemma region_put_next: "region_put (region_put m p (x @ y)) (p + length x) (z @ [e]) = region_put m p (x @ z @ [e])" if "length y \<le> 1"
  using that by (auto simp: region_put_def nth_append fun_eq_iff)

lemma size_sub_eq: "b \<le> a \<Longrightarrow> a < 2 ^ 32 \<Longrightarrow> size_sub a b = a - b"
proof -
  assume "b \<le> a" "a < 2 ^ 32"
  then have "a + 2 ^ 32 - b = (a - b) + 2 ^ 32" "a - b < 2 ^ 32" by simp_all
  then show ?thesis unfolding size_sub_def by (simp only: mod_add_self2 mod_less)
qed

lemma copy_loop_text:
  assumes "count < maxsize" "maxsize < 2 ^ 31"
  shows "\<exists>m1. copy_loop s maxsize x m count = (m1, if count + length x < maxsize then Some (count + length x) else None) \<and>
    (count + length x < maxsize \<longrightarrow> m1 = region_put m (s + count) x) \<and>
    (\<forall>a. a < s + count \<or> s + maxsize \<le> a \<longrightarrow> m1 a = m a)"
  using assms(1)
proof (induction x arbitrary: m count)
  case Nil
  then show ?case by (auto simp: region_put_def fun_eq_iff)
next
  case (Cons c x)
  have z: "size_sub maxsize 1 = maxsize - 1" using Cons.prems assms(2) by (simp add: size_sub_eq)
  show ?case
  proof (cases "count + 1 < maxsize")
    case True
    have e: "region_put (m(s + count := c)) (s + (count + 1)) x = region_put m (s + count) (c # x)"
      by (auto simp: region_put_def fun_eq_iff nth_Cons')
    obtain m1 where m1: "copy_loop s maxsize x (m(s + count := c)) (count + 1) =
        (m1, if count + 1 + length x < maxsize then Some (count + 1 + length x) else None)"
      "count + 1 + length x < maxsize \<longrightarrow> m1 = region_put m (s + count) (c # x)"
      "\<forall>a. a < s + (count + 1) \<or> s + maxsize \<le> a \<longrightarrow> m1 a = (m(s + count := c)) a"
      using Cons.IH [OF True, of "m(s + count := c)"] unfolding e by blast
    have "copy_loop s maxsize (c # x) m count = copy_loop s maxsize x (m(s + count := c)) (count + 1)"
      using True z by (simp add: less_diff_conv)
    moreover have "m1 a = m a" if "a < s + count \<or> s + maxsize \<le> a" for a using m1(3) [rule_format, of a] that Cons.prems by auto
    ultimately show ?thesis using m1(1,2) by auto
  qed (use z in auto)
qed

lemma print_check_text:
  assumes "count < maxsize" "maxsize < 2 ^ 31" "length x < 2 ^ 31"
  shows "\<exists>m1. print_check s maxsize x m count = (m1, if count + length x < maxsize then Some (count + length x) else None) \<and>
    (count + length x < maxsize \<longrightarrow> m1 = region_put m (s + count) (x @ [0])) \<and>
    (\<forall>a. a < s + count \<or> s + maxsize \<le> a \<longrightarrow> m1 a = m a)"
proof -
  have z: "size_sub maxsize count = maxsize - count" using assms by (simp add: size_sub_eq)
  have l: "wrap_s32 (int (length x)) = int (length x)" using assms(3) by (intro wrap_s32_id) simp_all
  have c: "(count + length x) mod 2 ^ 32 = count + length x" using assms by simp
  show ?thesis using assms
    unfolding print_check_def sniprintf_def z l Let_def prod.case by (auto simp: c [simplified] intro!: region_put_outside)
qed

lemma sf_done_next:
  assumes "(count + length x < maxsize \<longrightarrow> (\<exists>y. length y \<le> 1 \<and> m1 = region_put m (s + count) (x @ y)))"
    "\<forall>a. a < s + count \<or> s + maxsize \<le> a \<longrightarrow> m1 a = m a"
    and "count + length x < maxsize \<Longrightarrow> sf_done s maxsize m1 (count + length x) x2 tz r"
    and "\<not> count + length x < maxsize \<Longrightarrow> \<exists>tz1. r = Some (m1, tz1, 0)"
  shows "sf_done s maxsize m count (x @ x2) tz r"
proof (cases "count + length x < maxsize")
  case True
  obtain m2 tz2 where r: "r = Some (m2, tz2, if count + length x + length x2 < maxsize then count + length x + length x2 else 0)"
    "count + length x + length x2 < maxsize \<longrightarrow> m2 = region_put m1 (s + (count + length x)) (x2 @ [0]) \<and> tz2 = tz"
    "\<forall>a. a < s + (count + length x) \<or> s + maxsize \<le> a \<longrightarrow> m2 a = m1 a"
    using assms(3) [OF True] by (auto simp: sf_done_def)
  obtain y where y: "length y \<le> 1" "m1 = region_put m (s + count) (x @ y)" using assms(1) True by blast
  have "region_put m1 (s + (count + length x)) (x2 @ [0]) = region_put m (s + count) (x @ x2 @ [0])"
    using region_put_next [OF y(1), of m "s + count" x x2 0] y(2) by (simp add: add.assoc)
  then show ?thesis using r assms(2) unfolding sf_done_def by (auto simp: add.assoc)
next
  case False
  then show ?thesis using assms(2,4) unfolding sf_done_def by (auto)
qed

text \<open>A piece of text and the rest: \<open>h\<close> is what the piece does, \<open>k\<close> the loop behind it.\<close>

lemma sf_done_piece:
  assumes "count < maxsize"
    and h: "\<exists>m1. h = (m1, if count + length x < maxsize then Some (count + length x) else None) \<and>
      (count + length x < maxsize \<longrightarrow> m1 = region_put m (s + count) (x @ y)) \<and>
      (\<forall>a. a < s + count \<or> s + maxsize \<le> a \<longrightarrow> m1 a = m a)" "length y \<le> 1"
    and k: "\<And>m1 count1. count1 < maxsize \<Longrightarrow> sf_done s maxsize m1 count1 x2 tz (k m1 count1)"
  shows "sf_done s maxsize m count (x @ x2) tz (case h of (m1, None) \<Rightarrow> Some (m1, tz1, 0) | (m1, Some count1) \<Rightarrow> k m1 count1)"
proof -
  obtain m1 where m1: "h = (m1, if count + length x < maxsize then Some (count + length x) else None)"
    "count + length x < maxsize \<longrightarrow> m1 = region_put m (s + count) (x @ y)"
    "\<forall>a. a < s + count \<or> s + maxsize \<le> a \<longrightarrow> m1 a = m a" using h(1) by blast
  show ?thesis
    by (rule sf_done_next [OF _ m1(3)]) (use m1 h(2) k in auto)
qed

lemma sf_done_copy:
  assumes "count < maxsize" "maxsize < 2 ^ 31"
    and "\<And>m1 count1. count1 < maxsize \<Longrightarrow> sf_done s maxsize m1 count1 x2 tz (k m1 count1)"
  shows "sf_done s maxsize m count (x @ x2) tz
    (case copy_loop s maxsize x m count of (m1, None) \<Rightarrow> Some (m1, tz1, 0) | (m1, Some count1) \<Rightarrow> k m1 count1)"
proof (rule sf_done_piece [where y = "[]"])
  show "\<exists>m1. copy_loop s maxsize x m count = (m1, if count + length x < maxsize then Some (count + length x) else None) \<and>
      (count + length x < maxsize \<longrightarrow> m1 = region_put m (s + count) (x @ [])) \<and>
      (\<forall>a. a < s + count \<or> s + maxsize \<le> a \<longrightarrow> m1 a = m a)"
    unfolding append_Nil2 by (rule copy_loop_text [OF assms(1,2)])
qed (use assms in auto)

lemma sf_done_print:
  assumes "count < maxsize" "maxsize < 2 ^ 31" "length x < 2 ^ 31"
    and "\<And>m1 count1. count1 < maxsize \<Longrightarrow> sf_done s maxsize m1 count1 x2 tz (k m1 count1)"
  shows "sf_done s maxsize m count (x @ x2) tz
    (case print_check s maxsize x m count of (m1, None) \<Rightarrow> Some (m1, tz1, 0) | (m1, Some count1) \<Rightarrow> k m1 count1)"
  by (rule sf_done_piece [OF assms(1) print_check_text [OF assms(1-3)]]) (use assms(4) in auto)

lemma sf_done_again:
  assumes c: "count < maxsize" "maxsize < 2 ^ 31" "x \<noteq> []"
    and r: "sf_done (s + count) (maxsize - count) m 0 x tz2 r"
    and k: "\<And>m1 count1. count1 < maxsize \<Longrightarrow> sf_done s maxsize m1 count1 x2 tz (k m1 count1 tz2)"
  shows "sf_done s maxsize m count (x @ x2) tz
    (case r of None \<Rightarrow> None
     | Some (m1, tz2, len) \<Rightarrow> if 0 < wrap_s32 (int len) then k m1 ((count + len) mod 2 ^ 32) tz2 else Some (m1, tz2, 0))"
proof -
  let ?fit = "length x < maxsize - count"
  obtain m1 tz1 where m1: "r = Some (m1, tz1, if ?fit then length x else 0)"
    "?fit \<longrightarrow> m1 = region_put m (s + count) (x @ [0]) \<and> tz1 = tz2"
    "\<forall>a. a < s + count \<or> s + maxsize \<le> a \<longrightarrow> m1 a = m a" using r c(1) by (auto simp: sf_done_def)
  have fit: "?fit \<longleftrightarrow> count + length x < maxsize" using c(1) by auto
  show ?thesis
  proof (rule sf_done_next [OF _ m1(3)])
    show "count + length x < maxsize \<longrightarrow> (\<exists>y. length y \<le> 1 \<and> m1 = region_put m (s + count) (x @ y))"
      using m1(2) fit by (intro impI exI [of _ "[0]"]) simp
    show "\<exists>tz1. (case r of None \<Rightarrow> None
        | Some (m1, tz2, len) \<Rightarrow> if 0 < wrap_s32 (int len) then k m1 ((count + len) mod 2 ^ 32) tz2 else Some (m1, tz2, 0)) = Some (m1, tz1, 0)"
      if "\<not> count + length x < maxsize" using m1(1) that fit by (simp add: wrap_s32_def)
    assume f: "count + length x < maxsize"
    then have "wrap_s32 (int (length x)) = int (length x)" "(count + length x) mod 2 ^ 32 = count + length x"
      using c(2) by (auto intro: wrap_s32_id)
    then show "sf_done s maxsize m1 (count + length x) x2 tz (case r of None \<Rightarrow> None
        | Some (m1, tz2, len) \<Rightarrow> if 0 < wrap_s32 (int len) then k m1 ((count + len) mod 2 ^ 32) tz2 else Some (m1, tz2, 0))"
      using m1(1,2) f fit c(3) k [OF f] by simp
  qed
qed

lemma region_put_byte: "region_put m p [b] = m(p := b)"
  by (auto simp: region_put_def fun_eq_iff)

lemma sf_run_text:
  assumes "sf_text d env t fmt tz called = Some (x, tz')" "count < maxsize" "maxsize < 2 ^ 31" "length x < 2 ^ 31"
  shows "sf_done s maxsize m count x tz' (sf_run d env s maxsize t fmt m count tz called)"
  using assms
proof (induction d arbitrary: fmt tz called s maxsize m count x tz' rule: less_induct)
  case (less d)
  note deeper = less.IH
  show ?case using less.prems
  proof (induction fmt arbitrary: tz called m count x tz' rule: length_induct)
    case (1 fmt)
    note rest = 1(1) [rule_format] and max = 1(4)
    show ?case
    proof (cases fmt)
      case Nil
      then show ?thesis using 1(2,3) by (simp add: sf_text.simps sf_run.simps sf_done_def region_put_byte)
    next
      case (Cons c fmt1)
      show ?thesis
      proof (cases "c = ch CHR ''%''")
        case False
        obtain x2 where x: "x = [c] @ x2" "sf_text d env t fmt1 tz called = Some (x2, tz')"
          using 1(2) False Cons by (auto simp: sf_text.simps)
        have "sf_done s maxsize m count ([c] @ x2) tz' (case copy_loop s maxsize [c] m count of (m1, None) \<Rightarrow> Some (m1, tz, 0)
            | (m1, Some count1) \<Rightarrow> sf_run d env s maxsize t fmt1 m1 count1 tz called)"
          by (rule sf_done_copy [OF 1(3,4)], rule rest) (use x Cons 1(4,5) in simp_all)
        then show ?thesis unfolding Cons sf_run.simps x(1) using False by (simp del: copy_loop.simps)
      next
        case True
        obtain pad width f r where sp: "spec fmt1 = (pad, width, f, r)" by (cases "spec fmt1") auto
        have short: "length r < length fmt" using spec_shorter [OF sp] Cons by simp
        define zone where "zone \<longleftrightarrow> (f = ch CHR ''z'' \<or> f = ch CHR ''Z'') \<and> 0 \<le> tm_isdst t"
        define tz1 where "tz1 = (if zone \<and> \<not> called then tzset_unlocked env tz else tz)"
        define called1 where "called1 \<longleftrightarrow> called \<or> zone"
        note run = sf_run.simps(2) [of d env s maxsize t "ch CHR ''%''" fmt1 m count tz called, unfolded sp prod.case Let_def, folded zone_def, folded tz1_def called1_def]
        note str = sf_text.simps(2) [of d env t "ch CHR ''%''" fmt1 tz called, unfolded sp prod.case Let_def, folded zone_def, folded tz1_def called1_def]
        have go: "sf_done s maxsize m1 count1 x2 tz' (sf_run d env s maxsize t r m1 count1 tz2 called1)"
          if "sf_text d env t r tz2 called1 = Some (x2, tz')" "count1 < maxsize" "length x2 < 2 ^ 31" for m1 count1 x2 tz2
          by (rule rest [OF short]) (use that 1(4) in auto)
        show ?thesis
        proof (cases "conv f pad width t tz1")
          case None
          then show ?thesis using 1(2) True Cons by (simp add: str)
        next
          case (Some p)
          show ?thesis
          proof (cases p)
            case (Copy x1)
            then obtain x2 where x: "x = x1 @ x2" "sf_text d env t r tz1 called1 = Some (x2, tz')"
              using 1(2) True Cons Some by (auto simp: str)
            show ?thesis unfolding Cons True run x(1)
              by (simp only: Some Copy simp_thms if_False option.case piece.case, rule sf_done_copy [OF 1(3,4)], rule go [OF x(2)])
                (use 1(5) x(1) in auto)
          next
            case (Print x1)
            then obtain x2 where x: "x = x1 @ x2" "sf_text d env t r tz1 called1 = Some (x2, tz')"
              using 1(2) True Cons Some by (auto simp: str)
            have l: "length x1 < 2 ^ 31" using 1(5) x(1) by simp
            show ?thesis unfolding Cons True run x(1)
              by (simp only: Some Print simp_thms if_False option.case piece.case, rule sf_done_print [OF 1(3,4) l], rule go [OF x(2)])
                (use 1(5) x(1) in auto)
          next
            case (Again g)
            then obtain x1 tz2 x2 where x: "x = x1 @ x2" "x1 \<noteq> []" "d \<noteq> 0" "sf_text (d - 1) env t g tz1 False = Some (x1, tz2)"
                "sf_text d env t r tz2 called1 = Some (x2, tz')"
              using 1(2) True Cons Some by (auto simp: str split: if_splits option.splits)
            have "sf_done (s + count) (maxsize - count) m 0 x1 tz2
                (sf_run (d - 1) env (s + count) (size_sub maxsize count) t g m 0 tz1 False)"
              using deeper [OF _ x(4), of 0 "maxsize - count" "s + count" m] x(1,3) 1(3-5) by (simp add: size_sub_eq)
            note sub = this
            show ?thesis unfolding Cons True run x(1)
              by (simp only: Some Again x(3) simp_thms if_False option.case piece.case, rule sf_done_again [OF 1(3,4) x(2) sub], rule go [OF x(5)])
                (use 1(5) x(1) in auto)
          next
            case Nothing
            then have "sf_text d env t r tz1 called1 = Some (x, tz')" using 1(2) True Cons Some by (simp add: str)
            then show ?thesis unfolding Cons True run using Some Nothing go 1(3,5) by simp
          next
            case Fail
            then show ?thesis using 1(2) True Cons Some by (simp add: str)
          qed
        qed
      qed
    qed
  qed
qed

section \<open>Properties\<close>

text \<open>C12: \<open>strftime\<close> keeps to its buffer: when the text of the format and its terminator fit, they are put at \<open>s\<close> and the
  length of the text is returned, otherwise 0; in both cases no byte outside the \<open>maxsize\<close> bytes changes.
\<close>
theorem strftime_correct:
  assumes "sf_text 1 env t format tz False = Some (x, tz')" "0 < maxsize" "maxsize < 2 ^ 31" "length x < 2 ^ 31"
  shows "\<exists>m1 tz1. strftime env tz m s maxsize format t = Some (m1, tz1, if length x < maxsize then length x else 0) \<and>
    (length x < maxsize \<longrightarrow> m1 = region_put m s (x @ [0]) \<and> tz1 = tz') \<and>
    (\<forall>a. a < s \<or> s + maxsize \<le> a \<longrightarrow> m1 a = m a)"
  using sf_run_text [OF assms(1) assms(2-4), of s m] unfolding strftime_def sf_done_def by (simp only: add_0 add_0_right)

definition demo_tm :: tm where
  "demo_tm = \<lparr>tm_sec = 7, tm_min = 5, tm_hour = 13, tm_mday = 3, tm_mon = 11, tm_year = 123, tm_wday = 0, tm_yday = 336, tm_isdst = 0\<rparr>"

section \<open>The format of dates in the C locale\<close>

lemma spec_plain: "f \<notin> {48, 43, 69, 79} \<Longrightarrow> \<not> (49 \<le> f \<and> f \<le> 57) \<Longrightarrow> spec (f # r) = (0, 0, f, r)"
  by (auto simp: spec_def spec_pad_def spec_width_def spec_alt_def ch_def)

lemma sf_text_char: "c \<noteq> 37 \<Longrightarrow> sf_text d env t (c # fmt) tz called = map_option (apfst ((#) c)) (sf_text d env t fmt tz called)"
  by (simp add: sf_text.simps ch_def)

lemma sf_text_spec:
  assumes "spec fmt = (0, 0, f, r)" "f \<noteq> 122" "f \<noteq> 90" "conv f 0 0 t tz = Some p"
  shows "sf_text d env t (37 # fmt) tz called =
    (case p of Fail \<Rightarrow> None
     | Nothing \<Rightarrow> sf_text d env t r tz called
     | Copy x \<Rightarrow> map_option (apfst ((@) x)) (sf_text d env t r tz called)
     | Print x \<Rightarrow> map_option (apfst ((@) x)) (sf_text d env t r tz called)
     | Again g \<Rightarrow> (if d = 0 then None
         else case sf_text (d - 1) env t g tz False of None \<Rightarrow> None
           | Some (x, tz2) \<Rightarrow> if x = [] then None else map_option (apfst ((@) x)) (sf_text d env t r tz2 called)))"
  using assms by (simp add: sf_text.simps ch_def split: piece.split)

lemma conv_chars:
  "conv 97 0 0 t tz = name_piece lc_wday (tm_wday t)" "conv 98 0 0 t tz = name_piece lc_mon (tm_mon t)"
  "conv 99 0 0 t tz = again_piece lc_c_fmt" "conv 101 0 0 t tz = Some (Print (fmt_width 2 (tm_mday t)))"
  "conv 72 0 0 t tz = num_piece 2 (tm_hour t)" "conv 77 0 0 t tz = num_piece 2 (tm_min t)"
  "conv 83 0 0 t tz = num_piece 2 (tm_sec t)" "conv 89 0 0 t tz = Some (Print (conv_Y 0 0 t))"
  "conv 71 0 0 t tz = Some (Print (conv_G 0 0 t))" "conv 86 0 0 t tz = num_piece 2 (week_V t)"
  "conv 85 0 0 t tz = num_piece 2 (week_U t)" "conv 87 0 0 t tz = num_piece 2 (week_W t)"
  by (simp_all add: conv_def conv_date_def ch_def)

lemma c_fmt: "C_time_locale ! lc_c_fmt = [37, 97, 32, 37, 98, 32, 37, 101, 32, 37, 72, 58, 37, 77, 58, 37, 83, 32, 37, 89]"
  by code_simp

lemma ascii_c: "ascii ''%c'' = [37, 99]" by code_simp

text \<open>The text of \<open>%c\<close>.\<close>

definition date_text :: "tm \<Rightarrow> u8 list" where
  "date_text t =
     C_time_locale ! (lc_wday + nat (tm_wday t)) @ [32] @ C_time_locale ! (lc_mon + nat (tm_mon t)) @ [32] @
     fmt_width 2 (tm_mday t) @ [32] @ fmt_prec 2 (tm_hour t) @ [58] @ fmt_prec 2 (tm_min t) @ [58] @
     fmt_prec 2 (tm_sec t) @ [32] @ conv_Y 0 0 t"

lemma c_text:
  assumes "0 \<le> tm_wday t" "tm_wday t < 7" "0 \<le> tm_mon t" "tm_mon t < 12"
  shows "sf_text 1 env t [37, 99] tz called = Some (date_text t, tz)"
proof -
  have n: "lc_text lc_wday (tm_wday t) = Some (C_time_locale ! (lc_wday + nat (tm_wday t)))"
    "lc_text lc_mon (tm_mon t) = Some (C_time_locale ! (lc_mon + nat (tm_mon t)))"
    using assms by (simp_all add: lc_text_def lc_wday_def lc_mon_def nat_add_distrib)
  have "sf_text 0 env t (C_time_locale ! lc_c_fmt) tz False = Some (date_text t, tz)"
    by (simp add: c_fmt n date_text_def sf_text_spec spec_plain sf_text_char conv_chars name_piece_def num_piece_def sf_text.simps(1))
  moreover have "again_piece lc_c_fmt = Some (Again (C_time_locale ! lc_c_fmt))"
    by (simp add: again_piece_def lc_text_def lc_c_fmt_def)
  moreover have "date_text t \<noteq> []" by (simp add: date_text_def)
  ultimately show ?thesis by (simp add: sf_text_spec spec_plain conv_chars sf_text.simps(1))
qed

lemma rdigits_length: "length (rdigits 10 v) \<le> Suc k \<longleftrightarrow> v < 10 ^ Suc k"
proof (induction k arbitrary: v)
  case 0
  then show ?case by (subst rdigits.simps) auto
next
  case (Suc k)
  have "v div 10 < 10 ^ Suc k \<longleftrightarrow> v < 10 ^ Suc (Suc k)" by (simp add: div_less_iff_less_mult)
  moreover have "length (rdigits 10 v) \<le> Suc (Suc k) \<longleftrightarrow> v div 10 = 0 \<or> length (rdigits 10 (v div 10)) \<le> Suc k"
    by (subst rdigits.simps) auto
  ultimately show ?case using Suc.IH [of "v div 10"] by auto
qed

lemma digits_length:
  assumes "0 \<le> v"
  shows "v < 100 \<Longrightarrow> length (digits v) \<le> 2" and "length (digits v) \<le> 4 \<longleftrightarrow> v < 10000" and "digits v \<noteq> []"
  using assms rdigits_length [of "nat v" 1] rdigits_length [of "nat v" 3] by (auto simp: digits_def num_text_def)

lemma two_chars:
  assumes "0 \<le> v" "v < 100"
  shows "length (fmt_prec 2 v) = 2" and "length (fmt_width 2 v) = 2" and "fmt_width 3 v = 32 # fmt_width 2 v"
proof -
  have l: "length (digits v) \<le> 2" by (rule digits_length(1) [OF assms])
  then show "length (fmt_prec 2 v) = 2" "length (fmt_width 2 v) = 2" using assms by (simp_all add: fmt_prec_def fmt_width_def Let_def)
  have "3 - length (digits v) = Suc (2 - length (digits v))" using l by linarith
  then show "fmt_width 3 v = 32 # fmt_width 2 v" using assms(1) by (simp add: fmt_width_def Let_def)
qed

lemma year_digits:
  assumes "- 1900 < tm_year t" "tm_year t < 2 ^ 31 - 1900"
  shows "conv_Y 0 0 t = digits (tm_year t + 1900)" and "fmt_width 0 (wrap_s32 (1900 + tm_year t)) = digits (tm_year t + 1900)"
proof -
  have "wrap_u32 (tm_year t + 1900) = tm_year t + 1900" using assms by (simp add: wrap_u32_def)
  then show "conv_Y 0 0 t = digits (tm_year t + 1900)"
    using assms by (simp add: conv_Y_def year_text_def prec_arg_def fmt_prec_def ch_def)
  have "wrap_s32 (1900 + tm_year t) = tm_year t + 1900" using assms by (subst wrap_s32_id) simp_all
  then show "fmt_width 0 (wrap_s32 (1900 + tm_year t)) = digits (tm_year t + 1900)" using assms by (simp add: fmt_width_def)
qed

lemma valid_mday: "tm_valid t \<Longrightarrow> 1 \<le> tm_mday t \<and> tm_mday t \<le> 31"
  using month_lengths_range(2) [of "nat (tm_mon t)" "leap_year (tm_year t + 1900)"] unfolding tm_valid_def by linarith

lemma locale_names:
  "\<forall>i \<in> set [0..<7]. C_time_locale ! (lc_wday + i) = day_name ! i \<and> length (day_name ! i) = 3"
  "\<forall>i \<in> set [0..<12]. C_time_locale ! (lc_mon + i) = mon_name ! i \<and> length (mon_name ! i) = 3"
  by code_simp+

text \<open>
  For every date from the year 1 on, \<open>asctime_r\<close> writes the text of \<open>strftime\<close> for \<open>%c\<close> and a line feed; together
  with the terminator it fits the 26 bytes that \<open>asctime\<close> provides exactly up to the year 9999.
\<close>
theorem asctime_strftime:
  assumes "0 \<le> tm_wday t" "tm_wday t < 7" "tm_valid t" "- 1900 < tm_year t" "tm_year t < 2 ^ 31 - 1900"
  shows "\<exists>x. sf_text 1 env t (ascii ''%c'') tz False = Some (x, tz) \<and>
    asctime_r m t a = Some (region_put m a (x @ [10, 0]), a) \<and> (length (x @ [10, 0]) \<le> 26 \<longleftrightarrow> tm_year t + 1900 \<le> 9999)"
proof -
  have r: "0 \<le> tm_mon t" "tm_mon t < 12" "0 \<le> tm_sec t" "tm_sec t < 100" "0 \<le> tm_min t" "tm_min t < 100" "0 \<le> tm_hour t" "tm_hour t < 100"
    using assms(3) by (simp_all add: tm_valid_def)
  have d: "0 \<le> tm_mday t" "tm_mday t < 100" using valid_mday [OF assms(3)] by simp_all
  note w = two_chars [OF r(3,4)] two_chars [OF r(5,6)] two_chars [OF r(7,8)] two_chars [OF d]
  have n: "C_time_locale ! (lc_wday + nat (tm_wday t)) = day_name ! nat (tm_wday t)" "length (day_name ! nat (tm_wday t)) = 3"
    "C_time_locale ! (lc_mon + nat (tm_mon t)) = mon_name ! nat (tm_mon t)" "length (mon_name ! nat (tm_mon t)) = 3"
    using locale_names assms(1,2) r(1,2) by (auto simp: nat_less_iff)
  have "asctime_r m t a = Some (region_put m a (date_text t @ [10, 0]), a)"
    using assms(1,2) r by (simp add: asctime_r_def date_text_def n w year_digits [OF assms(4,5)])
  moreover have "length (date_text t @ [10, 0]) \<le> 26 \<longleftrightarrow> tm_year t + 1900 \<le> 9999"
    using digits_length(2) [of "tm_year t + 1900"] assms(4) by (auto simp: date_text_def n w year_digits [OF assms(4,5)])
  ultimately show ?thesis using c_text [OF assms(1,2) r(1,2), of env tz False] unfolding ascii_c by blast
qed

lemma demo_valid: "tm_valid demo_tm" "tm_derived demo_tm"
  by (simp_all add: tm_valid_def tm_derived_def demo_tm_def month_lengths_def leap_year_def tm_day_def civil_day_def year_start_def month_start_def)

lemma demo_text: "sf_text 1 env demo_tm (ascii ''%c'') tz False = Some (ascii ''Sun Dec  3 13:05:07 2023'', tz)"
proof -
  have "rdigits 10 2023 = [51, 50, 48, 50]" "rdigits 10 13 = [51, 49]" "rdigits 10 3 = [51]" "rdigits 10 5 = [53]" "rdigits 10 7 = [55]"
    by (simp_all add: rdigits.simps utoa_digits_def)
  moreover have "C_time_locale ! lc_wday = ascii ''Sun''" "C_time_locale ! (lc_mon + 11) = ascii ''Dec''"
    "ascii ''Sun Dec  3 13:05:07 2023'' = ascii ''Sun'' @ [32] @ ascii ''Dec'' @ [32, 32, 51, 32, 49, 51, 58, 48, 53, 58, 48, 55, 32, 50, 48, 50, 51]"
    by code_simp+
  ultimately have "date_text demo_tm = ascii ''Sun Dec  3 13:05:07 2023''"
    by (simp add: date_text_def demo_tm_def year_digits fmt_width_def fmt_prec_def digits_def num_text_def)
  then show ?thesis using c_text [of demo_tm env tz False] unfolding ascii_c by (simp add: demo_tm_def)
qed

lemma strftime_correct_witness:
  "\<exists>m1 tz1. strftime demo_env tz_start (\<lambda>_. 1) 100 30 (ascii ''%c'') demo_tm = Some (m1, tz1, 24) \<and> m1 123 = 51 \<and> m1 124 = 0"
proof -
  have "length (ascii ''Sun Dec  3 13:05:07 2023'') = 24" "ascii ''Sun Dec  3 13:05:07 2023'' ! 23 = 51" by code_simp+
  then show ?thesis using strftime_correct [OF demo_text, of 30 demo_env tz_start "\<lambda>_. 1" 100] by (auto simp: region_put_def nth_append)
qed

lemma asctime_strftime_witness:
  "\<exists>x. sf_text 1 demo_env demo_tm (ascii ''%c'') tz_start False = Some (x, tz_start) \<and>
     asctime_r (\<lambda>_. 1) demo_tm 100 = Some (region_put (\<lambda>_. 1) 100 (x @ [10, 0]), 100)"
  using asctime_strftime [of demo_tm demo_env tz_start "\<lambda>_. 1" 100] demo_valid by (auto simp: demo_tm_def)

section \<open>Limits\<close>

text \<open>
  With \<open>maxsize\<close> 0 there is no room for anything, but \<open>maxsize - 1\<close> is then the greatest \<open>size_t\<close>: the plain
  characters of the format are written all the same, and counted.
\<close>

lemma strftime_size_zero:
  assumes "37 \<notin> set fmt" "length fmt < 2 ^ 32"
  shows "strftime env tz m s 0 fmt t = Some (region_put m s fmt, tz, length fmt)"
proof -
  have "sf_run d env s 0 t fmt m count tz called = Some (region_put m (s + count) fmt, tz, count + length fmt)"
    if "count + length fmt < 2 ^ 32" for d count called
    using that assms(1)
  proof (induction fmt arbitrary: m count)
    case Nil
    then show ?case by (auto simp: sf_run.simps(1) region_put_def fun_eq_iff)
  next
    case (Cons c fmt)
    have "count < size_sub 0 1" using Cons.prems by (simp add: size_sub_def)
    moreover have "region_put (m(s + count := c)) (s + (count + 1)) fmt = region_put m (s + count) (c # fmt)"
      by (auto simp: region_put_def fun_eq_iff nth_Cons')
    ultimately show ?case using Cons.IH [of "count + 1" "m(s + count := c)"] Cons.prems by (simp add: sf_run.simps(2) ch_def fun_upd_def del: fun_upd_apply)
  qed
  from this [of 0] show ?thesis using assms(2) by (simp add: strftime_def)
qed

text \<open>Offsets of less than an hour look the same east and west of Greenwich: the sign goes with the hours.\<close>

lemma conv_z_sign:
  assumes "offset (tzrule tz1 0) = o1" "offset (tzrule tz2 0) = - o1" "\<bar>o1\<bar> < 3600" "tm_isdst t = 0"
  shows "conv_z tz1 t = conv_z tz2 t"
proof -
  have "o1 sdiv 3600 = 0" "(- o1) sdiv 3600 = 0" "(- o1) sdiv 60 = - (o1 sdiv 60)" using assms(3) by (simp_all add: signed_divide_int_def sgn_if)
  then show ?thesis using assms(1,2,4) by (simp add: conv_z_def)
qed

end
