(* ===== verification/TimeWeek.thy ===== *)
theory TimeWeek
  imports TimeText
begin

text \<open>
  What the numbers of weeks in \<open>strftime\<close> mean: \<open>%U\<close> and \<open>%W\<close> count the Sundays and Mondays of the year, \<open>%G\<close>,
  \<open>%g\<close> and \<open>%V\<close> are the year and the week of ISO 8601, in which a week belongs to the year of its Thursday.
\<close>

section \<open>Weekdays\<close>

text \<open>The day of the Thursday of the week, Monday to Sunday, in which a time lies.\<close>

definition iso_thursday :: "tm \<Rightarrow> int" where
  "iso_thursday t = tm_day t - (tm_day t + 3) mod 7 + 3"

lemma derived_days:
  assumes "tm_valid t" "tm_derived t"
  defines "y \<equiv> tm_year t + 1900"
  shows "tm_day t = year_start y + tm_yday t" and "0 \<le> tm_yday t" and "tm_yday t < year_len y"
    and "tm_wday t = (4 + tm_day t) mod 7" and "mon_wday t = (tm_day t + 3) mod 7"
proof -
  show d: "tm_day t = year_start y + tm_yday t" and w: "tm_wday t = (4 + tm_day t) mod 7"
    using assms(2) by (simp_all add: tm_derived_def y_def)
  have m: "0 \<le> tm_mon t" "tm_mon t < 12" "1 \<le> tm_mday t" "tm_mday t \<le> month_lengths (leap_year y) ! nat (tm_mon t)"
    using assms(1) by (simp_all add: tm_valid_def y_def)
  have "tm_yday t = month_start (leap_year y) (nat (tm_mon t)) + tm_mday t - 1"
    using d by (simp add: tm_day_def civil_day_def y_def)
  moreover have "0 \<le> month_start (leap_year y) (nat (tm_mon t))"
    "month_start (leap_year y) (nat (tm_mon t)) + month_lengths (leap_year y) ! nat (tm_mon t) \<le> year_len y"
    using month_start_range [OF m(1,2)] by (simp_all add: year_len_def)
  ultimately show "0 \<le> tm_yday t" "tm_yday t < year_len y" using m(3,4) by linarith+
  have "(tm_day t + 3) mod 7 = (tm_day t + 3 + 7) mod 7" by (simp only: mod_add_self2)
  also have "\<dots> = ((4 + tm_day t) mod 7 + 6) mod 7" by (simp add: mod_add_left_eq)
  finally have "(tm_day t + 3) mod 7 = ((4 + tm_day t) mod 7 + 6) mod 7" .
  moreover have "0 \<le> tm_wday t" "tm_wday t < 7" unfolding w by simp_all
  then have "tm_wday t = 0 \<or> tm_wday t = 1 \<or> tm_wday t = 2 \<or> tm_wday t = 3 \<or> tm_wday t = 4 \<or> tm_wday t = 5 \<or> tm_wday t = 6" by linarith
  ultimately show "mon_wday t = (tm_day t + 3) mod 7" unfolding w [symmetric] mon_wday_def by auto
qed

section \<open>The ISO year and week\<close>

lemma isleap_shift: "isleap (tm_year t + (1900 - (if tm_year t < 0 then 0 else 2000))) = leap_year (tm_year t + 1900)"
  "isleap (tm_year t + (1900 - 1 - (if tm_year t < 0 then 0 else 2000))) = leap_year (tm_year t + 1900 - 1)"
proof -
  have "leap_year (x - 2000) = leap_year x" for x using leap_year_era [of "x - 2000" 5] by simp
  from this [of "tm_year t + 1900"] this [of "tm_year t + 1900 - 1"]
  show "isleap (tm_year t + (1900 - (if tm_year t < 0 then 0 else 2000))) = leap_year (tm_year t + 1900)"
    "isleap (tm_year t + (1900 - 1 - (if tm_year t < 0 then 0 else 2000))) = leap_year (tm_year t + 1900 - 1)"
    by (simp_all add: isleap_leap_year algebra_simps)
qed

text \<open>The cases of \<open>iso_year_adjust\<close> are those in which the Thursday lies in another year.\<close>

lemma iso_cases:
  fixes n W lp :: int
  assumes "0 \<le> n" "0 \<le> W" "W \<le> 6" "lp = 0 \<or> lp = 1" "n < 365 + lp"
  defines "p \<equiv> pack n W lp" and "w \<equiv> if W \<noteq> 0 then W - 1 else 6"
  shows "(if p \<in> set [pack 0 5 0, pack 0 6 0, pack 0 0 0, pack 0 5 1, pack 0 6 1, pack 0 0 1, pack 1 6 0, pack 1 0 0,
                     pack 1 6 1, pack 1 0 1, pack 2 0 0, pack 2 0 1] then - 1
         else if p \<in> set [pack 362 1 0, pack 363 1 1, pack 363 1 0, pack 363 2 0, pack 364 1 1, pack 364 2 1,
                          pack 364 1 0, pack 364 2 0, pack 364 3 0, pack 365 1 1, pack 365 2 1, pack 365 3 1] then 1
         else 0) = (if n - w + 3 < 0 then - 1 else if 365 + lp \<le> n - w + 3 then 1 else (0 :: int))"
proof -
  have W: "W = 0 \<or> W = 1 \<or> W = 2 \<or> W = 3 \<or> W = 4 \<or> W = 5 \<or> W = 6" using assms(2,3) by linarith
  show ?thesis
  proof (cases "3 \<le> n \<and> n \<le> 361")
    case True
    then have "48 \<le> p" "p \<le> 5789" using assms(2,3,4) by (auto simp: p_def pack_def)
    moreover have "0 \<le> n - w + 3" "n - w + 3 < 365 + lp" using True assms(2,3,4) by (auto simp: w_def)
    ultimately show ?thesis by (simp add: pack_def)
  next
    case False
    then have "n = 0 \<or> n = 1 \<or> n = 2 \<or> n = 362 \<or> n = 363 \<or> n = 364 \<or> (n = 365 \<and> lp = 1)" using assms(1,4,5) by linarith
    then show ?thesis using W assms(4) unfolding p_def w_def pack_def by (elim disjE conjE; simp)
  qed
qed

text \<open>The year the ISO week of a date belongs to, and the number of the week there.\<close>

definition iso_year :: "tm \<Rightarrow> int" where "iso_year t = tm_year t + 1900 + iso_year_adjust t"

lemma iso_week:
  assumes t: "tm_valid t" "tm_derived t"
  shows "year_start (iso_year t) \<le> iso_thursday t" and "iso_thursday t < year_start (iso_year t + 1)"
    and "week_V t = (iso_thursday t - year_start (iso_year t)) div 7 + 1"
proof -
  define y n w where "y = tm_year t + 1900" and "n = tm_yday t" and "w = mon_wday t"
  note d = derived_days [OF t, folded y_def]
  have n: "0 \<le> n" "n < year_len y" using d by (simp_all add: n_def)
  have W: "0 \<le> tm_wday t" "tm_wday t \<le> 6" using d(4) by simp_all
  have w: "0 \<le> w" "w \<le> 6" using d(5) by (simp_all add: w_def)
  have th: "iso_thursday t = year_start y + (n - w + 3)" using d(1,5) by (simp add: iso_thursday_def n_def w_def)
  define lp where "lp = (if leap_year y then 1 else 0 :: int)"
  have lp: "lp = 0 \<or> lp = 1" "year_len y = 365 + lp" by (simp_all add: lp_def year_len_def)
  have adj: "iso_year_adjust t = (if n - w + 3 < 0 then - 1 else if 365 + lp \<le> n - w + 3 then 1 else 0)"
    unfolding iso_year_adjust_def Let_def isleap_shift y_def [symmetric] n_def [symmetric] lp_def [symmetric] w_def mon_wday_def
    by (rule iso_cases) (use n W lp in simp_all)
  have nxt: "year_start (y + 1) = year_start y + 365 + lp" using year_start_Suc [of y] lp(2) by simp
  have prev: "year_start y = year_start (y - 1) + year_len (y - 1)" using year_start_Suc [of "y - 1"] by simp
  have "year_start (iso_year t) \<le> iso_thursday t \<and> iso_thursday t < year_start (iso_year t + 1) \<and>
    week_V t = (iso_thursday t - year_start (iso_year t)) div 7 + 1"
  proof -
    consider "n - w + 3 < 0" | "0 \<le> n - w + 3" "n - w + 3 < 365 + lp" | "365 + lp \<le> n - w + 3" by linarith
    then show ?thesis
    proof cases
      case 1
      have wn: "w - n = 4 \<or> w - n = 5 \<or> w - n = 6" using 1 n w by linarith
      have V: "week_V t = 52 + (if w - n - (if leap_year (y - 1) then 1 else 0) \<le> 4 then 1 else 0)"
        using adj 1 unfolding week_V_def Let_def isleap_shift y_def [symmetric] n_def [symmetric] w_def [symmetric] by simp
      have "year_len (y - 1) = (if leap_year (y - 1) then 366 else 365)" by (simp add: year_len_def)
      then show ?thesis using wn 1 adj prev unfolding th V iso_year_def y_def [symmetric] by (auto split: if_splits)
    next
      case 2
      have "n + 10 - w = (n - w + 3) + 7" by simp
      then have "week_V t = (n - w + 3) div 7 + 1"
        using adj 2 unfolding week_V_def Let_def n_def [symmetric] w_def [symmetric] by (simp add: sdiv_smod_pos)
      then show ?thesis using 2 adj nxt unfolding th iso_year_def y_def [symmetric] by simp
    next
      case 3
      have V: "week_V t = 1" using adj 3 lp unfolding week_V_def Let_def by auto
      have "0 \<le> n - w + 3 - (365 + lp)" "n - w + 3 - (365 + lp) < 7" using 3 n w lp by simp_all
      moreover have "year_start (y + 1 + 1) = year_start (y + 1) + year_len (y + 1)" by (rule year_start_Suc)
      moreover have "365 \<le> year_len (y + 1)" by (simp add: year_len_def)
      ultimately show ?thesis using 3 adj nxt lp unfolding th V iso_year_def y_def [symmetric] by auto
    qed
  qed
  then show "year_start (iso_year t) \<le> iso_thursday t" "iso_thursday t < year_start (iso_year t + 1)"
    "week_V t = (iso_thursday t - year_start (iso_year t)) div 7 + 1" by blast+
qed

lemma year_parts:
  assumes "- 1900 < tm_year t"
  shows "century t = (tm_year t + 1900) div 100" and "year_2 t = (tm_year t + 1900) mod 100"
proof -
  have "(tm_year t + 19 * 100) div 100 = tm_year t div 100 + 19" "(tm_year t + 19 * 100) mod 100 = tm_year t mod 100"
    by simp (simp only: mod_mult_self1)
  then show "century t = (tm_year t + 1900) div 100" "year_2 t = (tm_year t + 1900) mod 100"
    using assms by (simp_all add: century_def year_2_def)
qed

lemma iso_year_text:
  assumes "- 1900 < tm_year t" "tm_year t < 2 ^ 31" "1 \<le> iso_year t" "iso_year_adjust t \<in> {- 1, 0, 1}"
  shows "conv_G 0 0 t = digits (iso_year t)" and "conv_g t = fmt_prec 2 (iso_year t mod 100)"
proof -
  define y a where "y = tm_year t + 1900" and "a = iso_year_adjust t"
  define c r where "c = y div 100" and "r = y mod 100"
  have cr: "century t = c" "year_2 t = r" "y = c * 100 + r" "0 \<le> r" "r < 100"
    using year_parts [OF assms(1)] by (simp_all add: y_def c_def r_def)
  have a: "a = - 1 \<or> a = 0 \<or> a = 1" using assms(4) by (simp add: a_def)
  have Y: "iso_year t = c * 100 + r + a" using cr(3) by (simp add: iso_year_def y_def a_def)
  have w: "wrap_u32 (iso_year t) = iso_year t" using assms(2,3) a unfolding iso_year_def a_def [symmetric] by (intro wrap_u32_id) auto
  have n: "\<not> tm_year t < - 1900" "\<not> tm_year t \<le> - 1900" using assms(1) by simp_all
  have "(if r + a = - 1 then (99, c - 1) else if r + a = 100 then (0, c + 1) else (r + a, c)) = (Y1, c1) \<Longrightarrow>
      c1 * 100 + Y1 = iso_year t" for Y1 c1 using Y by (auto split: if_splits)
  then show "conv_G 0 0 t = digits (iso_year t)"
    using n a assms(3) w unfolding conv_G_def Let_def cr(1,2) a_def [symmetric]
    by (auto simp: year_text_def fmt_prec_def prec_arg_def ch_def split: prod.split)
  have "iso_year t mod 100 = ((r + a) + c * 100) mod 100" unfolding Y by (simp only: ac_simps)
  then have "iso_year t mod 100 = (r + a) mod 100" by (simp only: mod_mult_self1)
  moreover have "((r + a) smod 100 + 100) smod 100 = (r + a) mod 100"
  proof (cases "r + a = - 1")
    case False
    then have "0 \<le> r + a" using cr(4) a by linarith
    then show ?thesis by (simp add: sdiv_smod_pos)
  qed (simp add: sdiv_smod_pos)
  ultimately show "conv_g t = fmt_prec 2 (iso_year t mod 100)"
    using n unfolding conv_g_def Let_def cr(1,2) a_def [symmetric] by simp
qed

section \<open>Counting Sundays and Mondays\<close>

lemma count_days:
  fixes n b :: int
  assumes "0 \<le> n" "0 \<le> b" "b < 7" "(c + n - b) mod 7 = 0"
  shows "int (card {k. 0 \<le> k \<and> k \<le> n \<and> (c + k) mod 7 = 0}) = (n + 7 - b) div 7"
proof -
  define q where "q = nat ((n + 7 - b) div 7)"
  have q: "int q = (n + 7 - b) div 7" using assms(1,3) by (simp add: q_def)
  have "{k. 0 \<le> k \<and> k \<le> n \<and> (c + k) mod 7 = 0} = (\<lambda>j. n - b - 7 * int j) ` {..<q}"
  proof (intro equalityI subsetI)
    fix k assume "k \<in> {k. 0 \<le> k \<and> k \<le> n \<and> (c + k) mod 7 = 0}"
    then have k: "0 \<le> k" "k \<le> n" "(c + k) mod 7 = 0" by simp_all
    have "7 dvd (c + n - b) - (c + k)" by (rule dvd_diff) (use assms(4) k(3) in \<open>simp_all only: dvd_eq_mod_eq_0\<close>)
    moreover have "(c + n - b) - (c + k) = n - b - k" by simp
    ultimately obtain j where j: "n - b - k = 7 * j" by (metis dvdE)
    have "- 7 < 7 * j" using j k(2) assms(3) by simp
    then have "0 \<le> j" by simp
    moreover have "7 * j + 7 \<le> n + 7 - b" using j k(1) by simp
    then have "j + 1 \<le> (n + 7 - b) div 7" by linarith
    ultimately have "k = n - b - 7 * int (nat j)" "nat j < q" using j q by simp_all
    then show "k \<in> (\<lambda>j. n - b - 7 * int j) ` {..<q}" by blast
  next
    fix k assume "k \<in> (\<lambda>j. n - b - 7 * int j) ` {..<q}"
    then obtain j where j: "k = n - b - 7 * int j" "j < q" by blast
    have "int j + 1 \<le> (n + 7 - b) div 7" using j(2) q by simp
    then have "7 * (int j + 1) \<le> 7 * ((n + 7 - b) div 7)" by (rule mult_left_mono) simp
    moreover have "7 * ((n + 7 - b) div 7) \<le> n + 7 - b" using mult_div_mod_eq [of 7 "n + 7 - b"] pos_mod_sign [of 7 "n + 7 - b"] by linarith
    ultimately have "7 * (int j + 1) \<le> n + 7 - b" by (rule order_trans)
    moreover have "c + k = (c + n - b) + 7 * (- int j)" using j(1) by simp
    then have "(c + k) mod 7 = 0" using assms(4) by (simp only: mod_mult_self2)
    ultimately show "k \<in> {k. 0 \<le> k \<and> k \<le> n \<and> (c + k) mod 7 = 0}" using j(1) assms(2) by simp
  qed
  moreover have "inj_on (\<lambda>j. n - b - 7 * int j) {..<q}" by (simp add: inj_on_def)
  ultimately show ?thesis using q by (simp add: card_image)
qed

text \<open>The number of the days of the year up to the given one that fall on the weekday \<open>d\<close>, where Sunday is 0.\<close>

definition weekdays_so_far :: "int \<Rightarrow> tm \<Rightarrow> nat" where
  "weekdays_so_far d t = card {k. 0 \<le> k \<and> k \<le> tm_yday t \<and> (4 + year_start (tm_year t + 1900) + k - d) mod 7 = 0}"

lemma week_counts:
  assumes "tm_valid t" "tm_derived t"
  shows "week_U t = int (weekdays_so_far 0 t)" and "week_W t = int (weekdays_so_far 1 t)"
proof -
  define y where "y = tm_year t + 1900"
  note d = derived_days [OF assms, folded y_def]
  have r: "0 \<le> tm_wday t" "tm_wday t < 7" "0 \<le> mon_wday t" "mon_wday t < 7" unfolding d(4,5) by simp_all
  have m: "(4 + year_start y + tm_yday t - tm_wday t) mod 7 = 0" "(4 + year_start y - 1 + tm_yday t - mon_wday t) mod 7 = 0"
    using d(1) unfolding d(4,5) by (simp_all add: mod_diff_right_eq flip: add.assoc)
  show "week_U t = int (weekdays_so_far 0 t)"
    using count_days [OF d(2) r(1,2) m(1)] d(2) r by (simp add: week_U_def weekdays_so_far_def sdiv_smod_pos y_def)
  show "week_W t = int (weekdays_so_far 1 t)"
    using count_days [OF d(2) r(3,4) m(2)] d(2) r by (simp add: week_W_def weekdays_so_far_def sdiv_smod_pos y_def algebra_simps)
qed

section \<open>The texts\<close>

lemma iso_year_adjust_range: "iso_year_adjust t \<in> {- 1, 0, 1}"
  unfolding iso_year_adjust_def Let_def by (simp only: insert_iff simp_thms split: if_split)



end
