(* ===== verification/TimeParse.thy ===== *)
theory TimeParse
  imports TimeWeek
begin

text \<open>
  \<open>strptime\<close> (\<open>time/strptime.c\<close>), which reads a time in a given format from a string in memory. The format
  is the list of its characters; the strings of the locale lie in memory at the addresses in
  \<open>struct lc_time_T\<close>. It calls \<open>strtol\<close> and \<open>strncasecmp\<close> of the other theories.
\<close>

section \<open>Operations\<close>

definition DAYS_BEFORE_MONTH :: "int list" where
  "DAYS_BEFORE_MONTH = [0, 31, 59, 90, 120, 151, 181, 212, 243, 273, 304, 334]"

definition SET_MDAY :: u32 where "SET_MDAY = 1"
definition SET_MON :: u32 where "SET_MON = 2"
definition SET_YEAR :: u32 where "SET_YEAR = 4"
definition SET_WDAY :: u32 where "SET_WDAY = 8"
definition SET_YDAY :: u32 where "SET_YDAY = 16"
definition SET_YMD :: u32 where "SET_YMD = SET_YEAR OR SET_MON OR SET_MDAY"

definition is_leap_year :: "int \<Rightarrow> bool" where
  "is_leap_year year \<longleftrightarrow> year smod 4 = 0 \<and> (year smod 100 \<noteq> 0 \<or> year smod 400 = 0)"

text \<open>
  \<open>match_string\<close> on the array \<open>member\<close> of the locale, from its element \<open>i\<close> on. The arrays have no \<open>NULL\<close> behind
  them, so the loop goes on in the next members; the end of the structure has no value.
\<close>

function match_loop :: "mem \<Rightarrow> (nat \<Rightarrow> nat) \<Rightarrow> nat \<Rightarrow> nat \<Rightarrow> nat \<Rightarrow> (int \<times> nat) option" where
  "match_loop m lc member i buf =
     (if 63 \<le> member + i then None
      else if lc (member + i) = 0 then Some (- 1, buf)
      else case strlen m (lc (member + i)) of None \<Rightarrow> None
        | Some len \<Rightarrow>
            if strncasecmp m buf (lc (member + i)) len = 0 then Some (int i, buf + len)
            else match_loop m lc member (i + 1) buf)"
  by pat_completeness auto
termination by (relation "measure (\<lambda>(m, lc, member, i, buf). 63 - (member + i))") auto

declare match_loop.simps [simp del]

function first_day_loop :: "int \<Rightarrow> int \<Rightarrow> int" where
  "first_day_loop year ret =
     (if 1970 \<le> year - 1 then first_day_loop (year - 1) ((ret + 365 + (if is_leap_year (year - 1) then 1 else 0)) smod 7) else ret)"
  by pat_completeness auto
termination by (relation "measure (\<lambda>(year, ret). nat (year - 1970))") auto

declare first_day_loop.simps [simp del]

definition first_day :: "int \<Rightarrow> int" where "first_day year = first_day_loop year 4"

definition full_year :: "tm \<Rightarrow> int" where "full_year t = wrap_s32 (tm_year t + 1900)"

definition set_week_number_sun :: "tm \<Rightarrow> int \<Rightarrow> tm" where
  "set_week_number_sun t wnum =
     (let fday = first_day (full_year t); yday = wrap_s32 (wnum * 7 + tm_wday t - fday)
      in if yday < 0 then t\<lparr>tm_wday := fday, tm_yday := 0\<rparr> else t\<lparr>tm_yday := yday\<rparr>)"

definition set_week_number_mon :: "tm \<Rightarrow> int \<Rightarrow> tm" where
  "set_week_number_mon t wnum =
     (let fday = (first_day (full_year t) + 6) smod 7; yday = wrap_s32 (wnum * 7 + (tm_wday t + 6) smod 7 - fday)
      in if yday < 0 then t\<lparr>tm_wday := (fday + 1) smod 7, tm_yday := 0\<rparr> else t\<lparr>tm_yday := yday\<rparr>)"

definition set_week_number_mon4 :: "tm \<Rightarrow> int \<Rightarrow> tm" where
  "set_week_number_mon4 t wnum =
     (let fday = (first_day (full_year t) + 6) smod 7; offset = (if fday < 4 then 7 else 0);
          yday = wrap_s32 (offset + (wnum - 1) * 7 + tm_wday t - fday)
      in if yday < 0 then t\<lparr>tm_wday := fday, tm_yday := 0\<rparr> else t\<lparr>tm_yday := yday\<rparr>)"

text \<open>The variables of \<open>strptime\<close>: \<open>buf\<close>, \<open>*timeptr\<close>, \<open>ymd\<close> and the \<open>errno\<close> of \<open>strtol\<close>.\<close>

record sp =
  sp_buf :: nat
  sp_tm :: tm
  sp_ymd :: u32
  sp_err :: int

datatype sp_out = Null sp | Go sp

text \<open>\<open>ret = strtol (buf, &s, 10); if (s == buf) return NULL; ... buf = s\<close>, and the same for a name.\<close>

definition with_num :: "mem \<Rightarrow> sp \<Rightarrow> (int \<Rightarrow> sp \<Rightarrow> sp) \<Rightarrow> sp_out option" where
  "with_num m st f =
     (case strtol m (sp_err st) (sp_buf st) 10 of None \<Rightarrow> None
      | Some (ret, s, err) \<Rightarrow>
          if s = sp_buf st then Some (Null (st\<lparr>sp_err := err\<rparr>))
          else Some (Go (f (sint ret) (st\<lparr>sp_err := err, sp_buf := s\<rparr>))))"

definition with_name :: "mem \<Rightarrow> (nat \<Rightarrow> nat) \<Rightarrow> nat \<Rightarrow> sp \<Rightarrow> (int \<Rightarrow> sp \<Rightarrow> sp) \<Rightarrow> sp_out option" where
  "with_name m lc member st f =
     (case match_loop m lc member 0 (sp_buf st) of None \<Rightarrow> None
      | Some (ret, b) \<Rightarrow> if ret < 0 then Some (Null st) else Some (Go (f ret (st\<lparr>sp_buf := b\<rparr>))))"

definition fill :: "u32 \<Rightarrow> (int \<Rightarrow> tm \<Rightarrow> tm) \<Rightarrow> int \<Rightarrow> sp \<Rightarrow> sp" where
  "fill flag f ret st = st\<lparr>sp_tm := f ret (sp_tm st), sp_ymd := sp_ymd st OR flag\<rparr>"

definition set_am_pm :: "int \<Rightarrow> tm \<Rightarrow> tm" where
  "set_am_pm ret t =
     (if tm_hour t = 0 then (if ret = 1 then t\<lparr>tm_hour := 12\<rparr> else t) else t\<lparr>tm_hour := wrap_s32 (tm_hour t + 12)\<rparr>)"

definition expect :: "mem \<Rightarrow> sp \<Rightarrow> u8 \<Rightarrow> sp_out" where
  "expect m st c = (if m (sp_buf st) = c then Go (st\<lparr>sp_buf := sp_buf st + 1\<rparr>) else Null st)"

definition sp_date :: "mem \<Rightarrow> u8 \<Rightarrow> sp \<Rightarrow> sp_out option" where
  "sp_date m c st =
     (if c = ch CHR ''C'' then with_num m st (fill SET_YEAR (\<lambda>ret t. t\<lparr>tm_year := wrap_s32 (ret * 100 - 1900)\<rparr>))
      else if c = ch CHR ''d'' \<or> c = ch CHR ''e'' then with_num m st (fill SET_MDAY (\<lambda>ret t. t\<lparr>tm_mday := ret\<rparr>))
      else if c = ch CHR ''j'' then with_num m st (fill SET_YDAY (\<lambda>ret t. t\<lparr>tm_yday := wrap_s32 (ret - 1)\<rparr>))
      else if c = ch CHR ''m'' then with_num m st (fill SET_MON (\<lambda>ret t. t\<lparr>tm_mon := wrap_s32 (ret - 1)\<rparr>))
      else if c = ch CHR ''u'' then with_num m st (fill SET_WDAY (\<lambda>ret t. t\<lparr>tm_wday := wrap_s32 (ret - 1)\<rparr>))
      else if c = ch CHR ''w'' then with_num m st (fill SET_WDAY (\<lambda>ret t. t\<lparr>tm_wday := ret\<rparr>))
      else if c = ch CHR ''U'' then with_num m st (fill SET_YDAY (\<lambda>ret t. set_week_number_sun t ret))
      else if c = ch CHR ''V'' then with_num m st (fill SET_YDAY (\<lambda>ret t. set_week_number_mon4 t ret))
      else if c = ch CHR ''W'' then with_num m st (fill SET_YDAY (\<lambda>ret t. set_week_number_mon t ret))
      else if c = ch CHR ''y'' then with_num m st (fill SET_YEAR (\<lambda>ret t. t\<lparr>tm_year := (if ret < 70 then 100 + ret else ret)\<rparr>))
      else if c = ch CHR ''Y'' then with_num m st (fill SET_YEAR (\<lambda>ret t. t\<lparr>tm_year := wrap_s32 (ret - 1900)\<rparr>))
      else if c = ch CHR ''Z'' then Some (Go st)
      else if c = 0 \<or> c = ch CHR ''%'' then Some (expect m st (ch CHR ''%''))
      else if m (sp_buf st) = ch CHR ''%'' then Some (Go (st\<lparr>sp_buf := sp_buf st + 1\<rparr>))
      else Some (expect m (st\<lparr>sp_buf := sp_buf st + 1\<rparr>) c))"

definition sp_conv :: "mem \<Rightarrow> (nat \<Rightarrow> nat) \<Rightarrow> u8 \<Rightarrow> sp \<Rightarrow> sp_out option" where
  "sp_conv m lc c st =
     (if c = ch CHR ''A'' then with_name m lc lc_weekday st (fill SET_WDAY (\<lambda>ret t. t\<lparr>tm_wday := ret\<rparr>))
      else if c = ch CHR ''a'' then with_name m lc lc_wday st (fill SET_WDAY (\<lambda>ret t. t\<lparr>tm_wday := ret\<rparr>))
      else if c = ch CHR ''B'' then with_name m lc lc_month st (fill SET_MON (\<lambda>ret t. t\<lparr>tm_mon := ret\<rparr>))
      else if c = ch CHR ''b'' \<or> c = ch CHR ''h'' then with_name m lc lc_mon st (fill SET_MON (\<lambda>ret t. t\<lparr>tm_mon := ret\<rparr>))
      else if c = ch CHR ''H'' \<or> c = ch CHR ''k'' then with_num m st (fill 0 (\<lambda>ret t. t\<lparr>tm_hour := ret\<rparr>))
      else if c = ch CHR ''I'' \<or> c = ch CHR ''l'' then with_num m st (fill 0 (\<lambda>ret t. t\<lparr>tm_hour := (if ret = 12 then 0 else ret)\<rparr>))
      else if c = ch CHR ''M'' then with_num m st (fill 0 (\<lambda>ret t. t\<lparr>tm_min := ret\<rparr>))
      else if c = ch CHR ''n'' then Some (expect m st 10)
      else if c = ch CHR ''p'' then with_name m lc lc_am_pm st (fill 0 set_am_pm)
      else if c = ch CHR ''S'' then with_num m st (fill 0 (\<lambda>ret t. t\<lparr>tm_sec := ret\<rparr>))
      else if c = ch CHR ''t'' then Some (expect m st 9)
      else sp_date m c st)"

text \<open>The conversions that call \<open>strptime\<close>: the format, and what they add to \<open>ymd\<close>.\<close>

definition sp_nested :: "u8 \<Rightarrow> (u8 list \<times> u32) option" where
  "sp_nested c =
     (if c = ch CHR ''c'' then Some (C_time_locale ! lc_c_fmt, SET_WDAY OR SET_YMD)
      else if c = ch CHR ''D'' then Some (ascii ''%m/%d/%y'', SET_YMD)
      else if c = ch CHR ''r'' then Some (C_time_locale ! lc_ampm_fmt, 0)
      else if c = ch CHR ''R'' then Some (ascii ''%H:%M'', 0)
      else if c = ch CHR ''T'' then Some (ascii ''%H:%M:%S'', 0)
      else if c = ch CHR ''x'' then Some (C_time_locale ! lc_x_fmt, SET_YMD)
      else if c = ch CHR ''X'' then Some (C_time_locale ! lc_X_fmt, 0)
      else None)"

text \<open>The loop that finds the month of a day of the year.\<close>

definition month_of :: "int \<Rightarrow> int \<Rightarrow> nat" where
  "month_of yday leap =
     (let ms = filter (\<lambda>i. yday < DAYS_BEFORE_MONTH ! i + leap) [2..<12] in (if ms = [] then 12 else hd ms) - 1)"

text \<open>What follows the loop; an index outside the table of the months is none.\<close>

definition fill_yday :: "tm \<Rightarrow> tm option" where
  "fill_yday t =
     (if 0 \<le> tm_mon t \<and> tm_mon t < 12 then
        Some (t\<lparr>tm_yday := DAYS_BEFORE_MONTH ! nat (tm_mon t) + tm_mday t -
                 (if \<not> is_leap_year (full_year t) \<or> tm_mon t < 2 then 1 else 0)\<rparr>)
      else None)"

definition fill_mon :: "tm \<Rightarrow> tm" where
  "fill_mon t =
     t\<lparr>tm_mon := (if tm_yday t < DAYS_BEFORE_MONTH ! 1 then 0
                   else int (month_of (tm_yday t) (if is_leap_year (full_year t) then 1 else 0)))\<rparr>"

definition fill_mday :: "tm \<Rightarrow> tm option" where
  "fill_mday t =
     (if 0 \<le> tm_mon t \<and> tm_mon t < 12 then
        Some (t\<lparr>tm_mday := tm_yday t - DAYS_BEFORE_MONTH ! nat (tm_mon t) +
                 (if \<not> is_leap_year (full_year t) \<or> tm_mon t < 2 then 1 else 0)\<rparr>)
      else None)"

definition sp_finish :: "sp \<Rightarrow> sp option" where
  "sp_finish st =
     (let ymd = sp_ymd st; t = sp_tm st;
          filled =
            (if ymd AND SET_YMD = SET_YMD then
               (if ymd AND SET_YDAY = 0 then map_option (\<lambda>t. (t, ymd OR SET_YDAY)) (fill_yday t) else Some (t, ymd))
             else if ymd AND (SET_YEAR OR SET_YDAY) = (SET_YEAR OR SET_YDAY) then
               (let t1 = (if ymd AND SET_MON = 0 then fill_mon t else t)
                in map_option (\<lambda>t. (t, ymd)) (if ymd AND SET_MDAY = 0 then fill_mday t1 else Some t1))
             else Some (t, ymd))
      in case filled of None \<Rightarrow> None
         | Some (t1, ymd1) \<Rightarrow>
             Some (st\<lparr>sp_ymd := ymd1,
               sp_tm := (if ymd1 AND (SET_YEAR OR SET_YDAY OR SET_WDAY) = (SET_YEAR OR SET_YDAY)
                         then t1\<lparr>tm_wday := (first_day (full_year t1) + tm_yday t1) smod 7\<rparr> else t1)\<rparr>))"

text \<open>The character of the conversion behind a percent sign, where \<open>E\<close> and \<open>O\<close> are skipped, and the rest.\<close>

definition sp_spec :: "u8 list \<Rightarrow> u8 \<times> u8 list" where
  "sp_spec fmt =
     (case fmt of [] \<Rightarrow> (0, [])
      | c # r \<Rightarrow> if c = ch CHR ''E'' \<or> c = ch CHR ''O'' then (case r of [] \<Rightarrow> (0, []) | c1 # r1 \<Rightarrow> (c1, r1)) else (c, r))"

partial_function (option) skip_white :: "mem \<Rightarrow> nat \<Rightarrow> nat option" where
  "skip_white m b = (if isspace (uint (m b)) then skip_white m (b + 1) else Some b)"

declare skip_white.simps [code]

lemma sp_spec_shorter: "sp_spec fmt = (f, r) \<Longrightarrow> length r \<le> length fmt"
  by (auto simp: sp_spec_def split: list.splits if_splits)

text \<open>The loop over the format; \<open>d\<close> bounds how deep \<open>strptime\<close> calls itself.\<close>

function sp_run :: "nat \<Rightarrow> mem \<Rightarrow> (nat \<Rightarrow> nat) \<Rightarrow> u8 list \<Rightarrow> sp \<Rightarrow> sp_out option" where
  "sp_run d m lc [] st = map_option Go (sp_finish st)"
| "sp_run d m lc (c # fmt) st =
     (if isspace (uint c) then
        (case skip_white m (sp_buf st) of None \<Rightarrow> None | Some b \<Rightarrow> sp_run d m lc fmt (st\<lparr>sp_buf := b\<rparr>))
      else if c = ch CHR ''%'' \<and> fmt \<noteq> [] then
        (case sp_spec fmt of (f, rest) \<Rightarrow>
          (case sp_nested f of
             None \<Rightarrow>
               (case sp_conv m lc f st of None \<Rightarrow> None
                | Some (Null st1) \<Rightarrow> Some (Null st1)
                | Some (Go st1) \<Rightarrow> sp_run d m lc rest st1)
           | Some (g, flags) \<Rightarrow>
               (if d = 0 then None
                else case sp_run (d - 1) m lc g (st\<lparr>sp_ymd := 0\<rparr>) of None \<Rightarrow> None
                  | Some (Null st1) \<Rightarrow> Some (Null st1)
                  | Some (Go st1) \<Rightarrow> sp_run d m lc rest (st1\<lparr>sp_ymd := sp_ymd st OR flags\<rparr>))))
      else case expect m st c of Null st1 \<Rightarrow> Some (Null st1) | Go st1 \<Rightarrow> sp_run d m lc fmt st1)"
  by pat_completeness auto
termination
  by (relation "measures [\<lambda>(d, m, lc, fmt, st). d, \<lambda>(d, m, lc, fmt, st). length fmt]")
     (auto dest: sp_spec_shorter [OF sym] simp: less_Suc_eq_le)

declare sp_run.simps [simp del]

text \<open>The time, the result, which may be \<open>NULL\<close>, and \<open>errno\<close>.\<close>

definition strptime :: "mem \<Rightarrow> (nat \<Rightarrow> nat) \<Rightarrow> int \<Rightarrow> nat \<Rightarrow> u8 list \<Rightarrow> tm \<Rightarrow> (tm \<times> nat option \<times> int) option" where
  "strptime m lc err buf format t =
     (case sp_run 1 m lc format \<lparr>sp_buf = buf, sp_tm = t, sp_ymd = 0, sp_err = err\<rparr> of None \<Rightarrow> None
      | Some (Null st) \<Rightarrow> Some (sp_tm st, None, sp_err st)
      | Some (Go st) \<Rightarrow> Some (sp_tm st, Some (sp_buf st), sp_err st))"

end
