(* ===== verification/TimeRound.thy ===== *)
theory TimeRound
  imports TimeParse
begin

text \<open>
  What \<open>strptime\<close> makes of the text that \<open>strftime\<close> writes: the date of \<open>%c\<close> comes back with all its fields, while
  some other conversions read something else than what was written.
\<close>

section \<open>Numbers and names\<close>

text \<open>A number as the formats write it: blanks, zeros and the digits.\<close>

definition num_str :: "u8 list \<Rightarrow> int \<Rightarrow> bool" where
  "num_str x v \<longleftrightarrow> 0 \<le> v \<and> v < 2 ^ 31 \<and> (\<exists>a z. x = replicate a 32 @ replicate z 48 @ digits v)"

lemma num_strI:
  assumes "0 \<le> v" "v < 2 ^ 31"
  shows "num_str (fmt_prec 2 v) v" and "num_str (fmt_width 2 v) v" and "num_str (digits v) v"
proof -
  have "fmt_prec 2 v = replicate 0 32 @ replicate (2 - length (digits v)) 48 @ digits v"
    "fmt_width 2 v = replicate (2 - length (digits v)) 32 @ replicate 0 48 @ digits v"
    "digits v = replicate 0 32 @ replicate 0 48 @ digits v"
    using assms by (simp_all add: fmt_prec_def fmt_width_def Let_def)
  then show "num_str (fmt_prec 2 v) v" "num_str (fmt_width 2 v) v" "num_str (digits v) v"
    using assms unfolding num_str_def by blast+
qed

lemma digits_props:
  assumes "0 \<le> v"
  shows "\<forall>c \<in> set (digits v). is_dig 10 c" and "num_val 10 0 (digits v) = v"
proof -
  note s = split_num_text [of 10 "nat v", simplified]
  show "num_val 10 0 (digits v) = v" using s(2) assms by (simp add: digits_def)
  show "\<forall>c \<in> set (digits v). is_dig 10 c"
    using rdigits_props [of 10 "nat v"] assms utoa_digit(1) by (fastforce simp: digits_def num_text_def is_dig_def)
qed

lemma blank_tests: "isspace 32" "\<not> isspace 48" "isspace (uint (32 :: u8))" "is_dig 10 48" "dig_val 48 = 0" "\<not> is_dig 10 32"
  using class_tests [of 32] class_tests [of 48] by (simp_all add: is_dig_def dig_val_def digit_of_def)

lemma dig_range:
  assumes "is_dig 10 c" shows "48 \<le> uint c \<and> uint c \<le> 57"
proof -
  have t: "isdigit (uint c) \<longleftrightarrow> 48 \<le> uint c \<and> uint c \<le> 57" "isupper (uint c) \<longleftrightarrow> 65 \<le> uint c \<and> uint c \<le> 90" "islower (uint c) \<longleftrightarrow> 97 \<le> uint c \<and> uint c \<le> 122"
    "isalpha (uint c) \<longleftrightarrow> 65 \<le> uint c \<and> uint c \<le> 90 \<or> 97 \<le> uint c \<and> uint c \<le> 122"
    using class_tests [OF byte_range, of c] by simp_all
  show ?thesis using assms by (simp add: is_dig_def digit_of_def t(1) split: if_splits option.splits) (simp_all add: t, linarith?)
qed
lemma dig_no_space: "is_dig 10 c \<Longrightarrow> \<not> isspace (uint c) \<and> c \<noteq> 45 \<and> c \<noteq> 43"
proof -
  assume "is_dig 10 c"
  then have r: "48 \<le> uint c" "uint c \<le> 57" using dig_range by simp_all
  have "isspace (uint c) \<longleftrightarrow> uint c = 32 \<or> 9 \<le> uint c \<and> uint c \<le> 13" using class_tests [OF byte_range, of c] by simp
  then show ?thesis using r by auto
qed

lemma num_val_zeros: "num_val 10 0 (replicate z 48 @ ds) = num_val 10 0 ds"
proof (induction z)
  case (Suc z)
  then show ?case using blank_tests(5) by (simp only: replicate_Suc append_Cons num_val_simps mult_zero_left add_0)
qed (simp only: replicate_0 append_Nil)

lemma with_num_text:
  assumes x: "num_str x v" and c: "cstr m (sp_buf st) (x @ r)" and r: "r = [] \<or> \<not> is_dig 10 (hd r)"
  shows "with_num m st f = Some (Go (f v (st\<lparr>sp_buf := sp_buf st + length x\<rparr>)))"
proof -
  obtain a z where xa: "x = replicate a 32 @ replicate z 48 @ digits v" and v: "0 \<le> v" "v < 2 ^ 31" using x by (auto simp: num_str_def)
  define ds where "ds = replicate z 48 @ digits v"
  have dg: "\<forall>c \<in> set ds. is_dig 10 c" and ne: "ds \<noteq> []" and val: "num_val 10 0 ds = v"
    using digits_props [OF v(1)] digits_length(3) [OF v(1)] blank_tests(4) by (auto simp: ds_def num_val_zeros)
  obtain c0 ds0 where c0: "ds = c0 # ds0" "is_dig 10 c0" using ne dg by (cases ds) auto
  have "dropWhile (\<lambda>c. isspace (uint c)) (replicate a 32 @ ds @ r) = ds @ r"
    using blank_tests(3) dig_no_space [OF c0(2)] by (induction a) (simp_all add: c0(1))
  then have "dropWhile (\<lambda>c. isspace (uint c)) (x @ r) = ds @ r" by (simp add: xa ds_def)
  moreover have "split_sign (ds @ r) = (False, ds @ r)" using dig_no_space [OF c0(2)] by (simp add: split_sign_def c0(1))
  moreover have "takeWhile (is_dig 10) (ds @ r) = ds" using dg r by (cases r) (auto simp: takeWhile_append2)
  ultimately have sp: "split_num 10 (x @ r) = (False, 10, a, ds)" by (simp add: split_num_def split_base_def xa ds_def)
  have lx: "length x = a + length ds" by (simp add: xa ds_def)
  have e: "sp_buf st + length x = (if ds = [] then sp_buf st else sp_buf st + a + length ds)"  using ne lx by simp
  obtain w where w: "strtol m (sp_err st) (sp_buf st) 10 =
      Some (w, sp_buf st + length x, if - (2 ^ 31) \<le> v \<and> v < 2 ^ 31 then sp_err st else ERANGE)"
      "sint w = max (- (2 ^ 31)) (min (2 ^ 31 - 1) v)"
    using strtol_cstr(1) [OF c, of 10 False 10 a ds v "sp_buf st + length x" "sp_err st"] sp val e by auto
  have "- (2 ^ 31) \<le> v \<and> v < 2 ^ 31" "sint w = v" using v w(2) by simp_all
  then show ?thesis using digits_length(3) [OF v(1)] using w(1) by (simp add: with_num_def xa)
qed

text \<open>The strings of the locale lie in memory where \<open>lc\<close> says, one for each place of the structure.\<close>

definition locale_at :: "mem \<Rightarrow> (nat \<Rightarrow> nat) \<Rightarrow> bool" where
  "locale_at m lc \<longleftrightarrow> (\<forall>i < 63. lc i \<noteq> 0 \<and> cstr m (lc i) (C_time_locale ! i))"

lemma match_loop_step:
  assumes "locale_at m lc" "cstr m p s" "member + i < 63"
  shows "match_loop m lc member i p =
    (let n = C_time_locale ! (member + i) in
     if map lower_byte (take (length n) s) = map lower_byte n then Some (int i, p + length n) else match_loop m lc member (i + 1) p)"
proof -
  let ?n = "C_time_locale ! (member + i)"
  have n: "cstr m (lc (member + i)) ?n" "lc (member + i) \<noteq> 0" using assms(1,3) by (simp_all add: locale_at_def)
  have "0 \<notin> set (map lower_byte (take (length ?n) s))" "0 \<notin> set (map lower_byte ?n)"
    using assms(2) n(1) by (auto simp: cstr_def image_iff dest: sym in_set_takeD)
  then have "strncasecmp m p (lc (member + i)) (length ?n) = 0 \<longleftrightarrow> map lower_byte (take (length ?n) s) = map lower_byte ?n"
    using ncase_loop_str [OF assms(2) n(1), of "length ?n"] by (simp add: strncasecmp_def str_diff_zero)
  then show ?thesis using assms(3) n strlen_cstr [OF n(1)] by (subst match_loop.simps) (simp add: Let_def)
qed

lemma match_loop_first:
  assumes "locale_at m lc" "cstr m p s" "member + k < 63" "i \<le> k"
    and "\<forall>j \<in> {i..<k}. map lower_byte (take (length (C_time_locale ! (member + j))) s) \<noteq> map lower_byte (C_time_locale ! (member + j))"
    and "map lower_byte (take (length (C_time_locale ! (member + k))) s) = map lower_byte (C_time_locale ! (member + k))"
  shows "match_loop m lc member i p = Some (int k, p + length (C_time_locale ! (member + k)))"
  using assms(4,5)
proof (induction "k - i" arbitrary: i)
  case 0
  then show ?case using match_loop_step [OF assms(1,2), of member i] assms(3,6) by simp
next
  case (Suc n)
  then have "i < k" by simp
  then have "match_loop m lc member i p = match_loop m lc member (i + 1) p"
    using match_loop_step [OF assms(1,2), of member i] assms(3) Suc.prems(2) by (simp add: Let_def)
  then show ?case using \<open>i < k\<close> Suc.hyps(1) [of "i + 1"] Suc.hyps(2) Suc.prems by simp
qed

lemma names_differ:
  "\<forall>k \<in> set [0..<7]. \<forall>j \<in> set [0..<k]. map lower_byte (C_time_locale ! (lc_wday + j)) \<noteq> map lower_byte (C_time_locale ! (lc_wday + k))"
  "\<forall>k \<in> set [0..<12]. \<forall>j \<in> set [0..<k]. map lower_byte (C_time_locale ! (lc_mon + j)) \<noteq> map lower_byte (C_time_locale ! (lc_mon + k))"
  by code_simp+

lemma with_name_text:
  assumes "locale_at m lc" "cstr m (sp_buf st) (C_time_locale ! (member + nat i) @ r)" "0 \<le> i"
    and "member = lc_wday \<and> i < 7 \<or> member = lc_mon \<and> i < 12"
  shows "with_name m lc member st f = Some (Go (f i (st\<lparr>sp_buf := sp_buf st + 3\<rparr>)))"
proof -
  have k: "member + nat i < 63" using assms(3,4) by (auto simp: lc_wday_def lc_mon_def)
  have l: "length (C_time_locale ! (member + nat j)) = 3" if "0 \<le> j" "j \<le> i" for j
    using assms(3,4) locale_names that by (auto simp: nat_less_iff)
  have "length (C_time_locale ! (member + j)) = length (C_time_locale ! (member + nat i)) \<and>
      map lower_byte (C_time_locale ! (member + j)) \<noteq> map lower_byte (C_time_locale ! (member + nat i))" if "j < nat i" for j
    using l [of "int j"] l [of i] that assms(3,4) names_differ by (auto simp: nat_less_iff)
  then have "\<forall>j \<in> {0..<nat i}. map lower_byte (C_time_locale ! (member + nat i)) \<noteq> map lower_byte (C_time_locale ! (member + j))"
    by force
  moreover have "\<forall>j \<in> {0..<nat i}. length (C_time_locale ! (member + j)) = 3" using l [of "int j" for j] assms(3) by auto
  ultimately have "match_loop m lc member 0 (sp_buf st) = Some (i, sp_buf st + 3)"
    using match_loop_first [OF assms(1,2) k, of 0] l [of i] assms(3) by simp
  then show ?thesis using assms(3) by (simp add: with_name_def)
qed

section \<open>The steps of strptime\<close>

lemma sp_run_char:
  assumes "\<not> isspace (uint c)" "c \<noteq> 37" "m (sp_buf st) = c"
  shows "sp_run d m lc (c # fmt) st = sp_run d m lc fmt (st\<lparr>sp_buf := sp_buf st + 1\<rparr>)"
  using assms by (subst sp_run.simps) (simp add: ch_def expect_def)

lemma sp_run_conv:
  assumes "f \<noteq> 69" "f \<noteq> 79" "sp_nested f = None" "sp_conv m lc f st = Some (Go st1)"
  shows "sp_run d m lc (37 # f # fmt) st = sp_run d m lc fmt st1"
proof -
  have "\<not> isspace (uint (37 :: u8))" using class_tests [of 37] by simp
  then show ?thesis using assms by (subst sp_run.simps) (simp add: ch_def sp_spec_def)
qed

lemma skip_white_blanks:
  "cstr m p (replicate a 32 @ r) \<Longrightarrow> r = [] \<or> \<not> isspace (uint (hd r)) \<Longrightarrow> skip_white m p = Some (p + a)"
proof (induction a arbitrary: p)
  case 0
  have "\<not> isspace 0" using class_tests [of 0] by simp
  then show ?case using 0 by (subst skip_white.simps) (cases r; auto simp: cstr_Cons)
next
  case (Suc a)
  then show ?case using blank_tests(3) by (subst skip_white.simps) (simp add: cstr_Cons)
qed

lemma sp_run_space:
  assumes "cstr m (sp_buf st) (replicate a 32 @ r)" "r = [] \<or> \<not> isspace (uint (hd r))"
  shows "sp_run d m lc (32 # fmt) st = sp_run d m lc fmt (st\<lparr>sp_buf := sp_buf st + a\<rparr>)"
  using skip_white_blanks [OF assms] blank_tests(3) by (subst sp_run.simps) simp

lemma sp_run_blank:
  assumes "cstr m (sp_buf st) (32 # r)" "r = [] \<or> \<not> isspace (uint (hd r))"
  shows "sp_run d m lc (32 # fmt) st = sp_run d m lc fmt (st\<lparr>sp_buf := sp_buf st + 1\<rparr>)"
  using sp_run_space [of m st 1 r d lc fmt] assms by simp

lemma sp_chars:
  "sp_conv m lc 97 st = with_name m lc lc_wday st (fill SET_WDAY (\<lambda>ret t. t\<lparr>tm_wday := ret\<rparr>))"
  "sp_conv m lc 98 st = with_name m lc lc_mon st (fill SET_MON (\<lambda>ret t. t\<lparr>tm_mon := ret\<rparr>))"
  "sp_conv m lc 101 st = with_num m st (fill SET_MDAY (\<lambda>ret t. t\<lparr>tm_mday := ret\<rparr>))"
  "sp_conv m lc 72 st = with_num m st (fill 0 (\<lambda>ret t. t\<lparr>tm_hour := ret\<rparr>))"
  "sp_conv m lc 77 st = with_num m st (fill 0 (\<lambda>ret t. t\<lparr>tm_min := ret\<rparr>))"
  "sp_conv m lc 83 st = with_num m st (fill 0 (\<lambda>ret t. t\<lparr>tm_sec := ret\<rparr>))"
  "sp_conv m lc 89 st = with_num m st (fill SET_YEAR (\<lambda>ret t. t\<lparr>tm_year := wrap_s32 (ret - 1900)\<rparr>))"
  by (simp_all add: sp_conv_def sp_date_def ch_def)

lemma sp_nested_chars:
  "sp_nested 97 = None" "sp_nested 98 = None" "sp_nested 101 = None" "sp_nested 72 = None" "sp_nested 77 = None"
  "sp_nested 83 = None" "sp_nested 89 = None" "sp_nested 99 = Some (C_time_locale ! lc_c_fmt, SET_WDAY OR SET_YMD)"
  by (simp_all add: sp_nested_def ch_def)

lemma cstr_skip: "cstr m p (x @ r) \<Longrightarrow> cstr m (p + length x) r" "cstr m p (c # r) \<Longrightarrow> cstr m (p + 1) r"
  "cstr m p (c # r) \<Longrightarrow> m p = c"
  by (simp_all add: cstr_append cstr_Cons)

text \<open>A number and what follows it.\<close>

lemma sp_run_num:
  assumes "f \<noteq> 69" "f \<noteq> 79" "sp_nested f = None" "sp_conv m lc f st = with_num m st g"
    and "num_str x v" "cstr m (sp_buf st) (x @ r)" "r = [] \<or> \<not> is_dig 10 (hd r)"
  shows "sp_run d m lc (37 # f # fmt) st = sp_run d m lc fmt (g v (st\<lparr>sp_buf := sp_buf st + length x\<rparr>))"
    and "cstr m (sp_buf st + length x) r"
  using sp_run_conv [OF assms(1-3), of m lc st] assms(4) with_num_text [OF assms(5-7)] cstr_skip(1) [OF assms(6)] by simp_all

lemma sp_run_name:
  assumes "locale_at m lc" "f \<noteq> 69" "f \<noteq> 79" "sp_nested f = None" "sp_conv m lc f st = with_name m lc member st g"
    and "cstr m (sp_buf st) (C_time_locale ! (member + nat i) @ r)" "0 \<le> i" "member = lc_wday \<and> i < 7 \<or> member = lc_mon \<and> i < 12"
  shows "sp_run d m lc (37 # f # fmt) st = sp_run d m lc fmt (g i (st\<lparr>sp_buf := sp_buf st + 3\<rparr>))"
    and "cstr m (sp_buf st + 3) r" and "length (C_time_locale ! (member + nat i)) = 3"
proof -
  show l: "length (C_time_locale ! (member + nat i)) = 3" using assms(7,8) locale_names by (auto simp: nat_less_iff)
  show "cstr m (sp_buf st + 3) r" using cstr_skip(1) [OF assms(6)] l by simp
  show "sp_run d m lc (37 # f # fmt) st = sp_run d m lc fmt (g i (st\<lparr>sp_buf := sp_buf st + 3\<rparr>))"
    using sp_run_conv [OF assms(2-4), of m lc st] assms(5) with_name_text [OF assms(1,6-8)] by simp
qed

lemma name_starts:
  "\<forall>i \<in> set [0..<12]. \<not> isspace (uint (hd (C_time_locale ! (lc_mon + i)))) \<and> C_time_locale ! (lc_mon + i) \<noteq> []"
  by code_simp

lemma digits_start:
  assumes "0 \<le> v"
  shows "digits v @ x = [] \<or> \<not> isspace (uint (hd (digits v @ x)))" and "fmt_prec 2 v @ x = [] \<or> \<not> isspace (uint (hd (fmt_prec 2 v @ x)))"
proof -
  have d: "is_dig 10 (hd (digits v))" using digits_props(1) [OF assms] digits_length(3) [OF assms] by simp
  then show "digits v @ x = [] \<or> \<not> isspace (uint (hd (digits v @ x)))" using dig_no_space digits_length(3) [OF assms] by (simp add: hd_append)
  have "is_dig 10 (hd (fmt_prec 2 v))" "fmt_prec 2 v \<noteq> []"
    using assms d digits_length(3) [OF assms] blank_tests(4) by (auto simp: fmt_prec_def Let_def hd_append)
  then show "fmt_prec 2 v @ x = [] \<or> \<not> isspace (uint (hd (fmt_prec 2 v @ x)))" using dig_no_space by (simp add: hd_append)
qed

lemma sp_run_date:
  assumes loc: "locale_at m lc" and w: "0 \<le> tm_wday t" "tm_wday t < 7" and t: "tm_valid t"
    and year: "- 1900 < tm_year t" "tm_year t < 2 ^ 31 - 1900"
    and c: "cstr m p (date_text t)"
  shows "sp_run d m lc (C_time_locale ! lc_c_fmt) \<lparr>sp_buf = p, sp_tm = t0, sp_ymd = 0, sp_err = err\<rparr> =
    map_option Go (sp_finish \<lparr>sp_buf = p + length (date_text t), sp_tm = t\<lparr>tm_yday := tm_yday t0, tm_isdst := tm_isdst t0\<rparr>,
      sp_ymd = 15, sp_err = err\<rparr>)"
proof -
  have r: "0 \<le> tm_mon t" "tm_mon t < 12" "0 \<le> tm_sec t" "tm_sec t < 2 ^ 31" "0 \<le> tm_min t" "tm_min t < 2 ^ 31"
    "0 \<le> tm_hour t" "tm_hour t < 2 ^ 31" "0 \<le> tm_mday t" "tm_mday t < 2 ^ 31" "0 \<le> tm_year t + 1900" "tm_year t + 1900 < 2 ^ 31"
    using t valid_mday [OF t] year by (simp_all add: tm_valid_def)
  define S where "S b u y = \<lparr>sp_buf = b, sp_tm = u, sp_ymd = y, sp_err = err\<rparr>" for b u y
  define wd mn D H M Sc Y where "wd = C_time_locale ! (lc_wday + nat (tm_wday t))" and "mn = C_time_locale ! (lc_mon + nat (tm_mon t))"
    and "D = digits (tm_mday t)" and "H = fmt_prec 2 (tm_hour t)" and "M = fmt_prec 2 (tm_min t)" and "Sc = fmt_prec 2 (tm_sec t)"
    and "Y = digits (tm_year t + 1900)"
  note n = num_strI(3) [OF r(9,10), folded D_def] num_strI(1) [OF r(7,8), folded H_def] num_strI(1) [OF r(5,6), folded M_def]
    num_strI(1) [OF r(3,4), folded Sc_def] num_strI(3) [OF r(11,12), folded Y_def]
  define a where "a = Suc (2 - length D)"
  have "[32] @ fmt_width 2 (tm_mday t) = replicate a 32 @ D" using r(9) by (simp add: fmt_width_def a_def D_def Let_def)
  then have dt: "date_text t = wd @ 32 # mn @ replicate a 32 @ D @ 32 # H @ 58 # M @ 58 # Sc @ 32 # Y @ []"
    by (simp add: date_text_def wd_def mn_def H_def M_def Sc_def Y_def year_digits [OF year])
  have s1: "mn @ x = [] \<or> \<not> isspace (uint (hd (mn @ x)))" for x using name_starts r(1,2) by (auto simp: mn_def nat_less_iff)
  note s2 = digits_start(1) [OF r(9), folded D_def] digits_start(2) [OF r(7), folded H_def] digits_start(1) [OF r(11), folded Y_def]
  have nd: "58 # x = [] \<or> \<not> is_dig 10 (hd (58 # x))" "32 # x = [] \<or> \<not> is_dig 10 (hd (32 # x))"
      "[] = ([] :: u8 list) \<or> \<not> is_dig 10 (hd [])" for x :: "u8 list"
    using dig_range [of 58] dig_range [of 32] by auto
  have S_buf: "sp_buf (S b u y) = b" for b u y by (simp add: S_def)
  note flags = S_def fill_def SET_WDAY_def SET_MON_def SET_MDAY_def SET_YEAR_def
  define p1 p2 p3 where "p1 = p + 3" and "p2 = p1 + 1" and "p3 = p2 + 3"
  define p4 p5 p6 where "p4 = p3 + a" and "p5 = p4 + length D" and "p6 = p5 + 1"
  define p7 p8 p9 where "p7 = p6 + length H" and "p8 = p7 + 1" and "p9 = p8 + length M"
  define p10 p11 p12 where "p10 = p9 + 1" and "p11 = p10 + length Sc" and "p12 = p11 + 1"
  define u1 where "u1 = t0\<lparr>tm_wday := tm_wday t\<rparr>"
  have wday: "sp_run d m lc (37 # 97 # fmt) (S p t0 0) = sp_run d m lc fmt (S p1 u1 8)" for fmt
    using sp_run_name(1) [OF loc _ _ _ sp_chars(1), of "S p t0 0" "tm_wday t" _ d fmt] c w
    by (simp add: dt wd_def sp_nested_chars flags p1_def u1_def)
  have "cstr m p1 (32 # mn @ replicate a 32 @ D @ 32 # H @ 58 # M @ 58 # Sc @ 32 # Y @ [])"
    using sp_run_name(2) [OF loc _ _ _ sp_chars(1), of "S p t0 0" "tm_wday t"] c w by (simp add: dt wd_def sp_nested_chars S_def p1_def)
  note c1 = this cstr_skip(2) [OF this, folded p2_def]
  have b1: "sp_run d m lc (32 # fmt) (S p1 u1 8) = sp_run d m lc fmt (S p2 u1 8)" for fmt
    using sp_run_blank [of m "S p1 u1 8", unfolded S_buf, OF c1(1) s1] by (simp add: S_def p2_def)
  define u2 where "u2 = u1\<lparr>tm_mon := tm_mon t\<rparr>"
  have mon: "sp_run d m lc (37 # 98 # fmt) (S p2 u1 8) = sp_run d m lc fmt (S p3 u2 10)" for fmt
    using sp_run_name(1) [OF loc _ _ _ sp_chars(2), of "S p2 u1 8" "tm_mon t" _ d fmt] c1(2) r(1,2)
    by (simp add: mn_def sp_nested_chars flags p3_def u2_def)
  have c3: "cstr m p3 (replicate a 32 @ D @ 32 # H @ 58 # M @ 58 # Sc @ 32 # Y @ [])"
    using sp_run_name(2) [OF loc _ _ _ sp_chars(2), of "S p2 u1 8" "tm_mon t"] c1(2) r(1,2) by (simp add: mn_def sp_nested_chars S_def p3_def)
  have c4: "cstr m p4 (D @ 32 # H @ 58 # M @ 58 # Sc @ 32 # Y @ [])" using cstr_skip(1) [OF c3] by (simp add: p4_def)
  have b3: "sp_run d m lc (32 # fmt) (S p3 u2 10) = sp_run d m lc fmt (S p4 u2 10)" for fmt
    using sp_run_space [of m "S p3 u2 10" a, unfolded S_buf, OF c3 s2(1)] by (simp add: S_def p4_def)
  define u3 where "u3 = u2\<lparr>tm_mday := tm_mday t\<rparr>"
  have mday: "sp_run d m lc (37 # 101 # fmt) (S p4 u2 10) = sp_run d m lc fmt (S p5 u3 11)" "cstr m p5 (32 # H @ 58 # M @ 58 # Sc @ 32 # Y @ [])" for fmt
    using sp_run_num [where st = "S p4 u2 10", unfolded S_buf, OF _ _ _ sp_chars(3) n(1) c4 nd(2)]
    by (simp_all add: sp_nested_chars flags p5_def u3_def)
  note c6 = cstr_skip(2) [OF mday(2), folded p6_def]
  have b5: "sp_run d m lc (32 # fmt) (S p5 u3 11) = sp_run d m lc fmt (S p6 u3 11)" for fmt
    using sp_run_blank [of m "S p5 u3 11", unfolded S_buf, OF mday(2) s2(2)] by (simp add: S_def p6_def)
  define u4 where "u4 = u3\<lparr>tm_hour := tm_hour t\<rparr>"
  have hour: "sp_run d m lc (37 # 72 # fmt) (S p6 u3 11) = sp_run d m lc fmt (S p7 u4 11)" "cstr m p7 (58 # M @ 58 # Sc @ 32 # Y @ [])" for fmt
    using sp_run_num [where st = "S p6 u3 11", unfolded S_buf, OF _ _ _ sp_chars(4) n(2) c6 nd(1)]
    by (simp_all add: sp_nested_chars flags p7_def u4_def)
  have ns: "\<not> isspace (uint (58 :: u8))" using class_tests [of 58] by simp
  have b7: "sp_run d m lc (58 # fmt) (S p7 u4 11) = sp_run d m lc fmt (S p8 u4 11)" for fmt
    using sp_run_char [OF ns, of m "S p7 u4 11" d lc fmt] cstr_skip(3) [OF hour(2)] by (simp add: S_def p8_def)
  note c8 = cstr_skip(2) [OF hour(2), folded p8_def]
  define u5 where "u5 = u4\<lparr>tm_min := tm_min t\<rparr>"
  have min: "sp_run d m lc (37 # 77 # fmt) (S p8 u4 11) = sp_run d m lc fmt (S p9 u5 11)" "cstr m p9 (58 # Sc @ 32 # Y @ [])" for fmt
    using sp_run_num [where st = "S p8 u4 11", unfolded S_buf, OF _ _ _ sp_chars(5) n(3) c8 nd(1)]
    by (simp_all add: sp_nested_chars flags p9_def p8_def u5_def)
  have b9: "sp_run d m lc (58 # fmt) (S p9 u5 11) = sp_run d m lc fmt (S p10 u5 11)" for fmt
    using sp_run_char [OF ns, of m "S p9 u5 11" d lc fmt] cstr_skip(3) [OF min(2)] by (simp add: S_def p10_def)
  note c10 = cstr_skip(2) [OF min(2), folded p10_def]
  define u6 where "u6 = u5\<lparr>tm_sec := tm_sec t\<rparr>"
  have sec: "sp_run d m lc (37 # 83 # fmt) (S p10 u5 11) = sp_run d m lc fmt (S p11 u6 11)" "cstr m p11 (32 # Y @ [])" for fmt
    using sp_run_num [where st = "S p10 u5 11", unfolded S_buf, OF _ _ _ sp_chars(6) n(4) c10 nd(2)]
    by (simp_all add: sp_nested_chars flags p11_def p10_def u6_def)
  have b11: "sp_run d m lc (32 # fmt) (S p11 u6 11) = sp_run d m lc fmt (S p12 u6 11)" for fmt
    using sp_run_blank [of m "S p11 u6 11", unfolded S_buf, OF sec(2) s2(3)] by (simp add: S_def p12_def)
  have wr: "wrap_s32 (tm_year t + 1900 - 1900) = tm_year t" using year by (subst wrap_s32_id) simp_all
  note c12 = cstr_skip(2) [OF sec(2), folded p12_def]
  define u7 where "u7 = u6\<lparr>tm_year := tm_year t\<rparr>"
  have yr: "sp_run d m lc (37 # 89 # fmt) (S p12 u6 11) = sp_run d m lc fmt (S (p12 + length Y) u7 15)" for fmt
    using sp_run_num(1) [where st = "S p12 u6 11", unfolded S_buf, OF _ _ _ sp_chars(7) n(5) c12 nd(3)] wr
    by (simp add: sp_nested_chars flags p12_def u7_def)
  have "length wd = 3" "length mn = 3"
    using locale_names w r(1,2) by (auto simp: wd_def mn_def nat_less_iff)
  then have "p12 + length Y = p + length (date_text t)"
    by (simp add: dt p1_def p2_def p3_def p4_def p5_def p6_def p7_def p8_def p9_def p10_def p11_def p12_def)
  moreover have "u7 = t\<lparr>tm_yday := tm_yday t0, tm_isdst := tm_isdst t0\<rparr>"
    by (simp add: u1_def u2_def u3_def u4_def u5_def u6_def u7_def)
  ultimately show ?thesis
    unfolding c_fmt S_def [symmetric] wday b1 mon b3 mday(1) b5 hour(1) b7 min(1) b9 sec(1) b11 yr by (simp add: sp_run.simps(1))
qed

section \<open>The round trip\<close>

lemma days_before_month_start: "k < 12 \<Longrightarrow> month_start leap k = DAYS_BEFORE_MONTH ! k + (if leap \<and> 2 \<le> k then 1 else 0)"
proof -
  have "\<forall>leap. \<forall>k \<in> set [0..<12]. month_start leap k = DAYS_BEFORE_MONTH ! k + (if leap \<and> 2 \<le> k then 1 else 0)" by code_simp
  then show "k < 12 \<Longrightarrow> ?thesis" by simp
qed

lemma is_leap_year_eq: "is_leap_year y = leap_year y"
  by (auto simp: is_leap_year_def leap_year_def smod_dvd)

lemma full_year_eq: "- 1900 < tm_year t \<Longrightarrow> tm_year t < 2 ^ 31 - 1900 \<Longrightarrow> full_year t = tm_year t + 1900"
  unfolding full_year_def by (subst wrap_s32_id) simp_all

lemma fill_yday_date:
  assumes "0 \<le> tm_mon u" "tm_mon u < 12" "- 1900 < tm_year u" "tm_year u < 2 ^ 31 - 1900"
  shows "fill_yday u = Some (u\<lparr>tm_yday := tm_day u - year_start (tm_year u + 1900)\<rparr>)"
proof -
  have "nat (tm_mon u) < 12" "2 \<le> nat (tm_mon u) \<longleftrightarrow> \<not> tm_mon u < 2" using assms(1,2) by auto
  then show ?thesis using assms(1,2) days_before_month_start [of "nat (tm_mon u)" "leap_year (tm_year u + 1900)"]
    by (auto simp: fill_yday_def full_year_eq [OF assms(3,4)] is_leap_year_eq tm_day_def civil_day_def)
qed

lemma sp_finish_date:
  assumes "0 \<le> tm_mon u" "tm_mon u < 12" "- 1900 < tm_year u" "tm_year u < 2 ^ 31 - 1900"
  shows "sp_finish \<lparr>sp_buf = b, sp_tm = u, sp_ymd = 15, sp_err = err\<rparr> =
    Some \<lparr>sp_buf = b, sp_tm = u\<lparr>tm_yday := tm_day u - year_start (tm_year u + 1900)\<rparr>, sp_ymd = 31, sp_err = err\<rparr>"
  by (simp add: sp_finish_def SET_YMD_def SET_YEAR_def SET_MON_def SET_MDAY_def SET_YDAY_def SET_WDAY_def fill_yday_date [OF assms])

lemma strptime_date:
  assumes loc: "locale_at m lc" and t: "tm_valid t" "tm_derived t"
    and year: "- 1900 < tm_year t" "tm_year t < 2 ^ 31 - 1900" and c: "cstr m p (date_text t)"
  shows "strptime m lc err p (ascii ''%c'') t0 = Some (t\<lparr>tm_isdst := tm_isdst t0\<rparr>, Some (p + length (date_text t)), err)"
proof -
  define u b where "u = t\<lparr>tm_yday := tm_yday t0, tm_isdst := tm_isdst t0\<rparr>" and "b = p + length (date_text t)"
  have w: "0 \<le> tm_wday t" "tm_wday t < 7" using t(2) by (simp_all add: tm_derived_def)
  have m: "0 \<le> tm_mon t" "tm_mon t < 12" using t(1) by (simp_all add: tm_valid_def)
  have yd: "tm_day u - year_start (tm_year u + 1900) = tm_yday t" using t(2) by (simp add: u_def tm_day_def tm_derived_def)
  have tu: "u\<lparr>tm_yday := tm_yday t\<rparr> = t\<lparr>tm_isdst := tm_isdst t0\<rparr>" by (simp add: u_def)
  define v where "v = u\<lparr>tm_yday := tm_yday t\<rparr>"
  have inner: "sp_run 0 m lc (C_time_locale ! lc_c_fmt) \<lparr>sp_buf = p, sp_tm = t0, sp_ymd = 0, sp_err = err\<rparr> =
      Some (Go \<lparr>sp_buf = b, sp_tm = v, sp_ymd = 31, sp_err = err\<rparr>)"
    using sp_run_date [OF loc w t(1) year c, of 0 t0 err] sp_finish_date [of u b err] m year yd
    by (simp add: u_def [symmetric] b_def [symmetric] v_def, simp add: u_def)
  have v: "sp_finish \<lparr>sp_buf = b, sp_tm = v, sp_ymd = 15, sp_err = err\<rparr> = Some \<lparr>sp_buf = b, sp_tm = v, sp_ymd = 31, sp_err = err\<rparr>"
    using sp_finish_date [of v b err] m year yd by (simp add: v_def u_def tm_day_def)
  have "\<not> isspace (uint (37 :: u8))" using class_tests [of 37] by simp
  then have "sp_run 1 m lc [37, 99] \<lparr>sp_buf = p, sp_tm = t0, sp_ymd = 0, sp_err = err\<rparr> =
      Some (Go \<lparr>sp_buf = b, sp_tm = v, sp_ymd = 31, sp_err = err\<rparr>)"
    using inner v by (simp add: sp_run.simps(2) [of _ _ _ 37] sp_run.simps(1) ch_def sp_spec_def sp_nested_chars SET_WDAY_def SET_YMD_def
      SET_YEAR_def SET_MON_def SET_MDAY_def)
  then show ?thesis by (simp add: strptime_def ascii_c tu v_def b_def)
qed

lemma zero_free: "0 \<notin> set (fmt_prec 2 v)" "0 \<notin> set (fmt_width 2 v)" "0 \<notin> set (digits v)"
  using split_num_text(3) [of 10 "nat \<bar>v\<bar>"] by (auto simp: digits_def fmt_prec_def fmt_width_def Let_def)

lemma date_text_string:
  assumes "0 \<le> tm_wday t" "tm_wday t < 7" "tm_valid t" "- 1900 < tm_year t" "tm_year t < 2 ^ 31 - 1900"
  shows "0 \<notin> set (date_text t)" and "length (date_text t) < 2 ^ 31"
proof -
  have m: "0 \<le> tm_mon t" "tm_mon t < 12" and c: "0 \<le> tm_sec t" "tm_sec t < 100" "0 \<le> tm_min t" "tm_min t < 100" "0 \<le> tm_hour t" "tm_hour t < 100"
    and d: "0 \<le> tm_mday t" "tm_mday t < 100" using assms(3) valid_mday [OF assms(3)] by (simp_all add: tm_valid_def)
  have z: "\<forall>i \<in> set [0..<7]. 0 \<notin> set (C_time_locale ! (lc_wday + i))" "\<forall>i \<in> set [0..<12]. 0 \<notin> set (C_time_locale ! (lc_mon + i))"
    by code_simp+
  then have "0 \<notin> set (C_time_locale ! (lc_wday + nat (tm_wday t)))" "0 \<notin> set (C_time_locale ! (lc_mon + nat (tm_mon t)))"
    using assms(1,2) m by (auto simp: nat_less_iff)
  then show "0 \<notin> set (date_text t)" by (simp add: date_text_def zero_free year_digits [OF assms(4,5)])
  have "length (C_time_locale ! (lc_wday + nat (tm_wday t))) = 3" "length (C_time_locale ! (lc_mon + nat (tm_mon t))) = 3"
    using locale_names assms(1,2) m by (auto simp: nat_less_iff)
  moreover have "length (digits (tm_year t + 1900)) \<le> 10"
    using rdigits_length [of "nat (tm_year t + 1900)" 9] assms(4,5) by (simp add: digits_def num_text_def nat_less_iff)
  ultimately show "length (date_text t) < 2 ^ 31"
    by (simp add: date_text_def year_digits [OF assms(4,5)] two_chars [OF c(1,2)] two_chars [OF c(3,4)] two_chars [OF c(5,6)] two_chars [OF d])
qed

text \<open>C13: \<open>strptime\<close> for \<open>%c\<close> on the string that \<open>strftime\<close> for \<open>%c\<close> has written gives back every field of the date,
  also the day of the year, which is not in the text; only \<open>tm_isdst\<close> keeps what it was. It returns the end of the
  string and leaves \<open>errno\<close> alone.
\<close>
theorem strptime_strftime:
  assumes "tm_valid t" "tm_derived t" "- 1900 < tm_year t" "tm_year t < 2 ^ 31 - 1900"
    and "strftime env tz m0 s maxsize (ascii ''%c'') t = Some (m, tz1, n)" "0 < n" "0 < maxsize" "maxsize < 2 ^ 31"
    and "locale_at m lc"
  shows "strptime m lc err s (ascii ''%c'') t0 = Some (t\<lparr>tm_isdst := tm_isdst t0\<rparr>, Some (s + n), err)"
proof -
  have w: "0 \<le> tm_wday t" "tm_wday t < 7" using assms(2) by (simp_all add: tm_derived_def)
  have mn: "0 \<le> tm_mon t" "tm_mon t < 12" using assms(1) by (simp_all add: tm_valid_def)
  note x = date_text_string [OF w assms(1,3,4)]
  have "sf_done s maxsize m0 0 (date_text t) tz (Some (m, tz1, n))"
    using sf_run_text [OF c_text [OF w mn] assms(7,8) x(2), where s = s and m = m0 and env = env and tz = tz and called = False] assms(5)
    unfolding strftime_def ascii_c by (simp only:)
  then have "n = length (date_text t)" "m = region_put m0 s (date_text t @ [0])"
    using assms(6) by (auto simp: sf_done_def split: if_splits)
  then show ?thesis
    using strptime_date [OF assms(9,1-4), of s] cstr_region_put [OF x(1), of m0 s] by simp
qed

definition demo_lc :: "nat \<Rightarrow> nat" where "demo_lc i = 1000 + 32 * i"

definition demo_locale :: mem where
  "demo_locale a = (let x = C_time_locale ! ((a - 1000) div 32); j = (a - 1000) mod 32
     in if 1000 \<le> a \<and> (a - 1000) div 32 < 63 \<and> j < length x then x ! j else 0)"

lemma demo_locale_at:
  assumes "\<forall>a. 1000 \<le> a \<longrightarrow> m a = demo_locale a"
  shows "locale_at m demo_lc"
proof -
  have "\<forall>x \<in> set C_time_locale. length x < 32 \<and> 0 \<notin> set x" "length C_time_locale = 63" by code_simp+
  then have l: "length (C_time_locale ! i) < 32 \<and> 0 \<notin> set (C_time_locale ! i)" if "i < 63" for i using that by simp
  have "m (1000 + 32 * i + j) = (if j < length (C_time_locale ! i) then C_time_locale ! i ! j else 0)" if "i < 63" "j < 32" for i j
    using assms that by (simp add: demo_locale_def)
  then have "cstr m (demo_lc i) (C_time_locale ! i)" if "i < 63" for i using l [OF that] that by (simp add: cstr_def demo_lc_def)
  then show ?thesis by (simp add: locale_at_def demo_lc_def)
qed

lemma strptime_strftime_witness:
  "\<exists>m tz1. strftime demo_env tz_start demo_locale 100 30 (ascii ''%c'') demo_tm = Some (m, tz1, 24) \<and>
     strptime m demo_lc 0 100 (ascii ''%c'') (demo_tm\<lparr>tm_mon := 4, tm_yday := 9\<rparr>) = Some (demo_tm, Some 124, 0)"
proof -
  have "length (ascii ''Sun Dec  3 13:05:07 2023'') = 24" by code_simp
  then obtain m tz1 where m: "strftime demo_env tz_start demo_locale 100 30 (ascii ''%c'') demo_tm = Some (m, tz1, 24)"
      "\<forall>a. a < 100 \<or> 130 \<le> a \<longrightarrow> m a = demo_locale a"
    using sf_run_text [OF demo_text, of 0 30 100 demo_locale tz_start demo_env] unfolding strftime_def sf_done_def by auto
  have "locale_at m demo_lc" by (rule demo_locale_at) (use m(2) in simp)
  then have "strptime m demo_lc 0 100 (ascii ''%c'') (demo_tm\<lparr>tm_mon := 4, tm_yday := 9\<rparr>) =
      Some (demo_tm\<lparr>tm_isdst := tm_isdst demo_tm\<rparr>, Some (100 + 24), 0)"
    using strptime_strftime [OF demo_valid _ _ m(1)] by (simp add: demo_tm_def)
  then show ?thesis using m(1) by (simp add: demo_tm_def)
qed

section \<open>What does not come back\<close>

lemma match_loop_some:
  assumes "locale_at m lc" "cstr m p s" "member + i \<le> 58"
  shows "\<exists>k n. match_loop m lc member i p = Some (int k, p + n)"
  using assms(3)
proof (induction "58 - (member + i)" arbitrary: i)
  case 0
  have "C_time_locale ! 58 = []" by code_simp
  then show ?case using match_loop_step [OF assms(1,2), of member i] 0 by (auto simp: Let_def)
next
  case (Suc n)
  then show ?case using match_loop_step [OF assms(1,2), of member i] Suc.hyps(1) [of "i + 1"] by (auto simp: Let_def)
qed

text \<open>
  The arrays of names have no \<open>NULL\<close> behind them, so the search goes on through the rest of the locale up to an
  empty string, which every input matches: \<open>strptime\<close> for \<open>%a\<close> never returns \<open>NULL\<close>, and for the empty input it
  sets \<open>tm_wday\<close> to 34.
\<close>
theorem strptime_names:
  assumes "locale_at m lc" "cstr m p s"
  shows "\<exists>i n. strptime m lc err p (ascii ''%a'') t0 = Some (t0\<lparr>tm_wday := i\<rparr>, Some (p + n), err) \<and> (s = [] \<longrightarrow> i = 34 \<and> n = 0)"
proof -
  have "\<exists>k n. match_loop m lc lc_wday 0 p = Some (int k, p + n) \<and> (s = [] \<longrightarrow> k = 34 \<and> n = 0)"
  proof (cases "s = []")
    case True
    have n: "\<forall>j \<in> set [0..<34]. C_time_locale ! (lc_wday + j) \<noteq> []" "C_time_locale ! (lc_wday + 34) = []" by code_simp+
    then show ?thesis using match_loop_first [OF assms, of lc_wday 34 0] True by (auto simp: lc_wday_def)
  next
    case False
    then show ?thesis using match_loop_some [OF assms, of lc_wday 0] by (simp add: lc_wday_def)
  qed
  then obtain k n where k: "match_loop m lc lc_wday 0 p = Some (int k, p + n)" "s = [] \<longrightarrow> k = 34 \<and> n = 0" by blast
  define st where "st = \<lparr>sp_buf = p, sp_tm = t0, sp_ymd = 0, sp_err = err\<rparr>"
  have "sp_run 1 m lc [37, 97] st = sp_run 1 m lc [] (st\<lparr>sp_buf := p + n, sp_tm := t0\<lparr>tm_wday := int k\<rparr>, sp_ymd := 8\<rparr>)"
    by (rule sp_run_conv) (use k(1) in \<open>simp_all add: sp_chars sp_nested_chars with_name_def fill_def SET_WDAY_def st_def\<close>)
  moreover have "ascii ''%a'' = [37, 97]" by code_simp
  ultimately have "strptime m lc err p (ascii ''%a'') t0 = Some (t0\<lparr>tm_wday := int k\<rparr>, Some (p + n), err)"
    by (simp add: strptime_def st_def sp_run.simps(1) sp_finish_def SET_YMD_def SET_YEAR_def SET_MON_def SET_MDAY_def SET_YDAY_def SET_WDAY_def)
  then show ?thesis using k(2) by auto
qed

lemma strptime_names_witness:
  "strptime demo_locale demo_lc 0 5 (ascii ''%a'') demo_tm = Some (demo_tm\<lparr>tm_wday := 34\<rparr>, Some 5, 0)"
  using strptime_names [OF demo_locale_at, of demo_locale 5 "[]" 0 demo_tm] by (simp add: demo_locale_def)

text \<open>
  For the hours 1 to 11 the text \<open>strftime\<close> writes for \<open>%I %p\<close>, with \<open>AM\<close>, is read by \<open>strptime\<close> as an hour of the
  afternoon.
\<close>
theorem strptime_am:
  assumes "strftime env tz m0 s maxsize (ascii ''%I %p'') t = Some (m, tz1, n)" "0 < n" "0 < maxsize" "maxsize < 2 ^ 31"
    and "locale_at m lc" "1 \<le> tm_hour t" "tm_hour t < 12"
  shows "strptime m lc err s (ascii ''%I %p'') t0 = Some (t0\<lparr>tm_hour := tm_hour t + 12\<rparr>, Some (s + n), err)"
proof -
  have f: "ascii ''%I %p'' = [37, 73, 32, 37, 112]" "C_time_locale ! 41 = [65, 77]" by code_simp+
  define h x where "h = tm_hour t" and "x = fmt_prec 2 h @ [32, 65, 77]"
  have h: "0 \<le> h" "h < 2 ^ 31" "hour_12 t = h" "h < 100" "h < 12" using assms(6,7) by (simp_all add: h_def hour_12_def sdiv_smod_pos)
  have conv: "conv 73 0 0 t tz = num_piece 2 (hour_12 t)" "conv 112 0 0 t tz = name_piece lc_am_pm (if tm_hour t < 12 then 0 else 1)" for tz
    by (simp_all add: conv_def ch_def)
  have "sf_text 1 env t (ascii ''%I %p'') tz False = Some (x, tz)"
    using assms(7) by (simp add: f sf_text_spec spec_plain sf_text_char conv num_piece_def name_piece_def lc_text_def lc_am_pm_def h(3)
      x_def sf_text.simps(1))
  moreover have l: "length x = 5" "length x < 2 ^ 31" "0 \<notin> set x" by (simp_all add: x_def two_chars [OF h(1,4)] zero_free)
  ultimately have "n = length x" "m = region_put m0 s (x @ [0])"
    using sf_run_text [of 1 env t "ascii ''%I %p''" tz False x tz 0 maxsize s m0] assms(1-4) by (auto simp: strftime_def sf_done_def split: if_splits)
  then have n: "n = 5" and c: "cstr m s (fmt_prec 2 h @ 32 # [65, 77])" using l cstr_region_put [OF l(3), of m0 s] by (simp_all add: x_def)
  define S where "S b u = \<lparr>sp_buf = b, sp_tm = u, sp_ymd = 0, sp_err = err\<rparr>" for b u
  have S: "sp_buf (S b u) = b" "sp_tm (S b u) = u" "(S b u)\<lparr>sp_buf := b1\<rparr> = S b1 u" "fill 0 g v (S b u) = S b (g v u)" for b b1 u g v
    by (simp_all add: S_def fill_def)
  have sc: "sp_conv m lc 73 st = with_num m st (fill 0 (\<lambda>ret t. t\<lparr>tm_hour := (if ret = 12 then 0 else ret)\<rparr>))"
    "sp_conv m lc 112 st = with_name m lc lc_am_pm st (fill 0 set_am_pm)" "sp_nested 73 = None" "sp_nested 112 = None" for st
    by (simp_all add: sp_conv_def sp_nested_def ch_def)
  have nd: "32 # r = [] \<or> \<not> is_dig 10 (hd (32 # r))" for r using blank_tests(6) by simp
  have hour: "sp_run 1 m lc [37, 73, 32, 37, 112] (S s t0) = sp_run 1 m lc [32, 37, 112] (S (s + 2) (t0\<lparr>tm_hour := h\<rparr>))"
      "cstr m (s + 2) (32 # [65, 77])"
    using sp_run_num [where st = "S s t0", unfolded S, OF _ _ sc(3) sc(1) num_strI(1) [OF h(1,2)] c nd] h(5)
    by (simp_all add: two_chars [OF h(1,4)] S)
  have "\<not> isspace (uint (65 :: u8))" using class_tests [of 65] by simp
  then have blank: "sp_run 1 m lc [32, 37, 112] (S (s + 2) u) = sp_run 1 m lc [37, 112] (S (s + 3) u)" for u
    using sp_run_blank [of m "S (s + 2) u", unfolded S, OF hour(2), of 1 lc "[37, 112]"] by (simp add: S numeral_3_eq_3)
  have c3: "cstr m (s + 3) [65, 77]" using cstr_skip(2) [OF hour(2)] by (simp add: numeral_3_eq_3)
  have "match_loop m lc lc_am_pm 0 (s + 3) = Some (0, s + 5)"
    using match_loop_first [OF assms(5) c3, of lc_am_pm 0 0] by (simp add: f lc_am_pm_def)
  moreover have "set_am_pm 0 (t0\<lparr>tm_hour := h\<rparr>) = t0\<lparr>tm_hour := h + 12\<rparr>"
    using assms(6) h(4) by (simp add: set_am_pm_def h_def wrap_s32_id)
  ultimately have "sp_run 1 m lc [37, 112] (S (s + 3) (t0\<lparr>tm_hour := h\<rparr>)) = sp_run 1 m lc [] (S (s + 5) (t0\<lparr>tm_hour := h + 12\<rparr>))"
    by (intro sp_run_conv) (simp_all add: sc with_name_def S)
  then show ?thesis unfolding strptime_def f S_def [symmetric] hour(1) blank
    by (simp add: n h_def sp_run.simps(1) sp_finish_def S_def SET_YMD_def SET_YEAR_def SET_MON_def SET_MDAY_def SET_YDAY_def SET_WDAY_def)
qed

lemma strptime_am_witness:
  "\<exists>m tz1. strftime env tz demo_locale 100 30 (ascii ''%I %p'') (demo_tm\<lparr>tm_hour := 7\<rparr>) = Some (m, tz1, 5) \<and>
     strptime m demo_lc 0 100 (ascii ''%I %p'') demo_tm = Some (demo_tm\<lparr>tm_hour := 19\<rparr>, Some 105, 0)"
proof -
  let ?t = "demo_tm\<lparr>tm_hour := 7\<rparr>"
  have f: "ascii ''%I %p'' = [37, 73, 32, 37, 112]" "C_time_locale ! 41 = [65, 77]" by code_simp+
  have conv: "conv 73 0 0 t tz = num_piece 2 (hour_12 t)" "conv 112 0 0 t tz = name_piece lc_am_pm (if tm_hour t < 12 then 0 else 1)" for t tz
    by (simp_all add: conv_def ch_def)
  have "sf_text 1 env ?t (ascii ''%I %p'') tz False = Some (fmt_prec 2 7 @ [32, 65, 77], tz)"
    by (simp add: f sf_text_spec spec_plain sf_text_char conv num_piece_def name_piece_def lc_text_def lc_am_pm_def hour_12_def
      sdiv_smod_pos sf_text.simps(1))
  then obtain m tz1 where m: "strftime env tz demo_locale 100 30 (ascii ''%I %p'') ?t = Some (m, tz1, 5)"
      "\<forall>a. a < 100 \<or> 130 \<le> a \<longrightarrow> m a = demo_locale a"
    using sf_run_text [of 1 env ?t "ascii ''%I %p''" tz False _ tz 0 30 100 demo_locale] two_chars(1) [of 7]
    unfolding strftime_def sf_done_def by auto
  have "locale_at m demo_lc" by (rule demo_locale_at) (use m(2) in simp)
  then show ?thesis using strptime_am [OF m(1), of demo_lc 0 demo_tm] m(1) by auto
qed

section \<open>Weeks\<close>

lemma first_day_loop_eq: "1970 \<le> year \<Longrightarrow> 0 \<le> ret \<Longrightarrow> ret < 7 \<Longrightarrow> first_day_loop year ret = (ret + year_start year) mod 7"
proof (induction "nat (year - 1970)" arbitrary: year ret)
  case 0
  then have "year = 1970" by simp
  then show ?case using 0 by (simp add: first_day_loop.simps year_start_1970)
next
  case (Suc n)
  define r where "r = (ret + year_len (year - 1)) mod 7"
  have y: "1970 \<le> year - 1" using Suc.hyps(2) by linarith
  have "first_day_loop year ret = first_day_loop (year - 1) r"
    using y Suc.prems(2) by (subst first_day_loop.simps) (simp add: r_def sdiv_smod_pos is_leap_year_eq year_len_def add.assoc)
  also have "\<dots> = (r + year_start (year - 1)) mod 7" by (rule Suc.hyps(1)) (use Suc.hyps(2) y in \<open>simp_all add: r_def\<close>)
  also have "\<dots> = (ret + (year_start (year - 1) + year_len (year - 1))) mod 7" unfolding r_def by (subst mod_add_left_eq) (simp add: algebra_simps)
  also have "year_start (year - 1) + year_len (year - 1) = year_start year" using year_length [of "year - 1"] by (simp add: year_len_def)
  finally show ?case .
qed

text \<open>The day of the year that \<open>%U\<close> reads back is right, but a week late in years that begin on a Sunday.\<close>

lemma week_number_sun:
  assumes "tm_valid t" "tm_derived t" "70 \<le> tm_year t" "tm_year t < 2 ^ 31 - 1900"
  shows "tm_yday (set_week_number_sun t (week_U t)) = tm_yday t + (if (4 + year_start (tm_year t + 1900)) mod 7 = 0 then 7 else 0)"
proof -
  define y f where "y = tm_year t + 1900" and "f = (4 + year_start y) mod 7"
  note d = derived_days [OF assms(1,2), folded y_def]
  have fy: "full_year t = y" using full_year_eq assms(3,4) by (simp add: y_def)
  have f: "first_day (full_year t) = f" using first_day_loop_eq [of y 4] assms(3) unfolding fy first_day_def f_def by (simp add: y_def)
  have w: "tm_wday t = (f + tm_yday t) mod 7" unfolding d(4) d(1) f_def by (simp add: mod_add_left_eq add.assoc)
  have r: "0 \<le> f" "f < 7" "0 \<le> tm_yday t" "tm_yday t < 366" using d(2,3) by (simp_all add: f_def year_len_def split: if_splits)
  have u: "week_U t = (tm_yday t + 7 - tm_wday t) div 7" using w r by (simp add: week_U_def sdiv_smod_pos)
  have "week_U t * 7 + tm_wday t - f = tm_yday t + (if f = 0 then 7 else 0)"
  proof -
    define k where "k = (f + tm_yday t) div 7"
    have g: "f + tm_yday t = k * 7 + tm_wday t" unfolding w k_def by simp
    then have e: "tm_yday t + 7 - tm_wday t = (7 - f) + k * 7" by simp
    have "(7 - f) div 7 = (if f = 0 then 1 else 0)" using r(1,2) by auto
    then have "week_U t = (if f = 0 then 1 else 0) + k" unfolding u e by (subst div_mult_self1) simp_all
    then show ?thesis using g by auto
  qed
  moreover have "wrap_s32 (tm_yday t + (if f = 0 then 7 else 0)) = tm_yday t + (if f = 0 then 7 else 0)"
    using r by (intro wrap_s32_id) simp_all
  ultimately have z: "wrap_s32 (week_U t * 7 + tm_wday t - f) = tm_yday t + (if f = 0 then 7 else 0)" by simp
  show ?thesis unfolding set_week_number_sun_def f Let_def z using r by (simp add: f_def [symmetric] y_def [symmetric])
qed

end
