(* ===== verification/BigArith.thy ===== *)
theory BigArith
  imports Prelude
begin

text \<open>
  The loops of the multiple-precision arithmetic of \<open>stdlib/mprec.c\<close> on the words of a number, the
  lowest first, 32 bits to a word (\<open>Pack_32\<close>). Each loop over a pointer from the first to the last word
  is a recursion on the list of the words. The loops use 32-bit arithmetic on half-words; the lemmas
  show that no carry is lost and say what they compute.
\<close>

unbundle bit_operations_syntax

section \<open>The loops\<close>

text \<open>\<open>Storeinc\<close>\<close>

definition storeinc :: "u32 \<Rightarrow> u32 \<Rightarrow> u32" where
  "storeinc hi lo = push_bit 16 hi OR (lo AND 0xFFFF)"

text \<open>The loop of \<open>multadd\<close>: the new words and the last carry.\<close>

fun multadd_loop :: "u32 list \<Rightarrow> u32 \<Rightarrow> u32 \<Rightarrow> u32 list \<times> u32" where
  "multadd_loop [] m a = ([], a)"
| "multadd_loop (xi # xs) m a =
     (let y = (xi AND 0xFFFF) * m + a;
          z = drop_bit 16 xi * m + drop_bit 16 y;
          (ys, c) = multadd_loop xs m (drop_bit 16 z)
      in (storeinc z y # ys, c))"

text \<open>The two inner loops of \<open>mult\<close>, for the low and the high half of a word of the second factor.\<close>

fun mult_lo :: "u32 \<Rightarrow> u32 list \<Rightarrow> u32 list \<Rightarrow> nat \<Rightarrow> u32 \<Rightarrow> u32 list" where
  "mult_lo y [] c k carry = c[k := carry]"
| "mult_lo y (x # xs) c k carry =
     (let z = (x AND 0xFFFF) * y + (c ! k AND 0xFFFF) + carry;
          z2 = drop_bit 16 x * y + drop_bit 16 (c ! k) + drop_bit 16 z
      in mult_lo y xs (c[k := storeinc z2 z]) (Suc k) (drop_bit 16 z2))"

fun mult_hi :: "u32 \<Rightarrow> u32 list \<Rightarrow> u32 list \<Rightarrow> nat \<Rightarrow> u32 \<Rightarrow> u32 \<Rightarrow> u32 list" where
  "mult_hi y [] c k carry z2 = c[k := z2]"
| "mult_hi y (x # xs) c k carry z2 =
     (let z = (x AND 0xFFFF) * y + drop_bit 16 (c ! k) + carry;
          c1 = c[k := storeinc z z2];
          z2' = drop_bit 16 x * y + (c1 ! Suc k AND 0xFFFF) + drop_bit 16 z
      in mult_hi y xs c1 (Suc k) (drop_bit 16 z2') z2')"

fun mult_rows :: "u32 list \<Rightarrow> u32 list \<Rightarrow> u32 list \<Rightarrow> nat \<Rightarrow> u32 list" where
  "mult_rows xa [] c xc0 = c"
| "mult_rows xa (b # xb) c xc0 =
     (let y = b AND 0xFFFF; c1 = (if y \<noteq> 0 then mult_lo y xa c xc0 0 else c);
          y2 = drop_bit 16 b; c2 = (if y2 \<noteq> 0 then mult_hi y2 xa c1 xc0 0 (c1 ! xc0) else c1)
      in mult_rows xa xb c2 (Suc xc0))"

text \<open>\<open>for (...; wc > 0 && !*--xc; --wc)\<close>\<close>

fun trim_words :: "u32 list \<Rightarrow> nat \<Rightarrow> nat" where
  "trim_words c 0 = 0"
| "trim_words c (Suc wc) = (if c ! wc = 0 then trim_words c wc else Suc wc)"

text \<open>The loop of \<open>lshift\<close> for a shift by \<open>k\<close> bits, and the store of the last \<open>z\<close>.\<close>

fun lshift_loop :: "nat \<Rightarrow> u32 list \<Rightarrow> u32 \<Rightarrow> u32 list" where
  "lshift_loop k [] z = [z]"
| "lshift_loop k (x # xs) z = (push_bit k x OR z) # lshift_loop k xs (drop_bit (32 - k) x)"

text \<open>The loop of \<open>cmp\<close>, from the highest of the \<open>j\<close> words down.\<close>

fun cmp_loop :: "u32 list \<Rightarrow> u32 list \<Rightarrow> nat \<Rightarrow> int" where
  "cmp_loop xa xb 0 = 0"
| "cmp_loop xa xb (Suc j) =
     (if xa ! j \<noteq> xb ! j then (if xa ! j < xb ! j then - 1 else 1) else cmp_loop xa xb j)"

text \<open>The two loops of \<open>diff\<close>: while there are words of \<open>b\<close>, and then over the rest of \<open>a\<close>. \<open>borrow\<close> is signed.\<close>

fun diff_loop :: "u32 list \<Rightarrow> u32 list \<Rightarrow> u32 \<Rightarrow> u32 list \<times> u32" where
  "diff_loop [] xb borrow = ([], borrow)"
| "diff_loop (a # xa) [] borrow =
     (let y = (a AND 0xFFFF) + borrow;
          z = drop_bit 16 a + signed_drop_bit 16 y;
          (xc, c) = diff_loop xa [] (signed_drop_bit 16 z)
      in (storeinc z y # xc, c))"
| "diff_loop (a # xa) (b # xb) borrow =
     (let y = (a AND 0xFFFF) - (b AND 0xFFFF) + borrow;
          z = drop_bit 16 a - drop_bit 16 b + signed_drop_bit 16 y;
          (xc, c) = diff_loop xa xb (signed_drop_bit 16 z)
      in (storeinc z y # xc, c))"

section \<open>The number of a list of words\<close>

primrec val :: "u32 list \<Rightarrow> nat" where
  "val [] = 0"
| "val (x # xs) = unat x + 4294967296 * val xs"

lemma val_append: "val (xs @ ys) = val xs + 4294967296 ^ length xs * val ys"
  by (induction xs) (simp_all add: algebra_simps)

lemma val_less: "val xs < 4294967296 ^ length xs"
proof (induction xs)
  case (Cons x xs)
  have "unat x < 4294967296" using unsigned_less [of x] by simp
  moreover have "val xs + 1 \<le> 4294967296 ^ length xs" using Cons by simp
  then have "4294967296 * (val xs + 1) \<le> 4294967296 * 4294967296 ^ length xs" by (rule mult_le_mono2)
  ultimately show ?case by simp
qed simp

lemma val_replicate_0 [simp]: "val (replicate n 0) = 0"
  by (induction n) simp_all

lemma val_update:
  "k < length c \<Longrightarrow> val (c[k := v]) + 4294967296 ^ k * unat (c ! k) = val c + 4294967296 ^ k * unat v"
proof (induction c arbitrary: k)
  case (Cons x c)
  show ?case
  proof (cases k)
    case (Suc i)
    then have "val (c[i := v]) + 4294967296 ^ i * unat (c ! i) = val c + 4294967296 ^ i * unat v"
      using Cons by simp
    then show ?thesis using Suc by (simp add: algebra_simps)
  qed simp
qed simp

lemma val_take: "val (take n xs) = val xs mod 4294967296 ^ n"
proof (cases "n \<le> length xs")
  case True
  have "val xs = val (take n xs) + 4294967296 ^ n * val (drop n xs)"
    using val_append [of "take n xs" "drop n xs"] True by simp
  then show ?thesis using val_less [of "take n xs"] True by simp
next
  case False
  then have "(4294967296 :: nat) ^ length xs \<le> 4294967296 ^ n" by (intro power_increasing) auto
  then have "val xs < 4294967296 ^ n" using val_less [of xs] by (rule less_le_trans [rotated])
  then show ?thesis using False by simp
qed

section \<open>Half-words\<close>

named_theorems half_words

lemma and_ffff: "x AND 0xFFFF = take_bit 16 (x :: u32)"
  by (simp add: take_bit_eq_mask mask_eq_exp_minus_1)

lemma unat_lo [half_words]: "unat (x AND 0xFFFF) = unat (x :: u32) mod 65536"
  unfolding and_ffff unsigned_take_bit_eq by (simp add: take_bit_eq_mod)

lemma unat_hi [half_words]: "unat (drop_bit 16 x) = unat (x :: u32) div 65536"
  unfolding unat_drop_bit_eq by (simp add: drop_bit_eq_div)

lemma or_plus: "take_bit n v = (0 :: u32) \<Longrightarrow> take_bit n w = w \<Longrightarrow> v OR w = v + w"
proof -
  assume v: "take_bit n v = 0" and w: "take_bit n w = w"
  have "\<not> bit v i \<or> \<not> bit w i" for i
  proof (cases "i < n")
    case True
    then show ?thesis using arg_cong [OF v, of "\<lambda>u. bit u i"] by (simp add: bit_take_bit_iff)
  next
    case False
    then show ?thesis using arg_cong [OF w, of "\<lambda>u. bit u i"] by (simp add: bit_take_bit_iff)
  qed
  then show ?thesis by (subst disjunctive_add [symmetric]) auto
qed

lemma unat_storeinc [half_words]:
  "unat (storeinc hi lo) = 65536 * (unat hi mod 65536) + unat lo mod 65536"
proof -
  have "storeinc hi lo = push_bit 16 hi + take_bit 16 lo"
    unfolding storeinc_def and_ffff by (rule or_plus [of 16]) (simp_all add: take_bit_push_bit)
  moreover have p: "unat (push_bit 16 hi) = 65536 * (unat hi mod 65536)"
    unfolding unsigned_push_bit_eq using mult_mod_right [of 65536 "unat hi" 65536]
    by (simp add: take_bit_eq_mod push_bit_eq_mult mult.commute)
  moreover have t: "unat (take_bit 16 lo) = unat lo mod 65536"
    unfolding unsigned_take_bit_eq by (simp add: take_bit_eq_mod)
  have "unat hi mod 65536 < 65536" "unat lo mod 65536 < 65536" by simp_all
  then have "65536 * (unat hi mod 65536) + unat lo mod 65536 < 4294967296" by linarith
  ultimately show ?thesis using t by (simp add: unat_word_ariths)
qed

lemma unat_u32: "unat (x :: u32) < 4294967296"
  using unsigned_less [of x] by simp

lemma mac_less:
  assumes "a < 65536" "b < 65536" "c < 65536" "d < 65536" shows "a * b + c + d < (4294967296 :: nat)"
proof -
  have "a * b \<le> 65535 * 65535" using assms by (intro mult_le_mono) auto
  then show ?thesis using assms by linarith
qed

lemma unat_mac:
  assumes "unat a < 65536" "unat b < 65536" "unat c < 65536" "unat d < 65536"
  shows "unat (a * b + c + d :: u32) = unat a * unat b + unat c + unat d"
proof -
  have "unat a * unat b + unat c + unat d < 4294967296" using mac_less [OF assms] .
  then show ?thesis by (simp add: unat_word_ariths mod_add_left_eq)
qed

lemma hi_less [simp]: "unat (x :: u32) div 65536 < 65536"
  by (rule less_mult_imp_div_less) (use unat_u32 [of x] in simp)

lemma half_less [simp]: "unat (x AND 0xFFFF :: u32) < 65536" "unat (drop_bit 16 x :: u32) < 65536"
  unfolding half_words by simp_all

lemma halves: "65536 * (n mod 65536) + r + 4294967296 * (n div 65536) = 65536 * n + (r :: nat)"
proof -
  define q where "q = n div 65536"
  define p where "p = n mod 65536"
  have "n = 65536 * q + p" by (simp add: q_def p_def)
  then show ?thesis unfolding q_def [symmetric] p_def [symmetric] by simp
qed

section \<open>Multiplication and addition of small numbers\<close>

lemma multadd_step:
  fixes x m a :: u32
  assumes "unat m < 65536" "unat a < 65536"
  defines "y \<equiv> (x AND 0xFFFF) * m + a"
  defines "z \<equiv> drop_bit 16 x * m + drop_bit 16 y"
  shows "unat (storeinc z y) + 4294967296 * unat (drop_bit 16 z) = unat x * unat m + unat a"
proof -
  have y: "unat y = (unat x mod 65536) * unat m + unat a"
    using unat_mac [of "x AND 0xFFFF" m a 0] assms(1,2) by (simp add: y_def half_words)
  have z: "unat z = (unat x div 65536) * unat m + unat y div 65536"
    using unat_mac [of "drop_bit 16 x" m "drop_bit 16 y" 0] assms(1) by (simp add: z_def half_words)
  have "unat (storeinc z y) + 4294967296 * unat (drop_bit 16 z) = 65536 * unat z + unat y mod 65536"
    by (simp only: half_words halves)
  also have "\<dots> = 65536 * (unat x div 65536) * unat m + unat y" unfolding z by (simp add: algebra_simps)
  also have "\<dots> = (65536 * (unat x div 65536) + unat x mod 65536) * unat m + unat a"
    unfolding y by (simp only: algebra_simps)
  finally show ?thesis by (simp only: mult_div_mod_eq)
qed

lemma multadd_loop:
  assumes "unat m < 65536" "unat a < 65536" and "multadd_loop xs m a = (ys, c)"
  shows "val ys + 4294967296 ^ length xs * unat c = val xs * unat m + unat a"
    and "length ys = length xs" and "unat c < 65536"
proof -
  have "val ys + 4294967296 ^ length xs * unat c = val xs * unat m + unat a \<and> length ys = length xs \<and> unat c < 65536"
    using assms(2,3)
  proof (induction xs arbitrary: a ys c)
    case (Cons x xs)
    define y where "y = (x AND 0xFFFF) * m + a"
    define z where "z = drop_bit 16 x * m + drop_bit 16 y"
    obtain ys' c' where r: "multadd_loop xs m (drop_bit 16 z) = (ys', c')" by fastforce
    have ys: "ys = storeinc z y # ys'" "c = c'" using Cons.prems(2) r by (simp_all add: y_def z_def Let_def)
    note IH = Cons.IH [OF half_less(2) r]
    have "4294967296 * (val ys' + 4294967296 ^ length xs * unat c') = 4294967296 * (val xs * unat m + unat (drop_bit 16 z))"
      using IH by simp
    moreover have "unat (storeinc z y) + 4294967296 * unat (drop_bit 16 z) = unat x * unat m + unat a"
      using multadd_step [OF assms(1) Cons.prems(1), of x] unfolding y_def z_def .
    ultimately have "val ys + 4294967296 ^ length (x # xs) * unat c = val (x # xs) * unat m + unat a"
      unfolding ys by (simp only: val.simps length_Cons power_Suc algebra_simps)
    then show ?case using IH ys by simp
  qed simp
  then show "val ys + 4294967296 ^ length xs * unat c = val xs * unat m + unat a" "length ys = length xs" "unat c < 65536"
    by simp_all
qed

section \<open>Multiplication\<close>

lemma mult_lo:
  assumes "unat y < 65536" "unat carry < 65536" "k + length xs < length c"
  shows "val (mult_lo y xs c k carry) + 4294967296 ^ (k + length xs) * unat (c ! (k + length xs)) =
      val c + 4294967296 ^ k * (unat y * val xs + unat carry)"
    and "length (mult_lo y xs c k carry) = length c"
    and "unat (mult_lo y xs c k carry ! (k + length xs)) < 65536"
    and "k + length xs < i \<Longrightarrow> mult_lo y xs c k carry ! i = c ! i"
proof -
  have "val (mult_lo y xs c k carry) + 4294967296 ^ (k + length xs) * unat (c ! (k + length xs)) =
      val c + 4294967296 ^ k * (unat y * val xs + unat carry) \<and>
    length (mult_lo y xs c k carry) = length c \<and> unat (mult_lo y xs c k carry ! (k + length xs)) < 65536 \<and>
    (\<forall>i > k + length xs. mult_lo y xs c k carry ! i = c ! i)"
    using assms(2,3)
  proof (induction xs arbitrary: c k carry)
    case Nil
    then show ?case using val_update [of k c carry] by simp
  next
    case (Cons x xs)
    define z where "z = (x AND 0xFFFF) * y + (c ! k AND 0xFFFF) + carry"
    define z2 where "z2 = drop_bit 16 x * y + drop_bit 16 (c ! k) + drop_bit 16 z"
    define c1 where "c1 = c[k := storeinc z2 z]"
    have step: "mult_lo y (x # xs) c k carry = mult_lo y xs c1 (Suc k) (drop_bit 16 z2)"
      by (simp add: z_def z2_def c1_def Let_def)
    have IH: "val (mult_lo y xs c1 (Suc k) (drop_bit 16 z2)) + 4294967296 ^ (Suc k + length xs) * unat (c1 ! (Suc k + length xs)) =
        val c1 + 4294967296 ^ Suc k * (unat y * val xs + unat (drop_bit 16 z2)) \<and>
      length (mult_lo y xs c1 (Suc k) (drop_bit 16 z2)) = length c1 \<and>
      unat (mult_lo y xs c1 (Suc k) (drop_bit 16 z2) ! (Suc k + length xs)) < 65536 \<and>
      (\<forall>i > Suc k + length xs. mult_lo y xs c1 (Suc k) (drop_bit 16 z2) ! i = c1 ! i)"
      by (rule Cons.IH) (use Cons.prems in \<open>simp_all add: c1_def\<close>)
    have z: "unat z = (unat x mod 65536) * unat y + unat (c ! k) mod 65536 + unat carry"
      using unat_mac [of "x AND 0xFFFF" y "c ! k AND 0xFFFF" carry] assms(1) Cons.prems(1) by (simp add: z_def half_words)
    have z2: "unat z2 = (unat x div 65536) * unat y + unat (c ! k) div 65536 + unat z div 65536"
      using unat_mac [of "drop_bit 16 x" y "drop_bit 16 (c ! k)" "drop_bit 16 z"] assms(1) by (simp add: z2_def half_words)
    have "unat (storeinc z2 z) + 4294967296 * unat (drop_bit 16 z2) = 65536 * unat z2 + unat z mod 65536"
      by (simp only: half_words halves)
    also have "\<dots> = 65536 * ((unat x div 65536) * unat y + unat (c ! k) div 65536) + unat z"
      unfolding z2 by (simp add: algebra_simps)
    also have "\<dots> = (65536 * (unat x div 65536) + unat x mod 65536) * unat y +
        (65536 * (unat (c ! k) div 65536) + unat (c ! k) mod 65536) + unat carry"
      unfolding z by (simp only: algebra_simps)
    finally have "unat (storeinc z2 z) + 4294967296 * unat (drop_bit 16 z2) = unat x * unat y + unat (c ! k) + unat carry"
      by simp
    then have "4294967296 ^ k * (unat (storeinc z2 z) + 4294967296 * unat (drop_bit 16 z2)) =
      4294967296 ^ k * (unat x * unat y + unat (c ! k) + unat carry)" by (rule arg_cong)
    moreover have "val c1 + 4294967296 ^ k * unat (c ! k) = val c + 4294967296 ^ k * unat (storeinc z2 z)"
      unfolding c1_def by (rule val_update) (use Cons.prems in simp)
    ultimately show ?case using IH unfolding step by (simp add: c1_def algebra_simps)
  qed
  then show "val (mult_lo y xs c k carry) + 4294967296 ^ (k + length xs) * unat (c ! (k + length xs)) =
      val c + 4294967296 ^ k * (unat y * val xs + unat carry)"
    "length (mult_lo y xs c k carry) = length c" "unat (mult_lo y xs c k carry ! (k + length xs)) < 65536"
    "k + length xs < i \<Longrightarrow> mult_lo y xs c k carry ! i = c ! i"
    by blast+
qed

lemma mult_hi:
  assumes "unat y < 65536" "unat carry < 65536" "k + length xs < length c"
    and "unat (c ! (k + length xs)) < 65536" and "xs = [] \<longrightarrow> unat carry = unat z2 div 65536"
  shows "val (mult_hi y xs c k carry z2) + 4294967296 ^ k * (unat (c ! k) mod 65536) =
      val c + 4294967296 ^ k * (unat z2 mod 65536 + 65536 * unat carry + 65536 * (unat y * val xs))"
    and "length (mult_hi y xs c k carry z2) = length c"
    and "k + length xs < i \<Longrightarrow> mult_hi y xs c k carry z2 ! i = c ! i"
proof -
  have "val (mult_hi y xs c k carry z2) + 4294967296 ^ k * (unat (c ! k) mod 65536) =
      val c + 4294967296 ^ k * (unat z2 mod 65536 + 65536 * unat carry + 65536 * (unat y * val xs)) \<and>
    length (mult_hi y xs c k carry z2) = length c \<and> (\<forall>i > k + length xs. mult_hi y xs c k carry z2 ! i = c ! i)"
    using assms(2-5)
  proof (induction xs arbitrary: c k carry z2)
    case Nil
    then have "unat z2 mod 65536 + 65536 * unat carry = unat z2" by simp
    then show ?case using Nil val_update [of k c z2] by simp
  next
    case (Cons x xs)
    define z where "z = (x AND 0xFFFF) * y + drop_bit 16 (c ! k) + carry"
    define c1 where "c1 = c[k := storeinc z z2]"
    define w where "w = drop_bit 16 x * y + (c1 ! Suc k AND 0xFFFF) + drop_bit 16 z"
    have step: "mult_hi y (x # xs) c k carry z2 = mult_hi y xs c1 (Suc k) (drop_bit 16 w) w"
      by (simp add: z_def w_def c1_def Let_def)
    have c1: "c1 ! Suc k = c ! Suc k" by (simp add: c1_def)
    have IH: "val (mult_hi y xs c1 (Suc k) (drop_bit 16 w) w) + 4294967296 ^ Suc k * (unat (c1 ! Suc k) mod 65536) =
        val c1 + 4294967296 ^ Suc k * (unat w mod 65536 + 65536 * unat (drop_bit 16 w) + 65536 * (unat y * val xs)) \<and>
      length (mult_hi y xs c1 (Suc k) (drop_bit 16 w) w) = length c1 \<and>
      (\<forall>i > Suc k + length xs. mult_hi y xs c1 (Suc k) (drop_bit 16 w) w ! i = c1 ! i)"
      by (rule Cons.IH) (use Cons.prems in \<open>simp_all add: c1_def half_words\<close>)
    have z: "unat z = (unat x mod 65536) * unat y + unat (c ! k) div 65536 + unat carry"
      using unat_mac [of "x AND 0xFFFF" y "drop_bit 16 (c ! k)" carry] assms(1) Cons.prems(1) by (simp add: z_def half_words)
    have w: "unat w = (unat x div 65536) * unat y + unat (c ! Suc k) mod 65536 + unat z div 65536"
      using unat_mac [of "drop_bit 16 x" y "c1 ! Suc k AND 0xFFFF" "drop_bit 16 z"] assms(1) by (simp add: w_def c1 half_words)
    have w': "unat w mod 65536 + 65536 * unat (drop_bit 16 w) = unat w" by (simp add: half_words)
    have "65536 * (unat z mod 65536) + 4294967296 * (unat z div 65536) = 65536 * unat z"
      using halves [of "unat z" 0] by simp
    then have "unat (storeinc z z2) + 4294967296 * unat w + unat (c ! k) mod 65536 =
        65536 * (65536 * (unat x div 65536) * unat y + unat z) + unat z2 mod 65536 + unat (c ! k) mod 65536 +
        4294967296 * (unat (c ! Suc k) mod 65536)"
      unfolding w half_words by (simp only: distrib_left)
    also have "\<dots> = 65536 * ((65536 * (unat x div 65536) + unat x mod 65536) * unat y + unat carry) + unat z2 mod 65536 +
        (65536 * (unat (c ! k) div 65536) + unat (c ! k) mod 65536) + 4294967296 * (unat (c ! Suc k) mod 65536)"
      unfolding z by (simp only: algebra_simps)
    finally have "unat (storeinc z z2) + 4294967296 * unat w + unat (c ! k) mod 65536 =
        65536 * (unat x * unat y + unat carry) + unat z2 mod 65536 + unat (c ! k) + 4294967296 * (unat (c ! Suc k) mod 65536)"
      by simp
    then have "4294967296 ^ k * (unat (storeinc z z2) + 4294967296 * unat w + unat (c ! k) mod 65536) = 4294967296 ^ k *
        (65536 * (unat x * unat y + unat carry) + unat z2 mod 65536 + unat (c ! k) + 4294967296 * (unat (c ! Suc k) mod 65536))"
      by (rule arg_cong)
    moreover have "val c1 + 4294967296 ^ k * unat (c ! k) = val c + 4294967296 ^ k * unat (storeinc z z2)"
      unfolding c1_def by (rule val_update) (use Cons.prems in simp)
    ultimately show ?case using IH unfolding step w' c1 by (simp add: c1_def algebra_simps)
  qed
  then show "val (mult_hi y xs c k carry z2) + 4294967296 ^ k * (unat (c ! k) mod 65536) =
      val c + 4294967296 ^ k * (unat z2 mod 65536 + 65536 * unat carry + 65536 * (unat y * val xs))"
    "length (mult_hi y xs c k carry z2) = length c" "k + length xs < i \<Longrightarrow> mult_hi y xs c k carry z2 ! i = c ! i"
    by blast+
qed

text \<open>One row, and all of them: the words above the row are still 0 when it begins.\<close>

lemma mult_row:
  fixes b :: u32 and k :: nat
  assumes "xs \<noteq> []" "k + length xs < length c" "\<And>i. k + length xs \<le> i \<Longrightarrow> i < length c \<Longrightarrow> c ! i = 0"
  defines "c1 \<equiv> if b AND 0xFFFF \<noteq> 0 then mult_lo (b AND 0xFFFF) xs c k 0 else c"
  defines "c2 \<equiv> if drop_bit 16 b \<noteq> 0 then mult_hi (drop_bit 16 b) xs c1 k 0 (c1 ! k) else c1"
  shows "val c2 = val c + 4294967296 ^ k * (unat b * val xs)" and "length c2 = length c"
    and "\<And>i. Suc k + length xs \<le> i \<Longrightarrow> i < length c \<Longrightarrow> c2 ! i = 0"
proof -
  have zero: "(w = 0) = (unat w = 0)" for w :: u32 by (simp add: unat_eq_0)
  have c0: "c ! (k + length xs) = 0" using assms(2,3) by simp
  have c1: "val c1 = val c + 4294967296 ^ k * (unat (b AND 0xFFFF) * val xs)" "length c1 = length c"
    "unat (c1 ! (k + length xs)) < 65536" "\<And>i. k + length xs < i \<Longrightarrow> i < length c \<Longrightarrow> c1 ! i = 0"
    using mult_lo [of "b AND 0xFFFF" 0 k xs c] assms(2,3) c0 by (auto simp: c1_def)
  have c2: "val c2 = val c1 + 4294967296 ^ k * (65536 * (unat (drop_bit 16 b) * val xs))" "length c2 = length c1"
    "\<And>i. k + length xs < i \<Longrightarrow> i < length c1 \<Longrightarrow> c2 ! i = c1 ! i"
    using mult_hi [of "drop_bit 16 b" 0 k xs c1 "c1 ! k"] assms(1,2) c1(2,3) by (auto simp: c2_def algebra_simps)
  have "4294967296 ^ k * (unat b * val xs) = 4294967296 ^ k * ((65536 * (unat b div 65536) + unat b mod 65536) * val xs)" by simp
  then show "val c2 = val c + 4294967296 ^ k * (unat b * val xs)"
    unfolding c2(1) c1(1) half_words by (simp only: algebra_simps)
  show "length c2 = length c" using c1(2) c2(2) by simp
  show "c2 ! i = 0" if "Suc k + length xs \<le> i" "i < length c" for i using that c1(2,4) c2(3) by simp
qed

lemma mult_rows:
  assumes "xa \<noteq> []" "k + length xa + length xb \<le> length c"
    "\<And>i. k + length xa \<le> i \<Longrightarrow> i < length c \<Longrightarrow> c ! i = 0"
  shows "val (mult_rows xa xb c k) = val c + 4294967296 ^ k * (val xa * val xb) \<and> length (mult_rows xa xb c k) = length c"
  using assms(2,3)
proof (induction xb arbitrary: c k)
  case (Cons b xb)
  define c1 where "c1 = (if b AND 0xFFFF \<noteq> 0 then mult_lo (b AND 0xFFFF) xa c k 0 else c)"
  define c2 where "c2 = (if drop_bit 16 b \<noteq> 0 then mult_hi (drop_bit 16 b) xa c1 k 0 (c1 ! k) else c1)"
  have row: "val c2 = val c + 4294967296 ^ k * (unat b * val xa)" "length c2 = length c"
    "\<And>i. Suc k + length xa \<le> i \<Longrightarrow> i < length c \<Longrightarrow> c2 ! i = 0"
    using mult_row [where b = b and xs = xa and k = k and c = c, OF assms(1), folded c1_def, folded c2_def] Cons.prems by simp_all
  have "val (mult_rows xa xb c2 (Suc k)) = val c2 + 4294967296 ^ Suc k * (val xa * val xb) \<and>
      length (mult_rows xa xb c2 (Suc k)) = length c2"
    by (rule Cons.IH) (use Cons.prems(1) row in simp_all)
  moreover have "mult_rows xa (b # xb) c k = mult_rows xa xb c2 (Suc k)"
    by (simp only: mult_rows.simps Let_def c1_def c2_def)
  ultimately show ?case using row by (simp add: algebra_simps)
qed simp

lemma trim_words:
  assumes "n \<le> length c"
  shows "val (take (trim_words c n) c) = val (take n c)" and "trim_words c n \<le> n"
    and "0 < trim_words c n \<Longrightarrow> c ! (trim_words c n - 1) \<noteq> 0"
  using assms by (induction n) (auto simp: take_Suc_conv_app_nth val_append)

section \<open>Shifts\<close>

lemma unat_less_power: "take_bit k (z :: u32) = z" if "unat z < 2 ^ k"
  unfolding word_unat_eq_iff unsigned_take_bit_eq using that by (rule take_bit_nat_eq_self)

lemma lshift_step:
  fixes x z :: u32
  assumes "0 < k" "k < 32" "unat z < 2 ^ k"
  shows "unat (push_bit k x OR z) + 4294967296 * unat (drop_bit (32 - k) x) = 2 ^ k * unat x + unat z"
    and "unat (drop_bit (32 - k) x) < 2 ^ k"
proof -
  have e: "(4294967296 :: nat) = 2 ^ k * 2 ^ (32 - k)" using assms by (simp flip: power_add)
  define m where "m = unat x mod 2 ^ (32 - k)"
  define d where "d = unat x div 2 ^ (32 - k)"
  have x: "unat x = 2 ^ (32 - k) * d + m" by (simp add: m_def d_def)
  have "unat (push_bit k x) = (2 ^ k * unat x) mod (2 ^ k * 2 ^ (32 - k))"
    unfolding unsigned_push_bit_eq e [symmetric] by (simp add: take_bit_eq_mod push_bit_eq_mult mult.commute)
  then have p: "unat (push_bit k x) = 2 ^ k * m" by (simp only: m_def flip: mult_mod_right)
  have "m + 1 \<le> 2 ^ (32 - k)" by (simp add: m_def Suc_le_eq)
  then have "2 ^ k * (m + 1) \<le> 2 ^ k * 2 ^ (32 - k)" by (rule mult_le_mono2)
  then have "2 ^ k * m + unat z < 4294967296" using assms(3) unfolding e by simp
  moreover have "push_bit k x OR z = push_bit k x + z"
    by (rule or_plus [of k]) (simp_all add: take_bit_push_bit unat_less_power assms(3))
  ultimately have "unat (push_bit k x OR z) = 2 ^ k * m + unat z" by (simp add: unat_word_ariths p)
  moreover have u: "unat (drop_bit (32 - k) x) = d" unfolding unat_drop_bit_eq by (simp add: d_def drop_bit_eq_div)
  ultimately show "unat (push_bit k x OR z) + 4294967296 * unat (drop_bit (32 - k) x) = 2 ^ k * unat x + unat z"
    unfolding x e u by (simp add: algebra_simps)
  have "unat x < 2 ^ k * 2 ^ (32 - k)" using unat_u32 [of x] unfolding e .
  then show "unat (drop_bit (32 - k) x) < 2 ^ k" unfolding u d_def by (simp add: less_mult_imp_div_less)
qed

lemma lshift_loop:
  assumes "0 < k" "k < 32" "unat z < 2 ^ k"
  shows "val (lshift_loop k xs z) = 2 ^ k * val xs + unat z \<and> length (lshift_loop k xs z) = Suc (length xs)"
  using assms(3)
proof (induction xs arbitrary: z)
  case (Cons x xs)
  have "val (lshift_loop k xs (drop_bit (32 - k) x)) = 2 ^ k * val xs + unat (drop_bit (32 - k) x) \<and>
      length (lshift_loop k xs (drop_bit (32 - k) x)) = Suc (length xs)"
    by (rule Cons.IH) (rule lshift_step(2) [OF assms(1,2) Cons.prems])
  then show ?case using lshift_step(1) [OF assms(1,2) Cons.prems, of x] by (simp add: algebra_simps)
qed simp

section \<open>Comparison\<close>

lemma less_high_word:
  assumes "(a :: nat) < p" "b < p" "x < y"
  shows "a + p * x < b + p * y"
proof -
  have "p * (x + 1) \<le> p * y" using assms(3) by (intro mult_le_mono2) simp
  then show ?thesis using assms(1) by simp
qed

lemma cmp_loop:
  assumes "j \<le> length xa" "j \<le> length xb"
  shows "cmp_loop xa xb j = (if val (take j xa) < val (take j xb) then - 1 else if val (take j xa) = val (take j xb) then 0 else 1)"
  using assms
proof (induction j)
  case (Suc j)
  have v: "val (take (Suc j) xa) = val (take j xa) + 4294967296 ^ j * unat (xa ! j)"
    "val (take (Suc j) xb) = val (take j xb) + 4294967296 ^ j * unat (xb ! j)"
    using Suc.prems by (simp_all add: take_Suc_conv_app_nth val_append)
  have l: "val (take j xa) < 4294967296 ^ j" "val (take j xb) < 4294967296 ^ j"
    using val_less [of "take j xa"] val_less [of "take j xb"] Suc.prems by simp_all
  consider "xa ! j = xb ! j" | "unat (xa ! j) < unat (xb ! j)" | "unat (xb ! j) < unat (xa ! j)"
    by (metis linorder_neqE_nat word_unat_eq_iff)
  then show ?case
  proof cases
    case 1
    then show ?thesis using Suc by (simp add: v)
  next
    case 2
    then show ?thesis using less_high_word [OF l 2] by (auto simp: v word_less_nat_alt)
  next
    case 3
    then show ?thesis using less_high_word [OF l(2,1) 3] by (auto simp: v word_less_nat_alt)
  qed
qed simp

section \<open>Subtraction\<close>

lemma sint_small: "- 65536 \<le> Y \<Longrightarrow> Y < 65536 \<Longrightarrow> sint (word_of_int Y :: u32) = Y"
  unfolding signed_of_int of_int_eq_id id_apply by (intro signed_take_bit_int_eq_self) simp_all

lemma div_half: "- 65536 \<le> Y \<Longrightarrow> Y < 65536 \<Longrightarrow> Y div 65536 = (if 0 \<le> Y then 0 else - 1 :: int)"
  by (auto intro: div_pos_pos_trivial int_div_pos_eq [of _ _ _ "Y + 65536"])

lemma signed_half:
  assumes "- 65536 \<le> Y" "Y < 65536"
  shows "signed_drop_bit 16 (word_of_int Y :: u32) = word_of_int (Y div 65536)"
    and "int (unat (word_of_int Y :: u32) mod 65536) = Y mod 65536"
proof -
  have "- 65536 \<le> Y div 65536" "Y div 65536 < 65536" using div_half [OF assms] by simp_all
  then have "sint (signed_drop_bit 16 (word_of_int Y :: u32)) = sint (word_of_int (Y div 65536) :: u32)"
    using assms by (simp only: sint_signed_drop_bit_eq sint_small) (simp add: drop_bit_eq_div)
  then show "signed_drop_bit 16 (word_of_int Y :: u32) = word_of_int (Y div 65536)" by (rule signed_word_eqI)
  have "int (unat (word_of_int Y :: u32)) = Y mod 4294967296" by (simp add: unsigned_of_int take_bit_eq_mod)
  then show "int (unat (word_of_int Y :: u32) mod 65536) = Y mod 65536" by (simp add: zmod_int mod_mod_cancel)
qed

text \<open>One word of a difference. \<open>b\<close> is 0 once the words of the subtrahend are used up.\<close>

definition diff_word :: "u32 \<Rightarrow> u32 \<Rightarrow> u32 \<Rightarrow> u32 \<times> u32" where
  "diff_word a b borrow =
     (let y = (a AND 0xFFFF) - (b AND 0xFFFF) + borrow;
          z = drop_bit 16 a - drop_bit 16 b + signed_drop_bit 16 y
      in (storeinc z y, signed_drop_bit 16 z))"

lemma regroup: "65536 * p + r + 4294967296 * q = 65536 * (65536 * q + p) + (r :: int)" by simp

lemma diff_word:
  assumes "bw = 0 \<or> bw = - 1" and "diff_word a b (word_of_int bw) = (w, c)"
  shows "\<exists>bw'. (bw' = 0 \<or> bw' = - 1) \<and> c = word_of_int bw' \<and>
    int (unat w) + 4294967296 * bw' = int (unat a) - int (unat b) + bw"
proof -
  define Y where "Y = int (unat a mod 65536) - int (unat b mod 65536) + bw"
  define Z where "Z = int (unat a div 65536) - int (unat b div 65536) + Y div 65536"
  have lt: "int (n mod 65536) < 65536" for n :: nat by simp
  have ltd: "int (unat (x :: u32) div 65536) < 65536" for x using hi_less [of x] by simp
  have Y: "- 65536 \<le> Y" "Y < 65536" "Y div 65536 = 0 \<or> Y div 65536 = - 1"
  proof -
    show "- 65536 \<le> Y" "Y < 65536"
      using assms(1) lt [of "unat a"] lt [of "unat b"] unfolding Y_def by linarith+
    then show "Y div 65536 = 0 \<or> Y div 65536 = - 1" by (simp add: div_half)
  qed
  have Z: "- 65536 \<le> Z" "Z < 65536"
    using Y(3) ltd [of a] ltd [of b] unfolding Z_def by linarith+
  then have Z': "Z div 65536 = 0 \<or> Z div 65536 = - 1" by (simp add: div_half)
  have y: "(a AND 0xFFFF) - (b AND 0xFFFF) + word_of_int bw = word_of_int Y"
    unfolding Y_def unat_lo [symmetric] by simp
  have z: "drop_bit 16 a - drop_bit 16 b + word_of_int (Y div 65536) = word_of_int Z"
    unfolding Z_def unat_hi [symmetric] by simp
  have c: "c = word_of_int (Z div 65536)" and w: "w = storeinc (word_of_int Z) (word_of_int Y)"
    using assms(2) by (simp_all only: diff_word_def Let_def y z signed_half(1) [OF Y(1,2)] signed_half(1) [OF Z] prod.inject)
  have "int (unat w) = 65536 * (Z mod 65536) + Y mod 65536"
    unfolding w unat_storeinc using signed_half(2) [OF Y(1,2)] signed_half(2) [OF Z] by simp
  then have "int (unat w) + 4294967296 * (Z div 65536) = 65536 * (65536 * (Z div 65536) + Z mod 65536) + Y mod 65536"
    by (simp only: regroup)
  also have "\<dots> = 65536 * Z + Y mod 65536" by (simp only: mult_div_mod_eq)
  also have "\<dots> = 65536 * (int (unat a div 65536) - int (unat b div 65536)) + (65536 * (Y div 65536) + Y mod 65536)"
    unfolding Z_def by (simp only: algebra_simps)
  also have "\<dots> = int (65536 * (unat a div 65536) + unat a mod 65536) - int (65536 * (unat b div 65536) + unat b mod 65536) + bw"
    unfolding mult_div_mod_eq [of 65536 Y] unfolding Y_def of_nat_add of_nat_mult by (simp only: algebra_simps of_nat_numeral)
  also have "\<dots> = int (unat a) - int (unat b) + bw" by simp
  finally show ?thesis using c Z' by blast
qed

lemma diff_loop_Cons:
  "diff_loop (a # xa) xb borrow =
     (let (w, c) = diff_word a (case xb of [] \<Rightarrow> 0 | b # _ \<Rightarrow> b) borrow; (xc, c') = diff_loop xa (tl xb) c in (w # xc, c'))"
  by (cases xb) (simp_all add: diff_word_def Let_def)

lemma diff_loop:
  assumes "bw = 0 \<or> bw = - 1" "length xb \<le> length xa" "diff_loop xa xb (word_of_int bw) = (xc, c)"
  shows "\<exists>bw'. (bw' = 0 \<or> bw' = - 1) \<and> c = word_of_int bw' \<and> length xc = length xa \<and>
    int (val xc) + 4294967296 ^ length xa * bw' = int (val xa) - int (val xb) + bw"
  using assms
proof (induction xa arbitrary: xb bw xc)
  case (Cons a xa)
  let ?b = "case xb of [] \<Rightarrow> 0 | b # _ \<Rightarrow> b"
  obtain w c1 where w: "diff_word a ?b (word_of_int bw) = (w, c1)" by fastforce
  obtain b1 where b1: "b1 = 0 \<or> b1 = - 1" "c1 = word_of_int b1"
    "int (unat w) + 4294967296 * b1 = int (unat a) - int (unat ?b) + bw"
    using diff_word [OF Cons.prems(1) w] by blast
  obtain xs where xs: "diff_loop xa (tl xb) (word_of_int b1) = (xs, c)" "xc = w # xs"
    using Cons.prems(3) w b1(2) by (auto simp: diff_loop_Cons split: prod.splits)
  obtain b2 where b2: "b2 = 0 \<or> b2 = - 1" "c = word_of_int b2" "length xs = length xa"
    "int (val xs) + 4294967296 ^ length xa * b2 = int (val xa) - int (val (tl xb)) + b1"
    using Cons.IH [OF b1(1) _ xs(1)] Cons.prems(2) by (force simp: le_diff_conv)
  have "4294967296 * (int (val xs) + 4294967296 ^ length xa * b2) = 4294967296 * (int (val xa) - int (val (tl xb)) + b1)"
    using b2(4) by simp
  moreover have "int (val xb) = int (unat ?b) + 4294967296 * int (val (tl xb))" by (cases xb) simp_all
  ultimately have "int (val xc) + 4294967296 ^ length (a # xa) * b2 = int (val (a # xa)) - int (val xb) + bw"
    using b1(3) by (simp add: xs(2) algebra_simps)
  then show ?case using b2(1-3) xs(2) by auto
qed auto

text \<open>The difference of a number and a smaller one leaves no borrow.\<close>

lemma diff_loop_val:
  assumes "length xb \<le> length xa" "val xb \<le> val xa"
  shows "val (fst (diff_loop xa xb 0)) = val xa - val xb" and "length (fst (diff_loop xa xb 0)) = length xa"
proof -
  obtain xc c where r: "diff_loop xa xb 0 = (xc, c)" by fastforce
  obtain bw where bw: "bw = 0 \<or> bw = - 1" "length xc = length xa"
    "int (val xc) + 4294967296 ^ length xa * bw = int (val xa) - int (val xb)"
    using diff_loop [of 0 xb xa xc c] assms(1) r by auto
  have "int (val xc) < int (4294967296 ^ length xa)" using val_less [of xc] bw(2) by (simp only: of_nat_less_iff)
  then have "int (val xc) < 4294967296 ^ length xa" by (simp only: of_nat_power of_nat_numeral)
  moreover have "int (val xb) \<le> int (val xa)" using assms(2) by simp
  moreover have "int (val xc) - 4294967296 ^ length xa = int (val xa) - int (val xb)" if "bw = - 1" using bw(3) that by simp
  ultimately have "bw \<noteq> - 1" by linarith
  then have "bw = 0" using bw(1) by blast
  then show "val (fst (diff_loop xa xb 0)) = val xa - val xb" "length (fst (diff_loop xa xb 0)) = length xa"
    using bw(2,3) assms(2) by (simp_all add: r)
qed

end
