(* ===== verification/BigPool.thy ===== *)
theory BigPool
  imports BigArith
begin

text \<open>
  The store of the numbers of \<open>stdlib/mprec.c\<close>: \<open>_Bigint\<close> structures and the lists of free ones, \<open>Balloc\<close>
  and \<open>Bfree\<close>. A pointer is the address of a structure and 0 is \<open>NULL\<close>; following a pointer that is
  \<open>NULL\<close> or points to nothing is \<open>None\<close>. \<open>_calloc_r\<close> is a parameter: the sequence of the addresses it
  will answer. The check that creates \<open>_mp\<close> at the first use is not modelled: it is there.
\<close>

section \<open>State\<close>

record bigint =
  link :: nat
  big_k :: nat
  maxwds :: nat
  sign :: int
  wds :: nat
  words :: "u32 list"

record mp =
  bigs :: "nat \<Rightarrow> bigint option"
  freelist :: "(nat \<Rightarrow> nat) option"
  p5s :: nat
  answers :: "nat \<Rightarrow> nat"
  asked :: nat

definition put_big :: "nat \<Rightarrow> bigint \<Rightarrow> mp \<Rightarrow> mp" where
  "put_big p b st = st\<lparr>bigs := (bigs st)(p \<mapsto> b)\<rparr>"

section \<open>Operations\<close>

definition calloc_r :: "mp \<Rightarrow> nat \<times> mp" where
  "calloc_r st = (answers st (asked st), st\<lparr>asked := Suc (asked st)\<rparr>)"

text \<open>
  The words behind the header of 20 bytes in the memory that \<open>Balloc\<close> asks for: \<open>sizeof (_Bigint) + (x - 1) * sizeof (rv->_x)\<close>
  is a \<open>size_t\<close> of 32 bits, \<open>x = 1 << k\<close>.
\<close>

definition room :: "nat \<Rightarrow> nat" where
  "room k = ((24 + (2 ^ k - 1) * 4) mod 2 ^ 32 - 20) div 4"

text \<open>The array of the list heads has \<open>_Kmax + 1 = 33\<close> elements; \<open>1 << k\<close> is an \<open>int\<close>.\<close>

definition Balloc :: "nat \<Rightarrow> mp \<Rightarrow> (nat \<times> mp) option" where
  "Balloc k st =
     (let st1 = (case freelist st of Some _ \<Rightarrow> st
                 | None \<Rightarrow> let (a, s) = calloc_r st in if a = 0 then s else s\<lparr>freelist := Some (\<lambda>_. 0)\<rparr>)
      in case freelist st1 of None \<Rightarrow> Some (0, st1)
         | Some fl \<Rightarrow>
             if 32 < k then None
             else if fl k \<noteq> 0 then
               (case bigs st1 (fl k) of None \<Rightarrow> None
                | Some rv \<Rightarrow> Some (fl k, put_big (fl k) (rv\<lparr>sign := 0, wds := 0\<rparr>) (st1\<lparr>freelist := Some (fl(k := link rv))\<rparr>)))
             else if 31 \<le> k then None
             else let (rv, st2) = calloc_r st1 in
               if rv = 0 then Some (0, st2)
               else Some (rv, put_big rv \<lparr>link = 0, big_k = k, maxwds = 2 ^ k, sign = 0, wds = 0, words = replicate (room k) 0\<rparr> st2))"

definition Bfree :: "nat \<Rightarrow> mp \<Rightarrow> mp option" where
  "Bfree v st =
     (if v = 0 then Some st
      else case bigs st v of None \<Rightarrow> None
        | Some b \<Rightarrow>
            (case freelist st of None \<Rightarrow> None
             | Some fl \<Rightarrow>
                 if 32 < big_k b then None
                 else Some (put_big v (b\<lparr>link := fl (big_k b)\<rparr>) (st\<lparr>freelist := Some (fl(big_k b := v))\<rparr>))))"

text \<open>\<open>Bcopy\<close>: a \<open>memcpy\<close> from the member \<open>_sign\<close> on, of \<open>_wds\<close> words.\<close>

definition Bcopy :: "nat \<Rightarrow> nat \<Rightarrow> mp \<Rightarrow> mp option" where
  "Bcopy x y st =
     do { vx \<leftarrow> bigs st x; vy \<leftarrow> bigs st y;
          if wds vy \<le> length (words vy) \<and> wds vy \<le> length (words vx)
          then Some (put_big x (vx\<lparr>sign := sign vy, wds := wds vy, words := take (wds vy) (words vy) @ drop (wds vy) (words vx)\<rparr>) st)
          else None }"

section \<open>Well-formed stores\<close>

text \<open>\<open>own\<close> is the set of the numbers in use: all that were allocated and not freed.\<close>

fun chain :: "(nat \<Rightarrow> bigint option) \<Rightarrow> nat \<Rightarrow> nat list \<Rightarrow> bool" where
  "chain B p [] \<longleftrightarrow> p = 0"
| "chain B p (q # qs) \<longleftrightarrow> p = q \<and> q \<noteq> 0 \<and> (case B q of None \<Rightarrow> False | Some b \<Rightarrow> chain B (link b) qs)"

definition big_ok :: "bigint \<Rightarrow> bool" where
  "big_ok b \<longleftrightarrow> length (words b) = maxwds b \<and> maxwds b = 2 ^ big_k b \<and> wds b \<le> maxwds b \<and> big_k b \<le> 29"

definition free_ok :: "nat set \<Rightarrow> (nat \<Rightarrow> bigint option) \<Rightarrow> (nat \<Rightarrow> nat) \<Rightarrow> (nat \<Rightarrow> nat list) \<Rightarrow> bool" where
  "free_ok own B fl F \<longleftrightarrow> (\<forall>k \<le> 32. chain B (fl k) (F k) \<and> distinct (F k) \<and>
     (\<forall>p \<in> set (F k). p \<notin> own \<and> (\<exists>b. B p = Some b \<and> big_k b = k)))"

definition mp_ok :: "nat set \<Rightarrow> mp \<Rightarrow> bool" where
  "mp_ok own st \<longleftrightarrow>
     (\<forall>p b. bigs st p = Some b \<longrightarrow> p \<noteq> 0 \<and> big_ok b) \<and> own \<subseteq> dom (bigs st) \<and>
     (\<forall>i \<ge> asked st. answers st i \<notin> dom (bigs st)) \<and>
     (\<forall>i \<ge> asked st. \<forall>j > i. answers st i = answers st j \<longrightarrow> answers st i = 0) \<and>
     (case freelist st of None \<Rightarrow> own = {} | Some fl \<Rightarrow> \<exists>F. free_ok own (bigs st) fl F)"

text \<open>What stays when numbers other than those in \<open>own\<close> are worked on, and that \<open>_calloc_r\<close> will not fail.\<close>

definition kept :: "nat set \<Rightarrow> mp \<Rightarrow> mp \<Rightarrow> bool" where
  "kept own st st' \<longleftrightarrow> (\<forall>q \<in> own. bigs st' q = bigs st q) \<and> p5s st' = p5s st \<and> answers st' = answers st \<and> asked st \<le> asked st'"

definition has_memory :: "mp \<Rightarrow> bool" where
  "has_memory st \<longleftrightarrow> (\<forall>i \<ge> asked st. answers st i \<noteq> 0)"

lemma kept_refl [simp]: "kept own st st" by (simp add: kept_def)

lemma kept_trans: "kept own st st1 \<Longrightarrow> kept own st1 st2 \<Longrightarrow> kept own st st2"
  by (auto simp: kept_def)

lemma kept_mono: "kept own st st' \<Longrightarrow> own' \<subseteq> own \<Longrightarrow> kept own' st st'"
  by (auto simp: kept_def)

lemma kept_memory: "kept own st st' \<Longrightarrow> has_memory st \<Longrightarrow> has_memory st'"
  by (simp add: kept_def has_memory_def)

lemma kept_get: "kept own st st' \<Longrightarrow> q \<in> own \<Longrightarrow> bigs st' q = bigs st q"
  by (simp add: kept_def)

lemma kept_put: "p \<notin> own \<Longrightarrow> kept own st (put_big p b st)"
  by (auto simp: kept_def put_big_def)

lemma put_big_get [simp]: "bigs (put_big p b st) q = (if q = p then Some b else bigs st q)"
  by (simp add: put_big_def)

lemma put_big_other [simp]: "freelist (put_big p b st) = freelist st" "p5s (put_big p b st) = p5s st"
  "answers (put_big p b st) = answers st" "asked (put_big p b st) = asked st" "dom (bigs (put_big p b st)) = insert p (dom (bigs st))"
  by (auto simp: put_big_def)

lemma chain_cong: "chain B p qs \<Longrightarrow> (\<And>q. q \<in> set qs \<Longrightarrow> B' q = B q) \<Longrightarrow> chain B' p qs"
  by (induction qs arbitrary: p) (auto split: option.splits)

lemma mp_okD:
  assumes "mp_ok own st"
  shows "p \<in> own \<Longrightarrow> \<exists>b. bigs st p = Some b" and "bigs st p = Some b \<Longrightarrow> p \<noteq> 0 \<and> big_ok b"
    and "own \<noteq> {} \<Longrightarrow> \<exists>fl F. freelist st = Some fl \<and> free_ok own (bigs st) fl F"
  using assms by (auto simp: mp_ok_def split: option.splits)

lemma free_ok_cong:
  assumes "free_ok own B fl F" "\<And>k p. k \<le> 32 \<Longrightarrow> p \<in> set (F k) \<Longrightarrow> B' p = B p"
    "\<And>k p. k \<le> 32 \<Longrightarrow> p \<in> set (F k) \<Longrightarrow> p \<notin> own'"
  shows "free_ok own' B' fl F"
  using assms chain_cong [of B _ _ B'] by (fastforce simp: free_ok_def)

lemma free_okD:
  assumes "free_ok own B fl F" "i \<le> 32" "q \<in> set (F i)"
  shows "q \<notin> own" and "\<exists>b. B q = Some b \<and> big_k b = i"
  using assms by (auto simp: free_ok_def)

text \<open>A number in use may be written.\<close>

lemma mp_ok_put:
  assumes ok: "mp_ok own st" and p: "p \<in> own" and b: "big_ok b"
  shows "mp_ok own (put_big p b st)"
proof -
  have "\<exists>fl F. freelist st = Some fl \<and> free_ok own (bigs st) fl F" using mp_okD(3) [OF ok] p by blast
  then obtain fl F where f: "freelist st = Some fl" "free_ok own (bigs st) fl F" by blast
  have "free_ok own (bigs (put_big p b st)) fl F"
    by (rule free_ok_cong [OF f(2)]) (use f(2) p in \<open>auto simp: free_ok_def\<close>)
  moreover have "p \<in> dom (bigs st)" "p \<noteq> 0" using ok p by (auto simp: mp_ok_def)
  ultimately show ?thesis using ok b f(1) by (auto simp: mp_ok_def)
qed

section \<open>Allocation\<close>

lemma room_29: "k \<le> 29 \<Longrightarrow> room k = 2 ^ k"
proof -
  assume "k \<le> 29"
  then have "(2 :: nat) ^ k \<le> 2 ^ 29" by (intro power_increasing) auto
  moreover obtain n where n: "(2 :: nat) ^ k = Suc n" by (cases "(2 :: nat) ^ k") auto
  ultimately show ?thesis unfolding room_def n by simp
qed

lemma calloc_r_ok:
  assumes "mp_ok own st" "calloc_r st = (a, st1)"
  shows "mp_ok own st1 \<and> kept own st st1 \<and> bigs st1 = bigs st \<and> freelist st1 = freelist st \<and> a \<notin> dom (bigs st) \<and>
    (a \<noteq> 0 \<longrightarrow> (\<forall>i \<ge> asked st1. answers st1 i \<noteq> a)) \<and> (a = 0 \<longrightarrow> \<not> has_memory st)"
proof -
  have e: "a = answers st (asked st)" "st1 = st\<lparr>asked := Suc (asked st)\<rparr>" using assms(2) by (simp_all add: calloc_r_def)
  have "answers st i \<noteq> a" if "a \<noteq> 0" "Suc (asked st) \<le> i" for i
    using assms(1) that unfolding mp_ok_def e(1) by (metis Suc_le_lessD order_refl)
  then show ?thesis using assms(1) by (auto simp: e mp_ok_def kept_def has_memory_def split: option.splits dest: Suc_leD)
qed

text \<open>Taking a number off the list of the free ones of its size.\<close>

lemma take_free:
  assumes ok: "mp_ok own st" and fl: "freelist st = Some fl" and k: "k \<le> 29" and p: "fl k \<noteq> 0"
  shows "\<exists>rv. bigs st (fl k) = Some rv \<and> big_k rv = k \<and> fl k \<notin> own \<and>
    mp_ok (insert (fl k) own) (put_big (fl k) (rv\<lparr>sign := 0, wds := 0\<rparr>) (st\<lparr>freelist := Some (fl(k := link rv))\<rparr>))"
proof -
  obtain F where F: "free_ok own (bigs st) fl F" using ok fl by (auto simp: mp_ok_def)
  have Fk: "chain (bigs st) (fl k) (F k)" "distinct (F k)"
    "\<And>i q. i \<le> 32 \<Longrightarrow> q \<in> set (F i) \<Longrightarrow> q \<notin> own \<and> (\<exists>b. bigs st q = Some b \<and> big_k b = i)"
    using F k by (auto simp: free_ok_def)
  obtain qs rv where qs: "F k = fl k # qs" "bigs st (fl k) = Some rv" "chain (bigs st) (link rv) qs"
    using Fk(1) p by (cases "F k") (auto split: option.splits)
  have rv: "big_k rv = k" "fl k \<notin> own" "big_ok rv" using Fk(3) [of k "fl k"] k qs ok by (auto simp: mp_ok_def)
  have sub: "set ((F(k := qs)) i) \<subseteq> set (F i)" for i using qs(1) by auto
  have other: "q \<noteq> fl k" if "i \<le> 32" "q \<in> set ((F(k := qs)) i)" for i q
    using that Fk(2) Fk(3) [of i q] qs(1,2) rv(1) sub [of i] by (cases "i = k") auto
  have "free_ok own (bigs st) (fl(k := link rv)) (F(k := qs))" using F qs by (auto simp: free_ok_def)
  then have "free_ok (insert (fl k) own) ((bigs st)(fl k \<mapsto> rv\<lparr>sign := 0, wds := 0\<rparr>)) (fl(k := link rv)) (F(k := qs))"
  proof (rule free_ok_cong)
    fix i q assume i: "i \<le> 32" "q \<in> set ((F(k := qs)) i)"
    then have "q \<noteq> fl k" "q \<notin> own" using other Fk(3) sub by blast+
    then show "((bigs st)(fl k \<mapsto> rv\<lparr>sign := 0, wds := 0\<rparr>)) q = bigs st q" "q \<notin> insert (fl k) own" by simp_all
  qed
  moreover have "big_ok (rv\<lparr>sign := 0, wds := 0\<rparr>)" using rv(3) by (simp add: big_ok_def)
  moreover have "fl k \<in> dom (bigs st)" using qs(2) by auto
  ultimately show ?thesis using ok qs(2) rv p by (auto simp: mp_ok_def put_big_def)
qed

text \<open>A new number.\<close>

lemma new_ok:
  assumes ok: "mp_ok own st" and fl: "freelist st = Some fl" and k: "k \<le> 29"
    and p: "p \<noteq> 0" "p \<notin> dom (bigs st)" "\<forall>i \<ge> asked st. answers st i \<noteq> p"
    and b: "big_ok b"
  shows "mp_ok (insert p own) (put_big p b st) \<and> p \<notin> own"
proof -
  obtain F where F: "free_ok own (bigs st) fl F" using ok fl by (auto simp: mp_ok_def)
  have "free_ok (insert p own) (bigs (put_big p b st)) fl F"
  proof (rule free_ok_cong [OF F])
    fix i q assume "i \<le> 32" "q \<in> set (F i)"
    then have "q \<notin> own" "q \<noteq> p" using free_okD [OF F] p(2) by blast+
    then show "bigs (put_big p b st) q = bigs st q" "q \<notin> insert p own" by simp_all
  qed
  then show ?thesis using ok fl p b by (auto simp: mp_ok_def)
qed

lemma Balloc_ok:
  assumes ok: "mp_ok own st" and k: "k \<le> 29"
  shows "\<exists>p st'. Balloc k st = Some (p, st') \<and> kept own st st' \<and>
    (if p = 0 then mp_ok own st' \<and> \<not> has_memory st
     else p \<notin> own \<and> mp_ok (insert p own) st' \<and> (\<exists>b. bigs st' p = Some b \<and> big_k b = k \<and> sign b = 0 \<and> wds b = 0))"
proof -
  define st1 where "st1 = (case freelist st of Some _ \<Rightarrow> st
      | None \<Rightarrow> let (a, s) = calloc_r st in if a = 0 then s else s\<lparr>freelist := Some (\<lambda>_. 0)\<rparr>)"
  have st1: "mp_ok own st1" "kept own st st1" "freelist st1 = None \<longrightarrow> \<not> has_memory st"
  proof -
    obtain a s where c: "calloc_r st = (a, s)" by fastforce
    have "mp_ok own st1 \<and> kept own st st1 \<and> (freelist st1 = None \<longrightarrow> \<not> has_memory st)"
    proof (cases "freelist st")
      case None
      have "free_ok {} (bigs s) (\<lambda>_. 0) (\<lambda>_. [])" by (simp add: free_ok_def)
      then show ?thesis using calloc_r_ok [OF ok c] None c
        by (auto simp: st1_def mp_ok_def kept_def)
    next
      case (Some fl)
      then show ?thesis using ok by (simp add: st1_def)
    qed
    then show "mp_ok own st1" "kept own st st1" "freelist st1 = None \<longrightarrow> \<not> has_memory st" by blast+
  qed
  show ?thesis
  proof (cases "freelist st1")
    case None
    then show ?thesis using st1 unfolding Balloc_def Let_def st1_def [symmetric, unfolded Let_def] by simp
  next
    case (Some fl)
    show ?thesis
    proof (cases "fl k = 0")
      case False
      from take_free [OF st1(1) Some k False] obtain rv where rv: "bigs st1 (fl k) = Some rv" "big_k rv = k" "fl k \<notin> own"
        "mp_ok (insert (fl k) own) (put_big (fl k) (rv\<lparr>sign := 0, wds := 0\<rparr>) (st1\<lparr>freelist := Some (fl(k := link rv))\<rparr>))" by blast
      have "kept own st1 (put_big (fl k) (rv\<lparr>sign := 0, wds := 0\<rparr>) (st1\<lparr>freelist := Some (fl(k := link rv))\<rparr>))"
        using rv(3) by (auto simp: kept_def put_big_def)
      then have kept: "kept own st (put_big (fl k) (rv\<lparr>sign := 0, wds := 0\<rparr>) (st1\<lparr>freelist := Some (fl(k := link rv))\<rparr>))"
        by (rule kept_trans [OF st1(2)])
      have "Balloc k st = Some (fl k, put_big (fl k) (rv\<lparr>sign := 0, wds := 0\<rparr>) (st1\<lparr>freelist := Some (fl(k := link rv))\<rparr>))"
        unfolding Balloc_def Let_def st1_def [symmetric, unfolded Let_def] using Some False k rv(1) by simp
      then show ?thesis using False rv(2-4) kept by auto
    next
      case True
      obtain a st2 where c: "calloc_r st1 = (a, st2)" by fastforce
      note c' = calloc_r_ok [OF st1(1) c]
      let ?b = "\<lparr>link = 0, big_k = k, maxwds = 2 ^ k, sign = 0, wds = 0, words = replicate (2 ^ k) 0\<rparr>"
      have B: "Balloc k st = (if a = 0 then Some (0, st2) else Some (a, put_big a ?b st2))"
        unfolding Balloc_def Let_def st1_def [symmetric, unfolded Let_def] using Some True k c by (simp add: room_29)
      show ?thesis
      proof (cases "a = 0")
        case True
        then have "\<not> has_memory st" using c' kept_memory [OF st1(2)] by blast
        then show ?thesis using B True c' kept_trans [OF st1(2)] by simp
      next
        case False
        have "mp_ok (insert a own) (put_big a ?b st2) \<and> a \<notin> own"
          by (rule new_ok) (use c' Some k False in \<open>auto simp: big_ok_def\<close>)
        moreover from this have "kept own st (put_big a ?b st2)"
          using kept_trans [OF st1(2)] c' kept_trans [OF _ kept_put] by blast
        ultimately show ?thesis using B False by simp
      qed
    qed
  qed
qed

lemma Bfree_ok:
  assumes ok: "mp_ok own st" and v: "v \<in> own"
  shows "\<exists>st'. Bfree v st = Some st' \<and> kept (own - {v}) st st' \<and> mp_ok (own - {v}) st'"
proof -
  have "\<exists>fl F. freelist st = Some fl \<and> free_ok own (bigs st) fl F" using mp_okD(3) [OF ok] v by blast
  then obtain fl F where fl: "freelist st = Some fl" and F: "free_ok own (bigs st) fl F" by blast
  obtain b where b: "bigs st v = Some b" using mp_okD(1) [OF ok v] by blast
  have v0: "v \<noteq> 0" and bok: "big_ok b" using mp_okD(2) [OF ok b] by simp_all
  have k: "big_k b \<le> 29" using bok by (simp add: big_ok_def)
  let ?b = "b\<lparr>link := fl (big_k b)\<rparr>"
  let ?B = "(bigs st)(v \<mapsto> ?b)"
  let ?F = "F(big_k b := v # F (big_k b))"
  have F1: "free_ok (own - {v}) ?B fl F"
    by (rule free_ok_cong [OF F]) (use free_okD(1) [OF F] v in \<open>auto\<close>)
  have "v \<notin> set (F i)" if "i \<le> 32" for i using free_okD(1) [OF F that] v by blast
  moreover have "p \<notin> own" if "p \<in> set (F (big_k b))" for p using free_okD(1) [OF F _ that] k by simp
  ultimately have "free_ok (own - {v}) ?B (fl(big_k b := v)) ?F"
    using F1 k v0 by (auto simp: free_ok_def)
  moreover have "v \<in> dom (bigs st)" "big_ok ?b" using b bok by (auto simp: big_ok_def)
  ultimately have "mp_ok (own - {v}) (put_big v ?b (st\<lparr>freelist := Some (fl(big_k b := v))\<rparr>))"
    using ok v0 by (auto simp: mp_ok_def put_big_def)
  moreover have "kept (own - {v}) st (put_big v ?b (st\<lparr>freelist := Some (fl(big_k b := v))\<rparr>))"
    by (simp add: kept_def put_big_def)
  moreover have "Bfree v st = Some (put_big v ?b (st\<lparr>freelist := Some (fl(big_k b := v))\<rparr>))"
    using v0 b fl k by (simp add: Bfree_def)
  ultimately show ?thesis by blast
qed

section \<open>The contract of the store\<close>

text \<open>
  What the operations rely on: a new number is none of those in use, freeing one leaves the others, and
  both keep the store well-formed. An operation that replaces a number by a new one takes the new one,
  works on it, and then frees the old one.
\<close>

locale number_pool =
  fixes alloc :: "nat \<Rightarrow> 's \<Rightarrow> (nat \<times> 's) option"
    and release :: "nat \<Rightarrow> 's \<Rightarrow> 's option"
    and ok :: "nat set \<Rightarrow> 's \<Rightarrow> bool"
    and same :: "nat set \<Rightarrow> 's \<Rightarrow> 's \<Rightarrow> bool"
    and memory :: "'s \<Rightarrow> bool"
    and blank :: "nat \<Rightarrow> nat \<Rightarrow> 's \<Rightarrow> bool"
  assumes alloc: "ok own st \<Longrightarrow> k \<le> 29 \<Longrightarrow> memory st \<Longrightarrow>
      \<exists>p st'. alloc k st = Some (p, st') \<and> p \<noteq> 0 \<and> p \<notin> own \<and> ok (insert p own) st' \<and> same own st st' \<and> blank k p st'"
    and release: "ok own st \<Longrightarrow> v \<in> own \<Longrightarrow> \<exists>st'. release v st = Some st' \<and> ok (own - {v}) st' \<and> same (own - {v}) st st'"
    and same_trans: "same own st st1 \<Longrightarrow> same own st1 st2 \<Longrightarrow> same own st st2"
    and same_mono: "same own st st' \<Longrightarrow> own' \<subseteq> own \<Longrightarrow> same own' st st'"
    and same_memory: "same own st st' \<Longrightarrow> memory st \<Longrightarrow> memory st'"
begin

lemma replace_number:
  assumes "ok own st" "v \<in> own" "p \<notin> own" "same own st st1" "ok (insert p own) st1" "memory st"
  shows "\<exists>st2. release v st1 = Some st2 \<and> ok (insert p (own - {v})) st2 \<and> same (own - {v}) st st2 \<and>
    same (insert p (own - {v})) st1 st2 \<and> memory st2"
proof -
  have e: "insert p own - {v} = insert p (own - {v})" using assms(2,3) by blast
  obtain st2 where st2: "release v st1 = Some st2" "ok (insert p (own - {v})) st2" "same (insert p (own - {v})) st1 st2"
    using release [OF assms(5), of v] assms(2) unfolding e by blast
  have "same (own - {v}) st st2"
    by (rule same_trans [OF same_mono [OF assms(4)] same_mono [OF st2(3)]]) auto
  then show ?thesis using st2 same_memory assms(6) by blast
qed

end

definition blank_big :: "nat \<Rightarrow> nat \<Rightarrow> mp \<Rightarrow> bool" where
  "blank_big k p st \<longleftrightarrow> (\<exists>b. bigs st p = Some b \<and> big_k b = k \<and> sign b = 0 \<and> wds b = 0)"

interpretation pool: number_pool Balloc Bfree mp_ok kept has_memory blank_big
proof unfold_locales
  show "\<exists>p st'. Balloc k st = Some (p, st') \<and> p \<noteq> 0 \<and> p \<notin> own \<and> mp_ok (insert p own) st' \<and> kept own st st' \<and> blank_big k p st'"
    if "mp_ok own st" "k \<le> 29" "has_memory st" for own st k
    using Balloc_ok [OF that(1,2)] that(3) unfolding blank_big_def by (metis (no_types))
  show "\<exists>st'. Bfree v st = Some st' \<and> mp_ok (own - {v}) st' \<and> kept (own - {v}) st st'"
    if "mp_ok own st" "v \<in> own" for own st v using Bfree_ok [OF that] by blast
qed (fact kept_trans kept_mono kept_memory)+

section \<open>Properties\<close>

text \<open>C25: Handing out numbers: \<open>Balloc\<close> never answers a number in use; it answers \<open>NULL\<close> only when \<open>_calloc_r\<close>
  does, and otherwise a number with room for \<open>2 ^ k\<close> words. After \<open>Bfree\<close> the numbers in use are those from
  before, and the next \<open>Balloc\<close> of this size gives the same number again without asking for memory.\<close>

theorem Balloc_correct:
  assumes "mp_ok own st" and "k \<le> 29"
  shows "\<exists>p st1. Balloc k st = Some (p, st1) \<and> kept own st st1 \<and>
    (if p = 0 then mp_ok own st1 \<and> \<not> has_memory st
     else p \<notin> own \<and> mp_ok (insert p own) st1 \<and> (\<exists>b. bigs st1 p = Some b \<and> length (words b) = 2 ^ k \<and> sign b = 0 \<and> wds b = 0) \<and>
       (\<exists>st2 st3. Bfree p st1 = Some st2 \<and> mp_ok own st2 \<and> kept own st st2 \<and> Balloc k st2 = Some (p, st3) \<and> asked st3 = asked st1))"
proof -
  obtain p st1 where a: "Balloc k st = Some (p, st1)" "kept own st st1"
      "if p = 0 then mp_ok own st1 \<and> \<not> has_memory st
       else p \<notin> own \<and> mp_ok (insert p own) st1 \<and> (\<exists>b. bigs st1 p = Some b \<and> big_k b = k \<and> sign b = 0 \<and> wds b = 0)"
    using Balloc_ok [OF assms] by blast
  show ?thesis
  proof (cases "p = 0")
    case False
    then obtain b where p: "p \<notin> own" "mp_ok (insert p own) st1" "bigs st1 p = Some b" "big_k b = k" "sign b = 0" "wds b = 0" using a(3) by auto
    obtain st2 where r: "Bfree p st1 = Some st2" "mp_ok own st2" "kept own st1 st2"
      using pool.release [OF p(2), of p] p(1) by auto
    obtain fl where fl: "freelist st1 = Some fl" using mp_okD(3) [OF p(2)] by blast
    have "st2 = put_big p (b\<lparr>link := fl k\<rparr>) (st1\<lparr>freelist := Some (fl(k := p))\<rparr>)"
      using r(1) False p(3,4) fl assms(2) by (simp add: Bfree_def)
    then have "\<exists>st3. Balloc k st2 = Some (p, st3) \<and> asked st3 = asked st1" using False assms(2) by (simp add: Balloc_def Let_def)
    moreover have "length (words b) = 2 ^ k" using mp_okD(2) [OF p(2,3)] p(4) by (simp add: big_ok_def)
    ultimately show ?thesis using a(1,2) p False r kept_trans [OF a(2) r(3)] by auto
  qed (use a in auto)
qed

text \<open>The largest size: \<open>Balloc\<close> for \<open>2 ^ 30\<close> words asks for no memory behind the header, because the size of
  32 bits wraps around, and makes a number that claims \<open>2 ^ 30\<close> words; for every smaller size the memory it asks
  for is exactly that of the \<open>2 ^ k\<close> words.\<close>

theorem Balloc_wraps:
  assumes "freelist st = Some fl" "fl k = 0" "k \<le> 30" "answers st (asked st) = a" "a \<noteq> 0"
  shows "\<exists>b st1. Balloc k st = Some (a, st1) \<and> bigs st1 a = Some b \<and> maxwds b = 2 ^ k \<and>
    length (words b) = (if k = 30 then 0 else 2 ^ k)"
proof -
  have "room k = (if k = 30 then 0 else 2 ^ k)" using room_29 [of k] assms(3) by (auto simp: room_def)
  then show ?thesis using assms by (simp add: Balloc_def Let_def calloc_r_def)
qed

text \<open>A number of the size 0 in use, and memory for more.\<close>

definition sample_big :: bigint where
  "sample_big = \<lparr>link = 0, big_k = 0, maxwds = 1, sign = 0, wds = 1, words = [7]\<rparr>"

definition sample_store :: mp where
  "sample_store = \<lparr>bigs = [8 \<mapsto> sample_big],
     freelist = Some (\<lambda>_. 0), p5s = 0, answers = \<lambda>i. 16 + 8 * i, asked = 0\<rparr>"

lemma sample_store_ok: "mp_ok {8} sample_store" "has_memory sample_store"
  by (auto simp: mp_ok_def sample_store_def sample_big_def big_ok_def free_ok_def has_memory_def intro!: exI [of _ "\<lambda>_. []"] split: if_splits)

lemma sample_store_get: "bigs sample_store 8 = Some sample_big" "big_k sample_big = 0" "wds sample_big = 1"
  by (simp_all add: sample_store_def sample_big_def)

theorem Balloc_correct_witness: "\<exists>p st1. Balloc 2 sample_store = Some (p, st1) \<and> p \<noteq> 0 \<and> p \<noteq> 8 \<and> mp_ok {p, 8} st1"
  using Balloc_correct [OF sample_store_ok(1), of 2] sample_store_ok(2) by (auto split: if_splits)

theorem Balloc_wraps_witness: "\<exists>b st1. Balloc 30 sample_store = Some (16, st1) \<and> bigs st1 16 = Some b \<and> maxwds b = 2 ^ 30 \<and> words b = []"
  using Balloc_wraps [of sample_store "\<lambda>_. 0" 30 16] by (auto simp: sample_store_def)

end
