(* ===== verification/BigNum.thy ===== *)
theory BigNum
  imports BigPool
begin

text \<open>
  The operations of \<open>stdlib/mprec.c\<close> on numbers: multiplication and addition of small numbers, products,
  shifts, comparison and differences. Each one is
  shown to compute the operation on the natural number, to keep the store well-formed and to leave the
  other numbers alone, as long as \<open>_calloc_r\<close> has memory.
\<close>

section \<open>Operations\<close>

definition multadd :: "nat \<Rightarrow> u32 \<Rightarrow> u32 \<Rightarrow> mp \<Rightarrow> (nat \<times> mp) option" where
  "multadd b m a st =
     do { v \<leftarrow> bigs st b;
          let n = max 1 (wds v);
          if length (words v) < n then None
          else
            let (xs, c) = multadd_loop (take n (words v)) m a;
                st1 = put_big b (v\<lparr>words := xs @ drop n (words v)\<rparr>) st
            in if c = 0 then Some (b, st1)
               else
                 do { (b', st2) \<leftarrow>
                        (if maxwds v \<le> wds v
                         then do { (b1, s) \<leftarrow> Balloc (Suc (big_k v)) st1; s1 \<leftarrow> Bcopy b1 b s; s2 \<leftarrow> Bfree b s1; Some (b1, s2) }
                         else Some (b, st1));
                      w \<leftarrow> bigs st2 b';
                      if wds v < length (words w)
                      then Some (b', put_big b' (w\<lparr>words := (words w)[wds v := c], wds := Suc (wds v)\<rparr>) st2)
                      else None } }"

definition i2b :: "u32 \<Rightarrow> mp \<Rightarrow> (nat \<times> mp) option" where
  "i2b i st =
     do { (b, st1) \<leftarrow> Balloc 1 st; v \<leftarrow> bigs st1 b;
          if length (words v) = 0 then None
          else Some (b, put_big b (v\<lparr>words := (words v)[0 := i], wds := 1\<rparr>) st1) }"

definition mult :: "nat \<Rightarrow> nat \<Rightarrow> mp \<Rightarrow> (nat \<times> mp) option" where
  "mult a0 b0 st =
     do { v1 \<leftarrow> bigs st a0; v2 \<leftarrow> bigs st b0;
          let (a, b) = (if wds v1 < wds v2 then (v2, v1) else (v1, v2));
          let wc = wds a + wds b;
          (c, st1) \<leftarrow> Balloc (if maxwds a < wc then Suc (big_k a) else big_k a) st;
          vc \<leftarrow> bigs st1 c;
          if length (words vc) < wc \<or> length (words a) < wds a \<or> length (words b) < wds b then None
          else
            let x = mult_rows (take (wds a) (words a)) (take (wds b) (words b)) (replicate wc 0) 0
            in Some (c, put_big c (vc\<lparr>words := x @ drop wc (words vc), wds := trim_words x wc\<rparr>) st1) }"

text \<open>\<open>for (i = b->_maxwds; n1 > i; i <<= 1) k1++\<close>\<close>

partial_function (option) lshift_k :: "nat \<Rightarrow> nat \<Rightarrow> nat \<Rightarrow> nat option" where
  "lshift_k n1 i k1 = (if i < n1 then lshift_k n1 (2 * i) (Suc k1) else Some k1)"

definition lshift :: "nat \<Rightarrow> nat \<Rightarrow> mp \<Rightarrow> (nat \<times> mp) option" where
  "lshift b k st =
     do { v \<leftarrow> bigs st b;
          let n = k div 32;
          let n1 = n + wds v + 1;
          k1 \<leftarrow> lshift_k n1 (maxwds v) (big_k v);
          (b1, st1) \<leftarrow> Balloc k1 st;
          w \<leftarrow> bigs st1 b1;
          let x = take (max 1 (wds v)) (words v);
          let x1 = replicate n 0 @ (if k mod 32 \<noteq> 0 then lshift_loop (k mod 32) x 0 else x);
          let n2 = (if k mod 32 \<noteq> 0 \<and> last x1 \<noteq> 0 then Suc n1 else n1);
          if length (words v) < max 1 (wds v) \<or> length (words w) < length x1 then None
          else
            do { st2 \<leftarrow> Bfree b (put_big b1 (w\<lparr>words := x1 @ drop (length x1) (words w), wds := n2 - 1\<rparr>) st1);
                 Some (b1, st2) } }"

definition cmp :: "bigint \<Rightarrow> bigint \<Rightarrow> int option" where
  "cmp a b =
     (if wds a \<noteq> wds b then Some (int (wds a) - int (wds b))
      else if wds b = 0 \<or> length (words a) < wds a \<or> length (words b) < wds b then None
      else Some (cmp_loop (words a) (words b) (wds b)))"

text \<open>\<open>while (!*--xc) wa--\<close>\<close>

fun trim_down :: "u32 list \<Rightarrow> nat \<Rightarrow> nat option" where
  "trim_down c 0 = None"
| "trim_down c (Suc wa) = (if c ! wa = 0 then trim_down c wa else Some (Suc wa))"

definition diff :: "nat \<Rightarrow> nat \<Rightarrow> mp \<Rightarrow> (nat \<times> mp) option" where
  "diff a0 b0 st =
     do { v1 \<leftarrow> bigs st a0; v2 \<leftarrow> bigs st b0; i \<leftarrow> cmp v1 v2;
          if i = 0 then
            do { (c, st1) \<leftarrow> Balloc 0 st; vc \<leftarrow> bigs st1 c;
                 if length (words vc) = 0 then None
                 else Some (c, put_big c (vc\<lparr>wds := 1, words := (words vc)[0 := 0]\<rparr>) st1) }
          else
            let (a, b, i1) = (if i < 0 then (v2, v1, 1) else (v1, v2, 0))
            in do { (c, st1) \<leftarrow> Balloc (big_k a) st; vc \<leftarrow> bigs st1 c;
                    if length (words a) < wds a \<or> wds b = 0 \<or> length (words b) < wds b \<or> length (words vc) < wds a then None
                    else
                      let x = fst (diff_loop (take (wds a) (words a)) (take (wds b) (words b)) 0)
                      in do { wa \<leftarrow> trim_down x (wds a);
                              Some (c, put_big c (vc\<lparr>sign := i1, words := x @ drop (wds a) (words vc), wds := wa\<rparr>) st1) } } }"

section \<open>Numbers\<close>

definition big_val :: "bigint \<Rightarrow> nat" where
  "big_val b = val (take (wds b) (words b))"

text \<open>No leading zero word, as \<open>cmp\<close> requires.\<close>

definition big_norm :: "bigint \<Rightarrow> bool" where
  "big_norm b \<longleftrightarrow> 0 < wds b \<and> (1 < wds b \<longrightarrow> words b ! (wds b - 1) \<noteq> 0)"

text \<open>The call returns a number that satisfies \<open>P\<close>, and the numbers of \<open>own\<close> are as before.\<close>

definition makes :: "nat set \<Rightarrow> mp \<Rightarrow> (nat \<times> mp) option \<Rightarrow> (bigint \<Rightarrow> bool) \<Rightarrow> bool" where
  "makes own st r P \<longleftrightarrow> (\<exists>p st' w. r = Some (p, st') \<and> p \<notin> own \<and> mp_ok (insert p own) st' \<and> kept own st st' \<and>
     bigs st' p = Some w \<and> P w)"

lemma big_val_less:
  assumes "big_ok b" shows "big_val b < 4294967296 ^ wds b"
  using val_less [of "take (wds b) (words b)"] assms by (simp add: big_val_def big_ok_def min_absorb2)

lemma big_norm_iff:
  assumes "big_ok b"
  shows "big_norm b \<longleftrightarrow> 0 < wds b \<and> (1 < wds b \<longrightarrow> 4294967296 ^ (wds b - 1) \<le> big_val b)"
proof (cases "wds b")
  case (Suc n)
  then have n: "n < length (words b)" using assms by (simp add: big_ok_def)
  then have v: "big_val b = val (take n (words b)) + 4294967296 ^ n * unat (words b ! n)"
    by (simp add: big_val_def Suc take_Suc_conv_app_nth val_append min_absorb2)
  have "val (take n (words b)) < 4294967296 ^ n" using val_less [of "take n (words b)"] n by simp
  then have "words b ! n \<noteq> 0 \<longleftrightarrow> 4294967296 ^ n \<le> big_val b"
    using v by (cases "unat (words b ! n)") (auto simp: unat_eq_0)
  then show ?thesis by (simp add: big_norm_def Suc)
qed (simp add: big_norm_def)

section \<open>Comparison\<close>

lemma cmp_ok:
  assumes ok: "big_ok a" "big_ok b" and norm: "big_norm a" "big_norm b"
  shows "\<exists>i. cmp a b = Some i \<and> (i < 0 \<longleftrightarrow> big_val a < big_val b) \<and> (i = 0 \<longleftrightarrow> big_val a = big_val b)"
proof (cases "wds a = wds b")
  case True
  have "cmp_loop (words a) (words b) (wds b) =
      (if big_val a < big_val b then - 1 else if big_val a = big_val b then 0 else 1)"
    using cmp_loop [of "wds b" "words a" "words b"] ok True by (simp add: big_val_def big_ok_def)
  then show ?thesis using True ok norm(2) by (auto simp: cmp_def big_norm_def big_ok_def)
next
  case False
  have less: "big_val x < big_val y" if "wds x < wds y" "big_ok x" "big_ok y" "big_norm y" "big_norm x" for x y
  proof -
    have "(4294967296 :: nat) ^ wds x \<le> 4294967296 ^ (wds y - 1)" using that(1) by (intro power_increasing) auto
    moreover have "4294967296 ^ (wds y - 1) \<le> big_val y" using big_norm_iff [OF that(3)] that by (auto simp: big_norm_def)
    ultimately show ?thesis using big_val_less [OF that(2)] by linarith
  qed
  from False consider "wds a < wds b" | "wds b < wds a" by linarith
  then show ?thesis
  proof cases
    case 1
    then show ?thesis using less [OF 1 ok norm(2,1)] by (simp add: cmp_def)
  next
    case 2
    then show ?thesis using less [OF 2 ok(2,1) norm] by (simp add: cmp_def)
  qed
qed

section \<open>Products\<close>

lemma alloc_big:
  assumes "mp_ok own st" "k \<le> 29" "has_memory st"
  obtains p st' b where "Balloc k st = Some (p, st')" "p \<notin> own" "mp_ok (insert p own) st'" "kept own st st'" "has_memory st'"
    "bigs st' p = Some b" "big_k b = k" "sign b = 0" "length (words b) = 2 ^ k" "maxwds b = 2 ^ k"
proof -
  obtain p st' where p: "Balloc k st = Some (p, st')" "p \<notin> own" "mp_ok (insert p own) st'" "kept own st st'" "blank_big k p st'"
    using pool.alloc [OF assms] by blast
  then obtain b where b: "bigs st' p = Some b" "big_k b = k" "sign b = 0" by (auto simp: blank_big_def)
  have "big_ok b" using mp_okD(2) [OF p(3) b(1)] by simp
  then show ?thesis using that [OF p(1-4) kept_memory [OF p(4) assms(3)] b] b(2) by (simp add: big_ok_def)
qed

lemma makes_put:
  assumes "mp_ok (insert p own) st1" "kept own st st1" "p \<notin> own" "big_ok b" "P b"
  shows "makes own st (Some (p, put_big p b st1)) P"
proof -
  have "mp_ok (insert p own) (put_big p b st1)" by (rule mp_ok_put [OF assms(1)]) (use assms(4) in auto)
  moreover have "kept own st (put_big p b st1)" by (rule kept_trans [OF assms(2) kept_put [OF assms(3)]])
  ultimately show ?thesis using assms(3,5) by (auto simp: makes_def)
qed

lemma makes_mono: "makes own st r P \<Longrightarrow> (\<And>b. P b \<Longrightarrow> Q b) \<Longrightarrow> makes own st r Q"
  unfolding makes_def by blast

lemma big_okD: "big_ok b \<Longrightarrow> wds b \<le> length (words b)" "big_ok b \<Longrightarrow> length (words b) = maxwds b"
  "big_ok b \<Longrightarrow> maxwds b = 2 ^ big_k b" "big_ok b \<Longrightarrow> big_k b \<le> 29"
  by (simp_all add: big_ok_def)

text \<open>The room for a product: twice the size of the longer factor is enough.\<close>

lemma mult_words:
  assumes a: "big_ok a" and b: "big_ok b" and w: "wds b \<le> wds a"
  defines "wc \<equiv> wds a + wds b"
  defines "x \<equiv> mult_rows (take (wds a) (words a)) (take (wds b) (words b)) (replicate wc 0) 0"
  shows "val x = big_val a * big_val b" and "length x = wc" and "wc \<le> 2 ^ (if maxwds a < wc then Suc (big_k a) else big_k a)"
proof -
  have "val x = big_val a * big_val b \<and> length x = wc"
  proof (cases "wds a = 0")
    case True
    then show ?thesis using w by (simp add: x_def wc_def big_val_def)
  next
    case False
    then have "val x = val (replicate wc 0) + 4294967296 ^ 0 * (big_val a * big_val b) \<and> length x = length (replicate wc (0 :: u32))"
      unfolding x_def big_val_def
      by (intro mult_rows) (use big_okD(1) [OF a] big_okD(1) [OF b] in \<open>auto simp: wc_def\<close>)
    then show ?thesis by simp
  qed
  then show "val x = big_val a * big_val b" "length x = wc" by blast+
  show "wc \<le> 2 ^ (if maxwds a < wc then Suc (big_k a) else big_k a)"
    using a w by (auto simp: wc_def big_ok_def)
qed

lemma mult_ok:
  assumes ok: "mp_ok own st" and a: "a \<in> own" "bigs st a = Some va" and b: "b \<in> own" "bigs st b = Some vb"
    and mem: "has_memory st" and k: "big_k va \<le> 28" "big_k vb \<le> 28"
  shows "makes own st (mult a b st) (\<lambda>c. big_val c = big_val va * big_val vb \<and> sign c = 0 \<and>
    big_k c \<le> Suc (max (big_k va) (big_k vb)) \<and> (0 < big_val c \<longrightarrow> big_norm c))"
proof -
  obtain x y where xy: "(if wds va < wds vb then (vb, va) else (va, vb)) = (x, y)" by fastforce
  have bok: "big_ok va" "big_ok vb" using mp_okD(2) [OF ok a(2)] mp_okD(2) [OF ok b(2)] by simp_all
  have x: "big_ok x" "big_ok y" "wds y \<le> wds x" "big_val x * big_val y = big_val va * big_val vb"
    "big_k x \<le> max (big_k va) (big_k vb)" "big_k x \<le> 28"
    using xy bok k by (auto split: if_splits)
  define wc where "wc = wds x + wds y"
  define kk where "kk = (if maxwds x < wc then Suc (big_k x) else big_k x)"
  define m where "m = mult_rows (take (wds x) (words x)) (take (wds y) (words y)) (replicate wc 0) 0"
  have m: "val m = big_val x * big_val y" "length m = wc" "wc \<le> 2 ^ kk"
    using mult_words [OF x(1,2,3)] by (simp_all add: m_def wc_def kk_def)
  have kk: "kk \<le> 29" "kk \<le> Suc (max (big_k va) (big_k vb))" using x(5,6) by (auto simp: kk_def)
  obtain p st1 c where p: "Balloc kk st = Some (p, st1)" "p \<notin> own" "mp_ok (insert p own) st1" "kept own st st1" "has_memory st1"
    "bigs st1 p = Some c" "big_k c = kk" "sign c = 0" "length (words c) = 2 ^ kk" "maxwds c = 2 ^ kk"
    using alloc_big [OF ok kk(1) mem] by blast
  define r where "r = c\<lparr>words := m @ drop wc (words c), wds := trim_words m wc\<rparr>"
  have call: "mult a b st = Some (p, put_big p r st1)"
    using a(2) b(2) p m(3) big_okD(1) [OF x(1)] big_okD(1) [OF x(2)]
    by (simp add: mult_def xy Let_def r_def flip: m_def wc_def kk_def)
  have t: "val (take (trim_words m wc) m) = val m" "trim_words m wc \<le> wc"
    "0 < trim_words m wc \<Longrightarrow> m ! (trim_words m wc - 1) \<noteq> 0"
    using trim_words [of wc m] m(2) by simp_all
  have r: "big_ok r" "sign r = 0" "big_k r = kk" using p m t(2) kk(1) by (simp_all add: big_ok_def r_def)
  have v: "big_val r = big_val va * big_val vb"
    using t m x(4) by (simp add: big_val_def r_def)
  have "big_norm r" if "0 < big_val r"
  proof -
    have "0 < trim_words m wc" using that by (cases "trim_words m wc") (simp_all add: big_val_def r_def)
    then have "trim_words m wc - 1 < wc" using t(2) by linarith
    then show ?thesis using t m(2) \<open>0 < trim_words m wc\<close> by (simp add: big_norm_def r_def nth_append)
  qed
  then show ?thesis unfolding call using makes_put [OF p(3,4,2) r(1)] v r kk(2) by simp
qed

lemma i2b_ok:
  assumes "mp_ok own st" "has_memory st"
  shows "makes own st (i2b i st) (\<lambda>b. big_val b = unat i \<and> big_k b = 1 \<and> sign b = 0 \<and> big_norm b)"
proof -
  obtain p st1 c where p: "Balloc 1 st = Some (p, st1)" "p \<notin> own" "mp_ok (insert p own) st1" "kept own st st1" "has_memory st1"
    "bigs st1 p = Some c" "big_k c = 1" "sign c = 0" "length (words c) = 2 ^ 1" "maxwds c = 2 ^ 1"
    using alloc_big [OF assms(1) _ assms(2), of 1] by auto
  define r where "r = c\<lparr>words := (words c)[0 := i], wds := 1\<rparr>"
  have "words c \<noteq> []" using p(9) by auto
  then have call: "i2b i st = Some (p, put_big p r st1)" using p by (simp add: i2b_def r_def)
  have "big_val r = unat i" using p(9) by (cases "words c") (simp_all add: big_val_def r_def)
  moreover have "big_ok r" using p by (simp add: big_ok_def r_def)
  ultimately show ?thesis unfolding call using makes_put [OF p(3,4,2)] p by (simp add: r_def big_norm_def)
qed

section \<open>Multiplication and addition\<close>

lemma put_put [simp]: "put_big p b (put_big p b' st) = put_big p b st"
  by (simp add: put_big_def)

definition multadd_post :: "bigint \<Rightarrow> u32 \<Rightarrow> u32 \<Rightarrow> bigint \<Rightarrow> bool" where
  "multadd_post v m a w \<longleftrightarrow> big_val w = big_val v * unat m + unat a \<and> sign w = sign v \<and> 0 < wds w \<and>
     big_k w \<le> Suc (big_k v) \<and> (big_val w < 4294967296 ^ maxwds v \<longrightarrow> big_k w = big_k v) \<and>
     (0 < unat m \<and> big_norm v \<longrightarrow> big_norm w)"

text \<open>The result when there is a carry to store: one word more than before.\<close>

lemma multadd_carry:
  assumes x: "val xs + 4294967296 ^ wds v * unat c = big_val v * unat m + unat a" "length xs = wds v" "c \<noteq> 0"
    and w: "take (Suc (wds v)) (words w) = xs @ [c]" "wds w = Suc (wds v)" "sign w = sign v" "big_k w \<le> Suc (big_k v)"
    and k: "big_k w = big_k v \<or> maxwds v \<le> wds v"
  shows "multadd_post v m a w"
proof -
  have v: "big_val w = big_val v * unat m + unat a" using x w(1,2) by (simp add: big_val_def val_append)
  have "1 \<le> unat c" using x(3) by (simp add: Suc_le_eq unat_gt_0)
  then have "(4294967296 :: nat) ^ wds v * 1 \<le> 4294967296 ^ wds v * unat c" by (rule mult_le_mono2)
  then have "4294967296 ^ wds v \<le> big_val w" using v x(1) by linarith
  moreover have "(4294967296 :: nat) ^ maxwds v \<le> 4294967296 ^ wds v" if "maxwds v \<le> wds v"
    using that by (intro power_increasing) auto
  ultimately have "big_k w = big_k v" if "big_val w < 4294967296 ^ maxwds v" using k that by fastforce
  moreover have "words w ! wds v = c" using w(1) x(2) by (metis lessI nth_append_length nth_take)
  ultimately show ?thesis using v w(2-4) x(3) by (simp add: multadd_post_def big_norm_def)
qed

lemma multadd_ok:
  assumes ok: "mp_ok own st" and b: "b \<in> own" "bigs st b = Some v" and n: "0 < wds v"
    and m: "unat m < 65536" and a: "unat a < 65536" and mem: "has_memory st" and k: "big_k v \<le> 28"
  shows "makes (own - {b}) st (multadd b m a st) (multadd_post v m a)"
proof -
  have vok: "big_ok v" using mp_okD(2) [OF ok b(2)] by simp
  note len = big_okD [OF vok]
  obtain xs c where r: "multadd_loop (take (wds v) (words v)) m a = (xs, c)" by fastforce
  note loop = multadd_loop [OF m a r]
  have xs: "val xs + 4294967296 ^ wds v * unat c = big_val v * unat m + unat a" "length xs = wds v"
    using loop len(1) by (simp_all add: big_val_def min_absorb2)
  define v1 where "v1 = v\<lparr>words := xs @ drop (wds v) (words v)\<rparr>"
  have v1: "big_ok v1" "big_k v1 = big_k v" "wds v1 = wds v" "sign v1 = sign v" "length (words v1) = length (words v)"
    using vok xs(2) by (simp_all add: v1_def big_ok_def)
  have own: "insert b (own - {b}) = own" using b(1) by blast
  have ok1: "mp_ok own (put_big b v1 st)" by (rule mp_ok_put [OF ok b(1) v1(1)])
  have kept1: "kept (own - {b}) st (put_big b v1 st)" by (rule kept_put) simp
  have call: "multadd b m a st =
      (if c = 0 then Some (b, put_big b v1 st)
       else do { (b', st2) \<leftarrow>
                   (if maxwds v \<le> wds v
                    then do { (b1, s) \<leftarrow> Balloc (Suc (big_k v)) (put_big b v1 st); s1 \<leftarrow> Bcopy b1 b s; s2 \<leftarrow> Bfree b s1; Some (b1, s2) }
                    else Some (b, put_big b v1 st));
                 w \<leftarrow> bigs st2 b';
                 if wds v < length (words w)
                 then Some (b', put_big b' (w\<lparr>words := (words w)[wds v := c], wds := Suc (wds v)\<rparr>) st2)
                 else None })"
    using b(2) n len(1) r by (simp add: multadd_def v1_def max_absorb2 Let_def)
  show ?thesis
  proof (cases "c = 0")
    case True
    have e: "big_val v1 = big_val v * unat m + unat a" using xs True by (simp add: big_val_def v1_def)
    have "big_norm v1" if "0 < unat m" "big_norm v"
    proof -
      have "big_val v * 1 \<le> big_val v * unat m" using that(1) by (intro mult_le_mono2) simp
      then have "big_val v \<le> big_val v1" using e by linarith
      then show ?thesis using that(2) unfolding big_norm_iff [OF v1(1)] big_norm_iff [OF vok] v1(3) by linarith
    qed
    then have "multadd_post v m a v1" using e v1 n by (simp add: multadd_post_def)
    then have "makes (own - {b}) st (Some (b, put_big b v1 st)) (multadd_post v m a)"
      using makes_put [of b "own - {b}" st st v1] ok own v1(1) by simp
    then show ?thesis unfolding call using True by simp
  next
    case False
    have upd: "take (Suc (wds v)) ((xs @ ys)[wds v := c]) = xs @ [c]" if "ys \<noteq> []" for ys
      using that xs(2) by (cases ys) (simp_all add: list_update_append)
    show ?thesis
    proof (cases "maxwds v \<le> wds v")
      case no: False
      define w where "w = v1\<lparr>words := (words v1)[wds v := c], wds := Suc (wds v)\<rparr>"
      have "multadd b m a st = Some (b, put_big b w st)"
        unfolding call using False no len v1 by (simp add: w_def)
      moreover have "multadd_post v m a w"
        by (rule multadd_carry [OF xs False]) (use no len upd [of "drop (wds v) (words v)"] in \<open>simp_all add: w_def v1_def\<close>)
      moreover have "big_ok w" using v1 no len by (simp add: w_def big_ok_def v1_def)
      ultimately show ?thesis using makes_put [of b "own - {b}" st st w] ok own by simp
    next
      case full: True
      obtain b1 s w0 where b1: "Balloc (Suc (big_k v)) (put_big b v1 st) = Some (b1, s)" "b1 \<notin> own" "mp_ok (insert b1 own) s"
        "kept own (put_big b v1 st) s" "has_memory s" "bigs s b1 = Some w0" "big_k w0 = Suc (big_k v)"
        "length (words w0) = 2 ^ Suc (big_k v)" "maxwds w0 = 2 ^ Suc (big_k v)"
        by (rule alloc_big [OF ok1 _ kept_memory [OF kept1 mem], of "Suc (big_k v)"]) (use k in \<open>simp, blast\<close>)
      define w1 where "w1 = w0\<lparr>sign := sign v, wds := wds v, words := xs @ drop (wds v) (words w0)\<rparr>"
      have bs: "bigs s b = Some v1" using kept_get [OF b1(4) b(1)] by simp
      have room: "wds v < 2 ^ Suc (big_k v)" using full len by simp
      have copy: "Bcopy b1 b s = Some (put_big b1 w1 s)"
        using bs b1(6,8) v1 len(1) xs(2) room by (simp add: Bcopy_def w1_def v1_def)
      have w1: "big_ok w1" using b1(7-9) room xs(2) k by (simp add: w1_def big_ok_def)
      obtain s2 where s2: "Bfree b (put_big b1 w1 s) = Some s2" "mp_ok (insert b1 (own - {b})) s2"
        "kept (own - {b}) (put_big b v1 st) s2" "kept (insert b1 (own - {b})) (put_big b1 w1 s) s2"
        using pool.replace_number [OF ok1 b(1) b1(2) kept_trans [OF b1(4) kept_put [OF b1(2)]] mp_ok_put [OF b1(3) _ w1] kept_memory [OF kept1 mem]]
        by auto
      define w where "w = w1\<lparr>words := (words w1)[wds v := c], wds := Suc (wds v)\<rparr>"
      have "bigs s2 b1 = Some w1" using kept_get [OF s2(4)] by simp
      then have "multadd b m a st = Some (b1, put_big b1 w s2)"
        unfolding call using False full b1(1,8) copy s2(1) room xs(2) by (simp add: w_def w1_def)
      moreover have "multadd_post v m a w"
        by (rule multadd_carry [OF xs False])
          (use full room b1(7,8) upd [of "drop (wds v) (words w0)"] in \<open>simp_all add: w_def w1_def\<close>)
      moreover have "big_ok w" using w1 room b1(7-9) by (simp add: w_def big_ok_def w1_def)
      ultimately show ?thesis using makes_put [OF s2(2) kept_trans [OF kept1 s2(3)], of w] b1(2) by simp
    qed
  qed
qed

section \<open>Shifts\<close>

lemma lshift_k:
  assumes "n1 \<le> 2 ^ 29" "k \<le> 29"
  shows "\<exists>k1. lshift_k n1 (2 ^ k) k = Some k1 \<and> n1 \<le> 2 ^ k1 \<and> k1 \<le> 29"
  using assms(2)
proof (induction "29 - k" arbitrary: k)
  case 0
  then have "k = 29" by simp
  then show ?case using assms(1) by (subst lshift_k.simps) simp
next
  case (Suc j)
  show ?case
  proof (cases "2 ^ k < n1")
    case True
    then have "lshift_k n1 (2 ^ k) k = lshift_k n1 (2 ^ Suc k) (Suc k)" by (subst lshift_k.simps) simp
    then show ?thesis using Suc.hyps(1) [of "Suc k"] Suc.hyps(2) by simp
  next
    case False
    then show ?thesis using Suc.prems by (subst lshift_k.simps) simp
  qed
qed

text \<open>The words of a shifted number, and how many of them count.\<close>

lemma lshift_words:
  fixes k :: nat
  assumes v: "big_ok v" "0 < wds v"
  defines "x \<equiv> replicate (k div 32) 0 @ (if k mod 32 \<noteq> 0 then lshift_loop (k mod 32) (take (wds v) (words v)) 0 else take (wds v) (words v))"
  defines "n \<equiv> k div 32 + wds v + (if k mod 32 \<noteq> 0 \<and> last x \<noteq> 0 then 1 else 0)"
  shows "length x \<le> k div 32 + wds v + 1" and "n \<le> length x" and "val (take n x) = big_val v * 2 ^ k"
    and "n = k div 32 + wds v \<or> 4294967296 ^ (k div 32 + wds v) \<le> big_val v * 2 ^ k"
proof -
  let ?y = "take (wds v) (words v)"
  let ?z = "if k mod 32 \<noteq> 0 then lshift_loop (k mod 32) ?y 0 else ?y"
  have z: "val ?z = 2 ^ (k mod 32) * big_val v" "length ?z = wds v + (if k mod 32 \<noteq> 0 then 1 else 0)"
    using lshift_loop [of "k mod 32" 0 ?y] big_okD(1) [OF v(1)] by (auto simp: big_val_def min_absorb2)
  have "(2 :: nat) ^ k = (2 ^ 32) ^ (k div 32) * 2 ^ (k mod 32)" by (simp only: power_mult [symmetric] power_add [symmetric] mult_div_mod_eq)
  then have val: "val x = big_val v * 2 ^ k" and len: "length x = k div 32 + length ?z" using z(1) by (simp_all add: x_def val_append)
  show "length x \<le> k div 32 + wds v + 1" using len z(2) by simp
  show "n \<le> length x" using len z(2) by (simp add: n_def)
  have "val (take n x) = val x"
  proof (cases "n = length x")
    case False
    then have n: "n = length x - 1" "last x = 0" "x \<noteq> []" using len z(2) v(2) by (auto simp: n_def split: if_splits)
    then have "take n x @ [0] = x" by (metis append_butlast_last_id butlast_conv_take)
    then show ?thesis using val_append [of "take n x" "[0]"] by simp
  qed simp
  then show "val (take n x) = big_val v * 2 ^ k" using val by simp
  show "n = k div 32 + wds v \<or> 4294967296 ^ (k div 32 + wds v) \<le> big_val v * 2 ^ k"
  proof (cases "k mod 32 \<noteq> 0 \<and> last x \<noteq> 0")
    case True
    then have l: "length x = Suc (k div 32 + wds v)" using len z(2) by simp
    then have "x = take (k div 32 + wds v) x @ [last x]" by (metis append_butlast_last_id butlast_conv_take diff_Suc_1 list.size(3) nat.simps(3))
    then have "val x = val (take (k div 32 + wds v) x) + 4294967296 ^ (k div 32 + wds v) * unat (last x)"
      using val_append [of "take (k div 32 + wds v) x" "[last x]"] l by simp
    moreover have "1 \<le> unat (last x)" using True by (simp add: Suc_le_eq unat_gt_0)
    then have "(4294967296 :: nat) ^ (k div 32 + wds v) * 1 \<le> 4294967296 ^ (k div 32 + wds v) * unat (last x)" by (rule mult_le_mono2)
    ultimately show ?thesis using val by linarith
  qed (auto simp: n_def)
qed

lemma lshift_ok:
  assumes ok: "mp_ok own st" and b: "b \<in> own" "bigs st b = Some v" and n: "0 < wds v"
    and mem: "has_memory st" and size: "k div 32 + wds v < 2 ^ 29"
  shows "makes (own - {b}) st (lshift b k st) (\<lambda>w. big_val w = big_val v * 2 ^ k \<and> sign w = 0 \<and>
    (0 < big_val v \<and> big_norm v \<longrightarrow> big_norm w))"
proof -
  have vok: "big_ok v" using mp_okD(2) [OF ok b(2)] by simp
  note len = big_okD [OF vok]
  define x where "x = replicate (k div 32) 0 @ (if k mod 32 \<noteq> 0 then lshift_loop (k mod 32) (take (wds v) (words v)) 0 else take (wds v) (words v))"
  define m where "m = k div 32 + wds v + (if k mod 32 \<noteq> 0 \<and> last x \<noteq> 0 then 1 else 0)"
  note x = lshift_words [OF vok n, of k, folded x_def, folded m_def]
  obtain k1 where k1: "lshift_k (k div 32 + wds v + 1) (maxwds v) (big_k v) = Some k1" "k div 32 + wds v + 1 \<le> 2 ^ k1" "k1 \<le> 29"
    using lshift_k [of "k div 32 + wds v + 1" "big_k v"] size len(3,4) by auto
  obtain p st1 w0 where p: "Balloc k1 st = Some (p, st1)" "p \<notin> own" "mp_ok (insert p own) st1" "kept own st st1" "has_memory st1"
    "bigs st1 p = Some w0" "big_k w0 = k1" "sign w0 = 0" "length (words w0) = 2 ^ k1" "maxwds w0 = 2 ^ k1"
    using alloc_big [OF ok k1(3) mem] by blast
  define w where "w = w0\<lparr>words := x @ drop (length x) (words w0), wds := m\<rparr>"
  have w: "big_ok w" using p(7,9,10) k1(2,3) x(1,2) by (simp add: w_def big_ok_def)
  have own: "mp_ok (insert p own) (put_big p w st1)" by (rule mp_ok_put [OF p(3) _ w]) simp
  obtain st3 where st3: "Bfree b (put_big p w st1) = Some st3" "mp_ok (insert p (own - {b})) st3" "kept (own - {b}) st st3"
    "kept (insert p (own - {b})) (put_big p w st1) st3"
    using pool.replace_number [OF ok b(1) p(2) kept_trans [OF p(4) kept_put [OF p(2)]] own mem] by blast
  have m: "(if k mod 32 \<noteq> 0 \<and> last x \<noteq> 0 then Suc (k div 32 + wds v + 1) else k div 32 + wds v + 1) - 1 = m"
    by (simp add: m_def)
  have mx: "max 1 (wds v) = wds v" using n by simp
  have call: "lshift b k st = Some (p, st3)"
    unfolding lshift_def b(2) Option.bind.simps mx Let_def x_def [symmetric]
    using k1(1,2) p(1,6,9) st3(1) x(1) len(1) m by (simp add: w_def)
  have pw: "bigs st3 p = Some w" using kept_get [OF st3(4)] by simp
  have v: "big_val w = big_val v * 2 ^ k" using x(2,3) by (simp add: big_val_def w_def)
  have "big_norm w" if pos: "0 < big_val v" "big_norm v"
  proof -
    have "(4294967296 :: nat) ^ (wds v - 1) \<le> big_val v" using big_norm_iff [OF vok] pos by (cases "wds v = 1") auto
    moreover have "(2 :: nat) ^ (32 * (k div 32)) \<le> 2 ^ k" by (intro power_increasing) auto
    then have "(4294967296 :: nat) ^ (k div 32) \<le> 2 ^ k" by (simp add: power_mult)
    ultimately have "4294967296 ^ (wds v - 1) * 4294967296 ^ (k div 32) \<le> big_val v * 2 ^ k" by (rule mult_le_mono)
    moreover have "(4294967296 :: nat) ^ (k div 32 + wds v - 1) = 4294967296 ^ (wds v - 1) * 4294967296 ^ (k div 32)"
      using n by (simp flip: power_add)
    ultimately have low: "4294967296 ^ (k div 32 + wds v - 1) \<le> big_val v * 2 ^ k" by simp
    have "m = k div 32 + wds v \<or> m = Suc (k div 32 + wds v)" by (simp add: m_def)
    then have "4294967296 ^ (m - 1) \<le> big_val v * 2 ^ k" using low x(4) by auto
    then show ?thesis unfolding big_norm_iff [OF w] v using n by (simp add: w_def m_def)
  qed
  then show ?thesis using call p(2,8) st3(2,3) pw v by (auto simp: makes_def w_def)
qed

section \<open>Differences\<close>

lemma trim_down:
  assumes "n \<le> length c" "0 < val (take n c)"
  shows "\<exists>m. trim_down c n = Some m \<and> 0 < m \<and> m \<le> n \<and> val (take m c) = val (take n c) \<and> c ! (m - 1) \<noteq> 0"
  using assms
proof (induction n)
  case (Suc n)
  show ?case
  proof (cases "c ! n = 0")
    case True
    then have "val (take (Suc n) c) = val (take n c)" using Suc.prems(1) by (simp add: take_Suc_conv_app_nth val_append)
    then show ?thesis using Suc True by auto
  qed (use Suc.prems in auto)
qed simp

lemma diff_ok:
  assumes ok: "mp_ok own st" and a: "a \<in> own" "bigs st a = Some va" "big_norm va" and b: "b \<in> own" "bigs st b = Some vb" "big_norm vb"
    and mem: "has_memory st"
  shows "makes own st (diff a b st) (\<lambda>c. int (big_val c) = \<bar>int (big_val va) - int (big_val vb)\<bar> \<and>
    sign c = (if big_val va < big_val vb then 1 else 0) \<and> big_norm c)"
proof -
  have bok: "big_ok va" "big_ok vb" using mp_okD(2) [OF ok a(2)] mp_okD(2) [OF ok b(2)] by simp_all
  obtain i where i: "cmp va vb = Some i" "i < 0 \<longleftrightarrow> big_val va < big_val vb" "i = 0 \<longleftrightarrow> big_val va = big_val vb"
    using cmp_ok [OF bok a(3) b(3)] by blast
  show ?thesis
  proof (cases "i = 0")
    case True
    obtain p st1 c where p: "Balloc 0 st = Some (p, st1)" "p \<notin> own" "mp_ok (insert p own) st1" "kept own st st1" "has_memory st1"
      "bigs st1 p = Some c" "big_k c = 0" "sign c = 0" "length (words c) = 2 ^ 0" "maxwds c = 2 ^ 0"
      using alloc_big [OF ok _ mem, of 0] by auto
    define r where "r = c\<lparr>wds := 1, words := (words c)[0 := 0]\<rparr>"
    have "diff a b st = Some (p, put_big p r st1)" using a(2) b(2) i(1) True p by (auto simp: diff_def r_def)
    moreover have "big_ok r" "big_val r = 0" "big_norm r" "sign r = 0"
      using p(7-10) by (cases "words c"; simp add: r_def big_ok_def big_val_def big_norm_def)+
    ultimately show ?thesis using makes_put [OF p(3,4,2), of r] True i(3) by simp
  next
    case False
    obtain x y j where xy: "(if i < 0 then (vb, va, 1) else (va, vb, 0)) = (x, y, j :: int)" by (metis prod_cases3)
    have x: "big_ok x" "big_ok y" "big_norm y" "big_val y < big_val x" "j = (if big_val va < big_val vb then 1 else 0)"
      "int (big_val x) - int (big_val y) = \<bar>int (big_val va) - int (big_val vb)\<bar>"
      using xy bok a(3) b(3) False i(2,3) by (auto split: if_splits)
    have w: "wds y \<le> wds x"
    proof (rule ccontr)
      assume "\<not> wds y \<le> wds x"
      then have le: "(4294967296 :: nat) ^ wds x \<le> 4294967296 ^ (wds y - 1)" by (auto intro: power_increasing)
      have "4294967296 ^ (wds y - 1) \<le> big_val y \<or> wds x = 0"
        using \<open>\<not> wds y \<le> wds x\<close> big_norm_iff [OF x(2)] x(3) by (cases "1 < wds y") auto
      then show False
      proof
        assume "4294967296 ^ (wds y - 1) \<le> big_val y"
        then show False using le big_val_less [OF x(1)] x(4) by linarith
      next
        assume "wds x = 0"
        then show False using x(4) by (simp add: big_val_def)
      qed
    qed
    define d where "d = fst (diff_loop (take (wds x) (words x)) (take (wds y) (words y)) 0)"
    have d: "val d = big_val x - big_val y" "length d = wds x"
      using diff_loop_val [of "take (wds y) (words y)" "take (wds x) (words x)"] w x(4) big_okD(1) [OF x(1)] big_okD(1) [OF x(2)]
      by (simp_all add: d_def big_val_def min_absorb2)
    have "0 < val (take (wds x) d)" using d x(4) by simp
    then obtain m where m: "trim_down d (wds x) = Some m" "0 < m" "m \<le> wds x" "val (take m d) = val d" "d ! (m - 1) \<noteq> 0"
      using trim_down [of "wds x" d] d(2) by auto
    obtain p st1 c where p: "Balloc (big_k x) st = Some (p, st1)" "p \<notin> own" "mp_ok (insert p own) st1" "kept own st st1" "has_memory st1"
      "bigs st1 p = Some c" "big_k c = big_k x" "sign c = 0" "length (words c) = 2 ^ big_k x" "maxwds c = 2 ^ big_k x"
      using alloc_big [OF ok big_okD(4) [OF x(1)] mem] by blast
    define r where "r = c\<lparr>sign := j, words := d @ drop (wds x) (words c), wds := m\<rparr>"
    have lens: "wds x \<le> length (words x)" "wds y \<le> length (words y)" "wds x \<le> length (words c)"
      using big_okD [OF x(1)] big_okD [OF x(2)] p(9) x(1) by (simp_all add: big_ok_def)
    have "diff a b st = Some (p, put_big p r st1)"
      using a(2) b(2) i(1) False p(1,6) lens x(3) m(1) by (simp add: diff_def xy Let_def r_def big_norm_def flip: d_def)
    moreover have "big_ok r" using p(7,9,10) d(2) m(3) lens(3) x(1) by (simp add: r_def big_ok_def)
    moreover have "big_val r = big_val x - big_val y" using m(3,4) d by (simp add: r_def big_val_def)
    moreover have "m - 1 < wds x" using m(2,3) by linarith
    then have "big_norm r" "sign r = j" using m(2,5) d(2) by (simp_all add: r_def big_norm_def nth_append)
    ultimately show ?thesis using makes_put [OF p(3,4,2), of r] x(4-6) by simp
  qed
qed

section \<open>Properties\<close>

text \<open>C26: \<open>mult\<close> makes a new number that is the product, with the sign 0, no leading zero word and no more room than
  one size above the larger factor; the factors and all other numbers in use stay as they are.\<close>

theorem mult_correct:
  assumes "mp_ok own st" "has_memory st" "a \<in> own" "bigs st a = Some va" "b \<in> own" "bigs st b = Some vb"
    and "big_k va \<le> 28" "big_k vb \<le> 28"
  shows "\<exists>p st' w. mult a b st = Some (p, st') \<and> p \<notin> own \<and> mp_ok (insert p own) st' \<and> (\<forall>q \<in> own. bigs st' q = bigs st q) \<and>
    bigs st' p = Some w \<and> big_val w = big_val va * big_val vb \<and> sign w = 0 \<and> (0 < big_val w \<longrightarrow> big_norm w) \<and>
    big_k w \<le> Suc (max (big_k va) (big_k vb))"
  using mult_ok [OF assms(1,3-6,2,7,8)] unfolding makes_def kept_def by - (elim exE conjE, intro exI conjI; assumption)

theorem mult_correct_witness:
  "\<exists>p st' w. mult 8 8 sample_store = Some (p, st') \<and> p \<noteq> 8 \<and> bigs st' p = Some w \<and> big_val w = 49"
  using mult_correct [OF sample_store_ok, of 8 _ 8] by (auto simp: sample_store_def sample_big_def big_val_def)

text \<open>C27: The comparison, the difference and the comparison of the difference with 0: for numbers without leading zero
  words \<open>diff\<close> makes the distance of the two, its sign says whether the first is smaller, and it agrees with the
  result of \<open>cmp\<close>.\<close>

theorem diff_correct:
  assumes "mp_ok own st" "has_memory st" "a \<in> own" "bigs st a = Some va" "big_norm va" "b \<in> own" "bigs st b = Some vb" "big_norm vb"
  shows "\<exists>p st' w i. diff a b st = Some (p, st') \<and> cmp va vb = Some i \<and> p \<notin> own \<and> mp_ok (insert p own) st' \<and>
    (\<forall>q \<in> own. bigs st' q = bigs st q) \<and> bigs st' p = Some w \<and> big_norm w \<and>
    int (big_val va) - int (big_val vb) = (if sign w = 0 then int (big_val w) else - int (big_val w)) \<and>
    (i < 0 \<longleftrightarrow> sign w \<noteq> 0) \<and> (i = 0 \<longleftrightarrow> big_val w = 0)"
proof -
  have "big_ok va" "big_ok vb" using mp_okD(2) [OF assms(1)] assms(4,7) by blast+
  then obtain i where i: "cmp va vb = Some i" "i < 0 \<longleftrightarrow> big_val va < big_val vb" "i = 0 \<longleftrightarrow> big_val va = big_val vb"
    using cmp_ok assms(5,8) by blast
  obtain p st' w where "diff a b st = Some (p, st')" "p \<notin> own" "mp_ok (insert p own) st'" "kept own st st'" "bigs st' p = Some w"
    "int (big_val w) = \<bar>int (big_val va) - int (big_val vb)\<bar>" "sign w = (if big_val va < big_val vb then 1 else 0)" "big_norm w"
    using diff_ok [OF assms(1,3-8,2)] unfolding makes_def by blast
  then show ?thesis using i by (auto simp: kept_def)
qed

theorem diff_correct_witness:
  "\<exists>p st' w. diff 8 8 sample_store = Some (p, st') \<and> p \<noteq> 8 \<and> bigs st' p = Some w \<and> big_val w = 0"
  using diff_correct [OF sample_store_ok, of 8 _ 8] by (auto simp: sample_store_def sample_big_def big_val_def big_norm_def)

text \<open>Without memory and without a free number \<open>Balloc\<close> answers \<open>NULL\<close>, which the callers follow.\<close>

lemma Balloc_null:
  assumes "freelist st = Some (\<lambda>_. 0)" "answers st (asked st) = 0"
  shows "Balloc k st = None \<or> (\<exists>st1. Balloc k st = Some (0, st1) \<and> bigs st1 = bigs st)"
  using assms by (simp add: Balloc_def Let_def calloc_r_def)

lemma Balloc_null_bind:
  assumes "freelist st = Some (\<lambda>_. 0)" "answers st (asked st) = 0" and "\<And>st1. bigs st1 = bigs st \<Longrightarrow> f (0, st1) = None"
  shows "Balloc k st \<bind> f = None"
  using Balloc_null [OF assms(1,2), of k] assms(3) by auto

text \<open>C31: When memory has run out and no number is free, the operations go wrong: \<open>i2b\<close>, \<open>mult\<close>, \<open>diff\<close> and
  \<open>lshift\<close> write through the \<open>NULL\<close> that \<open>Balloc\<close> answers, and so does \<open>multadd\<close> when the number is full and
  the result needs one word more.\<close>

theorem numbers_need_memory:
  assumes "mp_ok own st" "freelist st = Some (\<lambda>_. 0)" "answers st (asked st) = 0"
    and "b \<in> own" "bigs st b = Some v" "wds v = maxwds v" "unat m < 65536" "unat a < 65536"
    and "4294967296 ^ wds v \<le> big_val v * unat m + unat a"
  shows "i2b i st = None \<and> mult b c st = None \<and> diff b c st = None \<and> lshift b k st = None \<and> multadd b m a st = None"
proof (intro conjI)
  have no: "bigs st 0 = None" using mp_okD(2) [OF assms(1), of 0] by (cases "bigs st 0") auto
  note null = Balloc_null_bind [OF assms(2,3)]
  show "i2b i st = None" unfolding i2b_def by (rule null) (simp add: no)
  show "mult b c st = None"
  proof (cases "bigs st c")
    case (Some w)
    then show ?thesis unfolding mult_def assms(5) Option.bind.simps Let_def
      by (cases "wds v < wds w"; simp only: Option.bind.simps if_True if_False prod.case; intro null; simp add: no)
  qed (simp add: mult_def assms(5))
  show "diff b c st = None"
  proof (cases "bigs st c")
    case (Some w)
    note w = this
    show ?thesis
    proof (cases "cmp v w")
      case (Some i)
      show ?thesis unfolding diff_def assms(5) w Some Option.bind.simps
        by (cases "i = 0"; cases "i < 0"; simp add: Let_def no null)
    qed (simp add: diff_def assms(5) w)
  qed (simp add: diff_def assms(5))
  show "lshift b k st = None" unfolding lshift_def assms(5) Option.bind.simps Let_def
    by (cases "lshift_k (k div 32 + wds v + 1) (maxwds v) (big_k v)"; simp only: Option.bind.simps; intro null; simp add: no)
  have v: "big_ok v" using mp_okD(2) [OF assms(1,5)] by simp
  obtain xs c where r: "multadd_loop (take (wds v) (words v)) m a = (xs, c)" by fastforce
  note len = big_okD [OF v]
  have n: "max 1 (wds v) = wds v" using assms(6) len(3) by simp
  have loop: "val xs + 4294967296 ^ wds v * unat c = big_val v * unat m + unat a" "length xs = wds v"
    using multadd_loop [OF assms(7,8) r] len(1) by (simp_all add: big_val_def min_absorb2)
  have "c \<noteq> 0" using loop val_less [of xs] assms(9) by auto
  have "Balloc (Suc (big_k v)) (put_big b x st) \<bind> f = None" if "\<And>s. bigs s 0 = None \<Longrightarrow> f (0, s) = None" for x and f :: "nat \<times> mp \<Rightarrow> (nat \<times> mp) option"
    by (rule Balloc_null_bind) (use assms(2,3) no mp_okD(2) [OF assms(1,5)] that in auto)
  then show "multadd b m a st = None"
    using assms(5,6) n r \<open>c \<noteq> 0\<close> len(1) by (simp add: multadd_def Let_def Bcopy_def)
qed

text \<open>A full number, and no memory.\<close>

definition full_store :: mp where
  "full_store = \<lparr>bigs = [8 \<mapsto> \<lparr>link = 0, big_k = 0, maxwds = 1, sign = 0, wds = 1, words = [65538]\<rparr>],
     freelist = Some (\<lambda>_. 0), p5s = 0, answers = \<lambda>_. 0, asked = 0\<rparr>"

theorem numbers_need_memory_witness: "mult 8 8 full_store = None \<and> multadd 8 65535 0 full_store = None"
proof -
  have ok: "mp_ok {8} full_store"
    by (auto simp: mp_ok_def full_store_def big_ok_def free_ok_def intro!: exI [of _ "\<lambda>_. []"] split: if_splits)
  have "freelist full_store = Some (\<lambda>_. 0)" "answers full_store (asked full_store) = 0"
    "bigs full_store 8 = Some \<lparr>link = 0, big_k = 0, maxwds = 1, sign = 0, wds = 1, words = [65538]\<rparr>" by (simp_all add: full_store_def)
  note numbers_need_memory [OF ok this(1,2) _ this(3), of 65535 0 _ 8]
  then show ?thesis by (simp add: big_val_def)
qed

end
