(* ===== verification/BigDecimal.thy ===== *)
theory BigDecimal
  imports BigNum
begin

text \<open>
  The decimal side of \<open>stdlib/mprec.c\<close>: \<open>pow5mult\<close>, which multiplies by a power of five with the help of a
  list of the powers \<open>625 ^ (2 ^ i)\<close> that grows as it is needed and is kept for later calls, and \<open>s2b\<close>, which
  reads a string of decimal digits.
\<close>

section \<open>Operations\<close>

text \<open>The loop of \<open>pow5mult\<close> over the bits of \<open>k\<close> and the list of the powers of 625 that it extends.\<close>

function pow5_loop :: "nat \<Rightarrow> nat \<Rightarrow> nat \<Rightarrow> mp \<Rightarrow> (nat \<times> mp) option" where
  "pow5_loop k b p5 st =
     do { (b', st1) \<leftarrow>
            (if odd k then do { (b1, s) \<leftarrow> mult b p5 st; s1 \<leftarrow> Bfree b s; Some (b1, s1) } else Some (b, st));
          if k div 2 = 0 then Some (b', st1)
          else
            do { v \<leftarrow> bigs st1 p5;
                 (p51, st2) \<leftarrow>
                   (if link v = 0
                    then do { (q, s) \<leftarrow> mult p5 p5 st1; u \<leftarrow> bigs s p5; let s1 = put_big p5 (u\<lparr>link := q\<rparr>) s;
                              w \<leftarrow> bigs s1 q; Some (q, put_big q (w\<lparr>link := 0\<rparr>) s1) }
                    else Some (link v, st1));
                 pow5_loop (k div 2) b' p51 st2 } }"
  by pat_completeness auto
termination by (relation "measure fst") auto

declare pow5_loop.simps [simp del]

definition pow5mult :: "nat \<Rightarrow> nat \<Rightarrow> mp \<Rightarrow> (nat \<times> mp) option" where
  "pow5mult b k st =
     do { (b', st1) \<leftarrow> (if k mod 4 \<noteq> 0 then multadd b ([5, 25, 125] ! (k mod 4 - 1)) 0 st else Some (b, st));
          if k div 4 = 0 then Some (b', st1)
          else
            do { (p5, st2) \<leftarrow>
                   (if p5s st1 = 0
                    then do { (p, s) \<leftarrow> i2b 625 st1; v \<leftarrow> bigs s p; Some (p, put_big p (v\<lparr>link := 0\<rparr>) (s\<lparr>p5s := p\<rparr>)) }
                    else Some (p5s st1, st1));
                 pow5_loop (k div 4) b' p5 st2 } }"

text \<open>The loops of \<open>s2b\<close> over the digits: \<open>n\<close> digits from \<open>s\<close> on.\<close>

fun s2b_digits :: "(nat \<Rightarrow> u8) \<Rightarrow> nat \<Rightarrow> nat \<Rightarrow> nat \<Rightarrow> mp \<Rightarrow> (nat \<times> mp) option" where
  "s2b_digits mem s 0 b st = Some (b, st)"
| "s2b_digits mem s (Suc n) b st =
     do { (b', st') \<leftarrow> multadd b 10 (ucast (mem s) - 48) st; s2b_digits mem (Suc s) n b' st' }"

text \<open>\<open>for (k = 0, y = 1; x > y; y <<= 1, k++)\<close>, for \<open>x\<close> below \<open>2 ^ 30\<close>\<close>

function s2b_k :: "nat \<Rightarrow> nat \<Rightarrow> nat \<Rightarrow> nat" where
  "s2b_k x y k = (if y < x \<and> 0 < y then s2b_k x (2 * y) (Suc k) else k)"
  by pat_completeness auto
termination by (relation "measure (\<lambda>(x, y, k). x - y)") auto

declare s2b_k.simps [simp del]

definition s2b :: "(nat \<Rightarrow> u8) \<Rightarrow> nat \<Rightarrow> nat \<Rightarrow> nat \<Rightarrow> u32 \<Rightarrow> mp \<Rightarrow> (nat \<times> mp) option" where
  "s2b mem s nd0 nd y9 st =
     do { (b, st1) \<leftarrow> Balloc (s2b_k ((nd + 8) div 9) 1 0) st; v \<leftarrow> bigs st1 b;
          if length (words v) = 0 then None
          else
            let st2 = put_big b (v\<lparr>words := (words v)[0 := y9], wds := 1\<rparr>) st1
            in if 9 < nd0
               then do { (b', st3) \<leftarrow> s2b_digits mem (s + 9) (nd0 - 9) b st2; s2b_digits mem (s + nd0 + 1) (nd - nd0) b' st3 }
               else s2b_digits mem (s + 10) (nd - 9) b st2 }"

section \<open>Sequences of operations\<close>

lemma makes_bind:
  assumes "makes own st r P"
    and "\<And>p st' w. p \<notin> own \<Longrightarrow> mp_ok (insert p own) st' \<Longrightarrow> kept own st st' \<Longrightarrow> bigs st' p = Some w \<Longrightarrow> P w \<Longrightarrow>
      makes own st' (f (p, st')) Q"
  shows "makes own st (r \<bind> f) Q"
proof -
  obtain p st' w where r: "r = Some (p, st')" "p \<notin> own" "mp_ok (insert p own) st'" "kept own st st'" "bigs st' p = Some w" "P w"
    using assms(1) by (auto simp: makes_def)
  have "makes own st' (f (p, st')) Q" using assms(2) r by blast
  then show ?thesis using r(1) kept_trans [OF r(4)] by (fastforce simp: makes_def)
qed

lemma makes_return: "mp_ok (insert p own) st \<Longrightarrow> p \<notin> own \<Longrightarrow> bigs st p = Some w \<Longrightarrow> P w \<Longrightarrow> makes own st (Some (p, st)) P"
  by (auto simp: makes_def)

text \<open>The contract of \<open>multadd\<close> in terms of the other numbers.\<close>

lemma multadd_makes:
  assumes "mp_ok (insert b own) st" "b \<notin> own" "bigs st b = Some v" "0 < wds v" "unat m < 65536" "unat a < 65536"
    "has_memory st" "big_k v \<le> 28"
  shows "makes own st (multadd b m a st) (multadd_post v m a)"
  using multadd_ok [of "insert b own" st b v m a] assms by simp

section \<open>Strings of digits\<close>

definition dec_val :: "nat list \<Rightarrow> nat" where
  "dec_val ds = foldl (\<lambda>n d. 10 * n + d) 0 ds"

lemma dec_val_less: "list_all (\<lambda>d. d < 10) ds \<Longrightarrow> dec_val ds < 10 ^ length ds"
proof (induction ds rule: rev_induct)
  case (snoc d ds)
  then have "dec_val ds + 1 \<le> 10 ^ length ds" by simp
  then have "10 * (dec_val ds + 1) \<le> 10 * 10 ^ length ds" by (rule mult_le_mono2)
  then show ?case using snoc.prems by (simp add: dec_val_def)
qed (simp add: dec_val_def)

lemma dec_val_Cons: "foldl (\<lambda>n d. 10 * n + d) (dec_val ds) (e # es) = foldl (\<lambda>n d. 10 * n + d) (dec_val (ds @ [e])) es"
  by (simp add: dec_val_def)

text \<open>The characters from \<open>s\<close> on are the digits \<open>es\<close>.\<close>

definition digits_at :: "(nat \<Rightarrow> u8) \<Rightarrow> nat \<Rightarrow> nat list \<Rightarrow> bool" where
  "digits_at mem s es \<longleftrightarrow> (\<forall>i < length es. es ! i < 10 \<and> mem (s + i) = of_nat (48 + es ! i))"

lemma digits_at_Cons: "digits_at mem s (e # es) \<longleftrightarrow> e < 10 \<and> mem s = of_nat (48 + e) \<and> digits_at mem (Suc s) es"
  by (auto simp: digits_at_def less_Suc_eq_0_disj nth_Cons')

lemma digit_char:
  assumes "e < 10" shows "unat (ucast (of_nat (48 + e) :: u8) - 48 :: u32) = e"
proof -
  have "e \<in> set [0..<10]" using assms by simp
  then show ?thesis by (auto simp: upt_rec)
qed

lemma s2b_digits_ok:
  assumes "mp_ok (insert b own) st" "b \<notin> own" "bigs st b = Some v" "big_norm v" "has_memory st" "big_k v \<le> 28"
    and "digits_at mem s es" "big_val v = dec_val ds" "list_all (\<lambda>d. d < 10) ds"
    and "10 ^ (length ds + length es) \<le> (4294967296 :: nat) ^ 2 ^ big_k v"
  shows "makes own st (s2b_digits mem s (length es) b st) (\<lambda>w. big_val w = dec_val (ds @ es) \<and> big_norm w \<and> sign w = sign v \<and> big_k w = big_k v)"
  using assms
proof (induction es arbitrary: b st v s ds)
  case Nil
  then show ?case by (simp add: makes_return)
next
  case (Cons e es)
  have e: "e < 10" "mem s = of_nat (48 + e)" "digits_at mem (Suc s) es" using Cons.prems(7) by (simp_all add: digits_at_Cons)
  have d: "unat (ucast (mem s) - 48 :: u32) = e" using digit_char [OF e(1)] e(2) by simp
  have "big_ok v" using mp_okD(2) [OF Cons.prems(1,3)] by simp
  then have mx: "maxwds v = 2 ^ big_k v" by (simp add: big_ok_def)
  have ds: "list_all (\<lambda>d. d < 10) (ds @ [e])" using Cons.prems(9) e(1) by simp
  have new: "dec_val (ds @ [e]) = big_val v * unat (10 :: u32) + unat (ucast (mem s) - 48 :: u32)"
    using Cons.prems(8) d by (simp add: dec_val_def)
  have "dec_val (ds @ [e]) < 10 ^ length (ds @ [e])" by (rule dec_val_less [OF ds])
  also have "(10 :: nat) ^ length (ds @ [e]) \<le> 10 ^ (length ds + length (e # es))" by (intro power_increasing) auto
  finally have small: "dec_val (ds @ [e]) < 4294967296 ^ maxwds v" using Cons.prems(10) mx by simp
  have "makes own st (multadd b 10 (ucast (mem s) - 48) st \<bind> (\<lambda>(b', st'). s2b_digits mem (Suc s) (length es) b' st'))
      (\<lambda>w. big_val w = dec_val (ds @ e # es) \<and> big_norm w \<and> sign w = sign v \<and> big_k w = big_k v)"
  proof (rule makes_bind)
    show "makes own st (multadd b 10 (ucast (mem s) - 48) st) (multadd_post v 10 (ucast (mem s) - 48))"
      by (rule multadd_makes) (use Cons.prems d e(1) in \<open>auto simp: big_norm_def\<close>)
  next
    fix p st' w
    assume p: "p \<notin> own" "mp_ok (insert p own) st'" "kept own st st'" "bigs st' p = Some w" "multadd_post v 10 (ucast (mem s) - 48) w"
    have w: "big_val w = dec_val (ds @ [e])" "sign w = sign v" "big_k w = big_k v" "big_norm w"
      using p(5) new small Cons.prems(4) by (auto simp: multadd_post_def)
    have "makes own st' (s2b_digits mem (Suc s) (length es) p st') (\<lambda>x. big_val x = dec_val ((ds @ [e]) @ es) \<and> big_norm x \<and> sign x = sign w \<and> big_k x = big_k w)"
      by (rule Cons.IH [OF p(2,1,4) w(4) kept_memory [OF p(3) Cons.prems(5)]]) (use w e ds Cons.prems in auto)
    then show "makes own st' (case (p, st') of (b', st') \<Rightarrow> s2b_digits mem (Suc s) (length es) b' st')
        (\<lambda>x. big_val x = dec_val (ds @ e # es) \<and> big_norm x \<and> sign x = sign v \<and> big_k x = big_k v)"
      using w by simp
  qed
  then show ?case by simp
qed

lemma s2b_k:
  assumes "x \<le> 2 ^ 28" "k \<le> 28"
  shows "x \<le> 2 ^ s2b_k x (2 ^ k) k \<and> s2b_k x (2 ^ k) k \<le> 28"
  using assms(2)
proof (induction "28 - k" arbitrary: k)
  case 0
  then have "k = 28" by simp
  then show ?case using assms(1) by (subst (1 2) s2b_k.simps) simp
next
  case (Suc j)
  show ?case
  proof (cases "2 ^ k < x")
    case True
    then have "s2b_k x (2 ^ k) k = s2b_k x (2 ^ Suc k) (Suc k)" by (subst s2b_k.simps) simp
    then show ?thesis using Suc.hyps(1) [of "Suc k"] Suc.hyps(2) by simp
  next
    case False
    then show ?thesis using Suc.prems by (subst (1 2) s2b_k.simps) simp
  qed
qed

text \<open>The digits \<open>ds\<close> are at \<open>s\<close>, with one character for the decimal point before the digit number \<open>nd0\<close>.\<close>

definition decimal_at :: "(nat \<Rightarrow> u8) \<Rightarrow> nat \<Rightarrow> nat \<Rightarrow> nat list \<Rightarrow> bool" where
  "decimal_at mem s nd0 ds \<longleftrightarrow>
     (\<forall>i < length ds. ds ! i < 10 \<and> mem (if i < nd0 then s + i else s + i + 1) = of_nat (48 + ds ! i))"

lemma decimal_digits:
  assumes "decimal_at mem s nd0 ds"
    and "\<And>i. i < n \<Longrightarrow> j + i < length ds \<Longrightarrow> (if j + i < nd0 then s + (j + i) else s + (j + i) + 1) = a + i"
  shows "digits_at mem a (take n (drop j ds))"
  unfolding digits_at_def
proof (intro allI impI)
  fix i assume "i < length (take n (drop j ds))"
  then have i: "i < n" "j + i < length ds" by auto
  show "take n (drop j ds) ! i < 10 \<and> mem (a + i) = of_nat (48 + take n (drop j ds) ! i)"
    using assms(1) [unfolded decimal_at_def, rule_format, OF i(2)] i unfolding assms(2) [OF i, symmetric] by simp
qed

lemma digits_room: "(nd + 8) div 9 \<le> n \<Longrightarrow> (10 :: nat) ^ nd \<le> 4294967296 ^ n"
proof -
  assume "(nd + 8) div 9 \<le> n"
  then have "(10 :: nat) ^ nd \<le> 10 ^ (9 * n)" by (intro power_increasing) auto
  also have "\<dots> = (10 ^ 9) ^ n" by (simp only: power_mult)
  also have "\<dots> \<le> 4294967296 ^ n" by (rule power_mono) simp_all
  finally show ?thesis .
qed

lemma s2b_ok:
  assumes ok: "mp_ok own st" and mem: "has_memory st" and ds: "decimal_at m s nd0 ds" "nd0 \<le> length ds"
    and y9: "unat y9 = dec_val (take 9 ds)" and size: "length ds \<le> 2147483639"
  shows "makes own st (s2b m s nd0 (length ds) y9 st) (\<lambda>w. big_val w = dec_val ds \<and> big_norm w \<and> sign w = 0)"
proof -
  define k where "k = s2b_k ((length ds + 8) div 9) 1 0"
  have k: "(length ds + 8) div 9 \<le> 2 ^ k" "k \<le> 28" using s2b_k [of "(length ds + 8) div 9" 0] size by (simp_all add: k_def)
  have room: "10 ^ length ds \<le> (4294967296 :: nat) ^ 2 ^ k" by (rule digits_room [OF k(1)])
  obtain b st1 c where b: "Balloc k st = Some (b, st1)" "b \<notin> own" "mp_ok (insert b own) st1" "kept own st st1" "has_memory st1"
    "bigs st1 b = Some c" "big_k c = k" "sign c = 0" "length (words c) = 2 ^ k" "maxwds c = 2 ^ k"
    by (rule alloc_big [OF ok _ mem, of k]) (use k(2) in \<open>simp, blast\<close>)
  define v where "v = c\<lparr>words := (words c)[0 := y9], wds := 1\<rparr>"
  have ne: "words c \<noteq> []" using b(9) by auto
  have v: "big_ok v" "big_val v = dec_val (take 9 ds)" "big_norm v" "big_k v = k" "sign v = 0"
    using b(7-10) k(2) ne y9 by (cases "words c"; simp add: v_def big_ok_def big_val_def big_norm_def)+
  have ok2: "mp_ok (insert b own) (put_big b v st1)" by (rule mp_ok_put [OF b(3) _ v(1)]) simp
  have kept2: "kept own st (put_big b v st1)" by (rule kept_trans [OF b(4) kept_put [OF b(2)]])
  note mem2 = kept_memory [OF kept2 mem]
  have all: "list_all (\<lambda>d. d < 10) ds" using ds(1) by (simp add: decimal_at_def list_all_length)
  then have sub: "list_all (\<lambda>d. d < 10) (take j ds)" for j by (metis append_take_drop_id list_all_append)
  have bs: "bigs (put_big b v st1) b = Some v" by simp
  let ?P = "\<lambda>w. big_val w = dec_val ds \<and> big_norm w \<and> sign w = 0"
  have rest: "makes own (put_big b v st1)
      (if 9 < nd0
       then do { (b', st3) \<leftarrow> s2b_digits m (s + 9) (nd0 - 9) b (put_big b v st1); s2b_digits m (s + nd0 + 1) (length ds - nd0) b' st3 }
       else s2b_digits m (s + 10) (length ds - 9) b (put_big b v st1)) ?P"
  proof (cases "9 < nd0")
    case False
    have at: "digits_at m (s + 10) (drop 9 ds)"
      using decimal_digits [OF ds(1), of "length ds" 9 "s + 10"] False by simp
    have "makes own (put_big b v st1) (s2b_digits m (s + 10) (length (drop 9 ds)) b (put_big b v st1))
        (\<lambda>w. big_val w = dec_val (take 9 ds @ drop 9 ds) \<and> big_norm w \<and> sign w = sign v \<and> big_k w = big_k v)"
      by (rule s2b_digits_ok [OF ok2 b(2) bs v(3) mem2 _ at v(2) sub]) (use k(2) v(4) room in \<open>simp_all add: min_def split: if_splits\<close>)
    then show ?thesis using False v(5) by (simp add: makes_mono)
  next
    case True
    let ?es = "drop 9 (take nd0 ds)"
    have at: "digits_at m (s + 9) ?es" "digits_at m (s + nd0 + 1) (drop nd0 ds)"
      using decimal_digits [OF ds(1), of "nd0 - 9" 9 "s + 9"] decimal_digits [OF ds(1), of "length ds" nd0 "s + nd0 + 1"] True
      by (simp_all add: drop_take)
    have len: "length ?es = nd0 - 9" "take 9 ds @ ?es = take nd0 ds" using ds(2) True by (simp_all add: drop_take take_add_drop)
    have "(10 :: nat) ^ (length (take 9 ds) + length ?es) \<le> 10 ^ length ds"
      using ds(2) True len(1) by (intro power_increasing) (simp_all add: min_def)
    then have le: "(10 :: nat) ^ (length (take 9 ds) + length ?es) \<le> 4294967296 ^ 2 ^ big_k v"
      using room unfolding v(4) by (rule order_trans)
    have first: "makes own (put_big b v st1) (s2b_digits m (s + 9) (length ?es) b (put_big b v st1))
        (\<lambda>w. big_val w = dec_val (take 9 ds @ ?es) \<and> big_norm w \<and> sign w = sign v \<and> big_k w = big_k v)"
      by (rule s2b_digits_ok [OF ok2 b(2) bs v(3) mem2 _ at(1) v(2) sub le]) (use k(2) v(4) in simp)
    have "makes own (put_big b v st1)
        (do { (b', st3) \<leftarrow> s2b_digits m (s + 9) (length ?es) b (put_big b v st1); s2b_digits m (s + nd0 + 1) (length ds - nd0) b' st3 }) ?P"
    proof (rule makes_bind [OF first])
      fix p st' w
      assume p: "p \<notin> own" "mp_ok (insert p own) st'" "kept own (put_big b v st1) st'" "bigs st' p = Some w"
        "big_val w = dec_val (take 9 ds @ ?es) \<and> big_norm w \<and> sign w = sign v \<and> big_k w = big_k v"
      have w: "big_val w = dec_val (take nd0 ds)" "big_norm w" "sign w = 0" "big_k w = k" using p(5) len(2) v(4,5) by simp_all
      have "makes own st' (s2b_digits m (s + nd0 + 1) (length (drop nd0 ds)) p st')
          (\<lambda>x. big_val x = dec_val (take nd0 ds @ drop nd0 ds) \<and> big_norm x \<and> sign x = sign w \<and> big_k x = big_k w)"
        by (rule s2b_digits_ok [OF p(2,1,4) w(2) kept_memory [OF p(3) mem2] _ at(2) w(1) sub]) (use k(2) w(4) room ds(2) in simp_all)
      then show "makes own st' (case (p, st') of (b', st3) \<Rightarrow> s2b_digits m (s + nd0 + 1) (length ds - nd0) b' st3) ?P"
        using w(3) by (simp add: makes_mono)
    qed
    then show ?thesis using True len(1) by simp
  qed
  have "s2b m s nd0 (length ds) y9 st = (if 9 < nd0
       then do { (b', st3) \<leftarrow> s2b_digits m (s + 9) (nd0 - 9) b (put_big b v st1); s2b_digits m (s + nd0 + 1) (length ds - nd0) b' st3 }
       else s2b_digits m (s + 10) (length ds - 9) b (put_big b v st1))"
    unfolding s2b_def k_def [symmetric] b(1) Option.bind.simps prod.case b(6) using ne by (simp add: v_def)
  then show ?thesis using rest kept_trans [OF kept2] by (fastforce simp: makes_def)
qed

section \<open>Powers of five\<close>

text \<open>The list of the powers of 625 that \<open>_p5s\<close> begins. Its numbers are in use and nobody else\<close>

definition p5_ok :: "mp \<Rightarrow> nat list \<Rightarrow> bool" where
  "p5_ok st P \<longleftrightarrow> chain (bigs st) (p5s st) P \<and> distinct P \<and>
     (\<forall>i < length P. \<exists>v. bigs st (P ! i) = Some v \<and> big_val v = 625 ^ 2 ^ i \<and> big_k v \<le> Suc i)"

lemma chain_nth:
  assumes "chain B p P" "i < length P"
  shows "\<exists>v. B (P ! i) = Some v \<and> link v = (if Suc i < length P then P ! Suc i else 0) \<and> P ! i \<noteq> 0"
  using assms
proof (induction P arbitrary: p i)
  case (Cons q qs)
  then obtain v where v: "B q = Some v" "chain B (link v) qs" "q \<noteq> 0" by (auto split: option.splits)
  show ?case
  proof (cases i)
    case 0
    have "link v = (if 0 < length qs then qs ! 0 else 0)" using v(2) by (cases qs) auto
    then show ?thesis using 0 v by simp
  next
    case (Suc j)
    then show ?thesis using Cons.IH [OF v(2), of j] Cons.prems(2) by fastforce
  qed
qed simp

lemma chain_snoc:
  assumes "chain B p P" "distinct P" "P \<noteq> []" "q \<noteq> 0" "q \<notin> set P" "B (last P) = Some v" "link w = 0"
  shows "chain (B(last P \<mapsto> v\<lparr>link := q\<rparr>, q \<mapsto> w)) p (P @ [q])"
  using assms(1-3,5,6)
proof (induction P arbitrary: p)
  case (Cons x qs)
  show ?case
  proof (cases qs)
    case Nil
    then show ?thesis using Cons.prems assms(4,7) by auto
  next
    case (Cons y ys)
    then obtain u where u: "B x = Some u" "chain B (link u) qs" "x \<noteq> 0" using Cons.prems(1) by (auto split: option.splits)
    have "x \<noteq> last qs" "x \<noteq> q" using Cons.prems(2,4) Cons by auto
    then show ?thesis using Cons.IH [OF u(2)] Cons.prems Cons u(1,3) by simp
  qed
qed simp

lemma p5_ok_kept: "p5_ok st P \<Longrightarrow> kept own st st' \<Longrightarrow> set P \<subseteq> own \<Longrightarrow> p5_ok st' P"
  unfolding p5_ok_def kept_def
  by (metis chain_cong nth_mem subsetD)

text \<open>The product with a power takes the place of the number.\<close>

lemma mult_replaces:
  assumes ok: "mp_ok (insert b own) st" "b \<notin> own" and b: "bigs st b = Some v" and p: "p \<in> own" "bigs st p = Some u"
    and mem: "has_memory st" and k: "big_k v \<le> 28" "big_k u \<le> 28"
  shows "makes own st (do { (b1, s) \<leftarrow> mult b p st; s1 \<leftarrow> Bfree b s; Some (b1, s1) })
    (\<lambda>c. big_val c = big_val v * big_val u \<and> sign c = 0 \<and> big_k c \<le> Suc (max (big_k v) (big_k u)) \<and> (0 < big_val c \<longrightarrow> big_norm c))"
proof -
  have "makes (insert b own) st (mult b p st) (\<lambda>c. big_val c = big_val v * big_val u \<and> sign c = 0 \<and>
      big_k c \<le> Suc (max (big_k v) (big_k u)) \<and> (0 < big_val c \<longrightarrow> big_norm c))"
    by (rule mult_ok [OF ok(1) _ b _ p(2) mem k]) (use p(1) in auto)
  then obtain q s w where q: "mult b p st = Some (q, s)" "q \<notin> insert b own" "mp_ok (insert q (insert b own)) s" "kept (insert b own) st s"
    "bigs s q = Some w" "big_val w = big_val v * big_val u" "sign w = 0" "big_k w \<le> Suc (max (big_k v) (big_k u))" "0 < big_val w \<longrightarrow> big_norm w"
    by (auto simp: makes_def)
  obtain s1 where s1: "Bfree b s = Some s1" "mp_ok (insert q own) s1" "kept own st s1" "kept (insert q own) s s1"
    using pool.replace_number [OF ok(1) insertI1 q(2,4,3) mem] ok(2) by auto
  then show ?thesis using q kept_get [OF s1(4), of q] by (auto simp: makes_def)
qed

text \<open>The next power: the square of the last one, put at the end of the list.\<close>

lemma p5_extend:
  assumes ok: "mp_ok own st" and P: "p5_ok st P" "set P \<subseteq> own" "P \<noteq> []" and mem: "has_memory st" and k: "length P \<le> 28"
  shows "\<exists>q s u w. mult (last P) (last P) st = Some (q, s) \<and> bigs s (last P) = Some u \<and> q \<noteq> last P \<and> bigs s q = Some w \<and>
    (let st2 = put_big q (w\<lparr>link := 0\<rparr>) (put_big (last P) (u\<lparr>link := q\<rparr>) s)
     in q \<notin> own \<and> mp_ok (insert q own) st2 \<and> p5_ok st2 (P @ [q]) \<and> (\<forall>x \<in> own - set P. bigs st2 x = bigs st x) \<and> has_memory st2)"
proof -
  define i where "i = length P - 1"
  have i: "i < length P" "last P = P ! i" using P(3) by (simp_all add: i_def last_conv_nth)
  then obtain u where u: "bigs st (last P) = Some u" "big_val u = 625 ^ 2 ^ i" "big_k u \<le> Suc i"
    using P(1) by (auto simp: p5_ok_def)
  have own: "last P \<in> own" using P(2,3) by (meson last_in_set subsetD)
  have "makes own st (mult (last P) (last P) st) (\<lambda>c. big_val c = big_val u * big_val u \<and> sign c = 0 \<and>
      big_k c \<le> Suc (max (big_k u) (big_k u)) \<and> (0 < big_val c \<longrightarrow> big_norm c))"
    by (rule mult_ok [OF ok own u(1) own u(1) mem]) (use u(3) i(1) k in auto)
  then obtain q s w where q: "mult (last P) (last P) st = Some (q, s)" "q \<notin> own" "mp_ok (insert q own) s" "kept own st s"
    "bigs s q = Some w" "big_val w = big_val u * big_val u" "big_k w \<le> Suc (big_k u)" by (auto simp: makes_def)
  have us: "bigs s (last P) = Some u" using kept_get [OF q(4) own] u(1) by simp
  have bok: "big_ok u" "big_ok w" "q \<noteq> 0" using mp_okD(2) [OF q(3) us] mp_okD(2) [OF q(3) q(5)] by simp_all
  define st2 where "st2 = put_big q (w\<lparr>link := 0\<rparr>) (put_big (last P) (u\<lparr>link := q\<rparr>) s)"
  have ne: "q \<noteq> last P" "q \<notin> set P" using q(2) own P(2) by auto
  have "mp_ok (insert q own) st2" unfolding st2_def
    by (intro mp_ok_put q(3)) (use bok own in \<open>simp_all add: big_ok_def\<close>)
  moreover have "p5_ok st2 (P @ [q])"
  proof -
    have get: "bigs st2 = (bigs s)(last P \<mapsto> u\<lparr>link := q\<rparr>, q \<mapsto> w\<lparr>link := 0\<rparr>)" by (simp add: st2_def put_big_def)
    have p5: "p5_ok s P" by (rule p5_ok_kept [OF P(1) q(4) P(2)])
    then have "chain (bigs s) (p5s st2) P" "distinct P" by (simp_all add: p5_ok_def st2_def)
    then have "chain (bigs st2) (p5s st2) (P @ [q])" unfolding get
      using chain_snoc [of "bigs s" "p5s st2" P q u "w\<lparr>link := 0\<rparr>"] P(3) bok(3) ne(2) us by simp
    moreover have "\<exists>v. bigs st2 ((P @ [q]) ! j) = Some v \<and> big_val v = 625 ^ 2 ^ j \<and> big_k v \<le> Suc j" if "j < length (P @ [q])" for j
    proof (cases "j < length P")
      case True
      then obtain v where v: "bigs s (P ! j) = Some v" "big_val v = 625 ^ 2 ^ j" "big_k v \<le> Suc j" using p5 by (auto simp: p5_ok_def)
      have "big_val (u\<lparr>link := q\<rparr>) = big_val u" by (simp add: big_val_def)
      moreover have "P ! j \<noteq> q" using True ne(2) by auto
      ultimately show ?thesis using v True us by (auto simp: get nth_append)
    next
      case False
      then have j: "j = length P" using that by simp
      have "(625 :: nat) ^ 2 ^ j = 625 ^ (2 ^ i + 2 ^ i)" using i(1) j P(3) by (simp add: i_def mult_2 [symmetric] flip: power_Suc)
      then have "big_val w = 625 ^ 2 ^ j" using q(6) u(2) by (simp add: power_add)
      moreover have "big_k w \<le> Suc j" using q(7) u(3) i(1) j by (simp add: i_def)
      moreover have "big_val (w\<lparr>link := 0\<rparr>) = big_val w" by (simp add: big_val_def)
      ultimately show ?thesis using j by (simp add: get nth_append)
    qed
    ultimately show ?thesis using P(1) ne(2) by (simp add: p5_ok_def)
  qed
  moreover have "bigs st2 x = bigs st x" if "x \<in> own - set P" for x
    using that kept_get [OF q(4), of x] q(2) P(3) by (auto simp: st2_def)
  moreover have "has_memory st2" using kept_memory [OF q(4) mem] by (simp add: st2_def has_memory_def)
  ultimately show ?thesis using q(1,2,5) us ne(1) unfolding st2_def Let_def by blast
qed

text \<open>What \<open>pow5mult\<close> promises: the caller's other numbers \<open>own\<close> are as before, and the list is extended.\<close>

definition makes5 :: "nat set \<Rightarrow> mp \<Rightarrow> (nat \<times> mp) option \<Rightarrow> (bigint \<Rightarrow> bool) \<Rightarrow> bool" where
  "makes5 own st r Q \<longleftrightarrow> (\<exists>p st' w P. r = Some (p, st') \<and> p \<notin> own \<union> set P \<and> mp_ok (insert p (own \<union> set P)) st' \<and>
     p5_ok st' P \<and> own \<inter> set P = {} \<and> (\<forall>x \<in> own. bigs st' x = bigs st x) \<and> bigs st' p = Some w \<and> Q w)"

lemma makes5_step:
  "makes5 own st1 r Q \<Longrightarrow> (\<And>x. x \<in> own \<Longrightarrow> bigs st1 x = bigs st x) \<Longrightarrow> (\<And>w. Q w \<Longrightarrow> Q' w) \<Longrightarrow> makes5 own st r Q'"
  unfolding makes5_def by metis

lemma pow5_loop_ok:
  assumes "mp_ok (insert b (own \<union> set P)) st" "b \<notin> own \<union> set P" "own \<inter> set P = {}" "p5_ok st P" "i < length P"
    and "bigs st b = Some v" "has_memory st" "0 < k" "k < 2 ^ n" "big_k v \<le> K" "length P \<le> K" "K + n \<le> 28"
  shows "makes5 own st (pow5_loop k b (P ! i) st) (\<lambda>w. big_val w = big_val v * (625 ^ 2 ^ i) ^ k \<and> sign w = 0 \<and> (0 < big_val v \<longrightarrow> big_norm w))"
  using assms
proof (induction n arbitrary: b P st i v k K)
  case (Suc n)
  note ok = Suc.prems(1) and b = Suc.prems(2,6) and P = Suc.prems(3,4,5) and mem = Suc.prems(7) and k = Suc.prems(8,9)
    and K = Suc.prems(10,11,12)
  let ?o = "own \<union> set P"
  obtain u where u: "bigs st (P ! i) = Some u" "big_val u = 625 ^ 2 ^ i" "big_k u \<le> Suc i" using P(2,3) by (auto simp: p5_ok_def)
  have Pi: "P ! i \<in> set P" using P(3) by simp
  define r where "r = (if odd k then do { (b1, s) \<leftarrow> mult b (P ! i) st; s1 \<leftarrow> Bfree b s; Some (b1, s1) } else Some (b, st))"
  define V where "V = big_val v * (625 ^ 2 ^ i) ^ (k mod 2)"
  have "makes ?o st r (\<lambda>c. big_val c = V \<and> big_k c \<le> Suc K \<and> (odd k \<longrightarrow> sign c = 0 \<and> (0 < big_val c \<longrightarrow> big_norm c)))"
  proof (cases "odd k")
    case True
    have "makes ?o st r (\<lambda>c. big_val c = big_val v * big_val u \<and> sign c = 0 \<and> big_k c \<le> Suc (max (big_k v) (big_k u)) \<and> (0 < big_val c \<longrightarrow> big_norm c))"
      unfolding r_def if_P [OF True]
      by (rule mult_replaces [OF ok b _ u(1) mem]) (use K P(3) u(3) Pi in auto)
    then show ?thesis by (rule makes_mono) (use True K P(3) u(2,3) in \<open>auto simp: V_def odd_iff_mod_2_eq_one max_def split: if_splits\<close>)
  next
    case False
    then show ?thesis using makes_return [OF ok b] K(1) by (simp add: r_def V_def even_iff_mod_2_eq_zero)
  qed
  then obtain b' st1 w where r: "r = Some (b', st1)" "b' \<notin> ?o" "mp_ok (insert b' ?o) st1" "kept ?o st st1" "bigs st1 b' = Some w"
    "big_val w = V" "big_k w \<le> Suc K" "odd k \<longrightarrow> sign w = 0 \<and> (0 < big_val w \<longrightarrow> big_norm w)"
    by (auto simp: makes_def)
  have p5: "p5_ok st1 P" by (rule p5_ok_kept [OF P(2) r(4)]) simp
  have same: "bigs st1 x = bigs st x" if "x \<in> own" for x using kept_get [OF r(4)] that by simp
  note mem1 = kept_memory [OF r(4) mem]
  show ?case
  proof (cases "k div 2 = 0")
    case True
    then have "k = 1" using k(1) by simp
    then have "pow5_loop k b (P ! i) st = Some (b', st1)" using r(1) by (subst pow5_loop.simps) (simp add: r_def)
    then show ?thesis using r(2,3,5,6,8) p5 P(1) same \<open>k = 1\<close> by (auto simp: makes5_def V_def)
  next
    case False
    obtain l where l: "bigs st1 (P ! i) = Some l" "link l = (if Suc i < length P then P ! Suc i else 0)" "P ! i \<noteq> 0"
      using p5 P(3) chain_nth by (metis p5_ok_def)
    have halves: "V * (625 ^ 2 ^ Suc i) ^ (k div 2) = big_val v * (625 ^ 2 ^ i) ^ k"
    proof -
      have "(625 :: nat) ^ 2 ^ Suc i = (625 ^ 2 ^ i) ^ 2" by (simp add: mult.commute flip: power_mult)
      moreover have "A ^ k = A ^ (k mod 2) * (A ^ 2) ^ (k div 2)" for A :: nat
        using power_add [of A "k mod 2" "2 * (k div 2)"] by (simp only: mod_mult_div_eq power_mult)
      ultimately show ?thesis by (simp add: V_def)
    qed
    have k2: "0 < k div 2" "k div 2 < 2 ^ n" using False k(2) by auto
    have pos: "0 < V" if "0 < big_val v" using that by (simp add: V_def)
    show ?thesis
    proof (cases "Suc i < length P")
      case True
      have n0: "P ! Suc i \<noteq> 0" using p5 True chain_nth by (metis p5_ok_def)
      have "pow5_loop k b (P ! i) st = pow5_loop (k div 2) b' (P ! Suc i) st1"
        using r(1) False l True n0 by (subst pow5_loop.simps) (simp add: r_def)
      moreover have "makes5 own st1 (pow5_loop (k div 2) b' (P ! Suc i) st1)
          (\<lambda>w'. big_val w' = big_val w * (625 ^ 2 ^ Suc i) ^ (k div 2) \<and> sign w' = 0 \<and> (0 < big_val w \<longrightarrow> big_norm w'))"
        by (rule Suc.IH [OF r(3,2) P(1) p5 True r(5) mem1 k2 r(7)]) (use K in auto)
      ultimately show ?thesis using same pos by (auto elim!: makes5_step simp: r(6) simp flip: halves)
    next
      case last: False
      then have "i = length P - 1" "P \<noteq> []" using P(3) by auto
      then have lastP: "P ! i = last P" "P \<noteq> []" by (simp_all add: last_conv_nth)
      obtain q s x y where q: "mult (last P) (last P) st1 = Some (q, s)" "bigs s (last P) = Some x" "q \<noteq> last P" "bigs s q = Some y"
        "let st2 = put_big q (y\<lparr>link := 0\<rparr>) (put_big (last P) (x\<lparr>link := q\<rparr>) s)
         in q \<notin> insert b' ?o \<and> mp_ok (insert q (insert b' ?o)) st2 \<and> p5_ok st2 (P @ [q]) \<and>
           (\<forall>z \<in> insert b' ?o - set P. bigs st2 z = bigs st1 z) \<and> has_memory st2"
        using p5_extend [OF r(3) p5 _ lastP(2) mem1] K by auto
      define st2 where "st2 = put_big q (y\<lparr>link := 0\<rparr>) (put_big (last P) (x\<lparr>link := q\<rparr>) s)"
      have st2: "q \<notin> insert b' ?o" "mp_ok (insert q (insert b' ?o)) st2" "p5_ok st2 (P @ [q])"
        "\<And>z. z \<in> insert b' ?o - set P \<Longrightarrow> bigs st2 z = bigs st1 z" "has_memory st2"
        using q(5) unfolding st2_def [symmetric] Let_def by blast+
      have sets: "insert q (insert b' ?o) = insert b' (own \<union> set (P @ [q]))" by auto
      have i: "Suc i < length (P @ [q])" "(P @ [q]) ! Suc i = q" using last P(3) by (simp_all add: nth_append)
      have "pow5_loop k b (P ! i) st = pow5_loop (k div 2) b' ((P @ [q]) ! Suc i) st2"
        unfolding i(2) using r(1) False l last q(1-4) lastP(1) by (subst pow5_loop.simps) (simp add: r_def st2_def Let_def)
      moreover have "makes5 own st2 (pow5_loop (k div 2) b' ((P @ [q]) ! Suc i) st2)
          (\<lambda>w'. big_val w' = big_val w * (625 ^ 2 ^ Suc i) ^ (k div 2) \<and> sign w' = 0 \<and> (0 < big_val w \<longrightarrow> big_norm w'))"
        by (rule Suc.IH [OF st2(2) [unfolded sets] _ _ st2(3) i(1) _ st2(5) k2 r(7)])
          (use K P(1) st2(1,4) r(2,5) in auto)
      moreover have "bigs st2 z = bigs st z" if "z \<in> own" for z using st2(4) [of z] same [OF that] that P(1) by auto
      ultimately show ?thesis using pos by (auto elim!: makes5_step simp: r(6) simp flip: halves)
    qed
  qed
qed simp

lemma mp_ok_p5s: "mp_ok own (st\<lparr>p5s := p\<rparr>) = mp_ok own st"
  by (simp add: mp_ok_def cong: option.case_cong)

text \<open>The first power of the list.\<close>

lemma p5_first:
  assumes ok: "mp_ok own st" and mem: "has_memory st"
  shows "\<exists>p s v. i2b 625 st = Some (p, s) \<and> bigs s p = Some v \<and>
    (let st2 = put_big p (v\<lparr>link := 0\<rparr>) (s\<lparr>p5s := p\<rparr>)
     in p \<notin> own \<and> mp_ok (insert p own) st2 \<and> p5_ok st2 [p] \<and> (\<forall>x \<in> own. bigs st2 x = bigs st x) \<and> has_memory st2)"
proof -
  obtain p s v where p: "i2b 625 st = Some (p, s)" "p \<notin> own" "mp_ok (insert p own) s" "kept own st s" "bigs s p = Some v"
    "big_val v = unat (625 :: u32)" "big_k v = 1"
    using i2b_ok [OF ok mem, of 625] by (auto simp: makes_def)
  define st2 where "st2 = put_big p (v\<lparr>link := 0\<rparr>) (s\<lparr>p5s := p\<rparr>)"
  have v: "big_ok v" "p \<noteq> 0" using mp_okD(2) [OF p(3,5)] by simp_all
  have "mp_ok (insert p own) st2" unfolding st2_def
    by (rule mp_ok_put) (use p(3) v(1) in \<open>simp_all add: mp_ok_p5s big_ok_def\<close>)
  moreover have "p5_ok st2 [p]" using p(6,7) v(2) by (simp add: p5_ok_def st2_def big_val_def)
  moreover have "\<forall>x \<in> own. bigs st2 x = bigs st x" using p(2) kept_get [OF p(4)] by (auto simp: st2_def)
  moreover have "has_memory st2" using kept_memory [OF p(4) mem] by (simp add: st2_def has_memory_def)
  ultimately show ?thesis using p(1,2,5) unfolding st2_def Let_def by blast
qed

lemma pow5mult_ok:
  assumes ok: "mp_ok (insert b (own \<union> set P)) st" "b \<notin> own \<union> set P" "own \<inter> set P = {}" and P: "p5_ok st P" "length P \<le> K"
    and b: "bigs st b = Some v" "0 < wds v" "big_k v < K" and mem: "has_memory st" and k: "k < 4 * 2 ^ n" "K + n \<le> 28"
  shows "makes5 own st (pow5mult b k st) (\<lambda>w. big_val w = big_val v * 5 ^ k \<and> (big_norm v \<and> 0 < big_val v \<longrightarrow> big_norm w))"
proof -
  let ?o = "own \<union> set P"
  define r where "r = (if k mod 4 \<noteq> 0 then multadd b ([5, 25, 125] ! (k mod 4 - 1)) 0 st else Some (b, st))"
  have "k mod 4 < 4" by simp
  then have m4: "k mod 4 \<in> {0, 1, 2, 3}" by auto
  have m: "unat ([5, 25, 125] ! (k mod 4 - 1) :: u32) = 5 ^ (k mod 4)" if "k mod 4 \<noteq> 0" using m4 that by auto
  have "makes ?o st r (\<lambda>w. big_val w = big_val v * 5 ^ (k mod 4) \<and> big_k w \<le> K \<and> (big_norm v \<longrightarrow> big_norm w))"
  proof (cases "k mod 4 = 0")
    case True
    then show ?thesis using makes_return [OF ok(1,2) b(1)] b(3) by (simp add: r_def)
  next
    case False
    have u: "0 < unat ([5, 25, 125] ! (k mod 4 - 1) :: u32)" "unat ([5, 25, 125] ! (k mod 4 - 1) :: u32) < 65536" using m4 False by auto
    have "makes ?o st r (multadd_post v ([5, 25, 125] ! (k mod 4 - 1)) 0)"
      unfolding r_def if_P [OF False] by (rule multadd_makes [OF ok(1,2) b(1,2) u(2) _ mem]) (use b(3) k(2) in simp_all)
    then show ?thesis by (rule makes_mono) (use m [OF False] u(1) b(3) in \<open>auto simp: multadd_post_def\<close>)
  qed
  then obtain b' st1 w where r: "r = Some (b', st1)" "b' \<notin> ?o" "mp_ok (insert b' ?o) st1" "kept ?o st st1" "bigs st1 b' = Some w"
    "big_val w = big_val v * 5 ^ (k mod 4)" "big_k w \<le> K" "big_norm v \<longrightarrow> big_norm w" by (auto simp: makes_def)
  have p5: "p5_ok st1 P" by (rule p5_ok_kept [OF P(1) r(4)]) simp
  have same: "bigs st1 x = bigs st x" if "x \<in> own" for x using kept_get [OF r(4)] that by simp
  note mem1 = kept_memory [OF r(4) mem]
  show ?thesis
  proof (cases "k div 4 = 0")
    case True
    then have "k mod 4 = k" by simp
    moreover have "pow5mult b k st = Some (b', st1)" using r(1) True by (simp add: pow5mult_def r_def)
    ultimately show ?thesis using r(2,3,5,6,8) p5 ok(3) same by (auto simp: makes5_def)
  next
    case False
    have e: "(5 :: nat) ^ (k mod 4) * (625 ^ 2 ^ 0) ^ (k div 4) = 5 ^ k"
      using power_add [of "5 :: nat" "k mod 4" "4 * (k div 4)"] by (simp only: mod_mult_div_eq power_mult) simp
    have k4: "0 < k div 4" "k div 4 < 2 ^ n" using False k(1) by (auto simp: less_mult_imp_div_less mult.commute)
    have post: "makes5 own st X (\<lambda>w. big_val w = big_val v * 5 ^ k \<and> (big_norm v \<and> 0 < big_val v \<longrightarrow> big_norm w))"
      if "makes5 own st2 X (\<lambda>y. big_val y = big_val w * (625 ^ 2 ^ 0) ^ (k div 4) \<and> sign y = 0 \<and> (0 < big_val w \<longrightarrow> big_norm y))"
        "\<And>x. x \<in> own \<Longrightarrow> bigs st2 x = bigs st x" for X st2
      by (rule makes5_step [OF that]) (auto simp: r(6) simp flip: e)
    show ?thesis
    proof (cases "p5s st1 = 0")
      case no: False
      then obtain q qs where q: "P = p5s st1 # qs" using p5 by (cases P) (auto simp: p5_ok_def)
      have "pow5mult b k st = pow5_loop (k div 4) b' (P ! 0) st1"
        using r(1) False no by (subst q) (simp add: pow5mult_def r_def)
      moreover have "makes5 own st1 (pow5_loop (k div 4) b' (P ! 0) st1)
          (\<lambda>y. big_val y = big_val w * (625 ^ 2 ^ 0) ^ (k div 4) \<and> sign y = 0 \<and> (0 < big_val w \<longrightarrow> big_norm y))"
        by (rule pow5_loop_ok [OF r(3,2) ok(3) p5 _ r(5) mem1 k4 r(7) P(2) k(2)]) (simp add: q)
      ultimately show ?thesis using post same by simp
    next
      case yes: True
      then have nil: "P = []" using p5 by (cases P) (auto simp: p5_ok_def)
      obtain p s x where p: "i2b 625 st1 = Some (p, s)" "bigs s p = Some x"
        "let st2 = put_big p (x\<lparr>link := 0\<rparr>) (s\<lparr>p5s := p\<rparr>)
         in p \<notin> insert b' ?o \<and> mp_ok (insert p (insert b' ?o)) st2 \<and> p5_ok st2 [p] \<and> (\<forall>z \<in> insert b' ?o. bigs st2 z = bigs st1 z) \<and> has_memory st2"
        using p5_first [OF r(3) mem1] by blast
      define st2 where "st2 = put_big p (x\<lparr>link := 0\<rparr>) (s\<lparr>p5s := p\<rparr>)"
      have st2: "p \<notin> insert b' ?o" "mp_ok (insert p (insert b' ?o)) st2" "p5_ok st2 [p]"
        "\<And>z. z \<in> insert b' ?o \<Longrightarrow> bigs st2 z = bigs st1 z" "has_memory st2"
        using p(3) unfolding st2_def [symmetric] Let_def by blast+
      have sets: "insert p (insert b' ?o) = insert b' (own \<union> set [p])" using nil by auto
      have "pow5mult b k st = pow5_loop (k div 4) b' ([p] ! 0) st2"
        using r(1) False yes p(1,2) by (simp add: pow5mult_def r_def st2_def)
      moreover have "makes5 own st2 (pow5_loop (k div 4) b' ([p] ! 0) st2)
          (\<lambda>y. big_val y = big_val w * (625 ^ 2 ^ 0) ^ (k div 4) \<and> sign y = 0 \<and> (0 < big_val w \<longrightarrow> big_norm y))"
        by (rule pow5_loop_ok [OF st2(2) [unfolded sets] _ _ st2(3) _ _ st2(5) k4 r(7) _ k(2)])
          (use b(3) st2(1,4) r(2,5) in auto)
      ultimately show ?thesis using post same st2(4) by simp
    qed
  qed
qed

section \<open>Properties\<close>

text \<open>C29: \<open>s2b\<close> reads a number: for a string of decimal digits with a point after the first \<open>nd0\<close> ones, of which
  the caller has read the first nine into \<open>y9\<close>, it makes the number the digits denote, without a leading zero
  word, and leaves the other numbers alone.\<close>

theorem s2b_correct:
  assumes "mp_ok own st" "has_memory st" "decimal_at m s nd0 ds" "nd0 \<le> length ds"
    and "unat y9 = dec_val (take 9 ds)" "length ds \<le> 2147483639"
  shows "\<exists>p st' w. s2b m s nd0 (length ds) y9 st = Some (p, st') \<and> p \<notin> own \<and> mp_ok (insert p own) st' \<and>
    (\<forall>q \<in> own. bigs st' q = bigs st q) \<and> bigs st' p = Some w \<and> big_val w = dec_val ds \<and> big_norm w \<and> sign w = 0"
  using s2b_ok [OF assms] unfolding makes_def kept_def by - (elim exE conjE, intro exI conjI; assumption)

text \<open>The string \<open>"12345678901.2"\<close> at the address 0.\<close>

definition sample_digits :: "nat list" where "sample_digits = [1, 2, 3, 4, 5, 6, 7, 8, 9, 0, 1, 2]"

definition sample_string :: "nat \<Rightarrow> u8" where
  "sample_string i = ([49, 50, 51, 52, 53, 54, 55, 56, 57, 48, 49, 46, 50] :: u8 list) ! i"

theorem s2b_correct_witness:
  "\<exists>p st' w. s2b sample_string 0 11 12 123456789 sample_store = Some (p, st') \<and> bigs st' p = Some w \<and> big_val w = 123456789012"
proof -
  have "\<forall>i \<in> {0..<12}. sample_digits ! i < 10 \<and> sample_string (if i < 11 then 0 + i else 0 + i + 1) = of_nat (48 + sample_digits ! i)"
    by (simp add: atLeastLessThan_upt upt_rec sample_digits_def sample_string_def)
  then have "decimal_at sample_string 0 11 sample_digits" by (simp add: decimal_at_def sample_digits_def)
  moreover have "length sample_digits = 12" "dec_val (take 9 sample_digits) = 123456789" "dec_val sample_digits = 123456789012"
    by (simp_all add: sample_digits_def dec_val_def)
  ultimately show ?thesis using s2b_correct [OF sample_store_ok, of sample_string 0 11 sample_digits 123456789] by auto
qed

text \<open>C28: \<open>pow5mult\<close> multiplies by \<open>5 ^ k\<close>: it gives the number times \<open>5 ^ k\<close>, frees the old one, and leaves
  the other numbers alone but for the list of the powers of 625, which it may extend and which again holds in its
  place \<open>i\<close> the power \<open>625 ^ (2 ^ i)\<close>.\<close>

theorem pow5mult_correct:
  assumes "mp_ok (insert b (own \<union> set P)) st" "b \<notin> own \<union> set P" "own \<inter> set P = {}" "p5_ok st P" "length P \<le> K"
    and "bigs st b = Some v" "big_norm v" "0 < big_val v" "big_k v < K" "has_memory st" "k < 4 * 2 ^ n" "K + n \<le> 28"
  shows "\<exists>p st' w P'. pow5mult b k st = Some (p, st') \<and> p \<notin> own \<union> set P' \<and> mp_ok (insert p (own \<union> set P')) st' \<and>
    p5_ok st' P' \<and> own \<inter> set P' = {} \<and> (\<forall>x \<in> own. bigs st' x = bigs st x) \<and> bigs st' p = Some w \<and>
    big_val w = big_val v * 5 ^ k \<and> big_norm w"
  using pow5mult_ok [OF assms(1-6) _ assms(9-12)] assms(7,8) unfolding makes5_def big_norm_def by fastforce

theorem pow5mult_correct_witness:
  "\<exists>p st' w. pow5mult 8 100 sample_store = Some (p, st') \<and> bigs st' p = Some w \<and> big_val w = 7 * 5 ^ 100"
proof -
  have "p5_ok sample_store []" by (simp add: p5_ok_def sample_store_def)
  moreover have "big_norm sample_big" "big_val sample_big = 7" by (simp_all add: sample_big_def big_norm_def big_val_def)
  ultimately show ?thesis
    using pow5mult_correct [of 8 "{}" "[]" sample_store 1 sample_big 100 5] sample_store_ok sample_store_get by auto
qed

end
