(* ===== verification/BigDouble.thy ===== *)
theory BigDouble
  imports BigNum
begin

text \<open>
  The binary side of \<open>stdlib/mprec.c\<close>: leading and trailing zeros of a word, \<open>d2b\<close> and \<open>b2d\<close>, which take a
  \<open>double\<close> apart and put one together, \<open>ulp\<close>, \<open>any_on\<close> and \<open>copybits\<close>. A \<open>double\<close> is its two words
  (\<open>union double_union\<close>); no floating-point operation is modelled.
\<close>

section \<open>Operations\<close>

definition hi0bits :: "u32 \<Rightarrow> nat" where
  "hi0bits x0 =
     (let (k1, x1) = (if x0 AND 0xFFFF0000 = 0 then (16, push_bit 16 x0) else (0, x0));
          (k2, x2) = (if x1 AND 0xFF000000 = 0 then (k1 + 8, push_bit 8 x1) else (k1, x1));
          (k3, x3) = (if x2 AND 0xF0000000 = 0 then (k2 + 4, push_bit 4 x2) else (k2, x2));
          (k4, x4) = (if x3 AND 0xC0000000 = 0 then (k3 + 2, push_bit 2 x3) else (k3, x3))
      in if x4 AND 0x80000000 = 0 then (if x4 AND 0x40000000 = 0 then 32 else k4 + 1) else k4)"

text \<open>The result and the new \<open>*y\<close>.\<close>

definition lo0bits :: "u32 \<Rightarrow> nat \<times> u32" where
  "lo0bits y =
     (if y AND 7 \<noteq> 0 then
        (if y AND 1 \<noteq> 0 then (0, y) else if y AND 2 \<noteq> 0 then (1, drop_bit 1 y) else (2, drop_bit 2 y))
      else
        let (k1, x1) = (if y AND 0xFFFF = 0 then (16, drop_bit 16 y) else (0, y));
            (k2, x2) = (if x1 AND 0xFF = 0 then (k1 + 8, drop_bit 8 x1) else (k1, x1));
            (k3, x3) = (if x2 AND 0xF = 0 then (k2 + 4, drop_bit 4 x2) else (k2, x2));
            (k4, x4) = (if x3 AND 3 = 0 then (k3 + 2, drop_bit 2 x3) else (k3, x3))
        in if x4 AND 1 = 0
           then (let x5 = drop_bit 1 x4 in if x5 = 0 then (32, y) else (k4 + 1, x5))
           else (k4, x4))"

record double_union =
  word0 :: u32
  word1 :: u32

text \<open>The number, \<open>*e\<close> and \<open>*bits\<close>.\<close>

definition d2b :: "double_union \<Rightarrow> mp \<Rightarrow> (nat \<times> int \<times> int \<times> mp) option" where
  "d2b d st =
     do { (b, st1) \<leftarrow> Balloc 1 st; v \<leftarrow> bigs st1 b;
          if length (words v) < 2 then None
          else
            let de = drop_bit 20 (word0 d AND 0x7FFFFFFF);
                z = (if de \<noteq> 0 then (word0 d AND 0xFFFFF) OR 0x100000 else word0 d AND 0xFFFFF);
                (x, i, k) =
                  (if word1 d \<noteq> 0 then
                     let (k, y) = lo0bits (word1 d);
                         x0 = (if k \<noteq> 0 then y OR push_bit (32 - k) z else y);
                         z1 = (if k \<noteq> 0 then drop_bit k z else z)
                     in ((words v)[0 := x0, 1 := z1], if z1 \<noteq> 0 then 2 else 1, k)
                   else let (k, z1) = lo0bits z in ((words v)[0 := z1], 1, k + 32))
            in Some (b,
                 if de \<noteq> 0 then int (unat de) - 1023 - 52 + int k else int (unat de) - 1023 - 52 + 1 + int k,
                 if de \<noteq> 0 then 53 - int k else 32 * int i - int (hi0bits (x ! (i - 1))),
                 put_big b (v\<lparr>words := x, wds := i\<rparr>) st1) }"

text \<open>The result and \<open>*e\<close>; \<open>nth_word\<close> is \<open>xa > xa0 ? *--xa : 0\<close>.\<close>

definition nth_word :: "u32 list \<Rightarrow> nat \<Rightarrow> nat \<Rightarrow> u32" where
  "nth_word x n j = (if j < n then x ! (n - 1 - j) else 0)"

definition b2d :: "bigint \<Rightarrow> (double_union \<times> int) option" where
  "b2d a =
     (if wds a = 0 \<or> length (words a) < wds a then None
      else
        let n = wds a; x = words a; y = nth_word x n 0; k = hi0bits y;
            d = (if k < 11 then
                   let w = nth_word x n 1
                   in \<lparr>word0 = 0x3FF00000 OR drop_bit (11 - k) y, word1 = push_bit (21 + k) y OR drop_bit (11 - k) w\<rparr>
                 else
                   let z = nth_word x n 1; j = k - 11
                   in if j \<noteq> 0
                      then \<lparr>word0 = 0x3FF00000 OR push_bit j y OR drop_bit (32 - j) z,
                            word1 = push_bit j z OR drop_bit (32 - j) (nth_word x n 2)\<rparr>
                      else \<lparr>word0 = 0x3FF00000 OR y, word1 = z\<rparr>)
        in Some (d, 32 - int k))"

definition ulp :: "double_union \<Rightarrow> double_union" where
  "ulp x =
     (let L = int (unat (word0 x AND 0x7FF00000)) - 52 * 0x100000
      in if 0 < L then \<lparr>word0 = word_of_int L, word1 = 0\<rparr>
         else let l = nat (- L div 0x100000)
           in if l < 20 then \<lparr>word0 = drop_bit l 0x80000, word1 = 0\<rparr>
              else \<lparr>word0 = 0, word1 = (if 31 \<le> l - 20 then 1 else push_bit (31 - (l - 20)) 1)\<rparr>)"

text \<open>\<open>while (x > x0) if (*--x) return 1; return 0\<close>\<close>

fun any_loop :: "u32 list \<Rightarrow> nat \<Rightarrow> u32" where
  "any_loop x 0 = 0"
| "any_loop x (Suc n) = (if x ! n \<noteq> 0 then 1 else any_loop x n)"

definition any_on :: "bigint \<Rightarrow> nat \<Rightarrow> u32" where
  "any_on b k =
     (let nwds = wds b; n = k div 32; x = words b
      in if nwds < n then any_loop x nwds
         else if n < nwds \<and> k mod 32 \<noteq> 0 \<and> push_bit (k mod 32) (drop_bit (k mod 32) (x ! n)) \<noteq> x ! n then 1
         else any_loop x n)"

text \<open>\<open>c\<close> is the array of the caller, \<open>n\<close> the number of its bits.\<close>

definition copybits :: "u32 list \<Rightarrow> nat \<Rightarrow> bigint \<Rightarrow> u32 list option" where
  "copybits c n b =
     (let nw = nat ((int n - 1) div 32 + 1); m = max nw (wds b)
      in if length c < m \<or> length (words b) < wds b then None
         else Some (take (wds b) (words b) @ replicate (nw - wds b) 0 @ drop m c))"

section \<open>Zeros at the ends of a word\<close>

lemma and_high: "x AND NOT (mask n) = (0 :: u32) \<longleftrightarrow> unat x < 2 ^ n"
proof -
  have "x AND NOT (mask n) = 0 \<longleftrightarrow> drop_bit n x = 0"
  proof
    assume a: "x AND NOT (mask n) = 0"
    have "bit (drop_bit n x) i = bit (x AND NOT (mask n)) (n + i)" for i
      by (auto simp: bit_simps dest: bit_imp_le_length)
    then show "drop_bit n x = 0" unfolding a by (intro bit_word_eqI) auto
  next
    assume a: "drop_bit n x = 0"
    have "bit (x AND NOT (mask n)) i = (n \<le> i \<and> bit (drop_bit n x) (i - n))" if "i < 32" for i
      using that by (auto simp: bit_simps)
    then show "x AND NOT (mask n) = 0" unfolding a by (intro bit_word_eqI) auto
  qed
  also have "\<dots> \<longleftrightarrow> unat x div 2 ^ n = 0" 
    by (simp only: unat_eq_0 [symmetric] unat_drop_bit_eq) (simp only: drop_bit_eq_div)
  finally show ?thesis by (simp add: div_eq_0_iff)
qed

lemma and_low: "x AND mask n = (0 :: u32) \<longleftrightarrow> 2 ^ n dvd unat x"
proof -
  have "x AND mask n = 0 \<longleftrightarrow> unat (take_bit n x) = 0" by (simp add: take_bit_eq_mask unat_eq_0)
  also have "\<dots> \<longleftrightarrow> unat x mod 2 ^ n = 0" unfolding unsigned_take_bit_eq by (simp add: take_bit_eq_mod)
  finally show ?thesis by (simp add: dvd_eq_mod_eq_0)
qed

lemma unat_push: "unat x * 2 ^ n < 2 ^ 32 \<Longrightarrow> unat (push_bit n x :: u32) = unat x * 2 ^ n"
  unfolding unsigned_push_bit_eq by (simp add: take_bit_eq_mod push_bit_eq_mult)

lemma unat_drop: "unat (drop_bit n x :: u32) = unat x div 2 ^ n"
  unfolding unat_drop_bit_eq by (simp add: drop_bit_eq_div)

text \<open>One stage of \<open>hi0bits\<close>: either one of the upper \<open>j\<close> bits is set, or they are shifted out.\<close>

lemma hi_stage:
  fixes x x0 :: u32 and k kj :: nat
  assumes "(if x AND NOT (mask n) = 0 then (kj, push_bit j x) else (k, x)) = (k', x')"
    and "kj = k + j" "n + j = 32" "j \<le> n" and "unat x0 * 2 ^ k = unat x" and "2 ^ (n - j) \<le> unat x"
  shows "unat x0 * 2 ^ k' = unat x'" and "2 ^ n \<le> unat x'"
proof -
  have e: "(2 :: nat) ^ n * 2 ^ j = 2 ^ 32" "(2 :: nat) ^ (n - j) * 2 ^ j = 2 ^ n"
    using assms(3,4) by (simp_all flip: power_add)
  have "unat x0 * 2 ^ k' = unat x' \<and> 2 ^ n \<le> unat x'"
  proof (cases "unat x < 2 ^ n")
    case True
    then have "unat x * 2 ^ j < 2 ^ n * 2 ^ j" by simp
    then have "unat (push_bit j x) = unat x * 2 ^ j" unfolding e by (rule unat_push)
    moreover have "2 ^ (n - j) * 2 ^ j \<le> unat x * 2 ^ j" using assms(6) by (rule mult_le_mono1)
    moreover have "k' = k + j" "x' = push_bit j x" using True assms(1,2) by (simp_all add: and_high)
    ultimately show ?thesis using assms(5) unfolding e by (simp add: power_add mult.assoc [symmetric])
  next
    case False
    then show ?thesis using assms(1,5) by (auto simp: and_high)
  qed
  then show "unat x0 * 2 ^ k' = unat x'" "2 ^ n \<le> unat x'" by blast+
qed

lemma top_masks: "(0xFFFF0000 :: u32) = NOT (mask 16)" "(0xFF000000 :: u32) = NOT (mask 24)" "(0xF0000000 :: u32) = NOT (mask 28)"
  "(0xC0000000 :: u32) = NOT (mask 30)" "(0x80000000 :: u32) = NOT (mask 31)"
  by (simp_all add: mask_eq_exp_minus_1)

text \<open>\<open>hi0bits\<close> is the number of leading zeros.\<close>

lemma hi0bits_ok:
  assumes "x0 \<noteq> 0"
  shows "2 ^ 31 \<le> unat x0 * 2 ^ hi0bits x0" and "unat x0 * 2 ^ hi0bits x0 < 2 ^ 32"
proof -
  have x0: "1 \<le> unat x0" using assms by (simp add: Suc_le_eq unat_gt_0)
  obtain k1 x1 where s1: "(if x0 AND NOT (mask 16) = 0 then (16, push_bit 16 x0) else (0, x0)) = (k1 :: nat, x1)" by fastforce
  obtain k2 x2 where s2: "(if x1 AND NOT (mask 24) = 0 then (k1 + 8, push_bit 8 x1) else (k1, x1)) = (k2, x2)" by fastforce
  obtain k3 x3 where s3: "(if x2 AND NOT (mask 28) = 0 then (k2 + 4, push_bit 4 x2) else (k2, x2)) = (k3, x3)" by fastforce
  obtain k4 x4 where s4: "(if x3 AND NOT (mask 30) = 0 then (k3 + 2, push_bit 2 x3) else (k3, x3)) = (k4, x4)" by fastforce
  have x1: "unat x0 * 2 ^ k1 = unat x1" "2 ^ 16 \<le> unat x1" using hi_stage [OF s1, of x0] x0 by simp_all
  have x2: "unat x0 * 2 ^ k2 = unat x2" "2 ^ 24 \<le> unat x2" using hi_stage [OF s2 _ _ _ x1(1)] x1(2) by simp_all
  have x3: "unat x0 * 2 ^ k3 = unat x3" "2 ^ 28 \<le> unat x3" using hi_stage [OF s3 _ _ _ x2(1)] x2(2) by simp_all
  have x4: "unat x0 * 2 ^ k4 = unat x4" "2 ^ 30 \<le> unat x4" using hi_stage [OF s4 _ _ _ x3(1)] x3(2) by simp_all
  have "x4 AND NOT (mask 31) = 0 \<longleftrightarrow> unat x4 < 2 ^ 31" by (rule and_high)
  moreover have "x4 AND 0x40000000 \<noteq> 0" if "unat x4 < 2 ^ 31"
  proof
    assume z: "x4 AND 0x40000000 = 0"
    have "bit x4 30 = bit (x4 AND 0x40000000) 30" by (simp add: bit_simps)
    then have "\<not> bit x4 30" unfolding z by simp
    moreover have "unat x4 div 2 ^ 30 = 1" using that x4(2) by (intro div_nat_eqI) simp_all
    then have "odd (unat x4 div 2 ^ 30)" by simp
    then have "bit (unat x4) 30" by (simp add: bit_nat_def)
    ultimately show False by (simp add: bit_unsigned_iff)
  qed
  ultimately have h: "hi0bits x0 = (if unat x4 < 2 ^ 31 then k4 + 1 else k4)"
    unfolding hi0bits_def top_masks Let_def s1 prod.case s2 s3 s4 by auto
  have "unat x4 < 2 ^ 32" using unat_u32 [of x4] by simp
  then show "2 ^ 31 \<le> unat x0 * 2 ^ hi0bits x0" "unat x0 * 2 ^ hi0bits x0 < 2 ^ 32"
    using x4 unfolding h by (simp_all add: mult.assoc [symmetric])
qed

text \<open>One stage of \<open>lo0bits\<close>, and its result: the number of trailing zeros, and the word without them.\<close>

lemma lo_stage:
  fixes x x0 :: u32 and k kj :: nat
  assumes "(if x AND mask j = 0 then (kj, drop_bit j x) else (k, x)) = (k', x')"
    and "kj = k + j" and "unat x0 = 2 ^ k * unat x" "x \<noteq> 0" and "\<not> 2 ^ (2 * j) dvd unat x"
  shows "unat x0 = 2 ^ k' * unat x'" "x' \<noteq> 0" "\<not> 2 ^ j dvd unat x'"
proof -
  have "unat x0 = 2 ^ k' * unat x' \<and> x' \<noteq> 0 \<and> \<not> 2 ^ j dvd unat x'"
  proof (cases "2 ^ j dvd unat x")
    case True
    then obtain q where q: "unat x = 2 ^ j * q" by blast
    then have "unat (drop_bit j x) = q" by (simp add: unat_drop)
    moreover have "\<not> 2 ^ j dvd q" using assms(5) q by (simp add: mult_2 power_add)
    moreover have "q \<noteq> 0" using q assms(4) by (metis mult_0_right unat_eq_0)
    ultimately show ?thesis using True assms(1-3) q by (auto simp: and_low power_add)
  next
    case False
    then show ?thesis using assms(1-4) by (auto simp: and_low)
  qed
  then show "unat x0 = 2 ^ k' * unat x'" "x' \<noteq> 0" "\<not> 2 ^ j dvd unat x'" by blast+
qed

lemma low_masks: "(0xFFFF :: u32) = mask 16" "(0xFF :: u32) = mask 8" "(0xF :: u32) = mask 4" "(3 :: u32) = mask 2"
  "(1 :: u32) = mask 1" "(7 :: u32) = mask 3"
  by (simp_all add: mask_eq_exp_minus_1)

lemma and_2: "y AND 2 = (0 :: u32) \<longleftrightarrow> even (unat y div 2)"
proof -
  have "y AND 2 = 0 \<longleftrightarrow> \<not> bit y 1" using and_exp_eq_0_iff_not_bit [of y 1] by simp
  also have "\<dots> \<longleftrightarrow> \<not> bit (unat y) 1" by (simp add: bit_unsigned_iff)
  finally show ?thesis by (simp add: bit_nat_def)
qed

lemma lo0bits_ok:
  assumes "y \<noteq> 0" and "lo0bits y = (k, x)"
  shows "unat y = 2 ^ k * unat x" and "odd (unat x)" and "k < 32"
proof -
  have "unat y = 2 ^ k * unat x \<and> odd (unat x)"
  proof (cases "y AND 7 = 0")
    case False
    then have n8: "\<not> 8 dvd unat y" using and_low [of y 3] by (simp only: low_masks) simp
    have a1: "y AND 1 = 0 \<longleftrightarrow> even (unat y)" using and_low [of y 1] by (simp only: low_masks) simp
    have r: "(k, x) = (if odd (unat y) then (0, y) else if odd (unat y div 2) then (1, drop_bit 1 y) else (2, drop_bit 2 y))"
      using False assms(2) a1 and_2 [of y] by (auto simp: lo0bits_def split: if_splits)
    consider "odd (unat y)" | "even (unat y)" "odd (unat y div 2)" | "even (unat y)" "even (unat y div 2)" by blast
    then show ?thesis
    proof cases
      case 3
      then have q: "unat y = 4 * (unat y div 4)" by presburger
      have "odd (unat y div 4)"
      proof
        assume "even (unat y div 4)"
        then obtain r where "unat y div 4 = 2 * r" by blast
        then have "unat y = 8 * r" using q by simp
        then show False using n8 by simp
      qed
      moreover have "unat (drop_bit 2 y) = unat y div 4" using unat_drop [of 2 y] by simp
      ultimately show ?thesis using 3 r q by simp
    qed (use r unat_drop [of 1 y] in auto)
  next
    case True
    have n32: "\<not> 2 ^ (2 * 16) dvd unat y"
      using unat_u32 [of y] assms(1) by (auto dest!: dvd_imp_le simp: unat_gt_0)
    obtain k1 x1 where s1: "(if y AND mask 16 = 0 then (16, drop_bit 16 y) else (0, y)) = (k1 :: nat, x1)" by fastforce
    obtain k2 x2 where s2: "(if x1 AND mask 8 = 0 then (k1 + 8, drop_bit 8 x1) else (k1, x1)) = (k2, x2)" by fastforce
    obtain k3 x3 where s3: "(if x2 AND mask 4 = 0 then (k2 + 4, drop_bit 4 x2) else (k2, x2)) = (k3, x3)" by fastforce
    obtain k4 x4 where s4: "(if x3 AND mask 2 = 0 then (k3 + 2, drop_bit 2 x3) else (k3, x3)) = (k4, x4)" by fastforce
    have x1: "unat y = 2 ^ k1 * unat x1" "x1 \<noteq> 0" "\<not> 2 ^ 16 dvd unat x1"
      using lo_stage [OF s1, of y] assms(1) n32 by simp_all
    have x2: "unat y = 2 ^ k2 * unat x2" "x2 \<noteq> 0" "\<not> 2 ^ 8 dvd unat x2" using lo_stage [OF s2 _ x1(1,2)] x1(3) by simp_all
    have x3: "unat y = 2 ^ k3 * unat x3" "x3 \<noteq> 0" "\<not> 2 ^ 4 dvd unat x3" using lo_stage [OF s3 _ x2(1,2)] x2(3) by simp_all
    have x4: "unat y = 2 ^ k4 * unat x4" "x4 \<noteq> 0" "\<not> 2 ^ 2 dvd unat x4" using lo_stage [OF s4 _ x3(1,2)] x3(3) by simp_all
    have a1: "x4 AND mask 1 = 0 \<longleftrightarrow> even (unat x4)" using and_low [of x4 1] by simp
    have x5: "unat (drop_bit 1 x4) = unat x4 div 2" using unat_drop [of 1 x4] by simp
    have ne: "drop_bit 1 x4 \<noteq> 0" if "even (unat x4)"
      using that x4(2) x5 by (metis dvd_mult_div_cancel mult_0_right unat_0 unat_eq_0)
    have "(k, x) = (if even (unat x4) then (k4 + 1, drop_bit 1 x4) else (k4, x4))"
    proof -
      have "lo0bits y = (if x4 AND mask 1 = 0 then (if drop_bit 1 x4 = 0 then (32, y) else (k4 + 1, drop_bit 1 x4)) else (k4, x4))"
        unfolding lo0bits_def Let_def using True
        by (simp only: if_False if_True simp_thms s1 s2 s3 s4 prod.case low_masks(1-5))
      then show ?thesis using assms(2) a1 ne by auto
    qed
    moreover have "odd (unat x4 div 2)" if "even (unat x4)"
    proof
      assume "even (unat x4 div 2)"
      then obtain r where "unat x4 div 2 = 2 * r" by blast
      then have "unat x4 = 4 * r" using that by (auto elim: evenE)
      then show False using x4(3) by simp
    qed
    ultimately show ?thesis using x4(1) x5 by (auto split: if_splits)
  qed
  then show "unat y = 2 ^ k * unat x" "odd (unat x)" by blast+
  then have y: "unat y = 2 ^ k * unat x" "0 < unat x" by (auto intro: odd_pos)
  have "2 ^ k * 1 \<le> 2 ^ k * unat x" using y(2) by (intro mult_le_mono2) simp
  then have "(2 :: nat) ^ k < 4294967296" using unat_u32 [of y] unfolding y(1) by linarith
  then have "(2 :: nat) ^ k < 2 ^ 32" by simp
  then show "k < 32" by (rule power_less_imp_less_exp [rotated]) simp
qed

text \<open>The number of bits of a number, from the leading zeros of its highest word.\<close>

lemma big_bits:
  assumes "wds b \<le> length (words b)" "0 < wds b" "words b ! (wds b - 1) \<noteq> 0"
  defines "h \<equiv> hi0bits (words b ! (wds b - 1))"
  shows "h < 32" and "2 ^ (32 * wds b - h - 1) \<le> big_val b" and "big_val b < 2 ^ (32 * wds b - h)"
proof -
  define m where "m = wds b - 1"
  define t where "t = unat (words b ! m)"
  have h: "2 ^ 31 \<le> t * 2 ^ h" "t * 2 ^ h < 2 ^ 32"
    using hi0bits_ok [OF assms(3)] by (simp_all add: h_def t_def m_def)
  have "1 \<le> t" using assms(3) by (simp add: t_def m_def Suc_le_eq unat_gt_0)
  then have "(1 :: nat) * 2 ^ h \<le> t * 2 ^ h" by (rule mult_le_mono1)
  then have "(2 :: nat) ^ h < 2 ^ 32" using h(2) by linarith
  then show h32: "h < 32" by (rule power_less_imp_less_exp [rotated]) simp
  have wm: "wds b = Suc m" using assms(2) by (simp add: m_def)
  have v: "big_val b = val (take m (words b)) + (2 ^ 32) ^ m * t"
    using assms(1) by (simp add: big_val_def wm take_Suc_conv_app_nth val_append t_def)
  have l: "val (take m (words b)) < (2 ^ 32) ^ m" using val_less [of "take m (words b)"] assms(1) wm by (simp add: min_absorb2)
  have p: "(2 :: nat) ^ 31 = 2 ^ (31 - h) * 2 ^ h" "(2 :: nat) ^ 32 = 2 ^ (32 - h) * 2 ^ h" using h32 by (simp_all flip: power_add)
  have t: "2 ^ (31 - h) \<le> t" "t < 2 ^ (32 - h)" using h unfolding p by simp_all
  have e: "(2 :: nat) ^ (32 * wds b - h - 1) = (2 ^ 32) ^ m * 2 ^ (31 - h)" "(2 :: nat) ^ (32 * wds b - h) = (2 ^ 32) ^ m * 2 ^ (32 - h)"
    using h32 unfolding wm power_mult [symmetric] power_add [symmetric] by (simp_all add: algebra_simps)
  have "(2 ^ 32) ^ m * 2 ^ (31 - h) \<le> (2 ^ 32) ^ m * t" using t(1) by (rule mult_le_mono2)
  then show "2 ^ (32 * wds b - h - 1) \<le> big_val b" unfolding e v by linarith
  have "(2 ^ 32) ^ m * (t + 1) \<le> (2 ^ 32) ^ m * 2 ^ (32 - h)" using t(2) by (intro mult_le_mono2) simp
  then show "big_val b < 2 ^ (32 * wds b - h)" unfolding e v using l by simp
qed

section \<open>Taking a double apart\<close>

definition dbl_field :: "double_union \<Rightarrow> nat" where
  "dbl_field d = unat (word0 d) div 2 ^ 20 mod 2 ^ 11"

text \<open>A finite positive double is \<open>dbl_mant d * 2 ^ (dbl_exp d - 1075)\<close>.\<close>

definition dbl_exp :: "double_union \<Rightarrow> nat" where
  "dbl_exp d = max 1 (dbl_field d)"

definition dbl_mant :: "double_union \<Rightarrow> nat" where
  "dbl_mant d = (if dbl_field d = 0 then 0 else 2 ^ 52) + 2 ^ 32 * (unat (word0 d) mod 2 ^ 20) + unat (word1 d)"

lemma and_mask: "unat (x AND mask n :: u32) = unat x mod 2 ^ n"
  unfolding take_bit_eq_mask [symmetric] unsigned_take_bit_eq by (rule take_bit_eq_mod)

lemma unat_push_mod: "n \<le> 32 \<Longrightarrow> unat (push_bit n x :: u32) = 2 ^ n * (unat x mod 2 ^ (32 - n))"
proof -
  assume n: "n \<le> 32"
  have "unat (push_bit n x) = (2 ^ n * unat x) mod 2 ^ 32"
    unfolding unsigned_push_bit_eq by (simp add: take_bit_eq_mod push_bit_eq_mult mult.commute)
  also have "(2 :: nat) ^ 32 = 2 ^ n * 2 ^ (32 - n)" using n by (simp flip: power_add)
  finally show ?thesis by (simp only: mult_mod_right)
qed

lemma unat_or:
  assumes "2 ^ n dvd unat v" "unat w < 2 ^ n" shows "unat (v OR w :: u32) = unat v + unat w"
proof (cases "n < 32")
  case True
  have w: "take_bit n w = w" by (rule unat_less_power [OF assms(2)])
  have "unat (take_bit n v) = 0" unfolding unsigned_take_bit_eq using assms(1) by (simp add: take_bit_eq_mod)
  then have "v OR w = v + w" using or_plus [OF _ w] by (simp add: unat_eq_0)
  moreover obtain q where q: "unat v = 2 ^ n * q" using assms(1) by blast
  have e: "(2 :: nat) ^ 32 = 2 ^ n * 2 ^ (32 - n)" using True by (simp flip: power_add)
  have "2 ^ n * q < 2 ^ n * 2 ^ (32 - n)" using unat_u32 [of v] q unfolding e [symmetric] by simp
  then have "2 ^ n * (q + 1) \<le> 2 ^ n * 2 ^ (32 - n)" by (intro mult_le_mono2) simp
  then have "unat v + unat w < 2 ^ 32" using assms(2) q unfolding e by simp
  ultimately show ?thesis by (simp add: unat_word_ariths)
next
  case False
  then have "(2 :: nat) ^ 32 \<le> 2 ^ n" by (intro power_increasing) auto
  moreover have "unat v < 2 ^ 32" using unat_u32 [of v] by simp
  ultimately have "unat v = 0" using assms(1) by (metis dvd_imp_le not_le gr0I order_less_le_trans)
  then show ?thesis by (simp add: unat_eq_0)
qed

text \<open>The two words after the zeros at the low end were shifted out.\<close>

lemma d2b_words:
  fixes d1 y z :: u32 and k :: nat
  assumes "d1 \<noteq> 0" "lo0bits d1 = (k, y)"
  defines "x0 \<equiv> if k \<noteq> 0 then y OR push_bit (32 - k) z else y"
  defines "z1 \<equiv> if k \<noteq> 0 then drop_bit k z else z"
  shows "2 ^ k * (unat x0 + 2 ^ 32 * unat z1) = unat d1 + 2 ^ 32 * unat z" and "odd (unat x0)"
proof -
  note lo = lo0bits_ok [OF assms(1,2)]
  have "2 ^ k * (unat x0 + 2 ^ 32 * unat z1) = unat d1 + 2 ^ 32 * unat z \<and> odd (unat x0)"
  proof (cases "k = 0")
    case False
    have e: "(2 :: nat) ^ 32 = 2 ^ k * 2 ^ (32 - k)" using lo(3) by (simp flip: power_add)
    have push: "unat (push_bit (32 - k) z) = 2 ^ (32 - k) * (unat z mod 2 ^ k)"
      using unat_push_mod [of "32 - k" z] lo(3) by simp
    have "2 ^ k * unat y < 2 ^ k * 2 ^ (32 - k)" using unat_u32 [of d1] lo(1) unfolding e [symmetric] by simp
    then have "unat y < 2 ^ (32 - k)" by simp
    then have x0: "unat x0 = 2 ^ (32 - k) * (unat z mod 2 ^ k) + unat y"
      using unat_or [of "32 - k" "push_bit (32 - k) z" y] False push by (simp add: x0_def or.commute)
    have z1: "unat z1 = unat z div 2 ^ k" using False by (simp add: z1_def unat_drop)
    have "2 ^ k * (unat x0 + 2 ^ 32 * unat z1) = 2 ^ k * unat y + 2 ^ 32 * (2 ^ k * (unat z div 2 ^ k) + unat z mod 2 ^ k)"
      unfolding x0 e z1 by (simp only: algebra_simps)
    moreover have "even ((2 :: nat) ^ (32 - k))" using lo(3) by simp
    ultimately show ?thesis using lo(1,2) x0 by simp
  next
    case True
    then show ?thesis using lo by (simp add: x0_def z1_def)
  qed
  then show "2 ^ k * (unat x0 + 2 ^ 32 * unat z1) = unat d1 + 2 ^ 32 * unat z" "odd (unat x0)" by blast+
qed

lemma d2b_fields:
  fixes d :: double_union
  defines "de \<equiv> drop_bit 20 (word0 d AND 0x7FFFFFFF)"
  defines "z \<equiv> if de \<noteq> 0 then (word0 d AND 0xFFFFF) OR 0x100000 else word0 d AND 0xFFFFF"
  shows "unat de = dbl_field d" and "dbl_mant d = unat (word1 d) + 2 ^ 32 * unat z" and "unat z < 2 ^ 21"
proof -
  have m: "(0x7FFFFFFF :: u32) = mask 31" "(0xFFFFF :: u32) = mask 20" by (simp_all add: mask_eq_exp_minus_1)
  have "unat de = unat (word0 d) mod 2 ^ 31 div 2 ^ 20" unfolding de_def m unat_drop and_mask ..
  also have "(2 :: nat) ^ 31 = 2 ^ 20 * 2 ^ 11" by simp
  finally show f: "unat de = dbl_field d" by (simp only: mod_mult2_eq dbl_field_def) (simp add: div_add1_eq)
  have lo: "unat (word0 d AND mask 20) = unat (word0 d) mod 2 ^ 20" by (rule and_mask)
  have "unat (0x100000 OR (word0 d AND mask 20)) = unat (0x100000 :: u32) + unat (word0 d AND mask 20)"
    by (rule unat_or [of 20]) (simp_all only: lo, simp_all)
  then have z: "unat z = unat (word0 d) mod 2 ^ 20 + (if dbl_field d = 0 then 0 else 2 ^ 20)"
    unfolding z_def m using lo f by (simp add: or.commute flip: unat_eq_0)
  then show "dbl_mant d = unat (word1 d) + 2 ^ 32 * unat z" by (simp add: dbl_mant_def)
  have "unat (word0 d) mod 2 ^ 20 < 2 ^ 20" by (rule mod_less_divisor) simp
  moreover have "(if dbl_field d = 0 then 0 else 2 ^ 20) \<le> (2 :: nat) ^ 20" by simp
  ultimately have "unat z < 2 ^ 20 + 2 ^ 20" unfolding z by (rule add_less_le_mono)
  then show "unat z < 2 ^ 21" by simp
qed

text \<open>
  \<open>d2b\<close> is exact: the number times the power of two it reports is the double, the number is odd, and
  \<open>*bits\<close> is its length in bits.
\<close>

lemma d2b_ok:
  assumes ok: "mp_ok own st" and mem: "has_memory st" and nz: "dbl_mant d \<noteq> 0"
  shows "\<exists>p e bits st' w. d2b d st = Some (p, e, bits, st') \<and> p \<notin> own \<and> mp_ok (insert p own) st' \<and> kept own st st' \<and>
    bigs st' p = Some w \<and> odd (big_val w) \<and> sign w = 0 \<and> big_norm w \<and>
    (\<exists>k. e = int (dbl_exp d) - 1075 + int k \<and> dbl_mant d = big_val w * 2 ^ k) \<and>
    0 < bits \<and> 2 ^ (nat bits - 1) \<le> big_val w \<and> big_val w < 2 ^ nat bits"
proof -
  define de where "de = drop_bit 20 (word0 d AND 0x7FFFFFFF)"
  define z where "z = (if de \<noteq> 0 then (word0 d AND 0xFFFFF) OR 0x100000 else word0 d AND 0xFFFFF)"
  have f: "unat de = dbl_field d" "dbl_mant d = unat (word1 d) + 2 ^ 32 * unat z" "unat z < 2 ^ 21"
    using d2b_fields [of d, folded de_def, folded z_def] by blast+
  obtain p st1 v where p: "Balloc 1 st = Some (p, st1)" "p \<notin> own" "mp_ok (insert p own) st1" "kept own st st1" "has_memory st1"
    "bigs st1 p = Some v" "big_k v = 1" "sign v = 0" "length (words v) = 2 ^ 1" "maxwds v = 2 ^ 1"
    by (rule alloc_big [OF ok _ mem, of 1]) (simp, blast)
  obtain u0 u1 where u: "words v = [u0, u1]" using p(9) by (auto simp: length_Suc_conv numeral_2_eq_2)
  define xik where "xik = (if word1 d \<noteq> 0 then
        let (k, y) = lo0bits (word1 d); x0 = (if k \<noteq> 0 then y OR push_bit (32 - k) z else y); z1 = (if k \<noteq> 0 then drop_bit k z else z)
        in ((words v)[0 := x0, 1 := z1], if z1 \<noteq> 0 then 2 else 1, k)
      else let (k, z1) = lo0bits z in ((words v)[0 := z1], 1 :: nat, k + 32))"
  obtain x i k where xik': "xik = (x, i, k)" using prod_cases3 by blast
  have x: "length x = 2" "0 < i" "i \<le> 2" "x ! (i - 1) \<noteq> 0" "val (take i x) * 2 ^ k = dbl_mant d" "odd (val (take i x))"
  proof -
    have "length x = 2 \<and> 0 < i \<and> i \<le> 2 \<and> x ! (i - 1) \<noteq> 0 \<and> val (take i x) * 2 ^ k = dbl_mant d \<and> odd (val (take i x))"
    proof (cases "word1 d = 0")
      case False
      obtain k' y where lo: "lo0bits (word1 d) = (k', y)" by fastforce
      define x0 where "x0 = (if k' \<noteq> 0 then y OR push_bit (32 - k') z else y)"
      define z1 where "z1 = (if k' \<noteq> 0 then drop_bit k' z else z)"
      have w: "2 ^ k' * (unat x0 + 2 ^ 32 * unat z1) = dbl_mant d" "odd (unat x0)"
        using d2b_words [OF False lo, of z] unfolding f(2) x0_def z1_def by blast+
      have e: "x = [x0, z1]" "i = (if z1 \<noteq> 0 then 2 else 1)" "k = k'"
        using False xik' lo unfolding xik_def u by (auto simp: x0_def z1_def Let_def)
      have "x0 \<noteq> 0" using w(2) by (auto simp: unat_eq_0)
      then show ?thesis using w unfolding e by (auto simp: take_Cons' mult.commute)
    next
      case True
      have "z \<noteq> 0" using nz True f(2) by (auto simp: unat_eq_0)
      moreover obtain k' y where lo: "lo0bits z = (k', y)" by fastforce
      ultimately have w: "unat z = 2 ^ k' * unat y" "odd (unat y)" using lo0bits_ok by blast+
      have e: "x = [y, u1]" "i = 1" "k = k' + 32" using True xik' lo unfolding xik_def u by simp_all
      have "y \<noteq> 0" using w(2) by (auto simp: unat_eq_0)
      then show ?thesis using w True unfolding e f(2) by (simp add: power_add)
    qed
    then show "length x = 2" "0 < i" "i \<le> 2" "x ! (i - 1) \<noteq> 0" "val (take i x) * 2 ^ k = dbl_mant d" "odd (val (take i x))" by blast+
  qed
  define w where "w = v\<lparr>words := x, wds := i\<rparr>"
  have w: "big_ok w" "big_norm w" "sign w = 0" "big_val w = val (take i x)" "odd (big_val w)"
    using x p(7,8,10) by (simp_all add: w_def big_ok_def big_norm_def big_val_def)
  define e where "e = (if de \<noteq> 0 then int (unat de) - 1023 - 52 + int k else int (unat de) - 1023 - 52 + 1 + int k)"
  define bits where "bits = (if de \<noteq> 0 then 53 - int k else 32 * int i - int (hi0bits (x ! (i - 1))))"
  have call: "d2b d st = Some (p, e, bits, put_big p w st1)"
    unfolding d2b_def Let_def de_def [symmetric] z_def [symmetric] p(1) Option.bind.simps prod.case p(6)
    using xik' unfolding xik_def Let_def using p(9) by (simp add: w_def e_def bits_def)
  have "e = int (dbl_exp d) - 1075 + int k" using f(1) by (auto simp: e_def dbl_exp_def simp flip: unat_eq_0)
  moreover have bits: "0 < bits" "2 ^ (nat bits - 1) \<le> big_val w" "big_val w < 2 ^ nat bits"
  proof -
    have "0 < bits \<and> 2 ^ (nat bits - 1) \<le> big_val w \<and> big_val w < 2 ^ nat bits"
    proof (cases "de = 0")
      case True
      note bb = big_bits [of w, unfolded w_def bigint.select_convs bigint.update_convs]
      have "nat bits = 32 * i - hi0bits (x ! (i - 1))" using True by (simp add: bits_def)
      moreover have "hi0bits (x ! (i - 1)) < 32" "2 ^ (32 * i - hi0bits (x ! (i - 1)) - 1) \<le> big_val w"
        "big_val w < 2 ^ (32 * i - hi0bits (x ! (i - 1)))"
        using big_bits [of w] x(1-4) by (simp_all add: w_def)
      ultimately show ?thesis using True x(2) by (auto simp: bits_def)
    next
      case False
      then have "unat de \<noteq> 0" using unat_eq_0 [of de] by blast
      then have "dbl_field d \<noteq> 0" using f(1) by simp
      then have lo: "2 ^ 52 \<le> dbl_mant d" by (simp add: dbl_mant_def)
      have hi: "dbl_mant d < 2 ^ 53" using f(2,3) unat_u32 [of "word1 d"] by simp
      have "2 ^ k \<le> dbl_mant d" using x(5,6) w(4) by (metis dvd_0_right gr0I mult_le_mono1 mult_1 One_nat_def Suc_leI)
      then have "(2 :: nat) ^ k < 2 ^ 53" using hi by linarith
      then have k: "k < 53" by (rule power_less_imp_less_exp [rotated]) simp
      have p: "(2 :: nat) ^ 52 = 2 ^ (52 - k) * 2 ^ k" "(2 :: nat) ^ 53 = 2 ^ (53 - k) * 2 ^ k" using k by (simp_all flip: power_add)
      have "2 ^ (52 - k) \<le> big_val w" "big_val w < 2 ^ (53 - k)" using lo hi unfolding x(5) [symmetric] p w(4) by simp_all
      moreover have "nat bits = 53 - k" "nat bits - 1 = 52 - k" "0 < bits" using False k by (auto simp: bits_def)
      ultimately show ?thesis by simp
    qed
    then show "0 < bits" "2 ^ (nat bits - 1) \<le> big_val w" "big_val w < 2 ^ nat bits" by blast+
  qed
  moreover have "mp_ok (insert p own) (put_big p w st1)" by (rule mp_ok_put [OF p(3) _ w(1)]) simp
  moreover have "kept own st (put_big p w st1)" by (rule kept_trans [OF p(4) kept_put [OF p(2)]])
  moreover have "dbl_mant d = big_val w * 2 ^ k" using x(5) w(4) by simp
  ultimately show ?thesis using call p(2) w(2,3,5) by auto
qed

section \<open>The bits of a number\<close>

lemma any_loop: "n \<le> length x \<Longrightarrow> any_loop x n = (if val (take n x) = 0 then 0 else 1)"
  by (induction n) (auto simp: take_Suc_conv_app_nth val_append unat_eq_0)

lemma shift_back: "push_bit r (drop_bit r x) = (x :: u32) \<longleftrightarrow> 2 ^ r dvd unat x"
proof -
  have "push_bit r (drop_bit r x) = x \<longleftrightarrow> take_bit r x = 0"
    by (metis add_cancel_right_right bits_ident)
  also have "\<dots> \<longleftrightarrow> unat x mod 2 ^ r = 0"
    by (simp only: unat_eq_0 [symmetric] unsigned_take_bit_eq) (simp only: take_bit_eq_mod)
  finally show ?thesis by (simp add: dvd_eq_mod_eq_0)
qed

text \<open>\<open>any_on\<close> tells whether one of the lowest \<open>k\<close> bits is set.\<close>

lemma any_on_ok:
  assumes "wds b \<le> length (words b)"
  shows "any_on b k = (if 2 ^ k dvd big_val b then 0 else 1)"
proof -
  define n where "n = k div 32"
  define r where "r = k mod 32"
  have k: "(2 :: nat) ^ k = (2 ^ 32) ^ n * 2 ^ r"
    unfolding n_def r_def power_mult [symmetric] power_add [symmetric] mult_div_mod_eq ..
  have dz: "(2 ^ 32) ^ n dvd val (take n (words b)) \<longleftrightarrow> val (take n (words b)) = 0" if "n \<le> length (words b)"
    using val_less [of "take n (words b)"] that by (auto dest: dvd_imp_le simp: min_absorb2)
  consider "wds b < n" | "wds b = n" | "n < wds b" by linarith
  then show ?thesis
  proof cases
    case 1
    have "(2 :: nat) ^ (32 * wds b) \<le> 2 ^ k" using 1 by (intro power_increasing) (auto simp: n_def)
    then have "big_val b < 2 ^ k" using val_less [of "take (wds b) (words b)"] assms by (simp add: power_mult big_val_def min_absorb2)
    then have "2 ^ k dvd big_val b \<longleftrightarrow> big_val b = 0" by (auto dest: dvd_imp_le)
    then show ?thesis using 1 any_loop [OF assms] by (simp add: any_on_def n_def big_val_def)
  next
    case 2
    have "big_val b < (2 ^ 32) ^ n" using val_less [of "take (wds b) (words b)"] assms 2 by (simp add: big_val_def min_absorb2)
    moreover have "(2 ^ 32) ^ n * 1 \<le> (2 ^ 32) ^ n * (2 :: nat) ^ r" by (intro mult_le_mono2) simp
    ultimately have "big_val b < 2 ^ k" unfolding k by linarith
    then have "2 ^ k dvd big_val b \<longleftrightarrow> big_val b = 0" by (auto dest: dvd_imp_le)
    then show ?thesis using 2 any_loop [OF assms] by (simp add: any_on_def n_def big_val_def)
  next
    case 3
    define lo where "lo = val (take n (words b))"
    define x where "x = words b ! n"
    define rest where "rest = val (take (wds b - Suc n) (drop (Suc n) (words b)))"
    have "take (wds b) (words b) = take n (words b) @ x # take (wds b - Suc n) (drop (Suc n) (words b))"
      using 3 assms take_add_drop [of n "words b" "wds b - n"]
      by (simp add: x_def Cons_nth_drop_Suc [symmetric] Suc_diff_Suc [symmetric] del: take_add_drop)
    then have v: "big_val b = lo + (2 ^ 32) ^ n * (unat x + 2 ^ 32 * rest)"
      using 3 assms by (simp add: big_val_def val_append lo_def rest_def)
    have r: "r < 32" by (simp add: r_def)
    have "2 ^ r dvd (2 :: nat) ^ 32 * rest" by (rule dvd_mult2, rule le_imp_power_dvd) (use r in simp)
    then have x: "2 ^ r dvd unat x + 2 ^ 32 * rest \<longleftrightarrow> 2 ^ r dvd unat x" by (rule dvd_add_left_iff)
    have "2 ^ k dvd big_val b \<longleftrightarrow> lo = 0 \<and> 2 ^ r dvd unat x"
    proof
      assume d: "2 ^ k dvd big_val b"
      then have "(2 ^ 32) ^ n dvd big_val b" unfolding k by (rule dvd_mult_left)
      then have "lo = 0" using dz 3 assms unfolding v lo_def by (simp add: dvd_add_left_iff)
      then show "lo = 0 \<and> 2 ^ r dvd unat x" using d x unfolding k v by simp
    next
      assume "lo = 0 \<and> 2 ^ r dvd unat x"
      then show "2 ^ k dvd big_val b" using x unfolding k v by simp
    qed
    then show ?thesis
      using 3 any_loop [of n "words b"] assms shift_back [of r x]
      by (auto simp: any_on_def Let_def x_def lo_def simp flip: n_def r_def)
  qed
qed

lemma copybits_ok:
  assumes "wds b \<le> length (words b)" "max (nat ((int n - 1) div 32 + 1)) (wds b) \<le> length c"
  shows "\<exists>c'. copybits c n b = Some c' \<and> length c' = length c \<and>
    val (take (max (nat ((int n - 1) div 32 + 1)) (wds b)) c') = big_val b"
proof -
  define m where "m = nat ((int n - 1) div 32 + 1)"
  let ?c = "take (wds b) (words b) @ replicate (m - wds b) 0 @ drop (max m (wds b)) c"
  have "copybits c n b = Some ?c" using assms by (auto simp: copybits_def Let_def simp flip: m_def)
  moreover have "length ?c = length c" using assms unfolding m_def [symmetric] by simp
  moreover have "take (max m (wds b)) ?c = take (wds b) (words b) @ replicate (m - wds b) 0" using assms(1) by (simp add: max_def)
  ultimately have "copybits c n b = Some ?c" "length ?c = length c" "val (take (max m (wds b)) ?c) = big_val b"
    by (simp_all only:) (simp add: big_val_def val_append)
  then show ?thesis unfolding m_def by blast
qed

section \<open>Putting a double together\<close>

text \<open>The pieces of two words that a shift by \<open>j\<close> puts into one.\<close>

lemma funnel:
  assumes "j \<le> 32"
  shows "unat (push_bit j y OR drop_bit (32 - j) z :: u32) = 2 ^ j * (unat y mod 2 ^ (32 - j)) + unat z div 2 ^ (32 - j)"
proof -
  have "(2 :: nat) ^ 32 = 2 ^ j * 2 ^ (32 - j)" using assms by (simp flip: power_add)
  then have "unat z div 2 ^ (32 - j) < 2 ^ j" using unat_u32 [of z] by (simp add: less_mult_imp_div_less)
  then have "unat (push_bit j y OR drop_bit (32 - j) z) = unat (push_bit j y) + unat (drop_bit (32 - j) z)"
    by (intro unat_or [of j]) (simp_all only: unat_push_mod [OF assms] unat_drop dvd_triv_left)
  then show ?thesis by (simp only: unat_push_mod [OF assms] unat_drop)
qed

lemma shift_words:
  fixes y z :: nat
  assumes "s \<le> 32"
  shows "2 ^ 32 * (y div 2 ^ s) + (2 ^ (32 - s) * (y mod 2 ^ s) + z div 2 ^ s) = (2 ^ 32 * y + z) div 2 ^ s"
proof -
  have e: "(2 :: nat) ^ 32 = 2 ^ s * 2 ^ (32 - s)" using assms by (simp flip: power_add)
  have "2 ^ 32 * y + z = z + 2 ^ s * (2 ^ (32 - s) * y)" unfolding e by (simp only: ac_simps)
  then have "(2 ^ 32 * y + z) div 2 ^ s = 2 ^ (32 - s) * y + z div 2 ^ s"
    using div_mult_self2 [of "2 ^ s" z "2 ^ (32 - s) * y"] by (simp only:) simp
  also have "y = 2 ^ s * (y div 2 ^ s) + y mod 2 ^ s" by simp
  then have "2 ^ (32 - s) * y = 2 ^ 32 * (y div 2 ^ s) + 2 ^ (32 - s) * (y mod 2 ^ s)" unfolding e
    using distrib_left [of "2 ^ (32 - s)" "2 ^ s * (y div 2 ^ s)" "y mod 2 ^ s"] by (simp only: ac_simps)
  finally show ?thesis by (simp only: add.assoc)
qed

text \<open>The significand of a double whose exponent field is that of the numbers from 1 to 2.\<close>

lemma one_to_two:
  assumes "2 ^ 20 \<le> unat X" "unat X < 2 ^ 21"
  shows "dbl_field \<lparr>word0 = 0x3FF00000 OR X, word1 = Y\<rparr> = 1023"
    and "dbl_mant \<lparr>word0 = 0x3FF00000 OR X, word1 = Y\<rparr> = 2 ^ 32 * unat X + unat Y"
    and "unat (0x3FF00000 OR X) < 2 ^ 30"
proof -
  define r where "r = unat X - 2 ^ 20"
  have r: "unat X = 2 ^ 20 + r" "r < 2 ^ 20" using assms unfolding r_def by simp_all
  have "unat (X AND mask 20) = r" unfolding and_mask r using r(2) by simp
  then have "unat (0x100000 OR (X AND mask 20)) = unat X"
    using unat_or [of 20 "0x100000 :: u32" "X AND mask 20"] r by simp
  then have "0x100000 OR (X AND mask 20) = X" by (simp only: word_unat_eq_iff)
  then have "0x3FF00000 OR X = (0x3FF00000 OR 0x100000) OR (X AND mask 20)" by (metis or.assoc)
  also have "(0x3FF00000 OR 0x100000 :: u32) = 0x3FF00000" by simp
  finally have "unat (0x3FF00000 OR X) = unat (0x3FF00000 OR (X AND mask 20))" by (simp only:)
  also have "\<dots> = 2 ^ 20 * 1023 + r"
    using unat_or [of 20 "0x3FF00000 :: u32" "X AND mask 20"] \<open>unat (X AND mask 20) = r\<close> r(2) by simp
  finally have w: "unat (0x3FF00000 OR X) = 2 ^ 20 * 1023 + r" .
  show f: "dbl_field \<lparr>word0 = 0x3FF00000 OR X, word1 = Y\<rparr> = 1023" using r(2) by (simp add: dbl_field_def w)
  show "dbl_mant \<lparr>word0 = 0x3FF00000 OR X, word1 = Y\<rparr> = 2 ^ 32 * unat X + unat Y"
  proof -
    have "(2 ^ 20 * 1023 + r) mod 2 ^ 20 = r" using r(2) by (simp only: mod_mult_self4 mod_less)
    then show ?thesis using r by (simp add: dbl_mant_def f w)
  qed
  show "unat (0x3FF00000 OR X) < 2 ^ 30" using r(2) by (simp add: w)
qed

text \<open>The first three words, or zeros where there are fewer.\<close>

lemma top_words:
  assumes "0 < wds a" "wds a \<le> length (words a)"
  shows "big_val a * 2 ^ 96 div 2 ^ (32 * wds a) =
    2 ^ 64 * unat (nth_word (words a) (wds a) 0) + 2 ^ 32 * unat (nth_word (words a) (wds a) 1) + unat (nth_word (words a) (wds a) 2)"
proof -
  let ?x = "words a"
  have "wds a = 1 \<or> wds a = 2 \<or> (\<exists>m. wds a = m + 3)" using assms(1) by presburger
  then consider "wds a = 1" | "wds a = 2" | m where "wds a = m + 3" by blast
  then show ?thesis
  proof cases
    case 1
    then have "take (wds a) ?x = [?x ! 0]" using assms(2) by (cases ?x) simp_all
    then show ?thesis using 1 by (simp add: big_val_def nth_word_def)
  next
    case 2
    then have "take (wds a) ?x = [?x ! 0, ?x ! 1]" using assms(2) by (cases ?x; cases "tl ?x") auto
    then show ?thesis using 2 by (simp add: big_val_def nth_word_def)
  next
    case 3
    define N where "N = 2 ^ 64 * unat (?x ! (m + 2)) + 2 ^ 32 * unat (?x ! (m + 1)) + unat (?x ! m)"
    have "take (wds a) ?x = take m ?x @ [?x ! m, ?x ! (m + 1), ?x ! (m + 2)]"
      using 3 assms(2) by (simp add: numeral_3_eq_3 take_Suc_conv_app_nth)
    then have v: "big_val a = val (take m ?x) + (2 ^ 32) ^ m * N"
      using 3 assms(2) by (simp add: big_val_def val_append N_def)
    have "val (take m ?x) < (2 ^ 32) ^ m" using val_less [of "take m ?x"] 3 assms(2) by simp
    then have "big_val a div (2 ^ 32) ^ m = N" unfolding v by simp
    moreover have "(2 :: nat) ^ (32 * wds a) = (2 ^ 32) ^ m * 2 ^ 96" unfolding 3 by (simp add: power_mult power_add)
    ultimately have "big_val a * 2 ^ 96 div 2 ^ (32 * wds a) = N" by (simp only:) simp
    then show ?thesis using 3 by (simp add: nth_word_def N_def)
  qed
qed

text \<open>The two arms of \<open>b2d\<close>: the first word is shifted down, or it is filled up from the next one.\<close>

lemma b2d_down:
  fixes Y W V :: u32
  assumes h: "h \<le> 11" and y: "2 ^ 31 \<le> unat Y * 2 ^ h" "unat Y * 2 ^ h < 2 ^ 32"
  defines "X \<equiv> drop_bit (11 - h) Y" and "Z \<equiv> if h < 11 then push_bit (21 + h) Y OR drop_bit (11 - h) W else W"
  shows "2 ^ 20 \<le> unat X" "unat X < 2 ^ 21"
    and "2 ^ 32 * unat X + unat Z = (2 ^ 64 * unat Y + 2 ^ 32 * unat W + unat V) div 2 ^ (43 - h)"
proof -
  define s where "s = 11 - h"
  have s: "s \<le> 32" "11 - h = s" "21 + h = 32 - s" "43 - h = 32 + s" using h by (simp_all add: s_def)
  have X: "unat X = unat Y div 2 ^ s" by (simp add: X_def s unat_drop)
  have Z: "unat Z = 2 ^ (32 - s) * (unat Y mod 2 ^ s) + unat W div 2 ^ s"
    using funnel [of "32 - s" Y W] h by (simp add: Z_def s_def)
  have "(2 ^ 64 * unat Y + 2 ^ 32 * unat W + unat V) div 2 ^ 32 = 2 ^ 32 * unat Y + unat W"
    using unat_u32 [of V] by simp
  then show "2 ^ 32 * unat X + unat Z = (2 ^ 64 * unat Y + 2 ^ 32 * unat W + unat V) div 2 ^ (43 - h)"
    unfolding s X Z shift_words [OF s(1)] power_add div_mult2_eq by (simp only:)
  have "(2 :: nat) ^ 31 = (2 ^ 20 * 2 ^ s) * 2 ^ h" "(2 :: nat) ^ 32 = (2 ^ 21 * 2 ^ s) * 2 ^ h"
    using h by (simp_all add: s_def flip: power_add)
  then have "(2 ^ 20 * 2 ^ s) * 2 ^ h \<le> unat Y * 2 ^ h" "unat Y * 2 ^ h < (2 ^ 21 * 2 ^ s) * 2 ^ h" using y by (simp_all only:)
  then have "2 ^ 20 * 2 ^ s \<le> unat Y" "unat Y < 2 ^ 21 * 2 ^ s"
    by (simp_all only: mult_le_cancel2 mult_less_cancel2 zero_less_power zero_less_numeral simp_thms)
  then show "2 ^ 20 \<le> unat X" "unat X < 2 ^ 21" unfolding X by (simp_all only: less_eq_div_iff_mult_less_eq div_less_iff_less_mult zero_less_power zero_less_numeral)
qed

lemma b2d_up:
  fixes Y W V :: u32
  assumes h: "11 < h" "h < 32" and y: "2 ^ 31 \<le> unat Y * 2 ^ h" "unat Y * 2 ^ h < 2 ^ 32"
  defines "X \<equiv> push_bit (h - 11) Y OR drop_bit (32 - (h - 11)) W" and "Z \<equiv> push_bit (h - 11) W OR drop_bit (32 - (h - 11)) V"
  shows "2 ^ 20 \<le> unat X" "unat X < 2 ^ 21"
    and "2 ^ 32 * unat X + unat Z = (2 ^ 64 * unat Y + 2 ^ 32 * unat W + unat V) div 2 ^ (43 - h)"
proof -
  define j where "j = h - 11"
  have j: "j \<le> 32" "j \<noteq> 0" "43 - h = 32 - j" using h by (simp_all add: j_def)
  have "(2 :: nat) ^ 32 = 2 ^ (32 - h) * 2 ^ h" "(2 :: nat) ^ 31 = 2 ^ (31 - h) * 2 ^ h" using h by (simp_all flip: power_add)
  then have "unat Y * 2 ^ h < 2 ^ (32 - h) * 2 ^ h" "2 ^ (31 - h) * 2 ^ h \<le> unat Y * 2 ^ h" using y by (simp_all only:)
  then have Y: "unat Y < 2 ^ (32 - h)" "2 ^ (31 - h) \<le> unat Y"
    by (simp_all only: mult_le_cancel2 mult_less_cancel2 zero_less_power zero_less_numeral simp_thms)
  have "(2 :: nat) ^ (32 - h) \<le> 2 ^ (32 - j)" using j_def by (intro power_increasing) simp_all
  then have "unat Y mod 2 ^ (32 - j) = unat Y" using Y(1) by (intro mod_less) linarith
  then have X: "unat X = 2 ^ j * unat Y + unat W div 2 ^ (32 - j)" unfolding X_def j_def [symmetric] funnel [OF j(1)] by (simp only:)
  have Z: "unat Z = 2 ^ j * (unat W mod 2 ^ (32 - j)) + unat V div 2 ^ (32 - j)" unfolding Z_def j_def [symmetric] by (rule funnel [OF j(1)])
  have e: "(2 :: nat) ^ 64 = 2 ^ (32 - j) * (2 ^ 32 * 2 ^ j)" "(2 :: nat) ^ 32 = 2 ^ (32 - j) * 2 ^ j" using j(1) by (simp_all flip: power_add)
  have "(2 ^ 64 * unat Y + 2 ^ 32 * unat W + unat V) = (2 ^ 32 * unat W + unat V) + 2 ^ (32 - j) * (2 ^ 32 * 2 ^ j * unat Y)"
    unfolding e(1) by (simp only: ac_simps)
  then have "(2 ^ 64 * unat Y + 2 ^ 32 * unat W + unat V) div 2 ^ (32 - j) = (2 ^ 32 * unat W + unat V) div 2 ^ (32 - j) + 2 ^ 32 * 2 ^ j * unat Y"
    using div_mult_self2 [of "2 ^ (32 - j)" "2 ^ 32 * unat W + unat V" "2 ^ 32 * 2 ^ j * unat Y"] by (simp only:) simp
  also have "\<dots> = 2 ^ 32 * unat X + unat Z"
    using shift_words [of "32 - j" "unat W" "unat V"] j(1) unfolding X Z by simp
  finally show "2 ^ 32 * unat X + unat Z = (2 ^ 64 * unat Y + 2 ^ 32 * unat W + unat V) div 2 ^ (43 - h)" unfolding j(3) ..
  have f: "(2 :: nat) ^ 20 = 2 ^ j * 2 ^ (31 - h)" "(2 :: nat) ^ 21 = 2 ^ j * 2 ^ (32 - h)"
    using h by (simp_all add: j_def flip: power_add)
  have "2 ^ j * 2 ^ (31 - h) \<le> 2 ^ j * unat Y" using Y(2) by (rule mult_le_mono2)
  then show "2 ^ 20 \<le> unat X" unfolding X f by linarith
  have "unat W div 2 ^ (32 - j) < 2 ^ j" using unat_u32 [of W] e(2) by (simp add: less_mult_imp_div_less mult.commute)
  moreover have "2 ^ j * (unat Y + 1) \<le> 2 ^ j * 2 ^ (32 - h)" using Y(1) by (intro mult_le_mono2) simp
  ultimately show "unat X < 2 ^ 21" unfolding X f by simp
qed

lemma b2d_ok:
  assumes "0 < wds a" "wds a \<le> length (words a)" "words a ! (wds a - 1) \<noteq> 0"
  defines "h \<equiv> hi0bits (words a ! (wds a - 1))"
  shows "\<exists>d. b2d a = Some (d, 32 - int h) \<and> unat (word0 d) < 2 ^ 30 \<and> dbl_field d = 1023 \<and>
    dbl_mant d = big_val a * 2 ^ 53 div 2 ^ (32 * wds a - h)"
proof -
  define Y W V where "Y = nth_word (words a) (wds a) 0" and "W = nth_word (words a) (wds a) 1" and "V = nth_word (words a) (wds a) 2"
  have Yh: "words a ! (wds a - 1) = Y" using assms(1) by (simp add: Y_def nth_word_def)
  have h32: "h < 32" using big_bits [OF assms(2,1,3)] by (simp add: h_def)
  have hY: "hi0bits Y = h" unfolding h_def Yh ..
  have y: "2 ^ 31 \<le> unat Y * 2 ^ h" "unat Y * 2 ^ h < 2 ^ 32" using hi0bits_ok [OF assms(3)] unfolding h_def Yh by blast+
  have "(2 :: nat) ^ (32 * wds a) * 2 ^ (43 - h) = 2 ^ (32 * wds a - h) * 2 ^ 43" "(2 :: nat) ^ 96 = 2 ^ 53 * 2 ^ 43"
  proof -
    have "32 * wds a + (43 - h) = (32 * wds a - h) + 43" using h32 assms(1) by simp
    then show "(2 :: nat) ^ (32 * wds a) * 2 ^ (43 - h) = 2 ^ (32 * wds a - h) * 2 ^ 43" by (simp only: power_add [symmetric])
  qed simp
  then have "big_val a * 2 ^ 53 div 2 ^ (32 * wds a - h) = big_val a * 2 ^ 96 div 2 ^ (32 * wds a) div 2 ^ (43 - h)"
    by (simp only: div_mult2_eq [symmetric] mult.assoc [symmetric]) (simp add: mult.commute)
  then have m: "big_val a * 2 ^ 53 div 2 ^ (32 * wds a - h) = (2 ^ 64 * unat Y + 2 ^ 32 * unat W + unat V) div 2 ^ (43 - h)"
    unfolding top_words [OF assms(1,2)] Y_def [symmetric] W_def [symmetric] V_def [symmetric] .
  have "\<exists>X Z. b2d a = Some (\<lparr>word0 = 0x3FF00000 OR X, word1 = Z\<rparr>, 32 - int h) \<and> 2 ^ 20 \<le> unat X \<and> unat X < 2 ^ 21 \<and>
    2 ^ 32 * unat X + unat Z = (2 ^ 64 * unat Y + 2 ^ 32 * unat W + unat V) div 2 ^ (43 - h)"
  proof (cases "h \<le> 11")
    case True
    show ?thesis
      using assms(1,2) True b2d_down(1,2) [OF True y] b2d_down(3) [OF True y, of W V] unfolding b2d_def Let_def Y_def [symmetric] W_def [symmetric] V_def [symmetric]
      by (auto simp: hY)
  next
    case False
    show ?thesis
      using assms(1,2) False b2d_up(1,2) [OF _ h32 y, of W] b2d_up(3) [OF _ h32 y, of W V] unfolding b2d_def Let_def Y_def [symmetric] W_def [symmetric] V_def [symmetric]
      by (auto simp: hY or.assoc)
  qed
  then obtain X Z where b: "b2d a = Some (\<lparr>word0 = 0x3FF00000 OR X, word1 = Z\<rparr>, 32 - int h)"
    and X: "2 ^ 20 \<le> unat X" "unat X < 2 ^ 21"
    and XZ: "2 ^ 32 * unat X + unat Z = (2 ^ 64 * unat Y + 2 ^ 32 * unat W + unat V) div 2 ^ (43 - h)" by blast
  show ?thesis unfolding m XZ [symmetric] using b one_to_two [OF X] by auto
qed

section \<open>The unit of the last place\<close>

text \<open>The result of \<open>ulp\<close> is the power of two that the lowest bit of the significand stands for.\<close>

lemma ulp_ok: "dbl_mant (ulp x) * 2 ^ dbl_exp (ulp x) = 2 ^ dbl_exp x"
proof -
  define f where "f = dbl_field x"
  have f: "f < 2048" by (simp add: f_def dbl_field_def)
  have "(0x7FF00000 :: u32) = push_bit 20 (mask 11)" by (simp add: mask_eq_exp_minus_1)
  moreover have "word0 x AND push_bit 20 (mask 11) = push_bit 20 (drop_bit 20 (word0 x) AND mask 11)"
    by (intro bit_word_eqI) (auto simp: bit_and_iff bit_push_bit_iff bit_drop_bit_eq)
  ultimately have "word0 x AND 0x7FF00000 = push_bit 20 (drop_bit 20 (word0 x) AND mask 11)" by (simp only:)
  then have "unat (word0 x AND 0x7FF00000) = 2 ^ 20 * (f mod 2 ^ 12)"
    using unat_push_mod [of 20 "drop_bit 20 (word0 x) AND mask 11"] by (simp only: and_mask unat_drop f_def dbl_field_def) simp
  then have L: "int (unat (word0 x AND 0x7FF00000)) - 52 * 0x100000 = 1048576 * (int f - 52)" using f by simp
  show ?thesis
  proof (cases "52 < f")
    case True
    define w where "w = (word_of_int (1048576 * (int f - 52)) :: u32)"
    have "1048576 * (int f - 52) = int (1048576 * (f - 52))" using True by (simp add: of_nat_diff)
    then have "w = of_nat (1048576 * (f - 52))" unfolding w_def by (simp only: of_int_of_nat_eq)
    then have "unat w = 1048576 * (f - 52)" using f by (simp only: unat_of_nat) simp
    then have w: "unat w div 2 ^ 20 mod 2 ^ 11 = f - 52" "unat w mod 2 ^ 20 = 0" using f by simp_all
    have "ulp x = \<lparr>word0 = w, word1 = 0\<rparr>" using True unfolding ulp_def L w_def by simp
    then have "dbl_field (ulp x) = f - 52" "dbl_mant (ulp x) = 2 ^ 52" using w True by (simp_all add: dbl_field_def dbl_mant_def)
    moreover have "max 1 (f - 52) = f - 52" using True by simp
    ultimately have "dbl_mant (ulp x) * 2 ^ dbl_exp (ulp x) = 2 ^ (52 + (f - 52))" by (simp only: dbl_exp_def power_add)
    also have "\<dots> = 2 ^ dbl_exp x" using True by (simp add: dbl_exp_def f_def max_def)
    finally show ?thesis .
  next
    case False
    have "nat (- (1048576 * (int f - 52)) div 0x100000) = 52 - f"
    proof -
      have "- (1048576 * (int f - 52)) = (52 - int f) * 1048576" by simp
      then show ?thesis using False by simp
    qed
    then have u: "ulp x = (if 52 - f < 20 then \<lparr>word0 = drop_bit (52 - f) 0x80000, word1 = 0\<rparr>
        else \<lparr>word0 = 0, word1 = (if 31 \<le> 52 - f - 20 then 1 else push_bit (31 - (52 - f - 20)) 1)\<rparr>)"
      using False unfolding ulp_def L Let_def by simp
    have "f \<in> set [0..<53]" using False by auto
    then have "dbl_field (ulp x) = 0 \<and> dbl_mant (ulp x) = 2 ^ (max 1 f - 1)"
      unfolding u by (simp add: upt_rec) (elim disjE; simp add: dbl_field_def dbl_mant_def)
    moreover have "(2 :: nat) ^ (max 1 f - 1) * 2 ^ 1 = 2 ^ max 1 f" by (simp add: max_def flip: power_Suc2)
    ultimately show ?thesis by (simp add: dbl_exp_def f_def)
  qed
qed

section \<open>Properties\<close>

lemma dbl_mant_range: "dbl_mant d < 2 ^ 53" "dbl_field d \<noteq> 0 \<longrightarrow> 2 ^ 52 \<le> dbl_mant d"
proof -
  have "unat (word0 d) mod 2 ^ 20 \<le> 2 ^ 20 - 1" using mod_less_divisor [of "2 ^ 20" "unat (word0 d)"] by simp
  then have "2 ^ 32 * (unat (word0 d) mod 2 ^ 20) \<le> 2 ^ 32 * (2 ^ 20 - 1)" by (rule mult_le_mono2)
  then show "dbl_mant d < 2 ^ 53" using unat_u32 [of "word1 d"] by (simp add: dbl_mant_def)
qed (simp add: dbl_mant_def)

text \<open>C30: \<open>d2b\<close> and \<open>b2d\<close> are inverse: for a positive double \<open>d2b\<close> makes an odd number and an exponent that give
  exactly its value, and \<open>*bits\<close> is the length of the number in bits. \<open>b2d\<close> of this number returns the same
  significand with the exponent of the numbers from 1 to 2, where that of a denormal double is shifted to the
  left end, and an exponent from which that of the double is found again.\<close>

theorem d2b_b2d:
  assumes "mp_ok own st" "has_memory st" "dbl_mant d \<noteq> 0"
  shows "\<exists>p e bits st' w d' e' k s. d2b d st = Some (p, e, bits, st') \<and> p \<notin> own \<and> mp_ok (insert p own) st' \<and> bigs st' p = Some w \<and>
    odd (big_val w) \<and> dbl_mant d = big_val w * 2 ^ k \<and> e = int (dbl_exp d) - 1075 + int k \<and>
    2 ^ (nat bits - 1) \<le> big_val w \<and> big_val w < 2 ^ nat bits \<and>
    b2d w = Some (d', e') \<and> dbl_field d' = 1023 \<and> dbl_mant d' = dbl_mant d * 2 ^ s \<and> (dbl_field d \<noteq> 0 \<longrightarrow> s = 0) \<and>
    e + e' + 32 * (int (wds w) - 1) = int (dbl_exp d) - 1022 - int s"
proof -
  obtain p e bits st' w k where a: "d2b d st = Some (p, e, bits, st')" "p \<notin> own" "mp_ok (insert p own) st'" "bigs st' p = Some w"
    "odd (big_val w)" "big_norm w" "e = int (dbl_exp d) - 1075 + int k" "dbl_mant d = big_val w * 2 ^ k"
    "2 ^ (nat bits - 1) \<le> big_val w" "big_val w < 2 ^ nat bits"
    using d2b_ok [OF assms] by blast
  define L where "L = 32 * wds w - hi0bits (words w ! (wds w - 1))"
  have len: "wds w \<le> length (words w)" using big_okD(1) mp_okD(2) [OF a(3,4)] by blast
  have top: "words w ! (wds w - 1) \<noteq> 0"
  proof (cases "wds w = 1")
    case True
    then have "take (wds w) (words w) = [words w ! 0]" using len by (cases "words w") simp_all
    then show ?thesis using True a(5) by (auto simp: big_val_def)
  qed (use a(6) in \<open>auto simp: big_norm_def\<close>)
  have n: "0 < wds w" using a(6) by (simp add: big_norm_def)
  note bits = big_bits [OF len n top, folded L_def]
  obtain d' where d': "b2d w = Some (d', 32 - int (hi0bits (words w ! (wds w - 1))))" "dbl_field d' = 1023"
    "dbl_mant d' = big_val w * 2 ^ 53 div 2 ^ L" using b2d_ok [OF n len top] unfolding L_def by blast
  have mant: "dbl_mant d < 2 ^ 53" "dbl_field d \<noteq> 0 \<longrightarrow> 2 ^ 52 \<le> dbl_mant d" by (rule dbl_mant_range)+
  have "2 ^ (L - 1) * 2 ^ k \<le> big_val w * 2 ^ k" using bits(2) by (rule mult_le_mono1)
  then have "(2 :: nat) ^ (L - 1 + k) < 2 ^ 53" using mant(1) a(8) unfolding power_add by linarith
  then have "L - 1 + k < 53" by (rule power_less_imp_less_exp [rotated]) simp
  then have Lk: "L + k \<le> 53" using bits(1) n by (simp add: L_def)
  define s where "s = 53 - L - k"
  have "(2 :: nat) ^ 53 = 2 ^ L * (2 ^ k * 2 ^ s)" using Lk by (simp add: s_def flip: power_add)
  then have "dbl_mant d' = big_val w * (2 ^ L * (2 ^ k * 2 ^ s)) div 2 ^ L" using d'(3) by (simp only:)
  then have m: "dbl_mant d' = dbl_mant d * 2 ^ s" unfolding a(8) by (simp add: mult.left_commute mult.assoc)
  have "s = 0" if "dbl_field d \<noteq> 0"
  proof -
    have "big_val w * 2 ^ k < 2 ^ L * 2 ^ k" using bits(3) by simp
    then have "(2 :: nat) ^ 52 < 2 ^ (L + k)" using mant(2) that a(8) unfolding power_add by linarith
    then have "52 < L + k" by (rule power_less_imp_less_exp [rotated]) simp
    then show ?thesis by (simp add: s_def)
  qed
  moreover have "e + (32 - int (hi0bits (words w ! (wds w - 1)))) + 32 * (int (wds w) - 1) = int (dbl_exp d) - 1022 - int s"
    using Lk bits(1) n by (simp add: a(7) s_def L_def of_nat_diff)
  ultimately show ?thesis using a d' m by blast
qed

text \<open>The double 1.5.\<close>

theorem d2b_b2d_witness:
  "\<exists>p e bits st' w d' e'. d2b \<lparr>word0 = 0x3FF80000, word1 = 0\<rparr> sample_store = Some (p, e, bits, st') \<and> bigs st' p = Some w \<and>
    odd (big_val w) \<and> b2d w = Some (d', e') \<and> dbl_mant d' = 3 * 2 ^ 51"
proof -
  have d: "dbl_mant \<lparr>word0 = 0x3FF80000, word1 = 0\<rparr> = 3 * 2 ^ 51" "dbl_field \<lparr>word0 = 0x3FF80000, word1 = 0\<rparr> \<noteq> 0"
    by (simp_all add: dbl_mant_def dbl_field_def)
  show ?thesis using d2b_b2d [OF sample_store_ok, of "\<lparr>word0 = 0x3FF80000, word1 = 0\<rparr>"] d by auto
qed

end
