(* ===== verification/NanoMalloc.thy ===== *)
theory NanoMalloc
  imports MemFuns
begin

text \<open>
  The allocator: \<open>stdlib/nano-mallocr.c\<close>, with \<open>_sbrk_r\<close> of \<open>reent/sbrkr.c\<close> and the \<open>_sbrk\<close> of
  \<open>test/interface.c\<close> below it. Chunks are records in memory: at a chunk the \<open>long size\<close>, and in a free
  chunk four bytes further the pointer to the next one. \<open>NULL\<close> is address 0. The state behind
  \<open>_sbrk\<close> is a parameter, so that its failures are covered, and the contract between the allocator
  and its memory source is the locale \<open>sbrk_source\<close>.
\<close>

unbundle bit_operations_syntax

section \<open>State\<close>

record 'k heap =
  hmem :: mem
  free_list :: nat
  sbrk_start :: nat
  RERRNO :: int
  kern :: 'k

text \<open>A memory source: from its state and the increment to the state, the result and \<open>errno\<close>.\<close>

type_synonym 'k sbrk = "'k \<Rightarrow> u32 \<Rightarrow> 'k \<times> nat \<times> int"

definition ENOMEM :: int where "ENOMEM = 12"
definition CHUNK_ALIGN :: u32 where "CHUNK_ALIGN = 4"
definition MALLOC_ALIGN :: u32 where "MALLOC_ALIGN = 8"
definition MALLOC_PADDING :: u32 where "MALLOC_PADDING = max MALLOC_ALIGN CHUNK_ALIGN - CHUNK_ALIGN"
definition MALLOC_MINSIZE :: u32 where "MALLOC_MINSIZE = 4"
definition CHUNK_OFFSET :: u32 where "CHUNK_OFFSET = 4"
definition MALLOC_MINCHUNK :: u32 where "MALLOC_MINCHUNK = CHUNK_OFFSET + MALLOC_PADDING + MALLOC_MINSIZE"
definition MAX_ALLOC_SIZE :: u32 where "MAX_ALLOC_SIZE = 0x80000000"
definition MALLOC_PAGE_ALIGN :: u32 where "MALLOC_PAGE_ALIGN = 0x1000"

lemmas malloc_consts = CHUNK_ALIGN_def MALLOC_ALIGN_def MALLOC_PADDING_def MALLOC_MINSIZE_def CHUNK_OFFSET_def
  MALLOC_MINCHUNK_def MAX_ALLOC_SIZE_def MALLOC_PAGE_ALIGN_def

lemma malloc_values: "CHUNK_ALIGN = 4" "MALLOC_PADDING = 4" "CHUNK_OFFSET = 4" "MALLOC_MINCHUNK = 12"
  by (simp_all add: malloc_consts)

definition ALIGN_TO :: "u32 \<Rightarrow> u32 \<Rightarrow> u32" where
  "ALIGN_TO sz align = (sz + align - 1) AND NOT (align - 1)"

text \<open>\<open>(void *) -1\<close>\<close>

definition SBRK_FAILED :: nat where "SBRK_FAILED = 0xFFFFFFFF"

definition chunk_size :: "mem \<Rightarrow> nat \<Rightarrow> int" where "chunk_size m c = sint (load32 m c)"
definition chunk_next :: "mem \<Rightarrow> nat \<Rightarrow> nat" where "chunk_next m c = unat (load32 m (c + 4))"
definition set_next :: "mem \<Rightarrow> nat \<Rightarrow> nat \<Rightarrow> mem" where "set_next m c p = store32 m (c + 4) (of_nat p)"

text \<open>\<open>p->size += q->size\<close>\<close>

definition add_size :: "mem \<Rightarrow> nat \<Rightarrow> nat \<Rightarrow> mem" where
  "add_size m p q = store32 m p (load32 m p + load32 m q)"

section \<open>The memory source\<close>

text \<open>
  \<open>_sbrk\<close> of \<open>test/interface.c\<close>: the state is \<open>heap_end\<close>, \<open>end_sym\<close> the address of the linker symbol
  \<open>end\<close>. It never fails and leaves \<open>errno\<close> alone.
\<close>

definition sbrk_interface :: "nat \<Rightarrow> nat sbrk" where
  "sbrk_interface end_sym heap_end incr =
     (let e0 = (if heap_end = 0 then end_sym else heap_end)
      in (unat (of_nat e0 + incr :: u32), e0, 0))"

definition sbrk_r :: "'k sbrk \<Rightarrow> 'k heap \<Rightarrow> u32 \<Rightarrow> 'k heap \<times> nat" where
  "sbrk_r sb h incr =
     (let (k, ret, err) = sb (kern h) incr; h1 = h\<lparr>kern := k\<rparr>
      in (if ret = SBRK_FAILED \<and> err \<noteq> 0 then h1\<lparr>RERRNO := err\<rparr> else h1, ret))"

definition sbrk_aligned :: "'k sbrk \<Rightarrow> 'k heap \<Rightarrow> u32 \<Rightarrow> 'k heap \<times> nat" where
  "sbrk_aligned sb h s =
     (let h0 = (if sbrk_start h = 0 then (let (h', p0) = sbrk_r sb h 0 in h'\<lparr>sbrk_start := p0\<rparr>) else h);
          (h1, p) = sbrk_r sb h0 s
      in if p = SBRK_FAILED then (h1, p)
         else (let align_p = ALIGN_TO (of_nat p) CHUNK_ALIGN in
           if align_p \<noteq> of_nat p then
             (let (h2, p2) = sbrk_r sb h1 (align_p - of_nat p)
              in if p2 = SBRK_FAILED then (h2, p2) else (h2, unat align_p))
           else (h1, unat align_p)))"

section \<open>malloc\<close>

text \<open>
  The walk through the free list: \<open>p\<close> is the chunk before \<open>r\<close>, or \<open>r\<close> itself at the head. The result
  is the memory, the free list and the chunk found, 0 if there is none.
\<close>

partial_function (option) fit_loop :: "u32 \<Rightarrow> mem \<Rightarrow> nat \<Rightarrow> nat \<Rightarrow> nat \<Rightarrow> (mem \<times> nat \<times> nat) option" where
  "fit_loop alloc m fl p r =
     (if r = 0 then Some (m, fl, 0)
      else (let rem = sint (load32 m r - alloc) in
        if 0 \<le> rem then
          (if uint MALLOC_MINCHUNK \<le> rem then
             (let m1 = store32 m r (word_of_int rem); r1 = r + nat rem
              in Some (store32 m1 r1 alloc, fl, r1))
           else if p = r then Some (m, chunk_next m r, r)
           else Some (set_next m p (chunk_next m r), fl, r))
        else fit_loop alloc m fl r (chunk_next m r)))"

declare fit_loop.simps [code]

text \<open>The end of \<open>nano_malloc\<close>: the aligned pointer into the chunk \<open>r\<close>, with the offset stored below it.\<close>

definition malloc_ptr :: "mem \<Rightarrow> nat \<Rightarrow> mem \<times> nat" where
  "malloc_ptr m r =
     (let ptr = r + unat CHUNK_OFFSET;
          align_ptr = unat (ALIGN_TO (of_nat ptr) MALLOC_ALIGN);
          offset = of_nat align_ptr - of_nat ptr :: u32
      in (if offset \<noteq> 0 then store32 m (r + unat offset) (- offset) else m, align_ptr))"

definition malloc_alloc_size :: "u32 \<Rightarrow> u32" where
  "malloc_alloc_size s = max (ALIGN_TO s CHUNK_ALIGN + MALLOC_PADDING + CHUNK_OFFSET) MALLOC_MINCHUNK"

definition nano_malloc :: "'k sbrk \<Rightarrow> 'k heap \<Rightarrow> u32 \<Rightarrow> ('k heap \<times> nat) option" where
  "nano_malloc sb h s =
     (let alloc_size = malloc_alloc_size s in
      if MAX_ALLOC_SIZE \<le> alloc_size \<or> alloc_size < s then Some (h\<lparr>RERRNO := ENOMEM\<rparr>, 0)
      else case fit_loop alloc_size (hmem h) (free_list h) (free_list h) (free_list h) of None \<Rightarrow> None
        | Some (m, fl, r) \<Rightarrow>
            (let h1 = h\<lparr>hmem := m, free_list := fl\<rparr> in
             if r = 0 then
               (let (h2, q) = sbrk_aligned sb h1 alloc_size in
                if q = SBRK_FAILED then Some (h2\<lparr>RERRNO := ENOMEM\<rparr>, 0)
                else (let (m', a) = malloc_ptr (store32 (hmem h2) q alloc_size) q
                      in Some (h2\<lparr>hmem := m'\<rparr>, a)))
             else (let (m', a) = malloc_ptr m r in Some (h1\<lparr>hmem := m'\<rparr>, a))))"

section \<open>free\<close>

definition get_chunk_from_ptr :: "mem \<Rightarrow> nat \<Rightarrow> nat" where
  "get_chunk_from_ptr m ptr =
     (let c = ptr - unat CHUNK_OFFSET
      in if chunk_size m c < 0 then nat (int c + chunk_size m c) else c)"

text \<open>\<open>do { p = q; q = q->next; } while (q && q <= p_to_free);\<close>\<close>

partial_function (option) free_loop :: "mem \<Rightarrow> nat \<Rightarrow> nat \<Rightarrow> (nat \<times> nat) option" where
  "free_loop m c q0 =
     (let q = chunk_next m q0 in if q \<noteq> 0 \<and> q \<le> c then free_loop m c q else Some (q0, q))"

declare free_loop.simps [code]

text \<open>Behind the loop: merge the chunk \<open>c\<close> with its neighbours \<open>p\<close> and \<open>q\<close>.\<close>

definition free_merge :: "'k heap \<Rightarrow> nat \<Rightarrow> nat \<Rightarrow> nat \<Rightarrow> 'k heap" where
  "free_merge h c p q =
     (let m = hmem h in
      if int p + chunk_size m p = int c then
        (let m1 = add_size m p c
         in if int p + chunk_size m1 p = int q
            then (let m2 = add_size m1 p q in h\<lparr>hmem := set_next m2 p (chunk_next m2 q)\<rparr>)
            else h\<lparr>hmem := m1\<rparr>)
      else if int p + chunk_size m p > int c then h\<lparr>RERRNO := ENOMEM\<rparr>
      else if int c + chunk_size m c = int q then
        (let m1 = add_size m c q; m2 = set_next m1 c (chunk_next m1 q)
         in h\<lparr>hmem := set_next m2 p c\<rparr>)
      else h\<lparr>hmem := set_next (set_next m c q) p c\<rparr>)"

definition nano_free :: "'k heap \<Rightarrow> nat \<Rightarrow> 'k heap option" where
  "nano_free h free_p =
     (if free_p = 0 then Some h
      else (let m = hmem h; c = get_chunk_from_ptr m free_p; fl = free_list h in
        if fl = 0 then Some (h\<lparr>hmem := set_next m c fl, free_list := c\<rparr>)
        else if c < fl then
          (if int c + chunk_size m c = int fl then
             (let m1 = add_size m c fl in Some (h\<lparr>hmem := set_next m1 c (chunk_next m1 fl), free_list := c\<rparr>))
           else Some (h\<lparr>hmem := set_next m c fl, free_list := c\<rparr>))
        else (case free_loop m c fl of None \<Rightarrow> None | Some (p, q) \<Rightarrow> Some (free_merge h c p q))))"

definition nano_cfree :: "'k heap \<Rightarrow> nat \<Rightarrow> 'k heap option" where
  "nano_cfree h ptr = nano_free h ptr"

section \<open>The other entry points\<close>

definition nano_calloc :: "'k sbrk \<Rightarrow> 'k heap \<Rightarrow> u32 \<Rightarrow> u32 \<Rightarrow> ('k heap \<times> nat) option" where
  "nano_calloc sb h n elem =
     (case nano_malloc sb h (n * elem) of None \<Rightarrow> None
      | Some (h1, p) \<Rightarrow>
          if p \<noteq> 0 then Some (h1\<lparr>hmem := fst (memset (hmem h1) p 0 (unat (n * elem)))\<rparr>, p) else Some (h1, p))"

definition nano_malloc_usable_size :: "mem \<Rightarrow> nat \<Rightarrow> u32" where
  "nano_malloc_usable_size m ptr =
     (let c = ptr - unat CHUNK_OFFSET; size_or_offset = chunk_size m c
      in if size_or_offset < 0
         then load32 m (nat (int c + chunk_size m c)) - CHUNK_OFFSET + word_of_int size_or_offset
         else load32 m c - CHUNK_OFFSET)"

definition nano_realloc :: "'k sbrk \<Rightarrow> 'k heap \<Rightarrow> nat \<Rightarrow> u32 \<Rightarrow> ('k heap \<times> nat) option" where
  "nano_realloc sb h ptr sz =
     (if ptr = 0 then nano_malloc sb h sz
      else if sz = 0 then (case nano_free h ptr of None \<Rightarrow> None | Some h1 \<Rightarrow> Some (h1, 0))
      else if sz \<le> nano_malloc_usable_size (hmem h) ptr then Some (h, ptr)
      else case nano_malloc sb h sz of None \<Rightarrow> None
        | Some (h1, mm) \<Rightarrow>
            if mm \<noteq> 0 then
              (case nano_free (h1\<lparr>hmem := fst (memcpy (hmem h1) mm ptr (unat sz))\<rparr>) ptr of None \<Rightarrow> None
               | Some h2 \<Rightarrow> Some (h2, mm))
            else Some (h1, mm))"

text \<open>The sum of the free list, the loop of \<open>nano_mallinfo\<close>.\<close>

partial_function (option) free_total :: "mem \<Rightarrow> nat \<Rightarrow> u32 \<Rightarrow> u32 option" where
  "free_total m pf acc = (if pf = 0 then Some acc else free_total m (chunk_next m pf) (acc + load32 m pf))"

declare free_total.simps [code]

record mallinfo =
  arena :: u32
  ordblks :: u32
  smblks :: u32
  hblks :: u32
  hblkhd :: u32
  usmblks :: u32
  fsmblks :: u32
  uordblks :: u32
  fordblks :: u32
  keepcost :: u32

text \<open>The argument \<open>info\<close> is the static \<open>current_mallinfo\<close>, the result its new value.\<close>

definition nano_mallinfo :: "'k sbrk \<Rightarrow> 'k heap \<Rightarrow> mallinfo \<Rightarrow> ('k heap \<times> mallinfo) option" where
  "nano_mallinfo sb h info =
     (let (h1, total) =
        (if sbrk_start h = 0 then (h, 0)
         else (let (h', now) = sbrk_r sb h 0
               in if now = SBRK_FAILED then (h', - 1) else (h', of_nat now - of_nat (sbrk_start h))))
      in case free_total (hmem h1) (free_list h1) 0 of None \<Rightarrow> None
         | Some fsz \<Rightarrow> Some (h1, info\<lparr>arena := total, fordblks := fsz, uordblks := total - fsz\<rparr>))"

text \<open>
  \<open>nano_memalign\<close>: an oversized chunk, its front given back or marked with the offset, then its tail
  given back.
\<close>

definition memalign_front :: "'k heap \<Rightarrow> nat \<Rightarrow> u32 \<Rightarrow> ('k heap \<times> nat) option" where
  "memalign_front h chunk_p offset =
     (if offset = 0 then Some (h, chunk_p)
      else if MALLOC_MINCHUNK \<le> offset then
        (let m = hmem h; c = chunk_p + unat offset;
             m1 = store32 m c (load32 m chunk_p - offset);
             m2 = store32 m1 chunk_p offset
         in case nano_free (h\<lparr>hmem := m2\<rparr>) (chunk_p + unat CHUNK_OFFSET) of None \<Rightarrow> None
            | Some h1 \<Rightarrow> Some (h1, c))
      else Some (h\<lparr>hmem := store32 (hmem h) (chunk_p + unat offset) (- offset)\<rparr>, chunk_p))"

definition memalign_tail :: "'k heap \<Rightarrow> nat \<Rightarrow> nat \<Rightarrow> u32 \<Rightarrow> 'k heap option" where
  "memalign_tail h chunk_p aligned_p ma_size =
     (let m = hmem h; size_allocated = load32 m chunk_p; tail_chunk = aligned_p + unat ma_size in
      if chunk_p + unat size_allocated > tail_chunk + unat MALLOC_MINCHUNK then
        (let m1 = store32 m chunk_p (of_nat (tail_chunk - chunk_p));
             m2 = store32 m1 tail_chunk (size_allocated - load32 m1 chunk_p)
         in nano_free (h\<lparr>hmem := m2\<rparr>) (tail_chunk + unat CHUNK_OFFSET))
      else Some h)"

definition nano_memalign :: "'k sbrk \<Rightarrow> 'k heap \<Rightarrow> u32 \<Rightarrow> u32 \<Rightarrow> ('k heap \<times> nat) option" where
  "nano_memalign sb h align0 s =
     (if align0 AND (align0 - 1) \<noteq> 0 then Some (h, 0)
      else
       (let align = max align0 MALLOC_ALIGN;
            ma_size = ALIGN_TO (max s MALLOC_MINSIZE) CHUNK_ALIGN;
            size_with_padding = ma_size + align - MALLOC_ALIGN
        in case nano_malloc sb h size_with_padding of None \<Rightarrow> None
           | Some (h1, allocated) \<Rightarrow>
               if allocated = 0 then Some (h1, 0)
               else
                (let chunk_p = get_chunk_from_ptr (hmem h1) allocated;
                     aligned_p = unat (ALIGN_TO (of_nat (chunk_p + unat CHUNK_OFFSET)) align);
                     offset = of_nat aligned_p - of_nat (chunk_p + unat CHUNK_OFFSET)
                 in case memalign_front h1 chunk_p offset of None \<Rightarrow> None
                    | Some (h2, c) \<Rightarrow>
                        (case memalign_tail h2 c aligned_p ma_size of None \<Rightarrow> None
                         | Some h3 \<Rightarrow> Some (h3, aligned_p)))))"

definition nano_valloc :: "'k sbrk \<Rightarrow> 'k heap \<Rightarrow> u32 \<Rightarrow> ('k heap \<times> nat) option" where
  "nano_valloc sb h s = nano_memalign sb h MALLOC_PAGE_ALIGN s"

definition nano_pvalloc :: "'k sbrk \<Rightarrow> 'k heap \<Rightarrow> u32 \<Rightarrow> ('k heap \<times> nat) option" where
  "nano_pvalloc sb h s = nano_valloc sb h (ALIGN_TO s MALLOC_PAGE_ALIGN)"

definition nano_mallopt :: "int \<Rightarrow> int \<Rightarrow> int" where
  "nano_mallopt parameter_number parameter_value = 0"

section \<open>Loads, stores and sizes\<close>

lemma load32_same [simp]: "load32 (store32 m a w) a = w"
proof (rule byte_of_eqI)
  fix i :: nat assume "i < 4"
  then show "byte_of (load32 (store32 m a w) a) i = byte_of w i" by (auto simp: less_4_cases store32_def)
qed

lemma store32_other: "x < a \<or> a + 4 \<le> x \<Longrightarrow> store32 m a w x = m x"
  by (auto simp: store32_def)

lemma load32_other: "b + 4 \<le> a \<or> a + 4 \<le> b \<Longrightarrow> load32 (store32 m a w) b = load32 m b"
  by (rule load32_cong) (auto simp: store32_other)

lemma sint_of_int: "- (2 ^ 31) \<le> x \<Longrightarrow> x < 2 ^ 31 \<Longrightarrow> sint (word_of_int x :: u32) = x"
  by (simp add: int_word_sint)

lemma sint_of_nat: "n < 2 ^ 31 \<Longrightarrow> sint (of_nat n :: u32) = int n"
  using sint_of_int [of "int n"] by simp

lemma unat_small: "n < 2 ^ 32 \<Longrightarrow> unat (of_nat n :: u32) = n"
  by (simp add: unat_of_nat)

lemma sint_diff:
  assumes "k < 2 ^ 31" and "a < 2 ^ 31"
  shows "sint (of_nat k - of_nat a :: u32) = int k - int a"
proof -
  have "of_nat k - of_nat a = (word_of_int (int k - int a) :: u32)" by simp
  then show ?thesis using sint_of_int [of "int k - int a"] assms by simp
qed

text \<open>Rounding up to a power of two.\<close>

lemma and_not_low: "(x :: u32) AND NOT (2 ^ k - 1) = of_nat (unat x div 2 ^ k * 2 ^ k)"
proof -
  have "x AND NOT (mask k) = push_bit k (drop_bit k x)"
    by (rule bit_word_eqI) (auto simp: bit_and_iff bit_not_iff bit_mask_iff bit_push_bit_iff bit_drop_bit_eq)
  also have "drop_bit k x = of_nat (unat x div 2 ^ k)"
  proof -
    have "unat x div 2 ^ k = unat (drop_bit k x)" unfolding unat_drop_bit_eq by (simp only: drop_bit_eq_div)
    then show ?thesis by simp
  qed
  finally show ?thesis by (simp add: mask_eq_exp_minus_1 push_bit_eq_mult)
qed

lemma ALIGN_TO_nat:
  assumes "unat x + 2 ^ k \<le> 2 ^ 32"
  shows "ALIGN_TO x (2 ^ k) = of_nat ((unat x + 2 ^ k - 1) div 2 ^ k * 2 ^ k)"
proof -
  have "x + 2 ^ k - 1 = of_nat (unat x + 2 ^ k - 1)"
    by (subst of_nat_diff) (simp_all add: one_le_power trans_le_add2)
  moreover have "unat x + 2 ^ k - 1 < 2 ^ 32" using assms by (simp add: less_le_trans)
  ultimately have "unat (x + 2 ^ k - 1) = unat x + 2 ^ k - 1" using unat_small by metis
  then show ?thesis by (simp add: ALIGN_TO_def and_not_low)
qed

section \<open>Chunks as address intervals\<close>

text \<open>A chunk is its address and its size; a free list is a list of chunks, kept apart and in order.\<close>

type_synonym chk = "nat \<times> nat"

definition region :: "chk \<Rightarrow> nat set" where "region c = {fst c..<fst c + snd c}"
definition regions :: "chk list \<Rightarrow> nat set" where "regions fs = (\<Union>c \<in> set fs. region c)"

definition chunk_in :: "nat \<Rightarrow> nat \<Rightarrow> chk \<Rightarrow> bool" where
  "chunk_in lo b c \<longleftrightarrow> lo \<le> fst c \<and> 4 dvd fst c \<and> 4 dvd snd c \<and> 8 \<le> snd c \<and> fst c + snd c \<le> b"

definition spaced :: "chk list \<Rightarrow> bool" where
  "spaced fs \<longleftrightarrow> sorted_wrt (\<lambda>x y. fst x + snd x < fst y) fs"

abbreviation total :: "chk list \<Rightarrow> nat" where "total fs \<equiv> sum_list (map snd fs)"

text \<open>First fit, from the upper end of the chunk if the rest is a chunk of its own.\<close>

fun take_fit :: "nat \<Rightarrow> chk list \<Rightarrow> (chk \<times> chk list) option" where
  "take_fit alloc [] = None"
| "take_fit alloc ((a, k) # fs) =
     (if alloc \<le> k then
        (if 12 \<le> k - alloc then Some ((a + (k - alloc), alloc), (a, k - alloc) # fs) else Some ((a, k), fs))
      else map_option (\<lambda>(c, fs'). (c, (a, k) # fs')) (take_fit alloc fs))"

text \<open>Insertion in order of addresses, merged with the chunks that touch it.\<close>

fun ins_chunk :: "nat \<Rightarrow> nat \<Rightarrow> chk list \<Rightarrow> chk list" where
  "ins_chunk r n [] = [(r, n)]"
| "ins_chunk r n ((a, k) # fs) =
     (if r < a then (if r + n = a then (r, n + k) # fs else (r, n) # (a, k) # fs)
      else if a + k = r then
        (case fs of [] \<Rightarrow> [(a, k + n)]
         | (b, j) # fs' \<Rightarrow> if r + n = b then (a, k + n + j) # fs' else (a, k + n) # fs)
      else (a, k) # ins_chunk r n fs)"

lemma region_Pair [simp]: "region (a, n) = {a..<a + n}"
  by (simp add: region_def)

lemma regions_simps [simp]: "regions [] = {}" "regions (c # fs) = region c \<union> regions fs"
  by (simp_all add: regions_def)

lemma regions_append [simp]: "regions (xs @ ys) = regions xs \<union> regions ys"
  by (simp add: regions_def)

lemma spaced_Cons: "spaced ((a, n) # fs) \<longleftrightarrow> (\<forall>c \<in> set fs. a + n < fst c) \<and> spaced fs"
  by (auto simp: spaced_def)

lemma spaced_append: "spaced (xs @ ys) \<longleftrightarrow> spaced xs \<and> spaced ys \<and> (\<forall>x \<in> set xs. \<forall>y \<in> set ys. fst x + snd x < fst y)"
  by (auto simp: spaced_def sorted_wrt_append)

lemma spaced_simps [simp]: "spaced []" "spaced [c]"
  by (simp_all add: spaced_def)

lemma below_regions: "\<forall>c \<in> set fs. x < fst c \<Longrightarrow> y \<in> regions fs \<Longrightarrow> x < y"
  by (fastforce simp: regions_def region_def)

lemma disjoint_intervals:
  "{x..<x + y} \<inter> {r..<r + n} = {} \<Longrightarrow> 0 < y \<Longrightarrow> 0 < n \<Longrightarrow> r + n \<le> x \<or> x + y \<le> (r :: nat)"
  by (metis IntI atLeastLessThan_iff empty_iff less_add_same_cancel1 linorder_not_le nle_le)

lemma take_fit_None: "take_fit alloc fs = None \<longleftrightarrow> (\<forall>c \<in> set fs. snd c < alloc)"
  by (induction alloc fs rule: take_fit.induct) (auto split: option.splits)

lemma take_fit_Some:
  assumes "take_fit alloc fs = Some ((x, n), fs')" and "\<forall>c \<in> set fs. chunk_in lo b c" and "spaced fs"
    and "4 dvd alloc" and "12 \<le> alloc"
  shows "chunk_in lo b (x, n) \<and> alloc \<le> n \<and> n < alloc + 12 \<and> (\<forall>c \<in> set fs'. chunk_in lo b c) \<and> spaced fs' \<and>
    regions fs = regions fs' \<union> region (x, n) \<and> regions fs' \<inter> region (x, n) = {} \<and>
    total fs = total fs' + n \<and> (\<forall>c' \<in> set fs'. \<exists>c \<in> set fs. fst c = fst c' \<and> snd c' \<le> snd c)"
  using assms
proof (induction alloc fs arbitrary: fs' rule: take_fit.induct)
  case (2 alloc a k fs)
  note tf = 2(2)
  have s: "\<forall>c \<in> set fs. a + k < fst c" "spaced fs" using 2(4) by (simp_all add: spaced_Cons)
  have c: "chunk_in lo b (a, k)" "\<forall>c \<in> set fs. chunk_in lo b c" using 2(3) by simp_all
  have dj: "regions fs \<inter> {a..<a + k} = {}" using below_regions [OF s(1)] by (fastforce simp: not_less)
  consider "alloc \<le> k" "12 \<le> k - alloc" | "alloc \<le> k" "k - alloc < 12" | "k < alloc" by linarith
  then show ?case
  proof cases
    case 1
    then have e: "x = a + (k - alloc)" "n = alloc" "fs' = (a, k - alloc) # fs" using 2(2) by auto
    have "4 dvd k - alloc" using c(1) 2(5) 1(1) by (auto simp: chunk_in_def intro: dvd_diff_nat)
    then have "chunk_in lo b (x, n)" "chunk_in lo b (a, k - alloc)"
      using 1 e 2(5,6) c(1) by (auto simp: chunk_in_def)
    moreover have "region (a, k) = region (a, k - alloc) \<union> region (x, n)" using 1 e by auto
    moreover have "region (x, n) \<subseteq> {a..<a + k}" using 1 e by auto
    then have "regions fs \<inter> region (x, n) = {}" using dj by blast
    moreover have "spaced fs'" using s 1 e by (fastforce simp: spaced_Cons)
    ultimately show ?thesis using 1 e c(2) by auto
  next
    case 2
    then have e: "x = a" "n = k" "fs' = fs" using tf by simp_all
    then show ?thesis using 2 c s dj by auto
  next
    case 3
    then obtain fs1 where f: "take_fit alloc fs = Some ((x, n), fs1)" "fs' = (a, k) # fs1"
      using 2(2) by (auto split: option.splits)
    note ih = 2(1) [OF _ f(1) c(2) s(2) 2(5,6)]
    have ih': "chunk_in lo b (x, n) \<and> alloc \<le> n \<and> n < alloc + 12 \<and> (\<forall>c \<in> set fs1. chunk_in lo b c) \<and> spaced fs1 \<and>
      regions fs = regions fs1 \<union> region (x, n) \<and> regions fs1 \<inter> region (x, n) = {} \<and>
      total fs = total fs1 + n \<and> (\<forall>c' \<in> set fs1. \<exists>c \<in> set fs. fst c = fst c' \<and> snd c' \<le> snd c)" by (rule ih) (use 3 in simp)
    then have "region (x, n) \<subseteq> regions fs" by blast
    then have "region (a, k) \<inter> region (x, n) = {}" using dj unfolding region_Pair by blast
    moreover have "spaced fs'" using ih' s(1) unfolding f(2) spaced_Cons by metis
    ultimately show ?thesis using ih' c f(2) by auto
  qed
qed simp

lemma ins_chunk_facts:
  assumes "\<forall>c \<in> set fs. chunk_in lo b c" and "chunk_in lo b (r, n)" and "spaced fs"
    and "regions fs \<inter> region (r, n) = {}"
  shows "(\<forall>c \<in> set (ins_chunk r n fs). chunk_in lo b c) \<and> spaced (ins_chunk r n fs) \<and>
    regions (ins_chunk r n fs) = regions fs \<union> region (r, n) \<and> total (ins_chunk r n fs) = total fs + n \<and>
    (\<forall>c \<in> set (ins_chunk r n fs). fst c = r \<or> (\<exists>c' \<in> set fs. fst c = fst c'))"
  using assms
proof (induction r n fs rule: ins_chunk.induct)
  case (2 r n a k fs)
  have s: "\<forall>c \<in> set fs. a + k < fst c" "spaced fs" using 2(4) by (simp_all add: spaced_Cons)
  have c: "chunk_in lo b (a, k)" "\<forall>c \<in> set fs. chunk_in lo b c" using 2(2) by simp_all
  have n: "8 \<le> n" "8 \<le> k" using 2(3) c(1) by (simp_all add: chunk_in_def)
  have dj: "{a..<a + k} \<inter> {r..<r + n} = {}" "regions fs \<inter> {r..<r + n} = {}"
    using 2(5) unfolding regions_simps region_Pair by blast+
  have out: "r + n \<le> x \<or> x + y \<le> r" if "(x, y) \<in> set ((a, k) # fs)" for x y
  proof -
    have "region (x, y) \<subseteq> regions ((a, k) # fs)" using that unfolding regions_def by blast
    then have "{x..<x + y} \<inter> {r..<r + n} = {}" using 2(5) unfolding region_Pair by blast
    moreover have "8 \<le> y" using that c by (auto simp: chunk_in_def)
    ultimately show ?thesis by (intro disjoint_intervals) (use n in auto)
  qed
  consider "r < a" "r + n = a" | "r < a" "r + n \<noteq> a" | "a \<le> r" "a + k = r" | "a \<le> r" "a + k \<noteq> r" by linarith
  then show ?case
  proof cases
    case 1
    then show ?thesis using c 2(3) s by (auto simp: spaced_Cons chunk_in_def)
  next
    case 2
    have "r + n < a" using out [of a k] 2 n by simp
    then show ?thesis using 2 c s \<open>chunk_in lo b (r, n)\<close> by (fastforce simp: spaced_Cons)
  next
    case 3
    show ?thesis
    proof (cases fs)
      case Nil
      then show ?thesis using 3 c 2(3) by (auto simp: chunk_in_def)
    next
      case (Cons p fs')
      obtain x y where p: "p = (x, y)" by (cases p)
      have x: "a + k < x" "\<forall>c \<in> set fs'. x + y < fst c" "spaced fs'" "chunk_in lo b (x, y)" "8 \<le> y"
        using s Cons p c(2) by (auto simp: spaced_Cons chunk_in_def)
      have rx: "r + n \<le> x" using out [of x y] x(1) 3 Cons p n by auto
      show ?thesis
      proof (cases "r + n = x")
        case True
        then show ?thesis using 3 Cons p x c 2(3) by (auto simp: spaced_Cons chunk_in_def)
      next
        case False
        then have "r + n < x" using rx by simp
        then show ?thesis using 3 Cons p x c 2(3) by (fastforce simp: spaced_Cons chunk_in_def)
      qed
    qed
  next
    case 4
    have akr: "a + k < r" using out [of a k] 4 n by auto
    have ih: "(\<forall>c \<in> set (ins_chunk r n fs). chunk_in lo b c) \<and> spaced (ins_chunk r n fs) \<and>
      regions (ins_chunk r n fs) = regions fs \<union> region (r, n) \<and> total (ins_chunk r n fs) = total fs + n \<and>
      (\<forall>c \<in> set (ins_chunk r n fs). fst c = r \<or> (\<exists>c' \<in> set fs. fst c = fst c'))"
      by (rule 2(1)) (use 4 c s dj 2(3) in auto)
    then have "\<forall>c \<in> set (ins_chunk r n fs). a + k < fst c" using akr s(1) by metis
    then show ?thesis using ih 4 c by (auto simp: spaced_Cons)
  qed
qed simp

section \<open>Free lists in memory\<close>

text \<open>The chunks \<open>fs\<close> are linked from \<open>p\<close> up to the pointer \<open>q\<close>.\<close>

fun free_seg :: "mem \<Rightarrow> nat \<Rightarrow> chk list \<Rightarrow> nat \<Rightarrow> bool" where
  "free_seg m p [] q \<longleftrightarrow> p = q"
| "free_seg m p ((a, n) # fs) q \<longleftrightarrow> p = a \<and> load32 m a = of_nat n \<and> free_seg m (chunk_next m a) fs q"

text \<open>The heap lies in the lower half of the address space above \<open>lo\<close>, so that sizes are positive.\<close>

definition heap_range :: "nat \<Rightarrow> nat \<Rightarrow> bool" where
  "heap_range lo b \<longleftrightarrow> 0 < lo \<and> lo \<le> b \<and> b < 2 ^ 32 - 16 \<and> b < lo + 2 ^ 31"

definition list_ok :: "nat \<Rightarrow> nat \<Rightarrow> chk list \<Rightarrow> bool" where
  "list_ok lo b fs \<longleftrightarrow> heap_range lo b \<and> (\<forall>c \<in> set fs. chunk_in lo b c) \<and> spaced fs"

lemma free_seg_append: "free_seg m p (xs @ ys) q \<longleftrightarrow> (\<exists>r. free_seg m p xs r \<and> free_seg m r ys q)"
  by (induction xs arbitrary: p) auto

lemma free_seg_cong:
  "free_seg m p fs q \<Longrightarrow> \<forall>c \<in> set fs. 8 \<le> snd c \<Longrightarrow> \<forall>y \<in> regions fs. m' y = m y \<Longrightarrow> free_seg m' p fs q"
proof (induction m p fs q rule: free_seg.induct)
  case (2 m p a n fs q)
  have y: "m' (a + i) = m (a + i)" if "i < 8" for i using 2(3,4) that by simp
  have "load32 m' a = load32 m a" "load32 m' (a + 4) = load32 m (a + 4)"
    using y by (auto simp: load32_eq_iff add.assoc)
  then show ?case using 2 by (simp add: chunk_next_def)
qed simp

lemma set_next_simps [simp]:
  "load32 (set_next m c p) c = load32 m c"
  "p < 2 ^ 32 \<Longrightarrow> chunk_next (set_next m c p) c = p"
  "chunk_next (store32 m c w) c = chunk_next m c"
  by (simp_all add: set_next_def chunk_next_def load32_other unat_small)

lemma set_next_other: "y < c + 4 \<or> c + 8 \<le> y \<Longrightarrow> set_next m c p y = m y"
  by (simp only: set_next_def, rule store32_other) auto

lemma store32_outside: "y \<notin> {a..<a + 4} \<Longrightarrow> store32 m a w y = m y"
  by (rule store32_other) auto

lemma set_next_outside: "y \<notin> {c..<c + 8} \<Longrightarrow> set_next m c p y = m y"
  by (rule set_next_other) auto

lemma free_seg_head: "free_seg m p fs 0 \<Longrightarrow> p = (case fs of [] \<Rightarrow> 0 | c # _ \<Rightarrow> fst c)"
  by (cases fs) auto

lemma list_ok_Cons:
  "list_ok lo b ((a, n) # fs) \<longleftrightarrow> chunk_in lo b (a, n) \<and> (\<forall>c \<in> set fs. a + n < fst c) \<and> list_ok lo b fs"
  by (auto simp: list_ok_def spaced_Cons)

lemma list_ok_append:
  "list_ok lo b (xs @ ys) \<longleftrightarrow> list_ok lo b xs \<and> list_ok lo b ys \<and> (\<forall>x \<in> set xs. \<forall>y \<in> set ys. fst x + snd x < fst y)"
  by (auto simp: list_ok_def spaced_append)

lemma chunk_in_bounds:
  assumes "heap_range lo b" and "chunk_in lo b (a, n)"
  shows "0 < a" "a < 2 ^ 32" "8 \<le> n" "n < 2 ^ 31" "a + n < 2 ^ 32 - 16"
  using assms by (auto simp: heap_range_def chunk_in_def)

lemma list_ok_8: "list_ok lo b fs \<Longrightarrow> \<forall>c \<in> set fs. 8 \<le> snd c"
  by (fastforce simp: list_ok_def chunk_in_def)

text \<open>Changes outside of the chunks leave the list alone.\<close>

lemma free_seg_keep:
  "free_seg m p fs q \<Longrightarrow> list_ok lo b fs \<Longrightarrow> regions fs \<inter> R = {} \<Longrightarrow> \<forall>y. y \<notin> R \<longrightarrow> m' y = m y \<Longrightarrow> free_seg m' p fs q"
  by (rule free_seg_cong [OF _ list_ok_8]) auto

lemma regions_order:
  "list_ok lo b fs \<Longrightarrow> \<forall>c \<in> set fs. fst c + snd c \<le> x \<Longrightarrow> y \<in> regions fs \<Longrightarrow> y < x"
  by (fastforce simp: regions_def region_def)

text \<open>The last link of a segment redirected.\<close>

lemma free_seg_relink:
  assumes seg: "free_seg m p (xs @ [(a, n)]) q" and ok: "list_ok lo b (xs @ [(a, n)])" and q: "q' < 2 ^ 32"
  shows "free_seg (set_next m a q') p (xs @ [(a, n)]) q'"
proof -
  have o: "list_ok lo b xs" "\<forall>c \<in> set xs. fst c + snd c \<le> a"
    using ok by (auto simp: list_ok_append intro: less_imp_le)
  have s: "free_seg m p xs a" "load32 m a = of_nat n" using seg by (auto simp: free_seg_append)
  have "regions xs \<inter> {a..<a + 8} = {}" using regions_order [OF o] by fastforce
  then have "free_seg (set_next m a q') p xs a"
    by (rule free_seg_keep [OF s(1) o(1)]) (auto intro: set_next_outside)
  then show ?thesis using s(2) q by (auto simp: free_seg_append)
qed

section \<open>First fit refines the list operation\<close>

lemma fit_split:
  assumes seg: "free_seg m a ((a, k) # fs) 0" and ok: "list_ok lo b ((a, k) # fs)"
    and al: "12 \<le> n" "n \<le> k" "12 \<le> k - n" and w: "w = of_nat n"
  defines "m' \<equiv> store32 (store32 m a (of_nat (k - n))) (a + (k - n)) w"
  shows "free_seg m' a ((a, k - n) # fs) 0 \<and> load32 m' (a + (k - n)) = of_nat n \<and> (\<forall>y. y \<notin> {a..<a + k} \<longrightarrow> m' y = m y)"
proof -
  have fr: "m' y = m y" if "y \<notin> {a..<a + k}" for y
  proof -
    have "y \<notin> {a..<a + 4}" "y \<notin> {a + (k - n)..<a + (k - n) + 4}" using that al by auto
    then show ?thesis by (simp add: m'_def store32_outside)
  qed
  have o: "list_ok lo b fs" "\<forall>c \<in> set fs. a + k < fst c" using ok by (simp_all add: list_ok_Cons)
  have "regions fs \<inter> {a..<a + k} = {}" using below_regions [OF o(2)] by (fastforce simp: not_less)
  moreover have "free_seg m (chunk_next m a) fs 0" using seg by simp
  ultimately have "free_seg m' (chunk_next m a) fs 0"
    using free_seg_keep [OF _ o(1), of m "chunk_next m a" 0 "{a..<a + k}" m'] fr by blast
  moreover have "load32 m' a = of_nat (k - n)" "chunk_next m' a = chunk_next m a"
  proof -
    have "a + 8 \<le> a + (k - n)" using al by simp
    then show "load32 m' a = of_nat (k - n)" "chunk_next m' a = chunk_next m a"
      by (simp_all only: m'_def chunk_next_def, simp_all add: load32_other del: of_nat_diff diff_add_assoc add_diff_assoc)
  qed
  ultimately show ?thesis using fr by (simp add: m'_def w)
qed

lemma fit_loop_refines:
  assumes "free_seg m fl pre r" and "free_seg m r suf 0" and "list_ok lo b (pre @ suf)"
    and "p = (if pre = [] then r else fst (last pre))" and "12 \<le> n" and "n < 2 ^ 31"
  shows "case take_fit n suf of None \<Rightarrow> fit_loop (of_nat n) m fl p r = Some (m, fl, 0)
    | Some ((x, j), suf') \<Rightarrow> \<exists>m' fl'. fit_loop (of_nat n) m fl p r = Some (m', fl', x) \<and>
        free_seg m' fl' (pre @ suf') 0 \<and> load32 m' x = of_nat j \<and> (\<forall>y. y \<notin> regions (pre @ suf) \<longrightarrow> m' y = m y)"
  using assms
proof (induction suf arbitrary: pre r p)
  case Nil
  then show ?case by (subst fit_loop.simps) simp
next
  case (Cons c suf)
  obtain a k where c: "c = (a, k)" by (cases c)
  have ok: "list_ok lo b pre" "list_ok lo b ((a, k) # suf)" "\<forall>x \<in> set pre. fst x + snd x < a"
    using Cons.prems(3) c by (auto simp: list_ok_append)
  have rg: "heap_range lo b" "chunk_in lo b (a, k)" using ok by (auto simp: list_ok_def)
  note bd = chunk_in_bounds [OF rg]
  have seg: "r = a" "load32 m a = of_nat k" "free_seg m (chunk_next m a) suf 0" using Cons.prems(2) c by auto
  have rem: "sint (load32 m r - of_nat n) = int k - int n" using seg sint_diff [OF bd(4)] Cons.prems(6) by simp
  have mc: "uint MALLOC_MINCHUNK = 12" by (simp add: malloc_consts)
  consider "n \<le> k" "12 \<le> k - n" | "n \<le> k" "k - n < 12" | "k < n" by linarith
  then show ?case
  proof cases
    case 1
    define m' where "m' = store32 (store32 m a (of_nat (k - n))) (a + (k - n)) (of_nat n)"
    have "fit_loop (of_nat n) m fl p r = Some (m', fl, a + (k - n))"
      using 1 rem seg(1) bd(1) by (subst fit_loop.simps) (simp add: mc m'_def Let_def of_nat_diff nat_diff_distrib')
    moreover have f: "free_seg m' a ((a, k - n) # suf) 0 \<and> load32 m' (a + (k - n)) = of_nat n \<and>
        (\<forall>y. y \<notin> {a..<a + k} \<longrightarrow> m' y = m y)"
      using fit_split [OF _ ok(2) Cons.prems(5) 1, of m "of_nat n"] seg unfolding m'_def by simp
    moreover have "regions pre \<inter> {a..<a + k} = {}"
      using regions_order [OF ok(1), of a] ok(3) by fastforce
    then have "free_seg m' fl pre a"
      using free_seg_keep [OF Cons.prems(1) ok(1)] f seg(1) by blast
    ultimately show ?thesis using 1 c by (auto simp: free_seg_append)
  next
    case 2
    then have small: "\<not> 12 \<le> int k - int n" by linarith
    show ?thesis
    proof (cases pre rule: rev_cases)
      case Nil
      then have "fit_loop (of_nat n) m fl p r = Some (m, chunk_next m a, a)"
        using 2 small rem seg(1) bd(1) Cons.prems(4) by (subst fit_loop.simps) (simp add: mc Let_def)
      then show ?thesis using 2 c Nil seg by auto
    next
      case (snoc xs d)
      obtain e j where d: "d = (e, j)" by (cases d)
      have ea: "e + j < a" using ok(3) snoc d by simp
      define q where "q = chunk_next m a"
      define m' where "m' = set_next m e q"
      have "q < 2 ^ 32" unfolding q_def chunk_next_def using unsigned_less [of "load32 m (a + 4)"] by simp
      then have s1: "free_seg m' fl pre q"
        unfolding m'_def snoc d using free_seg_relink [of m fl xs e j a lo b q] Cons.prems(1) ok(1) seg(1) snoc d by simp
      have e8: "8 \<le> j" "{e..<e + j} \<subseteq> regions pre" using ok(1) snoc d by (auto simp: list_ok_def chunk_in_def)
      have fr: "m' y = m y" if "y \<notin> {e..<e + j}" for y
        unfolding m'_def by (rule set_next_outside) (use that e8(1) in auto)
      have o: "list_ok lo b suf" "\<forall>x \<in> set suf. a + k < fst x" using ok(2) by (simp_all add: list_ok_Cons)
      have "regions suf \<inter> {e..<e + j} = {}" using below_regions [OF o(2)] ea by fastforce
      then have s2: "free_seg m' q suf 0" using free_seg_keep [OF seg(3) o(1)] fr unfolding q_def by blast
      have l: "load32 m' a = of_nat k" using seg(2) ea e8(1) by (simp add: m'_def set_next_def load32_other)
      have "p \<noteq> r" using Cons.prems(4) snoc d ea seg(1) by simp
      then have "fit_loop (of_nat n) m fl p r = Some (m', fl, a)"
        using 2 small rem seg(1) bd(1) Cons.prems(4) snoc d by (subst fit_loop.simps) (simp add: mc Let_def m'_def q_def)
      moreover have "\<forall>y. y \<notin> regions (pre @ c # suf) \<longrightarrow> m' y = m y" using fr e8(2) unfolding regions_append by blast
      ultimately show ?thesis using 2 c s1 s2 l by (auto simp: free_seg_append)
    qed
  next
    case 3
    have step: "fit_loop (of_nat n) m fl p r = fit_loop (of_nat n) m fl a (chunk_next m a)"
      using 3 rem seg(1) bd(1) by (subst fit_loop.simps) (simp add: Let_def)
    have "free_seg m fl (pre @ [(a, k)]) (chunk_next m a)" using Cons.prems(1) seg by (auto simp: free_seg_append)
    from Cons.IH [OF this seg(3), of a] show ?thesis
      using 3 c Cons.prems(3,5,6) unfolding step by (auto split: option.splits)
  qed
qed

section \<open>free refines the insertion\<close>

named_theorems chunk_simps \<open>loads of chunk fields after stores to other fields\<close>

lemma chunk_field_simps [chunk_simps]:
  "x + 4 \<le> c \<or> c + 4 \<le> x \<Longrightarrow> load32 (store32 m x w) c = load32 m c"
  "x \<le> c \<or> c + 8 \<le> x \<Longrightarrow> chunk_next (store32 m x w) c = chunk_next m c"
  "c \<le> x \<or> x + 8 \<le> c \<Longrightarrow> load32 (set_next m x v) c = load32 m c"
  "c + 4 \<le> x \<or> x + 4 \<le> c \<Longrightarrow> chunk_next (set_next m x v) c = chunk_next m c"
  by (simp_all only: chunk_next_def set_next_def, (subst load32_other, force, rule refl)+)

lemma chunk_next_less: "chunk_next m c < 2 ^ 32"
  unfolding chunk_next_def using unsigned_less [of "load32 m (c + 4)"] by simp

text \<open>A node between two segments that are not touched.\<close>

lemma free_seg_node:
  assumes "free_seg m p xs a" and "free_seg m q ys 0" and "list_ok lo b xs" and "list_ok lo b ys"
    and "regions xs \<inter> R = {}" and "regions ys \<inter> R = {}" and "\<forall>y. y \<notin> R \<longrightarrow> m' y = m y"
    and "load32 m' a = of_nat n" and "chunk_next m' a = q"
  shows "free_seg m' p (xs @ (a, n) # ys) 0"
  using free_seg_keep [OF assms(1,3,5,7)] free_seg_keep [OF assms(2,4,6,7)] assms(8,9)
  by (auto simp: free_seg_append)

lemma free_seg_node2:
  assumes "free_seg m p xs a" and "free_seg m q ys 0" and "list_ok lo b xs" and "list_ok lo b ys"
    and "regions xs \<inter> R = {}" and "regions ys \<inter> R = {}" and "\<forall>y. y \<notin> R \<longrightarrow> m' y = m y"
    and "load32 m' a = of_nat n" and "chunk_next m' a = c" and "load32 m' c = of_nat j" and "chunk_next m' c = q"
  shows "free_seg m' p (xs @ (a, n) # (c, j) # ys) 0"
  using free_seg_keep [OF assms(1,3,5,7)] free_seg_keep [OF assms(2,4,6,7)] assms(8-11)
  by (auto simp: free_seg_append)

lemma ins_chunk_skip:
  "\<forall>c \<in> set xs. fst c + snd c < r \<Longrightarrow> ins_chunk r n (xs @ ys) = xs @ ins_chunk r n ys"
  by (induction xs) auto

lemma free_loop_seg:
  assumes "free_seg m a ((a, k) # fs) 0" and "list_ok lo b ((a, k) # fs)" and "a \<le> c"
  shows "\<exists>xs p j ys q. (a, k) # fs = xs @ (p, j) # ys \<and> p \<le> c \<and> (\<forall>y \<in> set ys. c < fst y) \<and>
    free_loop m c a = Some (p, q) \<and> free_seg m a xs p \<and> load32 m p = of_nat j \<and> chunk_next m p = q \<and> free_seg m q ys 0"
  using assms
proof (induction fs arbitrary: a k)
  case Nil
  then have "chunk_next m a = 0" by simp
  then show ?case using Nil
    by (intro exI [of _ "[]"] exI [of _ a] exI [of _ k] exI [of _ 0]) (simp add: free_loop.simps [of m c a])
next
  case (Cons d fs)
  obtain a2 k2 where d: "d = (a2, k2)" by (cases d)
  have seg: "load32 m a = of_nat k" "chunk_next m a = a2" "free_seg m a2 ((a2, k2) # fs) 0" using Cons.prems(1) d by auto
  have ok: "list_ok lo b ((a2, k2) # fs)" "a + k < a2" using Cons.prems(2) d by (simp_all add: list_ok_Cons)
  show ?case
  proof (cases "a2 \<le> c")
    case True
    from Cons.IH [OF seg(3) ok(1) True] obtain xs p j ys q where
      ih: "(a2, k2) # fs = xs @ (p, j) # ys" "p \<le> c" "\<forall>y \<in> set ys. c < fst y" "free_loop m c a2 = Some (p, q)"
        "free_seg m a2 xs p" "load32 m p = of_nat j" "chunk_next m p = q" "free_seg m q ys 0" by blast
    have "free_loop m c a = Some (p, q)" using True seg(2) ok(2) ih(4) by (subst free_loop.simps) simp
    then show ?thesis using ih seg d
      by (intro exI [of _ "(a, k) # xs"] exI [of _ p] exI [of _ j] exI [of _ ys] exI [of _ q]) auto
  next
    case False
    then have "free_loop m c a = Some (a, a2)" using seg(2) by (subst free_loop.simps) simp
    moreover have "\<forall>y \<in> set ((a2, k2) # fs). c < fst y" using False ok(1) by (auto simp: list_ok_Cons)
    ultimately show ?thesis using seg d Cons.prems(3)
      by (intro exI [of _ "[]"] exI [of _ a] exI [of _ k] exI [of _ "(a2, k2) # fs"] exI [of _ a2]) simp
  qed
qed

text \<open>The chunk \<open>(c, n)\<close> between the neighbours \<open>(p, j)\<close> and the list \<open>ys\<close> behind it.\<close>

lemma free_merge_refines:
  assumes xs: "free_seg m fl xs p" "list_ok lo b (xs @ (p, j) # ys)"
    and p: "load32 m p = of_nat j" "chunk_next m p = q" "free_seg m q ys 0"
    and c: "load32 m c = of_nat n" "chunk_in lo b (c, n)" "p + j \<le> c" "\<forall>y \<in> set ys. c + n \<le> fst y"
    and h: "hmem h = m"
  shows "\<exists>m'. free_merge h c p q = h\<lparr>hmem := m'\<rparr> \<and> free_seg m' fl (xs @ ins_chunk c n ((p, j) # ys)) 0 \<and>
    (\<forall>y. y \<notin> {p..<p + j} \<union> {c..<c + n} \<longrightarrow> m' y = m y)"
proof -
  define R where "R = {p..<p + j} \<union> {c..<c + n}"
  have ok: "list_ok lo b xs" "list_ok lo b ys" "\<forall>x \<in> set xs. fst x + snd x < p" "\<forall>y \<in> set ys. p + j < fst y"
    and rg: "heap_range lo b" "chunk_in lo b (p, j)"
    using xs(2) unfolding list_ok_append list_ok_Cons by (auto simp: list_ok_def)
  note bp = chunk_in_bounds [OF rg] and bc = chunk_in_bounds [OF rg(1) c(2)]
  have sum: "j + n < 2 ^ 31" using rg c(2,3) by (auto simp: chunk_in_def heap_range_def)
  have szp: "chunk_size m p = int j" "chunk_size m c = int n"
    using sint_of_nat [OF bp(4)] sint_of_nat [OF bc(4)] p(1) c(1) by (simp_all add: chunk_size_def)
  have dxs: "regions xs \<inter> R = {}" using regions_order [OF ok(1), of p] ok(3) c(3) by (fastforce simp: R_def)
  have q: "q = (case ys of [] \<Rightarrow> 0 | y # _ \<Rightarrow> fst y)" using free_seg_head [OF p(3)] .
  have pc: "p + 8 \<le> c" using c(3) bp(3) by simp
  have big: "int c + int n = int q \<longleftrightarrow> c + n = q" "int p + int j = int c \<longleftrightarrow> p + j = c" "\<not> int c < int p + int j"
    using c(3) by auto
  have q32: "q < 2 ^ 32" using chunk_next_less [of m p] p(2) by simp
  show ?thesis
  proof (cases ys)
    case Nil
    then have q0: "q = 0" using q by simp
    show ?thesis
    proof (cases "p + j = c")
      case True
      define m' where "m' = store32 m p (of_nat (j + n))"
      have s: "chunk_size m' p = int (j + n)" using sint_of_nat [OF sum] by (simp add: m'_def chunk_size_def)
      have e: "free_merge h c p q = h\<lparr>hmem := m'\<rparr>"
        using True szp big s q0 bp(1) p(1) c(1) h by (simp add: free_merge_def Let_def add_size_def m'_def)
      have fr: "\<forall>y. y \<notin> R \<longrightarrow> m' y = m y" using bp(3) by (auto simp: m'_def R_def intro!: store32_outside)
      have "free_seg m' fl (xs @ [(p, j + n)]) 0"
        by (rule free_seg_node [OF xs(1) p(3) ok(1,2) dxs _ fr, unfolded Nil])
           (simp_all add: m'_def p(2) q0 Nil)
      then show ?thesis using e True Nil fr bc(1) bp by (auto simp: R_def)
    next
      case False
      define m' where "m' = set_next (set_next m c q) p c"
      have e: "free_merge h c p q = h\<lparr>hmem := m'\<rparr>"
        using False szp big q0 h bc(1) by (simp add: free_merge_def Let_def m'_def)
      have fr: "\<forall>y. y \<notin> R \<longrightarrow> m' y = m y"
        using bp(3) bc(3) by (auto simp: m'_def R_def set_next_outside)
      have "free_seg m' fl (xs @ [(p, j), (c, n)]) 0"
        by (rule free_seg_node2 [OF xs(1) p(3) ok(1,2) dxs _ fr, unfolded Nil])
           (use pc p(1) c(1) bc(2) q0 Nil in \<open>simp_all add: m'_def chunk_simps\<close>)
      then show ?thesis using e False Nil fr c(3) bp by (auto simp: R_def)
    qed
  next
    case (Cons y zs)
    obtain k where y: "y = (q, k)" using q Cons by (cases y) simp
    have cq: "c + n \<le> q" "p + j < q" using c(4) ok(4) Cons y by auto
    have seg: "load32 m q = of_nat k" "free_seg m (chunk_next m q) zs 0" using p(3) Cons y by auto
    have okz: "list_ok lo b zs" "\<forall>x \<in> set zs. q + k < fst x" "chunk_in lo b (q, k)"
      using ok(2) Cons y by (auto simp: list_ok_def spaced_Cons)
    have sum3: "j + n + k < 2 ^ 31" if "p + j = c" "c + n = q"
      using rg okz(3) that by (auto simp: chunk_in_def heap_range_def)
    have dys: "regions ys \<inter> R = {}" "regions zs \<inter> R = {}"
    proof -
      have "\<forall>x \<in> set ys. c + n - 1 < fst x" using c(4) bc(3) by (auto simp: Suc_le_eq)
      from below_regions [OF this] show 1: "regions ys \<inter> R = {}" using c(3) bc(3) by (fastforce simp: R_def)
      then show "regions zs \<inter> R = {}" using Cons by auto
    qed
    have q12: "p + 8 \<le> q" "c + 8 \<le> q" "p + 8 \<le> c" using cq bc(3) pc by simp_all
    have nq: "chunk_next m q < 2 ^ 32" by (rule chunk_next_less)
    show ?thesis
    proof (cases "p + j = c")
      case pj: True
      define m1 where "m1 = store32 m p (of_nat (j + n))"
      have m1: "add_size m p c = m1" using p(1) c(1) by (simp add: add_size_def m1_def)
      have s: "chunk_size m1 p = int (j + n)" using sint_of_nat [OF sum] by (simp add: m1_def chunk_size_def)
      show ?thesis
      proof (cases "c + n = q")
        case True
        define m2 where "m2 = store32 m1 p (of_nat (j + n + k))"
        have m2: "add_size m1 p q = m2"
          using seg(1) q12 by (simp add: add_size_def m2_def m1_def chunk_simps)
        define m' where "m' = set_next m2 p (chunk_next m2 q)"
        have nx: "chunk_next m2 q = chunk_next m q" using q12 by (simp add: m2_def m1_def chunk_simps)
        have e: "free_merge h c p q = h\<lparr>hmem := m'\<rparr>"
          using True pj szp big s h m1 m2 by (simp add: free_merge_def Let_def m'_def)
        have fr: "\<forall>y. y \<notin> R \<longrightarrow> m' y = m y"
          using bp(3) by (auto simp: m'_def m2_def m1_def R_def set_next_outside store32_outside)
        have "free_seg m' fl (xs @ (p, j + n + k) # zs) 0"
          by (rule free_seg_node [OF xs(1) seg(2) ok(1) okz(1) dxs dys(2) fr])
             (use nq in \<open>simp_all add: m'_def nx\<close>, simp add: m2_def)
        then show ?thesis using e True pj Cons y fr bc(1) bp by (auto simp: R_def)
      next
        case False
        have e: "free_merge h c p q = h\<lparr>hmem := m1\<rparr>"
          using False pj szp big s h m1 by (simp add: free_merge_def Let_def)
        have fr: "\<forall>y. y \<notin> R \<longrightarrow> m1 y = m y" using bp(3) by (auto simp: m1_def R_def intro!: store32_outside)
        have "free_seg m1 fl (xs @ (p, j + n) # ys) 0"
          by (rule free_seg_node [OF xs(1) p(3) ok(1,2) dxs dys(1) fr]) (simp_all add: m1_def p(2))
        then show ?thesis using e False pj Cons y fr bc(1) bp by (auto simp: R_def)
      qed
    next
      case pj: False
      show ?thesis
      proof (cases "c + n = q")
        case True
        have nk: "n + k < 2 ^ 31" using rg(1) okz(3) c(2) True by (auto simp: chunk_in_def heap_range_def)
        define m1 where "m1 = store32 m c (of_nat (n + k))"
        have m1: "add_size m c q = m1" using c(1) seg(1) by (simp add: add_size_def m1_def)
        define m' where "m' = set_next (set_next m1 c (chunk_next m1 q)) p c"
        have nx: "chunk_next m1 q = chunk_next m q" using q12 by (simp add: m1_def chunk_simps)
        have e: "free_merge h c p q = h\<lparr>hmem := m'\<rparr>"
          using True pj szp big h m1 by (simp add: free_merge_def Let_def m'_def)
        have fr: "\<forall>y. y \<notin> R \<longrightarrow> m' y = m y"
          using bp(3) bc(3) by (auto simp: m'_def m1_def R_def set_next_outside store32_outside)
        have "free_seg m' fl (xs @ (p, j) # (c, n + k) # zs) 0"
          by (rule free_seg_node2 [OF xs(1) seg(2) ok(1) okz(1) dxs dys(2) fr])
             (use q12 p(1) bc(2) nq in \<open>simp_all add: m'_def nx chunk_simps\<close>, simp_all add: m1_def chunk_simps)
        then show ?thesis using e True pj Cons y fr c(3) bp bc(3) cq by (auto simp: R_def)
      next
        case False
        define m' where "m' = set_next (set_next m c q) p c"
        have e: "free_merge h c p q = h\<lparr>hmem := m'\<rparr>"
          using False pj szp big h by (simp add: free_merge_def Let_def m'_def)
        have fr: "\<forall>y. y \<notin> R \<longrightarrow> m' y = m y"
          using bp(3) bc(3) by (auto simp: m'_def R_def set_next_outside)
        have "free_seg m' fl (xs @ (p, j) # (c, n) # ys) 0"
          by (rule free_seg_node2 [OF xs(1) p(3) ok(1,2) dxs dys(1) fr])
             (use q12 p(1) c(1) bc(2) q32 in \<open>simp_all add: m'_def chunk_simps\<close>)
        then show ?thesis using e False pj Cons y fr c(3) cq bp bc(3) by (auto simp: R_def)
      qed
    qed
  qed
qed

lemma nano_free_refines:
  assumes seg: "free_seg (hmem h) (free_list h) fs 0" and ok: "list_ok lo b fs"
    and c: "chunk_in lo b (c, n)" "regions fs \<inter> region (c, n) = {}" "load32 (hmem h) c = of_nat n"
    and ptr: "ptr \<noteq> 0" "get_chunk_from_ptr (hmem h) ptr = c"
  shows "\<exists>m' fl'. nano_free h ptr = Some (h\<lparr>hmem := m', free_list := fl'\<rparr>) \<and>
    free_seg m' fl' (ins_chunk c n fs) 0 \<and> (\<forall>y. y \<notin> regions fs \<union> region (c, n) \<longrightarrow> m' y = hmem h y)"
proof -
  have rg: "heap_range lo b" using ok by (simp add: list_ok_def)
  note bc = chunk_in_bounds [OF rg c(1)]
  define m where "m = hmem h"
  have szc: "chunk_size m c = int n" using sint_of_nat [OF bc(4)] c(3) by (simp add: chunk_size_def m_def)
  have out: "c + n \<le> x \<or> x + k \<le> c" if "(x, k) \<in> set fs" for x k
  proof -
    have "region (x, k) \<subseteq> regions fs" using that unfolding regions_def by blast
    then have "{x..<x + k} \<inter> {c..<c + n} = {}" using c(2) unfolding region_Pair by blast
    moreover have "8 \<le> k" using that ok by (auto simp: list_ok_def chunk_in_def)
    ultimately show ?thesis by (intro disjoint_intervals) (use bc in auto)
  qed
  show ?thesis
  proof (cases fs)
    case Nil
    then have fl: "free_list h = 0" using seg by simp
    then have "nano_free h ptr = Some (h\<lparr>hmem := set_next m c 0, free_list := c\<rparr>)"
      using ptr by (simp add: nano_free_def m_def)
    then show ?thesis using Nil c(3) bc(3) by (auto simp: m_def set_next_outside)
  next
    case (Cons d tl)
    obtain a k where d: "d = (a, k)" by (cases d)
    have fl: "free_list h = a" "load32 m a = of_nat k" "free_seg m (chunk_next m a) tl 0" using seg Cons d by (auto simp: m_def)
    have oa: "chunk_in lo b (a, k)" "list_ok lo b tl" "\<forall>x \<in> set tl. a + k < fst x"
      using ok Cons d by (simp_all add: list_ok_Cons)
    note ba = chunk_in_bounds [OF rg oa(1)]
    show ?thesis
    proof (cases "c < a")
      case True
      then have ca: "c + n \<le> a" using out [of a k] Cons d ba bc by auto
      show ?thesis
      proof (cases "c + n = a")
        case eq: True
        have nk: "n + k < 2 ^ 31" using rg oa(1) c(1) eq by (auto simp: chunk_in_def heap_range_def)
        define m1 where "m1 = store32 m c (of_nat (n + k))"
        define m' where "m' = set_next m1 c (chunk_next m1 a)"
        have m1: "add_size m c a = m1" using c(3) fl(2) by (simp add: add_size_def m1_def m_def)
        have nx: "chunk_next m1 a = chunk_next m a" using ca bc(3) by (simp add: m1_def chunk_simps)
        have e: "nano_free h ptr = Some (h\<lparr>hmem := m', free_list := c\<rparr>)"
          using ptr fl(1) ba(1) True eq szc m1 by (simp add: nano_free_def m_def [symmetric] Let_def m'_def)
        have fr: "\<forall>y. y \<notin> {c..<c + n} \<longrightarrow> m' y = m y"
          using bc(3) by (auto simp: m'_def m1_def set_next_outside store32_outside)
        have dt: "regions tl \<inter> {c..<c + n} = {}" using below_regions [OF oa(3)] ca by fastforce
        have "free_seg m' c ([] @ (c, n + k) # tl) 0"
          by (rule free_seg_node [OF _ fl(3) _ oa(2) _ dt fr])
             (use chunk_next_less [of m a] rg in \<open>simp_all add: m'_def nx list_ok_def\<close>, simp add: m1_def)
        then show ?thesis using e fr True eq Cons d by (auto simp: m_def)
      next
        case False
        define m' where "m' = set_next m c a"
        have e: "nano_free h ptr = Some (h\<lparr>hmem := m', free_list := c\<rparr>)"
          using ptr fl(1) ba(1) True False szc by (simp add: nano_free_def m_def [symmetric] Let_def m'_def)
        have fr: "\<forall>y. y \<notin> {c..<c + n} \<longrightarrow> m' y = m y" using bc(3) by (auto simp: m'_def set_next_outside)
        have "free_seg m' c ([] @ (c, n) # fs) 0"
          by (rule free_seg_node [OF _ _ _ ok _ _ fr, where p = c and q = a])
             (use c(2,3) ba(2) rg seg fl(1) in \<open>simp_all add: m'_def m_def list_ok_def\<close>)
        then show ?thesis using e fr True False Cons d by (auto simp: m_def)
      qed
    next
      case False
      have "free_seg m a ((a, k) # tl) 0" "list_ok lo b ((a, k) # tl)" "a \<le> c"
        using seg ok Cons d fl(1) False by (simp_all add: m_def)
      from free_loop_seg [OF this] obtain xs p j ys q where s: "fs = xs @ (p, j) # ys" "p \<le> c" "\<forall>y \<in> set ys. c < fst y"
        "free_loop m c a = Some (p, q)" "free_seg m a xs p" "load32 m p = of_nat j" "chunk_next m p = q" "free_seg m q ys 0"
        unfolding Cons d by blast
      have pj: "p + j \<le> c" using out [of p j] s(1,2) bc(3) by auto
      have cy: "\<forall>y \<in> set ys. c + n \<le> fst y"
      proof
        fix y assume y: "y \<in> set ys"
        then show "c + n \<le> fst y" using out [of "fst y" "snd y"] s(1,3) by fastforce
      qed
      have okx: "list_ok lo b (xs @ (p, j) # ys)" using ok s(1) by simp
      obtain m' where m': "free_merge h c p q = h\<lparr>hmem := m'\<rparr>" "free_seg m' a (xs @ ins_chunk c n ((p, j) # ys)) 0"
        "\<forall>y. y \<notin> {p..<p + j} \<union> {c..<c + n} \<longrightarrow> m' y = m y"
        using free_merge_refines [OF s(5) okx s(6-8) c(3) [folded m_def] c(1) pj cy m_def [symmetric]] by blast
      have "\<forall>x \<in> set xs. fst x + snd x < c" using okx s(2) by (fastforce simp: list_ok_append)
      then have ins: "ins_chunk c n fs = xs @ ins_chunk c n ((p, j) # ys)" unfolding s(1) by (rule ins_chunk_skip)
      have e: "nano_free h ptr = Some (h\<lparr>hmem := m', free_list := a\<rparr>)"
        using ptr fl(1) ba(1) False s(4) m'(1) by (simp add: nano_free_def m_def [symmetric] Let_def)
      have "{p..<p + j} \<subseteq> regions fs" using s(1) by auto
      then have "\<forall>y. y \<notin> regions fs \<union> region (c, n) \<longrightarrow> m' y = m y" using m'(3) unfolding region_Pair by blast
      then show ?thesis using e m'(2) unfolding ins m_def by blast
    qed
  qed
qed

text \<open>Freeing a pointer whose chunk starts inside a free chunk is detected: nothing but \<open>errno\<close> changes.\<close>

lemma nano_free_twice:
  assumes seg: "free_seg (hmem h) (free_list h) fs 0" and ok: "list_ok lo b fs" and a: "(a, k) \<in> set fs"
    and c: "a \<le> c" "c < a + k" and ptr: "ptr \<noteq> 0" "get_chunk_from_ptr (hmem h) ptr = c"
  shows "nano_free h ptr = Some (h\<lparr>RERRNO := ENOMEM\<rparr>)"
proof -
  obtain a0 k0 tl where fs: "fs = (a0, k0) # tl" using a by (cases fs) auto
  have "a0 \<le> a" using a ok unfolding fs by (auto simp: list_ok_def spaced_Cons intro: less_imp_le)
  then have le: "a0 \<le> c" using c by simp
  have fl: "free_list h = a0" using seg fs by simp
  have rg: "heap_range lo b" "chunk_in lo b (a0, k0)" using ok fs by (auto simp: list_ok_def)
  from free_loop_seg [OF _ _ le] seg ok fl obtain xs p j ys q where s: "fs = xs @ (p, j) # ys" "p \<le> c"
    "\<forall>y \<in> set ys. c < fst y" "free_loop (hmem h) c a0 = Some (p, q)" "load32 (hmem h) p = of_nat j"
    unfolding fs by metis
  have "(a, k) = (p, j)"
  proof (rule ccontr)
    assume "(a, k) \<noteq> (p, j)"
    then have "(a, k) \<in> set xs \<or> (a, k) \<in> set ys" using a s(1) by auto
    then show False
    proof
      assume "(a, k) \<in> set xs"
      then have "a + k < p" using ok unfolding s(1) list_ok_append by fastforce
      then show False using c s(2) by simp
    next
      assume "(a, k) \<in> set ys"
      then show False using s(3) c(1) by fastforce
    qed
  qed
  moreover have "j < 2 ^ 31" using chunk_in_bounds(4) [of lo b p j] ok s(1) by (auto simp: list_ok_def)
  then have "chunk_size (hmem h) p = int j" using sint_of_nat s(5) by (simp add: chunk_size_def)
  ultimately have "free_merge h c p q = h\<lparr>RERRNO := ENOMEM\<rparr>" using c by (simp add: free_merge_def Let_def)
  then show ?thesis using ptr fl chunk_in_bounds(1) [OF rg] le s(4) by (simp add: nano_free_def)
qed

end
