(* ===== verification/NanoHeap.thy ===== *)
theory NanoHeap
  imports NanoMalloc
begin

text \<open>
  The allocator as its clients see it: the invariant of the heap, the contract with the memory source
  \<open>_sbrk\<close> and what \<open>malloc\<close>, \<open>free\<close>, \<open>calloc\<close>, \<open>realloc\<close> and \<open>memalign\<close> of \<open>stdlib/nano-mallocr.c\<close>
  promise about the blocks in use.
\<close>

section \<open>The heap invariant\<close>

text \<open>
  A block is a chunk in use with the pointer the client got into it. The pointer is behind the size
  field, or further up with its distance stored, negated, just below it.
\<close>

type_synonym block = "nat \<times> nat \<times> nat"

definition block_at :: "mem \<Rightarrow> block \<Rightarrow> bool" where
  "block_at m = (\<lambda>(r, n, p). load32 m r = of_nat n \<and> 4 dvd p \<and> p + 4 \<le> r + n \<and>
     (p = r + 4 \<or> r + 8 \<le> p \<and> load32 m (p - 4) = - of_nat (p - (r + 4))))"

definition barea :: "block \<Rightarrow> nat set" where "barea = (\<lambda>(r, n, p). {r..<r + n})"

text \<open>
  The heap between \<open>lo\<close> and \<open>b\<close>: the free chunks \<open>fs\<close> in a sorted list without adjacent chunks, the
  blocks \<open>A\<close> apart from them and from each other.
\<close>

definition heap_ok :: "nat \<Rightarrow> nat \<Rightarrow> 'k heap \<Rightarrow> chk list \<Rightarrow> block set \<Rightarrow> bool" where
  "heap_ok lo b h fs A \<longleftrightarrow> free_seg (hmem h) (free_list h) fs 0 \<and> list_ok lo b fs \<and>
     (\<forall>x \<in> A. chunk_in lo b (fst x, fst (snd x)) \<and> block_at (hmem h) x \<and> barea x \<inter> regions fs = {}) \<and>
     (\<forall>x \<in> A. \<forall>y \<in> A. x \<noteq> y \<longrightarrow> barea x \<inter> barea y = {})"

lemma barea_region: "barea x = region (fst x, fst (snd x))"
  by (simp add: barea_def region_def case_prod_beta)

lemma block_at_keep:
  assumes "block_at m x" and "8 \<le> fst (snd x)" and "\<forall>y \<in> barea x. m' y = m y"
  shows "block_at m' x"
proof -
  obtain r n p where x: "x = (r, n, p)" by (metis prod_cases3)
  have e: "m' y = m y" if "r \<le> y" "y < r + n" for y using assms(3) that by (simp add: x barea_def)
  have "load32 m' r = load32 m r" by (rule load32_cong) (use assms(2) e x in auto)
  moreover have "load32 m' (p - 4) = load32 m (p - 4)" if "r + 8 \<le> p" "p + 4 \<le> r + n"
    by (rule load32_cong) (use that e in auto)
  ultimately show ?thesis using assms(1) by (auto simp: block_at_def x)
qed

lemma block_chunk:
  assumes "block_at m (r, n, p)" and "heap_range lo b" and "chunk_in lo b (r, n)"
  shows "get_chunk_from_ptr m p = r" and "p \<noteq> 0" and "unat (nano_malloc_usable_size m p) = r + n - p"
proof -
  note bd = chunk_in_bounds [OF assms(2,3)]
  have b: "load32 m r = of_nat n" "p + 4 \<le> r + n" "p = r + 4 \<or> r + 8 \<le> p \<and> load32 m (p - 4) = - of_nat (p - (r + 4))"
    using assms(1) by (simp_all add: block_at_def)
  show "p \<noteq> 0" using b(3) by auto
  have szr: "sint (load32 m r) = int n" using sint_of_nat [OF bd(4)] b(1) by simp
  have off: "sint (- of_nat (p - (r + 4)) :: u32) = - int (p - (r + 4))"
    using sint_of_int [of "- int (p - (r + 4))"] b(2) bd(4) by simp
  from b(3) show "get_chunk_from_ptr m p = r"
    using szr off by (auto simp: get_chunk_from_ptr_def malloc_consts chunk_size_def Let_def)
  from b(3) show "unat (nano_malloc_usable_size m p) = r + n - p"
  proof
    assume p: "p = r + 4"
    have "of_nat n - 4 = (of_nat (n - 4) :: u32)" using bd(3) by (simp add: of_nat_diff)
    then show ?thesis using p szr b(1) unat_small [of "n - 4"] bd(4)
      by (simp add: nano_malloc_usable_size_def malloc_consts chunk_size_def Let_def)
  next
    assume p: "r + 8 \<le> p \<and> load32 m (p - 4) = - of_nat (p - (r + 4))"
    define o' where "o' = p - (r + 4)"
    have "r + 8 \<le> p" using p by simp
    then have o: "4 \<le> o'" "o' + 4 \<le> n" "p - 4 = r + o'" "r + n - p = n - 4 - o'" using b(2) unfolding o'_def by linarith+
    have "of_nat n - 4 - of_nat o' = (of_nat (n - 4 - o') :: u32)"
      using o by (simp add: of_nat_diff)
    then have "nano_malloc_usable_size m p = of_nat (n - 4 - o')"
      using p off szr b(1) o
      by (simp add: nano_malloc_usable_size_def malloc_consts chunk_size_def Let_def o'_def [symmetric])
    then show ?thesis using unat_small [of "n - 4 - o'"] o bd(4) by simp
  qed
qed

lemma malloc_ptr_block:
  assumes rg: "heap_range lo b" and c: "chunk_in lo b (r, n)" "load32 m r = of_nat n" and n: "12 \<le> n"
  shows "\<exists>m' a. malloc_ptr m r = (m', a) \<and> block_at m' (r, n, a) \<and> 8 dvd a \<and> a \<le> r + 8 \<and> (\<forall>y. y \<notin> {r..<r + n} \<longrightarrow> m' y = m y)"
proof -
  note bd = chunk_in_bounds [OF rg c(1)]
  have r4: "4 dvd r" using c(1) by (simp add: chunk_in_def)
  have u: "unat (of_nat (r + 4) :: u32) = r + 4" using unat_small [of "r + 4"] bd by simp
  define a where "a = (r + 4 + 7) div 8 * 8"
  have a: "a = r + 4 \<or> a = r + 8" "8 dvd a" using r4 unfolding a_def by (presburger, simp)
  then have a4: "4 dvd a" using r4 by auto
  have "ALIGN_TO (of_nat (r + 4)) 8 = of_nat a"
    using ALIGN_TO_nat [of "of_nat (r + 4)" 3] bd(5,3) unfolding u a_def by simp
  moreover have ua: "unat (of_nat a :: u32) = a" using a(1) bd by (intro unat_small) auto
  ultimately have al: "unat (ALIGN_TO (of_nat (r + unat CHUNK_OFFSET)) MALLOC_ALIGN) = a"
    by (simp add: malloc_consts)
  show ?thesis
  proof (cases "a = r + 4")
    case True
    then have "malloc_ptr m r = (m, a)" unfolding malloc_ptr_def Let_def al by (simp add: malloc_consts)
    then show ?thesis using True a(2) a4 c(2) n by (auto simp: block_at_def)
  next
    case False
    then have a8: "a = r + 8" using a(1) by simp
    define m' where "m' = store32 m (r + 4) (- 4)"
    have "malloc_ptr m r = (m', a)" unfolding malloc_ptr_def Let_def al using a8 by (simp add: malloc_consts m'_def)
    moreover have "a - 4 = r + 4" "a - (r + 4) = 4" using a8 by simp_all
    then have "block_at m' (r, n, a)"
      using a8 a4 c(2) n unfolding block_at_def by (simp add: m'_def load32_other add.commute [of 4])
    moreover have "\<forall>y. y \<notin> {r..<r + n} \<longrightarrow> m' y = m y" using n by (auto simp: m'_def intro!: store32_outside)
    ultimately show ?thesis using a8 a(2) by auto
  qed
qed

text \<open>The chunk size for a request, as a number.\<close>

lemma malloc_alloc_size_nat:
  assumes "unat s < 2 ^ 32 - 16"
  shows "unat (malloc_alloc_size s) = max ((unat s + 3) div 4 * 4 + 8) 12"
proof -
  define n where "n = (unat s + 3) div 4 * 4"
  have n: "n \<le> unat s + 3" by (simp add: n_def)
  have "ALIGN_TO s 4 = of_nat n" using ALIGN_TO_nat [of s 2] assms unfolding n_def by (simp add: add.commute)
  then have "ALIGN_TO s CHUNK_ALIGN + MALLOC_PADDING + CHUNK_OFFSET = of_nat (n + 8)"
    by (simp add: malloc_values add.commute)
  moreover have "unat (of_nat (n + 8) :: u32) = n + 8" using assms n by (intro unat_small) simp
  moreover have "unat MALLOC_MINCHUNK = 12" by (simp add: malloc_values)
  moreover have "unat (max x y) = max (unat x) (unat y)" for x y :: u32 by (simp add: max_def word_le_nat_alt)
  ultimately show ?thesis unfolding malloc_alloc_size_def n_def by simp
qed

section \<open>The contract with the memory source\<close>

text \<open>
  What the allocator relies on: as long as the break stays in the address space, a call either
  returns the old break and moves it up, or fails and leaves it.
\<close>

locale sbrk_source =
  fixes sb :: "'k sbrk" and brk :: "'k \<Rightarrow> nat"
  assumes sbrk_law: "brk k + unat n < 2 ^ 32 - 16 \<Longrightarrow> \<exists>k' p e. sb k n = (k', p, e) \<and>
    (p = brk k \<and> brk k' = brk k + unat n \<or> p = SBRK_FAILED \<and> brk k' = brk k)"
begin

lemma sbrk_r_law:
  assumes "brk (kern h) + unat n < 2 ^ 32 - 16"
  shows "\<exists>h' p. sbrk_r sb h n = (h', p) \<and> hmem h' = hmem h \<and> free_list h' = free_list h \<and> sbrk_start h' = sbrk_start h \<and>
    (p = brk (kern h) \<and> brk (kern h') = brk (kern h) + unat n \<or> p = SBRK_FAILED \<and> brk (kern h') = brk (kern h))"
proof -
  obtain k' p e where "sb (kern h) n = (k', p, e)"
    "p = brk (kern h) \<and> brk k' = brk (kern h) + unat n \<or> p = SBRK_FAILED \<and> brk k' = brk (kern h)"
    using sbrk_law [OF assms] by blast
  then show ?thesis by (auto simp: sbrk_r_def Let_def)
qed

lemma sbrk_first:
  assumes "brk (kern h) < 2 ^ 32 - 16"
  shows "\<exists>h'. (if sbrk_start h = 0 then (let (h', p0) = sbrk_r sb h 0 in h'\<lparr>sbrk_start := p0\<rparr>) else h) = h' \<and>
    hmem h' = hmem h \<and> free_list h' = free_list h \<and> brk (kern h') = brk (kern h)"
  using sbrk_r_law [of h 0] assms by auto

text \<open>The result is aligned, and the break is right behind the new chunk.\<close>

lemma sbrk_aligned_law:
  assumes "brk (kern h) + unat s + 3 < 2 ^ 32 - 16"
  defines "q0 \<equiv> (brk (kern h) + 3) div 4 * 4"
  shows "\<exists>h' q. sbrk_aligned sb h s = (h', q) \<and> hmem h' = hmem h \<and> free_list h' = free_list h \<and>
    (q = q0 \<and> brk (kern h') = q0 + unat s \<or>
     q = SBRK_FAILED \<and> brk (kern h) \<le> brk (kern h') \<and> brk (kern h') \<le> brk (kern h) + unat s)"
proof -
  define b where "b = brk (kern h)"
  obtain h0 where h0: "(if sbrk_start h = 0 then (let (h', p0) = sbrk_r sb h 0 in h'\<lparr>sbrk_start := p0\<rparr>) else h) = h0"
    "hmem h0 = hmem h" "free_list h0 = free_list h" "brk (kern h0) = b"
    using sbrk_first [of h] assms(1) by (auto simp: b_def)
  obtain h1 p where h1: "sbrk_r sb h0 s = (h1, p)" "hmem h1 = hmem h" "free_list h1 = free_list h"
    "p = b \<and> brk (kern h1) = b + unat s \<or> p = SBRK_FAILED \<and> brk (kern h1) = b"
    using sbrk_r_law [of h0 s] assms(1) h0 by (auto simp: b_def)
  have run: "sbrk_aligned sb h s =
      (if p = SBRK_FAILED then (h1, p)
       else (let align_p = ALIGN_TO (of_nat p) CHUNK_ALIGN in
         if align_p \<noteq> of_nat p then
           (let (h2, p2) = sbrk_r sb h1 (align_p - of_nat p)
            in if p2 = SBRK_FAILED then (h2, p2) else (h2, unat align_p))
         else (h1, unat align_p)))"
    unfolding sbrk_aligned_def Let_def [of "if sbrk_start h = 0 then _ else _"] h0(1) by (simp add: h1(1))
  show ?thesis
  proof (cases "p = SBRK_FAILED")
    case True
    then show ?thesis using run h1 assms(1) by (auto simp: b_def SBRK_FAILED_def)
  next
    case False
    then have p: "p = b" "brk (kern h1) = b + unat s" using h1(4) by auto
    have b32: "b < 2 ^ 32 - 16" "q0 \<le> b + 3" "b \<le> q0"
      using assms(1) unfolding q0_def b_def by (simp, simp, presburger)
    have al: "ALIGN_TO (of_nat p) CHUNK_ALIGN = of_nat q0"
      using ALIGN_TO_nat [of "of_nat b" 2] unat_small [of b] b32(1)
      unfolding p(1) q0_def b_def by (simp add: malloc_values add.commute)
    have uq: "unat (of_nat q0 :: u32) = q0" using b32 by (intro unat_small) simp
    have ub: "unat (of_nat b :: u32) = b" using b32(1) by (intro unat_small) simp
    have eq: "(of_nat q0 :: u32) = of_nat p \<longleftrightarrow> q0 = b" using uq ub p(1) by metis
    show ?thesis
    proof (cases "q0 = b")
      case True
      then show ?thesis using run False al eq uq p h1(2,3) by (simp add: b_def Let_def)
    next
      case ne: False
      have d: "of_nat q0 - of_nat p = (of_nat (q0 - b) :: u32)" using b32(3) p(1) by (simp add: of_nat_diff)
      have ud: "unat (of_nat (q0 - b) :: u32) = q0 - b" using b32 by (intro unat_small) simp
      have "brk (kern h1) + unat (of_nat (q0 - b) :: u32) < 2 ^ 32 - 16"
        unfolding ud using assms(1) p(2) b32 by (simp add: b_def)
      from sbrk_r_law [OF this] obtain h2 p2 where h2: "sbrk_r sb h1 (of_nat (q0 - b)) = (h2, p2)"
        "hmem h2 = hmem h" "free_list h2 = free_list h"
        "p2 = b + unat s \<and> brk (kern h2) = b + unat s + (q0 - b) \<or> p2 = SBRK_FAILED \<and> brk (kern h2) = b + unat s"
        using h1(2,3) p(2) ud by auto
      have nf: "b + unat s \<noteq> SBRK_FAILED" using assms(1) by (simp add: b_def SBRK_FAILED_def)
      show ?thesis using run False al eq uq ne h2 b32(3) nf p(1) unfolding d b_def [symmetric] by (auto simp: Let_def)
    qed
  qed
qed

end

text \<open>The break of \<open>_sbrk\<close> of \<open>test/interface.c\<close>, which starts at the linker symbol.\<close>

definition interface_brk :: "nat \<Rightarrow> nat \<Rightarrow> nat" where
  "interface_brk end_sym heap_end = (if heap_end = 0 then end_sym else heap_end)"

interpretation interface_sbrk: sbrk_source "sbrk_interface e" "interface_brk e" for e
proof
  fix k :: nat and n :: u32
  assume room: "interface_brk e k + unat n < 2 ^ 32 - 16"
  define e0 where "e0 = interface_brk e k"
  have "of_nat e0 + n = of_nat (e0 + unat n)" by simp
  then have "unat (of_nat e0 + n) = e0 + unat n" using unat_small [of "e0 + unat n"] room by (simp add: e0_def)
  then have "sbrk_interface e k n = (e0 + unat n, e0, 0)"
    by (simp add: sbrk_interface_def interface_brk_def e0_def)
  moreover have "interface_brk e (e0 + unat n) = e0 + unat n"
    by (auto simp: interface_brk_def e0_def split: if_splits)
  ultimately show "\<exists>k' p e'. sbrk_interface e k n = (k', p, e') \<and>
    (p = interface_brk e k \<and> interface_brk e k' = interface_brk e k + unat n \<or> p = SBRK_FAILED \<and> interface_brk e k' = interface_brk e k)"
    by (simp add: e0_def)
qed

section \<open>malloc keeps the heap\<close>

lemma chunk_in_mono: "chunk_in lo b c \<Longrightarrow> b \<le> b' \<Longrightarrow> chunk_in lo b' c"
  by (simp add: chunk_in_def)

lemma list_ok_mono: "list_ok lo b fs \<Longrightarrow> b \<le> b' \<Longrightarrow> heap_range lo b' \<Longrightarrow> list_ok lo b' fs"
  by (auto simp: list_ok_def intro: chunk_in_mono)

lemma heap_ok_mono:
  assumes "heap_ok lo b h fs A" and "b \<le> b'" and "heap_range lo b'" and "hmem h' = hmem h" and "free_list h' = free_list h"
  shows "heap_ok lo b' h' fs A"
  using assms list_ok_mono [of lo b fs b'] by (auto simp: heap_ok_def intro: chunk_in_mono)

lemma heap_ok_insert:
  assumes ok: "heap_ok lo b h fs A" and b: "b \<le> b'" and seg: "free_seg (hmem h') (free_list h') fs' 0" "list_ok lo b' fs'"
    and sub: "regions fs' \<subseteq> regions fs"
    and new: "chunk_in lo b' (r, n)" "block_at (hmem h') (r, n, p)" "regions fs' \<inter> {r..<r + n} = {}"
      "\<forall>x \<in> A. barea x \<inter> {r..<r + n} = {}"
    and keep: "\<forall>x \<in> A. \<forall>y \<in> barea x. hmem h' y = hmem h y"
  shows "heap_ok lo b' h' fs' (insert (r, n, p) A)"
proof -
  have old: "chunk_in lo b' (fst x, fst (snd x)) \<and> block_at (hmem h') x \<and> barea x \<inter> regions fs' = {}" if "x \<in> A" for x
  proof -
    have x: "chunk_in lo b (fst x, fst (snd x))" "block_at (hmem h) x" "barea x \<inter> regions fs = {}"
      using ok that by (auto simp: heap_ok_def)
    have "8 \<le> fst (snd x)" using x(1) by (simp add: chunk_in_def)
    then show ?thesis using x keep that sub block_at_keep [OF x(2)] chunk_in_mono [OF x(1) b] by blast
  qed
  have nw: "barea (r, n, p) = {r..<r + n}" by (simp add: barea_def)
  have pw: "\<forall>x \<in> A. \<forall>y \<in> A. x \<noteq> y \<longrightarrow> barea x \<inter> barea y = {}" using ok by (simp add: heap_ok_def)
  have "\<forall>x \<in> insert (r, n, p) A. \<forall>y \<in> insert (r, n, p) A. x \<noteq> y \<longrightarrow> barea x \<inter> barea y = {}"
    using pw new(4) nw by (metis Int_commute insert_iff)
  moreover have "\<forall>x \<in> insert (r, n, p) A. chunk_in lo b' (fst x, fst (snd x)) \<and> block_at (hmem h') x \<and> barea x \<inter> regions fs' = {}"
    using old new(1-3) nw by (auto simp: Int_commute)
  ultimately show ?thesis using seg by (simp add: heap_ok_def)
qed

text \<open>The outcome of an allocation of \<open>s\<close> bytes: no memory and an unchanged heap, or a new block.\<close>

definition malloc_result :: "nat \<Rightarrow> nat \<Rightarrow> 'k heap \<Rightarrow> chk list \<Rightarrow> block set \<Rightarrow> nat \<Rightarrow> 'k heap \<Rightarrow> nat \<Rightarrow> bool" where
  "malloc_result lo b' h fs A s h' ptr \<longleftrightarrow>
     (ptr = 0 \<and> RERRNO h' = ENOMEM \<and> hmem h' = hmem h \<and> heap_ok lo b' h' fs A) \<or>
     (\<exists>r n fs'. heap_ok lo b' h' fs' (insert (r, n, ptr) A) \<and> (\<forall>x \<in> A. barea x \<inter> {r..<r + n} = {}) \<and>
        ptr \<noteq> 0 \<and> 8 dvd ptr \<and> r < ptr \<and> ptr + s \<le> r + n \<and> s + 8 \<le> n \<and> (\<forall>x \<in> A. \<forall>y \<in> barea x. hmem h' y = hmem h y))"

lemma malloc_new_block:
  assumes ok: "heap_ok lo b h fs A" and b: "b \<le> b'" and seg: "free_seg m fl fs' 0" "list_ok lo b' fs'"
    and sub: "regions fs' \<subseteq> regions fs"
    and new: "chunk_in lo b' (r, n)" "load32 m r = of_nat n" "regions fs' \<inter> {r..<r + n} = {}"
      "\<forall>x \<in> A. barea x \<inter> {r..<r + n} = {}"
    and keep: "\<forall>x \<in> A. \<forall>y \<in> barea x. m y = hmem h y" and s: "s + 8 \<le> n" "12 \<le> n"
    and h': "malloc_ptr m r = (m', a)" "hmem h' = m'" "free_list h' = fl"
  shows "malloc_result lo b' h fs A s h' a"
proof -
  have rg: "heap_range lo b'" using seg(2) by (simp add: list_ok_def)
  from malloc_ptr_block [OF rg new(1,2) s(2)] h'(1) have a: "block_at m' (r, n, a)" "a \<le> r + 8" "8 dvd a"
    "\<forall>y. y \<notin> {r..<r + n} \<longrightarrow> m' y = m y" by auto
  have "free_seg m' fl fs' 0" by (rule free_seg_keep [OF seg new(3) a(4)])
  moreover have kp: "\<forall>x \<in> A. \<forall>y \<in> barea x. m' y = hmem h y" using keep a(4) new(4) by (metis IntI empty_iff)
  ultimately have "heap_ok lo b' h' fs' (insert (r, n, a) A)"
    using heap_ok_insert [OF ok b _ seg(2) sub new(1) _ new(3,4), of h' a] a(1) h' by simp
  moreover have "r < a" using a(1) by (auto simp: block_at_def)
  ultimately show ?thesis using a(2,3) s(1) new(4) kp h'(2)
    unfolding malloc_result_def by (intro disjI2 exI [of _ r] exI [of _ n] exI [of _ fs']) auto
qed

text \<open>The chunk size of a request that is not too big.\<close>

lemma malloc_chunk_size:
  assumes "unat s + 16 < 2 ^ 31" and "n = unat (malloc_alloc_size s)"
  shows "12 \<le> n" "4 dvd n" "unat s + 8 \<le> n" "n \<le> unat s + 12" "malloc_alloc_size s = of_nat n"
    "\<not> (MAX_ALLOC_SIZE \<le> malloc_alloc_size s \<or> malloc_alloc_size s < s)"
proof -
  have n: "n = max ((unat s + 3) div 4 * 4 + 8) 12"
    unfolding assms(2) by (rule malloc_alloc_size_nat) (use assms(1) in simp)
  have "(unat s + 3) div 4 * 4 \<le> unat s + 3" "unat s \<le> (unat s + 3) div 4 * 4" by presburger+
  then show le: "12 \<le> n" "unat s + 8 \<le> n" "n \<le> unat s + 12" unfolding n by auto
  show "4 dvd n" unfolding n max_def by simp
  have "of_nat (unat (malloc_alloc_size s)) = malloc_alloc_size s" by simp
  then show "malloc_alloc_size s = of_nat n" by (simp only: assms(2))
  show "\<not> (MAX_ALLOC_SIZE \<le> malloc_alloc_size s \<or> malloc_alloc_size s < s)"
    using le assms by (simp add: word_le_nat_alt word_less_nat_alt malloc_consts)
qed

text \<open>A request that a free chunk can serve: first fit on the list, without the memory source.\<close>

lemma nano_malloc_fit:
  assumes ok: "heap_ok lo b h fs A" and s: "unat s + 16 < 2 ^ 31"
    and fit: "take_fit (unat (malloc_alloc_size s)) fs = Some ((x, j), fs')"
  shows "\<exists>m' fl' ptr. nano_malloc sb h s = Some (h\<lparr>hmem := m', free_list := fl'\<rparr>, ptr) \<and>
    heap_ok lo b (h\<lparr>hmem := m', free_list := fl'\<rparr>) fs' (insert (x, j, ptr) A) \<and>
    ptr \<noteq> 0 \<and> 8 dvd ptr \<and> x < ptr \<and> ptr + unat s \<le> x + j \<and> unat s + 8 \<le> j \<and>
    (\<forall>y \<in> A. barea y \<inter> {x..<x + j} = {}) \<and> (\<forall>y \<in> A. \<forall>a \<in> barea y. m' a = hmem h a)"
proof -
  define n where "n = unat (malloc_alloc_size s)"
  note n = malloc_chunk_size [OF s n_def]
  have hp: "free_seg (hmem h) (free_list h) fs 0" "list_ok lo b fs"
    "\<forall>y \<in> A. chunk_in lo b (fst y, fst (snd y)) \<and> block_at (hmem h) y \<and> barea y \<inter> regions fs = {}"
    using ok by (simp_all add: heap_ok_def)
  have n31: "n < 2 ^ 31" using n(4) s by simp
  obtain m' fl' where f: "fit_loop (of_nat n) (hmem h) (free_list h) (free_list h) (free_list h) = Some (m', fl', x)"
    "free_seg m' fl' fs' 0" "load32 m' x = of_nat j" "\<forall>y. y \<notin> regions fs \<longrightarrow> m' y = hmem h y"
    using fit_loop_refines [of "hmem h" "free_list h" "[]" "free_list h" fs lo b "free_list h" n, unfolded append_Nil]
      hp(1,2) n(1) n31 fit by (auto simp: n_def [symmetric])
  have t: "chunk_in lo b (x, j)" "n \<le> j" "\<forall>c \<in> set fs'. chunk_in lo b c" "spaced fs'"
    "regions fs = regions fs' \<union> region (x, j)" "regions fs' \<inter> region (x, j) = {}"
    using take_fit_Some [of n fs x j fs' lo b] fit hp(2) n(1,2) by (simp_all add: list_ok_def n_def)
  have ok': "list_ok lo b fs'" using t(3,4) hp(2) by (simp add: list_ok_def)
  have rg: "heap_range lo b" using hp(2) by (simp add: list_ok_def)
  have j: "12 \<le> j" "unat s + 8 \<le> j" using t(2) n(1,3) by simp_all
  from malloc_ptr_block [OF rg t(1) f(3) j(1)] obtain m2 a where
    mp: "malloc_ptr m' x = (m2, a)" "block_at m2 (x, j, a)" "8 dvd a" "a \<le> x + 8" "\<forall>y. y \<notin> {x..<x + j} \<longrightarrow> m2 y = m' y" by blast
  have dj: "\<forall>y \<in> A. barea y \<inter> {x..<x + j} = {}" using hp(3) t(5) by auto
  have kp: "\<forall>y \<in> A. \<forall>a \<in> barea y. m2 a = hmem h a"
    using hp(3) f(4) mp(5) dj by (metis IntI empty_iff)
  have d6: "regions fs' \<inter> {x..<x + j} = {}" using t(6) by simp
  have "heap_ok lo b (h\<lparr>hmem := m2, free_list := fl'\<rparr>) fs' (insert (x, j, a) A)"
  proof (rule heap_ok_insert [OF ok le_refl _ ok' _ t(1) _ d6 dj])
    show "free_seg (hmem (h\<lparr>hmem := m2, free_list := fl'\<rparr>)) (free_list (h\<lparr>hmem := m2, free_list := fl'\<rparr>)) fs' 0"
      using free_seg_keep [OF f(2) ok' d6 mp(5)] by simp
  qed (use t(5) mp(2) kp in auto)
  moreover have x0: "x \<noteq> 0" using t(1) rg by (auto simp: chunk_in_def heap_range_def)
  then have "nano_malloc sb h s = Some (h\<lparr>hmem := m2, free_list := fl'\<rparr>, a)"
    using n(5,6) f(1) mp(1) by (simp add: nano_malloc_def Let_def)
  moreover have "x < a" using mp(2) by (auto simp: block_at_def)
  ultimately show ?thesis using mp(3,4) j(2) dj kp x0 by (intro exI [of _ m2] exI [of _ fl'] exI [of _ a]) simp
qed

context sbrk_source begin

lemma nano_malloc_ok:
  assumes ok: "heap_ok lo (brk (kern h)) h fs A" and room: "heap_range lo (brk (kern h) + unat s + 16)"
  shows "\<exists>h' ptr. nano_malloc sb h s = Some (h', ptr) \<and> brk (kern h) \<le> brk (kern h') \<and>
    brk (kern h') \<le> brk (kern h) + unat s + 16 \<and> malloc_result lo (brk (kern h')) h fs A (unat s) h' ptr"
proof -
  define b where "b = brk (kern h)"
  define n where "n = unat (malloc_alloc_size s)"
  have rm: "lo \<le> b" "b + unat s + 16 < 2 ^ 32 - 16" "b + unat s + 16 < lo + 2 ^ 31" "0 < lo"
    using room ok by (auto simp: b_def heap_range_def heap_ok_def list_ok_def)
  have s31: "unat s + 16 < 2 ^ 31" using rm by simp
  note n = malloc_chunk_size(1-4) [OF s31 n_def] and al = malloc_chunk_size(5) [OF s31 n_def]
    and guard = malloc_chunk_size(6) [OF s31 n_def]
  have un: "unat (of_nat n :: u32) = n" using n(4) s31 by (intro unat_small) simp
  have hp: "free_seg (hmem h) (free_list h) fs 0" "list_ok lo b fs"
    "\<forall>x \<in> A. chunk_in lo b (fst x, fst (snd x)) \<and> block_at (hmem h) x \<and> barea x \<inter> regions fs = {}"
    using ok by (simp_all add: heap_ok_def b_def)
  have rgb: "heap_range lo b'" if "b \<le> b'" "b' \<le> b + unat s + 16" for b'
    using rm that by (auto simp: heap_range_def)
  have n31: "n < 2 ^ 31" using n(4) s31 by simp
  show ?thesis
  proof (cases "take_fit n fs")
    case None
    have fit: "fit_loop (of_nat n) (hmem h) (free_list h) (free_list h) (free_list h) = Some (hmem h, free_list h, 0)"
      using fit_loop_refines [of "hmem h" "free_list h" "[]" "free_list h" fs lo b "free_list h" n, unfolded append_Nil]
        hp(1,2) n(1) n31 None by simp
    obtain h2 q where h2: "sbrk_aligned sb h (of_nat n) = (h2, q)" "hmem h2 = hmem h" "free_list h2 = free_list h"
      "q = (b + 3) div 4 * 4 \<and> brk (kern h2) = (b + 3) div 4 * 4 + n \<or>
       q = SBRK_FAILED \<and> b \<le> brk (kern h2) \<and> brk (kern h2) \<le> b + n"
      using sbrk_aligned_law [of h "of_nat n"] un al rm n(4) by (auto simp: b_def)
    have run: "nano_malloc sb h s = (if q = SBRK_FAILED then Some (h2\<lparr>RERRNO := ENOMEM\<rparr>, 0)
        else (let (m', a) = malloc_ptr (store32 (hmem h) q (of_nat n)) q in Some (h2\<lparr>hmem := m'\<rparr>, a)))"
      using guard fit None h2(1,2) by (simp add: nano_malloc_def Let_def al)
    show ?thesis
    proof (cases "q = SBRK_FAILED")
      case True
      then have bb: "b \<le> brk (kern h2)" "brk (kern h2) \<le> b + unat s + 16" using h2(4) n(4) rm by (auto simp: SBRK_FAILED_def)
      have "heap_ok lo (brk (kern h2)) (h2\<lparr>RERRNO := ENOMEM\<rparr>) fs A"
        by (rule heap_ok_mono [OF ok]) (use bb rgb h2 in \<open>simp_all add: b_def\<close>)
      then show ?thesis using run True bb h2(2) by (simp add: malloc_result_def b_def)
    next
      case False
      then have q: "q = (b + 3) div 4 * 4" "brk (kern h2) = q + n" using h2(4) by auto
      have qb: "b \<le> q" "q \<le> b + 3" "4 dvd q" unfolding q(1) by presburger+
      have bb: "b \<le> q + n" "q + n \<le> b + unat s + 16" using qb n(4) by simp_all
      obtain m' a where mp: "malloc_ptr (store32 (hmem h) q (of_nat n)) q = (m', a)" by (metis prod.exhaust)
      have below: "y < q" if "y \<in> regions fs \<or> (\<exists>x \<in> A. y \<in> barea x)" for y
        using that hp(2,3) qb(1) by (fastforce simp: regions_def list_ok_def chunk_in_def barea_region region_def)
      have "malloc_result lo (q + n) h fs A (unat s) (h2\<lparr>hmem := m'\<rparr>) a"
      proof (rule malloc_new_block [OF ok _ _ list_ok_mono [OF hp(2)] subset_refl _ _ _ _ _ n(3,1) mp])
        show "free_seg (store32 (hmem h) q (of_nat n)) (free_list h) fs 0"
          by (rule free_seg_keep [OF hp(1,2), of "{q..<q + 4}"]) (use below in \<open>force intro: store32_outside\<close>)+
        show "regions fs \<inter> {q..<q + n} = {}" "\<forall>x \<in> A. barea x \<inter> {q..<q + n} = {}" using below by force+
        show "\<forall>x \<in> A. \<forall>y \<in> barea x. store32 (hmem h) q (of_nat n) y = hmem h y"
        proof (intro ballI)
          fix x y assume "x \<in> A" "y \<in> barea x"
          then have "y < q" using below by blast
          then show "store32 (hmem h) q (of_nat n) y = hmem h y" by (simp add: store32_other)
        qed
        show "chunk_in lo (q + n) (q, n)" using n qb rm by (simp add: chunk_in_def)
      qed (use bb rgb h2(3) in \<open>simp_all add: b_def\<close>)
      then show ?thesis using run False mp q bb by (simp add: b_def)
    qed
  next
    case (Some c)
    obtain x j fs' where c: "c = ((x, j), fs')" by (metis prod.exhaust)
    from nano_malloc_fit [OF ok s31, of x j fs' sb] obtain m' fl' ptr where
      f: "nano_malloc sb h s = Some (h\<lparr>hmem := m', free_list := fl'\<rparr>, ptr)"
      "heap_ok lo (brk (kern h)) (h\<lparr>hmem := m', free_list := fl'\<rparr>) fs' (insert (x, j, ptr) A)"
      "ptr \<noteq> 0" "8 dvd ptr" "x < ptr" "ptr + unat s \<le> x + j" "unat s + 8 \<le> j"
      "\<forall>y \<in> A. barea y \<inter> {x..<x + j} = {}" "\<forall>y \<in> A. \<forall>a \<in> barea y. m' a = hmem h a"
      using Some c by (auto simp: n_def)
    have "malloc_result lo (brk (kern h)) h fs A (unat s) (h\<lparr>hmem := m', free_list := fl'\<rparr>) ptr"
      unfolding malloc_result_def using f(2-9) by (intro disjI2 exI [of _ x] exI [of _ j] exI [of _ fs']) simp
    then show ?thesis using f(1) by simp
  qed
qed

end

section \<open>free keeps the heap\<close>

lemma nano_free_ok:
  assumes ok: "heap_ok lo b h fs A" and x: "(r, n, p) \<in> A"
  shows "\<exists>m' fl'. nano_free h p = Some (h\<lparr>hmem := m', free_list := fl'\<rparr>) \<and>
    heap_ok lo b (h\<lparr>hmem := m', free_list := fl'\<rparr>) (ins_chunk r n fs) (A - {(r, n, p)}) \<and>
    (\<forall>y \<in> A - {(r, n, p)}. \<forall>a \<in> barea y. m' a = hmem h a) \<and> total (ins_chunk r n fs) = total fs + n"
proof -
  have hp: "free_seg (hmem h) (free_list h) fs 0" "list_ok lo b fs"
    and pw: "\<forall>x \<in> A. \<forall>y \<in> A. x \<noteq> y \<longrightarrow> barea x \<inter> barea y = {}"
    and each: "\<forall>x \<in> A. chunk_in lo b (fst x, fst (snd x)) \<and> block_at (hmem h) x \<and> barea x \<inter> regions fs = {}"
    using ok by (simp_all add: heap_ok_def)
  have rg: "heap_range lo b" using hp(2) by (simp add: list_ok_def)
  have c: "chunk_in lo b (r, n)" "block_at (hmem h) (r, n, p)" using each x by fastforce+
  have dj: "regions fs \<inter> region (r, n) = {}" using each x unfolding barea_region by fastforce
  have ld: "load32 (hmem h) r = of_nat n" using c(2) by (simp add: block_at_def)
  obtain m' fl' where f: "nano_free h p = Some (h\<lparr>hmem := m', free_list := fl'\<rparr>)" "free_seg m' fl' (ins_chunk r n fs) 0"
    "\<forall>y. y \<notin> regions fs \<union> region (r, n) \<longrightarrow> m' y = hmem h y"
    using nano_free_refines [OF hp c(1) dj ld block_chunk(2,1) [OF c(2) rg c(1)]] by blast
  have i: "(\<forall>c \<in> set (ins_chunk r n fs). chunk_in lo b c) \<and> spaced (ins_chunk r n fs) \<and>
    regions (ins_chunk r n fs) = regions fs \<union> region (r, n) \<and> total (ins_chunk r n fs) = total fs + n"
    using ins_chunk_facts [of fs lo b r n] hp(2) c(1) dj by (simp add: list_ok_def)
  have out: "barea y \<inter> (regions fs \<union> region (r, n)) = {}" if "y \<in> A - {(r, n, p)}" for y
  proof -
    have "barea (r, n, p) = region (r, n)" by (simp add: barea_region)
    then show ?thesis using each pw x that by blast
  qed
  have keep: "\<forall>y \<in> A - {(r, n, p)}. \<forall>a \<in> barea y. m' a = hmem h a" using f(3) out by blast
  have "chunk_in lo b (fst y, fst (snd y)) \<and> block_at m' y \<and> barea y \<inter> regions (ins_chunk r n fs) = {}"
    if "y \<in> A - {(r, n, p)}" for y
  proof -
    have "8 \<le> fst (snd y)" using each that by (auto simp: chunk_in_def)
    then show ?thesis using each that keep block_at_keep [of "hmem h" y m'] out [OF that] i by blast
  qed
  then have "heap_ok lo b (h\<lparr>hmem := m', free_list := fl'\<rparr>) (ins_chunk r n fs) (A - {(r, n, p)})"
    using f(2) i rg pw by (simp add: heap_ok_def list_ok_def)
  then show ?thesis using f(1) keep i by blast
qed

section \<open>The payload belongs to the client\<close>

lemma heap_ok_payload:
  assumes ok: "heap_ok lo b h fs A" and x: "(r, n, p) \<in> A" and ch: "\<forall>y. y \<notin> {p..<r + n} \<longrightarrow> m' y = hmem h y"
  shows "heap_ok lo b (h\<lparr>hmem := m'\<rparr>) fs A"
proof -
  have hp: "free_seg (hmem h) (free_list h) fs 0" "list_ok lo b fs"
    and pw: "\<forall>x \<in> A. \<forall>y \<in> A. x \<noteq> y \<longrightarrow> barea x \<inter> barea y = {}"
    and each: "\<forall>x \<in> A. chunk_in lo b (fst x, fst (snd x)) \<and> block_at (hmem h) x \<and> barea x \<inter> regions fs = {}"
    using ok by (simp_all add: heap_ok_def)
  have c: "block_at (hmem h) (r, n, p)" "{p..<r + n} \<subseteq> barea (r, n, p)" "r + 4 \<le> p" "p + 4 \<le> r + n"
    using each x by (auto simp: block_at_def barea_def)
  have "free_seg m' (free_list h) fs 0"
    by (rule free_seg_keep [OF hp, of "{p..<r + n}"]) (use each x c(2) ch in blast)+
  moreover have "block_at m' y" if y: "y \<in> A" for y
  proof (cases "y = (r, n, p)")
    case True
    have "load32 m' r = load32 (hmem h) r" by (rule load32_cong) (use ch c(3) in auto)
    moreover have "load32 m' (p - 4) = load32 (hmem h) (p - 4)" proof (rule load32_cong)
      fix i :: nat assume "i < 4"
      then have "p - 4 + i < p" using c(3) by simp
      then show "m' (p - 4 + i) = hmem h (p - 4 + i)" using ch by auto
    qed
    ultimately show ?thesis using c(1) True by (simp add: block_at_def)
  next
    case False
    then have "barea y \<inter> {p..<r + n} = {}" using pw x y c(2) by blast
    moreover have "8 \<le> fst (snd y)" using each y by (auto simp: chunk_in_def)
    ultimately show ?thesis using block_at_keep [of "hmem h" y m'] each y ch by blast
  qed
  ultimately show ?thesis using hp each pw by (simp add: heap_ok_def)
qed

section \<open>calloc\<close>

lemma malloc_result_cases:
  assumes "malloc_result lo b' h fs A s h' ptr"
  obtains (failed) "ptr = 0" "RERRNO h' = ENOMEM" "hmem h' = hmem h" "heap_ok lo b' h' fs A"
  | (block) r n fs' where "heap_ok lo b' h' fs' (insert (r, n, ptr) A)" "\<forall>x \<in> A. barea x \<inter> {r..<r + n} = {}"
      "ptr \<noteq> 0" "8 dvd ptr" "r < ptr" "ptr + s \<le> r + n" "s + 8 \<le> n" "\<forall>x \<in> A. \<forall>y \<in> barea x. hmem h' y = hmem h y"
  using assms unfolding malloc_result_def by blast

lemma malloc_resultI:
  assumes "heap_ok lo b' h' fs' (insert (r, n, ptr) A)" "\<forall>x \<in> A. barea x \<inter> {r..<r + n} = {}"
      "ptr \<noteq> 0" "8 dvd ptr" "r < ptr" "ptr + s \<le> r + n" "s + 8 \<le> n" "\<forall>x \<in> A. \<forall>y \<in> barea x. hmem h' y = hmem h y"
  shows "malloc_result lo b' h fs A s h' ptr"
  using assms unfolding malloc_result_def by blast

context sbrk_source begin

lemma nano_calloc_ok:
  assumes ok: "heap_ok lo (brk (kern h)) h fs A" and room: "heap_range lo (brk (kern h) + unat (n * elem) + 16)"
  shows "\<exists>h' ptr. nano_calloc sb h n elem = Some (h', ptr) \<and>
    malloc_result lo (brk (kern h')) h fs A (unat (n * elem)) h' ptr \<and>
    (ptr \<noteq> 0 \<longrightarrow> (\<forall>i < unat (n * elem). hmem h' (ptr + i) = 0))"
proof -
  define s where "s = n * elem"
  obtain h1 p where m: "nano_malloc sb h s = Some (h1, p)" "malloc_result lo (brk (kern h1)) h fs A (unat s) h1 p"
    using nano_malloc_ok [OF ok room] by (auto simp: s_def)
  from m(2) show ?thesis
  proof (cases rule: malloc_result_cases)
    case failed
    then show ?thesis using m by (simp add: nano_calloc_def s_def)
  next
    case (block r k fs')
    define m' where "m' = region_fill (hmem h1) p (unat s) 0"
    define h2 where "h2 = h1\<lparr>hmem := m'\<rparr>"
    have run: "nano_calloc sb h n elem = Some (h2, p)"
      using m(1) block(3) by (simp add: nano_calloc_def s_def [symmetric] memset_region m'_def h2_def)
    have "heap_ok lo (brk (kern h1)) h2 fs' (insert (r, k, p) A)" unfolding h2_def
      by (rule heap_ok_payload [OF block(1)]) (use block(6) in \<open>auto simp: m'_def region_fill_def\<close>)
    moreover have "\<forall>x \<in> A. \<forall>y \<in> barea x. m' y = hmem h y"
    proof (intro ballI)
      fix x y assume xy: "x \<in> A" "y \<in> barea x"
      then have "y \<notin> {r..<r + k}" using block(2) by blast
      then show "m' y = hmem h y" using block(5,6,8) xy by (auto simp: m'_def region_fill_def)
    qed
    ultimately have "malloc_result lo (brk (kern h2)) h fs A (unat s) h2 p"
      by (intro malloc_resultI [of _ _ _ fs' r k]) (use block(2-7) in \<open>simp_all add: h2_def\<close>)
    then show ?thesis using run by (auto simp: h2_def m'_def region_fill_def s_def)
  qed
qed

end

section \<open>A forward copy whose source runs into its destination\<close>

text \<open>
  \<open>nano_realloc\<close> copies as many bytes as the new size, also beyond the end of the old block. The first
  \<open>k\<close> bytes arrive as long as the source of these lies below the destination.
\<close>

definition prefix_copied :: "mem \<Rightarrow> mem \<Rightarrow> nat \<Rightarrow> nat \<Rightarrow> nat \<Rightarrow> nat \<Rightarrow> bool" where
  "prefix_copied m m' d s n k \<longleftrightarrow> (\<forall>y. y \<notin> {d..<d + n} \<longrightarrow> m' y = m y) \<and> (\<forall>i. i < k \<and> i < n \<longrightarrow> m' (d + i) = m (s + i))"

lemma prefix_copied_trans:
  assumes "prefix_copied m m1 d s a k" and "prefix_copied m1 m2 (d + a) (s + a) n (k - a)" and "s + k \<le> d"
  shows "prefix_copied m m2 d s (a + n) k"
  unfolding prefix_copied_def
proof (intro conjI allI impI)
  fix y assume "y \<notin> {d..<d + (a + n)}"
  then show "m2 y = m y" using assms(1,2) by (auto simp: prefix_copied_def)
next
  fix i assume i: "i < k \<and> i < a + n"
  show "m2 (d + i) = m (s + i)"
  proof (cases "i < a")
    case True
    then show ?thesis using assms(1,2) i by (auto simp: prefix_copied_def)
  next
    case False
    then have e: "d + a + (i - a) = d + i" "s + a + (i - a) = s + i" "i - a < k - a" "i - a < n" using i by auto
    have "m2 (d + a + (i - a)) = m1 (s + a + (i - a))" using assms(2) e(3,4) unfolding prefix_copied_def by blast
    moreover have "m1 (s + i) = m (s + i)" using assms(1,3) i by (auto simp: prefix_copied_def)
    ultimately show ?thesis unfolding e by simp
  qed
qed

lemma prefix_copied_region: "prefix_copied m (region_copy m d s n) d s n k"
  by (auto simp: prefix_copied_def region_copy_def)

lemma prefix_copied_0 [simp]: "prefix_copied m m d s 0 k"
  by (simp add: prefix_copied_def)

lemma byte_copier_prefix:
  "s + k \<le> d \<Longrightarrow> \<exists>m'. byte_copier m d s n = (m', d + n, s + n) \<and> prefix_copied m m' d s n k"
proof (induction n arbitrary: m d s k)
  case (Suc n)
  have "s + 1 + (k - 1) \<le> d + 1" using Suc.prems by simp
  from Suc.IH [OF this, of "m(d := m s)"] obtain m' where
    m': "byte_copier (m(d := m s)) (d + 1) (s + 1) n = (m', d + 1 + n, s + 1 + n)"
    "prefix_copied (m(d := m s)) m' (d + 1) (s + 1) n (k - 1)" by blast
  then show ?case
    using prefix_copied_trans [of m "m(d := m s)" d s 1 k m' n] prefix_copied_region [of m d s 1 k] Suc.prems
    by (simp add: region_copy_byte)
qed simp

lemma copy_little_prefix:
  "s + k \<le> d \<Longrightarrow> \<exists>m' l. copy_little m d s n = (m', d + (n - l), s + (n - l), l) \<and> l \<le> n \<and> prefix_copied m m' d s (n - l) k"
proof (induction m d s n arbitrary: k rule: copy_little.induct)
  case (1 m d s n)
  show ?case
  proof (cases "4 \<le> n")
    case True
    have "s + 4 + (k - 4) \<le> d + 4" using 1(2) by simp
    from 1(1) [OF True this] obtain m' l where
      m': "copy_little (copy_word m d s) (d + 4) (s + 4) (n - 4) = (m', d + 4 + (n - 4 - l), s + 4 + (n - 4 - l), l)"
      "l \<le> n - 4" "prefix_copied (copy_word m d s) m' (d + 4) (s + 4) (n - 4 - l) (k - 4)" by blast
    have "prefix_copied m m' d s (4 + (n - 4 - l)) k"
      using prefix_copied_trans [OF _ m'(3) 1(2)] prefix_copied_region by (simp add: copy_word_region)
    moreover have "4 + (n - 4 - l) = n - l" using m'(2) True by simp
    ultimately show ?thesis using m' True by (subst copy_little.simps) (auto intro!: exI [of _ m'] exI [of _ l])
  qed (subst copy_little.simps, auto)
qed

lemma copy_big_prefix:
  "s + k \<le> d \<Longrightarrow> \<exists>m' l. copy_big m d s n = (m', d + (n - l), s + (n - l), l) \<and> l \<le> n \<and> prefix_copied m m' d s (n - l) k"
proof (induction n arbitrary: m d s k rule: less_induct)
  case (less n)
  show ?case
  proof (cases "16 \<le> n")
    case True
    define x1 where "x1 = copy_word m d s"
    define x2 where "x2 = copy_word x1 (d + 4) (s + 4)"
    define x3 where "x3 = copy_word x2 (d + 8) (s + 8)"
    define m1 where "m1 = copy_word x3 (d + 12) (s + 12)"
    have w: "prefix_copied x (copy_word x a b) a b 4 j" for x a b j
      using prefix_copied_region by (simp add: copy_word_region)
    have "prefix_copied m x1 d s 4 k" unfolding x1_def by (rule w)
    from prefix_copied_trans [OF this w less.prems] have "prefix_copied m x2 d s 8 k" by (simp add: x2_def)
    from prefix_copied_trans [OF this w less.prems] have "prefix_copied m x3 d s 12 k" by (simp add: x3_def)
    from prefix_copied_trans [OF this w less.prems] have p1: "prefix_copied m m1 d s 16 k" by (simp add: m1_def)
    have "s + 16 + (k - 16) \<le> d + 16" "n - 16 < n" using less.prems True by simp_all
    from less.IH [OF this(2,1), of m1] obtain m' l where
      m': "copy_big m1 (d + 16) (s + 16) (n - 16) = (m', d + 16 + (n - 16 - l), s + 16 + (n - 16 - l), l)"
      "l \<le> n - 16" "prefix_copied m1 m' (d + 16) (s + 16) (n - 16 - l) (k - 16)" by blast
    have "prefix_copied m m' d s (16 + (n - 16 - l)) k" by (rule prefix_copied_trans [OF p1 m'(3) less.prems])
    moreover have "16 + (n - 16 - l) = n - l" using m'(2) True by simp
    ultimately show ?thesis using m' True
      by (subst copy_big.simps) (auto simp: Let_def x1_def [symmetric] x2_def [symmetric] x3_def [symmetric] m1_def [symmetric] intro!: exI [of _ m'] exI [of _ l])
  qed (subst copy_big.simps, auto)
qed

lemma memcpy_prefix:
  assumes k: "s + k \<le> d"
  shows "prefix_copied m (fst (memcpy m d s n)) d s n k"
proof -
  have tail: "\<exists>m' a b. byte_copier m1 (d + j) (s + j) l = (m', a, b) \<and> prefix_copied m m' d s (j + l) k"
    if "prefix_copied m m1 d s j k" for m1 j l
    using byte_copier_prefix [of "s + j" "k - j" "d + j" m1 l] prefix_copied_trans [OF that _ k] k by fastforce
  show ?thesis
  proof (cases "\<not> n < 16 \<and> \<not> UNALIGNED2 s d")
    case False
    then show ?thesis using tail [OF prefix_copied_0, of n] by (auto simp: memcpy_def copy_fast_def)
  next
    case True
    obtain m1 l1 where 1: "copy_big m d s n = (m1, d + (n - l1), s + (n - l1), l1)" "l1 \<le> n" "prefix_copied m m1 d s (n - l1) k"
      using copy_big_prefix [OF k] by blast
    have "s + (n - l1) + (k - (n - l1)) \<le> d + (n - l1)" using k by simp
    from copy_little_prefix [OF this, of m1 l1] obtain m2 l2 where
      2: "copy_little m1 (d + (n - l1)) (s + (n - l1)) l1 = (m2, d + (n - l1) + (l1 - l2), s + (n - l1) + (l1 - l2), l2)"
      "l2 \<le> l1" "prefix_copied m1 m2 (d + (n - l1)) (s + (n - l1)) (l1 - l2) (k - (n - l1))" by blast
    have e: "n - l1 + (l1 - l2) = n - l2" "n - l2 + l2 = n" using 1(2) 2(2) by simp_all
    have "prefix_copied m m2 d s (n - l2) k" using prefix_copied_trans [OF 1(3) 2(3) k] e(1) by simp
    from tail [OF this, of l2] obtain m3 a c where
      "byte_copier m2 (d + (n - l2)) (s + (n - l2)) l2 = (m3, a, c)" "prefix_copied m m3 d s n k" using e(2) by auto
    then show ?thesis using True 1(1) 2(1) e(1)
      by (simp add: memcpy_def copy_fast_def add.assoc)
  qed
qed

text \<open>The two cases together: the destination is apart from the first \<open>k\<close> source bytes.\<close>

lemma memcpy_prefix_apart:
  assumes "s + k \<le> d \<or> d \<le> s"
  shows "prefix_copied m (fst (memcpy m d s n)) d s n k"
  using assms
proof
  assume "d \<le> s"
  then have "forward_ok d s n" by (simp add: forward_ok_def)
  then show ?thesis using copy_fast_region prefix_copied_region by (simp add: memcpy_def)
qed (rule memcpy_prefix)

section \<open>realloc\<close>

context sbrk_source begin

lemma nano_realloc_ok:
  assumes ok: "heap_ok lo (brk (kern h)) h fs A" and x: "(r, n, p) \<in> A" and sz: "0 < unat sz"
    and room: "heap_range lo (brk (kern h) + unat sz + 16)"
  shows "\<exists>h' q. nano_realloc sb h p sz = Some (h', q) \<and>
    (p + unat sz \<le> r + n \<and> q = p \<and> h' = h \<or>
     r + n < p + unat sz \<and> nano_malloc sb h sz = Some (h', 0) \<and> q = 0 \<and> RERRNO h' = ENOMEM \<and> hmem h' = hmem h \<and>
       heap_ok lo (brk (kern h')) h' fs A \<or>
     r + n < p + unat sz \<and> (\<exists>h1 fs1 r' n'. nano_malloc sb h sz = Some (h1, q) \<and> kern h' = kern h1 \<and>
        heap_ok lo (brk (kern h1)) h1 fs1 (insert (r', n', q) A) \<and>
        heap_ok lo (brk (kern h')) h' (ins_chunk r n fs1) (insert (r', n', q) (A - {(r, n, p)})) \<and>
        q \<noteq> 0 \<and> 8 dvd q \<and> r' < q \<and> q + unat sz \<le> r' + n' \<and> (\<forall>i < r + n - p. hmem h' (q + i) = hmem h (p + i)) \<and>
        (\<forall>y \<in> A - {(r, n, p)}. \<forall>a \<in> barea y. hmem h' a = hmem h a)))"
proof -
  have hp: "heap_range lo (brk (kern h))" "chunk_in lo (brk (kern h)) (r, n)" "block_at (hmem h) (r, n, p)"
    using ok x by (fastforce simp: heap_ok_def list_ok_def)+
  have pr: "r < p" "p + 4 \<le> r + n" using hp(3) by (auto simp: block_at_def)
  note bc = block_chunk [OF hp(3,1,2)]
  have s0: "sz \<noteq> 0" using sz by (metis less_irrefl unat_0)
  have us: "sz \<le> nano_malloc_usable_size (hmem h) p \<longleftrightarrow> p + unat sz \<le> r + n"
    using bc(3) pr by (auto simp: word_le_nat_alt)
  show ?thesis
  proof (cases "p + unat sz \<le> r + n")
    case True
    then show ?thesis using bc(2) s0 us by (simp add: nano_realloc_def)
  next
    case False
    obtain h1 q where m: "nano_malloc sb h sz = Some (h1, q)" "malloc_result lo (brk (kern h1)) h fs A (unat sz) h1 q"
      using nano_malloc_ok [OF ok room] by auto
    from m(2) show ?thesis
    proof (cases rule: malloc_result_cases)
      case failed
      then show ?thesis using False bc(2) s0 us m(1) by (simp add: nano_realloc_def)
    next
      case (block r' n' fs')
      define m2 where "m2 = fst (memcpy (hmem h1) q p (unat sz))"
      define h2 where "h2 = h1\<lparr>hmem := m2\<rparr>"
      have bx: "barea (r, n, p) = {r..<r + n}" by (simp add: barea_def)
      then have dj: "{r..<r + n} \<inter> {r'..<r' + n'} = {}" using block(2) x by blast
      have "p + (r + n - p) \<le> q \<or> q \<le> p"
      proof (rule ccontr)
        assume "\<not> (p + (r + n - p) \<le> q \<or> q \<le> p)"
        then have "q \<in> {r..<r + n}" "q \<in> {r'..<r' + n'}" using pr block(5,6) sz by auto
        then show False using dj by blast
      qed
      then have cp: "prefix_copied (hmem h1) m2 q p (unat sz) (r + n - p)" unfolding m2_def by (rule memcpy_prefix_apart)
      have ok2: "heap_ok lo (brk (kern h1)) h2 fs' (insert (r', n', q) A)" unfolding h2_def
        by (rule heap_ok_payload [OF block(1)]) (use cp block(6) in \<open>auto simp: prefix_copied_def\<close>)
      from nano_free_ok [OF ok2, of r n p] x obtain m3 fl3 where f:
        "nano_free h2 p = Some (h2\<lparr>hmem := m3, free_list := fl3\<rparr>)"
        "heap_ok lo (brk (kern h1)) (h2\<lparr>hmem := m3, free_list := fl3\<rparr>) (ins_chunk r n fs') (insert (r', n', q) A - {(r, n, p)})"
        "\<forall>y \<in> insert (r', n', q) A - {(r, n, p)}. \<forall>a \<in> barea y. m3 a = m2 a" by (auto simp: h2_def)
      have ne: "(r', n', q) \<noteq> (r, n, p)"
      proof
        assume "(r', n', q) = (r, n, p)"
        then have "r \<in> {r..<r + n} \<inter> {r'..<r' + n'}" using pr by simp
        then show False using dj by blast
      qed
      then have A': "insert (r', n', q) A - {(r, n, p)} = insert (r', n', q) (A - {(r, n, p)})" by blast
      define h3 where "h3 = h2\<lparr>hmem := m3, free_list := fl3\<rparr>"
      have run: "nano_realloc sb h p sz = Some (h3, q)"
        using False bc(2) s0 us m(1) block(3) f(1) by (simp add: nano_realloc_def m2_def [symmetric] h2_def [symmetric] h3_def)
      have "hmem h3 (q + i) = hmem h (p + i)" if i: "i < r + n - p" for i
      proof -
        have "q + i \<in> barea (r', n', q)" using i False block(5,6) by (simp add: barea_def)
        moreover have "(r', n', q) \<in> insert (r', n', q) A - {(r, n, p)}" using ne by blast
        ultimately have "m3 (q + i) = m2 (q + i)" using f(3) by blast
        moreover have "m2 (q + i) = hmem h1 (p + i)" using cp i False by (auto simp: prefix_copied_def)
        moreover have "p + i \<in> barea (r, n, p)" using i pr by (simp add: bx)
        then have "hmem h1 (p + i) = hmem h (p + i)" using block(8) x by blast
        ultimately show ?thesis by (simp add: h3_def)
      qed
      moreover have "hmem h3 a = hmem h a" if y: "y \<in> A - {(r, n, p)}" "a \<in> barea y" for y a
      proof -
        have "a \<notin> {r'..<r' + n'}" using block(2) y by blast
        then have "a < q \<or> q + unat sz \<le> a" using block(5,6) by auto
        then have "m2 a = hmem h1 a" using cp by (auto simp: prefix_copied_def)
        moreover have "m3 a = m2 a" using f(3) y by blast
        moreover have "hmem h1 a = hmem h a" using block(8) y by blast
        ultimately show ?thesis by (simp add: h3_def)
      qed
      moreover have "heap_ok lo (brk (kern h3)) h3 (ins_chunk r n fs') (insert (r', n', q) (A - {(r, n, p)}))"
        using f(2) unfolding A' by (simp add: h3_def h2_def)
      moreover have "kern h3 = kern h1" by (simp add: h3_def h2_def)
      ultimately have "\<exists>h1 fs1 r' n'. nano_malloc sb h sz = Some (h1, q) \<and> kern h3 = kern h1 \<and>
        heap_ok lo (brk (kern h1)) h1 fs1 (insert (r', n', q) A) \<and>
        heap_ok lo (brk (kern h3)) h3 (ins_chunk r n fs1) (insert (r', n', q) (A - {(r, n, p)})) \<and>
        q \<noteq> 0 \<and> 8 dvd q \<and> r' < q \<and> q + unat sz \<le> r' + n' \<and> (\<forall>i < r + n - p. hmem h3 (q + i) = hmem h (p + i)) \<and>
        (\<forall>y \<in> A - {(r, n, p)}. \<forall>a \<in> barea y. hmem h3 a = hmem h a)"
        using block(1,3-6) m(1) by (intro exI [of _ h1] exI [of _ fs'] exI [of _ r'] exI [of _ n']) simp
      moreover have "r + n < p + unat sz" using False by simp
      ultimately show ?thesis using run by blast
    qed
  qed
qed

end

end
