(* ===== verification/NanoMemalign.thy ===== *)
theory NanoMemalign
  imports NanoHeap
begin

text \<open>
  \<open>nano_memalign\<close> keeps the heap: a block is cut out of an oversized chunk, and the pieces before and
  behind it go back to the free list through \<open>nano_free\<close>.
\<close>

unbundle bit_operations_syntax

section \<open>Cutting a block\<close>

lemma heap_ok_subset: "heap_ok lo b h fs A \<Longrightarrow> B \<subseteq> A \<Longrightarrow> heap_ok lo b h fs B"
  unfolding heap_ok_def by blast

text \<open>One block in place of another, on the same chunk or a part of it.\<close>

lemma heap_ok_replace:
  assumes ok: "heap_ok lo b h fs (insert (r, n, p) A)" and dj: "\<forall>x \<in> A. barea x \<inter> {r..<r + n} = {}"
    and m': "\<forall>y. y \<notin> {r..<r + n} \<longrightarrow> m' y = hmem h y"
    and new: "chunk_in lo b (r2, n2)" "block_at m' (r2, n2, p2)" "{r2..<r2 + n2} \<subseteq> {r..<r + n}"
  shows "heap_ok lo b (h\<lparr>hmem := m'\<rparr>) fs (insert (r2, n2, p2) A)"
proof -
  have a: "heap_ok lo b h fs A" by (rule heap_ok_subset [OF ok]) blast
  have l: "free_seg (hmem h) (free_list h) fs 0" "list_ok lo b fs" using ok by (simp_all add: heap_ok_def)
  have ar: "regions fs \<inter> {r..<r + n} = {}" using ok unfolding heap_ok_def by (auto simp: barea_def)
  have seg: "free_seg m' (free_list h) fs 0" by (rule free_seg_keep [OF l ar m'])
  show ?thesis
  proof (rule heap_ok_insert [OF a le_refl _ l(2) subset_refl new(1)])
    show "\<forall>x \<in> A. \<forall>y \<in> barea x. hmem (h\<lparr>hmem := m'\<rparr>) y = hmem h y"
      using dj m' by (simp add: disjoint_iff)
    show "regions fs \<inter> {r2..<r2 + n2} = {}" using ar new(3) by blast
    show "\<forall>x \<in> A. barea x \<inter> {r2..<r2 + n2} = {}" using dj new(3) by blast
  qed (use seg new(2) in simp_all)
qed

text \<open>Two blocks in place of one.\<close>

lemma heap_ok_split:
  assumes ok: "heap_ok lo b h fs (insert (r, n, p) A)" and dj: "\<forall>x \<in> A. barea x \<inter> {r..<r + n} = {}"
    and m': "\<forall>y. y \<notin> {r..<r + n} \<longrightarrow> m' y = hmem h y"
    and k: "4 dvd k" "8 \<le> k" "k + 8 \<le> n"
    and new: "block_at m' (r, k, p1)" "block_at m' (r + k, n - k, p2)"
  shows "heap_ok lo b (h\<lparr>hmem := m'\<rparr>) fs (insert (r, k, p1) (insert (r + k, n - k, p2) A))"
proof -
  have c: "chunk_in lo b (r, n)" using ok by (auto simp: heap_ok_def)
  then have cs: "chunk_in lo b (r, k)" "chunk_in lo b (r + k, n - k)" using k by (auto simp: chunk_in_def)
  have one: "heap_ok lo b (h\<lparr>hmem := m'\<rparr>) fs (insert (r + k, n - k, p2) A)"
    by (rule heap_ok_replace [OF ok dj m' cs(2) new(2)]) (use k in auto)
  have l: "free_seg m' (free_list h) fs 0" "list_ok lo b fs" using one by (simp_all add: heap_ok_def)
  have ar: "regions fs \<inter> {r..<r + n} = {}" using ok unfolding heap_ok_def by (auto simp: barea_def)
  have sub: "{r..<r + k} \<subseteq> {r..<r + n}" "{r..<r + k} \<inter> {r + k..<r + k + (n - k)} = {}" using k by auto
  show ?thesis
  proof (rule heap_ok_insert [OF one le_refl _ l(2) subset_refl cs(1)])
    show "regions fs \<inter> {r..<r + k} = {}" using ar sub(1) by blast
    show "\<forall>x \<in> insert (r + k, n - k, p2) A. barea x \<inter> {r..<r + k} = {}"
    proof
      fix x assume "x \<in> insert (r + k, n - k, p2) A"
      then consider "x = (r + k, n - k, p2)" | "x \<in> A" by blast
      then show "barea x \<inter> {r..<r + k} = {}"
      proof cases
        case 1
        then have "barea x = {r + k..<r + k + (n - k)}" by (simp add: barea_def)
        then show ?thesis using sub(2) by blast
      qed (use dj sub(1) in blast)
    qed
  qed (use l new(1) in simp_all)
qed

section \<open>The two cuts of memalign\<close>

text \<open>What both cuts keep: the other blocks, and the bytes \<open>R\<close> of the free list and the block together.\<close>

definition cut_ok :: "nat set \<Rightarrow> nat \<Rightarrow> nat \<Rightarrow> 'k heap \<Rightarrow> block set \<Rightarrow> nat \<Rightarrow> nat \<Rightarrow> nat \<Rightarrow> 'k heap \<Rightarrow> bool" where
  "cut_ok R lo b h A r n p h' \<longleftrightarrow> kern h' = kern h \<and>
     (\<exists>fs'. heap_ok lo b h' fs' (insert (r, n, p) A) \<and> regions fs' \<union> {r..<r + n} = R) \<and>
     (\<forall>x \<in> A. barea x \<inter> {r..<r + n} = {}) \<and> (\<forall>x \<in> A. \<forall>y \<in> barea x. hmem h' y = hmem h y)"

lemma regions_ins: "heap_ok lo b h fs (insert (r, n, p) A) \<Longrightarrow> regions (ins_chunk r n fs) = regions fs \<union> region (r, n)"
  using ins_chunk_facts [of fs lo b r n] by (force simp: heap_ok_def list_ok_def barea_region)

lemma memalign_front_ok:
  assumes ok: "heap_ok lo b h fs (insert (r, n, p) A)" and dj: "\<forall>x \<in> A. barea x \<inter> {r..<r + n} = {}"
    and al: "4 dvd al" "r + 4 \<le> al" "al + 4 \<le> r + n"
  shows "\<exists>h2 c n2. memalign_front h r (of_nat (al - (r + 4))) = Some (h2, c) \<and> c < al \<and> al < c + 16 \<and> c + n2 = r + n \<and> r \<le> c \<and>
    cut_ok (regions fs \<union> {r..<r + n}) lo b h A c n2 al h2"
proof -
  define off where "off = al - (r + 4)"
  have c: "chunk_in lo b (r, n)" "block_at (hmem h) (r, n, p)" and rg: "heap_range lo b"
    using ok by (auto simp: heap_ok_def list_ok_def)
  note bd = chunk_in_bounds [OF rg c(1)]
  have r4: "4 dvd r" "4 dvd n" using c(1) by (simp_all add: chunk_in_def)
  have o: "al = r + 4 + off" "off + 8 \<le> n" "4 dvd off" using al r4 unfolding off_def by (simp, simp, presburger)
  have uo: "unat (of_nat off :: u32) = off" using o(2) bd(4) by (intro unat_small) simp
  have ld: "load32 (hmem h) r = of_nat n" using c(2) by (simp add: block_at_def)
  have mc: "MALLOC_MINCHUNK \<le> of_nat off \<longleftrightarrow> 12 \<le> off" using uo by (simp add: malloc_values word_le_nat_alt)
  show ?thesis
  proof (cases "off = 0")
    case True
    have "heap_ok lo b (h\<lparr>hmem := hmem h\<rparr>) fs (insert (r, n, al) A)"
      by (rule heap_ok_replace [OF ok dj _ c(1)]) (use c(2) al o(1) True in \<open>simp_all add: block_at_def\<close>)
    moreover have "memalign_front h r (of_nat off) = Some (h, r)" using True by (simp add: memalign_front_def)
    ultimately show ?thesis using o(1) dj True unfolding off_def [symmetric] by (auto simp: cut_ok_def)
  next
    case ne: False
    then have o0: "(of_nat off :: u32) \<noteq> 0" using uo by (metis unat_0)
    show ?thesis
    proof (cases "12 \<le> off")
      case True
      define m' where "m' = store32 (store32 (hmem h) (r + off) (of_nat n - of_nat off)) r (of_nat off)"
      have ch: "\<forall>y. y \<notin> {r..<r + n} \<longrightarrow> m' y = hmem h y" using o(2) by (auto simp: m'_def store32_outside)
      have b1: "block_at m' (r, off, r + 4)" using True o r4 by (simp add: block_at_def m'_def)
      have b2: "block_at m' (r + off, n - off, al)" using True o al by (simp add: block_at_def m'_def load32_other of_nat_diff)
      have "8 \<le> off" using True by simp
      note sp = heap_ok_split [OF ok dj ch o(3) this o(2) b1 b2]
      have nin: "(r, off, r + 4) \<notin> insert (r + off, n - off, al) A"
      proof
        assume "(r, off, r + 4) \<in> insert (r + off, n - off, al) A"
        then have "(r, off, r + 4) \<in> A" using True by simp
        then have "{r..<r + off} \<inter> {r..<r + n} = {}" using dj unfolding barea_def by fastforce
        then show False using True o(2) by simp
      qed
      from nano_free_ok [OF sp, of r off "r + 4"] nin obtain m3 fl3 where
        f: "nano_free (h\<lparr>hmem := m'\<rparr>) (r + 4) = Some (h\<lparr>hmem := m3, free_list := fl3\<rparr>)"
        "heap_ok lo b (h\<lparr>hmem := m3, free_list := fl3\<rparr>) (ins_chunk r off fs) (insert (r + off, n - off, al) A)"
        "\<forall>y \<in> insert (r + off, n - off, al) A. \<forall>a \<in> barea y. m3 a = m' a" by auto
      have rg1: "regions (ins_chunk r off fs) \<union> {r + off..<r + off + (n - off)} = regions fs \<union> {r..<r + n}"
        using regions_ins [OF sp] o(2) by (auto simp: region_def)
      have "memalign_front h r (of_nat off) = Some (h\<lparr>hmem := m3, free_list := fl3\<rparr>, r + off)"
        using o0 mc True uo ld f(1) by (simp add: memalign_front_def malloc_values m'_def Let_def)
      moreover have "\<forall>x \<in> A. \<forall>y \<in> barea x. m3 y = hmem h y" using f(3) ch dj by (metis IntI empty_iff insert_iff)
      moreover have "{r + off..<r + off + (n - off)} \<subseteq> {r..<r + n}" using o(2) by auto
      then have "\<forall>x \<in> A. barea x \<inter> {r + off..<r + off + (n - off)} = {}" using dj by blast
      ultimately show ?thesis unfolding off_def [symmetric] cut_ok_def
        using f(2) o rg1 by (intro exI [of _ "h\<lparr>hmem := m3, free_list := fl3\<rparr>"] exI [of _ "r + off"] exI [of _ "n - off"]) auto
    next
      case False
      define m' where "m' = store32 (hmem h) (r + off) (- of_nat off)"
      have ch: "\<forall>y. y \<notin> {r..<r + n} \<longrightarrow> m' y = hmem h y" using o(2) by (auto simp: m'_def store32_outside)
      have o4: "4 \<le> off" using ne o(3) by (auto elim!: dvdE)
      have "al - 4 = r + off" "al - (r + 4) = off" using o(1) by simp_all
      then have "block_at m' (r, n, al)" using o4 o al ld by (simp add: block_at_def m'_def load32_other)
      then have "heap_ok lo b (h\<lparr>hmem := m'\<rparr>) fs (insert (r, n, al) A)"
        by (rule heap_ok_replace [OF ok dj ch c(1) _ subset_refl])
      moreover have "memalign_front h r (of_nat off) = Some (h\<lparr>hmem := m'\<rparr>, r)"
        using o0 mc False uo by (simp add: memalign_front_def m'_def)
      moreover have "\<forall>x \<in> A. \<forall>y \<in> barea x. m' y = hmem h y" using ch dj by (metis IntI empty_iff)
      ultimately show ?thesis unfolding off_def [symmetric] cut_ok_def using dj o(1) False
        by (intro exI [of _ "h\<lparr>hmem := m'\<rparr>"] exI [of _ r] exI [of _ n]) auto
    qed
  qed
qed

lemma memalign_tail_ok:
  assumes ok: "heap_ok lo b h fs (insert (c, n, al) A)" and dj: "\<forall>x \<in> A. barea x \<inter> {c..<c + n} = {}"
    and ma: "4 dvd ma" "4 \<le> ma" "al + ma \<le> c + n" "unat w = ma"
  shows "\<exists>h3 n3. memalign_tail h c al w = Some h3 \<and> al + ma \<le> c + n3 \<and> c + n3 \<le> al + ma + 12 \<and> n3 \<le> n \<and>
    cut_ok (regions fs \<union> {c..<c + n}) lo b h A c n3 al h3"
proof -
  have cn: "chunk_in lo b (c, n)" "block_at (hmem h) (c, n, al)" and rg: "heap_range lo b"
    using ok by (auto simp: heap_ok_def list_ok_def)
  note bd = chunk_in_bounds [OF rg cn(1)]
  have c4: "4 dvd c" "4 dvd n" using cn(1) by (simp_all add: chunk_in_def)
  have al: "4 dvd al" "load32 (hmem h) c = of_nat n" "al = c + 4 \<or> c + 8 \<le> al \<and> load32 (hmem h) (al - 4) = - of_nat (al - (c + 4))"
    using cn(2) by (simp_all add: block_at_def)
  then have ca: "c + 4 \<le> al" by auto
  have un: "unat (load32 (hmem h) c) = n" using al(2) bd(4) by (simp add: unat_of_nat)
  show ?thesis
  proof (cases "c + n > al + ma + 12")
    case False
    then have "memalign_tail h c al w = Some h" using un ma(4) by (simp add: memalign_tail_def malloc_values)
    then show ?thesis using ok dj ma(3) False unfolding cut_ok_def by (intro exI [of _ h] exI [of _ n]) auto
  next
    case True
    define k where "k = al + ma - c"
    define m' where "m' = store32 (store32 (hmem h) c (of_nat k)) (al + ma) (of_nat n - of_nat k)"
    have k: "al + ma = c + k" "8 \<le> k" "k + 12 < n" "4 dvd k"
      using ca ma(1,2) True al(1) c4(1) unfolding k_def by (simp, simp, simp, presburger)
    have ch: "\<forall>y. y \<notin> {c..<c + n} \<longrightarrow> m' y = hmem h y" using k by (auto simp: m'_def store32_outside)
    have lm: "load32 m' c = of_nat k" "load32 m' (c + k) = of_nat (n - k)"
      using k by (simp_all add: m'_def load32_other of_nat_diff)
    have "load32 m' (al - 4) = load32 (hmem h) (al - 4)" if "c + 8 \<le> al"
      using that k ma(2) by (simp add: m'_def load32_other)
    then have b1: "block_at m' (c, k, al)" using al k ma(2) lm(1) by (auto simp: block_at_def)
    have b2: "block_at m' (c + k, n - k, c + k + 4)" using k c4 lm(2) by (simp add: block_at_def)
    have "k + 8 \<le> n" using k(3) by simp
    note sp = heap_ok_split [OF ok dj ch k(4,2) this b1 b2]
    have nin: "(c + k, n - k, c + k + 4) \<notin> insert (c, k, al) A"
    proof
      assume "(c + k, n - k, c + k + 4) \<in> insert (c, k, al) A"
      then have "(c + k, n - k, c + k + 4) \<in> A" using k(2) by simp
      then have "{c + k..<c + k + (n - k)} \<inter> {c..<c + n} = {}" using dj unfolding barea_def by fastforce
      moreover have "c + k \<in> {c + k..<c + k + (n - k)} \<inter> {c..<c + n}" using k by simp
      ultimately show False by blast
    qed
    have A': "insert (c, k, al) (insert (c + k, n - k, c + k + 4) A) - {(c + k, n - k, c + k + 4)} = insert (c, k, al) A"
      using nin by blast
    obtain m3 fl3 where
      f: "nano_free (h\<lparr>hmem := m'\<rparr>) (c + k + 4) = Some (h\<lparr>hmem := m3, free_list := fl3\<rparr>)"
      "heap_ok lo b (h\<lparr>hmem := m3, free_list := fl3\<rparr>) (ins_chunk (c + k) (n - k) fs) (insert (c, k, al) A)"
      "\<forall>y \<in> insert (c, k, al) A. \<forall>a \<in> barea y. m3 a = m' a"
      using nano_free_ok [OF sp, of "c + k" "n - k" "c + k + 4"] unfolding A' by auto
    have "c + unat (load32 (hmem h) c) > al + unat w + unat MALLOC_MINCHUNK" using True un ma(4) by (simp add: malloc_values)
    then have "memalign_tail h c al w = Some (h\<lparr>hmem := m3, free_list := fl3\<rparr>)"
      using f(1) al(2) k(1) ma(4) by (simp add: memalign_tail_def malloc_values m'_def Let_def)
    moreover have "\<forall>x \<in> A. \<forall>y \<in> barea x. m3 y = hmem h y" using f(3) ch dj by (metis IntI empty_iff insert_iff)
    moreover have "regions (ins_chunk (c + k) (n - k) fs) \<union> {c..<c + k} = regions fs \<union> {c..<c + n}"
      using regions_ins [OF heap_ok_subset [OF sp], of "c + k" "n - k" "c + k + 4" "{(c + k, n - k, c + k + 4)}"] k(3) by (auto simp: region_def)
    moreover have "{c..<c + k} \<subseteq> {c..<c + n}" using k(3) by auto
    then have "\<forall>x \<in> A. barea x \<inter> {c..<c + k} = {}" using dj by blast
    ultimately show ?thesis unfolding cut_ok_def using f(2) k(1,3)
      by (intro exI [of _ "h\<lparr>hmem := m3, free_list := fl3\<rparr>"] exI [of _ k]) auto
  qed
qed

lemma cut_ok_trans:
  assumes "cut_ok R lo b h A c n2 al h2" and "cut_ok R lo b h2 A c n3 al h3"
  shows "cut_ok R lo b h A c n3 al h3"
  using assms by (simp add: cut_ok_def)

section \<open>memalign\<close>

text \<open>The size that \<open>memalign\<close> asks \<open>malloc\<close> for.\<close>

definition memalign_padded :: "nat \<Rightarrow> u32 \<Rightarrow> u32" where
  "memalign_padded k s = ALIGN_TO (max s MALLOC_MINSIZE) CHUNK_ALIGN + max (2 ^ k) MALLOC_ALIGN - MALLOC_ALIGN"

lemma power_of_two_test: "(2 :: u32) ^ k AND (2 ^ k - 1) = 0"
proof -
  have "(2 :: u32) ^ k AND mask k = 0" by (rule bit_word_eqI) (auto simp: bit_and_iff bit_mask_iff bit_exp_iff)
  then show ?thesis by (simp add: mask_eq_exp_minus_1)
qed

context sbrk_source begin

lemma nano_memalign_ok:
  assumes ok: "heap_ok lo (brk (kern h)) h fs A" and room: "heap_range lo (brk (kern h) + unat s + 2 ^ k + 32)"
  shows "\<exists>h' ptr. nano_memalign sb h (2 ^ k) s = Some (h', ptr) \<and>
    (ptr = 0 \<and> nano_malloc sb h (memalign_padded k s) = Some (h', 0) \<and> RERRNO h' = ENOMEM \<and> hmem h' = hmem h \<and>
       heap_ok lo (brk (kern h')) h' fs A \<or>
     (\<exists>h1 p1 r1 n1 fs1 r n fs'. nano_malloc sb h (memalign_padded k s) = Some (h1, p1) \<and> kern h' = kern h1 \<and>
        heap_ok lo (brk (kern h1)) h1 fs1 (insert (r1, n1, p1) A) \<and> heap_ok lo (brk (kern h')) h' fs' (insert (r, n, ptr) A) \<and>
        regions fs' \<union> {r..<r + n} = regions fs1 \<union> {r1..<r1 + n1} \<and> ptr < r + 16 \<and> r + n \<le> ptr + unat s + 19 \<and>
        (\<forall>x \<in> A. barea x \<inter> {r..<r + n} = {}) \<and> ptr \<noteq> 0 \<and> 2 ^ max k 3 dvd ptr \<and> r < ptr \<and> ptr + unat s \<le> r + n \<and>
        (\<forall>x \<in> A. \<forall>y \<in> barea x. hmem h' y = hmem h y)))"
proof -
  define K where "K = max k 3"
  define ma where "ma = (max (unat s) 4 + 3) div 4 * 4"
  define z where "z = ma + (2 ^ K - 8)"
  have rm: "brk (kern h) + unat s + 2 ^ k + 32 < 2 ^ 32 - 16" "brk (kern h) + unat s + 2 ^ k + 32 < lo + 2 ^ 31"
    "lo \<le> brk (kern h)" "0 < lo"
    using room ok by (auto simp: heap_range_def heap_ok_def list_ok_def)
  have s31: "unat s + 2 ^ k + 32 < 2 ^ 31" using rm by simp
  have k31: "k < 31"
  proof (rule ccontr)
    assume "\<not> k < 31"
    then have "(2 :: nat) ^ 31 \<le> 2 ^ k" by (intro power_increasing) simp_all
    then show False using s31 by simp
  qed
  have K: "K < 32" "(8 :: nat) \<le> 2 ^ K" "(2 :: nat) ^ K \<le> 2 ^ k + 7" "(2 :: nat) ^ 3 dvd 2 ^ K"
  proof -
    show "K < 32" using k31 by (simp add: K_def)
    show "(2 :: nat) ^ 3 dvd 2 ^ K" by (rule le_imp_power_dvd) (simp add: K_def)
    have "(2 :: nat) ^ 3 \<le> 2 ^ K" by (intro power_increasing) (simp_all add: K_def)
    then show "(8 :: nat) \<le> 2 ^ K" by simp
    show "(2 :: nat) ^ K \<le> 2 ^ k + 7"
    proof (cases "k \<le> 3")
      case True
      then have "(2 :: nat) ^ K = 8" by (simp add: K_def max_def)
      moreover have "(1 :: nat) \<le> 2 ^ k" by simp
      ultimately show ?thesis by linarith
    qed (simp add: K_def max_def)
  qed
  have u2: "unat ((2 :: u32) ^ j) = 2 ^ j" if "j < 32" for j
    using that unat_small [of "2 ^ j"] power_strict_increasing [of j 32 "2 :: nat"] by simp
  have al0: "max (2 ^ k) MALLOC_ALIGN = (2 :: u32) ^ K"
  proof -
    have "(2 :: u32) ^ k \<le> 8 \<longleftrightarrow> (2 :: nat) ^ k \<le> 2 ^ 3" using u2 [of k] k31 by (simp add: word_le_nat_alt)
    also have "\<dots> \<longleftrightarrow> k \<le> 3" by (rule power_increasing_iff) simp
    finally show ?thesis by (auto simp: K_def max_def malloc_consts)
  qed
  have ma: "4 dvd ma" "4 \<le> ma" "unat s \<le> ma" "ma \<le> unat s + 7"
  proof -
    have "max (unat s) 4 \<le> ma" "ma \<le> max (unat s) 4 + 3" unfolding ma_def by presburger+
    then show "4 \<le> ma" "unat s \<le> ma" "ma \<le> unat s + 7" by auto
    show "4 dvd ma" by (simp add: ma_def)
  qed
  have um: "unat (max s MALLOC_MINSIZE) = max (unat s) 4" by (simp add: max_def word_le_nat_alt malloc_consts)
  have maw: "ALIGN_TO (max s MALLOC_MINSIZE) CHUNK_ALIGN = of_nat ma"
    using ALIGN_TO_nat [of "max s MALLOC_MINSIZE" 2] s31 unfolding um ma_def by (simp add: malloc_values add.commute)
  have umw: "unat (of_nat ma :: u32) = ma" using ma(4) s31 by (intro unat_small) simp
  have zw: "of_nat ma + 2 ^ K - MALLOC_ALIGN = (of_nat z :: u32)" using K(2) by (simp add: z_def malloc_consts of_nat_diff)
  have zs: "z \<le> unat s + 2 ^ k + 6" using ma(4) K(2,3) unfolding z_def by linarith
  have uz: "unat (of_nat z :: u32) = z" using zs s31 by (intro unat_small) simp
  have zr: "heap_range lo (brk (kern h) + unat (of_nat z :: u32) + 16)" using rm zs unfolding uz by (simp add: heap_range_def)
  have pad: "memalign_padded k s = of_nat z" unfolding memalign_padded_def al0 maw zw ..
  from nano_malloc_ok [OF ok zr] obtain h1 p where m: "nano_malloc sb h (of_nat z) = Some (h1, p)"
    "malloc_result lo (brk (kern h1)) h fs A z h1 p" unfolding uz by blast
  have run: "nano_memalign sb h (2 ^ k) s =
    (if p = 0 then Some (h1, 0) else
       (let chunk_p = get_chunk_from_ptr (hmem h1) p;
            aligned_p = unat (ALIGN_TO (of_nat (chunk_p + unat CHUNK_OFFSET)) (2 ^ K));
            offset = of_nat aligned_p - of_nat (chunk_p + unat CHUNK_OFFSET)
        in case memalign_front h1 chunk_p offset of None \<Rightarrow> None
           | Some (h2, c) \<Rightarrow> (case memalign_tail h2 c aligned_p (of_nat ma) of None \<Rightarrow> None | Some h3 \<Rightarrow> Some (h3, aligned_p))))"
    unfolding nano_memalign_def power_of_two_test al0 maw Let_def [of "2 ^ K"] Let_def [of "of_nat ma"] zw Let_def [of "of_nat z"] m(1) by simp
  from m(2) show ?thesis
  proof (cases rule: malloc_result_cases)
    case failed
    then show ?thesis using run m(1) pad by simp
  next
    case (block r n fs')
    have c: "chunk_in lo (brk (kern h1)) (r, n)" "block_at (hmem h1) (r, n, p)" and rg: "heap_range lo (brk (kern h1))"
      using block(1) by (auto simp: heap_ok_def list_ok_def)
    note bd = chunk_in_bounds [OF rg c(1)]
    have r4: "4 dvd r" using c(1) by (simp add: chunk_in_def)
    have ch: "get_chunk_from_ptr (hmem h1) p = r" by (rule block_chunk(1) [OF c(2) rg c(1)])
    define al where "al = (r + 4 + 2 ^ K - 1) div 2 ^ K * 2 ^ K"
    have zn: "ma + 2 ^ K \<le> n" using block(7) K(2) unfolding z_def by simp
    have K4: "(4 :: nat) dvd 2 ^ K" by (rule dvd_trans [OF _ K(4)]) simp
    have al: "2 ^ K dvd al" "r + 4 \<le> al" "al \<le> r + 2 ^ K"
    proof -
      show d: "2 ^ K dvd al" by (simp add: al_def)
      have q: "(r + 4 + 2 ^ K - 1) mod 2 ^ K < 2 ^ K" "al = r + 4 + 2 ^ K - 1 - (r + 4 + 2 ^ K - 1) mod 2 ^ K"
        unfolding al_def by (simp_all add: minus_mod_eq_div_mult)
      then show "r + 4 \<le> al" by linarith
      have "4 dvd al" "4 dvd r + 2 ^ K" using d r4 K4 by (auto intro: dvd_trans)
      then obtain i j where ij: "al = 4 * i" "r + 2 ^ K = 4 * j" by (elim dvdE)
      have "al < (r + 2 ^ K) + 4" using q(2) K(2) by linarith
      then have "4 * i < 4 * j + 4" by (simp only: ij)
      then have "4 * i \<le> 4 * j" by simp
      then show "al \<le> r + 2 ^ K" by (simp only: ij)
    qed
    have a4: "4 dvd al" by (rule dvd_trans [OF K4 al(1)])
    have ur: "unat (of_nat (r + 4) :: u32) = r + 4" using bd(3,5) by (intro unat_small) simp
    have alw: "ALIGN_TO (of_nat (r + 4)) (2 ^ K) = of_nat al"
      using ALIGN_TO_nat [of "of_nat (r + 4)" K] zn bd(5) ma(2) unfolding ur al_def by simp
    have ual: "unat (of_nat al :: u32) = al" using al(3) zn bd(5) by (intro unat_small) simp
    have off: "of_nat al - of_nat (r + 4) = (of_nat (al - (r + 4)) :: u32)" using al(2) by (simp add: of_nat_diff)
    have "al + 4 \<le> r + n" using al(3) zn ma(2) by simp
    from memalign_front_ok [OF block(1,2) a4 al(2) this] obtain h2 c2 n2 where
      f: "memalign_front h1 r (of_nat (al - (r + 4))) = Some (h2, c2)" "c2 < al" "c2 + n2 = r + n" "r \<le> c2"
        "cut_ok (regions fs' \<union> {r..<r + n}) lo (brk (kern h1)) h1 A c2 n2 al h2" "al < c2 + 16" by blast
    obtain fs2 where f2: "heap_ok lo (brk (kern h1)) h2 fs2 (insert (c2, n2, al) A)" "\<forall>x \<in> A. barea x \<inter> {c2..<c2 + n2} = {}"
      "regions fs2 \<union> {c2..<c2 + n2} = regions fs' \<union> {r..<r + n}"
      using f(5) by (auto simp: cut_ok_def)
    have "al + ma \<le> c2 + n2" using al(3) zn f(3) by simp
    from memalign_tail_ok [OF f2(1,2) ma(1,2) this umw] obtain h3 n3 where
      t: "memalign_tail h2 c2 al (of_nat ma) = Some h3" "al + ma \<le> c2 + n3" "c2 + n3 \<le> al + ma + 12"
        "cut_ok (regions fs' \<union> {r..<r + n}) lo (brk (kern h1)) h2 A c2 n3 al h3" unfolding f2(3) by blast
    have g: "cut_ok (regions fs' \<union> {r..<r + n}) lo (brk (kern h1)) h1 A c2 n3 al h3" by (rule cut_ok_trans [OF f(5) t(4)])
    then obtain fs3 where g': "heap_ok lo (brk (kern h1)) h3 fs3 (insert (c2, n3, al) A)" "kern h3 = kern h1"
      "\<forall>x \<in> A. barea x \<inter> {c2..<c2 + n3} = {}" "\<forall>x \<in> A. \<forall>y \<in> barea x. hmem h3 y = hmem h1 y"
      "regions fs3 \<union> {c2..<c2 + n3} = regions fs' \<union> {r..<r + n}" by (auto simp: cut_ok_def)
    have "nano_memalign sb h (2 ^ k) s = Some (h3, al)"
      using run block(3) ch alw ual off f(1) t(1) by (simp add: malloc_values)
    moreover have "\<forall>x \<in> A. \<forall>y \<in> barea x. hmem h3 y = hmem h y" using g'(4) block(8) by simp
    moreover have "c2 + n3 \<le> al + unat s + 19" using t(3) ma(4) by simp
    moreover have "nano_malloc sb h (memalign_padded k s) = Some (h1, p)" unfolding pad by (rule m(1))
    ultimately show ?thesis using g' block(1) f(2,6) al(1,2) t(2) ma(3) unfolding K_def [symmetric]
      by - (rule exI [of _ h3], rule exI [of _ al], rule conjI, assumption, rule disjI2, rule exI [of _ h1], rule exI [of _ p],
          rule exI [of _ r], rule exI [of _ n], rule exI [of _ fs'], rule exI [of _ c2], rule exI [of _ n3], rule exI [of _ fs3],
          intro conjI; simp)
  qed
qed

end

end
