(* ===== verification/NanoClient.thy ===== *)
theory NanoClient
  imports NanoMemalign
begin

text \<open>
  What a program that uses the allocator of \<open>stdlib/nano-mallocr.c\<close> relies on, over every memory
  source that satisfies the contract \<open>sbrk_source\<close>, with the \<open>_sbrk\<close> of \<open>test/interface.c\<close> as the
  concrete one of the witnesses.
\<close>

section \<open>Requests that are refused\<close>

lemma malloc_alloc_size_big:
  assumes "2 ^ 31 - 11 \<le> unat s"
  shows "MAX_ALLOC_SIZE \<le> malloc_alloc_size s \<or> malloc_alloc_size s < s"
proof -
  have su: "unat s < 2 ^ 32" using unsigned_less [of s] by simp
  have um: "unat (max x y) = max (unat x) (unat y)" for x y :: u32 by (simp add: max_def word_le_nat_alt)
  show ?thesis
  proof (cases "unat s < 2 ^ 32 - 16")
    case True
    have "(2 ^ 31 - 8) div 4 \<le> (unat s + 3) div 4" by (rule div_le_mono) (use assms in simp)
    then have "2 ^ 31 \<le> (unat s + 3) div 4 * 4 + (8 :: nat)" by simp
    then have "2 ^ 31 \<le> unat (malloc_alloc_size s)" using malloc_alloc_size_nat [OF True] by simp
    then show ?thesis by (simp add: word_le_nat_alt malloc_consts)
  next
    case False
    define w where "w = ALIGN_TO s CHUNK_ALIGN + MALLOC_PADDING + CHUNK_OFFSET"
    have ac: "unat (malloc_alloc_size s) = max (unat w) 12"
      by (simp add: malloc_alloc_size_def um w_def malloc_values)
    show ?thesis
    proof (cases "unat s + 3 < 2 ^ 32")
      case True
      define n where "n = (unat s + 3) div 4 * 4"
      have n: "unat s \<le> n" "n \<le> unat s + 3" unfolding n_def by presburger+
      have "w = of_nat (n + 8)" using ALIGN_TO_nat [of s 2] True
        unfolding w_def n_def by (simp add: malloc_values add.commute)
      moreover have "unat (of_nat (n + 8) :: u32) = (n + 8) mod 2 ^ 32" by (simp only: unat_of_nat) simp
      ultimately have uw: "unat w = (n + 8) mod 2 ^ 32" by simp
      show ?thesis
      proof (cases "n + 8 < 2 ^ 32")
        case True
        then have "2 ^ 31 \<le> unat (malloc_alloc_size s)" using ac uw n assms False by simp
        then show ?thesis by (simp add: word_le_nat_alt malloc_consts)
      next
        case nf: False
        have "(n + 8) mod 2 ^ 32 = n + 8 - 2 ^ 32" using nf n True by (simp add: mod_if)
        then have "unat (malloc_alloc_size s) < unat s" using ac uw n True False by simp
        then show ?thesis by (simp add: word_less_nat_alt)
      qed
    next
      case nf: False
      have "unat s = unat (s + 3 - 3)" by simp
      have "unat (s + 3) = unat s + 3 - 2 ^ 32" using nf su by (simp add: unat_word_ariths mod_if)
      then have "unat (s + 3) div 4 * 4 = 0" using su by simp
      then have "ALIGN_TO s CHUNK_ALIGN = 0"
        using and_not_low [of "s + 3" 2] by (simp add: ALIGN_TO_def malloc_values add.commute add_diff_eq [symmetric])
      then have "unat (malloc_alloc_size s) = 12" using ac by (simp add: w_def malloc_values)
      then show ?thesis using False by (simp add: word_less_nat_alt)
    qed
  qed
qed

section \<open>mallinfo\<close>

lemma free_total_seg:
  "free_seg m p fs 0 \<Longrightarrow> list_ok lo b fs \<Longrightarrow> free_total m p acc = Some (acc + of_nat (total fs))"
proof (induction fs arbitrary: p acc)
  case (Cons c fs)
  obtain a n where c: "c = (a, n)" by (metis prod.exhaust)
  have "a \<noteq> 0" using Cons.prems c by (auto simp: list_ok_def heap_range_def chunk_in_def)
  then show ?case using Cons c by (subst free_total.simps) (simp add: list_ok_Cons add.assoc)
qed (simp add: free_total.simps)

section \<open>Taking from the free list\<close>

text \<open>What is taken by first fit and given back restores the list.\<close>

lemma ins_chunk_take_fit:
  assumes "take_fit n fs = Some ((x, j), fs')" and "list_ok lo b fs" and "12 \<le> n" "4 dvd n"
  shows "ins_chunk x j fs' = fs"
  using assms
proof (induction fs arbitrary: fs')
  case (Cons c fs)
  obtain a k where c: "c = (a, k)" by (metis prod.exhaust)
  have ok: "chunk_in lo b (a, k)" "\<forall>y \<in> set fs. a + k < fst y" "list_ok lo b fs" "spaced fs"
    using Cons.prems(2) c by (simp_all add: list_ok_Cons) (simp add: list_ok_def)
  show ?case
  proof (cases "n \<le> k")
    case True
    show ?thesis
    proof (cases "12 \<le> k - n")
      case True
      then have e: "x = a + (k - n)" "j = n" "fs' = (a, k - n) # fs" using Cons.prems(1) \<open>n \<le> k\<close> c by auto
      show ?thesis using ok(2) \<open>n \<le> k\<close> by (cases fs) (auto simp: e c)
    next
      case False
      then have e: "x = a" "j = k" "fs' = fs" using Cons.prems(1) True c by auto
      show ?thesis using ok(2) by (cases fs) (auto simp: e c)
    qed
  next
    case False
    then obtain g where g: "take_fit n fs = Some ((x, j), g)" "fs' = (a, k) # g"
      using Cons.prems(1) c by (auto split: option.splits)
    have "a + k < x"
    proof -
      have "regions fs = regions g \<union> region (x, j)" "chunk_in lo b (x, j)"
        using take_fit_Some [of n fs x j g lo b] g(1) ok(3,4) Cons.prems(3,4)
        by (auto simp: list_ok_def)
      then have "x \<in> regions fs" by (auto simp: chunk_in_def)
      then show ?thesis using below_regions [OF ok(2)] by simp
    qed
    then show ?thesis using Cons.IH [OF g(1) ok(3) Cons.prems(3,4)] g(2) c by simp
  qed
qed simp

section \<open>The properties\<close>

text \<open>
  The witnesses run the allocator on an empty heap above \<open>0x1000\<close> and on one with a free chunk and
  two blocks.
\<close>

definition demo_empty :: "nat heap" where
  "demo_empty = \<lparr>hmem = \<lambda>_. 0, free_list = 0, sbrk_start = 0, RERRNO = 0, kern = 0\<rparr>"

definition demo_heap :: "nat heap" where
  "demo_heap = \<lparr>hmem = store32 (store32 (store32 (\<lambda>_. 0) 0x1004 16) 0x1014 24) 0x102C 16,
     free_list = 0x1014, sbrk_start = 0x1004, RERRNO = 0, kern = 0x103C\<rparr>"

lemma demo_empty_ok: "heap_ok 0x1000 (interface_brk 0x1000 (kern demo_empty)) demo_empty [] {}"
  by (simp add: demo_empty_def heap_ok_def list_ok_def heap_range_def interface_brk_def)

lemma demo_heap_words: "load32 (hmem demo_heap) 0x1004 = 16" "load32 (hmem demo_heap) 0x1014 = 24"
  "load32 (hmem demo_heap) 0x1018 = 0" "load32 (hmem demo_heap) 0x102C = 16"
  by (simp_all add: demo_heap_def load32_other) (simp add: load32_def)

lemma demo_heap_ok:
  "heap_ok 0x1000 (interface_brk 0x1000 (kern demo_heap)) demo_heap [(0x1014, 24)] {(0x1004, 16, 0x1008), (0x102C, 16, 0x1030)}"
proof -
  have "kern demo_heap = 0x103C" "free_list demo_heap = 0x1014" by (simp_all add: demo_heap_def)
  then show ?thesis
    by (simp add: heap_ok_def list_ok_def heap_range_def interface_brk_def chunk_next_def demo_heap_words block_at_def
      chunk_in_def barea_def)
qed

text \<open>C21: over every memory source that moves its break as \<open>sbrk\<close> does, \<open>malloc\<close> returns. Either it
  gives \<open>NULL\<close> with \<open>ENOMEM\<close> and the heap is unchanged, or a pointer aligned to 8 to a block of at least
  \<open>s\<close> bytes, apart from all free chunks and all blocks in use, whose contents it does not touch.\<close>

theorem malloc_correct:
  assumes "sbrk_source sb brk" and "heap_ok lo (brk (kern h)) h fs A" and "heap_range lo (brk (kern h) + unat s + 16)"
  shows "\<exists>h' ptr. nano_malloc sb h s = Some (h', ptr) \<and> brk (kern h) \<le> brk (kern h') \<and>
    brk (kern h') \<le> brk (kern h) + unat s + 16 \<and> malloc_result lo (brk (kern h')) h fs A (unat s) h' ptr"
  by (rule sbrk_source.nano_malloc_ok [OF assms])

theorem malloc_correct_witness:
  "\<exists>h' ptr. nano_malloc (sbrk_interface 0x1000) demo_empty 10 = Some (h', ptr) \<and>
     malloc_result 0x1000 (interface_brk 0x1000 (kern h')) demo_empty [] {} 10 h' ptr"
proof -
  have "heap_range 0x1000 (interface_brk 0x1000 (kern demo_empty) + unat (10 :: u32) + 16)"
    by (simp add: heap_range_def interface_brk_def demo_empty_def)
  from malloc_correct [OF interface_sbrk.sbrk_source_axioms demo_empty_ok this] show ?thesis by auto
qed

text \<open>C22: \<open>free\<close> of a block in use returns, gives its chunk to the free list by insertion in address
  order with both merges, keeps the heap well-formed and leaves all other blocks as they are; \<open>cfree\<close> is
  the same.\<close>

theorem free_correct:
  assumes "heap_ok lo b h fs A" and "(r, n, p) \<in> A"
  shows "\<exists>m' fl'. nano_free h p = Some (h\<lparr>hmem := m', free_list := fl'\<rparr>) \<and> nano_cfree h p = nano_free h p \<and>
    heap_ok lo b (h\<lparr>hmem := m', free_list := fl'\<rparr>) (ins_chunk r n fs) (A - {(r, n, p)}) \<and>
    (\<forall>y \<in> A - {(r, n, p)}. \<forall>a \<in> barea y. m' a = hmem h a) \<and> total (ins_chunk r n fs) = total fs + n"
  using nano_free_ok [OF assms] by (auto simp: nano_cfree_def)

theorem free_correct_witness:
  "\<exists>m' fl'. nano_free demo_heap 0x1030 = Some (demo_heap\<lparr>hmem := m', free_list := fl'\<rparr>) \<and>
     heap_ok 0x1000 0x103C (demo_heap\<lparr>hmem := m', free_list := fl'\<rparr>) [(0x1014, 40)] {(0x1004, 16, 0x1008)}"
proof -
  have "interface_brk 0x1000 (kern demo_heap) = 0x103C" by (simp add: demo_heap_def interface_brk_def)
  then have "heap_ok 0x1000 0x103C demo_heap [(0x1014, 24)] {(0x1004, 16, 0x1008), (0x102C, 16, 0x1030)}"
    using demo_heap_ok by simp
  from free_correct [OF this, of "0x102C" 16 "0x1030"] show ?thesis by (auto simp: insert_Diff_if)
qed

text \<open>C34: \<open>malloc\<close> serves a request from the free list by first fit without the memory source, and a \<open>free\<close>
  of the result right after restores the very same free list; the blocks in use keep their contents.\<close>

theorem malloc_free_roundtrip:
  assumes "heap_ok lo b h fs A" and "unat s + 16 < 2 ^ 31" and "take_fit (unat (malloc_alloc_size s)) fs = Some ((x, j), fs')"
  shows "\<exists>h1 ptr h2. nano_malloc sb h s = Some (h1, ptr) \<and> heap_ok lo b h1 fs' (insert (x, j, ptr) A) \<and>
    nano_free h1 ptr = Some h2 \<and> heap_ok lo b h2 fs A \<and> kern h2 = kern h \<and> (\<forall>y \<in> A. \<forall>a \<in> barea y. hmem h2 a = hmem h a)"
proof -
  obtain m1 fl1 ptr where m: "nano_malloc sb h s = Some (h\<lparr>hmem := m1, free_list := fl1\<rparr>, ptr)"
    "heap_ok lo b (h\<lparr>hmem := m1, free_list := fl1\<rparr>) fs' (insert (x, j, ptr) A)"
    "unat s + 8 \<le> j" "\<forall>y \<in> A. barea y \<inter> {x..<x + j} = {}" "\<forall>y \<in> A. \<forall>a \<in> barea y. m1 a = hmem h a"
    using nano_malloc_fit [OF assms, of sb] by blast
  obtain m2 fl2 where f: "nano_free (h\<lparr>hmem := m1, free_list := fl1\<rparr>) ptr = Some (h\<lparr>hmem := m2, free_list := fl2\<rparr>)"
    "heap_ok lo b (h\<lparr>hmem := m2, free_list := fl2\<rparr>) (ins_chunk x j fs') (insert (x, j, ptr) A - {(x, j, ptr)})"
    "\<forall>y \<in> insert (x, j, ptr) A - {(x, j, ptr)}. \<forall>a \<in> barea y. m2 a = m1 a"
    using nano_free_ok [OF m(2), of x j ptr] by auto
  have "(x, j, ptr) \<notin> A"
  proof
    assume "(x, j, ptr) \<in> A"
    then have "{x..<x + j} \<inter> {x..<x + j} = {}" using m(4) by (fastforce simp: barea_def)
    then show False using m(3) by simp
  qed
  then have A: "insert (x, j, ptr) A - {(x, j, ptr)} = A" by blast
  have "ins_chunk x j fs' = fs"
    using ins_chunk_take_fit [OF assms(3)] malloc_chunk_size(1,2) [OF assms(2) refl] assms(1) by (auto simp: heap_ok_def)
  then show ?thesis using m(1,2,5) f unfolding A
    by (intro exI [of _ "h\<lparr>hmem := m1, free_list := fl1\<rparr>"] exI [of _ ptr] exI [of _ "h\<lparr>hmem := m2, free_list := fl2\<rparr>"]) simp
qed

theorem malloc_free_roundtrip_witness:
  "\<exists>h1 ptr h2. nano_malloc (sbrk_interface 0x1000) demo_heap 2 = Some (h1, ptr) \<and> nano_free h1 ptr = Some h2 \<and>
     free_seg (hmem h2) (free_list h2) [(0x1014, 24)] 0"
proof -
  have "malloc_alloc_size 2 = 12" by code_simp
  then have "take_fit (unat (malloc_alloc_size 2)) [(0x1014, 24)] = Some ((0x1020, 12), [(0x1014, 12)])" by simp
  from malloc_free_roundtrip [OF demo_heap_ok _ this, of "sbrk_interface 0x1000"] show ?thesis
    by (auto simp: heap_ok_def)
qed

text \<open>Freeing a pointer whose chunk already lies in a free chunk is detected: \<open>free\<close> sets \<open>ENOMEM\<close>
  and changes nothing else.\<close>

theorem double_free_detected:
  assumes "heap_ok lo b h fs A" and "(a, k) \<in> set fs" and "a \<le> c" and "c < a + k"
    and "ptr \<noteq> 0" and "get_chunk_from_ptr (hmem h) ptr = c"
  shows "nano_free h ptr = Some (h\<lparr>RERRNO := ENOMEM\<rparr>)"
proof -
  have "free_seg (hmem h) (free_list h) fs 0" "list_ok lo b fs" using assms(1) by (simp_all add: heap_ok_def)
  then show ?thesis using assms(2-6) by (rule nano_free_twice)
qed

theorem double_free_detected_witness:
  "nano_free demo_heap 0x1018 = Some (demo_heap\<lparr>RERRNO := ENOMEM\<rparr>)"
proof -
  have "get_chunk_from_ptr (hmem demo_heap) 0x1018 = 0x1014"
    by (simp add: get_chunk_from_ptr_def malloc_consts chunk_size_def demo_heap_words)
  from double_free_detected [OF demo_heap_ok _ _ _ _ this] show ?thesis by simp
qed

text \<open>A request for \<open>2\<^sup>31 - 11\<close> bytes or more, also one whose chunk size wraps around to a small
  number, is refused by \<open>malloc\<close> with \<open>NULL\<close> and \<open>ENOMEM\<close>; the heap and the memory source stay as they are.\<close>

theorem malloc_too_big:
  assumes "2 ^ 31 - 11 \<le> unat s"
  shows "nano_malloc sb h s = Some (h\<lparr>RERRNO := ENOMEM\<rparr>, 0)"
  using malloc_alloc_size_big [OF assms] by (auto simp: nano_malloc_def Let_def)

theorem malloc_too_big_witness:
  "nano_malloc (sbrk_interface 0x1000) demo_heap 0xFFFFFFFF = Some (demo_heap\<lparr>RERRNO := ENOMEM\<rparr>, 0)"
  using malloc_too_big [of "0xFFFFFFFF" "sbrk_interface 0x1000" demo_heap] by simp

text \<open>\<open>calloc\<close> is \<open>malloc\<close> of the product, taken modulo \<open>2\<^sup>32\<close>, and that many bytes of the block are
  zero. A product that wraps around to 0 gives a block for no bytes.\<close>

theorem calloc_correct:
  assumes "sbrk_source sb brk" and "heap_ok lo (brk (kern h)) h fs A"
    and "heap_range lo (brk (kern h) + (unat n * unat elem) mod 2 ^ 32 + 16)"
  shows "\<exists>h' ptr. nano_calloc sb h n elem = Some (h', ptr) \<and>
    malloc_result lo (brk (kern h')) h fs A ((unat n * unat elem) mod 2 ^ 32) h' ptr \<and>
    (ptr \<noteq> 0 \<longrightarrow> (\<forall>i < (unat n * unat elem) mod 2 ^ 32. hmem h' (ptr + i) = 0))"
  using sbrk_source.nano_calloc_ok [OF assms(1,2), of n elem] assms(3) by (simp add: unat_word_ariths)

theorem calloc_correct_witness:
  "\<exists>h' ptr. nano_calloc (sbrk_interface 0x1000) demo_empty 3 5 = Some (h', ptr) \<and>
     malloc_result 0x1000 (interface_brk 0x1000 (kern h')) demo_empty [] {} 15 h' ptr"
proof -
  have "heap_range 0x1000 (interface_brk 0x1000 (kern demo_empty) + (unat (3 :: u32) * unat (5 :: u32)) mod 2 ^ 32 + 16)"
    by (simp add: heap_range_def interface_brk_def demo_empty_def)
  from calloc_correct [OF interface_sbrk.sbrk_source_axioms demo_empty_ok this] show ?thesis by auto
qed

text \<open>C36: \<open>realloc\<close> of \<open>NULL\<close> is \<open>malloc\<close>, to size 0 it is \<open>free\<close>. Otherwise it returns the same block when it is big
  enough. When it is not, it asks \<open>malloc\<close>: if that gives \<open>NULL\<close>, so does \<open>realloc\<close>, and the old block stays in use;
  if it gives a block, this starts with the bytes of the old one, whose chunk is inserted in the free list that
  \<open>malloc\<close> left. The other blocks keep their contents.\<close>

theorem realloc_correct:
  assumes "sbrk_source sb brk" and "heap_ok lo (brk (kern h)) h fs A" and "(r, n, p) \<in> A" and "0 < unat sz"
    and "heap_range lo (brk (kern h) + unat sz + 16)"
  shows "nano_realloc sb h 0 sz = nano_malloc sb h sz \<and>
    nano_realloc sb h p 0 = map_option (\<lambda>h1. (h1, 0)) (nano_free h p) \<and>
    (\<exists>h' q. nano_realloc sb h p sz = Some (h', q) \<and>
      (p + unat sz \<le> r + n \<and> q = p \<and> h' = h \<or>
       r + n < p + unat sz \<and> nano_malloc sb h sz = Some (h', 0) \<and> q = 0 \<and> RERRNO h' = ENOMEM \<and> hmem h' = hmem h \<and>
         heap_ok lo (brk (kern h')) h' fs A \<or>
       r + n < p + unat sz \<and> (\<exists>h1 fs1 r' n'. nano_malloc sb h sz = Some (h1, q) \<and> kern h' = kern h1 \<and>
          heap_ok lo (brk (kern h1)) h1 fs1 (insert (r', n', q) A) \<and>
          heap_ok lo (brk (kern h')) h' (ins_chunk r n fs1) (insert (r', n', q) (A - {(r, n, p)})) \<and>
          q \<noteq> 0 \<and> 8 dvd q \<and> r' < q \<and> q + unat sz \<le> r' + n' \<and> (\<forall>i < r + n - p. hmem h' (q + i) = hmem h (p + i)) \<and>
          (\<forall>y \<in> A - {(r, n, p)}. \<forall>a \<in> barea y. hmem h' a = hmem h a))))"
proof (intro conjI)
  have "block_at (hmem h) (r, n, p)" using assms(2,3) by (simp add: heap_ok_def)
  then have "p \<noteq> 0" by (auto simp: block_at_def)
  then show "nano_realloc sb h p 0 = map_option (\<lambda>h1. (h1, 0)) (nano_free h p)"
    by (simp add: nano_realloc_def split: option.split)
qed (simp add: nano_realloc_def, rule sbrk_source.nano_realloc_ok [OF assms])

theorem realloc_correct_witness:
  "\<exists>h' q. nano_realloc (sbrk_interface 0x1000) demo_heap 0x1030 40 = Some (h', q) \<and>
     (q = 0 \<or> (\<forall>i < 12. hmem h' (q + i) = hmem demo_heap (0x1030 + i)))"
proof -
  have "heap_range 0x1000 (interface_brk 0x1000 (kern demo_heap) + unat (40 :: u32) + 16)"
    by (simp add: heap_range_def interface_brk_def demo_heap_def)
  from realloc_correct [OF interface_sbrk.sbrk_source_axioms demo_heap_ok _ _ this, of "0x102C" 16 "0x1030"] show ?thesis by auto
qed

text \<open>C35: \<open>memalign\<close> to a power of two asks \<open>malloc\<close> for a padded size. If that gives \<open>NULL\<close>, so does \<open>memalign\<close>, with an
  unchanged heap. Otherwise it returns a block of at least \<open>s\<close> bytes whose address is a multiple of the alignment
  and of 8; what \<open>malloc\<close> gave beyond this block is back in the free list: the block and the free list together
  have the same bytes as the free list and the block that \<open>malloc\<close> left, and the block has less than 16 bytes
  before its address and at most 19 bytes too many behind. The blocks in use keep their contents. Another
  alignment is refused.\<close>

theorem memalign_correct:
  assumes "sbrk_source sb brk" and "heap_ok lo (brk (kern h)) h fs A" and "heap_range lo (brk (kern h) + unat s + 2 ^ k + 32)"
  shows "(\<forall>align. align AND (align - 1) \<noteq> 0 \<longrightarrow> nano_memalign sb h align s = Some (h, 0)) \<and>
   (\<exists>h' ptr. nano_memalign sb h (2 ^ k) s = Some (h', ptr) \<and>
    (ptr = 0 \<and> nano_malloc sb h (memalign_padded k s) = Some (h', 0) \<and> RERRNO h' = ENOMEM \<and> hmem h' = hmem h \<and>
       heap_ok lo (brk (kern h')) h' fs A \<or>
     (\<exists>h1 p1 r1 n1 fs1 r n fs'. nano_malloc sb h (memalign_padded k s) = Some (h1, p1) \<and> kern h' = kern h1 \<and>
        heap_ok lo (brk (kern h1)) h1 fs1 (insert (r1, n1, p1) A) \<and> heap_ok lo (brk (kern h')) h' fs' (insert (r, n, ptr) A) \<and>
        regions fs' \<union> {r..<r + n} = regions fs1 \<union> {r1..<r1 + n1} \<and> ptr < r + 16 \<and> r + n \<le> ptr + unat s + 19 \<and>
        (\<forall>x \<in> A. barea x \<inter> {r..<r + n} = {}) \<and> ptr \<noteq> 0 \<and> 2 ^ max k 3 dvd ptr \<and> r < ptr \<and> ptr + unat s \<le> r + n \<and>
        (\<forall>x \<in> A. \<forall>y \<in> barea x. hmem h' y = hmem h y))))"
  by (rule conjI [OF _ sbrk_source.nano_memalign_ok [OF assms]]) (simp add: nano_memalign_def)

theorem memalign_correct_witness:
  "\<exists>h' ptr. nano_memalign (sbrk_interface 0x1000) demo_heap (2 ^ 5) 20 = Some (h', ptr) \<and> 32 dvd ptr"
proof -
  have "heap_range 0x1000 (interface_brk 0x1000 (kern demo_heap) + unat (20 :: u32) + 2 ^ 5 + 32)"
    by (simp add: heap_range_def interface_brk_def demo_heap_def)
  from memalign_correct [OF interface_sbrk.sbrk_source_axioms demo_heap_ok this] show ?thesis by auto
qed

text \<open>The entry points above \<open>memalign\<close>.\<close>

lemma valloc_page_aligned:
  assumes "sbrk_source sb brk" and "heap_ok lo (brk (kern h)) h fs A" and "heap_range lo (brk (kern h) + unat s + 0x1020)"
  shows "\<exists>h' ptr. nano_valloc sb h s = Some (h', ptr) \<and> 0x1000 dvd ptr"
proof -
  have "nano_valloc sb h s = nano_memalign sb h (2 ^ 12) s" by (simp add: nano_valloc_def malloc_consts)
  moreover have "heap_range lo (brk (kern h) + unat s + 2 ^ 12 + 32)" using assms(3) by (simp add: add.assoc)
  ultimately show ?thesis using sbrk_source.nano_memalign_ok [OF assms(1,2), of s 12] by auto
qed

lemma mallinfo_counts:
  assumes "heap_ok lo b h fs A" and "sbrk_start h = 0"
  shows "nano_mallinfo sb h info = Some (h, info\<lparr>arena := 0, fordblks := of_nat (total fs), uordblks := - of_nat (total fs)\<rparr>)"
  using free_total_seg [of "hmem h" "free_list h" fs lo b 0] assms by (simp add: nano_mallinfo_def heap_ok_def)

end
