(* ===== verification/Spec2Isabelle.thy ===== *)
theory Spec2Isabelle
  imports Prelude Storm Startup RttRing RttTerminal RttPrintf CMem MemFuns StrScan StrCopy StrCmp StrTok SizeBuild Ctype StrNum Qsort
    Gmtime TimeZone LocalTime TimeText TimeWeek TimeParse TimeRound BigArith BigPool BigNum BigDecimal BigDouble
    NanoMalloc NanoHeap NanoMemalign NanoClient
begin

text \<open>
  A model of the C and C++ sources of the repository. An application is a payload that the kernel of
  the board starts; it links a runtime over the system calls, a debug channel and a C library with its
  allocator; each is modelled by its own theories.

  \<^bold>\<open>The payload\<close> (\<open>src/test/\<close>). \<open>Startup\<close> is \<open>_start2\<close> of \<open>interface.c\<close>, which copies the data segment, clears the
  zero segment, runs the functions of the two arrays of \<open>__libc_init_array\<close> (\<open>misc/init.c\<close>), prints a line and calls
  \<open>main\<close>; what these functions do to memory is a parameter. \<open>Storm\<close> is the runtime of \<open>libstorm.cc\<close> and \<open>libstorm.h\<close>: the record
  \<open>storm\<close> has the task queue, the table of pin interrupts and the timers, sockets and bus operations
  with the shared pointers that keep them alive. The kernel is not in the repository: the answer to
  each system call is an argument, the calls made are a list in the state, and what the kernel may call
  back is what it has registered. \<open>storm_step\<close> is the relation of operations of user code, callbacks and
  turns of the scheduler; the theorems are about all its reachable states. That kernel numbers of
  timers fit in the 16 bits the code keeps is a hypothesis; what happens otherwise is shown too.

  \<^bold>\<open>The debug channel\<close> (\<open>src/rtt/\<close>). \<open>RttRing\<close> holds the control block of \<open>SEGGER_RTT.c\<close> as the
  records \<open>rtt_cb\<close> and \<open>ring_buffer\<close>, the constants of \<open>SEGGER_RTT_Conf.h\<close>, and \<open>SEGGER_RTT_Write\<close>
  and \<open>SEGGER_RTT_Read\<close>. The debug host reads the rings while the target runs: the field
  \<open>host_moves\<close> lists how many bytes it takes before each load of \<open>RdOff\<close>; when the list is used up
  the next load has no value, so a run that needs more loads than there are moves is \<open>None\<close>, and a
  theorem that a call returns says how many moves are enough. \<open>RttTerminal\<close> holds the other
  functions of that file and states what a producer and a consumer of bytes rely on as the locales
  \<open>byte_sink\<close>, \<open>live_sink\<close> and \<open>byte_source\<close>, interpreted on the ring functions. \<open>RttPrintf\<close> holds
  \<open>SEGGER_RTT_printf.c\<close> over any sink of bytes; 32-bit arithmetic is on \<open>32 word\<close> or written out
  with \<open>wrap_s32\<close> and \<open>wrap_u32\<close>.

  \<^bold>\<open>The C library\<close> (\<open>src/newlib-2.2.0.20150623/newlib/libc/\<close>). \<open>CMem\<close> is the memory of the target: a
  function from addresses to bytes, with little-endian 32-bit loads and stores, the macros
  \<open>DETECTNULL\<close> and \<open>DETECTCHAR\<close>, and the locale \<open>word_test\<close> that says when a test of a word stands
  for a test of its bytes. Addresses are unbounded naturals: an object does not wrap around the
  address space. Loops whose end depends on the contents of memory are
  \<open>partial_function (option)\<close>, and their theorems state that they return.
  \<^item> \<open>MemFuns\<close>, \<open>StrScan\<close>, \<open>StrCopy\<close> and \<open>StrCmp\<close>: the functions of \<open>string/\<close> that work on bytes, in
    the word-at-a-time branch that the build compiles; the theorems reduce each to a function on the
    bytes between its arguments and say which bytes it leaves alone.
  \<^item> \<open>SizeBuild\<close>: the other branch of those files, the one for \<open>PREFER_SIZE_OVER_SPEED\<close>, and the
    equality of the two builds.
  \<^item> \<open>StrTok\<close>: \<open>strtok_r\<close>, \<open>strtok\<close> and \<open>strsep\<close> against the list of the tokens of a string.
  \<^item> \<open>Ctype\<close>: \<open>ctype/\<close> in the C locale, the table \<open>_ctype_\<close> included.
  \<^item> \<open>StrNum\<close>: the parsers \<open>strtol\<close>, \<open>strtoul\<close>, \<open>strtoll\<close>, \<open>strtoull\<close>, \<open>atoi\<close>, \<open>atol\<close>, \<open>atoll\<close> of \<open>stdlib/\<close>,
    written once over the width of the result, with \<open>errno\<close> and the end pointer, and the printers
    \<open>utoa\<close> and \<open>itoa\<close>; the two are inverse to each other.
  \<^item> \<open>Qsort\<close>: \<open>qsort\<close> and \<open>bsearch\<close> of \<open>search/\<close>. The algorithm runs over the record \<open>sort_env\<close> of the
    comparison and the two exchanges. The locale \<open>comparison\<close> has the laws of the caller's function,
    \<open>sort_array\<close> those of the exchanges; they are interpreted on an array of string pointers in
    memory that is ordered by \<open>strcmp\<close>. \<open>bsearch\<close> is proved for fewer than \<open>2 ^ 31\<close> elements, so that
    the sum \<open>lower + upper\<close> of two \<open>size_t\<close> does not wrap.

  \<^item> \<open>Gmtime\<close>, \<open>TimeZone\<close> and \<open>LocalTime\<close>: \<open>gmtime_r\<close>, \<open>localtime_r\<close> and \<open>mktime\<close> of \<open>time/\<close> with the parser of
    the variable \<open>TZ\<close> (\<open>_tzset_unlocked_r\<close>, a list of bytes) and the limits of summer time, against the
    Gregorian calendar as a count of days (\<open>civil_day\<close>). A \<open>time_t\<close> has 32 bits; the sums that can leave
    them are wrapped, so the theorems on \<open>mktime\<close> hold modulo \<open>2 ^ 32\<close> or for times whose local time
    still fits. Fields up to \<open>2 ^ 28\<close> in size do not wrap while they are brought into their ranges.

  \<^item> \<open>TimeText\<close>, \<open>TimeWeek\<close>, \<open>TimeParse\<close> and \<open>TimeRound\<close>: times as text, in the C locale of \<open>locale/timelocal.c\<close>. \<open>strftime\<close>
    (\<open>sf_run\<close>) puts out one \<open>piece\<close> for each conversion; the text it makes when there is room is \<open>sf_text\<close>, and
    \<open>sf_run_text\<close> says what is left in the buffer in both cases. \<open>TimeWeek\<close> shows what the numbers of weeks mean.
    \<open>strptime\<close> (\<open>sp_run\<close>) reads a string in memory, with \<open>strtol\<close> and \<open>strncasecmp\<close> of the other theories;
    \<open>TimeRound\<close> shows what it reads back of the text of \<open>strftime\<close>, and what it does not. Both functions call
    themselves for some conversions; depth 1 is enough, as no format of the locale leads to a second such call.

  \<^bold>\<open>Multiple-precision numbers\<close> (\<open>stdlib/mprec.c\<close>), on which the conversions between text and doubles rest.
  \<^item> \<open>BigArith\<close> has the loops over the words of the numbers, on lists of words, with the 32-bit arithmetic on
    half-words; each lemma says what a loop computes and that no carry is lost.
  \<^item> \<open>BigPool\<close> has the store of the numbers, the record \<open>mp\<close>: the \<open>_Bigint\<close> structures at their addresses, the
    lists of free ones by size, the list of powers \<open>_p5s\<close>, and the answers \<open>_calloc_r\<close> will give, which are
    addresses not in use or \<open>NULL\<close>. \<open>mp_ok own\<close> is the invariant: the free lists are disjoint from the
    numbers in use, \<open>own\<close>. The locale \<open>number_pool\<close> is what the operations rely on, interpreted on
    \<open>Balloc\<close> and \<open>Bfree\<close>. Sizes are up to \<open>2 ^ 29\<close> words; above, the request for memory wraps around.
  \<^item> \<open>BigNum\<close>: \<open>multadd\<close>, \<open>i2b\<close>, \<open>mult\<close>, \<open>lshift\<close>, \<open>cmp\<close> and \<open>diff\<close> refine the operations on natural numbers
    (\<open>big_val\<close>), as long as there is memory (\<open>has_memory\<close>); \<open>makes\<close> is their common postcondition.
  \<^item> \<open>BigDecimal\<close>: \<open>pow5mult\<close> with the list of the powers of 625 it extends and keeps, and \<open>s2b\<close>.
  \<^item> \<open>BigDouble\<close>: \<open>d2b\<close>, \<open>b2d\<close>, \<open>ulp\<close>, \<open>any_on\<close>, \<open>copybits\<close>, \<open>hi0bits\<close> and \<open>lo0bits\<close>. A double is its two words,
    read as the significand \<open>dbl_mant\<close> times a power of two.

  \<^bold>\<open>The allocator\<close> (\<open>stdlib/nano-mallocr.c\<close>, \<open>reent/sbrkr.c\<close> and \<open>_sbrk\<close> of \<open>src/test/interface.c\<close>). The
  state is the record \<open>heap\<close>: the memory, the two static pointers, \<open>errno\<close> and the state of the memory
  source, which is a parameter. \<open>NanoMalloc\<close> has the functions and what they do to the free list.
  \<open>NanoHeap\<close> has the invariant \<open>heap_ok\<close> of the blocks in use and the free list, and the locale
  \<open>sbrk_source\<close> with what a memory source promises, interpreted on \<open>_sbrk\<close>; \<open>NanoMemalign\<close> shows the
  invariant for the aligned blocks; \<open>NanoClient\<close> states what a program sees: blocks are disjoint, live in
  the range the source gave, keep their contents while others come and go, and come back to the free
  list. A heap lies within \<open>heap_range\<close>, which keeps it below \<open>2 ^ 32 - 16\<close> and shorter than
  \<open>2 ^ 31\<close> bytes, the bounds under which the sums of the code do not wrap; requests beyond are
  refused with \<open>ENOMEM\<close>. The list walks need no fuel: they are \<open>partial_function (option)\<close> that return on
  every list that ends.

  \<^bold>\<open>Not modelled\<close>: the examples \<open>main.cc\<close> and the PC build of the runtime, the system calls in assembly,
  the two-way string search of \<open>str-two-way.h\<close>, on which the builds of \<open>strstr\<close> and \<open>memmem\<close> that prefer
  speed rest (the other branch of these two is the one modelled), the era formats of \<open>strftime\<close>, which this
  configuration does not build, \<open>wcsftime\<close>, the printing of \<open>nano_malloc_stats\<close>, the functions of \<open>mprec.c\<close> that compute with doubles (\<open>ratio\<close>,
  \<open>_mprec_log10\<close>) and the conversions \<open>strtod\<close> and \<open>dtoa\<close> that do, stdio, libm, locales other than C, the older allocator \<open>mallocr.c\<close>,
  and the ports of the library to other machines.
\<close>

end
